(* ===== verification/Boot_Prelude.thy ===== *)
theory Boot_Prelude
  imports Main "HOL-Library.Word" "HOL-Library.Monad_Syntax"
begin

text \<open>
  The prelude of the development: the machine integers of the loader under the names the C code
  gives them, the rendering of a fallible C function (a \<open>bool\<close> result with an \<open>out\<close>
  parameter is an option), and the generic facts on words, options and lists that the component
  theories share. Nothing here models code of its own.
\<close>

unbundle bit_operations_syntax

subsection \<open>Machine integers\<close>

type_synonym u8 = "8 word"
type_synonym u16 = "16 word"
type_synonym u32 = "32 word"
type_synonym u64 = "64 word"

text \<open>\<open>size_t\<close> and \<open>uintptr_t\<close> are 64 bits on the only architecture the loader runs on.\<close>

type_synonym usize = "64 word"

named_theorems word_nat \<open>rewrite word arithmetic to arithmetic on \<open>nat\<close>\<close>

lemmas [word_nat] = word_less_nat_alt word_le_nat_alt unat_word_ariths

lemma unat_lt64 [simp]: "unat (w :: u64) < 18446744073709551616"
  using unsigned_less [of w] by simp

lemma unat_lt32 [simp]: "unat (w :: u32) < 4294967296"
  using unsigned_less [of w] by simp

lemma unat_lt16 [simp]: "unat (w :: u16) < 65536"
  using unsigned_less [of w] by simp

lemma unat_lt8 [simp]: "unat (w :: u8) < 256"
  using unsigned_less [of w] by simp

lemma unat_add_fits:
  fixes a b :: "'a::len word"
  shows "unat a + unat b < 2 ^ LENGTH('a) \<Longrightarrow> unat (a + b) = unat a + unat b"
  by (simp add: unat_word_ariths)

lemma unat_mult_fits:
  fixes a b :: "'a::len word"
  shows "unat a * unat b < 2 ^ LENGTH('a) \<Longrightarrow> unat (a * b) = unat a * unat b"
  by (simp add: unat_word_ariths)

lemma unat_add_below:
  fixes a b c :: "'a::len word"
  shows "unat a + unat b \<le> unat c \<Longrightarrow> unat (a + b) = unat a + unat b"
  by (rule unat_add_fits) (rule le_less_trans [OF _ unsigned_less])

lemma unat_mult_below:
  fixes a b c :: "'a::len word"
  shows "unat a * unat b \<le> unat c \<Longrightarrow> unat (a * b) = unat a * unat b"
  by (rule unat_mult_fits) (rule le_less_trans [OF _ unsigned_less])

lemma unat_sub_fits:
  fixes a b :: "'a::len word"
  shows "b \<le> a \<Longrightarrow> unat (a - b) = unat a - unat b"
  by (rule unat_sub)

lemma unat_Suc_fits:
  fixes a :: "'a::len word"
  assumes "a < b"
  shows "unat (a + 1) = Suc (unat a)"
proof -
  have "unat a + 1 < 2 ^ LENGTH('a)"
    using assms by (metis Suc_eq_plus1 Suc_leI le_less_trans unsigned_less word_less_nat_alt)
  then show ?thesis by (simp add: unat_word_ariths)
qed

lemma unat_neg:
  fixes w :: "'a::len word"
  assumes "w \<noteq> 0"
  shows "unat (- w) = 2 ^ LENGTH('a) - unat w"
proof -
  have "of_nat (2 ^ LENGTH('a) - unat w) = (of_nat (2 ^ LENGTH('a)) - of_nat (unat w) :: 'a word)"
    by (rule of_nat_diff) (simp add: less_imp_le)
  also have "\<dots> = - w" by simp
  finally have "- w = of_nat (2 ^ LENGTH('a) - unat w)" ..
  moreover have "2 ^ LENGTH('a) - unat w < 2 ^ LENGTH('a)" using assms by (simp add: unat_gt_0)
  ultimately show ?thesis by (simp add: unat_of_nat)
qed

lemma ex_unat64: "n < 2 ^ 64 \<Longrightarrow> \<exists>w :: u64. unat w = n"
  by (rule exI [of _ "of_nat n"]) (simp add: unat_of_nat take_bit_nat_eq_self)

lemma unat_inj: "unat a = unat b \<Longrightarrow> a = (b :: 'a::len word)"
  by (simp add: word_unat_eq_iff)

lemma word_induct_nat:
  fixes w :: "'a::len word"
  assumes "\<And>w. (\<And>v. unat v < unat w \<Longrightarrow> P v) \<Longrightarrow> P w"
  shows "P w"
  using assms by (induction "unat w" arbitrary: w rule: less_induct) blast

text \<open>Widening keeps a value, and narrowing keeps one that fits.\<close>

lemma unat_ucast_up [simp]:
  "unat (ucast (w :: u32) :: u64) = unat w" "unat (ucast (v :: u16) :: u64) = unat v"
  "unat (ucast (b :: u8) :: u64) = unat b" "unat (ucast (v :: u16) :: u32) = unat v"
  "unat (ucast (b :: u8) :: u32) = unat b" "unat (ucast (b :: u8) :: u16) = unat b"
  by (simp_all add: unsigned_ucast_eq take_bit_nat_eq_self less_trans [OF unat_lt32]
      less_trans [OF unat_lt16] less_trans [OF unat_lt8])

lemma unat_ucast_down:
  "unat w < 2 ^ LENGTH('b) \<Longrightarrow> unat (ucast (w :: 'a::len word) :: 'b::len word) = unat w"
  by (simp add: unsigned_ucast_eq take_bit_nat_eq_self)

lemma word_eq_of_nat: "unat w = k \<Longrightarrow> w = of_nat k"
  by auto

subsection \<open>Powers of two and masks\<close>

lemma nat_and_pred_eq_0_iff:
  "(n :: nat) AND (n - 1) = 0 \<longleftrightarrow> n = 0 \<or> (\<exists>k. n = 2 ^ k)"
proof (induction n rule: less_induct)
  case (less n)
  show ?case
  proof (cases "even n")
    case True
    then obtain m where m: "n = 2 * m" by blast
    show ?thesis
    proof (cases "m = 0")
      case True
      with m show ?thesis by simp
    next
      case False
      have "n - 1 = 2 * (m - 1) + 1" using False m by simp
      then have "n AND (n - 1) = 2 * (m AND (m - 1))"
        using m by (subst and_rec) simp
      moreover have "m < n" using False m by simp
      ultimately have "n AND (n - 1) = 0 \<longleftrightarrow> (\<exists>k. m = 2 ^ k)"
        using less [of m] False by simp
      also have "\<dots> \<longleftrightarrow> (\<exists>k. n = 2 ^ k)"
      proof
        assume "\<exists>k. m = 2 ^ k"
        then obtain k where "m = 2 ^ k" ..
        with m have "n = 2 ^ Suc k" by simp
        then show "\<exists>k. n = 2 ^ k" by blast
      next
        assume "\<exists>k. n = 2 ^ k"
        then obtain k where k: "n = 2 ^ k" ..
        with True have "k \<noteq> 0" by (cases k) auto
        with k m have "m = 2 ^ (k - 1)" by (cases k) auto
        then show "\<exists>k. m = 2 ^ k" by blast
      qed
      finally show ?thesis using False m by simp
    qed
  next
    case odd: False
    obtain b where "n = 2 * b + 1" using odd by (auto elim!: oddE)
    then have "n AND (n - 1) = n - 1" by (subst and_rec) simp
    moreover have "(\<exists>k. n = 2 ^ k) \<longleftrightarrow> n = 1"
    proof
      assume "\<exists>k. n = 2 ^ k"
      then obtain k where "n = 2 ^ k" ..
      with odd show "n = 1" by (cases k) auto
    next
      assume "n = 1"
      then have "n = 2 ^ 0" by simp
      then show "\<exists>k. n = 2 ^ k" by blast
    qed
    moreover have "n \<noteq> 0" using odd by (cases n) auto
    ultimately show ?thesis by auto
  qed
qed

text \<open>The test the loader makes for a power of two, read as a statement about the value.\<close>

lemma word_and_pred_eq_0_iff:
  fixes w :: "'a::len word"
  assumes "w \<noteq> 0"
  shows "w AND (w - 1) = 0 \<longleftrightarrow> (\<exists>k < LENGTH('a). unat w = 2 ^ k)"
proof -
  have "unat (w AND (w - 1)) = unat w AND (unat w - 1)"
    using assms by (simp add: unsigned_and_eq unat_minus_one)
  then have "w AND (w - 1) = 0 \<longleftrightarrow> unat w AND (unat w - 1) = 0"
    by (metis unat_0 unat_inj)
  also have "\<dots> \<longleftrightarrow> (\<exists>k. unat w = 2 ^ k)"
    using assms nat_and_pred_eq_0_iff [of "unat w"] by (simp add: unat_eq_0)
  also have "\<dots> \<longleftrightarrow> (\<exists>k < LENGTH('a). unat w = 2 ^ k)"
  proof
    assume "\<exists>k. unat w = 2 ^ k"
    then obtain k where k: "unat w = 2 ^ k" ..
    then have "(2 :: nat) ^ k < 2 ^ LENGTH('a)" by (metis unsigned_less)
    then have "k < LENGTH('a)" by (simp add: power_strict_increasing_iff)
    with k show "\<exists>k < LENGTH('a). unat w = 2 ^ k" by blast
  qed auto
  finally show ?thesis .
qed

lemma unat_and_not_mask:
  fixes w a :: "'a::len word"
  assumes "unat a = 2 ^ k"
  shows "unat (w AND NOT (a - 1)) = unat w div 2 ^ k * 2 ^ k"
proof -
  have "k < LENGTH('a)"
  proof -
    have "(2 :: nat) ^ k < 2 ^ LENGTH('a)" by (metis assms unsigned_less)
    then show ?thesis by (simp add: power_strict_increasing_iff)
  qed
  have "a = of_nat (unat a)" by simp
  also have "\<dots> = 2 ^ k" using assms by simp
  finally have a: "a - 1 = mask k" by (simp add: mask_eq_exp_minus_1)
  have "w AND NOT (a - 1) = push_bit k (drop_bit k w)"
    unfolding a by (simp add: bit_eq_iff bit_simps) auto
  also have "unat \<dots> = take_bit LENGTH('a) (push_bit k (drop_bit k (unat w)))"
    by (simp add: unsigned_push_bit_eq unsigned_drop_bit_eq take_bit_nat_eq_self)
  also have "\<dots> = unat w div 2 ^ k * 2 ^ k"
  proof -
    have "unat w div 2 ^ k * 2 ^ k \<le> unat w" by (rule div_times_less_eq_dividend)
    also have "\<dots> < 2 ^ LENGTH('a)" by simp
    finally show ?thesis
      by (simp add: push_bit_eq_mult drop_bit_eq_div take_bit_nat_eq_self)
  qed
  finally show ?thesis .
qed

subsection \<open>Fallible operations\<close>

text \<open>
  A C function that returns \<open>bool\<close> and writes through an \<open>out\<close> pointer becomes a function
  into \<open>'a option\<close>: \<open>None\<close> is \<open>false\<close>. A guard \<open>if (!c) return false;\<close> is
  \<open>ensure c\<close> in the option monad.
\<close>

definition ensure :: "bool \<Rightarrow> unit option" where
  "ensure b = (if b then Some () else None)"

lemma ensure_simps [simp]: "ensure True = Some ()" "ensure False = None"
  by (simp_all add: ensure_def)

lemma ensure_eq_Some [simp]: "ensure b = Some u \<longleftrightarrow> b"
  by (simp add: ensure_def)

lemma ensure_eq_None [simp]: "ensure b = None \<longleftrightarrow> \<not> b"
  by (simp add: ensure_def)

lemma bind_ensure_eq_Some [simp]: "(ensure b \<bind> f) = Some y \<longleftrightarrow> b \<and> f () = Some y"
  by (cases b) simp_all

lemma bind_ensure_eq_None [simp]: "(ensure b \<bind> f) = None \<longleftrightarrow> (b \<longrightarrow> f () = None)"
  by (cases b) simp_all

lemmas opt_bind = Option.bind_eq_Some_conv

subsection \<open>Lists\<close>

lemma nth_take_drop: "i < n \<Longrightarrow> a + n \<le> length xs \<Longrightarrow> take n (drop a xs) ! i = xs ! (a + i)"
  by simp

lemma map_nth_upt_slice: "a + n \<le> length xs \<Longrightarrow> map (nth xs) [a..<a + n] = take n (drop a xs)"
  by (rule nth_equalityI) auto

lemma upt_split: "i \<le> k \<Longrightarrow> k \<le> j \<Longrightarrow> [i..<j] = [i..<k] @ [k..<j]"
  by (metis le_Suc_ex upt_add_eq_append)

lemma odd_and_1: "(x AND 1 = (0 :: u32)) = even (unat x)"
proof -
  have "unat (x AND 1) = unat x mod 2" by (simp only: and_one_eq unat_mod) simp
  then show ?thesis by (simp add: word_unat_eq_iff even_iff_mod_2_eq_zero)
qed

end
