(* ===== verification/Checked.thy ===== *)
theory Checked
  imports Boot_Prelude
begin

text \<open>
  \<open>src/util/checked.h\<close>: arithmetic on sizes that came off a disk. A helper returns \<open>None\<close>
  where the C helper returns \<open>false\<close>: when the exact result does not fit the type.
\<close>

definition checked_add_u64 :: "u64 \<Rightarrow> u64 \<Rightarrow> u64 option" where
  "checked_add_u64 a b = (if unat a + unat b < 2 ^ 64 then Some (a + b) else None)"

definition checked_mul_u64 :: "u64 \<Rightarrow> u64 \<Rightarrow> u64 option" where
  "checked_mul_u64 a b = (if unat a * unat b < 2 ^ 64 then Some (a * b) else None)"

definition checked_add_size :: "usize \<Rightarrow> usize \<Rightarrow> usize option" where
  "checked_add_size a b = (if unat a + unat b < 2 ^ 64 then Some (a + b) else None)"

definition checked_mul_size :: "usize \<Rightarrow> usize \<Rightarrow> usize option" where
  "checked_mul_size a b = (if unat a * unat b < 2 ^ 64 then Some (a * b) else None)"

definition checked_narrow_size :: "u64 \<Rightarrow> usize option" where
  "checked_narrow_size value = (if value > ucast (-1 :: usize) then None else Some (ucast value))"

definition checked_align_up_u64 :: "u64 \<Rightarrow> u64 \<Rightarrow> u64 option" where
  "checked_align_up_u64 value alignment =
     (if alignment = 0 \<or> alignment AND (alignment - 1) \<noteq> 0 then None
      else case checked_add_u64 value (alignment - 1) of
             None \<Rightarrow> None
           | Some s \<Rightarrow> Some (s AND NOT (alignment - 1)))"

subsection \<open>What the helpers return\<close>

text \<open>
  An accepted sum or product is the exact one, so the rest of the development reads a successful
  check as an equation on natural numbers.
\<close>

lemma checked_add_u64_Some:
  "checked_add_u64 a b = Some c \<longleftrightarrow> unat c = unat a + unat b"
proof
  assume "checked_add_u64 a b = Some c"
  then show "unat c = unat a + unat b"
    by (auto simp: checked_add_u64_def unat_word_ariths split: if_splits)
next
  assume c: "unat c = unat a + unat b"
  then have "unat a + unat b < 2 ^ 64" using unat_lt64 [of c] by simp
  moreover from this have "a + b = c" using c by (intro unat_inj) (simp add: unat_word_ariths)
  ultimately show "checked_add_u64 a b = Some c" by (simp add: checked_add_u64_def)
qed

lemma checked_mul_u64_Some:
  "checked_mul_u64 a b = Some c \<longleftrightarrow> unat c = unat a * unat b"
proof
  assume "checked_mul_u64 a b = Some c"
  then show "unat c = unat a * unat b"
    by (auto simp: checked_mul_u64_def unat_word_ariths split: if_splits)
next
  assume c: "unat c = unat a * unat b"
  then have "unat a * unat b < 2 ^ 64" using unat_lt64 [of c] by simp
  moreover from this have "a * b = c" using c by (intro unat_inj) (simp add: unat_word_ariths)
  ultimately show "checked_mul_u64 a b = Some c" by (simp add: checked_mul_u64_def)
qed

lemma checked_add_u64_None: "checked_add_u64 a b = None \<longleftrightarrow> 2 ^ 64 \<le> unat a + unat b"
  by (simp add: checked_add_u64_def not_less)

lemma checked_mul_u64_None: "checked_mul_u64 a b = None \<longleftrightarrow> 2 ^ 64 \<le> unat a * unat b"
  by (simp add: checked_mul_u64_def not_less)

lemma checked_size_eq:
  "checked_add_size = checked_add_u64" "checked_mul_size = checked_mul_u64"
  by (simp_all add: fun_eq_iff checked_add_size_def checked_add_u64_def
      checked_mul_size_def checked_mul_u64_def)

lemmas checked_Some = checked_add_u64_Some checked_mul_u64_Some

lemma checked_narrow_size_total: "checked_narrow_size value = Some value"
  by (simp add: checked_narrow_size_def flip: word_not_simps)

subsection \<open>Rounding up\<close>

definition pow2 :: "u64 \<Rightarrow> bool" where
  "pow2 a \<longleftrightarrow> a \<noteq> 0 \<and> a AND (a - 1) = 0"

lemma pow2_iff: "pow2 a \<longleftrightarrow> (\<exists>k < 64. unat a = 2 ^ k)"
proof (cases "a = 0")
  case True
  then show ?thesis by (simp add: pow2_def)
next
  case False
  with word_and_pred_eq_0_iff [of a] show ?thesis by (simp add: pow2_def)
qed

lemma pow2_exp: "pow2 a \<longleftrightarrow> (\<exists>k. unat a = 2 ^ k)"
proof
  assume "\<exists>k. unat a = 2 ^ k"
  then obtain k where k: "unat a = 2 ^ k" ..
  then have "(2 :: nat) ^ k < 2 ^ 64" using unat_lt64 [of a] by simp
  then have "k < 64" by (rule power_less_imp_less_exp [rotated]) simp
  with k show "pow2 a" by (auto simp: pow2_iff)
qed (auto simp: pow2_iff)

lemma pow2_pos: "pow2 a \<Longrightarrow> 0 < unat a"
  by (simp add: pow2_def unat_gt_0)

lemma unat_align_down:
  assumes "pow2 a"
  shows "unat (w AND NOT (a - 1)) = unat w div unat a * unat a"
proof -
  from assms obtain k where "unat a = 2 ^ k" unfolding pow2_iff by blast
  then show ?thesis using unat_and_not_mask [of a k w] by simp
qed

text \<open>The rounding the code computes, on unbounded numbers.\<close>

definition align_up_nat :: "nat \<Rightarrow> nat \<Rightarrow> nat" where
  "align_up_nat v a = (v + (a - 1)) div a * a"

lemma align_up_nat_bounds:
  assumes "0 < a"
  shows "v \<le> align_up_nat v a" "align_up_nat v a < v + a" "a dvd align_up_nat v a"
proof -
  let ?s = "v + (a - 1)"
  have "?s = align_up_nat v a + ?s mod a" by (simp add: align_up_nat_def)
  moreover have "?s mod a < a" using assms by simp
  ultimately show "v \<le> align_up_nat v a" "align_up_nat v a < v + a" using assms by linarith+
  show "a dvd align_up_nat v a" by (simp add: align_up_nat_def)
qed

lemma align_up_nat_least:
  assumes "0 < a" "a dvd m" "v \<le> m"
  shows "align_up_nat v a \<le> m"
proof -
  from assms(2) obtain q where q: "m = q * a" by (metis dvdE mult.commute)
  have "(v + (a - 1)) div a \<le> (q * a + (a - 1)) div a"
    using assms(3) q by (intro div_le_mono) simp
  also have "\<dots> = q" using assms(1) by (intro div_nat_eqI) (simp_all add: algebra_simps)
  finally show ?thesis unfolding align_up_nat_def q by (rule mult_le_mono1)
qed

lemma align_up_overflow:
  assumes "pow2 a"
  shows "2 ^ 64 \<le> unat v + (unat a - 1) \<longleftrightarrow> 2 ^ 64 \<le> align_up_nat (unat v) (unat a)"
proof -
  from assms obtain k where k: "k < 64" "unat a = 2 ^ k" unfolding pow2_iff by blast
  have a: "0 < unat a" using k by simp
  have "(2 :: nat) ^ 64 = 2 ^ (64 - k) * unat a"
    using k by (simp flip: power_add)
  then obtain q where q: "(2 :: nat) ^ 64 = q * unat a" by blast
  show ?thesis
  proof
    assume "2 ^ 64 \<le> unat v + (unat a - 1)"
    then have "q * unat a div unat a \<le> (unat v + (unat a - 1)) div unat a"
      unfolding q by (rule div_le_mono)
    then have "q \<le> (unat v + (unat a - 1)) div unat a" using a by simp
    then show "2 ^ 64 \<le> align_up_nat (unat v) (unat a)"
      unfolding q align_up_nat_def by (rule mult_le_mono1)
  next
    assume "2 ^ 64 \<le> align_up_nat (unat v) (unat a)"
    also have "\<dots> \<le> unat v + (unat a - 1)"
      unfolding align_up_nat_def by (rule div_times_less_eq_dividend)
    finally show "2 ^ 64 \<le> unat v + (unat a - 1)" .
  qed
qed

lemma checked_align_up_u64_eq:
  "checked_align_up_u64 v a =
     (if pow2 a \<and> align_up_nat (unat v) (unat a) < 2 ^ 64
      then Some (of_nat (align_up_nat (unat v) (unat a))) else None)"
proof (cases "pow2 a")
  case False
  then show ?thesis by (auto simp: checked_align_up_u64_def pow2_def)
next
  case True
  then have "a \<noteq> 0" and simple: "checked_align_up_u64 v a =
      (case checked_add_u64 v (a - 1) of None \<Rightarrow> None | Some s \<Rightarrow> Some (s AND NOT (a - 1)))"
    by (auto simp: checked_align_up_u64_def pow2_def)
  then have pred: "unat (a - 1) = unat a - 1" by (simp add: unat_minus_one)
  show ?thesis
  proof (cases "checked_add_u64 v (a - 1)")
    case None
    then have "2 ^ 64 \<le> align_up_nat (unat v) (unat a)"
      using align_up_overflow [OF True, of v] pred by (simp add: checked_add_u64_None)
    with None simple show ?thesis by simp
  next
    case (Some s)
    then have s: "unat s = unat v + (unat a - 1)" using pred by (simp add: checked_Some)
    have eq: "unat (s AND NOT (a - 1)) = align_up_nat (unat v) (unat a)"
      using unat_align_down [OF True] s by (simp add: align_up_nat_def)
    then have "align_up_nat (unat v) (unat a) < 2 ^ 64"
      using unat_lt64 [of "s AND NOT (a - 1)"] by simp
    moreover have "s AND NOT (a - 1) = of_nat (align_up_nat (unat v) (unat a))"
      by (simp flip: eq)
    ultimately show ?thesis using Some simple True by simp
  qed
qed

lemma checked_align_up_u64_Some:
  assumes "checked_align_up_u64 v a = Some r"
  shows "pow2 a" "unat r = align_up_nat (unat v) (unat a)"
  using assms by (auto simp: checked_align_up_u64_eq unat_of_nat split: if_splits)

text \<open>
  \<open>checked_align_up_u64\<close> answers exactly when the alignment is a power of two and the least
  multiple of it at or above the value is representable, and then that multiple is the answer: it
  refuses neither too much nor too little at the top of the address space.
\<close>

theorem checked_align_up_u64_exact:
  "checked_align_up_u64 v a = Some r \<longleftrightarrow>
     (\<exists>k. unat a = 2 ^ k) \<and>
     unat r = (LEAST m. unat v \<le> m \<and> unat a dvd m)"
proof -
  have least: "(LEAST m. unat v \<le> m \<and> unat a dvd m) = align_up_nat (unat v) (unat a)"
    if "0 < unat a"
    using align_up_nat_bounds [OF that] align_up_nat_least [OF that]
    by (intro Least_equality) auto
  show ?thesis
  proof
    assume r: "checked_align_up_u64 v a = Some r"
    from checked_align_up_u64_Some [OF r] have p: "pow2 a" and u: "unat r = align_up_nat (unat v) (unat a)" .
    from pow2_pos [OF p] least u p
    show "(\<exists>k. unat a = 2 ^ k) \<and> unat r = (LEAST m. unat v \<le> m \<and> unat a dvd m)"
      by (simp add: pow2_exp)
  next
    assume *: "(\<exists>k. unat a = 2 ^ k) \<and> unat r = (LEAST m. unat v \<le> m \<and> unat a dvd m)"
    then have p: "pow2 a" by (simp add: pow2_exp)
    from pow2_pos [OF p] least * have u: "align_up_nat (unat v) (unat a) = unat r" by simp
    with p show "checked_align_up_u64 v a = Some r"
      using unat_lt64 [of r] by (simp add: checked_align_up_u64_eq)
  qed
qed

end
