(* ===== verification/Reader.thy ===== *)
theory Reader
  imports Checked
begin

text \<open>
  \<open>src/util/reader.c\<close>: the cursor every parser reads untrusted bytes through. The buffer is the
  list of the bytes that lie in memory from \<open>base\<close> on (\<open>None\<close> for a null base); it may be longer
  than the declared \<open>length\<close>, and the point of the component is that what lies past \<open>length\<close> is
  never looked at. A read that returns \<open>false\<close> moves nothing, so it is \<open>None\<close> here and the caller
  keeps the reader it had.
\<close>

subsection \<open>Little-endian values\<close>

text \<open>\<open>value |= (uint64_t)bytes[index] << (index * 8)\<close> for \<open>index\<close> from 0 up.\<close>

definition little_endian :: "u8 list \<Rightarrow> nat \<Rightarrow> u64" where
  "little_endian bytes width =
     fold (\<lambda>index value. value OR push_bit (index * 8) (ucast (bytes ! index))) [0..<width] 0"

text \<open>The encoding it inverts: the low \<open>width\<close> bytes of a value, least significant first.\<close>

definition le_bytes :: "nat \<Rightarrow> u64 \<Rightarrow> u8 list" where
  "le_bytes width value = map (\<lambda>i. ucast (drop_bit (i * 8) value)) [0..<width]"

lemma length_le_bytes [simp]: "length (le_bytes n v) = n"
  by (simp add: le_bytes_def)

lemma little_endian_0 [simp]: "little_endian bs 0 = 0"
  by (simp add: little_endian_def)

lemma little_endian_Suc:
  "little_endian bs (Suc n) = little_endian bs n OR push_bit (n * 8) (ucast (bs ! n))"
  by (simp add: little_endian_def)

lemma little_endian_cong:
  "(\<And>i. i < n \<Longrightarrow> xs ! i = ys ! i) \<Longrightarrow> little_endian xs n = little_endian ys n"
  unfolding little_endian_def by (rule fold_cong) auto

lemma bit_little_endian:
  "bit (little_endian bs n) k \<longleftrightarrow> k < 64 \<and> k div 8 < n \<and> bit (bs ! (k div 8)) (k mod 8)"
proof (induction n)
  case 0
  then show ?case by simp
next
  case (Suc n)
  have "bit (push_bit (n * 8) (ucast (bs ! n)) :: u64) k \<longleftrightarrow>
        k < 64 \<and> k div 8 = n \<and> bit (bs ! n) (k mod 8)"
  proof (cases "k div 8 = n")
    case True
    then have "n * 8 \<le> k" "k - n * 8 = k mod 8" by (auto simp: modulo_nat_def)
    then show ?thesis using True by (auto simp: bit_simps)
  next
    case False
    then have "k < n * 8 \<or> n * 8 + 8 \<le> k" by auto
    then have "\<not> bit (push_bit (n * 8) (ucast (bs ! n)) :: u64) k"
      by (auto simp: bit_simps dest: bit_imp_le_length)
    then show ?thesis using False by simp
  qed
  with Suc show ?case
    by (auto simp: little_endian_Suc bit_or_iff less_Suc_eq)
qed

lemma little_endian_le_bytes: "little_endian (le_bytes n v) n = take_bit (n * 8) v"
proof (rule bit_word_eqI)
  fix k assume k: "k < LENGTH(64)"
  have "k div 8 * 8 + k mod 8 = k" by simp
  moreover have "k div 8 < n \<longleftrightarrow> k < n * 8" by (simp add: less_mult_imp_div_less div_less_iff_less_mult)
  ultimately show "bit (little_endian (le_bytes n v) n) k = bit (take_bit (n * 8) v) k"
    using k by (auto simp: bit_little_endian le_bytes_def bit_simps)
qed

lemma little_endian_append:
  "n = length xs \<Longrightarrow> little_endian (xs @ ys) n = little_endian xs n"
  by (rule little_endian_cong) (simp add: nth_append)

lemma little_endian_bound:
  assumes "n * 8 \<le> 64"
  shows "unat (little_endian bs n) < 2 ^ (n * 8)"
proof -
  have "little_endian bs n = take_bit (n * 8) (little_endian bs n)"
    by (rule bit_word_eqI) (auto simp: bit_little_endian bit_take_bit_iff div_less_iff_less_mult)
  then have "unat (little_endian bs n) = take_bit (n * 8) (unat (little_endian bs n))"
    by (metis unsigned_take_bit_eq)
  then show ?thesis by (metis take_bit_nat_less_exp)
qed

subsection \<open>The cursor\<close>

record reader =
  rd_base :: "u8 list option"
  rd_length :: usize
  rd_position :: usize

definition reader_init :: "u8 list option \<Rightarrow> usize \<Rightarrow> reader" where
  "reader_init base len =
     \<lparr>rd_base = base, rd_length = (if base \<noteq> None then len else 0), rd_position = 0\<rparr>"

text \<open>The bytes at \<open>reader->base + reader->position\<close>.\<close>

definition rd_at :: "reader \<Rightarrow> u8 list" where
  "rd_at r = (case rd_base r of None \<Rightarrow> [] | Some b \<Rightarrow> drop (unat (rd_position r)) b)"

definition reader_has :: "reader \<Rightarrow> usize \<Rightarrow> bool" where
  "reader_has r count \<longleftrightarrow> count \<le> rd_length r - rd_position r"

definition reader_scalar :: "reader \<Rightarrow> usize \<Rightarrow> (u64 \<times> reader) option" where
  "reader_scalar r width =
     (if \<not> reader_has r width then None
      else Some (little_endian (rd_at r) (unat width),
                 r\<lparr>rd_position := rd_position r + width\<rparr>))"

definition reader_remaining :: "reader \<Rightarrow> usize" where
  "reader_remaining r = rd_length r - rd_position r"

definition reader_seek :: "reader \<Rightarrow> usize \<Rightarrow> reader option" where
  "reader_seek r offset =
     (if offset > rd_length r then None else Some (r\<lparr>rd_position := offset\<rparr>))"

definition reader_skip :: "reader \<Rightarrow> usize \<Rightarrow> reader option" where
  "reader_skip r count =
     (if \<not> reader_has r count then None
      else Some (r\<lparr>rd_position := rd_position r + count\<rparr>))"

definition reader_u8 :: "reader \<Rightarrow> (u8 \<times> reader) option" where
  "reader_u8 r = do { (v, r) \<leftarrow> reader_scalar r 1; Some (ucast v, r) }"

definition reader_u16 :: "reader \<Rightarrow> (u16 \<times> reader) option" where
  "reader_u16 r = do { (v, r) \<leftarrow> reader_scalar r 2; Some (ucast v, r) }"

definition reader_u32 :: "reader \<Rightarrow> (u32 \<times> reader) option" where
  "reader_u32 r = do { (v, r) \<leftarrow> reader_scalar r 4; Some (ucast v, r) }"

definition reader_u64 :: "reader \<Rightarrow> (u64 \<times> reader) option" where
  "reader_u64 r = reader_scalar r 8"

lemma reader_fields:
  "reader_u32 r = Some (v, r') \<Longrightarrow> v = ucast (little_endian (rd_at r) 4) \<and> r' = r\<lparr>rd_position := rd_position r + 4\<rparr>"
  "reader_u64 r = Some (w, r') \<Longrightarrow> w = little_endian (rd_at r) 8 \<and> r' = r\<lparr>rd_position := rd_position r + 8\<rparr>"
  "reader_u8 r = Some (b, r') \<Longrightarrow> b = ucast (little_endian (rd_at r) 1) \<and> r' = r\<lparr>rd_position := rd_position r + 1\<rparr>"
  "reader_u16 r = Some (h, r') \<Longrightarrow> h = ucast (little_endian (rd_at r) 2) \<and> r' = r\<lparr>rd_position := rd_position r + 2\<rparr>"
  by (auto simp: reader_u8_def reader_u32_def reader_u64_def reader_u16_def reader_scalar_def opt_bind split: if_splits prod.splits)

lemma little_endian_4:
  "(ucast (little_endian bs 4) :: u32) =
     ucast (bs ! 0) OR push_bit 8 (ucast (bs ! Suc 0)) OR push_bit 16 (ucast (bs ! 2)) OR push_bit 24 (ucast (bs ! 3))"
proof -
  have "little_endian bs 4 = ((ucast (bs ! 0) OR push_bit 8 (ucast (bs ! Suc 0))) OR push_bit 16 (ucast (bs ! 2))) OR
      push_bit 24 (ucast (bs ! 3))"
    by (simp add: eval_nat_numeral little_endian_Suc)
  then show ?thesis by (simp only:) (rule bit_word_eqI, auto simp: bit_simps)
qed

text \<open>To evaluate reads of a literal buffer.\<close>

lemmas reading_eval = upt_rec reader_u8_def reader_u16_def reader_u32_def reader_u64_def
  reader_scalar_def reader_has_def rd_at_def little_endian_def push_bit_eq_mult reader_seek_def reader_skip_def

text \<open>
  \<open>reader_take\<close> lends the bytes at the cursor. The result \<open>None\<close> is the null pointer, which it also
  returns for a zero count over a null base; the cursor is part of the result in both cases.
\<close>

definition reader_take :: "reader \<Rightarrow> usize \<Rightarrow> u8 list option \<times> reader" where
  "reader_take r count =
     (if \<not> reader_has r count then (None, r)
      else (map_option (\<lambda>b. take (unat count) (drop (unat (rd_position r)) b)) (rd_base r),
            r\<lparr>rd_position := rd_position r + count\<rparr>))"

definition reader_bytes :: "reader \<Rightarrow> usize \<Rightarrow> u8 list option \<times> reader" where
  "reader_bytes r count =
     (case reader_take r count of
        (None, r) \<Rightarrow> (None, r)
      | (Some source, r) \<Rightarrow> (Some (map (nth source) [0..<unat count]), r))"

definition reader_peek_u8 :: "reader \<Rightarrow> usize \<Rightarrow> u8 option" where
  "reader_peek_u8 r offset =
     (if offset \<ge> reader_remaining r then None
      else Some (rd_at r ! unat offset))"

subsection \<open>The invariant\<close>

text \<open>
  A reader is well formed when the cursor is inside the declared length and the declared length
  is inside the memory behind the base pointer.
\<close>

definition reader_wf :: "reader \<Rightarrow> bool" where
  "reader_wf r \<longleftrightarrow> rd_position r \<le> rd_length r \<and>
     (case rd_base r of None \<Rightarrow> rd_length r = 0 | Some b \<Rightarrow> unat (rd_length r) \<le> length b)"

lemma reader_init_wf: "unat len \<le> length b \<Longrightarrow> reader_wf (reader_init (Some b) len)"
  by (simp add: reader_wf_def reader_init_def)

lemma reader_init_null_wf: "reader_wf (reader_init None len)"
  by (simp add: reader_wf_def reader_init_def)

lemma reader_has_iff:
  "reader_wf r \<Longrightarrow> reader_has r n \<longleftrightarrow> unat (rd_position r) + unat n \<le> unat (rd_length r)"
  by (auto simp: reader_wf_def reader_has_def word_le_nat_alt unat_sub_fits)

lemma unat_position_add:
  assumes "reader_wf r" "reader_has r n"
  shows "unat (rd_position r + n) = unat (rd_position r) + unat n"
  using assms by (intro unat_add_below [of _ _ "rd_length r"]) (simp add: reader_has_iff)

lemma reader_advance_wf:
  assumes "reader_wf r" "reader_has r n"
  shows "reader_wf (r\<lparr>rd_position := rd_position r + n\<rparr>)"
  using assms unat_position_add [OF assms]
  by (auto simp: reader_wf_def reader_has_iff word_le_nat_alt split: option.splits)

lemma reader_scalar_wf:
  "reader_wf r \<Longrightarrow> reader_scalar r w = Some (v, r') \<Longrightarrow> reader_wf r'"
  by (auto simp: reader_scalar_def reader_advance_wf split: if_splits)

lemma reader_seek_wf: "reader_wf r \<Longrightarrow> reader_seek r n = Some r' \<Longrightarrow> reader_wf r'"
  by (auto simp: reader_seek_def reader_wf_def not_less split: if_splits option.splits)

lemma reader_skip_wf: "reader_wf r \<Longrightarrow> reader_skip r n = Some r' \<Longrightarrow> reader_wf r'"
  by (auto simp: reader_skip_def reader_advance_wf split: if_splits)

lemma reader_take_wf: "reader_wf r \<Longrightarrow> reader_take r n = (res, r') \<Longrightarrow> reader_wf r'"
  by (auto simp: reader_take_def reader_advance_wf split: if_splits)

lemma reader_bytes_wf: "reader_wf r \<Longrightarrow> reader_bytes r n = (res, r') \<Longrightarrow> reader_wf r'"
  by (auto simp: reader_bytes_def reader_take_wf split: option.splits prod.splits)

subsection \<open>Any sequence of reads stays inside the declared length\<close>

text \<open>
  A parser is a sequence of calls on one reader. An operation that is refused leaves the reader as
  it was, and what the caller can observe of a call is its result.
\<close>

datatype reader_cmd =
  Call_seek usize | Call_skip usize | Call_u8 | Call_u16 | Call_u32 | Call_u64
| Call_bytes usize | Call_peek usize | Call_remaining

datatype reader_obs = Refused | Moved | Value u64 | Bytes "u8 list"

fun reader_call :: "reader \<Rightarrow> reader_cmd \<Rightarrow> reader_obs \<times> reader" where
  "reader_call r (Call_seek n) =
     (case reader_seek r n of None \<Rightarrow> (Refused, r) | Some r' \<Rightarrow> (Moved, r'))"
| "reader_call r (Call_skip n) =
     (case reader_skip r n of None \<Rightarrow> (Refused, r) | Some r' \<Rightarrow> (Moved, r'))"
| "reader_call r Call_u8 =
     (case reader_u8 r of None \<Rightarrow> (Refused, r) | Some (v, r') \<Rightarrow> (Value (ucast v), r'))"
| "reader_call r Call_u16 =
     (case reader_u16 r of None \<Rightarrow> (Refused, r) | Some (v, r') \<Rightarrow> (Value (ucast v), r'))"
| "reader_call r Call_u32 =
     (case reader_u32 r of None \<Rightarrow> (Refused, r) | Some (v, r') \<Rightarrow> (Value (ucast v), r'))"
| "reader_call r Call_u64 =
     (case reader_u64 r of None \<Rightarrow> (Refused, r) | Some (v, r') \<Rightarrow> (Value v, r'))"
| "reader_call r (Call_bytes n) =
     (case reader_bytes r n of (None, r') \<Rightarrow> (Refused, r') | (Some bs, r') \<Rightarrow> (Bytes bs, r'))"
| "reader_call r (Call_peek n) =
     (case reader_peek_u8 r n of None \<Rightarrow> (Refused, r) | Some v \<Rightarrow> (Value (ucast v), r))"
| "reader_call r Call_remaining = (Value (reader_remaining r), r)"

fun reader_script :: "reader \<Rightarrow> reader_cmd list \<Rightarrow> reader_obs list \<times> reader" where
  "reader_script r [] = ([], r)"
| "reader_script r (c # cs) =
     (let (x, r') = reader_call r c; (xs, r'') = reader_script r' cs in (x # xs, r''))"

text \<open>Two readers that agree on everything inside the declared length.\<close>

definition reader_agree :: "reader \<Rightarrow> reader \<Rightarrow> bool" where
  "reader_agree r s \<longleftrightarrow> reader_wf r \<and> reader_wf s \<and>
     rd_length r = rd_length s \<and> rd_position r = rd_position s \<and>
     (case (rd_base r, rd_base s) of
        (Some b, Some c) \<Rightarrow> take (unat (rd_length r)) b = take (unat (rd_length r)) c
      | (None, None) \<Rightarrow> True | _ \<Rightarrow> False)"

lemma reader_agree_fields:
  "reader_agree r s \<Longrightarrow> rd_length s = rd_length r \<and> rd_position s = rd_position r \<and> reader_wf r"
  by (simp add: reader_agree_def)

lemma reader_agree_has: "reader_agree r s \<Longrightarrow> reader_has r n = reader_has s n"
  by (simp add: reader_agree_def reader_has_def)

lemma reader_agree_nth:
  assumes "reader_agree r s" "unat (rd_position r) + i < unat (rd_length r)"
  shows "rd_at r ! i = rd_at s ! i"
proof (cases "rd_base r")
  case None
  with assms show ?thesis by (auto simp: reader_agree_def reader_wf_def)
next
  case (Some b)
  with assms obtain c where c: "rd_base s = Some c"
    and eq: "take (unat (rd_length r)) b = take (unat (rd_length r)) c"
    by (auto simp: reader_agree_def split: option.splits)
  have "b ! (unat (rd_position r) + i) = c ! (unat (rd_position r) + i)"
    using assms(2) eq by (metis nth_take)
  then show ?thesis
    using Some c assms by (auto simp: rd_at_def reader_agree_def reader_wf_def)
qed

lemma reader_agree_position:
  assumes "reader_agree r s" "reader_wf (r\<lparr>rd_position := p\<rparr>)"
  shows "reader_agree (r\<lparr>rd_position := p\<rparr>) (s\<lparr>rd_position := p\<rparr>)"
  using assms by (auto simp: reader_agree_def reader_wf_def split: option.splits)

lemma reader_agree_scalar:
  assumes "reader_agree r s"
  shows "(case (reader_scalar r w, reader_scalar s w) of
            (None, None) \<Rightarrow> True
          | (Some (v, r'), Some (v', s')) \<Rightarrow> v = v' \<and> reader_agree r' s'
          | _ \<Rightarrow> False)"
proof (cases "reader_has r w")
  case False
  with assms show ?thesis by (simp add: reader_scalar_def reader_agree_has)
next
  case True
  have wf: "reader_wf r" using assms by (simp add: reader_agree_def)
  then have "unat (rd_position r) + unat w \<le> unat (rd_length r)"
    using True by (simp add: reader_has_iff)
  then have "little_endian (rd_at r) (unat w) = little_endian (rd_at s) (unat w)"
    by (intro little_endian_cong reader_agree_nth [OF assms]) simp
  moreover have "rd_position s = rd_position r" using assms by (simp add: reader_agree_def)
  ultimately show ?thesis
    using True assms reader_agree_position [OF assms reader_advance_wf [OF wf True]]
    by (simp add: reader_scalar_def reader_agree_has)
qed

lemma reader_agree_scalar_cases:
  assumes "reader_agree r s"
  obtains "reader_scalar r w = None" "reader_scalar s w = None"
  | v r' s' where "reader_scalar r w = Some (v, r')" "reader_scalar s w = Some (v, s')"
      "reader_agree r' s'"
  using reader_agree_scalar [OF assms, of w] by (auto split: option.splits)

lemma reader_agree_bytes:
  assumes "reader_agree r s" "reader_bytes r n = (x, r')" "reader_bytes s n = (y, s')"
  shows "x = y \<and> reader_agree r' s'"
proof (cases "reader_has r n")
  case False
  with assms show ?thesis by (simp add: reader_bytes_def reader_take_def reader_agree_has)
next
  case True
  have wf: "reader_wf r" using assms by (simp add: reader_agree_def)
  then have le: "unat (rd_position r) + unat n \<le> unat (rd_length r)"
    using True by (simp add: reader_has_iff)
  have pos: "rd_position s = rd_position r" using assms by (simp add: reader_agree_def)
  have ag: "reader_agree (r\<lparr>rd_position := rd_position r + n\<rparr>) (s\<lparr>rd_position := rd_position r + n\<rparr>)"
    by (rule reader_agree_position [OF assms(1) reader_advance_wf [OF wf True]])
  have hs: "reader_has s n" using True reader_agree_has [OF assms(1)] by simp
  show ?thesis
  proof (cases "rd_base r")
    case None
    with assms(1) have "rd_base s = None" by (auto simp: reader_agree_def split: option.splits)
    with None assms(2,3) True hs ag pos show ?thesis
      by (simp add: reader_bytes_def reader_take_def)
  next
    case (Some b)
    with assms(1) obtain c where c: "rd_base s = Some c"
      by (auto simp: reader_agree_def split: option.splits)
    have "take (unat n) (drop (unat (rd_position r)) b) =
          take (unat n) (drop (unat (rd_position r)) c)"
      using reader_agree_nth [OF assms(1)] le Some c assms(1) pos
      by (intro nth_equalityI) (auto simp: rd_at_def reader_agree_def reader_wf_def)
    with Some c assms(2,3) True hs ag pos show ?thesis
      by (auto simp: reader_bytes_def reader_take_def)
  qed
qed

lemma reader_agree_call:
  assumes "reader_agree r s"
  shows "fst (reader_call r c) = fst (reader_call s c) \<and>
         reader_agree (snd (reader_call r c)) (snd (reader_call s c))"
proof (cases c)
  case (Call_seek n)
  have "reader_agree (r\<lparr>rd_position := n\<rparr>) (s\<lparr>rd_position := n\<rparr>)" if "\<not> n > rd_length r"
    using that reader_agree_fields [OF assms] reader_seek_wf [of r n]
    by (intro reader_agree_position [OF assms]) (simp add: reader_seek_def)
  with Call_seek assms reader_agree_fields [OF assms] show ?thesis
    by (cases "n > rd_length r") (simp_all add: reader_seek_def)
next
  case (Call_skip n)
  have "reader_agree (r\<lparr>rd_position := rd_position r + n\<rparr>) (s\<lparr>rd_position := rd_position r + n\<rparr>)"
    if "reader_has r n"
    using that reader_agree_fields [OF assms]
    by (intro reader_agree_position [OF assms] reader_advance_wf) auto
  with Call_skip assms reader_agree_fields [OF assms] reader_agree_has [OF assms] show ?thesis
    by (cases "reader_has r n") (simp_all add: reader_skip_def)
next
  case (Call_bytes n)
  obtain x r' y s' where "reader_bytes r n = (x, r')" "reader_bytes s n = (y, s')" by fastforce
  with reader_agree_bytes [OF assms this] Call_bytes show ?thesis
    by (cases x) auto
next
  case (Call_peek n)
  show ?thesis
  proof (cases "n < reader_remaining r")
    case True
    have "rd_position r \<le> rd_length r" using assms by (simp add: reader_agree_def reader_wf_def)
    then have "unat (rd_position r) + unat n < unat (rd_length r)"
      using True by (simp add: reader_remaining_def word_less_nat_alt unat_sub_fits)
    with reader_agree_nth [OF assms this] True Call_peek assms reader_agree_fields [OF assms]
    show ?thesis by (simp add: reader_peek_u8_def reader_remaining_def)
  next
    case False
    with Call_peek assms reader_agree_fields [OF assms] show ?thesis
      by (simp add: reader_peek_u8_def reader_remaining_def not_less)
  qed
next
  case Call_remaining
  with assms reader_agree_fields [OF assms] show ?thesis by (simp add: reader_remaining_def)
next
  case Call_u8
  with assms show ?thesis
    by (cases rule: reader_agree_scalar_cases [OF assms, where w = 1]) (simp_all add: reader_u8_def)
next
  case Call_u16
  with assms show ?thesis
    by (cases rule: reader_agree_scalar_cases [OF assms, where w = 2]) (simp_all add: reader_u16_def)
next
  case Call_u32
  with assms show ?thesis
    by (cases rule: reader_agree_scalar_cases [OF assms, where w = 4]) (simp_all add: reader_u32_def)
next
  case Call_u64
  with assms show ?thesis
    by (cases rule: reader_agree_scalar_cases [OF assms, where w = 8]) (simp_all add: reader_u64_def)
qed

lemma reader_agree_script:
  assumes "reader_agree r s" "reader_script r cs = (xs, r')" "reader_script s cs = (ys, s')"
  shows "xs = ys \<and> reader_agree r' s'"
  using assms
proof (induction cs arbitrary: r s xs ys)
  case Nil
  then show ?case by simp
next
  case (Cons c cs)
  with reader_agree_call [OF Cons.prems(1), of c] show ?case
    by (fastforce simp: Let_def split: prod.splits)
qed

text \<open>
  C17. Whatever sequence of calls a parser makes on a reader of declared length \<open>n\<close>, refused calls
  included, its observations do not depend on any byte past the first \<open>n\<close> of the buffer, and the
  cursor never leaves the declared length: crafted input cannot walk a parser off the end.
\<close>

theorem reader_confined:
  assumes "unat n \<le> length buffer"
    and "reader_script (reader_init (Some buffer) n) cs = (xs, r)"
    and "reader_script (reader_init (Some (take (unat n) buffer @ beyond)) n) cs = (ys, s)"
  shows "xs = ys \<and> rd_position r = rd_position s \<and> rd_position r \<le> n"
proof -
  have "reader_agree (reader_init (Some buffer) n)
          (reader_init (Some (take (unat n) buffer @ beyond)) n)"
    using assms(1) by (simp add: reader_agree_def reader_wf_def reader_init_def)
  from reader_agree_script [OF this assms(2,3)]
  have "xs = ys" and ag: "reader_agree r s" by auto
  have "rd_length (snd (reader_script r0 cs)) = rd_length r0" for r0
  proof (induction cs arbitrary: r0)
    case (Cons c cs)
    have "rd_length (snd (reader_call r0 c)) = rd_length r0"
      by (cases c) (auto simp: reader_seek_def reader_skip_def reader_u8_def reader_u16_def
          reader_u32_def reader_u64_def reader_scalar_def reader_bytes_def reader_take_def
          split: option.splits)
    with Cons.IH [of "snd (reader_call r0 c)"] show ?case by (simp add: Let_def split_beta)
  qed simp
  from this [of "reader_init (Some buffer) n"] assms(2) have "rd_length r = n"
    by (simp add: reader_init_def)
  with \<open>xs = ys\<close> ag show ?thesis by (auto simp: reader_agree_def reader_wf_def)
qed

theorem reader_confined_witness:
  "fst (reader_script (reader_init (Some [1, 2, 3, 4, 5]) 4) [Call_u16, Call_u32, Call_u8])
   = fst (reader_script (reader_init (Some ([1, 2, 3, 4] @ [99, 98])) 4) [Call_u16, Call_u32, Call_u8])"
proof -
  let ?c = "[Call_u16, Call_u32, Call_u8]"
  have len: "unat (4 :: usize) \<le> length [1, 2, 3, 4, 5 :: u8]" by simp
  show ?thesis
    using reader_confined [OF len surjective_pairing surjective_pairing, of ?c "[99, 98]"] by simp
qed

subsection \<open>Fields at known offsets\<close>

lemma reader_scalar_at:
  assumes "rd_base r = Some b" "unat (rd_position r) + unat w \<le> unat (rd_length r)"
  shows "reader_scalar r w = Some (little_endian (drop (unat (rd_position r)) b) (unat w), r\<lparr>rd_position := rd_position r + w\<rparr>)"
proof -
  have "rd_position r \<le> rd_length r" using assms(2) by (simp add: word_le_nat_alt)
  then have "w \<le> rd_length r - rd_position r" using assms(2) by (simp add: word_le_nat_alt unat_sub_fits)
  with assms show ?thesis by (simp add: reader_scalar_def reader_has_def rd_at_def)
qed

definition le32 :: "u8 list \<Rightarrow> nat \<Rightarrow> u32" where
  "le32 bs offset = ucast (little_endian (drop offset bs) 4)"

definition le64 :: "u8 list \<Rightarrow> nat \<Rightarrow> u64" where
  "le64 bs offset = little_endian (drop offset bs) 8"

lemma ucast_ucast_byte [simp]: "(ucast (ucast (b :: u8) :: u64) :: u8) = b"
  by (rule unat_inj) (simp add: unat_ucast_down)

lemma reader_reads_at:
  assumes "rd_base r = Some b"
  shows "unat (rd_position r) + 4 \<le> unat (rd_length r) \<Longrightarrow>
      reader_u32 r = Some (le32 b (unat (rd_position r)), r\<lparr>rd_position := rd_position r + 4\<rparr>)"
    "unat (rd_position r) + 8 \<le> unat (rd_length r) \<Longrightarrow>
      reader_u64 r = Some (le64 b (unat (rd_position r)), r\<lparr>rd_position := rd_position r + 8\<rparr>)"
    "unat (rd_position r) + 1 \<le> unat (rd_length r) \<Longrightarrow> unat (rd_position r) < length b \<Longrightarrow>
      reader_u8 r = Some (b ! unat (rd_position r), r\<lparr>rd_position := rd_position r + 1\<rparr>)"
  using assms reader_scalar_at [OF assms, of 4] reader_scalar_at [OF assms, of 8] reader_scalar_at [OF assms, of 1]
  by (simp_all add: reader_u32_def reader_u64_def reader_u8_def le32_def le64_def little_endian_Suc [of _ 0, simplified])

lemma reader_short:
  assumes "rd_position r \<le> rd_length r"
  shows "unat (rd_position r) + 4 > unat (rd_length r) \<Longrightarrow> reader_u32 r = None"
    "unat (rd_position r) + 8 > unat (rd_length r) \<Longrightarrow> reader_u64 r = None"
    "unat (rd_position r) + 1 > unat (rd_length r) \<Longrightarrow> reader_u8 r = None"
  using assms
  by (simp_all add: reader_u32_def reader_u64_def reader_u8_def reader_scalar_def reader_has_def word_le_nat_alt unat_sub_fits)

lemma reader_seek_init:
  "reader_seek (reader_init (Some b) len) off =
     (if unat off \<le> unat len then Some \<lparr>rd_base = Some b, rd_length = len, rd_position = off\<rparr> else None)"
  by (simp add: reader_seek_def reader_init_def word_less_nat_alt)

end
