(* ===== verification/Mem.thy ===== *)
theory Mem
  imports Reader
begin

text \<open>
  \<open>src/util/mem.c\<close> and the machine's memory. The loader runs identity mapped, so an address is a
  pointer and memory is a function from 64-bit addresses to bytes. The four routines are loops over
  an index from 0 (or, in \<open>memmove\<close>, down to 0), here folds over the list of the indices in the
  order the loop visits them; address arithmetic wraps as \<open>uintptr_t\<close> does.
\<close>

type_synonym mem = "u64 \<Rightarrow> u8"

subsection \<open>The routines\<close>

text \<open>\<open>out[index] = in[index]\<close>.\<close>

definition copy_byte :: "u64 \<Rightarrow> u64 \<Rightarrow> nat \<Rightarrow> mem \<Rightarrow> mem" where
  "copy_byte destination source index m =
     m(destination + of_nat index := m (source + of_nat index))"

definition memcpy :: "u64 \<Rightarrow> u64 \<Rightarrow> usize \<Rightarrow> mem \<Rightarrow> mem" where
  "memcpy destination source count m =
     fold (copy_byte destination source) [0..<unat count] m"

definition memmove :: "u64 \<Rightarrow> u64 \<Rightarrow> usize \<Rightarrow> mem \<Rightarrow> mem" where
  "memmove destination source count m =
     (if destination = source \<or> count = 0 then m
      else if destination < source then
        fold (copy_byte destination source) [0..<unat count] m
      else
        fold (copy_byte destination source) (rev [0..<unat count]) m)"

definition memset :: "u64 \<Rightarrow> u8 \<Rightarrow> usize \<Rightarrow> mem \<Rightarrow> mem" where
  "memset destination value count m =
     fold (\<lambda>index m. m(destination + of_nat index := value)) [0..<unat count] m"

fun memcmp_loop :: "(nat \<Rightarrow> u8) \<Rightarrow> (nat \<Rightarrow> u8) \<Rightarrow> nat list \<Rightarrow> int" where
  "memcmp_loop a b [] = 0"
| "memcmp_loop a b (index # rest) =
     (if a index \<noteq> b index then (if a index < b index then -1 else 1)
      else memcmp_loop a b rest)"

definition memcmp :: "u64 \<Rightarrow> u64 \<Rightarrow> usize \<Rightarrow> mem \<Rightarrow> int" where
  "memcmp left right count m =
     memcmp_loop (\<lambda>i. m (left + of_nat i)) (\<lambda>i. m (right + of_nat i)) [0..<unat count]"

text \<open>\<open>memcmp\<close> between a buffer of the C code and a constant.\<close>

definition memcmp_bytes :: "u8 list \<Rightarrow> u8 list \<Rightarrow> nat \<Rightarrow> int" where
  "memcmp_bytes left right count = memcmp_loop (nth left) (nth right) [0..<count]"

subsection \<open>Ranges of addresses\<close>

text \<open>The addresses of \<open>n\<close> bytes from \<open>a\<close>, with the wrap-around of pointer arithmetic.\<close>

definition in_range :: "u64 \<Rightarrow> nat \<Rightarrow> u64 \<Rightarrow> bool" where
  "in_range a n x \<longleftrightarrow> unat (x - a) < n"

lemma in_range_0 [simp]: "\<not> in_range a 0 x"
  by (simp add: in_range_def)

lemma of_nat_unat_diff [simp]: "a + of_nat (unat (x - a)) = (x :: u64)"
  by simp

lemma unat_of_nat64: "i < 2 ^ 64 \<Longrightarrow> unat (of_nat i :: u64) = i"
  by (simp add: unat_of_nat)

lemma add_of_nat_eq_iff:
  "i < 2 ^ 64 \<Longrightarrow> (a + of_nat i = (x :: u64)) \<longleftrightarrow> unat (x - a) = i"
proof -
  assume i: "i < 2 ^ 64"
  have "a + of_nat i = x \<longleftrightarrow> of_nat i = x - a" by (auto simp: algebra_simps)
  also have "\<dots> \<longleftrightarrow> unat (x - a) = i"
    using unat_of_nat64 [OF i] by auto
  finally show ?thesis .
qed

lemma in_range_Suc:
  "n < 2 ^ 64 \<Longrightarrow> in_range a (Suc n) x \<longleftrightarrow> in_range a n x \<or> x = a + of_nat n"
  using add_of_nat_eq_iff [of n a x] by (auto simp: in_range_def less_Suc_eq)

lemma in_range_offset: "i < n \<Longrightarrow> i < 2 ^ 64 \<Longrightarrow> in_range a n (a + of_nat i)"
  by (simp add: in_range_def unat_of_nat)

lemma in_range_nat:
  assumes "unat a + n \<le> 2 ^ 64"
  shows "in_range a n x \<longleftrightarrow> unat a \<le> unat x \<and> unat x < unat a + n"
proof (cases "a \<le> x")
  case True
  then show ?thesis by (auto simp: in_range_def unat_sub_fits word_le_nat_alt)
next
  case False
  then have "unat (x - a) = unat x + 2 ^ 64 - unat a"
    by (simp add: unat_sub_if' word_le_nat_alt)
  with False assms show ?thesis by (simp add: in_range_def word_le_nat_alt)
qed

lemma in_range_split:
  assumes "i + j \<le> 2 ^ 64"
  shows "in_range a (i + j) x \<longleftrightarrow> in_range a i x \<or> in_range (a + of_nat i) j x"
proof (cases "j = 0")
  case False
  then have i: "unat (of_nat i :: u64) = i" using assms by (simp add: unat_of_nat64)
  have d: "x - (a + of_nat i) = (x - a) - of_nat i" by simp
  show ?thesis
  proof (cases "i \<le> unat (x - a)")
    case True
    then have "unat (x - a - of_nat i) = unat (x - a) - i" using i by (simp add: unat_sub_if')
    then show ?thesis using True unfolding in_range_def d by linarith
  next
    case False
    then have "unat (x - a - of_nat i) = unat (x - a) + 2 ^ 64 - i" using i by (simp add: unat_sub_if')
    then show ?thesis using False assms unfolding in_range_def d by linarith
  qed
qed simp

subsection \<open>What the routines do\<close>

lemma memset_eq:
  "memset d v n m x = (if in_range d (unat n) x then v else m x)"
proof -
  have "fold (\<lambda>i m. m(d + of_nat i := v)) [0..<k] m x = (if in_range d k x then v else m x)"
    if "k < 2 ^ 64" for k
    using that
  proof (induction k)
    case (Suc k)
    then show ?case by (auto simp: in_range_Suc)
  qed simp
  then show ?thesis by (simp add: memset_def)
qed

text \<open>
  A copy front to back is right whenever the destination does not start inside the source, and a
  copy back to front whenever it does not end there.
\<close>

definition copied :: "u64 \<Rightarrow> u64 \<Rightarrow> nat \<Rightarrow> mem \<Rightarrow> mem" where
  "copied d s n m = (\<lambda>x. if in_range d n x then m (s + (x - d)) else m x)"

lemma copied_front:
  assumes n: "n \<le> 2 ^ 64" and fwd: "\<And>i j. i < j \<Longrightarrow> j < n \<Longrightarrow> d + of_nat i \<noteq> s + of_nat j"
  shows "fold (copy_byte d s) [0..<n] m = copied d s n m"
proof -
  have "k \<le> n \<Longrightarrow> fold (copy_byte d s) [0..<k] m = copied d s k m" for k
  proof (induction k)
    case 0
    then show ?case by (simp add: copied_def)
  next
    case (Suc k)
    have k: "k < 2 ^ 64" using Suc.prems n by simp
    have "\<not> in_range d k (s + of_nat k)"
    proof
      assume r: "in_range d k (s + of_nat k)"
      then have "unat (s + of_nat k - d) < k" by (simp add: in_range_def)
      with fwd [of "unat (s + of_nat k - d)" k] Suc.prems show False by simp
    qed
    then have src: "copied d s k m (s + of_nat k) = m (s + of_nat k)"
      by (simp add: copied_def)
    have "copied d s (Suc k) m = copy_byte d s k (copied d s k m)"
      unfolding copy_byte_def src using k by (auto simp: copied_def in_range_Suc fun_eq_iff)
    with Suc show ?case by simp
  qed
  then show ?thesis by simp
qed

lemma copied_back:
  assumes n: "n \<le> 2 ^ 64" and bwd: "\<And>i j. i < j \<Longrightarrow> j < n \<Longrightarrow> d + of_nat j \<noteq> s + of_nat i"
  shows "fold (copy_byte d s) (rev [0..<n]) m = copied d s n m"
  using assms
proof (induction n arbitrary: m)
  case 0
  then show ?case by (simp add: copied_def)
next
  case (Suc n)
  let ?m = "copy_byte d s n m"
  have n: "n < 2 ^ 64" using Suc.prems by simp
  have "fold (copy_byte d s) (rev [0..<Suc n]) m = copied d s n ?m"
    using Suc.IH [of ?m] Suc.prems by simp
  also have "\<dots> = copied d s (Suc n) m"
  proof
    fix x
    show "copied d s n ?m x = copied d s (Suc n) m x"
    proof (cases "in_range d n x")
      case True
      then have lt: "unat (x - d) < n" by (simp add: in_range_def)
      then have "d + of_nat n \<noteq> s + (x - d)"
        using Suc.prems(2) [of "unat (x - d)" n] by simp
      with True n show ?thesis by (auto simp: copied_def copy_byte_def in_range_Suc)
    next
      case False
      with n show ?thesis by (auto simp: copied_def copy_byte_def in_range_Suc)
    qed
  qed
  finally show ?case .
qed

lemma nat_offset_neq:
  assumes "unat d + i < 2 ^ 64" "unat s + j < 2 ^ 64" "unat d + i \<noteq> unat s + j"
  shows "d + of_nat i \<noteq> s + (of_nat j :: u64)"
proof
  assume "d + of_nat i = s + (of_nat j :: u64)"
  then have "unat (d + of_nat i) = unat (s + (of_nat j :: u64))" by simp
  with assms show False by (simp add: unat_word_ariths unat_of_nat)
qed

lemma memcpy_eq_copied:
  assumes "unat d + unat n \<le> 2 ^ 64" "unat s + unat n \<le> 2 ^ 64"
    and "d \<le> s \<or> unat s + unat n \<le> unat d"
  shows "memcpy d s n m = copied d s (unat n) m"
proof -
  have c: "unat n \<le> 2 ^ 64" by (simp add: less_imp_le)
  show ?thesis
    unfolding memcpy_def
    by (rule copied_front [OF c], rule nat_offset_neq)
      (use assms in \<open>auto simp: word_le_nat_alt\<close>)
qed

text \<open>
  \<open>memmove\<close> leaves in the destination what the source held before the call and changes nothing
  else, however the two ranges overlap, because it picks the direction that reads every byte before
  it is overwritten; ranges that do not run past the top of memory are all it needs.
\<close>

theorem memmove_correct:
  assumes "unat destination + unat count \<le> 2 ^ 64" "unat source + unat count \<le> 2 ^ 64"
  shows "memmove destination source count m x =
    (if in_range destination (unat count) x then m (source + (x - destination)) else m x)"
proof -
  have "memmove destination source count m = copied destination source (unat count) m"
  proof (cases "destination = source \<or> count = 0")
    case True
    then show ?thesis by (auto simp: memmove_def copied_def fun_eq_iff)
  next
    case False
    have c: "unat count \<le> 2 ^ 64" by (simp add: less_imp_le)
    show ?thesis
    proof (cases "destination < source")
      case True
      have "fold (copy_byte destination source) [0..<unat count] m =
            copied destination source (unat count) m"
        by (rule copied_front [OF c], rule nat_offset_neq)
          (use assms True in \<open>auto simp: word_less_nat_alt\<close>)
      with True False show ?thesis by (simp add: memmove_def)
    next
      case down: False
      have "fold (copy_byte destination source)
              (rev [0..<unat count]) m = copied destination source (unat count) m"
        by (rule copied_back [OF c], rule nat_offset_neq)
          (use assms down in \<open>auto simp: word_less_nat_alt\<close>)
      with down False show ?thesis by (simp add: memmove_def)
    qed
  qed
  then show ?thesis by (simp add: copied_def)
qed

theorem memmove_correct_witness:
  "memmove 101 100 3 (\<lambda>a. ucast a) 103 = 102"
proof -
  have "memmove 101 100 3 (\<lambda>a. ucast a) 103 =
    (if in_range 101 (unat (3 :: usize)) 103 then ucast (100 + (103 - 101 :: u64)) else ucast (103 :: u64))"
    by (rule memmove_correct) simp_all
  then show ?thesis by (simp add: in_range_def)
qed

lemma memcmp_loop_0: "memcmp_loop a b is = 0 \<longleftrightarrow> (\<forall>i \<in> set is. a i = b i)"
  by (induction "is") auto

lemma memcmp_bytes_0:
  assumes "n \<le> length xs" "n \<le> length ys"
  shows "memcmp_bytes xs ys n = 0 \<longleftrightarrow> take n xs = take n ys"
proof -
  have "memcmp_bytes xs ys n = 0 \<longleftrightarrow> (\<forall>i < n. xs ! i = ys ! i)"
    by (auto simp: memcmp_bytes_def memcmp_loop_0)
  also have "\<dots> \<longleftrightarrow> take n xs = take n ys"
    using assms by (auto simp: list_eq_iff_nth_eq)
  finally show ?thesis .
qed

subsection \<open>Loads and stores of a machine word\<close>

definition load_bytes :: "mem \<Rightarrow> u64 \<Rightarrow> nat \<Rightarrow> u8 list" where
  "load_bytes m a n = map (\<lambda>i. m (a + of_nat i)) [0..<n]"

definition store_bytes :: "mem \<Rightarrow> u64 \<Rightarrow> u8 list \<Rightarrow> mem" where
  "store_bytes m a bs = (\<lambda>x. if in_range a (length bs) x then bs ! unat (x - a) else m x)"

definition load64 :: "mem \<Rightarrow> u64 \<Rightarrow> u64" where
  "load64 m a = little_endian (load_bytes m a 8) 8"

definition store64 :: "mem \<Rightarrow> u64 \<Rightarrow> u64 \<Rightarrow> mem" where
  "store64 m a v = store_bytes m a (le_bytes 8 v)"

lemma length_load_bytes [simp]: "length (load_bytes m a n) = n"
  by (simp add: load_bytes_def)

lemma load_bytes_nth [simp]: "i < n \<Longrightarrow> load_bytes m a n ! i = m (a + of_nat i)"
  by (simp add: load_bytes_def)

lemma load_bytes_cong:
  "(\<And>x. in_range a n x \<Longrightarrow> m x = m' x) \<Longrightarrow> n \<le> 2 ^ 64 \<Longrightarrow> load_bytes m a n = load_bytes m' a n"
  by (auto simp: load_bytes_def in_range_offset)

lemma load_store_bytes:
  "length bs \<le> 2 ^ 64 \<Longrightarrow> load_bytes (store_bytes m a bs) a (length bs) = bs"
  by (rule nth_equalityI) (auto simp: store_bytes_def in_range_offset unat_of_nat)

lemma store_bytes_outside: "\<not> in_range a (length bs) x \<Longrightarrow> store_bytes m a bs x = m x"
  by (simp add: store_bytes_def)

lemma load64_store64_same [simp]: "load64 (store64 m a v) a = v"
proof -
  have "load_bytes (store64 m a v) a 8 = le_bytes 8 v"
    using load_store_bytes [of "le_bytes 8 v" m a] by (simp add: store64_def)
  then show ?thesis
    using little_endian_le_bytes [of 8 v] by (simp add: load64_def take_bit_word_eq_self)
qed

lemma store64_outside: "\<not> in_range a 8 x \<Longrightarrow> store64 m a v x = m x"
  by (simp add: store64_def store_bytes_outside)

lemma load64_cong: "(\<And>x. in_range a 8 x \<Longrightarrow> m x = m' x) \<Longrightarrow> load64 m a = load64 m' a"
  unfolding load64_def using load_bytes_cong [of a 8 m m'] by simp

text \<open>Two eight-byte cells on eight-byte boundaries are the same cell or do not meet.\<close>

lemma aligned_cells_disjoint:
  assumes "8 dvd unat a" "8 dvd unat b" "a \<noteq> (b :: u64)" "in_range a 8 x"
  shows "\<not> in_range b 8 x"
proof
  assume b: "in_range b 8 x"
  have nat8: "unat c + 8 \<le> 2 ^ 64" if "8 dvd unat c" for c :: u64
  proof -
    from that obtain k where k: "unat c = 8 * k" by (auto elim: dvdE)
    with unat_lt64 [of c] have "8 * k < 2 ^ 64" by simp
    then show ?thesis using k by simp
  qed
  have "unat a \<le> unat x" "unat x < unat a + 8" "unat b \<le> unat x" "unat x < unat b + 8"
    using assms b in_range_nat [OF nat8] by blast+
  moreover obtain i j where "unat a = 8 * i" "unat b = 8 * j" using assms by (auto elim!: dvdE)
  ultimately have "unat a = unat b" by arith
  with assms(3) show False by (simp add: word_unat_eq_iff)
qed

lemma load64_store64_other:
  assumes "8 dvd unat a" "8 dvd unat b" "a \<noteq> b"
  shows "load64 (store64 m a v) b = load64 m b"
  using aligned_cells_disjoint [OF assms(2,1)] assms(3)
  by (intro load64_cong store64_outside) auto

lemma load64_zero:
  assumes "\<And>x. in_range a 8 x \<Longrightarrow> m x = 0"
  shows "load64 m a = 0"
proof -
  have "load_bytes m a 8 ! i = 0" if "i < 8" for i
    using that assms [OF in_range_offset, of i] by simp
  then show ?thesis
    unfolding load64_def by (intro bit_word_eqI) (simp add: bit_little_endian)
qed

end
