(* ===== verification/Str.thy ===== *)
theory Str
  imports Checked
begin

text \<open>
  \<open>src/util/str.c\<close>: strings that know their own length. A \<open>struct str\<close> is the list of the bytes it
  names, its \<open>length\<close> the length of the list; the null string with length 0 is the empty list.
  Characters are compared as bytes. The code's \<open>char\<close> is signed, but every comparison it makes is
  with the bounds of an ASCII range, which no byte above 127 satisfies under either reading.
\<close>

type_synonym str = "u8 list"

text \<open>A C string literal as bytes.\<close>

abbreviation lit :: "string \<Rightarrow> str" where
  "lit s \<equiv> map of_char s"

definition is_space :: "u8 \<Rightarrow> bool" where
  "is_space value \<longleftrightarrow> value = of_char CHR '' '' \<or> value = of_char CHR 0x09 \<or>
     value = of_char CHR 0x0D \<or> value = of_char CHR 0x0A"

definition lower :: "u8 \<Rightarrow> u8" where
  "lower value = (if value < of_char CHR ''A'' \<or> value > of_char CHR ''Z'' then value
                  else value OR 0x20)"

definition digit_value :: "u8 \<Rightarrow> u64 \<Rightarrow> u64 option" where
  "digit_value value base =
     do { digit \<leftarrow>
            (if value \<ge> of_char CHR ''0'' \<and> value \<le> of_char CHR ''9''
             then Some (ucast (value - of_char CHR ''0''))
             else if value \<ge> of_char CHR ''a'' \<and> value \<le> of_char CHR ''f''
             then Some (ucast (value - of_char CHR ''a'') + 10)
             else if value \<ge> of_char CHR ''A'' \<and> value \<le> of_char CHR ''F''
             then Some (ucast (value - of_char CHR ''A'') + 10)
             else None);
          ensure (\<not> digit \<ge> base);
          Some digit }"

text \<open>\<open>cstr_length\<close> and \<open>str_from_cstr\<close>: the bytes before the terminator.\<close>

fun cstr_length :: "u8 list \<Rightarrow> nat" where
  "cstr_length [] = 0"
| "cstr_length (c # text) = (if c = 0 then 0 else Suc (cstr_length text))"

definition str_from_cstr :: "u8 list \<Rightarrow> str" where
  "str_from_cstr text = take (cstr_length text) text"

definition str_slice :: "str \<Rightarrow> nat \<Rightarrow> nat \<Rightarrow> str" where
  "str_slice text offset len =
     (if offset > length text then []
      else let available = length text - offset
           in take (if len < available then len else available) (drop offset text))"

fun str_equal_from :: "(u8 \<Rightarrow> u8) \<Rightarrow> str \<Rightarrow> str \<Rightarrow> nat list \<Rightarrow> bool" where
  "str_equal_from f left right [] = True"
| "str_equal_from f left right (index # rest) =
     (if f (left ! index) \<noteq> f (right ! index) then False else str_equal_from f left right rest)"

definition str_equal :: "str \<Rightarrow> str \<Rightarrow> bool" where
  "str_equal left right =
     (if length left \<noteq> length right then False
      else str_equal_from (\<lambda>c. c) left right [0..<length left])"

definition str_equal_cstr :: "str \<Rightarrow> u8 list \<Rightarrow> bool" where
  "str_equal_cstr left right = str_equal left (str_from_cstr right)"

definition str_equal_ignore_case :: "str \<Rightarrow> str \<Rightarrow> bool" where
  "str_equal_ignore_case left right =
     (if length left \<noteq> length right then False
      else str_equal_from lower left right [0..<length left])"

definition str_starts_with :: "str \<Rightarrow> str \<Rightarrow> bool" where
  "str_starts_with text prefix =
     (if length prefix > length text then False
      else str_equal (str_slice text 0 (length prefix)) prefix)"

text \<open>The two loops of \<open>str_trim\<close> move \<open>start\<close> up and then \<open>end\<close> down.\<close>

function trim_start :: "str \<Rightarrow> nat \<Rightarrow> nat \<Rightarrow> nat" where
  "trim_start text start end' =
     (if start < end' \<and> is_space (text ! start) then trim_start text (start + 1) end' else start)"
  by pat_completeness auto
termination by (relation "measure (\<lambda>(text, start, end'). end' - start)") auto

fun trim_end :: "str \<Rightarrow> nat \<Rightarrow> nat \<Rightarrow> nat" where
  "trim_end text start end' =
     (if end' > start \<and> is_space (text ! (end' - 1)) then trim_end text start (end' - 1) else end')"

declare trim_start.simps [simp del] trim_end.simps [simp del]

definition str_trim :: "str \<Rightarrow> str" where
  "str_trim text =
     (let start = trim_start text 0 (length text);
          end' = trim_end text start (length text)
      in str_slice text start (end' - start))"

fun str_digits :: "u64 \<Rightarrow> u64 \<Rightarrow> str \<Rightarrow> u64 option" where
  "str_digits base value [] = Some value"
| "str_digits base value (c # text) =
     do { digit \<leftarrow> digit_value c base;
          value \<leftarrow> checked_mul_u64 value base;
          value \<leftarrow> checked_add_u64 value digit;
          str_digits base value text }"

definition str_to_u64 :: "str \<Rightarrow> u64 option" where
  "str_to_u64 text =
     (if length text = 0 then None
      else let hex = (length text > 2 \<and> text ! 0 = of_char CHR ''0'' \<and>
                      lower (text ! 1) = of_char CHR ''x'');
               base = (if hex then 16 else 10);
               index = (if hex then 2 else 0)
           in if index \<ge> length text then None else str_digits base 0 (drop index text))"

text \<open>The buffer \<open>str_copy_cstr\<close> leaves, up to and including the terminator.\<close>

definition str_copy_cstr :: "str \<Rightarrow> nat \<Rightarrow> u8 list option" where
  "str_copy_cstr text capacity =
     (if capacity = 0 \<or> length text \<ge> capacity then None else Some (text @ [0]))"

subsection \<open>Equality, slices and trimming\<close>

lemma str_equal_from_iff:
  "str_equal_from f xs ys is \<longleftrightarrow> (\<forall>i \<in> set is. f (xs ! i) = f (ys ! i))"
  by (induction "is") auto

lemma str_equal_iff [simp]: "str_equal xs ys \<longleftrightarrow> xs = ys"
  unfolding str_equal_def str_equal_from_iff
  using list_eq_iff_nth_eq [of xs ys] by auto

lemma str_equal_ignore_case_iff: "str_equal_ignore_case xs ys \<longleftrightarrow> map lower xs = map lower ys"
  unfolding str_equal_ignore_case_def str_equal_from_iff
  by (cases "length xs = length ys") (auto simp: map_equality_iff dest: map_eq_imp_length_eq)

lemma str_from_cstr_id: "0 \<notin> set tx \<Longrightarrow> str_from_cstr tx = tx"
proof -
  assume "0 \<notin> set tx"
  then have "cstr_length tx = length tx" by (induction tx) auto
  then show ?thesis by (simp add: str_from_cstr_def)
qed

lemma str_from_cstr_append: "0 \<notin> set tx \<Longrightarrow> str_from_cstr (tx @ 0 # rest) = tx"
proof -
  assume "0 \<notin> set tx"
  then have "cstr_length (tx @ 0 # rest) = length tx" by (induction tx) auto
  then show ?thesis by (simp add: str_from_cstr_def)
qed

lemma str_slice_eq: "str_slice tx off n = take n (drop off tx)"
  by (auto simp: str_slice_def Let_def)

lemma str_starts_with_iff: "str_starts_with tx p \<longleftrightarrow> take (length p) tx = p"
  by (auto simp: str_starts_with_def str_slice_eq)

text \<open>A copied string reads back as itself: the terminator is where the tx ended.\<close>

lemma str_copy_cstr_roundtrip:
  "str_copy_cstr tx capacity = Some out \<Longrightarrow> 0 \<notin> set tx \<Longrightarrow>
   str_from_cstr out = tx \<and> length out \<le> capacity"
  using str_from_cstr_append [of tx "[]"] unfolding str_copy_cstr_def
  by (cases "capacity = 0 \<or> length tx \<ge> capacity") (clarsimp, simp add: Suc_le_eq, metis length_append_singleton not_less_eq_eq not_le)

lemma trim_start_bounds:
  "start \<le> e \<Longrightarrow> start \<le> trim_start t start e \<and> trim_start t start e \<le> e"
proof (induction t start e rule: trim_start.induct)
  case (1 t start e)
  then show ?case by (subst (1 2) trim_start.simps) auto
qed

lemma trim_start_spec:
  "start \<le> e \<Longrightarrow> (\<forall>i. start \<le> i \<and> i < trim_start t start e \<longrightarrow> is_space (t ! i)) \<and>
     (trim_start t start e < e \<longrightarrow> \<not> is_space (t ! trim_start t start e))"
proof (induction t start e rule: trim_start.induct)
  case (1 t start e)
  show ?case
  proof (cases "start < e \<and> is_space (t ! start)")
    case True
    then have eq: "trim_start t start e = trim_start t (start + 1) e"
      by (subst trim_start.simps) simp
    from 1 True show ?thesis unfolding eq
      by (metis Suc_eq_plus1 Suc_leI le_neq_implies_less)
  next
    case False
    then show ?thesis by (subst (1 2 3) trim_start.simps) auto
  qed
qed

lemma trim_end_spec:
  "start \<le> e \<Longrightarrow> start \<le> trim_end t start e \<and> trim_end t start e \<le> e \<and>
     (\<forall>i. trim_end t start e \<le> i \<and> i < e \<longrightarrow> is_space (t ! i)) \<and>
     (start < trim_end t start e \<longrightarrow> \<not> is_space (t ! (trim_end t start e - 1)))"
proof (induction t start e rule: trim_end.induct)
  case (1 t start e)
  show ?case
  proof (cases "e > start \<and> is_space (t ! (e - 1))")
    case True
    then have eq: "trim_end t start e = trim_end t start (e - 1)"
      by (subst trim_end.simps) simp
    have IH: "start \<le> trim_end t start (e - 1) \<and> trim_end t start (e - 1) \<le> e - 1 \<and>
       (\<forall>i. trim_end t start (e - 1) \<le> i \<and> i < e - 1 \<longrightarrow> is_space (t ! i)) \<and>
       (start < trim_end t start (e - 1) \<longrightarrow> \<not> is_space (t ! (trim_end t start (e - 1) - 1)))"
      by (rule "1.IH" [OF True]) (use True in linarith)
    have "is_space (t ! i)" if "trim_end t start (e - 1) \<le> i" "i < e" for i
      using that IH True by (cases "i = e - 1") auto
    with IH show ?thesis unfolding eq by auto
  next
    case False
    then have "trim_end t start e = e" by (subst trim_end.simps) auto
    with False 1 show ?thesis by auto
  qed
qed

text \<open>Trimming drops exactly the blanks at the two ends.\<close>

lemma str_trim_spec:
  obtains pre post where "tx = pre @ str_trim tx @ post"
    "\<forall>c \<in> set pre. is_space c" "\<forall>c \<in> set post. is_space c"
    "str_trim tx \<noteq> [] \<Longrightarrow> \<not> is_space (hd (str_trim tx)) \<and> \<not> is_space (last (str_trim tx))"
proof -
  let ?n = "length tx"
  define s where "s = trim_start tx 0 ?n"
  define e where "e = trim_end tx s ?n"
  have s: "s \<le> ?n" "\<forall>i < s. is_space (tx ! i)" "s < ?n \<Longrightarrow> \<not> is_space (tx ! s)"
    using trim_start_bounds [of 0 ?n tx] trim_start_spec [of 0 ?n tx] by (auto simp: s_def)
  have e: "s \<le> e" "e \<le> ?n" "\<forall>i. e \<le> i \<and> i < ?n \<longrightarrow> is_space (tx ! i)"
    "s < e \<Longrightarrow> \<not> is_space (tx ! (e - 1))"
    using trim_end_spec [OF s(1), of tx] by (auto simp: e_def)
  have t: "str_trim tx = take (e - s) (drop s tx)"
    by (simp add: str_trim_def Let_def str_slice_eq s_def e_def)
  show thesis
  proof
    have "tx = take s tx @ take (e - s) (drop s tx) @ drop (e - s) (drop s tx)"
      by (simp only: append_take_drop_id)
    also have "drop (e - s) (drop s tx) = drop e tx" using e by (simp only: drop_drop le_add_diff_inverse2)
    finally show "tx = take s tx @ str_trim tx @ drop e tx" using t by simp
    show "\<forall>c \<in> set (take s tx). is_space c"
      using s by (auto simp: in_set_conv_nth)
    show "\<forall>c \<in> set (drop e tx). is_space c"
      using e by (auto simp: in_set_conv_nth)
    show "\<not> is_space (hd (str_trim tx)) \<and> \<not> is_space (last (str_trim tx))"
      if "str_trim tx \<noteq> []"
    proof -
      have "s < e" using that t by (cases "s < e") auto
      then show ?thesis
        using s(3) e t by (auto simp: hd_conv_nth last_conv_nth that)
    qed
  qed
qed

lemma str_trim_id:
  assumes "tx = [] \<or> (\<not> is_space (hd tx) \<and> \<not> is_space (last tx))"
  shows "str_trim tx = tx"
proof (cases tx)
  case Nil
  then show ?thesis by (simp add: str_trim_def str_slice_eq Let_def)
next
  case (Cons c cs)
  with assms have "trim_start tx 0 (length tx) = 0"
    by (subst trim_start.simps) auto
  moreover have "trim_end tx 0 (length tx) = length tx"
    using assms Cons last_conv_nth [of tx] by (subst trim_end.simps) auto
  ultimately show ?thesis by (simp add: str_trim_def str_slice_eq)
qed

lemma length_str_trim: "length (str_trim tx) \<le> length tx"
  by (rule str_trim_spec [of tx]) (metis length_append le_add1 le_add2 le_trans)

subsection \<open>Numbers\<close>

text \<open>
  The reference: the digits of a numeral and its value, on unbounded numbers and with the digit
  characters listed.
\<close>

definition digit_chars :: "(u8 \<times> nat) list" where
  "digit_chars = zip (lit ''0123456789abcdefABCDEF'') ([0..<16] @ [10..<16])"

definition digit_of :: "nat \<Rightarrow> u8 \<Rightarrow> nat option" where
  "digit_of base c = (case map_of digit_chars c of
      None \<Rightarrow> None | Some d \<Rightarrow> if d < base then Some d else None)"

fun digits_value :: "nat \<Rightarrow> nat \<Rightarrow> str \<Rightarrow> nat option" where
  "digits_value base v [] = Some v"
| "digits_value base v (c # cs) =
     (case digit_of base c of None \<Rightarrow> None | Some d \<Rightarrow> digits_value base (v * base + d) cs)"

definition numeral_value :: "str \<Rightarrow> nat option" where
  "numeral_value t =
     (if t = [] then None
      else if 2 < length t \<and> map lower (take 2 t) = lit ''0x'' then digits_value 16 0 (drop 2 t)
      else digits_value 10 0 t)"

lemma digit_chars_eq: "digit_chars = [(48,0),(49,1),(50,2),(51,3),(52,4),(53,5),(54,6),(55,7),(56,8),(57,9),
  (97,10),(98,11),(99,12),(100,13),(101,14),(102,15),(65,10),(66,11),(67,12),(68,13),(69,14),(70,15)]"
  by code_simp

lemma digit_value_table:
  "\<forall>b \<in> {10, 16}. \<forall>p \<in> set digit_chars. digit_value (fst p) b =
     (if snd p < unat b then Some (of_nat (snd p)) else None)"
  by code_simp

lemma digit_chars_cover:
  assumes "48 \<le> c \<and> c \<le> 57 \<or> 97 \<le> c \<and> c \<le> 102 \<or> 65 \<le> c \<and> c \<le> (70 :: u8)"
  shows "c \<in> fst ` set digit_chars"
proof -
  have "unat c \<in> set ([48..<58] @ [97..<103] @ [65..<71])"
    using assms unfolding set_append set_upt Un_iff atLeastLessThan_iff
    by (auto simp: word_le_nat_alt)
  then have "of_nat (unat c) \<in> set (map (of_nat :: nat \<Rightarrow> u8) ([48..<58] @ [97..<103] @ [65..<71]))"
    unfolding set_map by (rule imageI)
  also have "map (of_nat :: nat \<Rightarrow> u8) ([48..<58] @ [97..<103] @ [65..<71]) = map fst digit_chars"
    by code_simp
  finally show ?thesis by simp
qed

lemma digit_value_eq:
  assumes "base = 10 \<or> base = 16"
  shows "map_option unat (digit_value c base) = digit_of (unat base) c"
proof (cases "map_of digit_chars c")
  case (Some d)
  then have "(c, d) \<in> set digit_chars" by (rule map_of_SomeD)
  moreover from this have "d < 16" by (auto simp: digit_chars_eq)
  ultimately show ?thesis
    using digit_value_table assms Some by (force simp: digit_of_def unat_of_nat)
next
  case None
  then have "c \<notin> fst ` set digit_chars" by (simp add: map_of_eq_None_iff)
  then show ?thesis
    using None digit_chars_cover [of c] by (auto simp: digit_value_def digit_of_def)
qed

lemma digit_value_Some:
  assumes "base = 10 \<or> base = 16"
  shows "digit_of (unat base) c = Some d \<longleftrightarrow> d < 2 ^ 64 \<and> digit_value c base = Some (of_nat d)"
  unfolding digit_value_eq [OF assms, symmetric]
  by (auto simp: unat_of_nat)

lemma digits_value_ge: "digits_value b v cs = Some n \<Longrightarrow> 0 < b \<Longrightarrow> v \<le> n"
proof (induction cs arbitrary: v)
  case (Cons c cs)
  then obtain d where "digits_value b (v * b + d) cs = Some n"
    by (auto split: option.splits)
  with Cons.IH Cons.prems(2) have "v * b + d \<le> n" by blast
  moreover have "v * 1 \<le> v * b" using Cons.prems(2) by (intro mult_le_mono2) simp
  ultimately show ?case by linarith
qed simp

lemma str_digits_exact:
  assumes base: "base = 10 \<or> base = 16"
  shows "map_option unat (str_digits base v cs) =
    (case digits_value (unat base) (unat v) cs of
       None \<Rightarrow> None | Some n \<Rightarrow> if n < 2 ^ 64 then Some n else None)"
proof (induction cs arbitrary: v)
  case (Cons c cs)
  have pos: "0 < unat base" using base by auto
  show ?case
  proof (cases "digit_value c base")
    case None
    then have "digit_of (unat base) c = None" using digit_value_eq [OF base, of c] by simp
    with None show ?thesis by simp
  next
    case (Some d)
    then have d: "digit_of (unat base) c = Some (unat d)"
      using digit_value_eq [OF base, of c] by simp
    have big: "(case digits_value (unat base) w cs of None \<Rightarrow> None
        | Some n \<Rightarrow> if n < 2 ^ 64 then Some n else None) = None" if "2 ^ 64 \<le> w" for w
      using digits_value_ge [OF _ pos, of w cs] that by (force split: option.splits)
    show ?thesis
    proof (cases "checked_mul_u64 v base")
      case None
      then have "2 ^ 64 \<le> unat v * unat base + unat d" by (simp add: checked_mul_u64_None)
      from big [OF this] None Some d show ?thesis by simp
    next
      case mul: (Some p)
      then have p: "unat p = unat v * unat base" by (simp add: checked_Some)
      show ?thesis
      proof (cases "checked_add_u64 p d")
        case None
        then have "2 ^ 64 \<le> unat v * unat base + unat d" by (simp add: checked_add_u64_None p)
        from big [OF this] None Some mul d show ?thesis by simp
      next
        case add: (Some q)
        then have "unat q = unat v * unat base + unat d" by (simp add: checked_Some p)
        with add mul Some d Cons.IH [of q] show ?thesis by simp
      qed
    qed
  qed
qed simp

lemma str_to_u64_exact_eq:
  "map_option unat (str_to_u64 t) =
     (case numeral_value t of None \<Rightarrow> None | Some n \<Rightarrow> if n < 2 ^ 64 then Some n else None)"
proof -
  have prefix: "(2 < length t \<and> t ! 0 = of_char CHR ''0'' \<and> lower (t ! 1) = of_char CHR ''x'') \<longleftrightarrow>
      2 < length t \<and> map lower (take 2 t) = lit ''0x''"
  proof (cases t)
    case (Cons a u)
    then show ?thesis
    proof (cases u)
      case (Cons b v)
      have "lower a = of_char CHR ''0'' \<longleftrightarrow> a = of_char CHR ''0''"
      proof (cases "a < of_char CHR ''A'' \<or> a > of_char CHR ''Z''")
        case False
        then have "unat a \<in> set [65..<91]"
          unfolding set_upt atLeastLessThan_iff by (simp add: word_less_nat_alt not_less word_le_nat_alt)
        moreover have "\<forall>n \<in> set [65..<91]. lower (of_nat n) \<noteq> (of_char CHR ''0'' :: u8)" by code_simp
        ultimately have "lower (of_nat (unat a)) \<noteq> (of_char CHR ''0'' :: u8)" by blast
        with False show ?thesis by auto
      qed (auto simp: lower_def)
      with \<open>t = a # u\<close> Cons show ?thesis by (auto simp: numeral_2_eq_2)
    qed simp
  qed simp
  show ?thesis
    using str_digits_exact [of 16 0 "drop 2 t"] str_digits_exact [of 10 0 t]
    unfolding str_to_u64_def numeral_value_def prefix Let_def by (simp split: if_splits)
qed

text \<open>
  C18. \<open>str_to_u64\<close> reads a decimal numeral, or a hexadecimal one after \<open>0x\<close>, to exactly the
  number its digits denote, and refuses exactly the empty string, a string with a character that is
  no digit of its base, and a numeral of \<open>2^64\<close> or more: no numeral wraps around.
\<close>

theorem str_to_u64_exact:
  "map_option unat (str_to_u64 t) =
     (case numeral_value t of None \<Rightarrow> None | Some n \<Rightarrow> if n < 2 ^ 64 then Some n else None)"
  by (rule str_to_u64_exact_eq)

end
