(* ===== verification/Log.thy ===== *)
theory Log
  imports Str
begin

text \<open>
  \<open>src/log/log.c\<close>: the log lines of the loader. What a sink receives is the trace of the model:
  \<open>Text s t\<close> is the call of the sink \<open>s\<close> with the text \<open>t\<close>, \<open>Style f l\<close> the call of the style
  callback \<open>f\<close> with the level \<open>l\<close>. Sinks and callbacks are opaque code addresses, and the variable
  arguments of \<open>log_emit\<close> are the list of the values passed.
\<close>

abbreviation (input) LOG_LEVEL_NONE :: int where "LOG_LEVEL_NONE \<equiv> 0"
abbreviation (input) LOG_LEVEL_ERROR :: int where "LOG_LEVEL_ERROR \<equiv> 1"
abbreviation (input) LOG_LEVEL_WARN :: int where "LOG_LEVEL_WARN \<equiv> 2"
abbreviation (input) LOG_LEVEL_INFO :: int where "LOG_LEVEL_INFO \<equiv> 3"

abbreviation (input) NUMBER_BUFFER_BYTES :: nat where "NUMBER_BUFFER_BYTES \<equiv> 21"
abbreviation (input) LOG_MAX_SINKS :: nat where "LOG_MAX_SINKS \<equiv> 2"

datatype log_event = Text u64 "u8 list" | Style u64 int

datatype log_argument = Arg_string "u8 list" | Arg_number u64 | Arg_pointer u64

record log_state =
  sinks :: "u64 list"
  style :: "u64 option"

definition level_tag :: "int \<Rightarrow> str" where
  "level_tag level =
     (if level = LOG_LEVEL_ERROR then lit ''[ERROR] ''
      else if level = LOG_LEVEL_WARN then lit ''[WARN]  ''
      else if level = LOG_LEVEL_INFO then lit ''[INFO]  ''
      else lit ''[DEBUG] '')"

definition emit :: "log_state \<Rightarrow> u8 list \<Rightarrow> log_event list" where
  "emit st t = map (\<lambda>sink. Text sink t) (sinks st)"

definition emit_style :: "log_state \<Rightarrow> int \<Rightarrow> log_event list" where
  "emit_style st level = (case style st of None \<Rightarrow> [] | Some f \<Rightarrow> [Style f level])"

definition emit_tag :: "log_state \<Rightarrow> int \<Rightarrow> log_event list" where
  "emit_tag st level = emit_style st level @ emit st (level_tag level) @ emit_style st LOG_LEVEL_NONE"

text \<open>The digits of a number, least significant first, as the loop fills its buffer.\<close>

definition HEX_DIGITS :: str where
  "HEX_DIGITS = lit ''0123456789abcdef''"

function unsigned_digits :: "u64 \<Rightarrow> u64 \<Rightarrow> u8 list \<Rightarrow> u8 list" where
  "unsigned_digits value base digits =
     (if value \<noteq> 0 \<and> length digits < NUMBER_BUFFER_BYTES - 1
      then unsigned_digits (value div base) base (digits @ [HEX_DIGITS ! unat (value mod base)])
      else digits)"
  by pat_completeness auto
termination
  by (relation "measure (\<lambda>(value, base, digits). NUMBER_BUFFER_BYTES - 1 - length digits)") auto

declare unsigned_digits.simps [simp del]

text \<open>The text \<open>emit_unsigned\<close> hands to the sinks.\<close>

definition unsigned_text :: "u64 \<Rightarrow> u64 \<Rightarrow> str" where
  "unsigned_text value base =
     (if value = 0 then lit ''0''
      else let digits = unsigned_digits value base []
           in map (\<lambda>index. digits ! (length digits - index - 1)) [0..<length digits])"

definition emit_unsigned :: "log_state \<Rightarrow> u64 \<Rightarrow> u64 \<Rightarrow> log_event list" where
  "emit_unsigned st value base = emit st (unsigned_text value base)"

definition log_set_sink :: "log_state \<Rightarrow> u64 option \<Rightarrow> log_state" where
  "log_set_sink st new_sink =
     st\<lparr>sinks := (case new_sink of None \<Rightarrow> [] | Some s \<Rightarrow> [s])\<rparr>"

definition log_add_sink :: "log_state \<Rightarrow> u64 option \<Rightarrow> log_state option" where
  "log_add_sink st extra =
     (case extra of
        None \<Rightarrow> None
      | Some s \<Rightarrow> if length (sinks st) = LOG_MAX_SINKS then None
                  else Some (st\<lparr>sinks := sinks st @ [s]\<rparr>))"

definition log_set_style :: "log_state \<Rightarrow> u64 option \<Rightarrow> log_state" where
  "log_set_style st new_style = st\<lparr>style := new_style\<rparr>"

text \<open>
  The loop of \<open>log_emit\<close> over the characters before the terminator. \<open>None\<close> is behaviour the code
  leaves to its callers: a specifier whose argument is missing or of another type, and a \<open>%\<close> as the
  last character, after which the loop steps over the terminator.
\<close>

fun log_format :: "log_state \<Rightarrow> str \<Rightarrow> log_argument list \<Rightarrow> log_event list option" where
  "log_format st [] args = Some []"
| "log_format st (c # rest) args =
     (if c \<noteq> of_char CHR ''%'' then
        map_option (\<lambda>out. emit st [c] @ out) (log_format st rest args)
      else case rest of
        [] \<Rightarrow> None
      | d # rest' \<Rightarrow>
          if d = of_char CHR ''s'' then
            (case args of Arg_string t # args' \<Rightarrow>
               map_option (\<lambda>out. emit st t @ out) (log_format st rest' args') | _ \<Rightarrow> None)
          else if d = of_char CHR ''u'' then
            (case args of Arg_number n # args' \<Rightarrow>
               map_option (\<lambda>out. emit_unsigned st n 10 @ out) (log_format st rest' args') | _ \<Rightarrow> None)
          else if d = of_char CHR ''x'' then
            (case args of Arg_number n # args' \<Rightarrow>
               map_option (\<lambda>out. emit_unsigned st n 16 @ out) (log_format st rest' args') | _ \<Rightarrow> None)
          else if d = of_char CHR ''p'' then
            (case args of Arg_pointer n # args' \<Rightarrow>
               map_option (\<lambda>out. emit st (lit ''0x'') @ emit_unsigned st n 16 @ out)
                 (log_format st rest' args') | _ \<Rightarrow> None)
          else if d = of_char CHR ''%'' then
            map_option (\<lambda>out. emit st (lit ''%'') @ out) (log_format st rest' args)
          else map_option (\<lambda>out. emit st [d] @ out) (log_format st rest' args))"

definition log_emit :: "log_state \<Rightarrow> int \<Rightarrow> str \<Rightarrow> log_argument list \<Rightarrow> log_event list option" where
  "log_emit st level format args =
     map_option (\<lambda>out. emit_tag st level @ out @ emit st [of_char CHR 0x0A])
       (log_format st format args)"

subsection \<open>Numbers are printed whole\<close>

lemma digits_value_append:
  "digits_value b v (xs @ ys) = Option.bind (digits_value b v xs) (\<lambda>w. digits_value b w ys)"
  by (induction xs arbitrary: v) (auto split: option.split)

lemma hex_digit_of: "\<forall>b \<in> {10, 16}. \<forall>d \<in> set [0..<b]. digit_of b (HEX_DIGITS ! d) = Some d"
  by code_simp

text \<open>The twenty digits the buffer has room for are enough for every 64-bit value in either base.\<close>

lemma unsigned_digits_value:
  assumes base: "base = 10 \<or> base = 16"
    and fits: "unat v < unat base ^ (20 - length ds)" "length ds \<le> 20"
  shows "\<exists>es. unsigned_digits v base ds = ds @ es \<and> length ds + length es \<le> 20 \<and>
    digits_value (unat base) 0 (rev es) = Some (unat v)"
  using fits
proof (induction "20 - length ds" arbitrary: v ds)
  case 0
  then have "v = 0" by (simp add: unat_eq_0)
  with 0 show ?case by (subst unsigned_digits.simps) simp
next
  case (Suc n)
  show ?case
  proof (cases "v = 0")
    case True
    with Suc show ?thesis by (subst unsigned_digits.simps) simp
  next
    case False
    let ?d = "unat (v mod base)" and ?ds = "ds @ [HEX_DIGITS ! unat (v mod base)]"
    have pos: "0 < unat base" using base by auto
    from Suc(2) have len: "length ds < 20" by simp
    have step: "unsigned_digits v base ds = unsigned_digits (v div base) base ?ds"
      using False len by (subst unsigned_digits.simps) simp
    have d: "digit_of (unat base) (HEX_DIGITS ! ?d) = Some ?d"
      using hex_digit_of base pos by (auto simp: unat_mod)
    have "unat v < unat base ^ (20 - length ?ds) * unat base"
    proof -
      have "20 - length ds = Suc (20 - length ?ds)" using len by simp
      then show ?thesis using Suc.prems(1) by (simp only: power_Suc2)
    qed
    then have "unat (v div base) < unat base ^ (20 - length ?ds)"
      unfolding unat_div by (rule less_mult_imp_div_less)
    moreover have "n = 20 - length ?ds" "length ?ds \<le> 20" using Suc(2) by auto
    ultimately obtain es where es: "unsigned_digits (v div base) base ?ds = ?ds @ es"
      "length ?ds + length es \<le> 20" "digits_value (unat base) 0 (rev es) = Some (unat (v div base))"
      using Suc(1) [of ?ds "v div base"] by blast
    have "digits_value (unat base) 0 (rev (HEX_DIGITS ! ?d # es)) = Some (unat v)"
      using d by (simp add: digits_value_append es(3) unat_div) (simp add: unat_mod)
    with es(1,2) step show ?thesis
      by (intro exI [of _ "HEX_DIGITS ! ?d # es"]) simp
  qed
qed

lemma unsigned_text_rev: "v \<noteq> 0 \<Longrightarrow> unsigned_text v b = rev (unsigned_digits v b [])"
  by (auto simp: unsigned_text_def Let_def rev_nth intro!: nth_equalityI)

lemma unsigned_text_value:
  assumes base: "base = 10 \<or> base = 16"
  shows "digits_value (unat base) 0 (unsigned_text v base) = Some (unat v)"
    "length (unsigned_text v base) \<le> 20" "unsigned_text v base \<noteq> []"
proof -
  have fits: "unat v < unat base ^ (20 - length [])" if "base = 10 \<or> base = 16" for base :: u64
    using that less_trans [OF unat_lt64 [of v]] by auto
  have all: "digits_value (unat base) 0 (unsigned_text v base) = Some (unat v) \<and>
    length (unsigned_text v base) \<le> 20 \<and> unsigned_text v base \<noteq> []"
  proof (cases "v = 0")
    case True
    have "\<forall>b \<in> {10, 16 :: u64}. digits_value (unat b) 0 (lit ''0'') = Some 0" by code_simp
    with base True show ?thesis by (auto simp: unsigned_text_def)
  next
    case False
    from unsigned_digits_value [OF base fits [OF base]] obtain es where
      es: "unsigned_digits v base [] = es" "length es \<le> 20"
        "digits_value (unat base) 0 (rev es) = Some (unat v)" by auto
    moreover have "es \<noteq> []" using es(3) False by (auto simp: unat_eq_0)
    ultimately show ?thesis using False by (simp add: unsigned_text_rev)
  qed
  then show "digits_value (unat base) 0 (unsigned_text v base) = Some (unat v)"
    "length (unsigned_text v base) \<le> 20" "unsigned_text v base \<noteq> []" by auto
qed

lemma decimal_not_hex:
  assumes "digits_value 10 0 t = Some n"
  shows "\<not> (2 < length t \<and> map lower (take 2 t) = lit ''0x'')"
proof
  assume *: "2 < length t \<and> map lower (take 2 t) = lit ''0x''"
  then obtain a b u where t: "t = a # b # u" by (cases t; cases "tl t") auto
  with * have x: "lower b = of_char CHR ''x''" by simp
  from assms t have "digit_of 10 b \<noteq> None" by (auto split: option.splits)
  then have "map_of digit_chars b \<noteq> None" by (auto simp: digit_of_def split: option.splits)
  then have "b \<in> set (map fst digit_chars)" by (simp add: map_of_eq_None_iff)
  moreover have "\<forall>c \<in> set (map fst digit_chars). lower c \<noteq> of_char CHR ''x''" by code_simp
  ultimately have "lower b \<noteq> of_char CHR ''x''" by (rule bspec [rotated])
  with x show False by contradiction
qed

text \<open>
  What the log prints for a 64-bit number reads back as that number: the decimal text of
  \<open>%u\<close>, and the hexadecimal text of \<open>%p\<close> with its \<open>0x\<close>. No value is truncated by the 21-byte
  buffer, which the text leaves room for its terminator in.
\<close>

theorem printed_number_reads_back:
  "str_to_u64 (unsigned_text v 10) = Some v \<and>
   str_to_u64 (lit ''0x'' @ unsigned_text v 16) = Some v \<and>
   length (unsigned_text v 10) < NUMBER_BUFFER_BYTES \<and> length (unsigned_text v 16) < NUMBER_BUFFER_BYTES"
proof -
  have lower_0x: "map lower (lit ''0x'') = lit ''0x''" by code_simp
  note ten = unsigned_text_value [of 10 v, simplified] and
    sixteen = unsigned_text_value [of 16 v, simplified]
  have "numeral_value (unsigned_text v 10) = Some (unat v)"
    using decimal_not_hex [OF ten(1)] ten(1,3) unfolding numeral_value_def by (simp only: if_False)
  moreover have "numeral_value (lit ''0x'' @ unsigned_text v 16) = Some (unat v)"
    using sixteen lower_0x by (auto simp: numeral_value_def numeral_2_eq_2)
  ultimately have
    "map_option unat (str_to_u64 (unsigned_text v 10)) = Some (unat v)"
    "map_option unat (str_to_u64 (lit ''0x'' @ unsigned_text v 16)) = Some (unat v)"
    by (simp_all only: str_to_u64_exact_eq) simp_all
  then show ?thesis using ten(2) sixteen(2) by (auto dest: unat_inj)
qed

end
