(* ===== verification/Serial.thy ===== *)
theory Serial
  imports Log
begin

text \<open>
  \<open>src/serial/serial.c\<close>: the 16550 UART. The port is a device behind two operations, \<open>out8\<close> and
  \<open>in8\<close>, which are the instructions \<open>outb\<close> and \<open>inb\<close>; the device's own state is threaded through
  them. The unbounded wait for the transmitter is \<open>partial_function (option)\<close>: not returning is the
  value \<open>None\<close>.
\<close>

record 'd port_io =
  out8 :: "u16 \<Rightarrow> u8 \<Rightarrow> 'd \<Rightarrow> 'd"
  in8 :: "u16 \<Rightarrow> 'd \<Rightarrow> u8 \<times> 'd"

abbreviation (input) REGISTER_DATA :: u16 where "REGISTER_DATA \<equiv> 0"
abbreviation (input) REGISTER_INTERRUPT_ENABLE :: u16 where "REGISTER_INTERRUPT_ENABLE \<equiv> 1"
abbreviation (input) REGISTER_DIVISOR_LOW :: u16 where "REGISTER_DIVISOR_LOW \<equiv> 0"
abbreviation (input) REGISTER_DIVISOR_HIGH :: u16 where "REGISTER_DIVISOR_HIGH \<equiv> 1"
abbreviation (input) REGISTER_FIFO_CONTROL :: u16 where "REGISTER_FIFO_CONTROL \<equiv> 2"
abbreviation (input) REGISTER_LINE_CONTROL :: u16 where "REGISTER_LINE_CONTROL \<equiv> 3"
abbreviation (input) REGISTER_MODEM_CONTROL :: u16 where "REGISTER_MODEM_CONTROL \<equiv> 4"
abbreviation (input) REGISTER_LINE_STATUS :: u16 where "REGISTER_LINE_STATUS \<equiv> 5"
abbreviation (input) LINE_STATUS_TRANSMIT_EMPTY :: u8 where "LINE_STATUS_TRANSMIT_EMPTY \<equiv> 0x20"
abbreviation (input) LOOPBACK_PROBE :: u8 where "LOOPBACK_PROBE \<equiv> 0xAE"

text \<open>
  \<open>serial_init\<close> returns the device and the port to use from now on, the one in force before if the
  probe did not come back.
\<close>

definition serial_init :: "'d port_io \<Rightarrow> u16 \<Rightarrow> u16 \<Rightarrow> 'd \<Rightarrow> bool \<times> u16 \<times> 'd" where
  "serial_init io serial_port port dev =
     (let dev = out8 io (port + REGISTER_INTERRUPT_ENABLE) 0 dev;
          dev = out8 io (port + REGISTER_LINE_CONTROL) 0x80 dev;
          dev = out8 io (port + REGISTER_DIVISOR_LOW) 1 dev;
          dev = out8 io (port + REGISTER_DIVISOR_HIGH) 0 dev;
          dev = out8 io (port + REGISTER_LINE_CONTROL) 0x03 dev;
          dev = out8 io (port + REGISTER_FIFO_CONTROL) 0xC7 dev;
          dev = out8 io (port + REGISTER_MODEM_CONTROL) 0x1E dev;
          dev = out8 io (port + REGISTER_DATA) LOOPBACK_PROBE dev;
          (answer, dev) = in8 io (port + REGISTER_DATA) dev
      in if answer \<noteq> LOOPBACK_PROBE then (False, serial_port, dev)
         else let dev = out8 io (port + REGISTER_MODEM_CONTROL) 0x0B dev in (True, port, dev))"

partial_function (option) serial_wait :: "'d port_io \<Rightarrow> u16 \<Rightarrow> 'd \<Rightarrow> 'd option" where
  "serial_wait io serial_port dev =
     (let (status, dev) = in8 io (serial_port + REGISTER_LINE_STATUS) dev
      in if status AND LINE_STATUS_TRANSMIT_EMPTY = 0 then serial_wait io serial_port dev
         else Some dev)"

definition serial_put :: "'d port_io \<Rightarrow> u16 \<Rightarrow> u8 \<Rightarrow> 'd \<Rightarrow> 'd option" where
  "serial_put io serial_port value dev =
     (if serial_port = 0 then Some dev
      else do { dev \<leftarrow> serial_wait io serial_port dev;
                Some (out8 io (serial_port + REGISTER_DATA) value dev) })"

fun serial_put_all :: "'d port_io \<Rightarrow> u16 \<Rightarrow> u8 list \<Rightarrow> 'd \<Rightarrow> 'd option" where
  "serial_put_all io serial_port [] dev = Some dev"
| "serial_put_all io serial_port (c # cs) dev =
     do { dev \<leftarrow> (if c = of_char CHR 0x0A then serial_put io serial_port (of_char CHR 0x0D) dev
                  else Some dev);
          dev \<leftarrow> serial_put io serial_port c dev;
          serial_put_all io serial_port cs dev }"

definition serial_write :: "'d port_io \<Rightarrow> u16 \<Rightarrow> u8 list \<Rightarrow> 'd \<Rightarrow> 'd option" where
  "serial_write io serial_port t dev = serial_put_all io serial_port t dev"

definition serial_write_cstr :: "'d port_io \<Rightarrow> u16 \<Rightarrow> u8 list \<Rightarrow> 'd \<Rightarrow> 'd option" where
  "serial_write_cstr io serial_port t dev = serial_put_all io serial_port (str_from_cstr t) dev"

subsection \<open>What goes out on the line\<close>

text \<open>
  A concrete UART for the reference: it is busy for \<open>delay\<close> status reads after every byte it takes, and it
  keeps the bytes written to its data register, except those written while it is busy, which are lost.
\<close>

record uart =
  uart_delay :: nat
  uart_busy :: nat
  uart_sent :: "u8 list"

definition uart_io :: "u16 \<Rightarrow> uart port_io" where
  "uart_io base =
     \<lparr>out8 = (\<lambda>port value u. if port = base + REGISTER_DATA
                then (if uart_busy u = 0 then u\<lparr>uart_sent := uart_sent u @ [value], uart_busy := uart_delay u\<rparr> else u)
                else u),
      in8 = (\<lambda>port u. if port = base + REGISTER_LINE_STATUS
                then (if uart_busy u = 0 then LINE_STATUS_TRANSMIT_EMPTY else 0,
                      u\<lparr>uart_busy := uart_busy u - 1\<rparr>)
                else (0, u))\<rparr>"

definition crlf :: "u8 list \<Rightarrow> u8 list" where
  "crlf t = concat (map (\<lambda>c. if c = 0x0A then [0x0D, 0x0A] else [c]) t)"

lemma serial_wait_uart:
  "serial_wait (uart_io base) base u = Some (u\<lparr>uart_busy := 0\<rparr>)"
proof (induction "uart_busy u" arbitrary: u)
  case 0
  then show ?case by (subst serial_wait.simps) (simp add: uart_io_def)
next
  case (Suc n)
  then have "serial_wait (uart_io base) base (u\<lparr>uart_busy := n\<rparr>) = Some (u\<lparr>uart_busy := 0\<rparr>)" by simp
  then show ?case using Suc(2)
    by (subst serial_wait.simps) (simp add: uart_io_def flip: Suc(2))
qed

lemma serial_put_uart:
  "base \<noteq> 0 \<Longrightarrow> serial_put (uart_io base) base v u =
     Some (u\<lparr>uart_sent := uart_sent u @ [v], uart_busy := uart_delay u\<rparr>)"
  by (simp add: serial_put_def serial_wait_uart) (simp add: uart_io_def)

lemma serial_put_all_uart:
  "base \<noteq> 0 \<Longrightarrow> \<exists>busy. serial_put_all (uart_io base) base t u =
     Some (u\<lparr>uart_sent := uart_sent u @ crlf t, uart_busy := busy\<rparr>)"
proof (induction t arbitrary: u)
  case Nil
  then show ?case by (auto simp: crlf_def intro: exI [of _ "uart_busy u"])
next
  case (Cons c t)
  let ?u = "u\<lparr>uart_sent := uart_sent u @ crlf [c], uart_busy := uart_delay u\<rparr>"
  from Cons.IH [OF Cons.prems, of ?u] obtain busy where
    "serial_put_all (uart_io base) base t ?u =
       Some (?u\<lparr>uart_sent := uart_sent ?u @ crlf t, uart_busy := busy\<rparr>)" by blast
  then have "serial_put_all (uart_io base) base (c # t) u =
       Some (u\<lparr>uart_sent := uart_sent u @ crlf (c # t), uart_busy := busy\<rparr>)"
    by (cases "c = 0x0A") (simp_all add: serial_put_uart [OF Cons.prems] crlf_def)
  then show ?case by blast
qed

lemma serial_put_all_absent: "serial_put_all io 0 t dev = Some dev"
  by (induction t) (simp_all add: serial_put_def)

text \<open>
  C19. Writing to a serial line that is there returns, however long the transmitter takes over each
  byte, and the line has then carried the text with a carriage return before every newline: no byte is
  written while the transmitter is busy, when it would be lost. With no line found the port is 0, and
  writing neither waits nor touches the device.
\<close>

theorem serial_write_delivers:
  assumes "base \<noteq> 0"
  shows "map_option uart_sent (serial_write (uart_io base) base t u) = Some (uart_sent u @ crlf t) \<and>
    serial_write io 0 t dev = Some dev"
  using serial_put_all_uart [OF assms, of t u]
  by (auto simp: serial_write_def serial_put_all_absent)

lemma serial_write_delivers_witness:
  "map_option uart_sent (serial_write (uart_io 0x3F8) 0x3F8 [0x68, 0x0A]
     \<lparr>uart_delay = 3, uart_busy = 2, uart_sent = []\<rparr>) = Some [0x68, 0x0D, 0x0A]"
  using serial_write_delivers [of "0x3F8" "[0x68, 0x0A]" "\<lparr>uart_delay = 3, uart_busy = 2, uart_sent = []\<rparr>"
      "uart_io 0" u]
  by (simp add: crlf_def)

end
