(* ===== verification/Arena.thy ===== *)
theory Arena
  imports Mem
begin

text \<open>
  \<open>src/memory/arena.c\<close>: the bump allocator everything the loader keeps comes from. Addresses are
  \<open>u64\<close>, \<open>NULL\<close> is the result \<open>None\<close>, and the arena a call leaves is returned beside its result.
  The \<open>allocator\<close> locale is the contract its clients rely on; the arena is its interpretation.
\<close>

record arena =
  base :: u64
  capacity :: usize
  used :: usize

record arena_position =
  mark_used :: usize

abbreviation (input) ARENA_DEFAULT_ALIGNMENT :: usize where "ARENA_DEFAULT_ALIGNMENT \<equiv> 16"

definition is_power_of_two :: "usize \<Rightarrow> bool" where
  "is_power_of_two value \<longleftrightarrow> value \<noteq> 0 \<and> value AND (value - 1) = 0"

definition arena_init :: "u64 \<Rightarrow> usize \<Rightarrow> arena" where
  "arena_init start n = \<lparr>base = start, capacity = (if start \<noteq> 0 then n else 0), used = 0\<rparr>"

definition arena_allocate_aligned :: "arena \<Rightarrow> usize \<Rightarrow> usize \<Rightarrow> (u64 \<times> arena) option" where
  "arena_allocate_aligned a n alignment =
     do { ensure (is_power_of_two alignment);
          ensure (n \<noteq> 0);
          let current = base a + used a;
          let aligned = (current + (alignment - 1)) AND NOT (alignment - 1);
          let padding = aligned - current;
          needed \<leftarrow> checked_add_size padding n;
          ensure (\<not> needed > capacity a - used a);
          Some (aligned, a\<lparr>used := used a + needed\<rparr>) }"

definition arena_allocate :: "arena \<Rightarrow> usize \<Rightarrow> (u64 \<times> arena) option" where
  "arena_allocate a n = arena_allocate_aligned a n ARENA_DEFAULT_ALIGNMENT"

definition arena_allocate_zeroed :: "arena \<Rightarrow> usize \<Rightarrow> mem \<Rightarrow> (u64 \<times> arena \<times> mem) option" where
  "arena_allocate_zeroed a n m =
     do { (memory, a) \<leftarrow> arena_allocate a n;
          Some (memory, a, memset memory 0 n m) }"

definition arena_allocate_array :: "arena \<Rightarrow> usize \<Rightarrow> usize \<Rightarrow> (u64 \<times> arena) option" where
  "arena_allocate_array a count n =
     do { bytes \<leftarrow> checked_mul_size count n; arena_allocate a bytes }"

definition arena_used :: "arena \<Rightarrow> usize" where
  "arena_used a = used a"

definition arena_available :: "arena \<Rightarrow> usize" where
  "arena_available a = capacity a - used a"

definition arena_reset :: "arena \<Rightarrow> arena" where
  "arena_reset a = a\<lparr>used := 0\<rparr>"

definition arena_mark :: "arena \<Rightarrow> arena_position" where
  "arena_mark a = \<lparr>mark_used = used a\<rparr>"

definition arena_release :: "arena \<Rightarrow> arena_position \<Rightarrow> arena" where
  "arena_release a mark = (if mark_used mark \<le> used a then a\<lparr>used := mark_used mark\<rparr> else a)"

subsection \<open>The contract of an allocator\<close>

text \<open>
  What a client of an allocator relies on, over the set of byte addresses still free: an
  allocation that succeeds is a block of free bytes at the alignment asked for, its bytes are free
  no longer, and nothing that was taken becomes free.
\<close>

definition span :: "u64 \<Rightarrow> usize \<Rightarrow> nat set" where
  "span p n = {unat p..<unat p + unat n}"

fun allocate_all ::
  "('s \<Rightarrow> usize \<Rightarrow> usize \<Rightarrow> (u64 \<times> 's) option) \<Rightarrow> 's \<Rightarrow> (usize \<times> usize) list \<Rightarrow> ((u64 \<times> usize) list \<times> 's) option"
  where
  "allocate_all alloc s [] = Some ([], s)"
| "allocate_all alloc s ((n, align) # rest) =
     do { (p, s) \<leftarrow> alloc s n align;
          (ps, s) \<leftarrow> allocate_all alloc s rest;
          Some ((p, n) # ps, s) }"

locale allocator =
  fixes alloc :: "'s \<Rightarrow> usize \<Rightarrow> usize \<Rightarrow> (u64 \<times> 's) option"
    and wf :: "'s \<Rightarrow> bool"
    and free :: "'s \<Rightarrow> nat set"
  assumes alloc_wf: "wf s \<Longrightarrow> alloc s n align = Some (p, s') \<Longrightarrow> wf s'"
    and alloc_block: "wf s \<Longrightarrow> alloc s n align = Some (p, s') \<Longrightarrow>
      n \<noteq> 0 \<and> span p n \<subseteq> free s \<and> free s' \<subseteq> free s - span p n"
    and alloc_aligned: "wf s \<Longrightarrow> alloc s n align = Some (p, s') \<Longrightarrow> unat align dvd unat p"
    and free_bounded: "wf s \<Longrightarrow> x \<in> free s \<Longrightarrow> x < 2 ^ 64"
begin

lemma block_end: "wf s \<Longrightarrow> alloc s n align = Some (p, s') \<Longrightarrow> unat p + unat n \<le> 2 ^ 64"
proof -
  assume a: "wf s" "alloc s n align = Some (p, s')"
  from alloc_block [OF a] have "0 < unat n" by (simp add: unat_gt_0)
  then have "unat p + unat n - 1 \<in> span p n" by (auto simp: span_def)
  with alloc_block [OF a] free_bounded [OF a(1)] have "unat p + unat n - 1 < 2 ^ 64" by blast
  then show ?thesis by linarith
qed

text \<open>Successive allocations never overlap, and all of them lie in what was free at the start.\<close>

lemma allocations:
  assumes "wf s" "allocate_all alloc s reqs = Some (ps, s')"
  shows "wf s' \<and> free s' \<subseteq> free s \<and>
    (\<forall>b \<in> set ps. span (fst b) (snd b) \<subseteq> free s - free s') \<and>
    sorted_wrt (\<lambda>b c. span (fst b) (snd b) \<inter> span (fst c) (snd c) = {}) ps \<and>
    list_all2 (\<lambda>r b. snd b = fst r \<and> unat (snd r) dvd unat (fst b)) reqs ps"
  using assms
proof (induction reqs arbitrary: s ps)
  case (Cons r reqs)
  obtain n align where r: "r = (n, align)" by (cases r)
  note wf = Cons.prems(1)
  from Cons.prems(2) obtain p s1 ps' where a: "alloc s n align = Some (p, s1)"
    and rest: "allocate_all alloc s1 reqs = Some (ps', s')" and ps: "ps = (p, n) # ps'"
    by (auto simp: r opt_bind)
  note IH = Cons.IH [OF alloc_wf [OF wf a] rest]
  have block: "span p n \<subseteq> free s" "free s1 \<subseteq> free s - span p n"
    using alloc_block [OF wf a] by auto
  from IH block have "\<forall>b \<in> set ps'. span p n \<inter> span (fst b) (snd b) = {}" by blast
  moreover have "free s' \<subseteq> free s" using IH block by blast
  moreover have "\<forall>b \<in> set ps. span (fst b) (snd b) \<subseteq> free s - free s'"
    using IH block unfolding ps by fastforce
  moreover have "list_all2 (\<lambda>r b. snd b = fst r \<and> unat (snd r) dvd unat (fst b)) (r # reqs) ps"
    using IH alloc_aligned [OF wf a] by (simp add: ps r)
  ultimately show ?case using IH by (simp add: ps)
qed auto

end

subsection \<open>The arena keeps the contract\<close>

definition arena_wf :: "arena \<Rightarrow> bool" where
  "arena_wf a \<longleftrightarrow> unat (base a) + unat (capacity a) \<le> 2 ^ 64 \<and> used a \<le> capacity a"

definition arena_free :: "arena \<Rightarrow> nat set" where
  "arena_free a = {unat (base a) + unat (used a)..<unat (base a) + unat (capacity a)}"

lemma is_power_of_two_iff: "is_power_of_two n \<longleftrightarrow> pow2 n"
  by (simp add: is_power_of_two_def pow2_def)

lemma arena_init_wf: "unat start + unat n \<le> 2 ^ 64 \<Longrightarrow> arena_wf (arena_init start n)"
  by (auto simp: arena_init_def arena_wf_def)

text \<open>
  The address arithmetic of an allocation, exactly: it answers with the next aligned address when
  the block fits behind it, whatever the machine arithmetic does at the top of memory.
\<close>

lemma arena_allocate_aligned_exact:
  assumes wf: "arena_wf a"
  defines "cur \<equiv> unat (base a) + unat (used a)" and "lim \<equiv> unat (base a) + unat (capacity a)"
  shows "arena_allocate_aligned a n al = Some (p, a') \<longleftrightarrow>
    pow2 al \<and> n \<noteq> 0 \<and> unat p = align_up_nat cur (unat al) \<and> unat p + unat n \<le> lim \<and>
    a' = a\<lparr>used := p + n - base a\<rparr>"
  (is "?lhs \<longleftrightarrow> ?rhs")
proof (cases "pow2 al \<and> n \<noteq> 0")
  case False
  then show ?thesis by (auto simp: arena_allocate_aligned_def is_power_of_two_iff Let_def)
next
  case True
  then have p2: "pow2 al" and n: "0 < unat n" by (simp_all add: unat_gt_0)
  note pos = pow2_pos [OF p2]
  let ?current = "base a + used a"
  let ?aligned = "(?current + (al - 1)) AND NOT (al - 1)"
  let ?padding = "?aligned - ?current"
  have al1: "unat (al - 1) = unat al - 1" using pos by (simp add: unat_minus_one unat_gt_0)
  have cap: "lim \<le> 2 ^ 64" "unat (used a) \<le> unat (capacity a)" "cur \<le> lim"
    using wf by (auto simp: arena_wf_def cur_def lim_def word_le_nat_alt)
  have avail: "unat (capacity a - used a) = lim - cur"
    using wf by (simp add: arena_wf_def unat_sub_fits cur_def lim_def)
  have lhs: "?lhs \<longleftrightarrow> unat ?padding + unat n \<le> lim - cur \<and> p = ?aligned \<and>
      a' = a\<lparr>used := used a + (?padding + n)\<rparr>"
  proof -
    have "\<not> ?padding + n > capacity a - used a \<longleftrightarrow> unat ?padding + unat n \<le> lim - cur"
      if "unat ?padding + unat n < 2 ^ 64"
      using unat_add_fits [of ?padding n] that by (simp add: word_less_nat_alt avail not_less)
    moreover have "lim - cur < 2 ^ 64" using avail unat_lt64 [of "capacity a - used a"] by simp
    ultimately show ?thesis
      using True by (auto simp: arena_allocate_aligned_def is_power_of_two_iff Let_def
          checked_add_size_def)
  qed
  show ?thesis
  proof (cases "cur + (unat al - 1) < 2 ^ 64")
    case fits: True
    then have cur: "unat ?current = cur" by (simp add: cur_def unat_add_fits)
    then have "unat (?current + (al - 1)) = cur + (unat al - 1)"
      using fits by (simp add: unat_add_fits al1)
    then have aligned: "unat ?aligned = align_up_nat cur (unat al)"
      by (simp add: unat_align_down [OF p2] align_up_nat_def)
    have "cur \<le> unat ?aligned" unfolding aligned by (rule align_up_nat_bounds [OF pos])
    then have padding: "unat ?padding = unat ?aligned - cur" using cur by (simp add: unat_sub_fits word_le_nat_alt)
    have "unat ?padding + unat n \<le> lim - cur \<longleftrightarrow> unat ?aligned + unat n \<le> lim"
      using \<open>cur \<le> unat ?aligned\<close> cap(3) n unfolding padding by linarith
    moreover have "used a + (?padding + n) = ?aligned + n - base a" by simp
    ultimately show ?thesis
      using True aligned unat_inj [of p ?aligned] unfolding lhs by auto
  next
    case wraps: False
    have "2 ^ 64 \<le> align_up_nat cur (unat al)"
    proof -
      from p2 obtain k where k: "k < 64" "unat al = 2 ^ k" unfolding pow2_iff by blast
      then have "(2 :: nat) ^ 64 = 2 ^ (64 - k) * unat al" by (simp flip: power_add)
      then obtain q where q: "(2 :: nat) ^ 64 = q * unat al" by blast
      have "q * unat al div unat al \<le> (cur + (unat al - 1)) div unat al"
        using wraps unfolding q by (intro div_le_mono) simp
      then show ?thesis using pos unfolding q align_up_nat_def by simp
    qed
    moreover have "unat p < 2 ^ 64" by simp
    ultimately have no: "\<not> ?rhs" by linarith
    have "unat ?aligned = 0"
    proof -
      have "unat (?current + (al - 1)) = (cur + (unat al - 1)) mod 2 ^ 64"
        by (simp add: unat_word_ariths al1 cur_def mod_simps)
      also have "\<dots> = cur + (unat al - 1) - 2 ^ 64"
      proof -
        have "cur + (unat al - 1) - 2 ^ 64 \<le> unat al" using cap by linarith
        then have "cur + (unat al - 1) - 2 ^ 64 < 2 ^ 64" by (rule le_less_trans) simp
        then show ?thesis using wraps by (simp only: le_mod_geq not_less mod_less)
      qed
      finally have "unat (?current + (al - 1)) < unat al" using cap pos by linarith
      then show ?thesis by (simp add: unat_align_down [OF p2])
    qed
    then have "?padding = - ?current" by (simp add: unat_eq_0)
    have "lim - cur \<le> unat ?padding"
    proof (cases "cur = 2 ^ 64")
      case False
      then have cur: "unat ?current = cur" using cap unat_add_fits [of "base a" "used a"]
        by (simp add: cur_def)
      moreover have "0 < cur" using wraps unat_lt64 [of "al - 1"] unfolding al1 by (cases cur) simp_all
      ultimately show ?thesis
        unfolding \<open>?padding = - ?current\<close> using cap by (subst unat_neg) (auto simp: unat_eq_0)
    qed (use cap in simp)
    then have "\<not> ?lhs" using n unfolding lhs by linarith
    with no show ?thesis by blast
  qed
qed

lemma arena_allocate_aligned_Some:
  assumes wf: "arena_wf a" and al: "arena_allocate_aligned a n align = Some (p, a')"
  shows "arena_wf a'" "base a' = base a" "capacity a' = capacity a" "n \<noteq> 0"
    "span p n \<subseteq> arena_free a" "arena_free a' \<subseteq> arena_free a - span p n" "unat align dvd unat p"
    "unat (base a) + unat (used a') = unat p + unat n"
proof -
  from al have p2: "pow2 align" and n: "n \<noteq> 0" and p: "unat p = align_up_nat (unat (base a) + unat (used a)) (unat align)"
    and fits: "unat p + unat n \<le> unat (base a) + unat (capacity a)" and a': "a' = a\<lparr>used := p + n - base a\<rparr>"
    by (simp_all add: arena_allocate_aligned_exact [OF wf])
  note up = align_up_nat_bounds [OF pow2_pos [OF p2], of "unat (base a) + unat (used a)", folded p]
  have used: "unat (used a') = unat p + unat n - unat (base a)"
  proof -
    have "used a' = (p - base a) + n" using a' by simp
    moreover have "unat (p - base a) = unat p - unat (base a)"
      using up(1) by (simp add: unat_sub_fits word_le_nat_alt)
    moreover have "unat p - unat (base a) + unat n \<le> unat (capacity a)" using fits up(1) by linarith
    ultimately show ?thesis using up(1) unat_add_below [of "p - base a" n "capacity a"] by simp
  qed
  then show end': "unat (base a) + unat (used a') = unat p + unat n" using up(1) by linarith
  show b: "base a' = base a" "capacity a' = capacity a" by (simp_all add: a')
  show "arena_wf a'" using wf fits end' b by (auto simp: arena_wf_def word_le_nat_alt)
  show "n \<noteq> 0" by (rule n)
  show "span p n \<subseteq> arena_free a" using up(1) fits by (auto simp: span_def arena_free_def)
  show "arena_free a' \<subseteq> arena_free a - span p n" using end' b up(1) by (auto simp: span_def arena_free_def)
  show "unat align dvd unat p" using up(3) .
qed

interpretation arena: allocator arena_allocate_aligned arena_wf arena_free
proof
  fix a n align p a'
  assume *: "arena_wf a" "arena_allocate_aligned a n align = Some (p, a')"
  show "arena_wf a'" "unat align dvd unat p" by (rule arena_allocate_aligned_Some [OF *])+
  show "n \<noteq> 0 \<and> span p n \<subseteq> arena_free a \<and> arena_free a' \<subseteq> arena_free a - span p n"
    using arena_allocate_aligned_Some [OF *] by blast
next
  fix a x
  assume "arena_wf a" "x \<in> arena_free a"
  then show "x < 2 ^ 64" by (auto simp: arena_wf_def arena_free_def)
qed

text \<open>Winding back to a mark undoes exactly the allocations since.\<close>

lemma arena_release_mark:
  assumes "arena_wf a" "allocate_all arena_allocate_aligned a reqs = Some (ps, a')"
  shows "arena_release a' (arena_mark a) = a"
proof -
  have "base a' = base a \<and> capacity a' = capacity a \<and> used a \<le> used a'"
    using assms
  proof (induction reqs arbitrary: a ps)
    case (Cons r reqs)
    obtain n align where r: "r = (n, align)" by (cases r)
    from Cons.prems(2) obtain p a1 ps' where al: "arena_allocate_aligned a n align = Some (p, a1)"
      and rest: "allocate_all arena_allocate_aligned a1 reqs = Some (ps', a')"
      by (auto simp: r opt_bind)
    note one = arena_allocate_aligned_Some [OF Cons.prems(1) al]
    have "used a \<le> used a1"
      using one(4,5,8) by (auto simp: span_def arena_free_def word_le_nat_alt unat_gt_0 subset_iff)
    with Cons.IH [OF one(1) rest] one(2,3) show ?case by (auto intro: order_trans)
  qed simp
  then show ?thesis by (simp add: arena_release_def arena_mark_def)
qed

text \<open>
  C16. The arena answers an allocation with the lowest address at the alignment asked for behind
  everything allocated so far, and refuses exactly when the block ending there would not fit: the
  machine arithmetic never wraps it back into memory it does not own, even with an arena that ends
  at the top of the address space.
\<close>

theorem arena_allocates_exactly:
  assumes "unat (base a) + unat (capacity a) \<le> 2 ^ 64" "used a \<le> capacity a"
  shows "(arena_allocate_aligned a n al = Some (p, a') \<longleftrightarrow>
    (\<exists>k. unat al = 2 ^ k) \<and> n \<noteq> 0 \<and>
    unat p = (LEAST x. unat (base a) + unat (used a) \<le> x \<and> unat al dvd x) \<and>
    unat p + unat n \<le> unat (base a) + unat (capacity a) \<and>
    a' = a\<lparr>used := p + n - base a\<rparr>)"
proof -
  have wf: "arena_wf a" using assms by (simp add: arena_wf_def)
  have "(LEAST x. unat (base a) + unat (used a) \<le> x \<and> unat al dvd x) =
      align_up_nat (unat (base a) + unat (used a)) (unat al)" if "pow2 al"
    using align_up_nat_bounds [OF pow2_pos [OF that]] align_up_nat_least [OF pow2_pos [OF that]]
    by (intro Least_equality) auto
  then show ?thesis unfolding arena_allocate_aligned_exact [OF wf] by (auto simp: pow2_exp)
qed

lemma arena_allocates_exactly_witness:
  "arena_allocate_aligned \<lparr>base = 0x1004, capacity = 64, used = 4\<rparr> 16 16 =
     Some (0x1010, \<lparr>base = 0x1004, capacity = 64, used = 28\<rparr>)"
proof -
  have "(LEAST x :: nat. 0x1008 \<le> x \<and> 16 dvd x) = 0x1010"
  proof (rule Least_equality)
    fix y :: nat
    assume "0x1008 \<le> y \<and> 16 dvd y"
    then show "0x1010 \<le> y" by (auto elim!: dvdE)
  qed simp
  moreover have "\<exists>k. unat (16 :: usize) = 2 ^ k" by (rule exI [of _ 4]) simp
  ultimately show ?thesis
    using arena_allocates_exactly [of "\<lparr>base = 0x1004, capacity = 64, used = 4\<rparr>" 16 16 "0x1010"
        "\<lparr>base = 0x1004, capacity = 64, used = 28\<rparr>"]
    by simp
qed

text \<open>
  However the arena is used, the blocks it hands out are pairwise disjoint, lie inside the memory
  it was given, have the sizes and alignments asked for, and releasing a mark returns the arena to
  the state the mark was taken in.
\<close>

theorem arena_blocks_disjoint:
  assumes "arena_wf a" "allocate_all arena_allocate_aligned a reqs = Some (blocks, a')"
  shows "sorted_wrt (\<lambda>b c. span (fst b) (snd b) \<inter> span (fst c) (snd c) = {}) blocks \<and>
    (\<forall>b \<in> set blocks. span (fst b) (snd b) \<subseteq> arena_free a - arena_free a') \<and>
    list_all2 (\<lambda>r b. snd b = fst r \<and> unat (snd r) dvd unat (fst b)) reqs blocks \<and>
    arena_wf a' \<and> arena_release a' (arena_mark a) = a"
  using arena.allocations [OF assms] arena_release_mark [OF assms] by blast

lemma arena_blocks_disjoint_witness:
  "\<exists>blocks a'. allocate_all arena_allocate_aligned (arena_init 0x1000 256) [(24, 16), (100, 64)] = Some (blocks, a') \<and>
     sorted_wrt (\<lambda>b c. span (fst b) (snd b) \<inter> span (fst c) (snd c) = {}) blocks \<and>
     arena_release a' (arena_mark (arena_init 0x1000 256)) = arena_init 0x1000 256"
proof -
  have wf: "arena_wf (arena_init 0x1000 256)" by (simp add: arena_init_wf)
  have run: "allocate_all arena_allocate_aligned (arena_init 0x1000 256) [(24, 16), (100, 64)] =
    Some ([(0x1000, 24), (0x1040, 100)], \<lparr>base = 0x1000, capacity = 256, used = 164\<rparr>)"
    by (simp add: arena_init_def arena_allocate_aligned_def is_power_of_two_def checked_add_size_def)
  show ?thesis using arena_blocks_disjoint [OF wf run] run by blast
qed

end
