(* ===== verification/Memory_Map.thy ===== *)
theory Memory_Map
  imports Checked "HOL-Library.Multiset"
begin

text \<open>
  \<open>src/memory/map.c\<close>: physical memory as a list of regions, and the pass that turns what the firmware
  reported into a sorted, disjoint and conservative map. The array of regions and its \<open>count\<close> are one
  list. The reference is the claim the regions make about each byte.
\<close>

abbreviation (input) MEMORY_MAP_MAX_REGIONS :: nat where "MEMORY_MAP_MAX_REGIONS \<equiv> 128"

datatype memory_kind =
    MEMORY_KIND_USABLE
  | MEMORY_KIND_BOOTLOADER_RECLAIMABLE
  | MEMORY_KIND_ACPI_RECLAIMABLE
  | MEMORY_KIND_ACPI_NVS
  | MEMORY_KIND_FRAMEBUFFER
  | MEMORY_KIND_KERNEL
  | MEMORY_KIND_RESERVED
  | MEMORY_KIND_BAD

text \<open>The numbers of the enumeration, which the code compares.\<close>

fun kind_number :: "memory_kind \<Rightarrow> u32" where
  "kind_number MEMORY_KIND_USABLE = 0"
| "kind_number MEMORY_KIND_BOOTLOADER_RECLAIMABLE = 1"
| "kind_number MEMORY_KIND_ACPI_RECLAIMABLE = 2"
| "kind_number MEMORY_KIND_ACPI_NVS = 3"
| "kind_number MEMORY_KIND_FRAMEBUFFER = 4"
| "kind_number MEMORY_KIND_KERNEL = 5"
| "kind_number MEMORY_KIND_RESERVED = 6"
| "kind_number MEMORY_KIND_BAD = 7"

lemma kind_number_inj: "kind_number k = kind_number l \<Longrightarrow> k = l"
  by (cases k; cases l) simp_all

instantiation memory_kind :: linorder
begin

definition less_eq_memory_kind :: "memory_kind \<Rightarrow> memory_kind \<Rightarrow> bool" where
  "less_eq_memory_kind k l \<longleftrightarrow> kind_number k \<le> kind_number l"

definition less_memory_kind :: "memory_kind \<Rightarrow> memory_kind \<Rightarrow> bool" where
  "less_memory_kind k l \<longleftrightarrow> kind_number k < kind_number l"

instance
  by standard (auto simp: less_eq_memory_kind_def less_memory_kind_def intro: kind_number_inj)

end

record memory_region =
  region_base :: u64
  region_length :: u64
  region_kind :: memory_kind

record memory_map =
  regions :: "memory_region list"
  truncated :: bool

definition region_end :: "memory_region \<Rightarrow> u64" where
  "region_end r = region_base r + region_length r"

definition memory_map_clear :: memory_map where
  "memory_map_clear = \<lparr>regions = [], truncated = False\<rparr>"

text \<open>The result is the answer of the function beside the map it leaves.\<close>

definition memory_map_add :: "memory_map \<Rightarrow> u64 \<Rightarrow> u64 \<Rightarrow> memory_kind \<Rightarrow> bool \<times> memory_map" where
  "memory_map_add m b len kind =
     (if len = 0 then (False, m)
      else if checked_add_u64 b len = None then (False, m)
      else if length (regions m) = MEMORY_MAP_MAX_REGIONS then (False, m\<lparr>truncated := True\<rparr>)
      else (True, m\<lparr>regions := regions m @
              [\<lparr>region_base = b, region_length = len, region_kind = kind\<rparr>]\<rparr>))"

text \<open>
  The inner loop of the insertion sort, from \<open>position\<close> downwards, and the loops of
  \<open>collect_boundaries\<close>.
\<close>

fun boundary_shift :: "u64 list \<Rightarrow> u64 \<Rightarrow> nat \<Rightarrow> u64 list" where
  "boundary_shift out value 0 = out[0 := value]"
| "boundary_shift out value (Suc position) =
     (if out ! position > value
      then boundary_shift (out[Suc position := out ! position]) value position
      else out[Suc position := value])"

definition boundary_sort :: "u64 list \<Rightarrow> u64 list" where
  "boundary_sort out = fold (\<lambda>index out. boundary_shift out (out ! index) index) [1..<length out] out"

definition boundary_unique :: "u64 list \<Rightarrow> u64 list" where
  "boundary_unique out =
     fold (\<lambda>b kept. if kept = [] \<or> last kept \<noteq> b then kept @ [b] else kept) out []"

definition collect_boundaries :: "memory_region list \<Rightarrow> u64 list" where
  "collect_boundaries rs =
     boundary_unique (boundary_sort (concat (map (\<lambda>r. [region_base r, region_end r]) rs)))"

fun interval_kind_from :: "memory_region list \<Rightarrow> u64 \<Rightarrow> u64 \<Rightarrow> memory_kind option \<Rightarrow> memory_kind option"
  where
  "interval_kind_from [] start end' out = out"
| "interval_kind_from (r # rs) start end' out =
     interval_kind_from rs start end'
       (if region_base r > start \<or> region_end r < end' then out
        else case out of
            None \<Rightarrow> Some (region_kind r)
          | Some k \<Rightarrow> if region_kind r > k then Some (region_kind r) else out)"

definition interval_kind :: "memory_region list \<Rightarrow> u64 \<Rightarrow> u64 \<Rightarrow> memory_kind option" where
  "interval_kind rs start end' = interval_kind_from rs start end' None"

text \<open>The sweep over consecutive boundaries; the result is the new regions and the truncation flag.\<close>

fun sweep :: "memory_region list \<Rightarrow> u64 list \<Rightarrow> memory_region list \<Rightarrow> bool \<Rightarrow> memory_region list \<times> bool"
  where
  "sweep rs (start # end' # bs) result trunc =
     (case interval_kind rs start end' of
        None \<Rightarrow> sweep rs (end' # bs) result trunc
      | Some kind \<Rightarrow>
          if length result > 0 \<and> region_kind (last result) = kind \<and> region_end (last result) = start
          then sweep rs (end' # bs)
                 (butlast result @
                  [(last result)\<lparr>region_length := region_length (last result) + (end' - start)\<rparr>]) trunc
          else if length result = MEMORY_MAP_MAX_REGIONS then (result, True)
          else sweep rs (end' # bs)
                 (result @ [\<lparr>region_base = start, region_length = end' - start, region_kind = kind\<rparr>])
                 trunc)"
| "sweep rs [b] result trunc = (result, trunc)"
| "sweep rs [] result trunc = (result, trunc)"

definition memory_map_finalize :: "memory_map \<Rightarrow> memory_map" where
  "memory_map_finalize m =
     (if regions m = [] then m
      else let (result, trunc) = sweep (regions m) (collect_boundaries (regions m)) [] (truncated m)
           in m\<lparr>regions := result, truncated := trunc\<rparr>)"

definition memory_map_total :: "memory_map \<Rightarrow> memory_kind \<Rightarrow> u64" where
  "memory_map_total m kind =
     fold (\<lambda>r t. if region_kind r = kind then t + region_length r else t) (regions m) 0"

fun find_region :: "memory_region list \<Rightarrow> u64 \<Rightarrow> memory_region option" where
  "find_region [] address = None"
| "find_region (r # rs) address =
     (if address \<ge> region_base r \<and> address < region_end r then Some r else find_region rs address)"

definition memory_map_find :: "memory_map \<Rightarrow> u64 \<Rightarrow> memory_region option" where
  "memory_map_find m address = find_region (regions m) address"

text \<open>What one turn of the loop of \<open>memory_map_find_free\<close> makes of a region: \<open>None\<close> is \<open>continue\<close>.\<close>

definition free_in_region :: "memory_region \<Rightarrow> u64 \<Rightarrow> u64 \<Rightarrow> u64 \<Rightarrow> u64 option" where
  "free_in_region r sz alignment minimum =
     do { ensure (region_kind r = MEMORY_KIND_USABLE);
          start \<leftarrow> checked_align_up_u64
             (if region_base r > minimum then region_base r else minimum) alignment;
          ensure (\<not> start < region_base r);
          finish \<leftarrow> checked_add_u64 start sz;
          ensure (\<not> finish > region_end r);
          Some start }"

fun first_free :: "memory_region list \<Rightarrow> u64 \<Rightarrow> u64 \<Rightarrow> u64 \<Rightarrow> u64 option" where
  "first_free [] sz alignment minimum = None"
| "first_free (r # rs) sz alignment minimum =
     (case free_in_region r sz alignment minimum of
        None \<Rightarrow> first_free rs sz alignment minimum
      | Some start \<Rightarrow> Some start)"

definition memory_map_find_free :: "memory_map \<Rightarrow> u64 \<Rightarrow> u64 \<Rightarrow> u64 \<Rightarrow> u64 option" where
  "memory_map_find_free m sz alignment minimum =
     (if sz = 0 then None
      else if alignment = 0 \<or> alignment AND (alignment - 1) \<noteq> 0 then None
      else first_free (regions m) sz alignment minimum)"

definition high_in_region :: "memory_region \<Rightarrow> u64 \<Rightarrow> u64 \<Rightarrow> u64 \<Rightarrow> u64 option" where
  "high_in_region r sz alignment limit =
     do { ensure (region_kind r = MEMORY_KIND_USABLE);
          let end' = (if region_end r > limit then limit else region_end r);
          ensure (\<not> end' < sz);
          let start = (end' - sz) AND NOT (alignment - 1);
          ensure (\<not> start < region_base r);
          ensure (\<not> start + sz > end');
          Some start }"

fun highest_free :: "memory_region list \<Rightarrow> u64 \<Rightarrow> u64 \<Rightarrow> u64 \<Rightarrow> u64 option \<Rightarrow> u64 option" where
  "highest_free [] sz alignment limit out = out"
| "highest_free (r # rs) sz alignment limit out =
     highest_free rs sz alignment limit
       (case high_in_region r sz alignment limit of
          None \<Rightarrow> out
        | Some start \<Rightarrow> (case out of
              None \<Rightarrow> Some start
            | Some found \<Rightarrow> if start > found then Some start else out))"

definition memory_map_find_free_high :: "memory_map \<Rightarrow> u64 \<Rightarrow> u64 \<Rightarrow> u64 \<Rightarrow> u64 option" where
  "memory_map_find_free_high m sz alignment limit =
     (if sz = 0 then None
      else if alignment = 0 \<or> alignment AND (alignment - 1) \<noteq> 0 then None
      else highest_free (regions m) sz alignment limit None)"

fun memory_kind_name :: "memory_kind \<Rightarrow> string" where
  "memory_kind_name MEMORY_KIND_USABLE = ''usable''"
| "memory_kind_name MEMORY_KIND_BOOTLOADER_RECLAIMABLE = ''bootloader''"
| "memory_kind_name MEMORY_KIND_ACPI_RECLAIMABLE = ''acpi''"
| "memory_kind_name MEMORY_KIND_ACPI_NVS = ''acpi-nvs''"
| "memory_kind_name MEMORY_KIND_FRAMEBUFFER = ''framebuffer''"
| "memory_kind_name MEMORY_KIND_KERNEL = ''kernel''"
| "memory_kind_name MEMORY_KIND_RESERVED = ''reserved''"
| "memory_kind_name MEMORY_KIND_BAD = ''bad''"

subsection \<open>The claim a list of regions makes about a byte\<close>

text \<open>
  A byte belongs to the most restrictive kind of the regions that contain it. This is the meaning
  of a map; the regions may be in any order and overlap in any way.
\<close>

definition region_span :: "memory_region \<Rightarrow> nat set" where
  "region_span r = {unat (region_base r)..<unat (region_base r) + unat (region_length r)}"

fun claim :: "memory_region list \<Rightarrow> nat \<Rightarrow> memory_kind option" where
  "claim [] a = None"
| "claim (r # rs) a =
     (if a \<in> region_span r
      then (case claim rs a of None \<Rightarrow> Some (region_kind r) | Some k \<Rightarrow> Some (max (region_kind r) k))
      else claim rs a)"

definition region_wf :: "memory_region \<Rightarrow> bool" where
  "region_wf r \<longleftrightarrow> region_length r \<noteq> 0 \<and> unat (region_base r) + unat (region_length r) < 2 ^ 64"

text \<open>Ascending, disjoint, and merged: what touches is of different kinds.\<close>

definition region_before :: "memory_region \<Rightarrow> memory_region \<Rightarrow> bool" where
  "region_before r s \<longleftrightarrow> region_end r < region_base s \<or>
     region_end r = region_base s \<and> region_kind r \<noteq> region_kind s"

definition canonical :: "memory_region list \<Rightarrow> bool" where
  "canonical rs \<longleftrightarrow> (\<forall>r \<in> set rs. region_wf r) \<and> sorted_wrt region_before rs"

lemma claim_None_iff: "claim rs a = None \<longleftrightarrow> (\<forall>r \<in> set rs. a \<notin> region_span r)"
  by (induction rs) (auto split: option.splits)

lemma claim_Some_iff:
  "claim rs a = Some k \<longleftrightarrow>
     (\<exists>r \<in> set rs. a \<in> region_span r \<and> region_kind r = k) \<and>
     (\<forall>r \<in> set rs. a \<in> region_span r \<longrightarrow> region_kind r \<le> k)"
proof (induction rs arbitrary: k)
  case (Cons r rs)
  show ?case
  proof (cases "a \<in> region_span r")
    case in_r: True
    show ?thesis
    proof (cases "claim rs a")
      case None
      then show ?thesis using in_r claim_None_iff [of rs a] by auto
    next
      case (Some l)
      with Cons.IH [of l] in_r show ?thesis by (auto simp: max_def) (metis order.antisym)+
    qed
  qed (use Cons.IH in auto)
qed simp

lemma claim_cong_set:
  assumes eq: "set rs = set ss"
  shows "claim rs a = claim ss a"
proof (cases "claim ss a")
  case None
  then have "claim rs a = None" unfolding claim_None_iff eq .
  with None show ?thesis by simp
next
  case (Some k)
  then have "claim rs a = Some k" unfolding claim_Some_iff eq .
  with Some show ?thesis by simp
qed

lemma claim_append:
  "claim (xs @ ys) a =
     (case claim xs a of None \<Rightarrow> claim ys a
      | Some k \<Rightarrow> (case claim ys a of None \<Rightarrow> Some k | Some l \<Rightarrow> Some (max k l)))"
  by (induction xs) (auto split: option.splits simp: max.assoc)

lemma region_end_nat: "region_wf r \<Longrightarrow> unat (region_end r) = unat (region_base r) + unat (region_length r)"
  by (simp add: region_wf_def region_end_def unat_add_fits)

lemma in_region_span: "region_wf r \<Longrightarrow> a \<in> region_span r \<longleftrightarrow> unat (region_base r) \<le> a \<and> a < unat (region_end r)"
  by (auto simp: region_span_def region_end_nat)

lemma region_wf_less: "region_wf r \<Longrightarrow> unat (region_base r) < unat (region_end r)"
  by (auto simp: region_end_nat region_wf_def unat_gt_0)

subsection \<open>The boundaries\<close>

lemma boundary_shift_insert:
  "\<exists>us. boundary_shift (xs @ x # ys) v (length xs) = us @ ys \<and> mset us = mset (v # xs) \<and>
     (sorted xs \<longrightarrow> sorted us)"
proof (induction xs arbitrary: x ys rule: rev_induct)
  case Nil
  show ?case by (intro exI [of _ "[v]"]) simp
next
  case (snoc z zs)
  show ?case
  proof (cases "z > v")
    case True
    from snoc [of z "z # ys"] obtain us where us: "boundary_shift (zs @ z # z # ys) v (length zs) = us @ z # ys"
      "mset us = mset (v # zs)" "sorted zs \<longrightarrow> sorted us" by blast
    from us(2) have "set us = insert v (set zs)" by (metis list.simps(15) set_mset_mset)
    with us True show ?thesis
      by (intro exI [of _ "us @ [z]"]) (auto simp: nth_append list_update_append sorted_append)
  next
    case False
    then show ?thesis
      by (intro exI [of _ "zs @ [z, v]"]) (force simp: nth_append list_update_append sorted_append)
  qed
qed

lemma boundary_shift_sort_step:
  assumes "i < length out" "sorted (take i out)"
  shows "length (boundary_shift out (out ! i) i) = length out"
    "mset (boundary_shift out (out ! i) i) = mset out"
    "sorted (take (Suc i) (boundary_shift out (out ! i) i))"
proof -
  have out: "out = take i out @ out ! i # drop (Suc i) out" using assms(1) by (rule id_take_nth_drop)
  have len: "length (take i out) = i" using assms(1) by simp
  from boundary_shift_insert [of "take i out" "out ! i" "drop (Suc i) out" "out ! i"]
  obtain us where us: "boundary_shift out (out ! i) i = us @ drop (Suc i) out"
    "mset us = mset (out ! i # take i out)" "sorted us"
    using assms(2) unfolding len out [symmetric] by blast
  from us(2) have "length us = Suc i" using len by (metis length_Cons size_mset)
  with us show "sorted (take (Suc i) (boundary_shift out (out ! i) i))"
    "length (boundary_shift out (out ! i) i) = length out" using assms(1) by simp_all
  have "mset (boundary_shift out (out ! i) i) = mset (out ! i # take i out) + mset (drop (Suc i) out)"
    unfolding us(1) by (simp add: us(2))
  also have "\<dots> = mset (take i out @ out ! i # drop (Suc i) out)" by simp
  finally show "mset (boundary_shift out (out ! i) i) = mset out" using out by simp
qed

lemma boundary_sort_sorted: "sorted (boundary_sort out) \<and> mset (boundary_sort out) = mset out"
proof -
  have "length (fold (\<lambda>i out. boundary_shift out (out ! i) i) [1..<n] out) = length out \<and>
      mset (fold (\<lambda>i out. boundary_shift out (out ! i) i) [1..<n] out) = mset out \<and>
      sorted (take n (fold (\<lambda>i out. boundary_shift out (out ! i) i) [1..<n] out))"
    if "n \<le> length out" for n
    using that
  proof (induction n)
    case (Suc n)
    show ?case
    proof (cases "n = 0")
      case True
      with Suc.prems show ?thesis by (cases out) auto
    next
      case False
      define o' where "o' = fold (\<lambda>i out. boundary_shift out (out ! i) i) [1..<n] out"
      have IH: "length o' = length out" "mset o' = mset out" "sorted (take n o')"
        using Suc unfolding o'_def by auto
      have "fold (\<lambda>i out. boundary_shift out (out ! i) i) [1..<Suc n] out = boundary_shift o' (o' ! n) n"
        using False by (simp add: o'_def)
      with boundary_shift_sort_step [of n o'] IH Suc.prems show ?thesis by simp
    qed
  qed simp
  note final = this [OF order_refl, folded boundary_sort_def]
  then have "take (length out) (boundary_sort out) = boundary_sort out" by (intro take_all) linarith
  with final show ?thesis by (simp only: simp_thms)
qed

lemma boundary_unique_from:
  "sorted (kept @ xs) \<Longrightarrow> sorted_wrt (<) kept \<Longrightarrow>
   (let u = fold (\<lambda>b kept. if kept = [] \<or> last kept \<noteq> b then kept @ [b] else kept) xs kept
    in sorted_wrt (<) u \<and> set u = set kept \<union> set xs)"
proof (induction xs arbitrary: kept)
  case (Cons b xs)
  show ?case
  proof (cases "kept = [] \<or> last kept \<noteq> b")
    case True
    have "x < b" if "x \<in> set kept" for x
    proof -
      from Cons.prems(1) have "x \<le> b" using that by (auto simp: sorted_append)
      moreover have "x \<le> last kept"
        using Cons.prems(1) that by (cases kept rule: rev_cases) (auto simp: sorted_append)
      moreover have "last kept \<le> b" using Cons.prems(1) that by (cases kept rule: rev_cases) (auto simp: sorted_append)
      ultimately show ?thesis using True that by (auto simp: less_le)
    qed
    then have "sorted_wrt (<) (kept @ [b])" using Cons.prems(2) by (simp add: sorted_wrt_append)
    with Cons.IH [of "kept @ [b]"] Cons.prems(1) True show ?thesis by (simp add: Let_def Un_assoc)
  next
    case False
    then have "sorted (kept @ xs)" "b \<in> set kept" using Cons.prems(1) by (auto simp: sorted_append)
    with Cons.IH [of kept] Cons.prems(2) False show ?thesis by (auto simp: Let_def)
  qed
qed simp

lemma collect_boundaries_spec:
  "sorted_wrt (<) (collect_boundaries rs)"
  "set (collect_boundaries rs) = region_base ` set rs \<union> region_end ` set rs"
proof -
  let ?out = "concat (map (\<lambda>r. [region_base r, region_end r]) rs)"
  have "set (boundary_sort ?out) = set ?out"
    using boundary_sort_sorted [of ?out] by (intro mset_eq_setD) simp
  also have "\<dots> = region_base ` set rs \<union> region_end ` set rs" by (induction rs) auto
  finally show "sorted_wrt (<) (collect_boundaries rs)"
    "set (collect_boundaries rs) = region_base ` set rs \<union> region_end ` set rs"
    using boundary_unique_from [of "[]" "boundary_sort ?out"] boundary_sort_sorted [of ?out]
    unfolding collect_boundaries_def boundary_unique_def Let_def by simp_all
qed

subsection \<open>An elementary interval\<close>

lemma interval_kind_from_Some:
  "interval_kind_from rs s e out = Some k \<longleftrightarrow>
     (let ks = (case out of None \<Rightarrow> {} | Some l \<Rightarrow> {l}) \<union>
        region_kind ` {r \<in> set rs. region_base r \<le> s \<and> e \<le> region_end r}
      in k \<in> ks \<and> (\<forall>l \<in> ks. l \<le> k))"
proof (induction rs arbitrary: out)
  case Nil
  then show ?case by (auto split: option.splits)
next
  case (Cons r rs)
  show ?case
  proof (cases "region_base r \<le> s \<and> e \<le> region_end r")
    case True
    then show ?thesis
      using Cons.IH by (cases out) (auto simp: Let_def)
  next
    case False
    then show ?thesis using Cons.IH [of out] by (auto simp: Let_def not_le)
  qed
qed

lemma interval_kind_Some_iff:
  "interval_kind rs s e = Some k \<longleftrightarrow>
     (\<exists>r \<in> set rs. region_base r \<le> s \<and> e \<le> region_end r \<and> region_kind r = k) \<and>
     (\<forall>r \<in> set rs. region_base r \<le> s \<and> e \<le> region_end r \<longrightarrow> region_kind r \<le> k)"
  unfolding interval_kind_def interval_kind_from_Some Let_def by auto

text \<open>Between two consecutive boundaries the claim is constant, and it is the kind of the interval.\<close>

lemma interval_claim:
  assumes wf: "\<forall>r \<in> set rs. region_wf r"
    and bounds: "collect_boundaries rs = pre @ s # e # post"
    and a: "unat s \<le> a" "a < unat e"
  shows "claim rs a = interval_kind rs s e"
proof -
  have split: "b \<le> s \<or> e \<le> b" if "b \<in> set (collect_boundaries rs)" for b
    using that collect_boundaries_spec(1) [of rs] unfolding bounds
    by (auto simp: sorted_wrt_append less_imp_le)
  have in_iff: "a \<in> region_span r \<longleftrightarrow> region_base r \<le> s \<and> e \<le> region_end r" if "r \<in> set rs" for r
  proof -
    have "region_base r \<le> s \<or> e \<le> region_base r" "region_end r \<le> s \<or> e \<le> region_end r"
      using that split by (simp_all add: collect_boundaries_spec)
    then show ?thesis using a wf that by (auto simp: in_region_span word_le_nat_alt)
  qed
  show ?thesis
  proof (cases "interval_kind rs s e")
    case None
    have "claim rs a \<noteq> Some k" for k
      using None interval_kind_Some_iff [of rs s e k] in_iff unfolding claim_Some_iff by fastforce
    with None show ?thesis by (cases "claim rs a") auto
  next
    case (Some k)
    then have "claim rs a = Some k" using in_iff unfolding claim_Some_iff interval_kind_Some_iff by blast
    with Some show ?thesis by simp
  qed
qed

subsection \<open>The sweep\<close>

text \<open>What the sweep has built when it stands at the boundary \<open>b\<close>.\<close>

definition swept :: "memory_region list \<Rightarrow> memory_region list \<Rightarrow> u64 \<Rightarrow> bool" where
  "swept rs result b \<longleftrightarrow> canonical result \<and>
     (\<forall>r \<in> set result. region_end r \<le> b) \<and> (\<forall>a < unat b. claim result a = claim rs a)"

lemma canonical_append:
  "canonical (xs @ [y]) \<longleftrightarrow> canonical xs \<and> region_wf y \<and> (\<forall>x \<in> set xs. region_before x y)"
  by (auto simp: canonical_def sorted_wrt_append)

lemma region_before_le: "region_before x y \<Longrightarrow> region_end x \<le> region_base y"
  by (auto simp: region_before_def)

lemma claim_beyond:
  assumes "canonical xs" "\<forall>r \<in> set xs. region_end r \<le> b" "unat b \<le> a"
  shows "claim xs a = None"
  using assms by (fastforce simp: claim_None_iff canonical_def in_region_span word_le_nat_alt)

lemma elementary_region:
  fixes s e :: u64 and k :: memory_kind
  assumes "s < e"
  defines "r \<equiv> \<lparr>region_base = s, region_length = e - s, region_kind = k\<rparr>"
  shows "region_wf r" "region_end r = e" "a \<in> region_span r \<longleftrightarrow> unat s \<le> a \<and> a < unat e"
proof -
  have len: "unat (e - s) = unat e - unat s" using assms by (simp add: unat_sub_fits)
  then show "region_wf r" "region_end r = e" "a \<in> region_span r \<longleftrightarrow> unat s \<le> a \<and> a < unat e"
    using assms(1) by (auto simp: region_wf_def region_end_def r_def region_span_def word_less_nat_alt)
qed

lemma swept_skip:
  assumes "swept rs result s" "s < e" "\<forall>a. unat s \<le> a \<and> a < unat e \<longrightarrow> claim rs a = None"
  shows "swept rs result e"
proof -
  have can: "canonical result" "\<forall>r \<in> set result. region_end r \<le> s" using assms(1) by (simp_all add: swept_def)
  have "claim result a = claim rs a" if "a < unat e" for a
    using that assms claim_beyond [OF can, of a] by (cases "a < unat s") (auto simp: swept_def)
  with assms(1,2) show ?thesis by (auto simp: swept_def intro: order_trans less_imp_le)
qed

lemma swept_extend:
  assumes sw: "swept rs result s" and se: "s < e"
    and claims: "\<forall>a. unat s \<le> a \<and> a < unat e \<longrightarrow> claim rs a = Some k"
    and last: "result \<noteq> []" "region_kind (last result) = k" "region_end (last result) = s"
  shows "swept rs (butlast result @
    [(last result)\<lparr>region_length := region_length (last result) + (e - s)\<rparr>]) e"
proof -
  define bl l where "bl = butlast result" and "l = last result"
  define l' where "l' = l\<lparr>region_length := region_length l + (e - s)\<rparr>"
  have res: "result = bl @ [l]" using last(1) by (simp add: bl_def l_def)
  have can: "canonical bl" "region_wf l" "\<forall>x \<in> set bl. region_before x l"
    using sw by (simp_all add: swept_def res canonical_append)
  have l: "region_kind l = k" "region_base l + region_length l = s" using last by (simp_all add: l_def region_end_def)
  have end': "region_end l' = e" "region_base l' = region_base l" "region_kind l' = k"
    using l by (simp_all add: l'_def region_end_def algebra_simps)
  have base: "region_base l < s" using region_wf_less [OF can(2)] l(2) by (simp add: word_less_nat_alt region_end_def)
  have "region_length l' = e - region_base l" using l(2) by (simp add: l'_def algebra_simps)
  then have "l' = \<lparr>region_base = region_base l, region_length = e - region_base l, region_kind = k\<rparr>"
    using end' by (cases l') simp
  with elementary_region [where s = "region_base l" and e = e and k = k] base se
  have wf': "region_wf l'" and span': "\<And>a. a \<in> region_span l' \<longleftrightarrow> unat (region_base l) \<le> a \<and> a < unat e"
    by auto
  have ends: "\<forall>x \<in> set bl. region_end x \<le> region_base l" using can(3) region_before_le by blast
  have "claim (bl @ [l']) a = claim rs a" if "a < unat e" for a
  proof (cases "a < unat s")
    case True
    then have "a \<in> region_span l' \<longleftrightarrow> a \<in> region_span l"
      using that in_region_span [OF can(2)] l(2) span' by (auto simp: region_end_def)
    then have "claim (bl @ [l']) a = claim (bl @ [l]) a"
      using end' l by (auto simp: claim_append split: option.split)
    with True sw show ?thesis by (simp add: swept_def res)
  next
    case False
    then have "claim bl a = None"
      using base by (intro claim_beyond [OF can(1) ends]) (simp add: word_less_nat_alt)
    with False that span' base claims end' show ?thesis
      by (simp add: claim_append word_less_nat_alt)
  qed
  moreover have "canonical (bl @ [l'])"
    using can wf' end' l by (auto simp: canonical_append region_before_def)
  ultimately show ?thesis
    using sw se end' ends base by (auto simp: swept_def res l'_def)
qed

lemma swept_append:
  assumes sw: "swept rs result s" and se: "s < e"
    and claims: "\<forall>a. unat s \<le> a \<and> a < unat e \<longrightarrow> claim rs a = Some k"
    and last: "\<not> (length result > 0 \<and> region_kind (last result) = k \<and> region_end (last result) = s)"
  shows "swept rs (result @ [\<lparr>region_base = s, region_length = e - s, region_kind = k\<rparr>]) e"
proof -
  define r where "r = \<lparr>region_base = s, region_length = e - s, region_kind = k\<rparr>"
  note el = elementary_region [OF se, where k = k, folded r_def]
  have rk: "region_kind r = k" by (simp add: r_def)
  have can: "canonical result" "\<forall>x \<in> set result. region_end x \<le> s" using sw by (simp_all add: swept_def)
  have "region_before x r" if "x \<in> set result" for x
  proof (cases "x = last result")
    case True
    with that last can(2) show ?thesis by (auto simp: region_before_def r_def)
  next
    case False
    define l where "l = last result"
    have "result \<noteq> []" using that by auto
    then have res: "result = butlast result @ [l]" by (simp add: l_def)
    with False that have "x \<in> set (butlast result)" unfolding l_def by (metis in_set_conv_decomp append_butlast_last_id empty_iff empty_set rotate1.simps(2) set_ConsD set_rotate1)
    with can(1) have "region_before x l" "region_wf l" using canonical_append [of "butlast result" l] res by auto
    then have "region_end x < region_end l"
      using region_before_le [of x l] region_wf_less [of l] by (simp add: word_le_nat_alt word_less_nat_alt)
    also have "region_end l \<le> s" using can(2) \<open>result \<noteq> []\<close> by (simp add: l_def)
    finally show ?thesis by (simp add: region_before_def r_def)
  qed
  then have "canonical (result @ [r])" using can(1) el(1) by (simp add: canonical_append)
  moreover have "claim (result @ [r]) a = claim rs a" if "a < unat e" for a
    using that claims sw claim_beyond [OF can, of a]
    by (cases "a < unat s") (auto simp: claim_append el(3) swept_def rk split: option.split)
  ultimately show ?thesis
    using sw se el(2) can(2) unfolding r_def by (auto simp: swept_def intro: order_trans less_imp_le)
qed

text \<open>The same sweep with room for any number of regions: what the table of 128 is filled from.\<close>

fun sweep_all :: "memory_region list \<Rightarrow> u64 list \<Rightarrow> memory_region list \<Rightarrow> memory_region list" where
  "sweep_all rs (s # e # bs) result =
     (case interval_kind rs s e of
        None \<Rightarrow> sweep_all rs (e # bs) result
      | Some k \<Rightarrow>
          if length result > 0 \<and> region_kind (last result) = k \<and> region_end (last result) = s
          then sweep_all rs (e # bs)
                 (butlast result @ [(last result)\<lparr>region_length := region_length (last result) + (e - s)\<rparr>])
          else sweep_all rs (e # bs) (result @ [\<lparr>region_base = s, region_length = e - s, region_kind = k\<rparr>]))"
| "sweep_all rs [b] result = result"
| "sweep_all rs [] result = result"

lemma sweep_all_length:
  "length result \<le> length (sweep_all rs bs result) \<and> length (sweep_all rs bs result) \<le> length result + (length bs - 1)"
proof (induction rs bs result rule: sweep_all.induct)
  case (1 rs s e bs result)
  have "length (butlast result @ [x]) = length result" if "length result > 0" for x using that by simp
  with 1 show ?case by (fastforce split: option.split)
qed simp_all

lemma sweep_all_fixed:
  "n < length result \<Longrightarrow> take n (sweep_all rs bs result) = take n result"
proof (induction rs bs result rule: sweep_all.induct)
  case (1 rs s e bs result)
  have "take n (butlast result @ [x]) = take n result" "n < length (butlast result @ [x])" for x
    using "1.prems" by (simp_all add: take_butlast)
  moreover have "take n (result @ [x]) = take n result" "n < length (result @ [x])" for x
    using "1.prems" by simp_all
  ultimately show ?case using "1.IH" "1.prems" by (simp del: take_append split: option.split)
qed simp_all

lemma sweep_take:
  assumes "length result \<le> MEMORY_MAP_MAX_REGIONS"
  shows "sweep rs bs result trunc =
    (take 128 (sweep_all rs bs result), trunc \<or> 128 < length (sweep_all rs bs result))"
  using assms
proof (induction rs bs result trunc rule: sweep.induct)
  case (1 rs s e bs result trunc)
  show ?case
  proof (cases "interval_kind rs s e")
    case None
    with 1 show ?thesis by simp
  next
    case (Some k)
    let ?merge = "length result > 0 \<and> region_kind (last result) = k \<and> region_end (last result) = s"
    let ?more = "result @ [\<lparr>region_base = s, region_length = e - s, region_kind = k\<rparr>]"
    consider "?merge" | "\<not> ?merge" "length result = 128" | "\<not> ?merge" "length result < 128"
      using "1.prems" by linarith
    then show ?thesis
    proof cases
      case 1
      then show ?thesis using "1.IH"(2) [OF Some] "1.prems" Some by auto
    next
      case 2
      have "128 < length (sweep_all rs (e # bs) ?more)"
        using sweep_all_length [of ?more rs "e # bs"] 2(2) by simp
      moreover have "take 128 (sweep_all rs (e # bs) ?more) = result"
        using sweep_all_fixed [of 128 ?more rs "e # bs"] 2(2) by simp
      ultimately show ?thesis using Some 2 by auto
    next
      case 3
      then show ?thesis using "1.IH"(3) [OF Some] Some by auto
    qed
  qed
qed simp_all

lemma sweep_all_swept:
  assumes "\<forall>r \<in> set rs. region_wf r" "collect_boundaries rs = pre @ bs" "bs \<noteq> []" "swept rs result (hd bs)"
  shows "swept rs (sweep_all rs bs result) (last bs)"
  using assms
proof (induction rs bs result arbitrary: pre rule: sweep_all.induct)
  case (1 rs s e bs result)
  note wf = "1.prems"(1) and bounds = "1.prems"(2)
  have se: "s < e"
    using collect_boundaries_spec(1) [of rs] unfolding bounds by (simp add: sorted_wrt_append)
  have sw: "swept rs result s" using "1.prems"(4) by simp
  have next_bounds: "collect_boundaries rs = (pre @ [s]) @ e # bs" using bounds by simp
  have claims: "\<forall>a. unat s \<le> a \<and> a < unat e \<longrightarrow> claim rs a = interval_kind rs s e"
    using interval_claim [OF wf bounds] by blast
  show ?case
  proof (cases "interval_kind rs s e")
    case None
    then have "swept rs result e" using swept_skip [OF sw se] claims by simp
    then show ?thesis using "1.IH"(1) [OF None wf next_bounds] None by simp
  next
    case (Some k)
    note claims = claims [unfolded Some]
    show ?thesis
    proof (cases "length result > 0 \<and> region_kind (last result) = k \<and> region_end (last result) = s")
      case True
      then have "swept rs (butlast result @ [(last result)\<lparr>region_length := region_length (last result) + (e - s)\<rparr>]) e"
        using swept_extend [OF sw se claims] by simp
      then show ?thesis using "1.IH"(2) [OF Some True wf next_bounds] Some True by simp
    next
      case False
      have "swept rs (result @ [\<lparr>region_base = s, region_length = e - s, region_kind = k\<rparr>]) e"
        by (rule swept_append [OF sw se claims False])
      moreover have "sweep_all rs (s # e # bs) result =
          sweep_all rs (e # bs) (result @ [\<lparr>region_base = s, region_length = e - s, region_kind = k\<rparr>])"
        by (simp only: sweep_all.simps Some option.case False if_False)
      ultimately show ?thesis using "1.IH"(3) [OF Some False wf next_bounds] by simp
    qed
  qed
qed auto

subsection \<open>Finalizing a map\<close>

definition map_wf :: "memory_map \<Rightarrow> bool" where
  "map_wf m \<longleftrightarrow> (\<forall>r \<in> set (regions m). region_wf r) \<and> length (regions m) \<le> MEMORY_MAP_MAX_REGIONS"

lemma memory_map_clear_wf: "map_wf memory_map_clear"
  by (simp add: map_wf_def memory_map_clear_def)

lemma memory_map_add_wf:
  assumes "map_wf m"
  shows "map_wf (snd (memory_map_add m b n k))"
proof -
  have "region_wf \<lparr>region_base = b, region_length = n, region_kind = k\<rparr>"
    if "n \<noteq> 0" "checked_add_u64 b n \<noteq> None"
    using that by (simp add: region_wf_def checked_add_u64_None not_le)
  with assms show ?thesis by (auto simp: memory_map_add_def map_wf_def)
qed

lemma claims_within_boundaries:
  assumes "\<forall>r \<in> set rs. region_wf r" "bs = collect_boundaries rs" "claim rs a \<noteq> None"
  shows "unat (hd bs) \<le> a" "a < unat (last bs)" "bs \<noteq> []"
proof -
  from assms(3) obtain r where r: "r \<in> set rs" "a \<in> region_span r" by (auto simp: claim_None_iff)
  then have b: "region_base r \<in> set bs" "region_end r \<in> set bs"
    using assms(2) by (auto simp: collect_boundaries_spec)
  then show "bs \<noteq> []" by auto
  have sorted: "sorted_wrt (<) bs" using assms(2) collect_boundaries_spec by simp
  have "hd bs \<le> x \<and> x \<le> last bs" if "x \<in> set bs" for x
    using sorted that by (induction bs) (auto intro: less_imp_le)
  with b r assms(1) show "unat (hd bs) \<le> a" "a < unat (last bs)"
    by (auto simp: in_region_span word_le_nat_alt intro: order_trans less_le_trans)
qed

lemma canonical_cut:
  assumes "canonical cs"
  shows "canonical (take n cs)" "\<exists>cut. \<forall>a. claim (take n cs) a = (if a < cut then claim cs a else None)"
proof -
  show take: "canonical (take n cs)"
    using assms by (auto simp: canonical_def sorted_wrt_take dest: in_set_takeD)
  show "\<exists>cut. \<forall>a. claim (take n cs) a = (if a < cut then claim cs a else None)"
  proof (cases "n < length cs")
    case True
    let ?y = "cs ! n"
    have cs: "cs = take n cs @ ?y # drop (Suc n) cs" using True by (rule id_take_nth_drop)
    have before: "\<forall>x \<in> set (take n cs). region_end x \<le> region_base ?y"
      "\<forall>x \<in> set (?y # drop (Suc n) cs). region_base ?y \<le> region_base x"
    proof -
      have w: "sorted_wrt region_before (take n cs @ ?y # drop (Suc n) cs)" "region_wf ?y"
        using assms True unfolding cs [symmetric] by (simp_all add: canonical_def)
      then show "\<forall>x \<in> set (take n cs). region_end x \<le> region_base ?y"
        by (auto simp: sorted_wrt_append dest: region_before_le)
      have "region_base ?y \<le> region_end ?y" using region_wf_less [OF w(2)] by (simp add: word_le_nat_alt)
      with w show "\<forall>x \<in> set (?y # drop (Suc n) cs). region_base ?y \<le> region_base x"
        by (auto simp: sorted_wrt_append dest!: region_before_le intro: order_trans)
    qed
    have "claim (take n cs) a = (if a < unat (region_base ?y) then claim cs a else None)" for a
    proof (cases "a < unat (region_base ?y)")
      case below: True
      have "claim (?y # drop (Suc n) cs) a = None"
        using before(2) below by (force simp: claim_None_iff region_span_def word_le_nat_alt)
      then have "claim (take n cs @ ?y # drop (Suc n) cs) a = claim (take n cs) a"
        unfolding claim_append by (simp split: option.split)
      with below show ?thesis unfolding cs [symmetric] by simp
    next
      case False
      then show ?thesis using claim_beyond [OF take before(1), of a] by simp
    qed
    then show ?thesis by blast
  next
    case False
    have "claim cs a = None" if "\<not> a < 2 ^ 65" for a
    proof -
      have sum: "unat (region_base r) + unat (region_length r) < 2 ^ 65" for r
        using add_strict_mono [OF unat_lt64 [of "region_base r"] unat_lt64 [of "region_length r"]] by simp
      then have "a \<notin> region_span r" for r using sum [of r] that unfolding region_span_def by simp
      then show ?thesis by (simp add: claim_None_iff)
    qed
    then show ?thesis using False by (intro exI [of _ "2 ^ 65"]) simp
  qed
qed

text \<open>
  The finalized map is the start of the canonical map with the same claims, as far as the table has room for it;
  the canonical map has at most two regions for every region before, less one.
\<close>

lemma finalize_exact:
  assumes "map_wf m"
  obtains cs where "canonical cs" "claim cs = claim (regions m)" "length cs \<le> 2 * length (regions m)"
    "regions (memory_map_finalize m) = take 128 cs" "truncated (memory_map_finalize m) = (truncated m \<or> 128 < length cs)"
proof (cases "regions m = []")
  case True
  then have "memory_map_finalize m = m" by (simp add: memory_map_finalize_def)
  with True show thesis by (intro that [of "[]"]) (simp_all add: canonical_def)
next
  case False
  let ?bs = "collect_boundaries (regions m)"
  let ?cs = "sweep_all (regions m) ?bs []"
  have wf: "\<forall>r \<in> set (regions m). region_wf r" using assms by (simp add: map_wf_def)
  have ne: "?bs \<noteq> []"
    using False collect_boundaries_spec(2) [of "regions m"] by (cases "regions m") auto
  have "claim (regions m) a = None" if "a < unat (hd ?bs)" for a
    using claims_within_boundaries(1) [OF wf refl, of a] that by force
  then have "swept (regions m) [] (hd ?bs)" by (simp add: swept_def canonical_def)
  from sweep_all_swept [OF wf _ ne this, of "[]"] have sw: "swept (regions m) ?cs (last ?bs)" by simp
  then have can: "canonical ?cs" "\<forall>r \<in> set ?cs. region_end r \<le> last ?bs" by (simp_all add: swept_def)
  have "claim ?cs a = claim (regions m) a" for a
  proof (cases "a < unat (last ?bs)")
    case True
    with sw show ?thesis by (simp add: swept_def)
  next
    case False
    then have "claim (regions m) a = None" using claims_within_boundaries(2) [OF wf refl, of a] by blast
    with claim_beyond [OF can, of a] False show ?thesis by simp
  qed
  moreover have "length ?cs \<le> 2 * length (regions m)"
  proof -
    have "length ?bs = card (set ?bs)"
      using collect_boundaries_spec(1) [of "regions m"] by (simp add: distinct_card strict_sorted_iff)
    also have "\<dots> \<le> card (region_base ` set (regions m)) + card (region_end ` set (regions m))"
      unfolding collect_boundaries_spec(2) by (rule card_Un_le)
    also have "\<dots> \<le> card (set (regions m)) + card (set (regions m))"
      by (intro add_mono card_image_le) simp_all
    also have "\<dots> \<le> 2 * length (regions m)" using card_length [of "regions m"] by simp
    finally show ?thesis using sweep_all_length [of "[]" "regions m" ?bs] by simp
  qed
  moreover have "regions (memory_map_finalize m) = take 128 ?cs" "truncated (memory_map_finalize m) = (truncated m \<or> 128 < length ?cs)"
    using False sweep_take [of "[]" "regions m" ?bs "truncated m"] by (simp_all add: memory_map_finalize_def)
  ultimately show thesis using that [OF can(1)] by blast
qed

lemma finalize_spec:
  assumes "map_wf m"
  defines "f \<equiv> memory_map_finalize m"
  shows "canonical (regions f)" "length (regions f) \<le> MEMORY_MAP_MAX_REGIONS"
    "truncated m \<Longrightarrow> truncated f"
    "\<exists>cut. \<forall>a. claim (regions f) a = (if a < cut then claim (regions m) a else None)"
    "\<not> truncated f \<Longrightarrow> claim (regions f) = claim (regions m)"
    "\<not> truncated m \<Longrightarrow> length (regions m) \<le> 64 \<Longrightarrow> \<not> truncated f"
proof -
  obtain cs where cs: "canonical cs" "claim cs = claim (regions m)" "length cs \<le> 2 * length (regions m)"
    "regions f = take 128 cs" "truncated f = (truncated m \<or> 128 < length cs)"
    unfolding f_def by (rule finalize_exact [OF assms(1)])
  from canonical_cut [OF cs(1), of 128] cs show "canonical (regions f)" "length (regions f) \<le> MEMORY_MAP_MAX_REGIONS"
    "truncated m \<Longrightarrow> truncated f" "\<not> truncated f \<Longrightarrow> claim (regions f) = claim (regions m)"
    "\<not> truncated m \<Longrightarrow> length (regions m) \<le> 64 \<Longrightarrow> \<not> truncated f" by simp_all
  show "\<exists>cut. \<forall>a. claim (regions f) a = (if a < cut then claim (regions m) a else None)"
    using canonical_cut(2) [OF cs(1), of 128] unfolding cs(2,4) .
qed

subsection \<open>Reading a canonical map\<close>

lemma canonical_tail: "canonical (r # rs) \<Longrightarrow> canonical rs"
  by (simp add: canonical_def)

lemma canonical_wf: "canonical rs \<Longrightarrow> r \<in> set rs \<Longrightarrow> region_wf r"
  by (simp add: canonical_def)

lemma canonical_order:
  "canonical rs \<Longrightarrow> r \<in> set rs \<Longrightarrow> s \<in> set rs \<Longrightarrow> r = s \<or> region_before r s \<or> region_before s r"
  by (induction rs) (auto simp: canonical_def)

lemma region_before_disjoint:
  "region_wf r \<Longrightarrow> region_wf s \<Longrightarrow> region_before r s \<Longrightarrow> region_span r \<inter> region_span s = {}"
  using region_before_le [of r s] by (auto simp: in_region_span word_le_nat_alt)

lemma canonical_same:
  "canonical rs \<Longrightarrow> r \<in> set rs \<Longrightarrow> s \<in> set rs \<Longrightarrow> a \<in> region_span r \<Longrightarrow> a \<in> region_span s \<Longrightarrow> r = s"
  using canonical_order [of rs r s] canonical_wf [of rs] region_before_disjoint [of r s] region_before_disjoint [of s r]
  by blast

lemma canonical_claim:
  assumes "canonical rs" "r \<in> set rs" "a \<in> region_span r"
  shows "claim rs a = Some (region_kind r)"
proof -
  have "s = r" if "s \<in> set rs" "a \<in> region_span s" for s
    using canonical_same [OF assms(1) that(1) assms(2) that(2) assms(3)] .
  with assms(2,3) show ?thesis unfolding claim_Some_iff by blast
qed

text \<open>The lookup returns the region whose kind is the claim on the byte.\<close>

lemma find_region_Some: "find_region rs x = Some r \<Longrightarrow> (\<forall>s \<in> set rs. region_wf s) \<Longrightarrow> r \<in> set rs \<and> unat x \<in> region_span r"
  by (induction rs) (auto simp: in_region_span word_le_nat_alt word_less_nat_alt split: if_splits)

lemma find_region_None: "find_region rs x = None \<Longrightarrow> (\<forall>s \<in> set rs. region_wf s) \<Longrightarrow> claim rs (unat x) = None"
  by (induction rs) (auto simp: in_region_span word_le_nat_alt word_less_nat_alt not_le not_less split: if_splits)

lemma find_region_claim:
  assumes "canonical rs"
  shows "map_option region_kind (find_region rs x) = claim rs (unat x)"
proof (cases "find_region rs x")
  case None
  with find_region_None [OF None] assms show ?thesis by (simp add: canonical_def)
next
  case (Some r)
  with find_region_Some [OF Some] assms have "claim rs (unat x) = Some (region_kind r)"
    by (intro canonical_claim) (simp_all add: canonical_def)
  with Some show ?thesis by simp
qed

text \<open>A run of bytes of one kind lies in one region, because touching regions are of different kinds.\<close>

lemma canonical_run:
  assumes can: "canonical rs" and "0 < n"
  shows "(\<forall>x. p \<le> x \<and> x < p + n \<longrightarrow> claim rs x = Some k) \<longleftrightarrow>
    (\<exists>r \<in> set rs. region_kind r = k \<and> unat (region_base r) \<le> p \<and> p + n \<le> unat (region_end r))"
proof
  assume run: "\<forall>x. p \<le> x \<and> x < p + n \<longrightarrow> claim rs x = Some k"
  with \<open>0 < n\<close> obtain r where r: "r \<in> set rs" "p \<in> region_span r" "region_kind r = k"
    by (metis add.right_neutral claim_Some_iff le_refl nat_add_left_cancel_less)
  note wf = canonical_wf [OF can]
  have "p + n \<le> unat (region_end r)"
  proof (rule ccontr)
    assume "\<not> p + n \<le> unat (region_end r)"
    with r wf have "p \<le> unat (region_end r)" "unat (region_end r) < p + n" by (auto simp: in_region_span)
    with run obtain s where s: "s \<in> set rs" "unat (region_end r) \<in> region_span s" "region_kind s = k"
      by (meson claim_Some_iff)
    then have "r \<noteq> s" using r wf by (auto simp: in_region_span)
    with canonical_order [OF can r(1) s(1)] consider "region_before r s" | "region_before s r" by blast
    then show False
    proof cases
      case 1
      then have "region_end r < region_base s" using r(3) s(3) by (simp add: region_before_def)
      with s wf show False by (simp add: in_region_span word_less_nat_alt)
    next
      case 2
      then have "region_end s \<le> region_base r" by (rule region_before_le)
      with s r wf show False using region_wf_less [of r] by (simp add: in_region_span word_le_nat_alt)
    qed
  qed
  with r wf show "\<exists>r \<in> set rs. region_kind r = k \<and> unat (region_base r) \<le> p \<and> p + n \<le> unat (region_end r)"
    by (auto simp: in_region_span)
next
  assume "\<exists>r \<in> set rs. region_kind r = k \<and> unat (region_base r) \<le> p \<and> p + n \<le> unat (region_end r)"
  then obtain r where r: "r \<in> set rs" "region_kind r = k" "unat (region_base r) \<le> p" "p + n \<le> unat (region_end r)" by blast
  show "\<forall>x. p \<le> x \<and> x < p + n \<longrightarrow> claim rs x = Some k"
    using canonical_claim [OF can r(1)] canonical_wf [OF can r(1)] r by (auto simp: in_region_span)
qed

text \<open>A canonical map is determined by its claims.\<close>

lemma canonical_unique:
  "canonical rs \<Longrightarrow> canonical ss \<Longrightarrow> (\<And>a. claim rs a = claim ss a) \<Longrightarrow> rs = ss"
proof (induction rs arbitrary: ss)
  case Nil
  show ?case
  proof (cases ss)
    case (Cons s ss')
    have "region_wf s" using Nil(2) Cons by (simp add: canonical_def)
    then have "unat (region_base s) \<in> region_span s" using region_wf_less [of s] by (simp add: in_region_span)
    with Nil(3) [of "unat (region_base s)"] Cons show ?thesis by (auto simp: claim_None_iff split: if_splits option.splits)
  qed simp
next
  case (Cons r rs)
  note can_r = Cons.prems(1) and can_s = Cons.prems(2) and eq = Cons.prems(3)
  have wf_r: "region_wf r" using can_r by (simp add: canonical_def)
  have base_r: "unat (region_base r) \<in> region_span r" using region_wf_less [OF wf_r] wf_r by (simp add: in_region_span)
  obtain s ss' where ss: "ss = s # ss'"
    using eq [of "unat (region_base r)"] base_r by (cases ss) (auto split: option.splits)
  have wf_s: "region_wf s" using can_s ss by (simp add: canonical_def)
  have base_s: "unat (region_base s) \<in> region_span s" using region_wf_less [OF wf_s] wf_s by (simp add: in_region_span)
  have first: "region_base x \<le> region_base y" if "canonical (x # xs)" "y \<in> set (x # xs)" for x y xs
    using that region_wf_less [of x] region_before_le [of x y]
    by (auto simp: canonical_def word_le_nat_alt)
  have least: "region_base y \<le> region_base x"
    if "canonical (x # xs)" "canonical (y # ys)" "\<And>a. claim (x # xs) a = claim (y # ys) a" for x y xs ys
  proof -
    have wf: "region_wf x" using that(1) by (simp add: canonical_def)
    then have "unat (region_base x) \<in> region_span x" using region_wf_less [of x] by (simp add: in_region_span)
    then have "claim (y # ys) (unat (region_base x)) \<noteq> None"
      using canonical_claim [OF that(1), of x] unfolding that(3) [symmetric] by (simp del: claim.simps)
    then obtain z where z: "z \<in> set (y # ys)" "unat (region_base x) \<in> region_span z"
      unfolding claim_None_iff by blast
    with canonical_wf [OF that(2) z(1)] first [OF that(2) z(1)] show ?thesis by (simp add: in_region_span word_le_nat_alt)
  qed
  have base: "region_base r = region_base s"
    using least [OF can_r can_s [unfolded ss]] least [OF can_s [unfolded ss] can_r] eq ss by (simp add: order.antisym)
  have kind: "region_kind r = region_kind s"
    using eq [of "unat (region_base r)"] canonical_claim [OF can_r, of r] canonical_claim [OF can_s, of s] base_r base_s
    by (simp add: ss base)
  have longest: "region_end x \<le> region_end y"
    if can: "canonical (x # xs)" "canonical (y # ys)" and eq: "\<And>a. claim (x # xs) a = claim (y # ys) a"
      and base: "region_base x = region_base y" for x y xs ys
  proof -
    have wf: "region_wf x" "region_wf y" using can by (simp_all add: canonical_def)
    let ?n = "unat (region_end x) - unat (region_base x)"
    have "0 < ?n" using region_wf_less [OF wf(1)] by simp
    have "\<forall>a. unat (region_base x) \<le> a \<and> a < unat (region_base x) + ?n \<longrightarrow> claim (y # ys) a = Some (region_kind x)"
      unfolding eq [symmetric] canonical_run [OF can(1) \<open>0 < ?n\<close>]
      using region_wf_less [OF wf(1)] by (intro bexI [of _ x]) auto
    then obtain z where z: "z \<in> set (y # ys)" "region_base z \<le> region_base x" "region_end x \<le> region_end z"
      unfolding canonical_run [OF can(2) \<open>0 < ?n\<close>]
      using region_wf_less [OF wf(1)] by (force simp only: word_le_nat_alt)
    have "z = y"
    proof (rule canonical_same [OF can(2) z(1), of y "unat (region_base y)"])
      show "unat (region_base y) \<in> region_span z" "unat (region_base y) \<in> region_span y"
        using z(2,3) base canonical_wf [OF can(2) z(1)] wf(2) region_wf_less [OF wf(1)] region_wf_less [OF wf(2)]
        by (auto simp: in_region_span word_le_nat_alt)
    qed simp
    with z(3) show ?thesis by simp
  qed
  have "region_end r = region_end s"
    using longest [OF can_r can_s [unfolded ss] _ base] longest [OF can_s [unfolded ss] can_r _ base [symmetric]] eq ss
    by (simp add: order.antisym)
  with base have "region_length r = region_length s" by (simp add: region_end_def)
  with base kind have rs: "r = s" by simp
  have "claim rs a = claim ss' a" for a
  proof (cases "a \<in> region_span r")
    case True
    have disj: "claim xs a = None" if "canonical (r # xs)" for xs
    proof -
      have "a \<notin> region_span x" if x: "x \<in> set xs" for x
        using \<open>canonical (r # xs)\<close> x True region_before_disjoint [of r x] by (auto simp: canonical_def)
      then show ?thesis by (simp add: claim_None_iff)
    qed
    show ?thesis using disj can_r can_s by (simp add: ss rs)
  next
    case False
    with eq [of a] show ?thesis by (simp add: ss rs)
  qed
  with Cons.IH [of ss'] can_r can_s canonical_tail show ?case by (auto simp: ss rs)
qed


subsection \<open>Totals\<close>

lemma claimed_set:
  assumes "canonical (r # rs)"
  shows "{a. claim (r # rs) a = Some k} =
      (if region_kind r = k then region_span r else {}) \<union> {a. claim rs a = Some k}"
    "region_span r \<inter> {a. claim rs a = Some k} = {}"
proof -
  have none: "claim rs a = None" if "a \<in> region_span r" for a
  proof -
    have "a \<notin> region_span x" if x: "x \<in> set rs" for x
      using assms x \<open>a \<in> region_span r\<close> region_before_disjoint [of r x] by (auto simp: canonical_def)
    then show ?thesis by (simp add: claim_None_iff)
  qed
  then show "region_span r \<inter> {a. claim rs a = Some k} = {}" by auto
  show "{a. claim (r # rs) a = Some k} =
      (if region_kind r = k then region_span r else {}) \<union> {a. claim rs a = Some k}"
    using none by (auto split: if_splits)
qed

lemma claimed_finite: "finite {a. claim rs a = Some k}"
proof (rule finite_subset)
  show "{a. claim rs a = Some k} \<subseteq> (\<Union>r \<in> set rs. region_span r)"
    by (auto simp: claim_Some_iff)
qed (auto simp: region_span_def)

lemma claimed_card:
  assumes "canonical rs"
  shows "card {a. claim rs a = Some k} < 2 ^ 64"
proof -
  have "{a. claim rs a = Some k} \<subseteq> {..<2 ^ 64 - 1}"
  proof
    fix a assume "a \<in> {a. claim rs a = Some k}"
    then obtain r where "r \<in> set rs" "a \<in> region_span r" by (auto simp: claim_Some_iff)
    with canonical_wf [OF assms] have "a < unat (region_base r) + unat (region_length r)"
      "unat (region_base r) + unat (region_length r) < 2 ^ 64"
      by (auto simp: region_wf_def region_span_def)
    then show "a \<in> {..<2 ^ 64 - 1}" by simp
  qed
  then have "card {a. claim rs a = Some k} \<le> card {..<2 ^ 64 - 1 :: nat}" by (intro card_mono) auto
  then have "card {a. claim rs a = Some k} \<le> 2 ^ 64 - 1" by simp
  then show ?thesis by simp
qed

lemma total_from:
  assumes "canonical rs" "unat t + card {a. claim rs a = Some k} < 2 ^ 64"
  shows "unat (fold (\<lambda>r t. if region_kind r = k then t + region_length r else t) rs t) =
    unat t + card {a. claim rs a = Some k}"
  using assms
proof (induction rs arbitrary: t)
  case (Cons r rs)
  note can = Cons.prems(1)
  have card: "card {a. claim (r # rs) a = Some k} =
      (if region_kind r = k then unat (region_length r) else 0) + card {a. claim rs a = Some k}"
    using claimed_set [OF can, of k] claimed_finite [of rs k]
    by (simp add: card_Un_disjoint region_span_def del: claim.simps)
  show ?case
  proof (cases "region_kind r = k")
    case True
    then have "unat (t + region_length r) = unat t + unat (region_length r)"
      using Cons.prems(2) card by (simp add: unat_add_fits del: claim.simps)
    with Cons.IH [of "t + region_length r"] Cons.prems(2) card canonical_tail [OF can] True
    show ?thesis by (simp del: claim.simps)
  next
    case False
    with Cons.IH [of t] Cons.prems(2) card canonical_tail [OF can] show ?thesis by (simp del: claim.simps)
  qed
qed simp

lemma memory_map_total_card:
  "canonical (regions m) \<Longrightarrow> unat (memory_map_total m k) = card {a. claim (regions m) a = Some k}"
  using total_from [of "regions m" 0 k] claimed_card [of "regions m" k] by (simp add: memory_map_total_def)

subsection \<open>Finding free memory\<close>

definition usable_run :: "memory_region list \<Rightarrow> nat \<Rightarrow> nat \<Rightarrow> bool" where
  "usable_run rs p n \<longleftrightarrow> (\<forall>x. p \<le> x \<and> x < p + n \<longrightarrow> claim rs x = Some MEMORY_KIND_USABLE)"

lemma free_in_region_Some:
  assumes wf: "region_wf r" and al: "pow2 al" and sz: "sz \<noteq> 0"
  shows "free_in_region r sz al minimum = Some p \<longleftrightarrow>
    region_kind r = MEMORY_KIND_USABLE \<and>
    unat p = align_up_nat (max (unat (region_base r)) (unat minimum)) (unat al) \<and>
    unat p + unat sz \<le> unat (region_end r)"
proof -
  define start where "start = (if region_base r > minimum then region_base r else minimum)"
  have start: "unat start = max (unat (region_base r)) (unat minimum)"
    by (auto simp: start_def word_less_nat_alt)
  have up: "unat start \<le> align_up_nat (unat start) (unat al)"
    by (rule align_up_nat_bounds [OF pow2_pos [OF al]])
  have align: "checked_align_up_u64 start al = Some q \<longleftrightarrow> unat q = align_up_nat (unat start) (unat al)" for q
  proof
    assume "unat q = align_up_nat (unat start) (unat al)"
    then show "checked_align_up_u64 start al = Some q"
      using al unat_lt64 [of q] by (simp add: checked_align_up_u64_eq flip: \<open>unat q = _\<close>)
  qed (rule checked_align_up_u64_Some)
  have "free_in_region r sz al minimum = Some p \<longleftrightarrow> region_kind r = MEMORY_KIND_USABLE \<and>
      checked_align_up_u64 start al = Some p \<and> \<not> p < region_base r \<and>
      (\<exists>f. checked_add_u64 p sz = Some f \<and> \<not> f > region_end r)"
    unfolding free_in_region_def start_def [symmetric] by (auto simp: opt_bind)
  also have "\<dots> \<longleftrightarrow> region_kind r = MEMORY_KIND_USABLE \<and>
      unat p = align_up_nat (unat start) (unat al) \<and> unat p + unat sz \<le> unat (region_end r)"
  proof -
    have "(\<exists>f. checked_add_u64 p sz = Some f \<and> \<not> f > region_end r) \<longleftrightarrow>
        unat p + unat sz \<le> unat (region_end r)"
    proof
      assume le: "unat p + unat sz \<le> unat (region_end r)"
      then have "unat (p + sz) = unat p + unat sz" by (rule unat_add_below)
      with le show "\<exists>f. checked_add_u64 p sz = Some f \<and> \<not> f > region_end r"
        by (intro exI [of _ "p + sz"]) (simp add: checked_add_u64_Some word_less_nat_alt)
    qed (auto simp: checked_add_u64_Some word_less_nat_alt not_less)
    moreover have "\<not> p < region_base r" if "unat p = align_up_nat (unat start) (unat al)"
      using that up start by (simp add: word_less_nat_alt)
    ultimately show ?thesis unfolding align by blast
  qed
  finally show ?thesis unfolding start .
qed

text \<open>The search finds the lowest aligned usable run there is, and finds one if there is one.\<close>

lemma find_free_least:
  fixes minimum :: u64
  assumes can: "canonical rs" and al: "pow2 al" and sz: "sz \<noteq> 0"
  defines "good \<equiv> (\<lambda>q. unat minimum \<le> q \<and> unat al dvd q \<and> usable_run rs q (unat sz))"
  shows "first_free rs sz al minimum = Some p \<Longrightarrow> good (unat p) \<and> (\<forall>q. good q \<longrightarrow> unat p \<le> q)"
    and "first_free rs sz al minimum = None \<Longrightarrow> \<not> good q"
proof -
  have pos: "0 < unat sz" "0 < unat al" using sz pow2_pos [OF al] by (simp_all add: unat_gt_0)
  have good: "good q \<longleftrightarrow> unat minimum \<le> q \<and> unat al dvd q \<and>
      (\<exists>r \<in> set rs. region_kind r = MEMORY_KIND_USABLE \<and> unat (region_base r) \<le> q \<and>
         q + unat sz \<le> unat (region_end r))" for q
    unfolding good_def usable_run_def canonical_run [OF can pos(1)] ..
  have fits: "free_in_region r sz al minimum \<noteq> None"
    if "region_wf r" "region_kind r = MEMORY_KIND_USABLE" "unat minimum \<le> q" "unat al dvd q"
      "unat (region_base r) \<le> q" "q + unat sz \<le> unat (region_end r)" for r q
  proof -
    let ?u = "align_up_nat (max (unat (region_base r)) (unat minimum)) (unat al)"
    have "?u \<le> q" using that pos by (intro align_up_nat_least) auto
    then have "?u < 2 ^ 64" "?u + unat sz \<le> unat (region_end r)"
      using that(6) pos less_trans [of ?u "unat (region_end r)" "2 ^ 64"] by auto
    then have "free_in_region r sz al minimum = Some (of_nat ?u)"
      using that by (subst free_in_region_Some [OF that(1) al sz]) (simp add: unat_of_nat)
    then show ?thesis by simp
  qed
  have least: "unat p \<le> q" if "free_in_region r sz al minimum = Some p" "region_wf r"
    "unat minimum \<le> q" "unat al dvd q" "unat (region_base r) \<le> q" for r p q
    using that pos by (auto simp: free_in_region_Some [OF that(2) al sz] intro!: align_up_nat_least)
  have main: "(case first_free ss sz al minimum of
      None \<Rightarrow> \<forall>r \<in> set ss. free_in_region r sz al minimum = None
    | Some p \<Rightarrow> \<exists>pre r post. ss = pre @ r # post \<and> free_in_region r sz al minimum = Some p \<and>
        (\<forall>r \<in> set pre. free_in_region r sz al minimum = None))" for ss
  proof (induction ss)
    case (Cons s ss)
    show ?case
    proof (cases "free_in_region s sz al minimum")
      case None
      with Cons show ?thesis
        by (auto split: option.splits) (metis append_Cons set_ConsD)
    next
      case (Some p)
      then show ?thesis by (auto intro!: exI [of _ "[]"])
    qed
  qed simp
  show "\<not> good q" if "first_free rs sz al minimum = None"
    using main [of rs] that fits canonical_wf [OF can] unfolding good by fastforce
  assume "first_free rs sz al minimum = Some p"
  with main [of rs] obtain pre r post where rs: "rs = pre @ r # post"
    and r: "free_in_region r sz al minimum = Some p"
    and pre: "\<forall>x \<in> set pre. free_in_region x sz al minimum = None" by auto
  have wf: "region_wf r" using can rs by (simp add: canonical_def)
  note r' = r [unfolded free_in_region_Some [OF wf al sz]]
  have up: "max (unat (region_base r)) (unat minimum) \<le> unat p" "unat al dvd unat p"
    using r' align_up_nat_bounds [OF pos(2)] by simp_all
  have "good (unat p)" unfolding good using up r' by (intro conjI bexI [of _ r]) (auto simp: rs)
  moreover have "unat p \<le> q" if q: "good q" for q
  proof -
    from q [unfolded good] obtain s where s: "s \<in> set rs" "region_kind s = MEMORY_KIND_USABLE"
      "unat (region_base s) \<le> q" "q + unat sz \<le> unat (region_end s)" "unat minimum \<le> q" "unat al dvd q" by blast
    have "s \<notin> set pre" using fits [OF canonical_wf [OF can s(1)] s(2,5,6,3,4)] pre by auto
    then have "s = r \<or> s \<in> set post" using s(1) rs by auto
    then have "region_base r \<le> region_base s"
    proof
      assume "s \<in> set post"
      then have "region_before r s" using can rs by (simp add: canonical_def sorted_wrt_append)
      then show ?thesis using region_before_le [of r s] region_wf_less [OF wf] by (simp add: word_le_nat_alt)
    qed simp
    then show ?thesis using least [OF r wf s(5,6)] s(3) by (simp add: word_le_nat_alt)
  qed
  ultimately show "good (unat p) \<and> (\<forall>q. good q \<longrightarrow> unat p \<le> q)" by blast
qed

lemma high_in_region_Some:
  assumes wf: "region_wf r" and al: "pow2 al" and sz: "sz \<noteq> 0"
  shows "high_in_region r sz al limit = Some p \<longleftrightarrow>
    region_kind r = MEMORY_KIND_USABLE \<and>
    unat sz \<le> min (unat (region_end r)) (unat limit) \<and>
    unat p = (min (unat (region_end r)) (unat limit) - unat sz) div unat al * unat al \<and>
    unat (region_base r) \<le> unat p"
proof -
  define e where "e = (if region_end r > limit then limit else region_end r)"
  have e: "unat e = min (unat (region_end r)) (unat limit)"
    by (auto simp: e_def word_less_nat_alt)
  define start where "start = (e - sz) AND NOT (al - 1)"
  have start: "unat start = (unat e - unat sz) div unat al * unat al" if "unat sz \<le> unat e"
    using that by (simp add: start_def unat_align_down [OF al] unat_sub_fits word_le_nat_alt)
  have "\<not> start + sz > e" if "unat sz \<le> unat e"
  proof -
    have "unat start \<le> unat e - unat sz" unfolding start [OF that] by (rule div_times_less_eq_dividend)
    then have "unat start + unat sz \<le> unat e" using that by linarith
    then show ?thesis using unat_add_below [of start sz e] by (simp add: word_less_nat_alt)
  qed
  then have "high_in_region r sz al limit = Some p \<longleftrightarrow> region_kind r = MEMORY_KIND_USABLE \<and>
      unat sz \<le> unat e \<and> p = start \<and> unat (region_base r) \<le> unat p"
    unfolding high_in_region_def e_def [symmetric] Let_def start_def [symmetric]
    by (auto simp: word_less_nat_alt not_less)
  also have "\<dots> \<longleftrightarrow> region_kind r = MEMORY_KIND_USABLE \<and> unat sz \<le> unat e \<and>
      unat p = (unat e - unat sz) div unat al * unat al \<and> unat (region_base r) \<le> unat p"
    using start unat_inj by metis
  finally show ?thesis unfolding e .
qed

lemma highest_free_max:
  "(case highest_free rs sz al limit out of
      None \<Rightarrow> out = None \<and> (\<forall>r \<in> set rs. high_in_region r sz al limit = None)
    | Some p \<Rightarrow> (out = Some p \<or> (\<exists>r \<in> set rs. high_in_region r sz al limit = Some p)) \<and>
        (\<forall>q. out = Some q \<longrightarrow> q \<le> p) \<and>
        (\<forall>r \<in> set rs. \<forall>q. high_in_region r sz al limit = Some q \<longrightarrow> q \<le> p))"
proof (induction rs arbitrary: out)
  case Nil
  then show ?case by (auto split: option.split)
next
  case (Cons r rs)
  show ?case
  proof (cases "high_in_region r sz al limit")
    case None
    with Cons.IH [of out] show ?thesis by (auto split: option.splits)
  next
    case (Some s)
    define best where "best = (case out of None \<Rightarrow> s | Some found \<Rightarrow> if s > found then s else found)"
    have eq: "highest_free (r # rs) sz al limit out = highest_free rs sz al limit (Some best)"
      using Some by (cases out) (auto simp: best_def)
    have "s \<le> best" "\<forall>q. out = Some q \<longrightarrow> q \<le> best" "best = s \<or> out = Some best"
      by (auto simp: best_def split: option.split)
    with Cons.IH [of "Some best"] Some show ?thesis
      unfolding eq by (auto split: option.splits intro: order_trans)
  qed
qed

lemma find_free_highest:
  fixes limit :: u64
  assumes can: "canonical rs" and al: "pow2 al" and sz: "sz \<noteq> 0"
  defines "good \<equiv> (\<lambda>q. q + unat sz \<le> unat limit \<and> unat al dvd q \<and> usable_run rs q (unat sz))"
  shows "highest_free rs sz al limit None = Some p \<Longrightarrow> good (unat p) \<and> (\<forall>q. good q \<longrightarrow> q \<le> unat p)"
    and "highest_free rs sz al limit None = None \<Longrightarrow> \<not> good q"
proof -
  have pos: "0 < unat sz" "0 < unat al" using sz pow2_pos [OF al] by (simp_all add: unat_gt_0)
  have good: "good q \<longleftrightarrow> q + unat sz \<le> unat limit \<and> unat al dvd q \<and>
      (\<exists>r \<in> set rs. region_kind r = MEMORY_KIND_USABLE \<and> unat (region_base r) \<le> q \<and>
         q + unat sz \<le> unat (region_end r))" for q
    unfolding good_def usable_run_def canonical_run [OF can pos(1)] ..
  have found: "\<exists>p. high_in_region r sz al limit = Some p \<and> q \<le> unat p"
    if r: "r \<in> set rs" "region_kind r = MEMORY_KIND_USABLE" and q: "q + unat sz \<le> unat limit" "unat al dvd q"
      "unat (region_base r) \<le> q" "q + unat sz \<le> unat (region_end r)" for r q
  proof -
    let ?e = "min (unat (region_end r)) (unat limit)"
    let ?u = "(?e - unat sz) div unat al * unat al"
    from q(2) obtain j where j: "q = j * unat al" by (metis dvd_def mult.commute)
    have "j * unat al div unat al \<le> (?e - unat sz) div unat al"
      using q j by (intro div_le_mono) simp
    then have "q \<le> ?u" using j pos(2) by simp
    moreover have "?u \<le> ?e - unat sz" by (rule div_times_less_eq_dividend)
    moreover have "?e < 2 ^ 64" using unat_lt64 [of limit] by (simp add: min_def)
    ultimately have "?u < 2 ^ 64" by linarith
    then obtain w :: u64 where w: "unat w = ?u" using ex_unat64 by blast
    then have "high_in_region r sz al limit = Some w"
      using q r \<open>q \<le> ?u\<close> by (subst high_in_region_Some [OF canonical_wf [OF can r(1)] al sz]) auto
    with \<open>q \<le> ?u\<close> w show ?thesis by auto
  qed
  note max = highest_free_max [where rs = rs and sz = sz and al = al and limit = limit and out = None]
  {
    assume "highest_free rs sz al limit None = None"
    then show "\<not> good q" using max found unfolding good by fastforce
  next
    assume "highest_free rs sz al limit None = Some p"
    with max obtain r where r: "r \<in> set rs" "high_in_region r sz al limit = Some p"
      and top: "\<forall>r \<in> set rs. \<forall>q. high_in_region r sz al limit = Some q \<longrightarrow> q \<le> p" by auto
    note r' = r(2) [unfolded high_in_region_Some [OF canonical_wf [OF can r(1)] al sz]]
    then have "unat p \<le> min (unat (region_end r)) (unat limit) - unat sz"
      by (metis div_times_less_eq_dividend)
    then have "unat p + unat sz \<le> unat limit" "unat p + unat sz \<le> unat (region_end r)"
      using r' by linarith+
    then have "good (unat p)" unfolding good using r' r(1) by (intro conjI bexI [of _ r]) simp_all
    moreover have "q \<le> unat p" if "good q" for q
      using that [unfolded good] found top unfolding word_le_nat_alt by (meson order_trans)
    ultimately show "good (unat p) \<and> (\<forall>q. good q \<longrightarrow> q \<le> unat p)" by blast
  }
qed

subsection \<open>Properties\<close>

text \<open>A map built from a firmware table: each entry is added, then the map is finalized.\<close>

definition add_entries :: "(u64 \<times> u64 \<times> memory_kind) list \<Rightarrow> memory_map \<Rightarrow> memory_map" where
  "add_entries es m = fold (\<lambda>(b, n, k) m. snd (memory_map_add m b n k)) es m"

definition entry_region :: "u64 \<times> u64 \<times> memory_kind \<Rightarrow> memory_region" where
  "entry_region e = \<lparr>region_base = fst e, region_length = fst (snd e), region_kind = snd (snd e)\<rparr>"

text \<open>What a firmware table says of a byte: its entries that name a non-empty range below \<open>2^64\<close>.\<close>

definition entries_claim :: "(u64 \<times> u64 \<times> memory_kind) list \<Rightarrow> nat \<Rightarrow> memory_kind option" where
  "entries_claim es = claim (filter region_wf (map entry_region es))"

lemma add_entries_wf: "map_wf m \<Longrightarrow> map_wf (add_entries es m)"
  unfolding add_entries_def
  by (induction es arbitrary: m) (auto simp: memory_map_add_wf split: prod.split)

lemma memory_map_add_cases:
  "snd (memory_map_add m b n k) =
     (if \<not> region_wf (entry_region (b, n, k)) then m
      else if length (regions m) = MEMORY_MAP_MAX_REGIONS then m\<lparr>truncated := True\<rparr>
      else m\<lparr>regions := regions m @ [entry_region (b, n, k)]\<rparr>)"
proof (cases "checked_add_u64 b n")
  case None
  then show ?thesis by (simp add: memory_map_add_def region_wf_def entry_region_def checked_add_u64_None)
next
  case (Some c)
  then have "unat b + unat n < 2 ^ 64" by (simp add: checked_add_u64_def split: if_splits)
  with Some show ?thesis by (simp add: memory_map_add_def region_wf_def entry_region_def)
qed

lemma add_entries_regions:
  "length (regions m) \<le> 128 \<Longrightarrow>
   regions (add_entries es m) = take 128 (regions m @ filter region_wf (map entry_region es)) \<and>
   truncated (add_entries es m) = (truncated m \<or> 128 < length (regions m @ filter region_wf (map entry_region es)))"
proof (induction es arbitrary: m)
  case (Cons e es)
  obtain b n k where e: "e = (b, n, k)" by (cases e)
  let ?m = "snd (memory_map_add m b n k)"
  have step: "add_entries (e # es) m = add_entries es ?m" by (simp add: add_entries_def e)
  consider "\<not> region_wf (entry_region e)" | "region_wf (entry_region e)" "length (regions m) = 128"
    | "region_wf (entry_region e)" "length (regions m) < 128"
    using Cons.prems by linarith
  then show ?case
  proof cases
    case 1
    then have "?m = m" by (simp add: memory_map_add_cases e)
    with 1 show ?thesis using Cons by (simp add: step)
  next
    case 2
    then have "?m = m\<lparr>truncated := True\<rparr>" by (simp add: memory_map_add_cases e)
    with 2 show ?thesis using Cons.IH [of ?m] by (simp add: step)
  next
    case 3
    then have "?m = m\<lparr>regions := regions m @ [entry_region e]\<rparr>" by (simp add: memory_map_add_cases e)
    with 3 show ?thesis using Cons.IH [of ?m] by (simp add: step)
  qed
qed (simp add: add_entries_def)

text \<open>The entries of a table that name a range.\<close>

definition table_regions :: "(u64 \<times> u64 \<times> memory_kind) list \<Rightarrow> memory_region list" where
  "table_regions es = filter region_wf (map entry_region es)"

lemma finalized_run:
  "\<exists>cs. canonical cs \<and> claim cs = claim (take 128 (table_regions es)) \<and>
     regions (memory_map_finalize (add_entries es memory_map_clear)) = take 128 cs \<and>
     truncated (memory_map_finalize (add_entries es memory_map_clear)) = (128 < length (table_regions es) \<or> 128 < length cs)"
proof -
  let ?m = "add_entries es memory_map_clear"
  have m: "regions ?m = take 128 (table_regions es)" "truncated ?m = (128 < length (table_regions es))"
    using add_entries_regions [of memory_map_clear es] by (simp_all add: memory_map_clear_def table_regions_def)
  obtain cs where "canonical cs" "claim cs = claim (regions ?m)"
    "regions (memory_map_finalize ?m) = take 128 cs" "truncated (memory_map_finalize ?m) = (truncated ?m \<or> 128 < length cs)"
    by (rule finalize_exact [OF add_entries_wf [OF memory_map_clear_wf]])
  then show ?thesis by (intro exI [of _ cs]) (simp add: m)
qed

lemma finalized_claims:
  "canonical (regions (memory_map_finalize (add_entries es memory_map_clear))) \<and>
   length (regions (memory_map_finalize (add_entries es memory_map_clear))) \<le> MEMORY_MAP_MAX_REGIONS \<and>
   (truncated (memory_map_finalize (add_entries es memory_map_clear)) \<or>
    claim (regions (memory_map_finalize (add_entries es memory_map_clear))) = entries_claim es)"
proof -
  obtain cs where "canonical cs" "claim cs = claim (take 128 (table_regions es))"
     "regions (memory_map_finalize (add_entries es memory_map_clear)) = take 128 cs"
     "truncated (memory_map_finalize (add_entries es memory_map_clear)) = (128 < length (table_regions es) \<or> 128 < length cs)"
    using finalized_run by blast
  then show ?thesis by (auto simp: canonical_cut entries_claim_def table_regions_def)
qed

text \<open>
  C15. From any firmware table, however unsorted and overlapping, adding the entries and finalizing gives the start of
  the one canonical map (ascending, disjoint, merged) in which every byte has exactly the most restrictive kind that one
  of the first 128 valid entries gives it. The start is the first 128 regions, and the map is marked truncated exactly
  when the table had more valid entries or the canonical map has more regions. When it is not marked, no byte of the
  table is lost, none appears, and none is handed out with a weaker kind.
\<close>

theorem finalized_map_exact:
  "let f = memory_map_finalize (add_entries es memory_map_clear)
   in (\<exists>cs. canonical cs \<and> claim cs = claim (take 128 (table_regions es)) \<and> regions f = take 128 cs \<and>
         truncated f = (128 < length (table_regions es) \<or> 128 < length cs)) \<and>
      canonical (regions f) \<and> (truncated f \<or> claim (regions f) = entries_claim es)"
  unfolding Let_def using finalized_run [of es] finalized_claims [of es] by blast

text \<open>
  The finalized map depends only on what the table says, not on the order or the way it says it:
  two tables that make the same claims give the same list of regions, and finalizing again changes
  nothing.
\<close>

theorem finalize_order_independent:
  assumes "\<not> truncated (memory_map_finalize (add_entries es memory_map_clear))"
    and "\<not> truncated (memory_map_finalize (add_entries es' memory_map_clear))"
    and "set es = set es'"
  shows "memory_map_finalize (add_entries es memory_map_clear) =
      memory_map_finalize (add_entries es' memory_map_clear)"
    (is "?f = ?f'")
proof -
  have "set (filter region_wf (map entry_region es)) = set (filter region_wf (map entry_region es'))"
    using assms(3) by auto
  then have "entries_claim es = entries_claim es'"
    unfolding entries_claim_def by (intro ext claim_cong_set)
  then have "regions ?f = regions ?f'"
    using finalized_claims [of es] finalized_claims [of es'] assms(1,2)
    by (intro canonical_unique) auto
  with assms(1,2) show ?thesis by (intro memory_map.equality) auto
qed

lemmas finalize_run_defs = add_entries_def memory_map_add_def checked_add_u64_def memory_map_finalize_def
  collect_boundaries_def boundary_sort_def boundary_unique_def interval_kind_def region_end_def
  memory_map_clear_def less_memory_kind_def upt_rec

lemma finalize_order_independent_witness:
  "memory_map_finalize (add_entries [(0, 0x3000, MEMORY_KIND_USABLE), (0x1000, 0x1000, MEMORY_KIND_RESERVED)] memory_map_clear) =
   memory_map_finalize (add_entries [(0x1000, 0x1000, MEMORY_KIND_RESERVED), (0, 0x3000, MEMORY_KIND_USABLE)] memory_map_clear)"
proof (rule finalize_order_independent)
  show "\<not> truncated (memory_map_finalize (add_entries
    [(0, 0x3000, MEMORY_KIND_USABLE), (0x1000, 0x1000, MEMORY_KIND_RESERVED)] memory_map_clear))"
    by (simp add: finalize_run_defs)
  show "\<not> truncated (memory_map_finalize (add_entries
    [(0x1000, 0x1000, MEMORY_KIND_RESERVED), (0, 0x3000, MEMORY_KIND_USABLE)] memory_map_clear))"
    by (simp add: finalize_run_defs)
qed auto

text \<open>
  On a finalized map \<open>memory_map_find_free\<close> answers exactly the lowest aligned address at or above
  the minimum from which the wanted number of bytes is usable, and refuses only if there is none.
\<close>

theorem find_free_lowest:
  assumes "canonical (regions m)"
  shows "memory_map_find_free m sz al minimum = Some p \<longleftrightarrow>
    sz \<noteq> 0 \<and> (\<exists>k. unat al = 2 ^ k) \<and>
    unat minimum \<le> unat p \<and> unat al dvd unat p \<and> usable_run (regions m) (unat p) (unat sz) \<and>
    (\<forall>q. unat minimum \<le> q \<and> unat al dvd q \<and> usable_run (regions m) q (unat sz) \<longrightarrow> unat p \<le> q)"
proof (cases "sz \<noteq> 0 \<and> pow2 al")
  case False
  then show ?thesis by (auto simp: memory_map_find_free_def pow2_def pow2_exp [symmetric])
next
  case True
  then have eq: "memory_map_find_free m sz al minimum = first_free (regions m) sz al minimum"
    by (simp add: memory_map_find_free_def pow2_def)
  have al: "pow2 al" and sz: "sz \<noteq> 0" using True by auto
  note least = find_free_least [OF assms al sz]
  show ?thesis
  proof (cases "first_free (regions m) sz al minimum")
    case None
    with least(2) [OF None] show ?thesis unfolding eq by auto
  next
    case (Some r)
    with least(1) [OF Some] True show ?thesis
      unfolding eq by (auto simp: pow2_exp intro: unat_inj order.antisym)
  qed
qed

lemma find_free_lowest_witness:
  "memory_map_find_free \<lparr>regions = [\<lparr>region_base = 0x800, region_length = 0x3000, region_kind = MEMORY_KIND_USABLE\<rparr>],
     truncated = False\<rparr> 0x1000 0x1000 0x900 = Some 0x1000 \<and>
   usable_run [\<lparr>region_base = 0x800, region_length = 0x3000, region_kind = MEMORY_KIND_USABLE\<rparr>] 0x1000 0x1000"
proof -
  let ?m = "\<lparr>regions = [\<lparr>region_base = 0x800, region_length = 0x3000, region_kind = MEMORY_KIND_USABLE\<rparr>],
     truncated = False\<rparr>"
  have can: "canonical (regions ?m)" by (simp add: canonical_def region_wf_def)
  have run: "memory_map_find_free ?m 0x1000 0x1000 0x900 = Some 0x1000"
    by (simp add: memory_map_find_free_def free_in_region_def checked_align_up_u64_def checked_add_u64_def region_end_def)
  with find_free_lowest [OF can, of "0x1000" "0x1000" "0x900" "0x1000"] show ?thesis by simp
qed

text \<open>
  On a finalized map \<open>memory_map_find_free_high\<close> answers exactly the highest aligned address from
  which the wanted number of bytes is usable and ends at or below the limit, and refuses only if
  there is none.
\<close>

theorem find_free_high_highest:
  assumes "canonical (regions m)"
  shows "memory_map_find_free_high m sz al limit = Some p \<longleftrightarrow>
    sz \<noteq> 0 \<and> (\<exists>k. unat al = 2 ^ k) \<and>
    unat p + unat sz \<le> unat limit \<and> unat al dvd unat p \<and> usable_run (regions m) (unat p) (unat sz) \<and>
    (\<forall>q. q + unat sz \<le> unat limit \<and> unat al dvd q \<and> usable_run (regions m) q (unat sz) \<longrightarrow> q \<le> unat p)"
proof (cases "sz \<noteq> 0 \<and> pow2 al")
  case False
  then show ?thesis by (auto simp: memory_map_find_free_high_def pow2_def pow2_exp [symmetric])
next
  case True
  then have eq: "memory_map_find_free_high m sz al limit = highest_free (regions m) sz al limit None"
    by (simp add: memory_map_find_free_high_def pow2_def)
  have al: "pow2 al" and sz: "sz \<noteq> 0" using True by auto
  note greatest = find_free_highest [OF assms al sz]
  show ?thesis
  proof (cases "highest_free (regions m) sz al limit None")
    case None
    with greatest(2) [OF None] show ?thesis unfolding eq by auto
  next
    case (Some r)
    with greatest(1) [OF Some] True show ?thesis
      unfolding eq by (auto simp: pow2_exp intro: unat_inj order.antisym)
  qed
qed

lemma find_free_high_highest_witness:
  "memory_map_find_free_high \<lparr>regions = [\<lparr>region_base = 0x800, region_length = 0x3000, region_kind = MEMORY_KIND_USABLE\<rparr>],
     truncated = False\<rparr> 0x1000 0x1000 0x3700 = Some 0x2000 \<and>
   usable_run [\<lparr>region_base = 0x800, region_length = 0x3000, region_kind = MEMORY_KIND_USABLE\<rparr>] 0x2000 0x1000"
proof -
  let ?m = "\<lparr>regions = [\<lparr>region_base = 0x800, region_length = 0x3000, region_kind = MEMORY_KIND_USABLE\<rparr>],
     truncated = False\<rparr>"
  have can: "canonical (regions ?m)" by (simp add: canonical_def region_wf_def)
  have run: "memory_map_find_free_high ?m 0x1000 0x1000 0x3700 = Some 0x2000"
    by (simp add: memory_map_find_free_high_def high_in_region_def region_end_def)
  with find_free_high_highest [OF can, of "0x1000" "0x1000" "0x3700" "0x2000"] show ?thesis by simp
qed

text \<open>
  On a finalized map the lookup of an address answers with the kind claimed for it, and the total
  of a kind is the number of bytes claimed for it, without wrapping around.
\<close>

theorem finalized_map_queries:
  assumes "canonical (regions m)"
  shows "map_option region_kind (memory_map_find m address) = claim (regions m) (unat address) \<and>
    unat (memory_map_total m kind) = card {a. claim (regions m) a = Some kind}"
  using find_region_claim [OF assms] memory_map_total_card [OF assms]
  by (simp add: memory_map_find_def)

lemma finalized_map_queries_witness:
  "map_option region_kind (memory_map_find \<lparr>regions = [\<lparr>region_base = 0x800, region_length = 0x3000,
     region_kind = MEMORY_KIND_USABLE\<rparr>], truncated = False\<rparr> 0x1000) = Some MEMORY_KIND_USABLE \<and>
   card {a. claim [\<lparr>region_base = 0x800, region_length = 0x3000, region_kind = MEMORY_KIND_USABLE\<rparr>] a =
     Some MEMORY_KIND_USABLE} = 0x3000"
proof -
  let ?m = "\<lparr>regions = [\<lparr>region_base = 0x800, region_length = 0x3000, region_kind = MEMORY_KIND_USABLE\<rparr>],
     truncated = False\<rparr>"
  have can: "canonical (regions ?m)" by (simp add: canonical_def region_wf_def)
  have "unat (memory_map_total ?m MEMORY_KIND_USABLE) = 0x3000" by (simp add: memory_map_total_def)
  with finalized_map_queries [OF can, of "0x1000" MEMORY_KIND_USABLE] show ?thesis
    by (simp add: region_span_def)
qed

end
