(* ===== verification/Paging.thy ===== *)
theory Paging
  imports Arena
begin

text \<open>
  \<open>src/memory/paging.c\<close>: the four-level page tables the kernel runs on. Tables live in the flat memory
  of \<open>Mem\<close> and come from an arena; a pointer to a table is its physical address. The functions that
  change state take and return the \<open>struct page_tables\<close> (with the arena it points to) and the memory.
\<close>

abbreviation (input) PAGE_BYTES :: u64 where "PAGE_BYTES \<equiv> 4096"
abbreviation (input) PAGE_LARGE_BYTES :: u64 where "PAGE_LARGE_BYTES \<equiv> 0x200000"
abbreviation (input) PAGE_HUGE_BYTES :: u64 where "PAGE_HUGE_BYTES \<equiv> 0x40000000"
abbreviation (input) PAGE_TABLE_BYTES :: u64 where "PAGE_TABLE_BYTES \<equiv> 4096"
abbreviation (input) PAGE_LEVEL_TABLE :: nat where "PAGE_LEVEL_TABLE \<equiv> 1"
abbreviation (input) PAGE_LEVEL_DIRECTORY :: nat where "PAGE_LEVEL_DIRECTORY \<equiv> 2"
abbreviation (input) PAGE_LEVEL_POINTER :: nat where "PAGE_LEVEL_POINTER \<equiv> 3"
abbreviation (input) PAGE_LEVEL_ROOT :: nat where "PAGE_LEVEL_ROOT \<equiv> 4"
abbreviation (input) PAGE_SHIFT :: nat where "PAGE_SHIFT \<equiv> 12"
abbreviation (input) PAGE_INDEX_BITS :: nat where "PAGE_INDEX_BITS \<equiv> 9"
abbreviation (input) PAGE_INDEX_MASK :: u64 where "PAGE_INDEX_MASK \<equiv> 0x1FF"
abbreviation (input) PAGE_ADDRESS_MASK :: u64 where "PAGE_ADDRESS_MASK \<equiv> 0x000FFFFFFFFFF000"
abbreviation (input) PAGE_PRESENT :: u64 where "PAGE_PRESENT \<equiv> 1"
abbreviation (input) PAGE_WRITABLE :: u64 where "PAGE_WRITABLE \<equiv> 2"
abbreviation (input) PAGE_USER :: u64 where "PAGE_USER \<equiv> 4"
abbreviation (input) PAGE_SIZE_LARGE :: u64 where "PAGE_SIZE_LARGE \<equiv> 0x80"
abbreviation (input) PAGE_NO_EXECUTE :: u64 where "PAGE_NO_EXECUTE \<equiv> 0x8000000000000000"
abbreviation (input) PAGE_INTERMEDIATE_FLAGS :: u64 where "PAGE_INTERMEDIATE_FLAGS \<equiv> 7"
abbreviation (input) PAGE_CANONICAL_BIT :: nat where "PAGE_CANONICAL_BIT \<equiv> 47"

record page_tables =
  pt_arena :: arena
  pt_root :: u64
  pt_huge_pages :: bool

definition index_at :: "u64 \<Rightarrow> nat \<Rightarrow> u64" where
  "index_at virtual level =
     drop_bit (PAGE_SHIFT + PAGE_INDEX_BITS * (level - 1)) virtual AND PAGE_INDEX_MASK"

definition level_span :: "nat \<Rightarrow> u64" where
  "level_span level = push_bit (PAGE_SHIFT + PAGE_INDEX_BITS * (level - 1)) 1"

definition paging_address_is_canonical :: "u64 \<Rightarrow> bool" where
  "paging_address_is_canonical address =
     (let sign = drop_bit PAGE_CANONICAL_BIT address AND 1;
          upper = drop_bit (PAGE_CANONICAL_BIT + 1) address
      in if sign = 0 then upper = 0 else upper = drop_bit (PAGE_CANONICAL_BIT + 1) (-1))"

text \<open>The address of an entry of a table, \<open>&table[index]\<close>.\<close>

definition table_entry :: "u64 \<Rightarrow> u64 \<Rightarrow> u64" where
  "table_entry table index = table + index * 8"

definition allocate_table :: "page_tables \<Rightarrow> mem \<Rightarrow> (u64 \<times> page_tables \<times> mem) option" where
  "allocate_table tables m =
     do { (memory, a) \<leftarrow> arena_allocate_aligned (pt_arena tables) PAGE_TABLE_BYTES PAGE_BYTES;
          Some (memory, tables\<lparr>pt_arena := a\<rparr>, memset memory 0 PAGE_TABLE_BYTES m) }"

definition paging_create :: "arena \<Rightarrow> bool \<Rightarrow> mem \<Rightarrow> (page_tables \<times> mem) option" where
  "paging_create a huge m =
     do { (root, tables, m) \<leftarrow> allocate_table \<lparr>pt_arena = a, pt_root = 0, pt_huge_pages = huge\<rparr> m;
          Some (tables\<lparr>pt_root := root\<rparr>, m) }"

definition descend ::
  "page_tables \<Rightarrow> mem \<Rightarrow> u64 \<Rightarrow> nat \<Rightarrow> u64 \<Rightarrow> bool \<Rightarrow> (u64 \<times> page_tables \<times> mem) option" where
  "descend tables m table level virtual create =
     (let entry_at = table_entry table (index_at virtual level);
          entry = load64 m entry_at
      in if entry AND PAGE_PRESENT \<noteq> 0 then
           (if level > PAGE_LEVEL_TABLE \<and> entry AND PAGE_SIZE_LARGE \<noteq> 0 then None
            else Some (entry AND PAGE_ADDRESS_MASK, tables, m))
         else if \<not> create then None
         else do { (next', tables, m) \<leftarrow> allocate_table tables m;
                   Some (next', tables,
                         store64 m entry_at ((next' AND PAGE_ADDRESS_MASK) OR PAGE_INTERMEDIATE_FLAGS)) })"

definition page_size_for :: "page_tables \<Rightarrow> u64 \<Rightarrow> u64 \<Rightarrow> u64 \<Rightarrow> u64" where
  "page_size_for tables virtual physical remaining =
     (if pt_huge_pages tables \<and> remaining \<ge> PAGE_HUGE_BYTES \<and>
         virtual mod PAGE_HUGE_BYTES = 0 \<and> physical mod PAGE_HUGE_BYTES = 0 then PAGE_HUGE_BYTES
      else if remaining \<ge> PAGE_LARGE_BYTES \<and> virtual mod PAGE_LARGE_BYTES = 0 \<and>
         physical mod PAGE_LARGE_BYTES = 0 then PAGE_LARGE_BYTES
      else PAGE_BYTES)"

definition level_for :: "u64 \<Rightarrow> nat" where
  "level_for page_size =
     (if page_size = PAGE_HUGE_BYTES then PAGE_LEVEL_POINTER
      else if page_size = PAGE_LARGE_BYTES then PAGE_LEVEL_DIRECTORY
      else PAGE_LEVEL_TABLE)"

text \<open>
  The descent of \<open>map_one\<close>, \<open>steps\<close> levels down from \<open>level\<close>. A failed descent keeps the state of the
  levels it did make.
\<close>

fun descend_levels ::
  "nat \<Rightarrow> page_tables \<Rightarrow> mem \<Rightarrow> u64 \<Rightarrow> nat \<Rightarrow> u64 \<Rightarrow> u64 option \<times> page_tables \<times> mem" where
  "descend_levels 0 tables m table level virtual = (Some table, tables, m)"
| "descend_levels (Suc steps) tables m table level virtual =
     (case descend tables m table level virtual True of
        None \<Rightarrow> (None, tables, m)
      | Some (table, tables, m) \<Rightarrow> descend_levels steps tables m table (level - 1) virtual)"

definition map_one ::
  "page_tables \<Rightarrow> mem \<Rightarrow> u64 \<Rightarrow> u64 \<Rightarrow> u64 \<Rightarrow> u64 \<Rightarrow> bool \<times> page_tables \<times> mem" where
  "map_one tables m virtual physical page_size flags =
     (let leaf_level = level_for page_size
      in case descend_levels (PAGE_LEVEL_ROOT - leaf_level) tables m (pt_root tables)
                PAGE_LEVEL_ROOT virtual of
           (None, tables, m) \<Rightarrow> (False, tables, m)
         | (Some table, tables, m) \<Rightarrow>
             (let entry_at = table_entry table (index_at virtual leaf_level)
              in if load64 m entry_at AND PAGE_PRESENT \<noteq> 0 then (False, tables, m)
                 else let value = (physical AND PAGE_ADDRESS_MASK) OR flags OR PAGE_PRESENT;
                          value = (if leaf_level \<noteq> PAGE_LEVEL_TABLE then value OR PAGE_SIZE_LARGE else value)
                      in (True, tables, store64 m entry_at value)))"

text \<open>
  The loop of \<open>paging_map\<close>. Every page it maps has at least 4096 bytes, so \<open>bytes div 4096\<close> turns
  are enough; \<open>paging_map\<close> gives that many.
\<close>

fun map_pages ::
  "nat \<Rightarrow> page_tables \<Rightarrow> mem \<Rightarrow> u64 \<Rightarrow> u64 \<Rightarrow> u64 \<Rightarrow> u64 \<Rightarrow> bool \<times> page_tables \<times> mem" where
  "map_pages fuel tables m virtual physical remaining flags =
     (if \<not> remaining > 0 then (True, tables, m)
      else case fuel of
        0 \<Rightarrow> (False, tables, m)
      | Suc fuel \<Rightarrow>
          (let page_size = page_size_for tables virtual physical remaining
           in case map_one tables m virtual physical page_size flags of
                (False, tables, m) \<Rightarrow> (False, tables, m)
              | (True, tables, m) \<Rightarrow>
                  map_pages fuel tables m (virtual + page_size) (physical + page_size)
                    (remaining - page_size) flags))"

declare map_pages.simps [simp del]

definition paging_map ::
  "page_tables \<Rightarrow> mem \<Rightarrow> u64 \<Rightarrow> u64 \<Rightarrow> u64 \<Rightarrow> u64 \<Rightarrow> bool \<times> page_tables \<times> mem" where
  "paging_map tables m virtual physical bytes flags =
     (if pt_root tables = 0 then (False, tables, m)
      else if bytes = 0 then (False, tables, m)
      else if virtual mod PAGE_BYTES \<noteq> 0 \<or> physical mod PAGE_BYTES \<noteq> 0 then (False, tables, m)
      else if bytes mod PAGE_BYTES \<noteq> 0 then (False, tables, m)
      else case checked_add_u64 virtual bytes of
        None \<Rightarrow> (False, tables, m)
      | Some virtual_end \<Rightarrow>
          if checked_add_u64 physical bytes = None then (False, tables, m)
          else if \<not> paging_address_is_canonical virtual then (False, tables, m)
          else if \<not> paging_address_is_canonical (virtual_end - 1) then (False, tables, m)
          else if flags AND (PAGE_ADDRESS_MASK OR PAGE_SIZE_LARGE) \<noteq> 0 then (False, tables, m)
          else map_pages (unat bytes div 4096) tables m virtual physical bytes flags)"

text \<open>The loop of \<open>paging_translate\<close>, from a table of the given level down.\<close>

fun translate_from :: "mem \<Rightarrow> u64 \<Rightarrow> nat \<Rightarrow> u64 \<Rightarrow> (u64 \<times> u64) option" where
  "translate_from m table 0 virtual = None"
| "translate_from m table (Suc l) virtual =
     (let level = Suc l;
          entry = load64 m (table_entry table (index_at virtual level))
      in if entry AND PAGE_PRESENT = 0 then None
         else let leaf = (level = PAGE_LEVEL_TABLE \<or>
                          (level < PAGE_LEVEL_ROOT \<and> entry AND PAGE_SIZE_LARGE \<noteq> 0))
              in if leaf then
                   let span = (if level = PAGE_LEVEL_TABLE then PAGE_BYTES else level_span level);
                       b = entry AND PAGE_ADDRESS_MASK
                   in Some (b + virtual mod span, entry AND NOT PAGE_ADDRESS_MASK)
                 else translate_from m (entry AND PAGE_ADDRESS_MASK) l virtual)"

definition paging_translate :: "page_tables \<Rightarrow> mem \<Rightarrow> u64 \<Rightarrow> (u64 \<times> u64) option" where
  "paging_translate tables m virtual =
     (if pt_root tables = 0 then None
      else if \<not> paging_address_is_canonical virtual then None
      else translate_from m (pt_root tables) PAGE_LEVEL_ROOT virtual)"

text \<open>The page-table register after \<open>paging_activate\<close>.\<close>

definition paging_activate :: "page_tables \<Rightarrow> u64" where
  "paging_activate tables = pt_root tables"

subsection \<open>Index arithmetic\<close>

text \<open>
  The index at a level and the part of an address above a level's table, on unbounded numbers.
\<close>

definition idx :: "nat \<Rightarrow> nat \<Rightarrow> nat" where
  "idx L v = v div 2 ^ (12 + 9 * (L - 1)) mod 512"

definition pre :: "nat \<Rightarrow> nat \<Rightarrow> nat" where
  "pre L v = v mod 2 ^ 48 div 2 ^ (12 + 9 * L)"

lemma idx_less [simp]: "idx L v < 512"
  by (simp add: idx_def)

lemma pre_root: "pre 4 v = 0"
  by (simp add: pre_def)

lemma pre_step:
  assumes "1 \<le> L" "L \<le> 4"
  shows "pre (L - 1) v = pre L v * 512 + idx L v"
proof -
  define k where "k = 12 + 9 * (L - 1)"
  have k: "12 + 9 * L = k + 9" "k + 9 \<le> 48" "12 + 9 * (L - 1) = k" using assms by (auto simp: k_def)
  define w where "w = v mod 2 ^ 48"
  have "w div 2 ^ k = w div 2 ^ k div 512 * 512 + w div 2 ^ k mod 512" by simp
  also have "w div 2 ^ k div 512 = w div 2 ^ (k + 9)"
    by (simp add: power_add flip: div_mult2_eq)
  also have "w div 2 ^ k mod 512 = v div 2 ^ k mod 512"
  proof -
    have "take_bit 9 (drop_bit k (take_bit 48 v)) = take_bit 9 (drop_bit k v)"
      using k by (simp add: drop_bit_take_bit take_bit_take_bit)
    then show ?thesis by (simp add: w_def take_bit_eq_mod drop_bit_eq_div)
  qed
  finally show ?thesis unfolding pre_def idx_def k w_def .
qed

lemma idx_pre: "1 \<le> L \<Longrightarrow> L \<le> 4 \<Longrightarrow> idx L v = pre (L - 1) v mod 512"
  by (simp add: pre_step del: One_nat_def)

lemma pre_up: "1 \<le> L \<Longrightarrow> L \<le> 4 \<Longrightarrow> pre L v = pre (L - 1) v div 512"
  by (simp add: pre_step del: One_nat_def)

lemma pre_eq_up:
  assumes "pre L v = pre L w" "L \<le> K"
  shows "pre K v = pre K w"
proof -
  have "pre K u = pre L u div 2 ^ (9 * (K - L))" for u
  proof -
    have "12 + 9 * K = (12 + 9 * L) + 9 * (K - L)" using assms(2) by simp
    then show ?thesis unfolding pre_def by (simp only: power_add div_mult2_eq)
  qed
  with assms show ?thesis by simp
qed

lemma index_at_nat: "unat (index_at v L) = idx L (unat v)"
proof -
  have mask: "(0x1FF :: u64) = mask 9" by (simp add: mask_eq_exp_minus_1)
  have "unat (take_bit 9 (drop_bit k v)) = take_bit 9 (drop_bit k (unat v))" for k
    by (simp add: unsigned_take_bit_eq unsigned_drop_bit_eq take_bit_nat_eq_self)
  then show ?thesis
    unfolding index_at_def mask idx_def take_bit_eq_mask [symmetric]
    by (simp only: take_bit_eq_mod drop_bit_eq_div) simp
qed

definition cell :: "u64 \<Rightarrow> nat \<Rightarrow> u64" where
  "cell t i = t + of_nat i * 8"

lemma table_entry_cell: "table_entry t (index_at v L) = cell t (idx L (unat v))"
  by (simp add: table_entry_def cell_def flip: index_at_nat)

lemma page_end: "4096 dvd unat (t :: u64) \<Longrightarrow> unat t + 4096 \<le> 2 ^ 64"
proof -
  assume "4096 dvd unat t"
  then obtain k where k: "unat t = 4096 * k" ..
  from unat_lt64 [of t] show ?thesis unfolding k by simp
qed

lemma cell_nat:
  assumes "4096 dvd unat t" "i < 512"
  shows "unat (cell t i) = unat t + 8 * i"
proof -
  have "unat (of_nat i * 8 :: u64) = i * 8"
    using assms(2) by (simp add: unat_mult_fits unat_of_nat64)
  then show ?thesis using page_end [OF assms(1)] assms(2) by (simp add: cell_def unat_add_fits)
qed

lemma cell_inj:
  assumes "4096 dvd unat t" "4096 dvd unat t'" "i < 512" "j < 512" "cell t i = cell t' j"
  shows "t = t' \<and> i = j"
proof -
  from assms obtain a b where ab: "unat t = 4096 * a" "unat t' = 4096 * b" by (auto elim!: dvdE)
  have "4096 * a + 8 * i = 4096 * b + 8 * j"
    using cell_nat [OF assms(1,3)] cell_nat [OF assms(2,4)] assms(5) ab by simp
  moreover from this have "a = b" using assms(3,4) by (cases a b rule: linorder_cases) linarith+
  ultimately have "a = b" "i = j" by simp_all
  with ab show ?thesis by (simp add: word_unat_eq_iff)
qed

lemma cell_aligned: "4096 dvd unat t \<Longrightarrow> i < 512 \<Longrightarrow> 8 dvd unat (cell t i)"
  by (auto simp: cell_nat elim!: dvdE)

lemma load_store_cell:
  assumes "4096 dvd unat t" "4096 dvd unat t'" "i < 512" "j < 512"
  shows "load64 (store64 m (cell t i) e) (cell t' j) =
    (if t' = t \<and> j = i then e else load64 m (cell t' j))"
  using cell_inj [OF assms] cell_aligned assms by (auto intro: load64_store64_other)

lemma in_page:
  assumes "4096 dvd unat t"
  shows "in_range t 4096 x \<longleftrightarrow> unat x div 4096 = unat t div 4096"
  using assms page_end [OF assms] by (auto simp: in_range_nat elim!: dvdE)

lemma cell_in_page:
  assumes "4096 dvd unat t" "i < 512" "in_range (cell t i) 8 x"
  shows "in_range t 4096 x"
proof -
  have "unat (cell t i) + 8 \<le> 2 ^ 64" using cell_nat [OF assms(1,2)] page_end [OF assms(1)] assms(2) by simp
  with assms show ?thesis
    using page_end [OF assms(1)] cell_nat [OF assms(1,2)] by (auto simp: in_range_nat)
qed

lemma load_zeroed_cell:
  assumes "4096 dvd unat n" "4096 dvd unat t" "i < 512"
  shows "load64 (memset n 0 4096 m) (cell t i) = (if t = n then 0 else load64 m (cell t i))"
proof (cases "t = n")
  case True
  then show ?thesis
    using cell_in_page [OF assms(2,3)] by (auto simp: memset_eq intro: load64_zero)
next
  case False
  have "load64 (memset n 0 4096 m) (cell t i) = load64 m (cell t i)"
  proof (rule load64_cong)
    fix x assume "in_range (cell t i) 8 x"
    then have "in_range t 4096 x" by (rule cell_in_page [OF assms(2,3)])
    moreover have "unat t div 4096 \<noteq> unat n div 4096"
      using False assms by (metis dvd_div_mult_self unat_inj)
    ultimately show "memset n 0 4096 m x = m x"
      using assms by (auto simp: memset_eq in_page)
  qed
  with False show ?thesis by simp
qed

subsection \<open>Entries\<close>

definition present :: "u64 \<Rightarrow> bool" where
  "present e \<longleftrightarrow> e AND PAGE_PRESENT \<noteq> 0"

definition large :: "u64 \<Rightarrow> bool" where
  "large e \<longleftrightarrow> e AND PAGE_SIZE_LARGE \<noteq> 0"

definition intermediate :: "u64 \<Rightarrow> bool" where
  "intermediate e \<longleftrightarrow> present e \<and> \<not> large e"

lemma zero_not_present [simp]: "\<not> present 0"
  by (simp add: present_def)

lemma address_mask: "(0x000FFFFFFFFFF000 :: u64) = mask 52 AND NOT (mask 12)"
  by (simp add: mask_eq_exp_minus_1)

lemma address_kept:
  assumes "4096 dvd unat p" "unat p < 2 ^ 52"
  shows "p AND PAGE_ADDRESS_MASK = p"
proof -
  have "unat (take_bit 52 p) = unat p" using assms(2) by (simp add: unsigned_take_bit_eq take_bit_nat_eq_self)
  then have "p AND mask 52 = p" by (simp add: take_bit_eq_mask unat_inj)
  moreover have "unat (p AND NOT (4096 - 1)) = unat p div 2 ^ 12 * 2 ^ 12"
    by (rule unat_and_not_mask) simp
  then have "unat (p AND NOT (mask 12)) = unat p" using assms(1) by (simp add: mask_eq_exp_minus_1)
  ultimately show ?thesis unfolding address_mask by (metis and.assoc unat_inj)
qed

lemma intermediate_entry:
  assumes "4096 dvd unat p" "unat p < 2 ^ 52"
  defines "e \<equiv> (p AND PAGE_ADDRESS_MASK) OR PAGE_INTERMEDIATE_FLAGS"
  shows "e AND PAGE_ADDRESS_MASK = p" "present e" "\<not> large e"
proof -
  show "e AND PAGE_ADDRESS_MASK = p"
    using address_kept [OF assms(1,2)] by (simp add: e_def bit.conj_disj_distrib2 and.assoc)
  have "e AND 1 = 1"
    by (simp add: e_def bit.conj_disj_distrib2 and.assoc)
  then show "present e" by (simp add: present_def)
  show "\<not> large e" by (simp add: large_def e_def bit.conj_disj_distrib2 and.assoc)
qed

text \<open>The leaf entry \<open>map_one\<close> writes.\<close>

definition leaf_value :: "u64 \<Rightarrow> u64 \<Rightarrow> nat \<Rightarrow> u64" where
  "leaf_value physical flags level =
     (let value = (physical AND PAGE_ADDRESS_MASK) OR flags OR PAGE_PRESENT
      in if level \<noteq> PAGE_LEVEL_TABLE then value OR PAGE_SIZE_LARGE else value)"

lemma leaf_value_present: "present (leaf_value p f L)"
proof -
  have "x OR 1 = 0 \<longleftrightarrow> False" for x :: u64
    by (metis or_eq_0_iff zero_neq_one)
  then show ?thesis
    by (simp add: present_def leaf_value_def Let_def bit.conj_disj_distrib2)
qed

lemma leaf_value_large: "L \<noteq> 1 \<Longrightarrow> large (leaf_value p f L)"
proof -
  have "x OR 128 = 0 \<longleftrightarrow> False" for x :: u64
    by (simp add: or_eq_0_iff)
  then show "L \<noteq> 1 \<Longrightarrow> large (leaf_value p f L)"
    by (simp add: large_def leaf_value_def Let_def bit.conj_disj_distrib2)
qed

text \<open>The entry keeps the bits of the address up to bit 51.\<close>

lemma address_cut:
  assumes "4096 dvd unat p"
  shows "unat (p AND PAGE_ADDRESS_MASK) = unat p mod 2 ^ 52"
proof -
  have "unat (take_bit 52 p) = unat p mod 2 ^ 52" by (simp only: unsigned_take_bit_eq) (simp add: take_bit_eq_mod)
  moreover have "4096 dvd unat p mod 2 ^ 52" using assms by (simp add: dvd_mod)
  ultimately have "take_bit 52 p AND PAGE_ADDRESS_MASK = take_bit 52 p" by (intro address_kept) simp_all
  moreover have "take_bit 52 p AND PAGE_ADDRESS_MASK = p AND PAGE_ADDRESS_MASK"
    unfolding address_mask by (simp add: take_bit_eq_mask and.assoc)
  ultimately show ?thesis using \<open>unat (take_bit 52 p) = _\<close> by simp
qed

lemma leaf_value_address:
  assumes "f AND (PAGE_ADDRESS_MASK OR PAGE_SIZE_LARGE) = 0"
  shows "leaf_value p f L AND PAGE_ADDRESS_MASK = p AND PAGE_ADDRESS_MASK"
    "leaf_value p f L AND NOT PAGE_ADDRESS_MASK = f OR PAGE_PRESENT OR (if L \<noteq> 1 then PAGE_SIZE_LARGE else 0)"
proof -
  have fm: "f AND PAGE_ADDRESS_MASK = 0"
  proof -
    have "(f AND (PAGE_ADDRESS_MASK OR PAGE_SIZE_LARGE)) AND PAGE_ADDRESS_MASK = f AND PAGE_ADDRESS_MASK"
      by (simp add: and.assoc)
    with assms show ?thesis by simp
  qed
  have "f = (f AND PAGE_ADDRESS_MASK) OR (f AND NOT PAGE_ADDRESS_MASK)"
    by (simp flip: bit.conj_disj_distrib)
  then have fn: "f AND NOT PAGE_ADDRESS_MASK = f" using fm by simp
  show "leaf_value p f L AND PAGE_ADDRESS_MASK = p AND PAGE_ADDRESS_MASK"
    by (simp add: leaf_value_def Let_def bit.conj_disj_distrib2 and.assoc fm)
  show "leaf_value p f L AND NOT PAGE_ADDRESS_MASK = f OR PAGE_PRESENT OR (if L \<noteq> 1 then PAGE_SIZE_LARGE else 0)"
    using fn by (simp add: leaf_value_def Let_def bit.conj_disj_distrib2 and.assoc or.assoc)
qed

subsection \<open>Walking the tables\<close>

text \<open>
  \<open>leaf\<close> is the leaf entry a walk ends at, with its level; \<open>walk\<close> goes a number of levels down
  through intermediate entries. Both take the address as an unbounded number, of which they read
  only the 48 bits the indices cover.
\<close>

fun leaf :: "mem \<Rightarrow> u64 \<Rightarrow> nat \<Rightarrow> nat \<Rightarrow> (u64 \<times> nat) option" where
  "leaf m t 0 v = None"
| "leaf m t (Suc l) v =
     (let e = load64 m (cell t (idx (Suc l) v))
      in if \<not> present e then None
         else if Suc l = 1 \<or> (Suc l < 4 \<and> large e) then Some (e, Suc l)
         else leaf m (e AND PAGE_ADDRESS_MASK) l v)"

fun walk :: "mem \<Rightarrow> u64 \<Rightarrow> nat \<Rightarrow> nat \<Rightarrow> nat \<Rightarrow> u64 option" where
  "walk m t L v 0 = Some t"
| "walk m t L v (Suc n) =
     (let e = load64 m (cell t (idx L v))
      in if intermediate e then walk m (e AND PAGE_ADDRESS_MASK) (L - 1) v n else None)"

lemma translate_from_leaf:
  "translate_from m t l v =
     map_option (\<lambda>(e, L). ((e AND PAGE_ADDRESS_MASK) + v mod (if L = 1 then 4096 else level_span L),
       e AND NOT PAGE_ADDRESS_MASK)) (leaf m t l (unat v))"
proof (induction m t l v rule: translate_from.induct)
  case (2 m t l v)
  show ?case
    using 2 by (auto simp: Let_def table_entry_cell present_def large_def)
qed simp

lemma walk_leaf: "walk m t L v n = Some t' \<Longrightarrow> n < L \<Longrightarrow> leaf m t L v = leaf m t' (L - n) v"
proof (induction n arbitrary: t L)
  case (Suc n)
  let ?e = "load64 m (cell t (idx L v))"
  from Suc.prems obtain l where L: "L = Suc l" "1 \<le> l" by (cases L) auto
  have e: "intermediate ?e" "walk m (?e AND PAGE_ADDRESS_MASK) l v n = Some t'"
    using Suc.prems(1) L by (auto simp: Let_def split: if_splits)
  have "leaf m t L v = leaf m (?e AND PAGE_ADDRESS_MASK) l v"
    using e(1) L by (simp add: Let_def intermediate_def)
  with Suc.IH [OF e(2)] Suc.prems(2) L show ?case by simp
qed simp

lemma walk_cong:
  "walk m t L v n = Some t' \<Longrightarrow> n \<le> L \<Longrightarrow> L \<le> 4 \<Longrightarrow> pre (L - n) v = pre (L - n) w \<Longrightarrow> walk m t L w n = Some t'"
proof (induction n arbitrary: t L)
  case (Suc n)
  have L: "1 \<le> L" "L \<le> 4" using Suc.prems(2,3) by auto
  have "pre (L - 1) v = pre (L - 1) w"
    by (rule pre_eq_up [OF Suc.prems(4)]) (use Suc.prems(2) in arith)
  then have i: "idx L v = idx L w" unfolding idx_pre [OF L] by simp
  let ?e = "load64 m (cell t (idx L v))"
  have e: "intermediate ?e" "walk m (?e AND PAGE_ADDRESS_MASK) (L - 1) v n = Some t'"
    using Suc.prems(1) by (auto simp: Let_def split: if_splits)
  have "walk m (?e AND PAGE_ADDRESS_MASK) (L - 1) w n = Some t'"
  proof (rule Suc.IH [OF e(2)])
    show "n \<le> L - 1" "L - 1 \<le> 4" using Suc.prems(2,3) by auto
    show "pre (L - 1 - n) v = pre (L - 1 - n) w" using Suc.prems(4) by simp
  qed
  with e(1) show ?case by (simp add: Let_def i)
qed simp

lemma walk_append: "walk m t L v (a + b) = Option.bind (walk m t L v a) (\<lambda>t'. walk m t' (L - a) v b)"
proof (induction a arbitrary: t L)
  case (Suc a)
  show ?case
  proof (cases "intermediate (load64 m (cell t (idx L v)))")
    case True
    with Suc show ?thesis by (simp add: Let_def)
  qed (simp add: Let_def)
qed simp

subsection \<open>The invariant\<close>

text \<open>
  A ghost map gives every table its level and the address prefix it serves. Tables are pages of the
  used part of the arena, no two serve the same prefix at one level, an intermediate entry leads to
  the table of the next level for the prefix extended by its index, and every table but the root is
  led to in this way.
\<close>

type_synonym table_map = "u64 \<Rightarrow> (nat \<times> nat) option"

definition pt_inv :: "nat \<Rightarrow> page_tables \<Rightarrow> mem \<Rightarrow> table_map \<Rightarrow> bool" where
  "pt_inv F tables m pos \<longleftrightarrow>
     arena_wf (pt_arena tables) \<and>
     unat (base (pt_arena tables)) + unat (capacity (pt_arena tables)) \<le> 2 ^ 52 \<and>
     unat (base (pt_arena tables)) \<le> F \<and> F \<le> unat (base (pt_arena tables)) + unat (used (pt_arena tables)) \<and>
     pos (pt_root tables) = Some (4, 0) \<and>
     (\<forall>t L p. pos t = Some (L, p) \<longrightarrow> 1 \<le> L \<and> L \<le> 4 \<and> 4096 dvd unat t \<and>
        F \<le> unat t \<and> unat t + 4096 \<le> unat (base (pt_arena tables)) + unat (used (pt_arena tables))) \<and>
     (\<forall>t t' x. pos t = Some x \<and> pos t' = Some x \<longrightarrow> t = t') \<and>
     (\<forall>t L p i. pos t = Some (L, p) \<and> i < 512 \<and> present (load64 m (cell t i)) \<longrightarrow>
        (if large (load64 m (cell t i)) \<or> L = 1 then L \<noteq> 4
         else pos (load64 m (cell t i) AND PAGE_ADDRESS_MASK) = Some (L - 1, p * 512 + i))) \<and>
     (\<forall>t' K q. pos t' = Some (K, q) \<and> K < 4 \<longrightarrow>
        (\<exists>t. pos t = Some (K + 1, q div 512) \<and> intermediate (load64 m (cell t (q mod 512))) \<and>
             load64 m (cell t (q mod 512)) AND PAGE_ADDRESS_MASK = t'))"

lemma pt_invD:
  assumes "pt_inv F tables m pos"
  shows "arena_wf (pt_arena tables)"
    "unat (base (pt_arena tables)) + unat (capacity (pt_arena tables)) \<le> 2 ^ 52"
    "pos (pt_root tables) = Some (4, 0)"
    "pos t = Some (L, p) \<Longrightarrow> 1 \<le> L \<and> L \<le> 4 \<and> 4096 dvd unat t"
    "pos t = Some (L, p) \<Longrightarrow> F \<le> unat t \<and>
        unat t + 4096 \<le> unat (base (pt_arena tables)) + unat (used (pt_arena tables))"
    "pos t = Some x \<Longrightarrow> pos t' = Some x \<Longrightarrow> t = t'"
    "pos t = Some (4, p) \<Longrightarrow> i < 512 \<Longrightarrow> present (load64 m (cell t i)) \<Longrightarrow> \<not> large (load64 m (cell t i))"
    "pos t = Some (L, p) \<Longrightarrow> i < 512 \<Longrightarrow> present (load64 m (cell t i)) \<Longrightarrow> \<not> large (load64 m (cell t i)) \<Longrightarrow>
      L \<noteq> 1 \<Longrightarrow> pos (load64 m (cell t i) AND PAGE_ADDRESS_MASK) = Some (L - 1, p * 512 + i)"
    "pos t' = Some (K, q) \<Longrightarrow> K < 4 \<Longrightarrow> \<exists>t. pos t = Some (K + 1, q div 512) \<and>
      intermediate (load64 m (cell t (q mod 512))) \<and> load64 m (cell t (q mod 512)) AND PAGE_ADDRESS_MASK = t'"
    "unat (base (pt_arena tables)) \<le> F" "F \<le> unat (base (pt_arena tables)) + unat (used (pt_arena tables))"
  using assms unfolding pt_inv_def by (blast | metis)+

lemma walk_pos:
  assumes inv: "pt_inv F tables m pos"
  shows "walk m t L v n = Some t' \<Longrightarrow> pos t = Some (L, pre L v) \<Longrightarrow> n < L \<Longrightarrow>
    pos t' = Some (L - n, pre (L - n) v)"
proof (induction n arbitrary: t L)
  case (Suc n)
  let ?e = "load64 m (cell t (idx L v))"
  have e: "present ?e" "\<not> large ?e" and rest: "walk m (?e AND PAGE_ADDRESS_MASK) (L - 1) v n = Some t'"
    using Suc.prems(1) by (auto simp: Let_def intermediate_def split: if_splits)
  have L: "1 \<le> L" "L \<le> 4" "L \<noteq> 1" using pt_invD(4) [OF inv Suc.prems(2)] Suc.prems(3) by auto
  have "pos (?e AND PAGE_ADDRESS_MASK) = Some (L - 1, pre (L - 1) v)"
    using pt_invD(8) [OF inv Suc.prems(2) _ e L(3)] pre_step [OF L(1,2), of v] by simp
  from Suc.IH [OF rest this] Suc.prems(3) show ?case by simp
qed simp

text \<open>Writing an entry changes only the walks that read it.\<close>

lemma leaf_store:
  assumes inv: "pt_inv F tables m pos" and t: "pos t = Some (L, p)" and i: "i < 512"
  shows "pos t0 = Some (L0, pre L0 v) \<Longrightarrow> \<not> (L \<le> L0 \<and> pre L v = p \<and> idx L v = i) \<Longrightarrow>
    leaf (store64 m (cell t i) e) t0 L0 v = leaf m t0 L0 v"
proof (induction L0 arbitrary: t0)
  case (Suc l)
  let ?i = "idx (Suc l) v"
  let ?e = "load64 m (cell t0 ?i)"
  note al = pt_invD(4) [OF inv Suc.prems(1)] pt_invD(4) [OF inv t]
  have "\<not> (t0 = t \<and> ?i = i)" using Suc.prems t by auto
  then have eq: "load64 (store64 m (cell t i) e) (cell t0 ?i) = ?e"
    using al i by (subst load_store_cell) auto
  have "leaf (store64 m (cell t i) e) (?e AND PAGE_ADDRESS_MASK) l v = leaf m (?e AND PAGE_ADDRESS_MASK) l v"
    if "present ?e" "\<not> (Suc l = 1 \<or> (Suc l < 4 \<and> large ?e))"
  proof (rule Suc.IH)
    have "\<not> large ?e"
      using that al pt_invD(7) [OF inv] Suc.prems(1) by (cases "Suc l = 4") auto
    then show "pos (?e AND PAGE_ADDRESS_MASK) = Some (l, pre l v)"
      using pt_invD(8) [OF inv Suc.prems(1) _ that(1)] that(2) pre_step [of "Suc l" v] al by simp
    show "\<not> (L \<le> l \<and> pre L v = p \<and> idx L v = i)" using Suc.prems(2) by auto
  qed
  then show ?case using eq by (simp add: Let_def)
qed simp

lemma walk_store:
  assumes inv: "pt_inv F tables m pos" and t: "pos t = Some (L, p)" and i: "i < 512"
    and old: "load64 m (cell t i) = e \<or> \<not> present (load64 m (cell t i))"
  shows "pos t0 = Some (L0, pre L0 v) \<Longrightarrow> n < L0 \<Longrightarrow> walk m t0 L0 v n = Some t1 \<Longrightarrow>
    walk (store64 m (cell t i) e) t0 L0 v n = Some t1"
proof (induction n arbitrary: t0 L0)
  case (Suc n)
  let ?i = "idx L0 v"
  let ?e = "load64 m (cell t0 ?i)"
  note al = pt_invD(4) [OF inv Suc.prems(1)] pt_invD(4) [OF inv t]
  have e: "present ?e" "\<not> large ?e" and rest: "walk m (?e AND PAGE_ADDRESS_MASK) (L0 - 1) v n = Some t1"
    using Suc.prems(3) by (auto simp: Let_def intermediate_def split: if_splits)
  have eq: "load64 (store64 m (cell t i) e) (cell t0 ?i) = ?e"
    using al i old e by (auto simp: load_store_cell)
  have "pos (?e AND PAGE_ADDRESS_MASK) = Some (L0 - 1, pre (L0 - 1) v)"
    using pt_invD(8) [OF inv Suc.prems(1) _ e] pre_step [of L0 v] al Suc.prems(2) by simp
  from Suc.IH [OF this _ rest] Suc.prems(2) e show ?case by (simp add: Let_def eq intermediate_def)
qed simp

subsection \<open>Making a table\<close>

definition same_tables :: "table_map \<Rightarrow> mem \<Rightarrow> mem \<Rightarrow> bool" where
  "same_tables pos m m' \<longleftrightarrow>
     (\<forall>t i. pos t \<noteq> None \<longrightarrow> i < 512 \<longrightarrow> load64 m' (cell t i) = load64 m (cell t i))"

lemma leaf_same:
  assumes inv: "pt_inv F tables m pos" and same: "same_tables pos m m'"
  shows "pos t0 = Some (L0, pre L0 v) \<Longrightarrow> leaf m' t0 L0 v = leaf m t0 L0 v"
proof (induction L0 arbitrary: t0)
  case (Suc l)
  let ?e = "load64 m (cell t0 (idx (Suc l) v))"
  note al = pt_invD(4) [OF inv Suc.prems(1)]
  have eq: "load64 m' (cell t0 (idx (Suc l) v)) = ?e" using same Suc.prems by (simp add: same_tables_def)
  have "leaf m' (?e AND PAGE_ADDRESS_MASK) l v = leaf m (?e AND PAGE_ADDRESS_MASK) l v"
    if "present ?e" "\<not> (Suc l = 1 \<or> (Suc l < 4 \<and> large ?e))"
  proof (rule Suc.IH)
    have "\<not> large ?e" using that al pt_invD(7) [OF inv] Suc.prems(1) by (cases "Suc l = 4") auto
    then show "pos (?e AND PAGE_ADDRESS_MASK) = Some (l, pre l v)"
      using pt_invD(8) [OF inv Suc.prems(1) _ that(1)] that(2) pre_step [of "Suc l" v] al by simp
  qed
  then show ?case using eq by (simp add: Let_def)
qed simp

lemma walk_same:
  assumes inv: "pt_inv F tables m pos" and same: "same_tables pos m m'"
  shows "pos t0 = Some (L0, pre L0 v) \<Longrightarrow> n < L0 \<Longrightarrow> walk m t0 L0 v n = Some t1 \<Longrightarrow> walk m' t0 L0 v n = Some t1"
proof (induction n arbitrary: t0 L0)
  case (Suc n)
  let ?e = "load64 m (cell t0 (idx L0 v))"
  note al = pt_invD(4) [OF inv Suc.prems(1)]
  have eq: "load64 m' (cell t0 (idx L0 v)) = ?e" using same Suc.prems by (simp add: same_tables_def)
  have e: "present ?e" "\<not> large ?e" and rest: "walk m (?e AND PAGE_ADDRESS_MASK) (L0 - 1) v n = Some t1"
    using Suc.prems(3) by (auto simp: Let_def intermediate_def split: if_splits)
  have "pos (?e AND PAGE_ADDRESS_MASK) = Some (L0 - 1, pre (L0 - 1) v)"
    using pt_invD(8) [OF inv Suc.prems(1) _ e] pre_step [of L0 v] al Suc.prems(2) by simp
  from Suc.IH [OF this _ rest] Suc.prems(2) e show ?case by (simp add: Let_def eq intermediate_def)
qed simp

lemma pt_inv_same: "pt_inv F tables m pos \<Longrightarrow> same_tables pos m m' \<Longrightarrow> pt_inv F tables m' pos"
proof -
  assume inv: "pt_inv F tables m pos" and same: "same_tables pos m m'"
  have eq: "load64 m' (cell t i) = load64 m (cell t i)" if "pos t = Some x" "i < 512" for t x i
    using same that by (simp add: same_tables_def)
  have up: "\<exists>t. pos t = Some (K + 1, q div 512) \<and> intermediate (load64 m' (cell t (q mod 512))) \<and>
      load64 m' (cell t (q mod 512)) AND PAGE_ADDRESS_MASK = t'" if "pos t' = Some (K, q) \<and> K < 4" for t' K q
  proof -
    from pt_invD(9) [OF inv] that obtain t where t: "pos t = Some (K + 1, q div 512)"
      "intermediate (load64 m (cell t (q mod 512)))" "load64 m (cell t (q mod 512)) AND PAGE_ADDRESS_MASK = t'" by blast
    have "load64 m' (cell t (q mod 512)) = load64 m (cell t (q mod 512))" by (rule eq [OF t(1)]) simp
    with t show ?thesis by (intro exI [of _ t]) simp
  qed
  have down: "if large (load64 m' (cell t i)) \<or> L = 1 then L \<noteq> 4
         else pos (load64 m' (cell t i) AND PAGE_ADDRESS_MASK) = Some (L - 1, p * 512 + i)"
    if "pos t = Some (L, p) \<and> i < 512 \<and> present (load64 m' (cell t i))" for t L p i
    using inv that eq [of t "(L, p)" i] unfolding pt_inv_def by simp
  show "pt_inv F tables m' pos"
    using inv up down unfolding pt_inv_def by blast
qed

text \<open>Memory outside the arena is not touched, and the arena stays where it was.\<close>

definition arena_frame :: "nat \<Rightarrow> page_tables \<Rightarrow> mem \<Rightarrow> page_tables \<Rightarrow> mem \<Rightarrow> bool" where
  "arena_frame F tables m tables' m' \<longleftrightarrow>
     pt_root tables' = pt_root tables \<and> pt_huge_pages tables' = pt_huge_pages tables \<and>
     base (pt_arena tables') = base (pt_arena tables) \<and>
     capacity (pt_arena tables') = capacity (pt_arena tables) \<and>
     (\<forall>x. \<not> (F \<le> unat x \<and> unat x < unat (base (pt_arena tables)) + unat (capacity (pt_arena tables))) \<longrightarrow> m' x = m x)"

lemma arena_frame_refl [simp]: "arena_frame F tables m tables m"
  by (simp add: arena_frame_def)

lemma arena_frame_trans:
  "arena_frame F a m b m' \<Longrightarrow> arena_frame F b m' c m'' \<Longrightarrow> arena_frame F a m c m''"
  by (auto simp: arena_frame_def)

lemma allocate_table_spec:
  assumes wf: "arena_wf (pt_arena tables)"
    and end52: "unat (base (pt_arena tables)) + unat (capacity (pt_arena tables)) \<le> 2 ^ 52"
    and al: "allocate_table tables m = Some (n, tables', m')"
    and F: "F \<le> unat (base (pt_arena tables)) + unat (used (pt_arena tables))"
  shows "m' = memset n 0 4096 m" "4096 dvd unat n" "unat n + 4096 \<le> 2 ^ 52"
    "unat (base (pt_arena tables)) + unat (used (pt_arena tables)) \<le> unat n"
    "unat (base (pt_arena tables)) + unat (used (pt_arena tables')) = unat n + 4096"
    "arena_wf (pt_arena tables')" "arena_frame F tables m tables' m'"
    "tables' = tables\<lparr>pt_arena := pt_arena tables'\<rparr>"
proof -
  from al obtain a where a: "arena_allocate_aligned (pt_arena tables) 4096 4096 = Some (n, a)"
    and t: "tables' = tables\<lparr>pt_arena := a\<rparr>" and m: "m' = memset n 0 4096 m"
    by (auto simp: allocate_table_def opt_bind)
  note s = arena_allocate_aligned_Some [OF wf a]
  show "m' = memset n 0 4096 m" by (rule m)
  show "4096 dvd unat n" using s(7) by simp
  have "unat n \<in> span n 4096" "unat n + 4095 \<in> span n 4096" by (simp_all add: span_def)
  with s(5) have n: "unat (base (pt_arena tables)) + unat (used (pt_arena tables)) \<le> unat n"
    "unat n + 4095 < unat (base (pt_arena tables)) + unat (capacity (pt_arena tables))"
    by (auto simp: arena_free_def)
  then show "unat (base (pt_arena tables)) + unat (used (pt_arena tables)) \<le> unat n" by simp
  show n52: "unat n + 4096 \<le> 2 ^ 52" using n end52 by linarith
  show "unat (base (pt_arena tables)) + unat (used (pt_arena tables')) = unat n + 4096"
    using s(8) t by simp
  show "arena_wf (pt_arena tables')" using s(1) t by simp
  have "\<not> in_range n 4096 x" if "\<not> (F \<le> unat x \<and> unat x < unat (base (pt_arena tables)) + unat (capacity (pt_arena tables)))" for x
  proof
    assume "in_range n 4096 x"
    then have "unat n \<le> unat x" "unat x < unat n + 4096" using n52 in_range_nat [of n 4096 x] by auto
    with that n F show False by linarith
  qed
  then show "arena_frame F tables m tables' m'"
    using s t by (auto simp: arena_frame_def m memset_eq)
  show "tables' = tables\<lparr>pt_arena := pt_arena tables'\<rparr>" using t by simp
qed

lemma store_cell_frame:
  assumes "4096 dvd unat t" "i < 512" "F \<le> unat t" "unat t + 4096 \<le> k"
    and "\<not> (F \<le> unat x \<and> unat x < k)"
  shows "store64 m (cell t i) e x = m x"
proof (rule store64_outside)
  show "\<not> in_range (cell t i) 8 x"
    using cell_in_page [OF assms(1,2), of x] in_range_nat [OF page_end [OF assms(1)], of x] assms(3-5) by auto
qed

text \<open>A table that is not in use yet lies apart from those that are.\<close>

lemma fresh_table:
  assumes inv: "pt_inv F tables m pos" and above: "unat (base (pt_arena tables)) + unat (used (pt_arena tables)) \<le> unat t'"
  shows "pos t' = None"
proof (cases "pos t'")
  case (Some x)
  with pt_invD(5) [OF inv, of t' "fst x" "snd x"] above show ?thesis by simp
qed simp

text \<open>Memory after a table has been cleared at \<open>t'\<close> and linked from entry \<open>i\<close> of \<open>t\<close>.\<close>

lemma cleared_table:
  assumes inv: "pt_inv F tables m pos" and fresh: "pos t' = None" and al: "4096 dvd unat t'"
  shows "same_tables pos m (memset t' 0 4096 m)"
  unfolding same_tables_def
proof (intro allI impI)
  fix s j assume s: "pos s \<noteq> None" and j: "j < (512 :: nat)"
  then obtain K q where "pos s = Some (K, q)" by auto
  with pt_invD(4) [OF inv this] fresh s show "load64 (memset t' 0 4096 m) (cell s j) = load64 m (cell s j)"
    using load_zeroed_cell [OF al, of s j m] j by auto
qed

lemma linked_loads:
  assumes inv: "pt_inv F tables m pos" and fresh: "pos t' = None" and al: "4096 dvd unat t'"
    and t: "pos t = Some (L, p)" and i: "i < 512" and s: "s = t' \<or> pos s \<noteq> None" and j: "j < 512"
  shows "load64 (store64 (memset t' 0 4096 m) (cell t i) e) (cell s j) =
    (if s = t' then 0 else if s = t \<and> j = i then e else load64 m (cell s j))"
proof -
  have tt': "t \<noteq> t'" using fresh t by auto
  have s: "4096 dvd unat s" using s al pt_invD(4) [OF inv, of s] by (cases "s = t'") auto
  have "load64 (store64 (memset t' 0 4096 m) (cell t i) e) (cell s j) =
      (if s = t \<and> j = i then e else load64 (memset t' 0 4096 m) (cell s j))"
    using pt_invD(4) [OF inv t] s i j by (simp add: load_store_cell)
  moreover have "load64 (memset t' 0 4096 m) (cell s j) = (if s = t' then 0 else load64 m (cell s j))"
    by (rule load_zeroed_cell [OF al s j])
  ultimately show ?thesis using tt' by (cases "s = t'") auto
qed

lemma linked_table:
  assumes inv: "pt_inv F tables m pos" and t: "pos t = Some (L, p0)" and L: "1 < L" and i: "i < 512"
    and absent: "\<not> present (load64 m (cell t i))"
    and a: "4096 dvd unat t'" "unat (base (pt_arena tables)) + unat (used (pt_arena tables)) \<le> unat t'"
      "unat (base (pt_arena tables)) + unat (used (pt_arena tables')) = unat t' + 4096"
      "arena_wf (pt_arena tables')" "arena_frame F tables m tables' m1"
    and e: "e AND PAGE_ADDRESS_MASK = t'" "intermediate e"
    and loads: "\<And>s j. s = t' \<or> pos s \<noteq> None \<Longrightarrow> j < 512 \<Longrightarrow>
        load64 m' (cell s j) = (if s = t' then 0 else if s = t \<and> j = i then e else load64 m (cell s j))"
  shows "pt_inv F tables' m' (pos(t' \<mapsto> (L - 1, p0 * 512 + i)))"
proof -
  note Lb = pt_invD(4) [OF inv t]
  note fresh = fresh_table [OF inv a(2)]
  define pos' where "pos' = pos(t' \<mapsto> (L - 1, p0 * 512 + i))"
  have pos': "pos' s = (if s = t' then Some (L - 1, p0 * 512 + i) else pos s)" for s
    by (simp add: pos'_def)
  have tt': "t \<noteq> t'" using fresh t by auto
  have root: "pt_root tables \<noteq> t'" using fresh pt_invD(3) [OF inv] by auto
  have no_twin: "pos s \<noteq> Some (L - 1, p0 * 512 + i)" for s
  proof
    assume s: "pos s = Some (L - 1, p0 * 512 + i)"
    have "(p0 * 512 + i) div 512 = p0" "(p0 * 512 + i) mod 512 = i" using i by simp_all
    moreover have "L - 1 < 4" "L - 1 + 1 = L" using L Lb by arith+
    ultimately obtain u where "pos u = Some (L, p0)" "intermediate (load64 m (cell u i))"
      using pt_invD(9) [OF inv s] by metis
    with pt_invD(6) [OF inv _ t] absent show False by (auto simp: intermediate_def)
  qed
  show ?thesis
    unfolding pt_inv_def pos'_def [symmetric]
  proof (intro conjI allI impI)
    show "arena_wf (pt_arena tables')" by (rule a(4))
    show "unat (base (pt_arena tables')) + unat (capacity (pt_arena tables')) \<le> 2 ^ 52"
      using a(5) pt_invD(2) [OF inv] by (simp add: arena_frame_def)
    show "unat (base (pt_arena tables')) \<le> F" "F \<le> unat (base (pt_arena tables')) + unat (used (pt_arena tables'))"
      using a(2,3,5) pt_invD(10,11) [OF inv] by (simp_all add: arena_frame_def)
    show "pos' (pt_root tables') = Some (4, 0)"
      using a(5) pt_invD(3) [OF inv] root by (simp add: arena_frame_def pos')
  next
    fix s K q assume s: "pos' s = Some (K, q)"
    have b: "base (pt_arena tables') = base (pt_arena tables)" using a(5) by (simp add: arena_frame_def)
    show "1 \<le> K" "K \<le> 4" "4096 dvd unat s"
      using s L Lb a(1) pt_invD(4) [OF inv, of s K q] by (auto simp: pos' split: if_splits)
    show "F \<le> unat s"
      "unat s + 4096 \<le> unat (base (pt_arena tables')) + unat (used (pt_arena tables'))"
      using s a(2,3) pt_invD(5) [OF inv, of s K q] pt_invD(11) [OF inv] unfolding b by (auto simp: pos' split: if_splits)
  next
    fix s u x assume "pos' s = Some x \<and> pos' u = Some x"
    with no_twin pt_invD(6) [OF inv, of s x u] show "s = u" by (auto simp: pos' split: if_splits)
  next
    fix s K q j assume *: "pos' s = Some (K, q) \<and> j < 512 \<and> present (load64 m' (cell s j))"
    then have st': "s \<noteq> t'" using loads [of s j] by (auto simp: pos' split: if_splits)
    then have s: "pos s = Some (K, q)" using * by (simp add: pos')
    show "if large (load64 m' (cell s j)) \<or> K = 1 then K \<noteq> 4
      else pos' (load64 m' (cell s j) AND PAGE_ADDRESS_MASK) = Some (K - 1, q * 512 + j)"
    proof (cases "s = t \<and> j = i")
      case True
      then have "load64 m' (cell s j) = e" "K = L" "q = p0" using * loads [of s j] st' s t by (auto simp: pos')
      with e L True show ?thesis by (auto simp: intermediate_def pos')
    next
      case False
      then have eq: "load64 m' (cell s j) = load64 m (cell s j)" using * loads [of s j] st' by (auto simp: pos')
      have p: "present (load64 m (cell s j))" "j < 512" using * eq by auto
      show ?thesis
      proof (cases "large (load64 m (cell s j)) \<or> K = 1")
        case True
        then have "K \<noteq> 4" using pt_invD(7) [OF inv, of s q j] s p by auto
        with True eq show ?thesis by simp
      next
        case False
        then have "pos (load64 m (cell s j) AND PAGE_ADDRESS_MASK) = Some (K - 1, q * 512 + j)"
          using pt_invD(8) [OF inv s p(2,1)] by simp
        moreover from this fresh have "load64 m (cell s j) AND PAGE_ADDRESS_MASK \<noteq> t'" by auto
        ultimately show ?thesis using False eq by (simp add: pos')
      qed
    qed
  next
    fix s K q assume *: "pos' s = Some (K, q) \<and> K < 4"
    show "\<exists>u. pos' u = Some (K + 1, q div 512) \<and> intermediate (load64 m' (cell u (q mod 512))) \<and>
        load64 m' (cell u (q mod 512)) AND PAGE_ADDRESS_MASK = s"
    proof (cases "s = t'")
      case True
      then have "K + 1 = L" "q div 512 = p0" "q mod 512 = i" using * i L by (auto simp: pos')
      then show ?thesis
        using e True t tt' loads [of t i] i by (intro exI [of _ t]) (simp add: pos')
    next
      case False
      then obtain u where u: "pos u = Some (K + 1, q div 512)" "intermediate (load64 m (cell u (q mod 512)))"
        "load64 m (cell u (q mod 512)) AND PAGE_ADDRESS_MASK = s"
        using pt_invD(9) [OF inv, of s K q] * by (auto simp: pos')
      moreover have "u \<noteq> t'" using u(1) fresh by auto
      moreover have "\<not> (u = t \<and> q mod 512 = i)" using u(2) absent by (auto simp: intermediate_def)
      ultimately show ?thesis using loads [of u "q mod 512"] by (intro exI [of _ u]) (auto simp: pos')
    qed
  qed
qed

lemma descend_spec:
  assumes inv: "pt_inv F tables m pos" and t: "pos t = Some (L, pre L (unat v))" and L: "1 < L"
    and walk: "walk m (pt_root tables) 4 (unat v) (4 - L) = Some t"
    and run: "descend tables m t L v True = Some (t', tables', m')"
  shows "\<exists>pos'. pt_inv F tables' m' pos' \<and> pos' t' = Some (L - 1, pre (L - 1) (unat v)) \<and>
    walk m' (pt_root tables) 4 (unat v) (4 - (L - 1)) = Some t' \<and>
    (\<forall>w. leaf m' (pt_root tables) 4 w = leaf m (pt_root tables) 4 w) \<and> arena_frame F tables m tables' m'"
proof -
  define i where "i = idx L (unat v)"
  let ?v = "unat v" and ?root = "pt_root tables"
  let ?e = "load64 m (cell t i)"
  note Lb = pt_invD(4) [OF inv t]
  have i: "i < 512" by (simp add: i_def)
  have step: "pre (L - 1) ?v = pre L ?v * 512 + i" using pre_step [of L ?v] Lb by (simp add: i_def)
  have entry: "table_entry t (index_at v L) = cell t i" by (simp add: table_entry_cell i_def)
  have "L \<le> 4" using Lb by blast
  then have depth: "4 - (L - 1) = (4 - L) + 1" "4 - (4 - L) = L" using L by arith+
  have walk1: "walk m' ?root 4 ?v (4 - (L - 1)) = Some (load64 m' (cell t i) AND PAGE_ADDRESS_MASK)"
    if "walk m' ?root 4 ?v (4 - L) = Some t" "intermediate (load64 m' (cell t i))" for m'
    unfolding depth(1) walk_append that(1) using that(2) depth(2)
    by (simp add: i_def)
  show ?thesis
  proof (cases "present ?e")
    case True
    then have nl: "\<not> large ?e" and t': "t' = ?e AND PAGE_ADDRESS_MASK" "tables' = tables" "m' = m"
      using run L by (auto simp: descend_def entry Let_def present_def large_def split: if_splits)
    have "pos t' = Some (L - 1, pre (L - 1) ?v)"
      using pt_invD(8) [OF inv t i True nl] L t' step by simp
    with inv t' walk1 [OF walk] True nl show ?thesis by (intro exI [of _ pos]) (simp add: intermediate_def)
  next
    case False
    then obtain m1 where al: "allocate_table tables m = Some (t', tables', m1)"
      and m': "m' = store64 m1 (cell t i) ((t' AND PAGE_ADDRESS_MASK) OR PAGE_INTERMEDIATE_FLAGS)"
      using run by (auto simp: descend_def entry Let_def present_def opt_bind split: if_splits)
    define e where "e = (t' AND PAGE_ADDRESS_MASK) OR PAGE_INTERMEDIATE_FLAGS"
    note a = allocate_table_spec [OF pt_invD(1,2) [OF inv] al pt_invD(11) [OF inv]]
    have e: "e AND PAGE_ADDRESS_MASK = t'" "intermediate e"
      using intermediate_entry [of t'] a(2,3) by (simp_all add: e_def intermediate_def)
    note fresh = fresh_table [OF inv a(4)]
    note m1 = cleared_table [OF inv fresh a(2), folded a(1)]
    note inv1 = pt_inv_same [OF inv m1]
    define pos' where "pos' = pos(t' \<mapsto> (L - 1, pre (L - 1) ?v))"
    have pos': "pos' s = (if s = t' then Some (L - 1, pre (L - 1) ?v) else pos s)" for s
      by (simp add: pos'_def)
    have tt': "t \<noteq> t'" using fresh t by auto
    have loads: "load64 m' (cell s j) = (if s = t' then 0 else if s = t \<and> j = i then e else load64 m (cell s j))"
      if "s = t' \<or> pos s \<noteq> None" "j < 512" for s j
      using linked_loads [OF inv fresh a(2) t i that, of e] by (simp add: m' e_def a(1))
    have inv': "pt_inv F tables' m' pos'"
      unfolding pos'_def step by (rule linked_table [OF inv t L i False a(2,4,5,6,7) e loads])
    have np1: "\<not> present (load64 m1 (cell t i))" using m1 t i \<open>\<not> present ?e\<close> by (simp add: same_tables_def)
    have root_pos: "pos ?root = Some (4, pre 4 w)" for w using pt_invD(3) [OF inv] by (simp add: pre_root)
    have walks: "walk m' ?root 4 w (4 - L) = Some t" if "pre L w = pre L ?v" for w
    proof -
      have "walk m ?root 4 w (4 - L) = Some t"
        using walk that by (intro walk_cong [OF walk]) (simp_all add: depth(2))
      then have "walk m1 ?root 4 w (4 - L) = Some t"
        using L Lb by (intro walk_same [OF inv m1 root_pos]) auto
      then show ?thesis
        unfolding m' using L Lb np1 by (intro walk_store [OF inv1 t i _ root_pos]) auto
    qed
    have entry': "load64 m' (cell t i) = e" using loads [of t i] t tt' i by (simp add: pos')
    have "leaf m' ?root 4 w = leaf m ?root 4 w" for w
    proof (cases "pre L w = pre L ?v \<and> idx L w = i")
      case True
      have "leaf m ?root 4 w = leaf m t L w"
        using walk_leaf [OF walk_cong [OF walk, of w]] True Lb L depth(2) by simp
      also have "\<dots> = None" using L True \<open>\<not> present ?e\<close> by (cases L) (auto simp: Let_def)
      finally have old: "leaf m ?root 4 w = None" .
      obtain l where l: "L = Suc (Suc l)" using L by (cases L; cases "L - 1") auto
      have "leaf m' ?root 4 w = leaf m' t L w"
        using walk_leaf [OF walks [of w]] True Lb L depth(2) by simp
      also have "\<dots> = leaf m' t' (Suc l) w"
        using True entry' e by (simp add: l Let_def intermediate_def)
      also have "\<dots> = None" using loads [of t' "idx (Suc l) w"] by (simp add: pos' Let_def)
      finally show ?thesis using old by simp
    next
      case False
      then have "leaf m' ?root 4 w = leaf m1 ?root 4 w"
        unfolding m' by (intro leaf_store [OF inv1 t i root_pos]) auto
      then show ?thesis using leaf_same [OF inv m1 root_pos] by simp
    qed
    moreover have "arena_frame F tables m tables' m'"
    proof -
      have "arena_frame F tables' m1 tables' m'"
        using store_cell_frame [of t i F] Lb i a(7) pt_invD(5) [OF inv t] pt_invD(1) [OF inv]
        by (auto simp: arena_frame_def m' arena_wf_def word_le_nat_alt)
      with a(7) show ?thesis by (rule arena_frame_trans)
    qed
    moreover have "walk m' ?root 4 ?v (4 - (L - 1)) = Some t'"
      using walk1 [OF walks] entry' e by simp
    ultimately show ?thesis using inv' by (intro exI [of _ pos']) (simp add: pos')
  qed
qed

subsection \<open>Mapping one page\<close>

lemma descend_levels_spec:
  "pt_inv F tables m pos \<Longrightarrow> pos t = Some (L, pre L (unat v)) \<Longrightarrow> steps < L \<Longrightarrow>
   walk m (pt_root tables) 4 (unat v) (4 - L) = Some t \<Longrightarrow>
   descend_levels steps tables m t L v = (r, tables', m') \<Longrightarrow>
   \<exists>pos'. pt_inv F tables' m' pos' \<and> arena_frame F tables m tables' m' \<and>
     (\<forall>w. leaf m' (pt_root tables) 4 w = leaf m (pt_root tables) 4 w) \<and>
     (\<forall>t'. r = Some t' \<longrightarrow> pos' t' = Some (L - steps, pre (L - steps) (unat v)) \<and>
        walk m' (pt_root tables) 4 (unat v) (4 - (L - steps)) = Some t')"
proof (induction steps arbitrary: tables m pos t L)
  case 0
  then show ?case by (intro exI [of _ pos]) auto
next
  case (Suc n)
  show ?case
  proof (cases "descend tables m t L v True")
    case None
    with Suc.prems show ?thesis by (intro exI [of _ pos]) simp
  next
    case (Some x)
    then obtain t1 tables1 m1 where run: "descend tables m t L v True = Some (t1, tables1, m1)" by (cases x) auto
    obtain pos1 where one: "pt_inv F tables1 m1 pos1" "pos1 t1 = Some (L - 1, pre (L - 1) (unat v))"
      "walk m1 (pt_root tables) 4 (unat v) (4 - (L - 1)) = Some t1"
      "\<forall>w. leaf m1 (pt_root tables) 4 w = leaf m (pt_root tables) 4 w" "arena_frame F tables m tables1 m1"
      using descend_spec [OF Suc.prems(1,2) _ Suc.prems(4) run] Suc.prems(3) by auto
    have root: "pt_root tables1 = pt_root tables" using one(5) by (simp add: arena_frame_def)
    have rest: "descend_levels n tables1 m1 t1 (L - 1) v = (r, tables', m')"
      using Suc.prems(5) run by simp
    have n: "n < L - 1" using Suc.prems(3) by arith
    obtain pos' where "pt_inv F tables' m' pos'" "arena_frame F tables1 m1 tables' m'"
      "\<forall>w. leaf m' (pt_root tables) 4 w = leaf m1 (pt_root tables) 4 w"
      "\<forall>t'. r = Some t' \<longrightarrow> pos' t' = Some (L - 1 - n, pre (L - 1 - n) (unat v)) \<and>
        walk m' (pt_root tables) 4 (unat v) (4 - (L - 1 - n)) = Some t'"
      using Suc.IH [OF one(1,2) n _ rest] one(3) unfolding root by blast
    with one(4,5) show ?thesis
      by (intro exI [of _ pos']) (auto intro: arena_frame_trans)
  qed
qed

definition page_bytes :: "nat \<Rightarrow> nat" where
  "page_bytes L = 2 ^ (12 + 9 * (L - 1))"

lemma page_bytes_dvd: "1 \<le> L \<Longrightarrow> L \<le> 4 \<Longrightarrow> page_bytes L dvd 2 ^ 48"
  unfolding page_bytes_def by (rule le_imp_power_dvd) simp

lemma same_page: "1 \<le> L \<Longrightarrow> pre (L - 1) v = pre (L - 1) w \<longleftrightarrow> v mod 2 ^ 48 div page_bytes L = w mod 2 ^ 48 div page_bytes L"
  by (simp add: pre_def page_bytes_def)

lemma level_for_cases:
  assumes "ps = PAGE_BYTES \<or> ps = PAGE_LARGE_BYTES \<or> ps = PAGE_HUGE_BYTES"
  shows "1 \<le> level_for ps" "level_for ps \<le> 3" "unat ps = page_bytes (level_for ps)"
  using assms by (auto simp: level_for_def page_bytes_def)

lemma map_one_spec:
  assumes inv: "pt_inv F tables m pos"
    and ps: "ps = PAGE_BYTES \<or> ps = PAGE_LARGE_BYTES \<or> ps = PAGE_HUGE_BYTES"
    and run: "map_one tables m v p ps f = (ok, tables', m')"
  defines "L \<equiv> level_for ps" and "root \<equiv> pt_root tables"
  shows "\<exists>pos'. pt_inv F tables' m' pos' \<and> arena_frame F tables m tables' m' \<and>
    (ok \<longrightarrow> (\<forall>w. (if pre (L - 1) w = pre (L - 1) (unat v)
                  then leaf m root 4 w = None \<and> leaf m' root 4 w = Some (leaf_value p f L, L)
                  else leaf m' root 4 w = leaf m root 4 w))) \<and>
    (\<not> ok \<longrightarrow> (\<forall>w. leaf m' root 4 w = leaf m root 4 w))"
proof -
  note Lb = level_for_cases [OF ps, folded L_def]
  have root_pos: "pos root = Some (4, pre 4 (unat v))"
    using pt_invD(3) [OF inv] by (simp add: pre_root root_def)
  obtain r tables1 m1 where down: "descend_levels (4 - L) tables m root 4 v = (r, tables1, m1)"
    by (cases "descend_levels (4 - L) tables m root 4 v") auto
  have steps: "4 - L < 4" "4 - (4 - L) = L" using Lb(1,2) by arith+
  obtain pos1 where one: "pt_inv F tables1 m1 pos1" "arena_frame F tables m tables1 m1"
    "\<forall>w. leaf m1 root 4 w = leaf m root 4 w"
    "\<forall>t. r = Some t \<longrightarrow> pos1 t = Some (L, pre L (unat v)) \<and> walk m1 root 4 (unat v) (4 - L) = Some t"
    using descend_levels_spec [OF inv root_pos steps(1) _ down] unfolding root_def [symmetric] steps(2) by auto
  show ?thesis
  proof (cases r)
    case None
    with run down have "\<not> ok" "tables' = tables1" "m' = m1"
      by (simp_all add: map_one_def L_def [symmetric] root_def [symmetric])
    with one show ?thesis by blast
  next
    case (Some t)
    with one(4) have t: "pos1 t = Some (L, pre L (unat v))" and walk: "walk m1 root 4 (unat v) (4 - L) = Some t" by auto
    define i where "i = idx L (unat v)"
    have i: "i < 512" by (simp add: i_def)
    note tb = pt_invD(4) [OF one(1) t]
    have cell: "table_entry t (index_at v L) = cell t i" by (simp add: table_entry_cell i_def)
    have run': "(if present (load64 m1 (cell t i)) then (False, tables1, m1)
        else (True, tables1, store64 m1 (cell t i) (leaf_value p f L))) = (ok, tables', m')"
      using run down Some unfolding map_one_def L_def [symmetric] root_def [symmetric] Let_def
      by (auto simp: cell present_def leaf_value_def Let_def split: if_splits)
    show ?thesis
    proof (cases "present (load64 m1 (cell t i))")
      case True
      with run' one show ?thesis by auto
    next
      case absent: False
      then have res: "ok" "tables' = tables1" "m' = store64 m1 (cell t i) (leaf_value p f L)"
        using run' by simp_all
      have loads: "load64 m' (cell s j) = (if s = t \<and> j = i then leaf_value p f L else load64 m1 (cell s j))"
        if "pos1 s = Some x" "j < 512" for s j x
        using that pt_invD(4) [OF one(1), of s "fst x" "snd x"] tb i by (simp add: res load_store_cell)
      have inv': "pt_inv F tables1 m' pos1"
        unfolding pt_inv_def
      proof (intro conjI allI impI)
        fix s K q j assume *: "pos1 s = Some (K, q) \<and> j < 512 \<and> present (load64 m' (cell s j))"
        show "if large (load64 m' (cell s j)) \<or> K = 1 then K \<noteq> 4
          else pos1 (load64 m' (cell s j) AND PAGE_ADDRESS_MASK) = Some (K - 1, q * 512 + j)"
        proof (cases "s = t \<and> j = i")
          case True
          then have "load64 m' (cell s j) = leaf_value p f L" "K = L" using * loads [of s _ j] t by auto
          with Lb(2) leaf_value_large [of L p f] show ?thesis by auto
        next
          case False
          with * loads [of s _ j] one(1) show ?thesis unfolding pt_inv_def by auto
        qed
      next
        fix s K q assume *: "pos1 s = Some (K, q) \<and> K < 4"
        then obtain u where u: "pos1 u = Some (K + 1, q div 512)" "intermediate (load64 m1 (cell u (q mod 512)))"
          "load64 m1 (cell u (q mod 512)) AND PAGE_ADDRESS_MASK = s"
          using pt_invD(9) [OF one(1)] by blast
        then have "\<not> (u = t \<and> q mod 512 = i)" using absent by (auto simp: intermediate_def)
        with u loads [OF u(1), of "q mod 512"]
        show "\<exists>u. pos1 u = Some (K + 1, q div 512) \<and> intermediate (load64 m' (cell u (q mod 512))) \<and>
          load64 m' (cell u (q mod 512)) AND PAGE_ADDRESS_MASK = s"
          by (intro exI [of _ u]) simp
      qed (use one(1) in \<open>unfold pt_inv_def, blast\<close>)+
      have frame: "arena_frame F tables m tables1 m'"
      proof (rule arena_frame_trans [OF one(2)])
        show "arena_frame F tables1 m1 tables1 m'"
          using store_cell_frame [of t i F] tb i pt_invD(5) [OF one(1) t] pt_invD(1) [OF one(1)]
          by (auto simp: arena_frame_def res arena_wf_def word_le_nat_alt)
      qed
      have root1: "pos1 root = Some (4, pre 4 w)" for w
        using pt_invD(3) [OF one(1)] one(2) by (simp add: pre_root root_def arena_frame_def)
      have "if pre (L - 1) w = pre (L - 1) (unat v)
        then leaf m root 4 w = None \<and> leaf m' root 4 w = Some (leaf_value p f L, L)
        else leaf m' root 4 w = leaf m root 4 w" for w
      proof (cases "pre (L - 1) w = pre (L - 1) (unat v)")
        case True
        have L4: "1 \<le> L" "L \<le> 4" using Lb by auto
        have iw: "idx L w = i" using True idx_pre [OF L4] by (simp add: i_def)
        have pw: "pre L w = pre L (unat v)" by (rule pre_eq_up [OF True]) simp
        have walk_w: "walk m1 root 4 w (4 - L) = Some t"
          using pw steps(2) by (intro walk_cong [OF walk]) simp_all
        have walk_w': "walk m' root 4 w (4 - L) = Some t"
          unfolding res(3) using absent steps(1) by (intro walk_store [OF one(1) t i _ root1 _ walk_w]) auto
        obtain l where l: "L = Suc l" using L4 by (cases L) auto
        have "leaf m1 root 4 w = None"
          using walk_leaf [OF walk_w steps(1)] absent iw unfolding steps(2) by (simp add: l Let_def)
        moreover have "leaf m' root 4 w = Some (leaf_value p f L, L)"
        proof -
          have "load64 m' (cell t (idx L w)) = leaf_value p f L" using loads [OF t i] iw by simp
          then show ?thesis
            using walk_leaf [OF walk_w' steps(1)] leaf_value_present leaf_value_large [of L p f] Lb(2)
            unfolding steps(2) by (auto simp: l Let_def)
        qed
        ultimately show ?thesis using True one(3) by simp
      next
        case False
        have "\<not> (L \<le> 4 \<and> pre L w = pre L (unat v) \<and> idx L w = i)"
          using False pre_step [of L w] pre_step [of L "unat v"] Lb by (auto simp: i_def)
        then have "leaf m' root 4 w = leaf m1 root 4 w"
          unfolding res(3) by (intro leaf_store [OF one(1) t i root1])
        with False one(3) show ?thesis by simp
      qed
      with inv' frame res(1,2) show ?thesis by blast
    qed
  qed
qed

subsection \<open>Mapping a range\<close>

lemma flags_without_large:
  assumes "f AND (PAGE_ADDRESS_MASK OR PAGE_SIZE_LARGE) = 0"
  shows "(f OR PAGE_PRESENT OR (if b then PAGE_SIZE_LARGE else 0)) AND NOT PAGE_SIZE_LARGE = f OR PAGE_PRESENT"
proof -
  have "(f AND (PAGE_ADDRESS_MASK OR PAGE_SIZE_LARGE)) AND PAGE_SIZE_LARGE = f AND PAGE_SIZE_LARGE"
    by (simp add: and.assoc)
  with assms have "f AND PAGE_SIZE_LARGE = 0" by simp
  moreover have "f = (f AND PAGE_SIZE_LARGE) OR (f AND NOT PAGE_SIZE_LARGE)"
    by (simp flip: bit.conj_disj_distrib)
  ultimately have "f AND NOT PAGE_SIZE_LARGE = f" by simp
  then show ?thesis by (simp add: bit.conj_disj_distrib2 or.assoc)
qed

text \<open>What the tables translate an address to, on unbounded numbers: the physical address and the flags.\<close>

definition xlat :: "mem \<Rightarrow> u64 \<Rightarrow> nat \<Rightarrow> (nat \<times> u64) option" where
  "xlat m root v = map_option (\<lambda>(e, L). (unat (e AND PAGE_ADDRESS_MASK) + v mod page_bytes L,
     e AND NOT PAGE_ADDRESS_MASK)) (leaf m root 4 v)"

lemma page_size_for_cases:
  assumes "4096 dvd unat v" "4096 dvd unat p" "4096 \<le> unat r"
  shows "page_size_for tables v p r = PAGE_BYTES \<or> page_size_for tables v p r = PAGE_LARGE_BYTES \<or>
      page_size_for tables v p r = PAGE_HUGE_BYTES"
    "unat (page_size_for tables v p r) \<le> unat r"
    "unat (page_size_for tables v p r) dvd unat v" "unat (page_size_for tables v p r) dvd unat p"
  using assms by (auto simp: page_size_for_def word_le_nat_alt unat_mod mod_eq_0_iff_dvd word_unat_eq_iff)

lemma page_offset:
  fixes v j S :: nat
  assumes "S dvd v" "j < S" "S dvd 2 ^ 48"
  shows "(v + j) mod 2 ^ 48 div S = v mod 2 ^ 48 div S" "(v + j) mod S = j"
proof -
  from assms(1) obtain a where v: "v = S * a" ..
  from assms(3) obtain b where b: "(2 :: nat) ^ 48 = S * b" ..
  have S: "0 < S" using assms(2) by simp
  have "0 < b" using b S by (cases b) simp_all
  have "v mod 2 ^ 48 = S * (a mod b)" unfolding b v by (rule mult_mod_right [symmetric])
  moreover have "a mod b < b" using \<open>0 < b\<close> by simp
  then have "S * Suc (a mod b) \<le> S * b" by (intro mult_le_mono2) simp
  then have "S * (a mod b) + S \<le> S * b" by simp
  ultimately have "v mod 2 ^ 48 + j < 2 ^ 48" using assms(2) unfolding b by linarith
  then have "(v + j) mod 2 ^ 48 = v mod 2 ^ 48 + j" by (subst mod_add_left_eq [symmetric]) (rule mod_less)
  then have "(v + j) mod 2 ^ 48 = S * (a mod b) + j" using \<open>v mod 2 ^ 48 = S * (a mod b)\<close> by simp
  then show "(v + j) mod 2 ^ 48 div S = v mod 2 ^ 48 div S"
    using \<open>v mod 2 ^ 48 = S * (a mod b)\<close> assms(2) S by simp
  show "(v + j) mod S = j" using assms(1,2) by (simp add: mod_add_eq v)
qed

lemma page_offset_converse:
  fixes v w S :: nat
  assumes "S dvd v" "0 < S" "S dvd 2 ^ 48" "w mod 2 ^ 48 div S = v mod 2 ^ 48 div S"
  shows "w mod 2 ^ 48 = (v + w mod S) mod 2 ^ 48"
proof -
  have "w mod 2 ^ 48 mod S = w mod S" using assms(3) by (rule mod_mod_cancel)
  then have "w mod 2 ^ 48 = v mod 2 ^ 48 div S * S + w mod S"
    using assms(4) by (metis div_mult_mod_eq)
  moreover have "(v + w mod S) mod 2 ^ 48 div S = v mod 2 ^ 48 div S" "(v + w mod S) mod S = w mod S"
    using page_offset [OF assms(1) _ assms(3), of "w mod S"] assms(2) by simp_all
  moreover have "(v + w mod S) mod 2 ^ 48 mod S = (v + w mod S) mod S" using assms(3) by (rule mod_mod_cancel)
  ultimately show ?thesis by (metis div_mult_mod_eq)
qed

text \<open>
  One page more: what is mapped before (\<open>l\<close>), after the first page of a run (\<open>l1\<close>) and after the rest (\<open>l'\<close>). The addresses
  count modulo \<open>2 ^ 48\<close>, so a run that comes around would meet its own first page.
\<close>

lemma run_extended:
  fixes l l1 l' :: "nat \<Rightarrow> 'a option"
  assumes S: "0 < S" "S dvd 2 ^ 48" "S \<le> R" "S dvd V"
    and in_slot: "\<And>w. w mod 2 ^ 48 div S = V mod 2 ^ 48 div S \<Longrightarrow> l w = None \<and> l1 w = Some x1"
    and off_slot: "\<And>w. w mod 2 ^ 48 div S \<noteq> V mod 2 ^ 48 div S \<Longrightarrow> l1 w = l w"
    and keep: "\<And>w x. l1 w = Some x \<Longrightarrow> l' w = Some x"
    and free: "\<And>j. j < R - S \<Longrightarrow> l1 (V + S + j) = None"
    and rest: "\<And>w. (\<forall>j < R - S. w mod 2 ^ 48 \<noteq> (V + S + j) mod 2 ^ 48) \<Longrightarrow> l' w = l1 w"
  shows "R \<le> 2 ^ 48" "j < R \<Longrightarrow> l (V + j) = None" "j < S \<Longrightarrow> l' (V + j) = Some x1"
    "(\<forall>j < R. w mod 2 ^ 48 \<noteq> (V + j) mod 2 ^ 48) \<Longrightarrow> l' w = l w"
proof -
  have later: "l1 (V + j) = None" if "S \<le> j" "j < R" for j
    using free [of "j - S"] that by simp
  have le: "S \<le> 2 ^ 48" by (rule dvd_imp_le [OF S(2)]) simp
  show "R \<le> 2 ^ 48"
  proof (rule ccontr)
    assume "\<not> R \<le> 2 ^ 48"
    then have "l1 (V + 2 ^ 48) = None" using later [of "2 ^ 48"] le by simp
    moreover have "l1 (V + 2 ^ 48) \<noteq> None" using in_slot [of "V + 2 ^ 48"] by simp
    ultimately show False by simp
  qed
  show "l (V + j) = None" if "j < R"
  proof (cases "j < S")
    case True
    then show ?thesis using in_slot page_offset(1) [OF S(4) True S(2)] by blast
  next
    case False
    then have "l1 (V + j) = None" using later that by simp
    then show ?thesis using in_slot [of "V + j"] off_slot [of "V + j"] by (cases "(V + j) mod 2 ^ 48 div S = V mod 2 ^ 48 div S") auto
  qed
  show "l' (V + j) = Some x1" if "j < S"
    using in_slot page_offset(1) [OF S(4) that S(2)] keep by blast
  assume w: "\<forall>j < R. w mod 2 ^ 48 \<noteq> (V + j) mod 2 ^ 48"
  have "w mod 2 ^ 48 div S \<noteq> V mod 2 ^ 48 div S"
    using page_offset_converse [OF S(4,1,2), of w] w S(1,3) mod_less_divisor [OF S(1), of w] by (meson less_le_trans)
  then have "l1 w = l w" by (rule off_slot)
  moreover have "l' w = l1 w"
    using w by (intro rest) (simp add: add.assoc)
  ultimately show "l' w = l w" by simp
qed

lemma low_offset:
  fixes p j S :: nat
  assumes "S dvd p" "j < S" "S dvd 2 ^ 48"
  shows "(p + j) mod 2 ^ 52 = p mod 2 ^ 52 + j"
proof -
  have "(2 :: nat) ^ 52 = 2 ^ 48 * 16" by simp
  then have dvd: "S dvd 2 ^ 52" using assms(3) by (metis dvd_mult2)
  then obtain b where b: "(2 :: nat) ^ 52 = S * b" ..
  have "S dvd p mod 2 ^ 52" using assms(1) dvd by (simp add: dvd_mod)
  then obtain a where a: "p mod 2 ^ 52 = S * a" ..
  have "S * a < S * b" unfolding a [symmetric] b [symmetric] by simp
  then have "a < b" by simp
  then have "S * Suc a \<le> S * b" by (intro mult_le_mono2) simp
  then have "p mod 2 ^ 52 + j < 2 ^ 52" using assms(2) unfolding a unfolding b by simp
  then show ?thesis by (metis mod_add_left_eq mod_less)
qed

lemma map_pages_spec:
  assumes "pt_inv F tables m pos" "4096 dvd unat v" "4096 dvd unat p" "4096 dvd unat r"
    and "unat v + unat r < 2 ^ 64" "unat p + unat r < 2 ^ 64"
    and "f AND (PAGE_ADDRESS_MASK OR PAGE_SIZE_LARGE) = 0"
    and "unat r div 4096 \<le> fuel" "map_pages fuel tables m v p r f = (ok, tables', m')" "root = pt_root tables"
  shows "\<exists>pos'. pt_inv F tables' m' pos' \<and> arena_frame F tables m tables' m' \<and>
    (\<forall>w x. leaf m root 4 w = Some x \<longrightarrow> leaf m' root 4 w = Some x) \<and>
    (ok \<longrightarrow> unat r \<le> 2 ^ 48 \<and>
      (\<forall>j < unat r. leaf m root 4 (unat v + j) = None \<and>
        (\<exists>g. xlat m' root (unat v + j) = Some ((unat p + j) mod 2 ^ 52, g) \<and>
           g AND NOT PAGE_SIZE_LARGE = f OR PAGE_PRESENT)) \<and>
      (\<forall>w. (\<forall>j < unat r. w mod 2 ^ 48 \<noteq> (unat v + j) mod 2 ^ 48) \<longrightarrow> leaf m' root 4 w = leaf m root 4 w))"
  using assms
proof (induction fuel arbitrary: tables m pos v p r)
  case 0
  then have "unat r = 0" by (auto elim!: dvdE)
  then have "r = 0" by (simp add: unat_eq_0)
  with 0 show ?case by (intro exI [of _ pos]) (auto simp: map_pages.simps)
next
  case (Suc fuel)
  show ?case
  proof (cases "r = 0")
    case True
    with Suc.prems show ?thesis by (intro exI [of _ pos]) (auto simp: map_pages.simps)
  next
    case False
    then have r: "4096 \<le> unat r" using Suc.prems(4) by (auto simp: unat_gt_0 dest!: dvd_imp_le)
    define ps L where "ps = page_size_for tables v p r" and "L = level_for ps"
    note ps = page_size_for_cases [OF Suc.prems(2,3) r, of tables, folded ps_def]
    note L = level_for_cases [OF ps(1), folded L_def]
    define S where "S = page_bytes L"
    have S: "unat ps = S" "0 < S" "S dvd 2 ^ 48" "4096 dvd S" "S \<le> 2 ^ 48" "S \<le> unat r" "S dvd unat v" "S dvd unat p"
    proof -
      show "unat ps = S" using L(3) by (simp add: S_def)
      show "0 < S" by (simp add: S_def page_bytes_def)
      show dvd48: "S dvd 2 ^ 48" using page_bytes_dvd [of L] L by (simp add: S_def)
      then show "S \<le> 2 ^ 48" by (rule dvd_imp_le) simp
      have "(2 :: nat) ^ 12 dvd 2 ^ (12 + 9 * (L - 1))" by (rule le_imp_power_dvd) simp
      then show "4096 dvd S" by (simp add: S_def page_bytes_def)
      show "S \<le> unat r" "S dvd unat v" "S dvd unat p" using ps \<open>unat ps = S\<close> by simp_all
    qed
    obtain ok1 tables1 m1 where one: "map_one tables m v p ps f = (ok1, tables1, m1)"
      by (cases "map_one tables m v p ps f") auto
    obtain pos1 where spec: "pt_inv F tables1 m1 pos1" "arena_frame F tables m tables1 m1"
      "ok1 \<longrightarrow> (\<forall>w. (if pre (L - 1) w = pre (L - 1) (unat v)
                  then leaf m root 4 w = None \<and> leaf m1 root 4 w = Some (leaf_value p f L, L)
                  else leaf m1 root 4 w = leaf m root 4 w))"
      "\<not> ok1 \<longrightarrow> (\<forall>w. leaf m1 root 4 w = leaf m root 4 w)"
      using map_one_spec [OF Suc.prems(1) ps(1) one] unfolding L_def Suc.prems(10) by blast
    have unfold: "map_pages (Suc fuel) tables m v p r f =
        (if ok1 then map_pages fuel tables1 m1 (v + ps) (p + ps) (r - ps) f else (False, tables1, m1))"
      using False one by (subst map_pages.simps) (auto simp: Let_def ps_def [symmetric] word_gt_0)
    show ?thesis
    proof (cases ok1)
      case False
      with unfold Suc.prems(9) have "\<not> ok" "tables' = tables1" "m' = m1" by auto
      with spec False show ?thesis by auto
    next
      case True
      have slot: "pre (L - 1) w = pre (L - 1) (unat v) \<longleftrightarrow> w mod 2 ^ 48 div S = unat v mod 2 ^ 48 div S" for w
        using same_page [of L] L by (simp add: S_def)
      have in_slot: "leaf m root 4 w = None \<and> leaf m1 root 4 w = Some (leaf_value p f L, L)"
        if "w mod 2 ^ 48 div S = unat v mod 2 ^ 48 div S" for w
        using spec(3) True that slot by metis
      have off_slot: "leaf m1 root 4 w = leaf m root 4 w"
        if "w mod 2 ^ 48 div S \<noteq> unat v mod 2 ^ 48 div S" for w
        using spec(3) True that slot by metis
      have keep1: "leaf m1 root 4 w = Some x" if "leaf m root 4 w = Some x" for w x
        using that in_slot off_slot by (cases "w mod 2 ^ 48 div S = unat v mod 2 ^ 48 div S") auto
      have nat: "unat (v + ps) = unat v + S" "unat (p + ps) = unat p + S" "unat (r - ps) = unat r - S"
        using S Suc.prems(5,6) by (simp_all add: unat_add_fits unat_sub_fits word_le_nat_alt)
      have rest: "map_pages fuel tables1 m1 (v + ps) (p + ps) (r - ps) f = (ok, tables', m')"
        using unfold True Suc.prems(9) by simp
      have root: "root = pt_root tables1" using spec(2) Suc.prems(10) by (simp add: arena_frame_def)
      have fuel: "unat (r - ps) div 4096 \<le> fuel"
      proof -
        have "unat r - S + 4096 \<le> unat r" using S(4,6) dvd_imp_le [OF S(4,2)] by simp
        then have "(unat r - S + 4096) div 4096 \<le> unat r div 4096" by (rule div_le_mono)
        then show ?thesis using Suc.prems(8) nat(3) by simp
      qed
      have ih_prems: "4096 dvd unat (v + ps)" "4096 dvd unat (p + ps)" "4096 dvd unat (r - ps)"
        "unat (v + ps) + unat (r - ps) < 2 ^ 64" "unat (p + ps) + unat (r - ps) < 2 ^ 64"
        unfolding nat using Suc.prems(2-6) S(4,6) by (simp_all add: dvd_diff_nat)
      obtain pos' where ih: "pt_inv F tables' m' pos'" "arena_frame F tables1 m1 tables' m'"
        "\<forall>w x. leaf m1 root 4 w = Some x \<longrightarrow> leaf m' root 4 w = Some x"
        "ok \<longrightarrow> unat (r - ps) \<le> 2 ^ 48 \<and>
      (\<forall>j < unat (r - ps). leaf m1 root 4 (unat (v + ps) + j) = None \<and>
        (\<exists>g. xlat m' root (unat (v + ps) + j) = Some ((unat (p + ps) + j) mod 2 ^ 52, g) \<and>
           g AND NOT PAGE_SIZE_LARGE = f OR PAGE_PRESENT)) \<and>
      (\<forall>w. (\<forall>j < unat (r - ps). w mod 2 ^ 48 \<noteq> (unat (v + ps) + j) mod 2 ^ 48) \<longrightarrow> leaf m' root 4 w = leaf m1 root 4 w)"
        using Suc.IH [OF spec(1) ih_prems Suc.prems(7) fuel rest root] by blast
      have ext: "unat r \<le> 2 ^ 48" "j < unat r \<Longrightarrow> leaf m root 4 (unat v + j) = None"
        "j < S \<Longrightarrow> leaf m' root 4 (unat v + j) = Some (leaf_value p f L, L)"
        "(\<forall>j < unat r. w mod 2 ^ 48 \<noteq> (unat v + j) mod 2 ^ 48) \<Longrightarrow> leaf m' root 4 w = leaf m root 4 w" if ok for j w
      proof -
        note tail = mp [OF ih(4) that, unfolded nat]
        have free: "leaf m1 root 4 (unat v + S + j) = None" if "j < unat r - S" for j
          using tail that by blast
        have kept: "leaf m' root 4 w = Some x" if "leaf m1 root 4 w = Some x" for w x
          using ih(3) that by blast
        have off: "leaf m' root 4 w = leaf m1 root 4 w"
          if "\<forall>j < unat r - S. w mod 2 ^ 48 \<noteq> (unat v + S + j) mod 2 ^ 48" for w
          using tail that by blast
        note run = run_extended [where V = "unat v" and R = "unat r" and l = "leaf m root 4"
          and ?l1.0 = "leaf m1 root 4" and l' = "leaf m' root 4" and ?x1.0 = "(leaf_value p f L, L)",
          OF S(2,3,6,7) in_slot off_slot kept free off]
        show "unat r \<le> 2 ^ 48" by (rule run(1)) assumption+
        show "leaf m root 4 (unat v + j) = None" if "j < unat r" by (rule run(2)) (assumption | rule that)+
        show "leaf m' root 4 (unat v + j) = Some (leaf_value p f L, L)" if "j < S" by (rule run(3)) (assumption | rule that)+
        show "leaf m' root 4 w = leaf m root 4 w" if "\<forall>j < unat r. w mod 2 ^ 48 \<noteq> (unat v + j) mod 2 ^ 48"
          by (rule run(4)) (assumption | rule that)+
      qed
      have "\<exists>g. xlat m' root (unat v + j) = Some ((unat p + j) mod 2 ^ 52, g) \<and> g AND NOT PAGE_SIZE_LARGE = f OR PAGE_PRESENT"
        if "ok" "j < unat r" for j
      proof (cases "j < S")
        case True
        have lf: "leaf m' root 4 (unat v + j) = Some (leaf_value p f L, L)" using ext(3) that(1) True by blast
        note val = leaf_value_address [OF Suc.prems(7), of p L]
        have "unat p mod 2 ^ 52 + j = (unat p + j) mod 2 ^ 52"
          by (rule low_offset [symmetric]) (use True S in simp_all)
        then have "xlat m' root (unat v + j) = Some ((unat p + j) mod 2 ^ 52, f OR PAGE_PRESENT OR (if L \<noteq> 1 then PAGE_SIZE_LARGE else 0))"
          using page_offset(2) [OF S(7) True S(3)] address_cut [OF Suc.prems(3)] unfolding xlat_def lf S_def
          by (simp only: option.map prod.case val)
        moreover have "(f OR PAGE_PRESENT OR (if L \<noteq> 1 then PAGE_SIZE_LARGE else 0)) AND NOT PAGE_SIZE_LARGE = f OR PAGE_PRESENT"
          using flags_without_large [OF Suc.prems(7)] by simp
        ultimately show ?thesis by blast
      next
        case False
        then have "j - S < unat (r - ps)" using that unfolding nat by simp
        with ih(4) that(1) have "\<exists>g. xlat m' root (unat (v + ps) + (j - S)) = Some ((unat (p + ps) + (j - S)) mod 2 ^ 52, g) \<and>
           g AND NOT PAGE_SIZE_LARGE = f OR PAGE_PRESENT" by blast
        with False show ?thesis unfolding nat by simp
      qed
      then show ?thesis
        using ext ih(1,2,3) spec(2) keep1 arena_frame_trans by (intro exI [of _ pos']) blast
    qed
  qed
qed

subsection \<open>Properties\<close>

lemma unat_drop_bit: "unat (drop_bit n w) = unat w div 2 ^ n" for w :: "'a::len word"
proof -
  have "unat (drop_bit n w) = drop_bit n (unat w)"
    by (simp add: unsigned_drop_bit_eq take_bit_nat_eq_self)
  then show ?thesis by (simp only: drop_bit_eq_div)
qed

lemma canonical_nat:
  "paging_address_is_canonical a \<longleftrightarrow> unat a < 2 ^ 47 \<or> 2 ^ 64 - 2 ^ 47 \<le> unat a"
proof -
  have sign: "drop_bit 47 a AND 1 = 0 \<longleftrightarrow> unat a div 2 ^ 47 mod 2 = 0"
    unfolding and_one_eq by (simp add: word_unat_eq_iff unat_mod unat_drop_bit)
  have upper: "drop_bit 48 a = 0 \<longleftrightarrow> unat a div 2 ^ 48 = 0"
    "drop_bit 48 a = mask 16 \<longleftrightarrow> unat a div 2 ^ 48 = 2 ^ 16 - 1"
    by (simp_all add: word_unat_eq_iff unat_drop_bit mask_eq_exp_minus_1)
  define q where "q = unat a div 2 ^ 47"
  have "unat a < 2 ^ 17 * 2 ^ 47" by simp
  then have q: "q < 2 ^ 17" unfolding q_def by (rule less_mult_imp_div_less)
  have "unat a div 2 ^ 48 = q div 2" by (simp add: q_def flip: div_mult2_eq)
  moreover have "unat a < 2 ^ 47 \<longleftrightarrow> q = 0" by (simp add: q_def div_eq_0_iff)
  moreover have "2 ^ 64 - 2 ^ 47 \<le> unat a \<longleftrightarrow> 2 ^ 17 - 1 \<le> q"
    by (simp add: q_def less_eq_div_iff_mult_less_eq)
  moreover have "(if q mod 2 = 0 then q div 2 = 0 else q div 2 = 2 ^ 16 - 1) \<longleftrightarrow> q = 0 \<or> 2 ^ 17 - 1 \<le> q"
    using q by simp presburger
  moreover have "unat a div 140737488355328 = q" by (simp add: q_def)
  ultimately show ?thesis
    unfolding paging_address_is_canonical_def Let_def by (auto simp: sign upper)
qed

lemma canonical_mod_inj:
  fixes a b :: nat
  assumes "a < 2 ^ 64" "b < 2 ^ 64" "a < 2 ^ 47 \<or> 2 ^ 64 - 2 ^ 47 \<le> a" "b < 2 ^ 47 \<or> 2 ^ 64 - 2 ^ 47 \<le> b"
    and "a mod 2 ^ 48 = b mod 2 ^ 48"
  shows "a = b"
proof -
  have *: "c mod 2 ^ 48 = (if c < 2 ^ 47 then c else c - (2 ^ 64 - 2 ^ 48))"
    if "c < 2 ^ 64" "c < 2 ^ 47 \<or> 2 ^ 64 - 2 ^ 47 \<le> c" for c :: nat
  proof (cases "c < 2 ^ 47")
    case False
    define k where "k = c - (2 ^ 64 - 2 ^ 48)"
    have c: "c = 2 ^ 48 * (2 ^ 16 - 1) + k" "k < 2 ^ 48" using False that by (simp_all add: k_def)
    have "c mod 2 ^ 48 = k mod 2 ^ 48" unfolding c(1) by (rule mod_mult_self4)
    then have "c mod 2 ^ 48 = k" using c(2) by (simp only: mod_less)
    with False show ?thesis by (simp add: k_def)
  qed simp
  show ?thesis using assms(5) unfolding * [OF assms(1,3)] * [OF assms(2,4)] using assms(1-4)
    by (auto split: if_splits)
qed

lemma leaf_empty: "\<forall>i < 512. load64 m (cell t i) = 0 \<Longrightarrow> leaf m t l w = None"
  by (cases l) (simp_all add: Let_def)

lemma leaf_level: "leaf m t n v = Some (e, L) \<Longrightarrow> 1 \<le> L \<and> L \<le> n"
  by (induction n arbitrary: t) (fastforce simp: Let_def split: if_splits)+

lemma translate_xlat:
  "paging_translate tables m v =
     (if pt_root tables = 0 \<or> \<not> paging_address_is_canonical v then None
      else map_option (\<lambda>(a, f). (of_nat a, f)) (xlat m (pt_root tables) (unat v)))"
proof -
  have span: "v mod (if L = 1 then 4096 else level_span L) = of_nat (unat v mod page_bytes L)"
    if "1 \<le> L" "L \<le> 4" for L
  proof -
    have "L \<in> {1, 2, 3, 4}" using that by auto
    then have "unat (if L = 1 then 4096 else level_span L) = page_bytes L"
      by (auto simp: level_span_def page_bytes_def)
    then have "unat (v mod (if L = 1 then 4096 else level_span L)) = unat v mod page_bytes L"
      by (simp only: unat_mod)
    then have "of_nat (unat (v mod (if L = 1 then 4096 else level_span L))) = (of_nat (unat v mod page_bytes L) :: u64)"
      by (rule arg_cong)
    then show ?thesis by simp
  qed
  show ?thesis
  proof (cases "leaf m (pt_root tables) 4 (unat v)")
    case None
    then show ?thesis by (simp add: paging_translate_def translate_from_leaf xlat_def)
  next
    case (Some x)
    obtain e L where x: "x = (e, L)" by (cases x)
    with leaf_level Some have "1 \<le> L" "L \<le> 4" by blast+
    then show ?thesis
      using span Some x unfolding paging_translate_def translate_from_leaf xlat_def by simp
  qed
qed

text \<open>
  What the tables of a caller are at any time: built by \<open>paging_create\<close> and \<open>paging_map\<close> in an arena
  below \<open>2^52\<close>.
\<close>

definition pt_state :: "page_tables \<Rightarrow> mem \<Rightarrow> bool" where
  "pt_state tables m \<longleftrightarrow> (\<exists>F pos. pt_inv F tables m pos)"

lemma paging_map_run:
  assumes "paging_map tables m v p n f = (ok, tables', m')"
  shows "(\<not> ok \<and> tables' = tables \<and> m' = m) \<or>
    (pt_root tables \<noteq> 0 \<and> n \<noteq> 0 \<and> 4096 dvd unat v \<and> 4096 dvd unat p \<and> 4096 dvd unat n \<and>
     unat v + unat n < 2 ^ 64 \<and> unat p + unat n < 2 ^ 64 \<and> paging_address_is_canonical v \<and>
     paging_address_is_canonical (v + n - 1) \<and> f AND (PAGE_ADDRESS_MASK OR PAGE_SIZE_LARGE) = 0 \<and>
     map_pages (unat n div 4096) tables m v p n f = (ok, tables', m'))"
proof -
  have al: "w mod 4096 = 0 \<longleftrightarrow> 4096 dvd unat w" for w :: u64
    by (simp add: word_unat_eq_iff unat_mod mod_eq_0_iff_dvd)
  show ?thesis
    using assms unfolding paging_map_def
    by (auto simp: al checked_add_u64_def split: if_splits option.splits)
qed

lemma paging_map_cut:
  assumes "pt_state tables m"
    and "paging_map tables m virtual physical bytes flags = (True, tables', m')"
  shows "pt_state tables' m' \<and>
    (if unat virtual \<le> unat a \<and> unat a < unat virtual + unat bytes
     then paging_translate tables m a = None \<and>
       (\<exists>g. paging_translate tables' m' a = Some (take_bit 52 (physical + (a - virtual)), g) \<and>
            g AND NOT PAGE_SIZE_LARGE = flags OR PAGE_PRESENT)
     else paging_translate tables' m' a = paging_translate tables m a)"
proof -
  from assms(1) obtain F pos where inv: "pt_inv F tables m pos" by (auto simp: pt_state_def)
  note run = paging_map_run [OF assms(2)]
  let ?root = "pt_root tables" and ?v = "unat virtual" and ?n = "unat bytes"
  obtain pos' where inv': "pt_inv F tables' m' pos'" and frame: "arena_frame F tables m tables' m'"
    and le48: "?n \<le> 2 ^ 48"
    and inside: "\<forall>j < ?n. leaf m ?root 4 (?v + j) = None \<and>
        (\<exists>g. xlat m' ?root (?v + j) = Some ((unat physical + j) mod 2 ^ 52, g) \<and> g AND NOT PAGE_SIZE_LARGE = flags OR PAGE_PRESENT)"
    and outside: "\<forall>w. (\<forall>j < ?n. w mod 2 ^ 48 \<noteq> (?v + j) mod 2 ^ 48) \<longrightarrow> leaf m' ?root 4 w = leaf m ?root 4 w"
    using map_pages_spec [OF inv, of virtual physical bytes flags "?n div 4096" True tables' m' ?root] run
    by auto
  have root: "pt_root tables' = ?root" "?root \<noteq> 0" using frame run by (auto simp: arena_frame_def)
  have n: "0 < ?n" using run by (auto simp: unat_gt_0)
  have "unat (virtual + bytes - 1) = ?v + ?n - 1"
  proof -
    have vn: "unat (virtual + bytes) = ?v + ?n" using run by (auto intro: unat_add_fits)
    then have "virtual + bytes \<noteq> 0" using n by auto
    with vn show ?thesis by (simp add: unat_minus_one)
  qed
  then have half: "?v + ?n \<le> 2 ^ 47 \<or> 2 ^ 64 - 2 ^ 47 \<le> ?v"
    using run n le48 unfolding canonical_nat by auto
  have canon_j: "?v + j < 2 ^ 47 \<or> 2 ^ 64 - 2 ^ 47 \<le> ?v + j" "?v + j < 2 ^ 64" if "j < ?n" for j
    using half that run by auto
  have main: "if ?v \<le> unat a \<and> unat a < ?v + ?n
     then paging_translate tables m a = None \<and>
       (\<exists>g. paging_translate tables' m' a = Some (take_bit 52 (physical + (a - virtual)), g) \<and>
            g AND NOT PAGE_SIZE_LARGE = flags OR PAGE_PRESENT)
     else paging_translate tables' m' a = paging_translate tables m a"
  proof (cases "?v \<le> unat a \<and> unat a < ?v + ?n")
    case True
    define j where "j = unat a - ?v"
    have j: "j < ?n" "?v + j = unat a" using True by (auto simp: j_def)
    have "paging_address_is_canonical a" using canon_j(1) [OF j(1)] unfolding canonical_nat j(2) .
    moreover have "of_nat ((unat physical + j) mod 2 ^ 52) = take_bit 52 (physical + (a - virtual))"
    proof -
      have "physical + (a - virtual) = of_nat (unat physical + j)" using True by (simp add: j_def of_nat_diff)
      then have "take_bit 52 (physical + (a - virtual)) = of_nat (take_bit 52 (unat physical + j))"
        by (simp only: take_bit_of_nat)
      then show ?thesis by (simp only: take_bit_eq_mod)
    qed
    ultimately show ?thesis
      using True inside j root unfolding translate_xlat by (fastforce simp: xlat_def)
  next
    case False
    have "xlat m' ?root (unat a) = xlat m ?root (unat a)" if canon: "paging_address_is_canonical a"
    proof -
      have "unat a mod 2 ^ 48 \<noteq> (?v + j) mod 2 ^ 48" if "j < ?n" for j
      proof
        assume eq: "unat a mod 2 ^ 48 = (?v + j) mod 2 ^ 48"
        have lt: "unat a < 2 ^ 64" by simp
        have "unat a = ?v + j"
          using canonical_mod_inj [OF lt canon_j(2) [OF that] canon [unfolded canonical_nat] canon_j(1) [OF that] eq] .
        with False that show False by auto
      qed
      then show ?thesis using outside by (simp add: xlat_def)
    qed
    with False root show ?thesis unfolding translate_xlat by auto
  qed
  with inv' show ?thesis unfolding pt_state_def by blast
qed

lemma paging_map_translates:
  assumes "pt_state tables m" "unat physical + unat bytes \<le> 2 ^ 52"
    and "paging_map tables m virtual physical bytes flags = (True, tables', m')"
  shows "pt_state tables' m' \<and>
    (if unat virtual \<le> unat a \<and> unat a < unat virtual + unat bytes
     then paging_translate tables m a = None \<and>
       (\<exists>g. paging_translate tables' m' a = Some (physical + (a - virtual), g) \<and>
            g AND NOT PAGE_SIZE_LARGE = flags OR PAGE_PRESENT)
     else paging_translate tables' m' a = paging_translate tables m a)"
proof -
  have "take_bit 52 (physical + (a - virtual)) = physical + (a - virtual)"
    if a: "unat virtual \<le> unat a" "unat a < unat virtual + unat bytes"
  proof (rule unat_inj)
    have d: "unat (a - virtual) = unat a - unat virtual" using a(1) by (subst unat_sub_fits) (simp_all add: word_le_nat_alt)
    then have "unat physical + unat (a - virtual) < 2 ^ 52" using a assms(2) by linarith
    then have "unat (physical + (a - virtual)) < 2 ^ 52" by (simp add: unat_add_fits)
    then show "unat (take_bit 52 (physical + (a - virtual))) = unat (physical + (a - virtual))"
      by (simp only: unsigned_take_bit_eq) (simp add: take_bit_nat_eq_self)
  qed
  then show ?thesis using paging_map_cut [OF assms(1,3), of a] by (cases "unat virtual \<le> unat a \<and> unat a < unat virtual + unat bytes") auto
qed

text \<open>
  C13. A successful \<open>paging_map\<close> makes the tables translate every address of the range to the physical
  address at the same offset, cut to the 52 bits an entry has room for, with the flags asked for; it changes no other
  translation, and none of the range was mapped before. The pages it chose, 4 KiB to 1 GiB, do not show. The code does not
  refuse a physical range beyond 2^52, whose addresses lose their upper bits.
\<close>

theorem paging_map_exact:
  assumes "pt_state tables m"
    and "paging_map tables m virtual physical bytes flags = (True, tables', m')"
  shows "pt_state tables' m' \<and>
    (if unat virtual \<le> unat a \<and> unat a < unat virtual + unat bytes
     then paging_translate tables m a = None \<and>
       (\<exists>g. paging_translate tables' m' a = Some (take_bit 52 (physical + (a - virtual)), g) \<and>
            g AND NOT PAGE_SIZE_LARGE = flags OR PAGE_PRESENT)
     else paging_translate tables' m' a = paging_translate tables m a)"
  by (rule paging_map_cut [OF assms])

text \<open>Tables that all lie above \<open>F\<close> in the arena go on doing so, and only what lies there is written.\<close>

lemma paging_map_above:
  assumes inv: "pt_inv F tables m pos" and run: "paging_map tables m virtual physical bytes flags = (ok, tables', m')"
  shows "\<exists>pos'. pt_inv F tables' m' pos' \<and> arena_frame F tables m tables' m' \<and>
    (\<forall>w y. leaf m (pt_root tables) 4 w = Some y \<longrightarrow> leaf m' (pt_root tables) 4 w = Some y)"
proof (cases "\<not> ok \<and> tables' = tables \<and> m' = m")
  case True
  with inv show ?thesis by auto
next
  case False
  with paging_map_run [OF run] show ?thesis
    using map_pages_spec [OF inv, of virtual physical bytes flags "unat bytes div 4096" ok tables' m' "pt_root tables"] by auto
qed

lemma paging_map_keeps:
  assumes "pt_state tables m" "paging_map tables m virtual physical bytes flags = (ok, tables', m')"
  shows "pt_state tables' m' \<and>
    (case paging_translate tables m a of
       None \<Rightarrow> True | Some translation \<Rightarrow> paging_translate tables' m' a = Some translation) \<and>
    (if unat (base (pt_arena tables)) \<le> unat x \<and>
        unat x < unat (base (pt_arena tables)) + unat (capacity (pt_arena tables))
     then True else m' x = m x)"
proof -
  from assms(1) obtain F pos where inv: "pt_inv F tables m pos" by (auto simp: pt_state_def)
  from paging_map_above [OF inv assms(2)] obtain pos' where p: "pt_inv F tables' m' pos'" "arena_frame F tables m tables' m'"
    "\<forall>w y. leaf m (pt_root tables) 4 w = Some y \<longrightarrow> leaf m' (pt_root tables) 4 w = Some y" by blast
  have "paging_translate tables' m' a = paging_translate tables m a" if "paging_translate tables m a \<noteq> None"
    using that p(2,3) unfolding translate_xlat by (auto simp: xlat_def arena_frame_def)
  then have "case paging_translate tables m a of
       None \<Rightarrow> True | Some translation \<Rightarrow> paging_translate tables' m' a = Some translation"
    by (auto split: option.split)
  moreover have "m' x = m x" if "\<not> (unat (base (pt_arena tables)) \<le> unat x \<and>
      unat x < unat (base (pt_arena tables)) + unat (capacity (pt_arena tables)))"
    using p(2) that pt_invD(10) [OF inv] by (auto simp: arena_frame_def)
  moreover have "pt_state tables' m'" using p(1) by (auto simp: pt_state_def)
  ultimately show ?thesis by simp
qed

text \<open>
  C14. Whatever \<open>paging_map\<close> answers, and however far it got before an arena with no room left or an
  address already mapped stopped it, every translation there was is still the same, no byte outside
  the arena of the tables has changed, and the tables can go on being used.
\<close>

theorem paging_map_preserves:
  assumes "pt_state tables m" "paging_map tables m virtual physical bytes flags = (ok, tables', m')"
  shows "pt_state tables' m' \<and>
    (case paging_translate tables m a of
       None \<Rightarrow> True | Some translation \<Rightarrow> paging_translate tables' m' a = Some translation) \<and>
    (if unat (base (pt_arena tables)) \<le> unat x \<and>
        unat x < unat (base (pt_arena tables)) + unat (capacity (pt_arena tables))
     then True else m' x = m x)"
  by (rule paging_map_keeps [OF assms])

lemma paging_created_above:
  assumes "arena_wf a" "unat (base a) + unat (capacity a) \<le> 2 ^ 52"
    and "paging_create a huge m = Some (tables, m')"
  shows "\<exists>pos. pt_inv (unat (base a) + unat (used a)) tables m' pos"
    "paging_translate tables m' x = None" "base (pt_arena tables) = base a" "capacity (pt_arena tables) = capacity a"
    "\<not> (unat (base a) + unat (used a) \<le> unat y \<and> unat y < unat (base a) + unat (capacity a)) \<Longrightarrow> m' y = m y"
proof -
  let ?t0 = "\<lparr>pt_arena = a, pt_root = 0, pt_huge_pages = huge\<rparr>"
  from assms(3) obtain root tables1 where al: "allocate_table ?t0 m = Some (root, tables1, m')"
    and t: "tables = tables1\<lparr>pt_root := root\<rparr>"
    by (auto simp: paging_create_def opt_bind)
  have "arena_wf (pt_arena ?t0)" "unat (base (pt_arena ?t0)) + unat (capacity (pt_arena ?t0)) \<le> 2 ^ 52"
    using assms(1,2) by simp_all
  note s = allocate_table_spec [OF this al order_refl]
  have zero: "load64 m' (cell root i) = 0" if "i < 512" for i
    using load_zeroed_cell [OF s(2) s(2) that] s(1) by simp
  have "pt_inv (unat (base a) + unat (used a)) tables m' [root \<mapsto> (4, 0)]"
    unfolding pt_inv_def using s zero assms(2) by (auto simp: t arena_frame_def split: if_splits)
  then show "\<exists>pos. pt_inv (unat (base a) + unat (used a)) tables m' pos" by blast
  have "leaf m' root 4 w = None" for w
    using zero by (intro leaf_empty) simp
  then show "paging_translate tables m' x = None" unfolding translate_xlat by (auto simp: t xlat_def)
  show "base (pt_arena tables) = base a" "capacity (pt_arena tables) = capacity a"
    "\<not> (unat (base a) + unat (used a) \<le> unat y \<and> unat y < unat (base a) + unat (capacity a)) \<Longrightarrow> m' y = m y"
    using s(7) by (auto simp: arena_frame_def t)
qed

lemma paging_created:
  assumes "arena_wf a" "unat (base a) + unat (capacity a) \<le> 2 ^ 52"
    and "paging_create a huge m = Some (tables, m')"
  shows "pt_state tables m' \<and> paging_translate tables m' x = None"
  using paging_created_above [OF assms] by (auto simp: pt_state_def)

text \<open>
  Tables made by \<open>paging_create\<close> translate nothing, and satisfy what the other two properties ask
  of the tables they start from.
\<close>

theorem paging_create_empty:
  assumes "arena_wf a" "unat (base a) + unat (capacity a) \<le> 2 ^ 52"
    and "paging_create a huge m = Some (tables, m')"
  shows "pt_state tables m' \<and> paging_translate tables m' x = None"
  using paging_created [OF assms] .

subsection \<open>Mapping succeeds\<close>

text \<open>Room in the arena for \<open>k\<close> more tables.\<close>

definition room :: "page_tables \<Rightarrow> nat \<Rightarrow> bool" where
  "room tables k \<longleftrightarrow>
     align_up_nat (unat (base (pt_arena tables)) + unat (used (pt_arena tables))) 4096 + 4096 * k
       \<le> unat (base (pt_arena tables)) + unat (capacity (pt_arena tables))"

lemma room_allocate:
  assumes wf: "arena_wf (pt_arena tables)"
    and end52: "unat (base (pt_arena tables)) + unat (capacity (pt_arena tables)) \<le> 2 ^ 52"
    and room: "room tables (Suc k)"
  shows "\<exists>n tables'. allocate_table tables m = Some (n, tables', memset n 0 4096 m) \<and> room tables' k"
proof -
  let ?a = "pt_arena tables"
  let ?p = "align_up_nat (unat (base ?a) + unat (used ?a)) 4096"
  have le: "?p + 4096 \<le> unat (base ?a) + unat (capacity ?a)" using room by (simp add: room_def)
  then have "?p < 2 ^ 64" using end52 by simp
  then obtain n :: u64 where n: "unat n = ?p" using ex_unat64 by blast
  have "pow2 4096" by (simp add: pow2_def)
  then have al: "arena_allocate_aligned ?a 4096 4096 = Some (n, ?a\<lparr>used := n + 4096 - base ?a\<rparr>)"
    using n le by (simp add: arena_allocate_aligned_exact [OF wf])
  then have run: "allocate_table tables m = Some (n, tables\<lparr>pt_arena := ?a\<lparr>used := n + 4096 - base ?a\<rparr>\<rparr>, memset n 0 4096 m)"
    by (simp add: allocate_table_def)
  note s = allocate_table_spec [OF wf end52 run order_refl]
  have "align_up_nat (unat n + 4096) 4096 = unat n + 4096"
    using s(2) by (auto simp: align_up_nat_def elim!: dvdE)
  then have "room (tables\<lparr>pt_arena := ?a\<lparr>used := n + 4096 - base ?a\<rparr>\<rparr>) k"
    using s(5) room n by (simp add: room_def)
  with run show ?thesis by blast
qed

lemma descend_levels_ok:
  "pt_inv F tables m pos \<Longrightarrow> pos t = Some (L, pre L (unat v)) \<Longrightarrow> steps < L \<Longrightarrow>
   walk m (pt_root tables) 4 (unat v) (4 - L) = Some t \<Longrightarrow> leaf m (pt_root tables) 4 (unat v) = None \<Longrightarrow>
   room tables steps \<Longrightarrow> \<exists>t' tables' m'. descend_levels steps tables m t L v = (Some t', tables', m')"
proof (induction steps arbitrary: tables m pos t L)
  case (Suc n)
  let ?v = "unat v"
  let ?e = "load64 m (cell t (idx L ?v))"
  have L: "1 < L" "n < L - 1" using Suc.prems(3) by arith+
  have L4: "L \<le> 4" using pt_invD(4) [OF Suc.prems(1,2)] by blast
  then have depth: "4 - (4 - L) = L" "4 - L < 4" using L by arith+
  have none: "leaf m t L ?v = None"
    using walk_leaf [OF Suc.prems(4) depth(2)] Suc.prems(5) depth(1) by simp
  have cell: "table_entry t (index_at v L) = cell t (idx L ?v)" by (rule table_entry_cell)
  have "\<exists>t1 tables1 m1. descend tables m t L v True = Some (t1, tables1, m1) \<and> room tables1 n"
  proof (cases "present ?e")
    case True
    have "\<not> large ?e"
    proof (cases "L = 4")
      case True
      with \<open>present ?e\<close> pt_invD(7) [OF Suc.prems(1)] Suc.prems(2) show ?thesis by simp
    next
      case False
      with none \<open>present ?e\<close> L L4 show ?thesis by (cases L) (auto simp: Let_def split: if_splits)
    qed
    moreover have "room tables n" using Suc.prems(6) by (simp add: room_def)
    ultimately show ?thesis using True
      by (simp add: descend_def cell Let_def present_def large_def)
  next
    case False
    with room_allocate [OF pt_invD(1,2) [OF Suc.prems(1)] Suc.prems(6), of m] show ?thesis
      by (auto simp: descend_def cell Let_def present_def)
  qed
  then obtain t1 tables1 m1 where run: "descend tables m t L v True = Some (t1, tables1, m1)"
    and room: "room tables1 n" by blast
  obtain pos1 where one: "pt_inv F tables1 m1 pos1" "pos1 t1 = Some (L - 1, pre (L - 1) ?v)"
    "walk m1 (pt_root tables) 4 ?v (4 - (L - 1)) = Some t1"
    "\<forall>w. leaf m1 (pt_root tables) 4 w = leaf m (pt_root tables) 4 w" "arena_frame F tables m tables1 m1"
    using descend_spec [OF Suc.prems(1,2) L(1) Suc.prems(4) run] by auto
  have root: "pt_root tables1 = pt_root tables" using one(5) by (simp add: arena_frame_def)
  have "leaf m1 (pt_root tables) 4 ?v = None" using one(4) Suc.prems(5) by simp
  from Suc.IH [OF one(1,2) L(2) _ _ room] this one(3) show ?case by (simp add: root run)
qed simp

lemma map_page_runs:
  assumes "pt_state tables m" "pt_root tables \<noteq> 0" "room tables 3"
    and "4096 dvd unat virtual" "4096 dvd unat physical"
    and "paging_address_is_canonical virtual" "unat physical + 4096 < 2 ^ 64" "unat virtual + 4096 < 2 ^ 64"
    and "flags AND (PAGE_ADDRESS_MASK OR PAGE_SIZE_LARGE) = 0" "paging_translate tables m virtual = None"
  shows "\<exists>tables' m'. paging_map tables m virtual physical 4096 flags = (True, tables', m')"
proof -
  from assms(1) obtain F pos where inv: "pt_inv F tables m pos" by (auto simp: pt_state_def)
  let ?v = "unat virtual" and ?root = "pt_root tables"
  have leaf: "leaf m ?root 4 ?v = None" using assms(2,6,10) by (simp add: translate_xlat xlat_def)
  have root_pos: "pos ?root = Some (4, pre 4 ?v)" using pt_invD(3) [OF inv] by (simp add: pre_root)
  obtain t tables1 m1 where down: "descend_levels 3 tables m ?root 4 virtual = (Some t, tables1, m1)"
    using descend_levels_ok [OF inv root_pos _ _ leaf assms(3)] by auto
  obtain pos1 where one: "\<forall>w. leaf m1 ?root 4 w = leaf m ?root 4 w" "walk m1 ?root 4 ?v 3 = Some t"
    using descend_levels_spec [OF inv root_pos _ _ down] by auto
  have "leaf m1 t (Suc 0) ?v = None" using walk_leaf [OF one(2)] one(1) leaf by simp
  then have absent: "\<not> present (load64 m1 (cell t (idx 1 ?v)))" by (auto simp: Let_def split: if_splits)
  have level: "level_for 4096 = 1" by (simp add: level_for_def)
  have one_page: "\<exists>m'. map_one tables m virtual physical 4096 flags = (True, tables1, m')"
    using down absent unfolding map_one_def level Let_def
    by (simp add: table_entry_cell present_def)
  then obtain m' where map1: "map_one tables m virtual physical 4096 flags = (True, tables1, m')" by blast
  have ps: "page_size_for tables virtual physical 4096 = 4096" by (simp add: page_size_for_def)
  have pages: "map_pages (Suc 0) tables m virtual physical 4096 flags = (True, tables1, m')"
    by (subst map_pages.simps) (simp add: ps map1 Let_def map_pages.simps)
  have al: "w mod 4096 = 0" if "4096 dvd unat w" for w :: u64
    using that by (simp add: word_unat_eq_iff unat_mod mod_eq_0_iff_dvd)
  have last: "paging_address_is_canonical (virtual + 4096 - 1)"
  proof -
    have vn: "unat (virtual + 4096) = ?v + 4096" using assms(8) by (simp add: unat_add_fits)
    then have "virtual + 4096 \<noteq> 0" by auto
    then have "unat (virtual + 4096 - 1) = ?v + 4095" using vn unat_minus_one by fastforce
    moreover have "?v + 4095 < 2 ^ 47 \<or> 2 ^ 64 - 2 ^ 47 \<le> ?v + 4095"
    proof -
      obtain k where k: "?v = 4096 * k" using assms(4) by (auto elim: dvdE)
      with assms(6) show ?thesis unfolding canonical_nat by auto
    qed
    ultimately show ?thesis unfolding canonical_nat by simp
  qed
  have "paging_map tables m virtual physical 4096 flags = (True, tables1, m')"
    using assms pages last by (simp add: paging_map_def al checked_add_u64_def)
  then show ?thesis by blast
qed

text \<open>
  Mapping a page that is not mapped succeeds whenever the arena has room for the three tables it
  may need: no other failure is possible.
\<close>

theorem map_page_succeeds:
  assumes "pt_state tables m" "pt_root tables \<noteq> 0" "room tables 3"
    and "4096 dvd unat virtual" "4096 dvd unat physical"
    and "paging_address_is_canonical virtual" "unat physical + 4096 < 2 ^ 64" "unat virtual + 4096 < 2 ^ 64"
    and "flags AND (PAGE_ADDRESS_MASK OR PAGE_SIZE_LARGE) = 0" "paging_translate tables m virtual = None"
  shows "\<exists>tables' m'. paging_map tables m virtual physical 4096 flags = (True, tables', m')"
  using map_page_runs [OF assms] .

text \<open>A concrete arena for the witnesses: 64 KiB at 1 MiB, of which the first page becomes the root.\<close>

abbreviation (input) demo_arena :: arena where
  "demo_arena \<equiv> \<lparr>base = 0x100000, capacity = 0x10000, used = 0\<rparr>"

lemma demo_tables:
  obtains tables m where "paging_create demo_arena False (\<lambda>_. 0) = Some (tables, m)"
    "pt_root tables = 0x100000" "room tables 3"
proof -
  have "arena_allocate_aligned demo_arena 4096 4096 = Some (0x100000, demo_arena\<lparr>used := 4096\<rparr>)"
    by (simp add: arena_allocate_aligned_def is_power_of_two_def checked_add_size_def)
  then have run: "paging_create demo_arena False (\<lambda>_. 0) =
    Some (\<lparr>pt_arena = demo_arena\<lparr>used := 4096\<rparr>, pt_root = 0x100000, pt_huge_pages = False\<rparr>, memset 0x100000 0 4096 (\<lambda>_. 0))"
    by (simp add: paging_create_def allocate_table_def)
  show thesis by (rule that [OF run]) (simp_all add: room_def align_up_nat_def)
qed

lemma paging_create_empty_witness:
  "\<exists>tables m. paging_create demo_arena False (\<lambda>_. 0) = Some (tables, m) \<and> pt_state tables m \<and>
     paging_translate tables m 0x400000 = None"
proof -
  obtain tables m where run: "paging_create demo_arena False (\<lambda>_. 0) = Some (tables, m)" by (rule demo_tables)
  have "pt_state tables m \<and> paging_translate tables m 0x400000 = None"
    by (rule paging_create_empty [OF _ _ run]) (simp_all add: arena_wf_def)
  with run show ?thesis by blast
qed

text \<open>One page mapped in fresh tables, for the witnesses of the other properties.\<close>

lemma demo_mapped:
  obtains tables m tables' m' where "pt_state tables m" "pt_root tables = 0x100000" "room tables 3"
    "paging_translate tables m 0x400000 = None"
    "paging_map tables m 0x400000 0x200000 4096 PAGE_WRITABLE = (True, tables', m')"
proof -
  obtain tables m where run: "paging_create demo_arena False (\<lambda>_. 0) = Some (tables, m)"
    and root: "pt_root tables = 0x100000" and rm: "room tables 3" by (rule demo_tables)
  have st: "pt_state tables m \<and> paging_translate tables m 0x400000 = None"
    by (rule paging_created [OF _ _ run]) (simp_all add: arena_wf_def)
  have "\<exists>tables' m'. paging_map tables m 0x400000 0x200000 4096 PAGE_WRITABLE = (True, tables', m')"
    by (rule map_page_runs) (use st root rm in \<open>simp_all add: canonical_nat\<close>)
  with st root rm that show thesis by blast
qed

lemma map_page_succeeds_witness:
  "\<exists>tables m tables' m'. pt_state tables m \<and>
     paging_map tables m 0x400000 0x200000 4096 PAGE_WRITABLE = (True, tables', m')"
proof -
  obtain tables m where st: "pt_state tables m" "pt_root tables = 0x100000" "room tables 3"
    "paging_translate tables m 0x400000 = None" by (rule demo_mapped)
  have "\<exists>tables' m'. paging_map tables m 0x400000 0x200000 4096 PAGE_WRITABLE = (True, tables', m')"
    by (rule map_page_succeeds) (use st in \<open>simp_all add: canonical_nat\<close>)
  with st(1) show ?thesis by blast
qed

lemma paging_map_exact_witness:
  "\<exists>tables m tables' m' g. paging_map tables m 0x400000 0x200000 4096 PAGE_WRITABLE = (True, tables', m') \<and>
     paging_translate tables' m' 0x400123 = Some (0x200123, g)"
proof -
  obtain tables m tables' m' where st: "pt_state tables m"
    and run: "paging_map tables m 0x400000 0x200000 4096 PAGE_WRITABLE = (True, tables', m')" by (rule demo_mapped)
  have "take_bit 52 (0x200123 :: u64) = 0x200123" by simp
  with paging_map_exact [OF st run, of "0x400123"]
  obtain g where "paging_translate tables' m' 0x400123 = Some (0x200123, g)" by auto
  with run show ?thesis by blast
qed

lemma paging_map_preserves_witness:
  "\<exists>tables m tables' m'. paging_map tables m 0x400000 0x200000 4096 PAGE_WRITABLE = (True, tables', m') \<and>
     pt_state tables' m'"
proof -
  obtain tables m tables' m' where st: "pt_state tables m"
    and run: "paging_map tables m 0x400000 0x200000 4096 PAGE_WRITABLE = (True, tables', m')" by (rule demo_mapped)
  from paging_map_preserves [OF st run] run show ?thesis by blast
qed

end
