(* ===== verification/Block.thy ===== *)
theory Block
  imports Mem
begin

text \<open>
  \<open>src/block/block.c\<close>: reads at any byte offset on top of reads of whole sectors. A device is its
  geometry and its \<open>read_sectors\<close>, a function from the sector and the count to the bytes, \<open>None\<close> for a
  refused read: the backends (ATA, the BIOS, UEFI block I/O) are parameters here. The scratch sector
  \<open>bounce\<close> holds nothing from one call to the next, so a read is a function from the device to the bytes
  read. What a failed read has stored at \<open>out\<close> by then matters to one caller only, the cache of \<open>fat.c\<close>, which
  reads single sectors: \<open>torn_sector\<close> is what the backend stores of a sector before it fails.
\<close>

abbreviation (input) BLOCK_SECTOR_BYTES_DEFAULT :: u32 where "BLOCK_SECTOR_BYTES_DEFAULT \<equiv> 512"
abbreviation (input) BLOCK_MAX_SECTORS_PER_READ :: u32 where "BLOCK_MAX_SECTORS_PER_READ \<equiv> 64"

record block_device =
  read_sectors :: "u64 \<Rightarrow> u32 \<Rightarrow> u8 list option"
  sector_bytes :: u32
  sector_count :: u64
  torn_sector :: "u64 \<Rightarrow> u8 list"

definition block_device_valid :: "block_device \<Rightarrow> bool" where
  "block_device_valid device \<longleftrightarrow>
     sector_bytes device \<noteq> 0 \<and> \<not> sector_bytes device > BLOCK_SECTOR_BYTES_DEFAULT"

definition within_device :: "block_device \<Rightarrow> u64 \<Rightarrow> u32 \<Rightarrow> bool" where
  "within_device device lba count =
     (case checked_add_u64 lba (ucast count) of
        None \<Rightarrow> False
      | Some end' \<Rightarrow> if sector_count device = 0 then True else end' \<le> sector_count device)"

text \<open>The loop of \<open>block_read\<close>: the bytes read so far are before the cursor.\<close>

function block_read_loop :: "block_device \<Rightarrow> u64 \<Rightarrow> u32 \<Rightarrow> u8 list \<Rightarrow> u8 list option" where
  "block_read_loop device lba count out =
     (if count > 0 then
        let chunk = (if count > BLOCK_MAX_SECTORS_PER_READ then BLOCK_MAX_SECTORS_PER_READ else count)
        in case read_sectors device lba chunk of
             None \<Rightarrow> None
           | Some bytes \<Rightarrow> block_read_loop device (lba + ucast chunk) (count - chunk) (out @ bytes)
      else Some out)"
  by pat_completeness auto
termination
proof (relation "measure (\<lambda>(device, lba, count, out). unat count)")
  fix device lba out x2 and count chunk :: u32
  assume "count > 0"
    "chunk = (if count > BLOCK_MAX_SECTORS_PER_READ then BLOCK_MAX_SECTORS_PER_READ else count)"
  then have "0 < unat chunk" "chunk \<le> count" by (auto simp: unat_gt_0 word_gt_0)
  then have "unat (count - chunk) < unat count"
    by (simp add: unat_sub_fits word_le_nat_alt)
  then show "((device, lba + ucast chunk, count - chunk, out @ x2), device, lba, count, out)
      \<in> measure (\<lambda>(device, lba, count, out). unat count)" by simp
qed simp

declare block_read_loop.simps [simp del]

definition block_read :: "block_device \<Rightarrow> u64 \<Rightarrow> u32 \<Rightarrow> u8 list option" where
  "block_read device lba count =
     (if \<not> block_device_valid device \<or> count = 0 then None
      else if \<not> within_device device lba count then None
      else block_read_loop device lba count [])"

text \<open>The bytes a \<open>block_read\<close> of one sector that fails has stored at \<open>out\<close>.\<close>

definition block_read_stored :: "block_device \<Rightarrow> u64 \<Rightarrow> u8 list" where
  "block_read_stored device lba =
     (if \<not> block_device_valid device then []
      else if \<not> within_device device lba 1 then []
      else torn_sector device lba)"

definition read_partial_sector :: "block_device \<Rightarrow> u64 \<Rightarrow> u32 \<Rightarrow> u32 \<Rightarrow> u8 list option" where
  "read_partial_sector device lba start len =
     do { bounce \<leftarrow> read_sectors device lba 1;
          Some (take (unat len) (drop (unat start) bounce)) }"

text \<open>The loop over whole sectors: the bytes, and the sector behind them.\<close>

function read_whole_sectors :: "block_device \<Rightarrow> u64 \<Rightarrow> u64 \<Rightarrow> u8 list \<Rightarrow> (u8 list \<times> u64) option" where
  "read_whole_sectors device lba whole out =
     (if whole > 0 then
        let chunk = (if whole > ucast BLOCK_MAX_SECTORS_PER_READ then BLOCK_MAX_SECTORS_PER_READ
                     else ucast whole)
        in case read_sectors device lba chunk of
             None \<Rightarrow> None
           | Some bytes \<Rightarrow>
               read_whole_sectors device (lba + ucast chunk) (whole - ucast chunk) (out @ bytes)
      else Some (out, lba))"
  by pat_completeness auto
termination
proof (relation "measure (\<lambda>(device, lba, whole, out). unat whole)")
  fix device lba out x2 and whole :: u64 and chunk :: u32
  assume w: "whole > 0" "chunk = (if whole > ucast BLOCK_MAX_SECTORS_PER_READ
      then BLOCK_MAX_SECTORS_PER_READ else ucast whole)"
  have "unat (ucast whole :: u32) = unat whole" if "\<not> whole > 64"
    using that by (simp add: unsigned_ucast_eq take_bit_nat_eq_self word_less_nat_alt)
  with w have "unat chunk = (if unat whole > 64 then 64 else unat whole)"
    by (auto simp: word_less_nat_alt)
  moreover have "unat (ucast chunk :: u64) = unat chunk"
    by simp
  ultimately have "unat (whole - ucast chunk) < unat whole"
    using w(1) by (subst unat_sub_fits) (auto simp: word_le_nat_alt word_less_nat_alt)
  then show "((device, lba + ucast chunk, whole - ucast chunk, out @ x2), device, lba, whole, out)
      \<in> measure (\<lambda>(device, lba, whole, out). unat whole)" by simp
qed simp

declare read_whole_sectors.simps [simp del]

text \<open>
  The three parts of \<open>block_read_bytes\<close>: the end of the sector the range starts in, the whole
  sectors, and the start of the sector it ends in. Each returns the bytes before the cursor, the
  length left, and the next sector.
\<close>

definition read_leading :: "block_device \<Rightarrow> u64 \<Rightarrow> u32 \<Rightarrow> usize \<Rightarrow> (u8 list \<times> usize \<times> u64) option" where
  "read_leading device lba into_sector len =
     (if into_sector \<noteq> 0 then
        do { let available = ucast (sector_bytes device) - ucast into_sector;
             let n = (ucast (if available < len then available else len) :: u32);
             part \<leftarrow> read_partial_sector device lba into_sector n;
             Some (part, len - ucast n, lba + 1) }
      else Some ([], len, lba))"

definition read_middle :: "block_device \<Rightarrow> u8 list \<times> usize \<times> u64 \<Rightarrow> (u8 list \<times> usize \<times> u64) option" where
  "read_middle device = (\<lambda>(out, len, lba).
     let bytes = ucast (sector_bytes device)
     in if len \<ge> bytes then
          do { let whole = len div bytes;
               (out, lba') \<leftarrow> read_whole_sectors device lba whole out;
               Some (out, len - whole * bytes, lba') }
        else Some (out, len, lba))"

definition read_trailing :: "block_device \<Rightarrow> u8 list \<times> usize \<times> u64 \<Rightarrow> u8 list option" where
  "read_trailing device = (\<lambda>(out, len, lba).
     if len > 0 then
       do { part \<leftarrow> read_partial_sector device lba 0 (ucast len); Some (out @ part) }
     else Some out)"

definition block_read_bytes :: "block_device \<Rightarrow> u64 \<Rightarrow> usize \<Rightarrow> u8 list option" where
  "block_read_bytes device offset len =
     (if \<not> block_device_valid device then None
      else if len = 0 then Some []
      else do {
        end' \<leftarrow> checked_add_u64 offset len;
        let bytes = (ucast (sector_bytes device) :: u64);
        let lba = offset div bytes;
        let into_sector = (ucast (offset mod bytes) :: u32);
        ensure (\<not> (sector_count device \<noteq> 0 \<and> (end' - 1) div bytes \<ge> sector_count device));
        leading \<leftarrow> read_leading device lba into_sector len;
        middle \<leftarrow> read_middle device leading;
        read_trailing device middle
      })"

text \<open>A read of one sector into a 512-byte buffer that held \<open>stale\<close>.\<close>

definition fill_sector :: "u8 list \<Rightarrow> u8 list \<Rightarrow> u8 list" where
  "fill_sector bytes stale = take 512 (bytes @ drop (length bytes) stale)"

subsection \<open>The bytes of a device\<close>

text \<open>
  A backend is sound for a disk image when every read it does not refuse returns the image's bytes,
  and complete up to \<open>n\<close> sectors when it refuses no read inside them. These are its documented duties:
  the layer above asks for at most 64 sectors at a time.
\<close>

definition image_bytes :: "(nat \<Rightarrow> u8) \<Rightarrow> nat \<Rightarrow> nat \<Rightarrow> u8 list" where
  "image_bytes disk off n = map disk [off..<off + n]"

text \<open>A little-endian field of the file.\<close>

definition file_field :: "(nat \<Rightarrow> u8) \<Rightarrow> nat \<Rightarrow> nat \<Rightarrow> u64" where
  "file_field file off n = little_endian (image_bytes file off n) n"

text \<open>A file of given bytes, zero behind them.\<close>

definition file_of :: "u8 list \<Rightarrow> nat \<Rightarrow> u8" where
  "file_of bs i = (if i < length bs then bs ! i else 0)"

definition sound_device :: "block_device \<Rightarrow> (nat \<Rightarrow> u8) \<Rightarrow> bool" where
  "sound_device d disk \<longleftrightarrow>
     (\<forall>lba count bytes. 0 < count \<and> count \<le> BLOCK_MAX_SECTORS_PER_READ \<and> unat lba + unat count \<le> 2 ^ 64 \<and>
        read_sectors d lba count = Some bytes \<longrightarrow>
        bytes = image_bytes disk (unat lba * unat (sector_bytes d)) (unat count * unat (sector_bytes d)))"

definition complete_device :: "block_device \<Rightarrow> bool" where
  "complete_device d \<longleftrightarrow>
     (\<forall>lba count. 0 < count \<and> count \<le> BLOCK_MAX_SECTORS_PER_READ \<and>
        unat lba + unat count \<le> unat (sector_count d) \<longrightarrow> read_sectors d lba count \<noteq> None)"

lemma length_image_bytes [simp]: "length (image_bytes disk off n) = n"
  by (simp add: image_bytes_def)

lemma image_bytes_0 [simp]: "image_bytes disk off 0 = []"
  by (simp add: image_bytes_def)

lemma image_bytes_append: "image_bytes disk off a @ image_bytes disk (off + a) b = image_bytes disk off (a + b)"
proof -
  have "[off..<off + (a + b)] = [off..<off + a] @ [off + a..<off + (a + b)]"
    by (rule upt_split) simp_all
  then show ?thesis by (simp add: image_bytes_def add.assoc)
qed

lemma image_bytes_slice: "a + n \<le> k \<Longrightarrow> take n (drop a (image_bytes disk off k)) = image_bytes disk (off + a) n"
  by (rule nth_equalityI) (auto simp: image_bytes_def add.assoc)

lemma image_bytes_file_of: "off + n \<le> length bs \<Longrightarrow> image_bytes (file_of bs) off n = take n (drop off bs)"
  by (rule nth_equalityI) (auto simp: image_bytes_def file_of_def)

lemma field_at:
  "k + n \<le> len \<Longrightarrow> little_endian (drop k (image_bytes file off len)) n = file_field file (off + k) n"
  unfolding file_field_def by (rule little_endian_cong) (simp add: image_bytes_def add.assoc)

lemma sound_deviceD:
  "sound_device d disk \<Longrightarrow> read_sectors d lba count = Some bytes \<Longrightarrow> 0 < unat count \<Longrightarrow> unat count \<le> 64 \<Longrightarrow>
   unat lba + unat count \<le> 2 ^ 64 \<Longrightarrow>
   bytes = image_bytes disk (unat lba * unat (sector_bytes d)) (unat count * unat (sector_bytes d))"
  by (auto simp: sound_device_def word_less_nat_alt word_le_nat_alt)

lemma read_partial_sector_bytes:
  assumes "sound_device d disk" "read_partial_sector d lba start n = Some bytes"
    "unat start + unat n \<le> unat (sector_bytes d)"
  shows "bytes = image_bytes disk (unat lba * unat (sector_bytes d) + unat start) (unat n)"
proof -
  from assms(2) obtain b where b: "read_sectors d lba 1 = Some b" "bytes = take (unat n) (drop (unat start) b)"
    by (auto simp: read_partial_sector_def opt_bind)
  have "unat lba + unat (1 :: u32) \<le> 2 ^ 64" using unat_lt64 [of lba] by (simp add: Suc_le_eq)
  from sound_deviceD [OF assms(1) b(1) _ _ this] b(2) assms(3) show ?thesis
    by (simp add: image_bytes_slice)
qed

lemma chunk_nat:
  fixes whole :: u64
  defines "chunk \<equiv> (if whole > ucast BLOCK_MAX_SECTORS_PER_READ then BLOCK_MAX_SECTORS_PER_READ else ucast whole :: u32)"
  shows "unat chunk = min 64 (unat whole)" "unat (ucast chunk :: u64) = min 64 (unat whole)"
proof -
  have "unat (ucast whole :: u32) = unat whole" if "\<not> whole > 64"
    using that by (simp add: unsigned_ucast_eq take_bit_nat_eq_self word_less_nat_alt)
  then show c: "unat chunk = min 64 (unat whole)"
    by (auto simp: chunk_def word_less_nat_alt)
  have "unat (ucast chunk :: u64) = unat chunk"
    by simp
  with c show "unat (ucast chunk :: u64) = min 64 (unat whole)" by simp
qed

lemma read_whole_sectors_bytes:
  assumes "sound_device d disk"
  shows "read_whole_sectors d lba whole out = Some (out', lba') \<Longrightarrow> unat lba + unat whole < 2 ^ 64 \<Longrightarrow>
    out' = out @ image_bytes disk (unat lba * unat (sector_bytes d)) (unat whole * unat (sector_bytes d)) \<and>
    unat lba' = unat lba + unat whole"
proof (induction "unat whole" arbitrary: lba whole out rule: less_induct)
  case less
  show ?case
  proof (cases "whole > 0")
    case False
    then show ?thesis using less.prems(1) by (subst (asm) read_whole_sectors.simps) (simp add: word_gt_0)
  next
    case True
    let ?sb = "unat (sector_bytes d)"
    define chunk where "chunk = (if whole > ucast BLOCK_MAX_SECTORS_PER_READ then BLOCK_MAX_SECTORS_PER_READ else ucast whole :: u32)"
    note c = chunk_nat [of whole, folded chunk_def]
    have pos: "0 < unat whole" using True by (simp add: word_less_nat_alt)
    obtain bytes where b: "read_sectors d lba chunk = Some bytes"
      and rest: "read_whole_sectors d (lba + ucast chunk) (whole - ucast chunk) (out @ bytes) = Some (out', lba')"
      using less.prems(1) True by (subst (asm) read_whole_sectors.simps) (auto simp: Let_def chunk_def split: option.splits)
    have "bytes = image_bytes disk (unat lba * ?sb) (unat chunk * ?sb)"
      using less.prems(2) pos c by (intro sound_deviceD [OF assms b]) auto
    moreover have l: "unat (lba + ucast chunk) = unat lba + unat chunk"
      using less.prems(2) c by (subst unat_add_fits) auto
    moreover have w: "unat (whole - ucast chunk) = unat whole - unat chunk"
      using c by (subst unat_sub_fits) (auto simp: word_le_nat_alt)
    moreover have "out' = (out @ bytes) @ image_bytes disk (unat (lba + ucast chunk) * ?sb) (unat (whole - ucast chunk) * ?sb) \<and>
        unat lba' = unat (lba + ucast chunk) + unat (whole - ucast chunk)"
      using pos c less.prems(2) l w by (intro less.hyps [OF _ rest]) auto
    moreover have "unat whole * ?sb = unat chunk * ?sb + (unat whole - unat chunk) * ?sb"
      using c by (simp flip: add_mult_distrib)
    ultimately show ?thesis
      using c image_bytes_append [of disk "unat lba * ?sb" "unat chunk * ?sb" "(unat whole - unat chunk) * ?sb"]
      by (simp add: add_mult_distrib)
  qed
qed

lemma read_whole_sectors_total:
  assumes "complete_device d"
  shows "unat lba + unat whole \<le> unat (sector_count d) \<Longrightarrow> read_whole_sectors d lba whole out \<noteq> None"
proof (induction "unat whole" arbitrary: lba whole out rule: less_induct)
  case less
  show ?case
  proof (cases "whole > 0")
    case False
    then show ?thesis by (subst read_whole_sectors.simps) simp
  next
    case True
    define chunk where "chunk = (if whole > ucast BLOCK_MAX_SECTORS_PER_READ then BLOCK_MAX_SECTORS_PER_READ else ucast whole :: u32)"
    note c = chunk_nat [of whole, folded chunk_def]
    have pos: "0 < unat whole" using True by (simp add: word_less_nat_alt)
    have le: "unat lba + unat chunk \<le> unat (sector_count d)" using less.prems c by linarith
    then obtain bytes where b: "read_sectors d lba chunk = Some bytes"
      using assms pos c by (fastforce simp: complete_device_def word_less_nat_alt word_le_nat_alt)
    have l: "unat (lba + ucast chunk) = unat lba + unat chunk"
      using le c unat_add_below [of lba "ucast chunk" "sector_count d"] by simp
    have w: "unat (whole - ucast chunk) = unat whole - unat chunk"
      using c by (subst unat_sub_fits) (auto simp: word_le_nat_alt)
    have "read_whole_sectors d (lba + ucast chunk) (whole - ucast chunk) (out @ bytes) \<noteq> None"
      using pos c less.prems l w by (intro less.hyps) auto
    then show ?thesis using True b by (subst read_whole_sectors.simps) (simp add: Let_def chunk_def)
  qed
qed

subsection \<open>The three parts of a read\<close>

text \<open>
  \<open>progress\<close>: the bytes from \<open>o\<close> to \<open>q\<close> are read, \<open>r\<close> are left, and if any are left the next sector starts
  at \<open>q\<close>.
\<close>

definition progress ::
  "block_device \<Rightarrow> (nat \<Rightarrow> u8) \<Rightarrow> nat \<Rightarrow> nat \<Rightarrow> nat \<Rightarrow> u8 list \<times> usize \<times> u64 \<Rightarrow> bool" where
  "progress d disk off k r = (\<lambda>(out, len, lba).
     out = image_bytes disk off k \<and> unat len = r \<and>
     (r = 0 \<or> unat lba * unat (sector_bytes d) = off + k))"

lemma valid_sector_bytes:
  "block_device_valid d \<Longrightarrow> 0 < unat (sector_bytes d) \<and> unat (sector_bytes d) \<le> 512"
  "unat (ucast (sector_bytes d) :: u64) = unat (sector_bytes d)"
  by (auto simp: block_device_valid_def unat_gt_0 word_less_nat_alt not_less
      unsigned_ucast_eq take_bit_nat_eq_self less_trans [OF unat_lt32])

lemma within_sector:
  fixes off :: u64
  assumes "block_device_valid d"
  shows "unat (ucast (off mod ucast (sector_bytes d)) :: u32) = unat off mod unat (sector_bytes d)"
proof -
  have "unat off mod unat (sector_bytes d) < unat (sector_bytes d)"
    using valid_sector_bytes(1) [OF assms] by simp
  also have "\<dots> < 2 ^ 32" by simp
  finally have "unat (off mod ucast (sector_bytes d)) < 2 ^ 32" by (simp add: unat_mod)
  with unat_ucast_down [of "off mod ucast (sector_bytes d)", where 'b = 32] show ?thesis by (simp add: unat_mod)
qed

definition leading_bytes :: "nat \<Rightarrow> nat \<Rightarrow> nat \<Rightarrow> nat" where
  "leading_bytes sb off n = (if off mod sb = 0 then 0 else min (sb - off mod sb) n)"

lemma read_leading_run:
  assumes valid: "block_device_valid d" and n: "len \<noteq> 0" and fits: "unat off + unat len < 2 ^ 64"
  defines "sb \<equiv> unat (sector_bytes d)"
  defines "k \<equiv> leading_bytes sb (unat off) (unat len)"
  defines "into \<equiv> ucast (off mod ucast (sector_bytes d)) :: u32"
  shows "read_leading d (off div ucast (sector_bytes d)) into len =
    (if unat off mod sb = 0 then Some ([], len, off div ucast (sector_bytes d))
     else map_option (\<lambda>part. (part, len - of_nat k, off div ucast (sector_bytes d) + 1))
       (read_partial_sector d (off div ucast (sector_bytes d)) into (of_nat k)))"
    "k \<le> unat len" "k < 2 ^ 32" "unat into + k \<le> sb" "unat into = unat off mod sb"
proof -
  note sb = valid_sector_bytes(1) [OF valid, folded sb_def] valid_sector_bytes(2) [of d, folded sb_def]
  show into: "unat into = unat off mod sb" unfolding into_def sb_def by (rule within_sector [OF valid])
  show k: "k \<le> unat len" "unat into + k \<le> sb"
  proof -
    have "unat off mod sb < sb" using sb(1) by simp
    moreover have "k \<le> sb - unat off mod sb" by (simp add: k_def leading_bytes_def)
    ultimately show "unat into + k \<le> sb" unfolding into by linarith
  qed (simp add: k_def leading_bytes_def)
  then show k32: "k < 2 ^ 32" using sb by simp
  have into64: "unat (ucast into :: u64) = unat off mod sb"
    using into by (simp add: unsigned_ucast_eq take_bit_nat_eq_self less_trans [OF unat_lt32])
  have zero: "into = 0 \<longleftrightarrow> unat off mod sb = 0"
    using into by (metis unat_0 unat_inj)
  have avail: "unat (ucast (sector_bytes d) - ucast into :: u64) = sb - unat off mod sb"
    using sb into64 by (subst unat_sub_fits) (auto simp: word_le_nat_alt)
  have pick: "(ucast (if ucast (sector_bytes d) - ucast into < len then ucast (sector_bytes d) - ucast into else len) :: u32) = of_nat k"
    if "unat off mod sb \<noteq> 0"
  proof -
    define x where "x = (if ucast (sector_bytes d) - ucast into < len then ucast (sector_bytes d) - ucast into else len)"
    have "unat x = k"
      using that avail by (auto simp: x_def k_def leading_bytes_def word_less_nat_alt)
    then have "unat (ucast x :: u32) = k" using k32 by (subst unat_ucast_down) simp_all
    then show ?thesis unfolding x_def by (rule word_eq_of_nat)
  qed
  show "read_leading d (off div ucast (sector_bytes d)) into len =
    (if unat off mod sb = 0 then Some ([], len, off div ucast (sector_bytes d))
     else map_option (\<lambda>part. (part, len - of_nat k, off div ucast (sector_bytes d) + 1))
       (read_partial_sector d (off div ucast (sector_bytes d)) into (of_nat k)))"
  proof -
    have "unat (of_nat k :: u32) = k" using k32 by (simp add: unat_of_nat take_bit_nat_eq_self)
    then have wide: "ucast (of_nat k :: u32) = (of_nat k :: u64)" by (intro word_eq_of_nat) simp
    show ?thesis
    using zero pick wide unfolding read_leading_def Let_def
    by (cases "read_partial_sector d (off div ucast (sector_bytes d)) into (of_nat k)")
       (auto simp: opt_bind)
  qed
qed

lemma read_leading_progress:
  assumes sound: "sound_device d disk" and valid: "block_device_valid d" and n: "len \<noteq> 0"
    and fits: "unat off + unat len < 2 ^ 64"
    and run: "read_leading d (off div ucast (sector_bytes d)) (ucast (off mod ucast (sector_bytes d))) len = Some st"
  defines "k \<equiv> leading_bytes (unat (sector_bytes d)) (unat off) (unat len)"
  shows "progress d disk (unat off) k (unat len - k) st"
proof -
  let ?sb = "unat (sector_bytes d)"
  note lead = read_leading_run [OF valid n fits, folded k_def]
  have lba: "unat (off div ucast (sector_bytes d)) = unat off div ?sb"
    by (simp add: unat_div valid_sector_bytes(2))
  show ?thesis
  proof (cases "unat off mod ?sb = 0")
    case True
    then have "unat off div ?sb * ?sb = unat off" by (metis add.right_neutral div_mult_mod_eq)
    with True run show ?thesis
      unfolding lead(1) by (auto simp: progress_def k_def leading_bytes_def lba)
  next
    case False
    then obtain part where part: "read_partial_sector d (off div ucast (sector_bytes d)) (ucast (off mod ucast (sector_bytes d))) (of_nat k) = Some part"
      and st: "st = (part, len - of_nat k, off div ucast (sector_bytes d) + 1)"
      using run unfolding lead(1) by auto
    have k32: "unat (of_nat k :: u32) = k" and k64: "unat (of_nat k :: u64) = k"
      using lead(3) by (simp_all add: unat_of_nat take_bit_nat_eq_self)
    have "part = image_bytes disk (unat off div ?sb * ?sb + unat off mod ?sb) k"
      using read_partial_sector_bytes [OF sound part] lead(4,5) by (simp add: k32 lba)
    then have p: "part = image_bytes disk (unat off) k" by simp
    have l: "unat (len - of_nat k) = unat len - k"
      using lead(2) k64 by (simp add: unat_sub_fits word_le_nat_alt)
    have "unat (off div ucast (sector_bytes d) + 1) * ?sb = unat off + k" if "unat len - k \<noteq> 0"
    proof -
      have k: "k = ?sb - unat off mod ?sb" using that False by (auto simp: k_def leading_bytes_def min_def split: if_splits)
      have "unat off mod ?sb < ?sb" using valid_sector_bytes(1) [OF valid] by simp
      then have eq: "(unat off div ?sb + 1) * ?sb = unat off + k"
      proof -
        have "(unat off div ?sb + 1) * ?sb = unat off div ?sb * ?sb + ?sb" by simp
        with k div_mult_mod_eq [of "unat off" ?sb] \<open>unat off mod ?sb < ?sb\<close> show ?thesis by linarith
      qed
      have "unat off div ?sb + 1 < 2 ^ 64"
      proof -
        have "(unat off div ?sb + 1) * 1 \<le> (unat off div ?sb + 1) * ?sb"
          using valid_sector_bytes(1) [OF valid] by (intro mult_le_mono2) simp
        then have "unat off div ?sb + 1 \<le> (unat off div ?sb + 1) * ?sb" by simp
        also have "\<dots> < 2 ^ 64" unfolding eq using fits lead(2) by linarith
        finally show ?thesis .
      qed
      then have "unat (off div ucast (sector_bytes d) + 1) = unat off div ?sb + 1"
        by (simp add: unat_add_fits lba)
      with eq show ?thesis by simp
    qed
    with p l st show ?thesis by (auto simp: progress_def)
  qed
qed

lemma read_middle_progress:
  assumes sound: "sound_device d disk" and valid: "block_device_valid d"
    and st: "progress d disk off k r st" "off + k + r < 2 ^ 64" and run: "read_middle d st = Some st'"
  defines "w \<equiv> r div unat (sector_bytes d) * unat (sector_bytes d)"
  shows "progress d disk off (k + w) (r - w) st'"
proof -
  let ?sb = "unat (sector_bytes d)"
  obtain out len lba where s: "st = (out, len, lba)" by (cases st)
  then have p: "out = image_bytes disk off k" "unat len = r" "r = 0 \<or> unat lba * ?sb = off + k"
    using st(1) by (simp_all add: progress_def)
  have sb: "0 < ?sb" "unat (ucast (sector_bytes d) :: u64) = ?sb"
    using valid_sector_bytes [of d] valid by auto
  show ?thesis
  proof (cases "len \<ge> ucast (sector_bytes d)")
    case False
    then have "r < ?sb" using p sb by (simp add: word_le_nat_alt)
    then have "w = 0" by (simp add: w_def)
    with False run st(1) s show ?thesis by (simp add: read_middle_def Let_def)
  next
    case True
    then have r: "?sb \<le> r" "unat lba * ?sb = off + k" using p sb by (auto simp: word_le_nat_alt)
    define whole where "whole = len div ucast (sector_bytes d)"
    have whole: "unat whole = r div ?sb" by (simp add: whole_def unat_div p(2) sb(2))
    obtain out' lba' where rd: "read_whole_sectors d lba whole out = Some (out', lba')"
      and st': "st' = (out', len - whole * ucast (sector_bytes d), lba')"
      using run True s by (auto simp: read_middle_def Let_def opt_bind whole_def)
    have w: "w \<le> r" by (simp add: w_def)
    have "(unat lba + unat whole) * ?sb = off + k + w" by (simp add: add_mult_distrib r(2) whole w_def)
    moreover have "unat lba + unat whole \<le> (unat lba + unat whole) * ?sb" using sb(1) by simp
    ultimately have "unat lba + unat whole < 2 ^ 64" using st(2) w by linarith
    from read_whole_sectors_bytes [OF sound rd this]
    have out': "out' = out @ image_bytes disk (off + k) w" "unat lba' = unat lba + unat whole"
      by (simp_all add: r(2) whole w_def)
    have "unat (whole * ucast (sector_bytes d)) = w"
      using w p(2) unat_mult_below [of whole "ucast (sector_bytes d)" len] by (simp add: whole w_def sb(2))
    then have "unat (len - whole * ucast (sector_bytes d)) = r - w"
      using w p(2) by (subst unat_sub_fits) (simp_all add: word_le_nat_alt)
    moreover have "unat lba' * ?sb = off + (k + w)" by (simp add: out'(2) add_mult_distrib r(2) whole w_def)
    ultimately show ?thesis
      by (simp add: progress_def st' out'(1) p(1) image_bytes_append)
  qed
qed

lemma read_trailing_bytes:
  assumes sound: "sound_device d disk" and valid: "block_device_valid d"
    and st: "progress d disk off k r st" "r < unat (sector_bytes d)" and run: "read_trailing d st = Some out"
  shows "out = image_bytes disk off (k + r)"
proof -
  obtain bs len lba where s: "st = (bs, len, lba)" by (cases st)
  then have p: "bs = image_bytes disk off k" "unat len = r" "r = 0 \<or> unat lba * unat (sector_bytes d) = off + k"
    using st(1) by (simp_all add: progress_def)
  show ?thesis
  proof (cases "len > 0")
    case False
    then show ?thesis using run s p by (simp add: read_trailing_def word_gt_0)
  next
    case True
    then obtain part where part: "read_partial_sector d lba 0 (ucast len) = Some part" "out = bs @ part"
      using run s by (auto simp: read_trailing_def opt_bind)
    have "r \<noteq> 0" using True p(2) by (auto simp: word_less_nat_alt)
    have l: "unat (ucast len :: u32) = r"
      using less_trans [OF st(2) unat_lt32] p(2) by (subst unat_ucast_down) simp_all
    have "part = image_bytes disk (off + k) r"
      using read_partial_sector_bytes [OF sound part(1)] st(2) p(3) \<open>r \<noteq> 0\<close> by (simp add: l)
    then show ?thesis by (simp add: part(2) p(1) image_bytes_append)
  qed
qed

text \<open>A read that is not refused returns the bytes of the image in the range asked for.\<close>

lemma block_read_bytes_sound:
  assumes sound: "sound_device d disk" and run: "block_read_bytes d off len = Some bytes"
  shows "bytes = image_bytes disk (unat off) (unat len)"
proof (cases "len = 0")
  case True
  with run show ?thesis by (auto simp: block_read_bytes_def split: if_splits)
next
  case False
  then have valid: "block_device_valid d" using run by (auto simp: block_read_bytes_def split: if_splits)
  from run False valid obtain e st1 st2 where e: "checked_add_u64 off len = Some e"
    and lead: "read_leading d (off div ucast (sector_bytes d)) (ucast (off mod ucast (sector_bytes d))) len = Some st1"
    and mid: "read_middle d st1 = Some st2" and trail: "read_trailing d st2 = Some bytes"
    by (auto simp: block_read_bytes_def opt_bind Let_def)
  have fits: "unat off + unat len < 2 ^ 64" using e by (simp add: checked_add_u64_def split: if_splits)
  let ?sb = "unat (sector_bytes d)"
  let ?k = "leading_bytes ?sb (unat off) (unat len)"
  have k: "?k \<le> unat len" by (rule read_leading_run(2) [OF valid False fits])
  note p1 = read_leading_progress [OF sound valid False fits lead]
  let ?r = "unat len - ?k"
  let ?w = "?r div ?sb * ?sb"
  have "unat off + ?k + ?r < 2 ^ 64" using fits k by simp
  note p2 = read_middle_progress [OF sound valid p1 this mid]
  have rest: "?r - ?w = ?r mod ?sb" by (simp add: minus_div_mult_eq_mod)
  have "?r mod ?sb < ?sb" using valid_sector_bytes(1) [OF valid] by simp
  with read_trailing_bytes [OF sound valid p2 _ trail] have "bytes = image_bytes disk (unat off) (?k + ?w + (?r - ?w))"
    unfolding rest by simp
  moreover have "?w \<le> ?r" by (rule div_times_less_eq_dividend)
  then have "?k + ?w + (?r - ?w) = unat len" using k by linarith
  ultimately show ?thesis by simp
qed

lemma complete_one: "complete_device d \<Longrightarrow> unat lba < unat (sector_count d) \<Longrightarrow> \<exists>b. read_sectors d lba 1 = Some b"
  by (auto simp: complete_device_def word_less_nat_alt word_le_nat_alt)

text \<open>A read inside a device that answers every read inside it is not refused.\<close>

lemma block_read_bytes_total:
  assumes sound: "sound_device d disk" and complete: "complete_device d" and valid: "block_device_valid d"
    and fits: "unat off + unat len < 2 ^ 64"
    and inside: "unat off + unat len \<le> unat (sector_count d) * unat (sector_bytes d)"
  shows "block_read_bytes d off len \<noteq> None"
proof (cases "len = 0")
  case True
  with valid show ?thesis by (simp add: block_read_bytes_def)
next
  case False
  let ?sb = "unat (sector_bytes d)" and ?sc = "unat (sector_count d)"
  have sb: "0 < ?sb" "unat (ucast (sector_bytes d) :: u64) = ?sb" using valid_sector_bytes [of d] valid by auto
  have pos: "0 < unat len" using False by (simp add: unat_gt_0)
  have below: "unat lba < ?sc" if "unat lba * ?sb < unat off + unat len" for lba :: u64
  proof -
    have "unat lba * ?sb < ?sc * ?sb" using that inside by linarith
    then show ?thesis by simp
  qed
  let ?k = "leading_bytes ?sb (unat off) (unat len)"
  note lead = read_leading_run [OF valid False fits]
  have "unat (off div ucast (sector_bytes d)) * ?sb \<le> unat off"
    by (simp add: unat_div sb(2) div_times_less_eq_dividend)
  then have "unat (off div ucast (sector_bytes d)) < ?sc" using pos by (intro below) linarith
  then obtain b where "read_sectors d (off div ucast (sector_bytes d)) 1 = Some b" using complete_one [OF complete] by blast
  then have "read_leading d (off div ucast (sector_bytes d)) (ucast (off mod ucast (sector_bytes d))) len \<noteq> None"
    unfolding lead(1) by (simp add: read_partial_sector_def)
  then obtain st1 where st1: "read_leading d (off div ucast (sector_bytes d)) (ucast (off mod ucast (sector_bytes d))) len = Some st1"
    by blast
  note p1 = read_leading_progress [OF sound valid False fits st1]
  let ?r = "unat len - ?k"
  have fits1: "unat off + ?k + ?r < 2 ^ 64" using fits lead(2) by simp
  obtain out1 len1 lba1 where s1: "st1 = (out1, len1, lba1)" by (cases st1)
  then have q1: "unat len1 = ?r" "?r = 0 \<or> unat lba1 * ?sb = unat off + ?k" using p1 by (simp_all add: progress_def)
  have "read_middle d st1 \<noteq> None"
  proof (cases "len1 \<ge> ucast (sector_bytes d)")
    case True
    then have "?r \<noteq> 0" using q1(1) sb by (simp add: word_le_nat_alt)
    then have "(unat lba1 + ?r div ?sb) * ?sb \<le> ?sc * ?sb"
    proof -
      have "?r div ?sb * ?sb \<le> ?r" by (rule div_times_less_eq_dividend)
      moreover have "unat lba1 * ?sb = unat off + ?k" using q1(2) \<open>?r \<noteq> 0\<close> by blast
      ultimately show ?thesis unfolding add_mult_distrib using inside lead(2) by linarith
    qed
    then have "unat lba1 + unat (len1 div ucast (sector_bytes d)) \<le> ?sc"
      using sb q1(1) by (simp add: unat_div)
    from read_whole_sectors_total [OF complete this]
    obtain x where "read_whole_sectors d lba1 (len1 div ucast (sector_bytes d)) out1 = Some x" by blast
    then show ?thesis using s1 by (cases x) (simp add: read_middle_def Let_def)
  qed (simp add: read_middle_def s1 Let_def)
  then obtain st2 where st2: "read_middle d st1 = Some st2" by blast
  note p2 = read_middle_progress [OF sound valid p1 fits1 st2]
  let ?w = "?r div ?sb * ?sb"
  obtain out2 len2 lba2 where s2: "st2 = (out2, len2, lba2)" by (cases st2)
  then have q2: "unat len2 = ?r - ?w" "?r - ?w = 0 \<or> unat lba2 * ?sb = unat off + (?k + ?w)"
    using p2 by (simp_all add: progress_def)
  have "read_trailing d st2 \<noteq> None"
  proof (cases "len2 > 0")
    case True
    then have "?r - ?w \<noteq> 0" using q2(1) by (auto simp: word_less_nat_alt)
    then have "unat lba2 < ?sc" using q2(2) lead(2) by (intro below) linarith
    then obtain b where "read_sectors d lba2 1 = Some b" using complete_one [OF complete] by blast
    then show ?thesis by (simp add: read_trailing_def s2 read_partial_sector_def)
  qed (simp add: read_trailing_def s2)
  moreover obtain e where e: "checked_add_u64 off len = Some e" "unat e = unat off + unat len"
    using fits by (auto simp: checked_add_u64_def unat_add_fits)
  moreover have "\<not> (e - 1) div ucast (sector_bytes d) \<ge> sector_count d"
  proof -
    have "unat (e - 1) = unat off + unat len - 1" using e(2) pos by (subst unat_minus_one) auto
    then have "unat (e - 1) < ?sc * ?sb" using inside pos by linarith
    then have "unat (e - 1) div ?sb < ?sc" by (rule less_mult_imp_div_less)
    then show ?thesis by (simp add: word_le_nat_alt unat_div sb(2))
  qed
  ultimately show ?thesis
    using False valid st1 st2 by (simp add: block_read_bytes_def Let_def)
qed

lemma block_read_bytes_refuses:
  assumes "sector_count d \<noteq> 0" "len \<noteq> 0" "block_read_bytes d off len = Some bytes"
  shows "unat off + unat len < 2 ^ 64" "unat off + unat len \<le> unat (sector_count d) * unat (sector_bytes d)"
proof -
  from assms obtain e where e: "checked_add_u64 off len = Some e"
    and last: "\<not> (e - 1) div ucast (sector_bytes d) \<ge> sector_count d"
    and valid: "block_device_valid d"
    by (auto simp: block_read_bytes_def opt_bind Let_def split: if_splits)
  show fits: "unat off + unat len < 2 ^ 64" using e by (simp add: checked_add_u64_def split: if_splits)
  let ?sb = "unat (sector_bytes d)" and ?sc = "unat (sector_count d)"
  have sb: "0 < ?sb" using valid_sector_bytes(1) [OF valid] by simp
  have pos: "0 < unat len" using assms(2) by (simp add: unat_gt_0)
  have "unat e = unat off + unat len" using e by (simp add: checked_Some)
  then have e1: "unat (e - 1) = unat off + unat len - 1" using pos by (subst unat_minus_one) auto
  have "unat (e - 1) div ?sb < ?sc" using last by (simp add: word_le_nat_alt unat_div valid_sector_bytes(2))
  then have "unat (e - 1) < ?sc * ?sb" using sb by (simp add: div_less_iff_less_mult)
  then show "unat off + unat len \<le> ?sc * ?sb" using e1 by simp
qed

subsection \<open>Reads of whole sectors\<close>

lemma block_read_loop_sound:
  assumes "sound_device d disk"
  shows "block_read_loop d lba count out = Some out' \<Longrightarrow> unat lba + unat count < 2 ^ 64 \<Longrightarrow>
    out' = out @ image_bytes disk (unat lba * unat (sector_bytes d)) (unat count * unat (sector_bytes d))"
proof (induction "unat count" arbitrary: lba count out rule: less_induct)
  case less
  show ?case
  proof (cases "count > 0")
    case False
    then show ?thesis using less.prems(1) by (subst (asm) block_read_loop.simps) (simp add: word_gt_0)
  next
    case True
    let ?sb = "unat (sector_bytes d)"
    define chunk where "chunk = (if count > BLOCK_MAX_SECTORS_PER_READ then BLOCK_MAX_SECTORS_PER_READ else count)"
    have c: "unat chunk = min 64 (unat count)" by (auto simp: chunk_def word_less_nat_alt)
    have pos: "0 < unat count" using True by (simp add: word_less_nat_alt)
    obtain bytes where b: "read_sectors d lba chunk = Some bytes"
      and rest: "block_read_loop d (lba + ucast chunk) (count - chunk) (out @ bytes) = Some out'"
      using less.prems(1) True by (subst (asm) block_read_loop.simps) (auto simp: Let_def chunk_def split: option.splits)
    have "bytes = image_bytes disk (unat lba * ?sb) (unat chunk * ?sb)"
      using less.prems(2) pos c by (intro sound_deviceD [OF assms b]) auto
    moreover have l: "unat (lba + ucast chunk) = unat lba + unat chunk"
      using less.prems(2) c by (subst unat_add_fits) auto
    moreover have w: "unat (count - chunk) = unat count - unat chunk"
      using c by (subst unat_sub_fits) (auto simp: word_le_nat_alt)
    moreover have "out' = (out @ bytes) @ image_bytes disk (unat (lba + ucast chunk) * ?sb) (unat (count - chunk) * ?sb)"
      using pos c less.prems(2) l w by (intro less.hyps [OF _ rest]) auto
    moreover have "unat count * ?sb = unat chunk * ?sb + (unat count - unat chunk) * ?sb"
      using c by (simp flip: add_mult_distrib)
    ultimately show ?thesis
      using image_bytes_append [of disk "unat lba * ?sb" "unat chunk * ?sb" "(unat count - unat chunk) * ?sb"]
      by (simp add: add_mult_distrib)
  qed
qed

lemma block_read_sound:
  assumes "sound_device d disk" "block_read d lba count = Some bytes"
  shows "bytes = image_bytes disk (unat lba * unat (sector_bytes d)) (unat count * unat (sector_bytes d))"
proof -
  from assms(2) have loop: "block_read_loop d lba count [] = Some bytes" and "within_device d lba count"
    by (auto simp: block_read_def split: if_splits)
  then have "unat lba + unat count < 2 ^ 64"
    by (auto simp: within_device_def checked_add_u64_def split: if_splits)
  with block_read_loop_sound [OF assms(1) loop] show ?thesis by simp
qed

subsection \<open>A source of bytes\<close>

text \<open>
  What a parser relies on when it reads byte ranges off a medium: the bytes of a range are those of
  one fixed image, whatever ranges were read before. Devices, partitions and files are such sources.
\<close>

locale byte_source =
  fixes read :: "'d \<Rightarrow> u64 \<Rightarrow> usize \<Rightarrow> u8 list option"
    and image :: "'d \<Rightarrow> nat \<Rightarrow> u8"
    and ok :: "'d \<Rightarrow> bool"
  assumes read_image: "ok d \<Longrightarrow> read d off n = Some bs \<Longrightarrow> bs = image_bytes (image d) (unat off) (unat n)"
begin

lemma read_length: "ok d \<Longrightarrow> read d off n = Some bs \<Longrightarrow> length bs = unat n"
  by (frule (1) read_image) simp

lemma read_nth: "ok d \<Longrightarrow> read d off n = Some bs \<Longrightarrow> i < unat n \<Longrightarrow> bs ! i = image d (unat off + i)"
  by (frule (1) read_image) (simp add: image_bytes_def)

text \<open>Two reads that overlap agree on what they share.\<close>

lemma reads_agree:
  "ok d \<Longrightarrow> read d off n = Some bs \<Longrightarrow> read d off' n' = Some bs' \<Longrightarrow>
   unat off \<le> a \<Longrightarrow> a < unat off + unat n \<Longrightarrow> unat off' \<le> a \<Longrightarrow> a < unat off' + unat n' \<Longrightarrow>
   bs ! (a - unat off) = bs' ! (a - unat off')"
  by (simp add: read_nth)

text \<open>Reading a range in two parts is reading it at once.\<close>

lemma read_split:
  assumes "ok d" "read d off (n + k) = Some bs" "read d off n = Some xs" "read d (off + n) k = Some ys"
    and "unat off + unat n < 2 ^ 64" "unat n + unat k < 2 ^ 64"
  shows "bs = xs @ ys"
  using read_image [OF assms(1,2)] read_image [OF assms(1,3)] read_image [OF assms(1,4)] assms(5,6)
  by (simp add: unat_add_fits image_bytes_append)

end

text \<open>The image a device shows through reads of single sectors.\<close>

definition device_image :: "block_device \<Rightarrow> nat \<Rightarrow> u8" where
  "device_image d a =
     (case read_sectors d (of_nat (a div unat (sector_bytes d))) 1 of
        None \<Rightarrow> 0 | Some sector \<Rightarrow> sector ! (a mod unat (sector_bytes d)))"

definition steady_device :: "block_device \<Rightarrow> bool" where
  "steady_device d \<longleftrightarrow> sound_device d (device_image d)"

interpretation block_source: byte_source block_read_bytes device_image steady_device
  by unfold_locales (simp add: steady_device_def block_read_bytes_sound)

text \<open>
  C11. \<open>block_read_bytes\<close> turns sectors into bytes exactly: over a device that answers its sectors, a
  read at any offset and of any length returns the bytes of the disk there, however it starts and
  ends inside sectors and however it is split into transfers, and is refused exactly when the range
  leaves the device or the address space.
\<close>

theorem block_read_bytes_exact:
  assumes "sound_device d disk" "complete_device d" "block_device_valid d" "sector_count d \<noteq> 0"
  shows "block_read_bytes d off len =
    (if len = 0 \<or> (unat off + unat len < 2 ^ 64 \<and>
                  unat off + unat len \<le> unat (sector_count d) * unat (sector_bytes d))
     then Some (image_bytes disk (unat off) (unat len)) else None)"
proof (cases "block_read_bytes d off len")
  case None
  moreover have "block_read_bytes d off 0 = Some []" using assms(3) by (simp add: block_read_bytes_def)
  ultimately show ?thesis
    using block_read_bytes_total [OF assms(1-3), of off len] by auto
next
  case (Some bytes)
  with block_read_bytes_sound [OF assms(1) Some] block_read_bytes_refuses [OF assms(4) _ Some] show ?thesis by auto
qed

text \<open>A disk in memory, for the witnesses.\<close>

definition demo_disk :: "nat \<Rightarrow> u8" where
  "demo_disk a = of_nat (a * 7)"

definition demo_device :: block_device where
  "demo_device = \<lparr>read_sectors = (\<lambda>lba count. Some (image_bytes demo_disk (unat lba * 512) (unat count * 512))),
     sector_bytes = 512, sector_count = 100, torn_sector = (\<lambda>_. [])\<rparr>"

lemma demo_device:
  "sound_device demo_device demo_disk" "complete_device demo_device" "block_device_valid demo_device"
  by (simp_all add: sound_device_def complete_device_def block_device_valid_def demo_device_def)

lemma block_read_bytes_exact_witness:
  "block_read_bytes demo_device 500 1000 = Some (image_bytes demo_disk 500 1000) \<and>
   block_read_bytes demo_device 51199 2 = None"
  using block_read_bytes_exact [OF demo_device, of 500 1000] block_read_bytes_exact [OF demo_device, of 51199 2]
  by (simp add: demo_device_def)

end
