(* ===== verification/Partition.thy ===== *)
theory Partition
  imports Block Reader Str
begin

text \<open>
  \<open>src/block/partition.c\<close>: MBR and GPT partition tables, and a device confined to one partition. The
  table a parse leaves is returned with its answer, since a caller may look at it after a failure.
  A sector buffer is the list of its 512 bytes; \<open>stale\<close> is what the uninitialised buffer held
  behind a sector shorter than that.
\<close>

abbreviation (input) MBR_SIGNATURE_OFFSET :: nat where "MBR_SIGNATURE_OFFSET \<equiv> 510"
abbreviation (input) MBR_SIGNATURE :: u16 where "MBR_SIGNATURE \<equiv> 0xAA55"
abbreviation (input) MBR_TABLE_OFFSET :: nat where "MBR_TABLE_OFFSET \<equiv> 446"
abbreviation (input) MBR_ENTRY_BYTES :: nat where "MBR_ENTRY_BYTES \<equiv> 16"
abbreviation (input) MBR_ENTRY_COUNT :: nat where "MBR_ENTRY_COUNT \<equiv> 4"
abbreviation (input) MBR_ENTRY_STATUS_OFFSET :: usize where "MBR_ENTRY_STATUS_OFFSET \<equiv> 0"
abbreviation (input) MBR_ENTRY_TYPE_OFFSET :: usize where "MBR_ENTRY_TYPE_OFFSET \<equiv> 4"
abbreviation (input) MBR_ENTRY_START_LBA_OFFSET :: usize where "MBR_ENTRY_START_LBA_OFFSET \<equiv> 8"
abbreviation (input) MBR_ENTRY_SECTORS_OFFSET :: usize where "MBR_ENTRY_SECTORS_OFFSET \<equiv> 12"
abbreviation (input) MBR_STATUS_ACTIVE :: u8 where "MBR_STATUS_ACTIVE \<equiv> 0x80"
abbreviation (input) MBR_TYPE_EMPTY :: u8 where "MBR_TYPE_EMPTY \<equiv> 0"
abbreviation (input) MBR_TYPE_GPT_PROTECTIVE :: u8 where "MBR_TYPE_GPT_PROTECTIVE \<equiv> 0xEE"
abbreviation (input) GPT_HEADER_LBA :: u64 where "GPT_HEADER_LBA \<equiv> 1"
abbreviation (input) GPT_SIGNATURE :: str where "GPT_SIGNATURE \<equiv> lit ''EFI PART''"
abbreviation (input) GPT_SIGNATURE_BYTES :: nat where "GPT_SIGNATURE_BYTES \<equiv> 8"
abbreviation (input) GPT_HEADER_ENTRY_LBA_OFFSET :: usize where "GPT_HEADER_ENTRY_LBA_OFFSET \<equiv> 72"
abbreviation (input) GPT_ENTRY_TYPE_OFFSET :: nat where "GPT_ENTRY_TYPE_OFFSET \<equiv> 0"
abbreviation (input) GPT_ENTRY_FIRST_LBA_OFFSET :: usize where "GPT_ENTRY_FIRST_LBA_OFFSET \<equiv> 32"
abbreviation (input) GPT_ENTRY_MIN_BYTES :: u32 where "GPT_ENTRY_MIN_BYTES \<equiv> 128"
abbreviation (input) GPT_ENTRY_MAX_BYTES :: u32 where "GPT_ENTRY_MAX_BYTES \<equiv> 4096"
abbreviation (input) PARTITION_MAX :: nat where "PARTITION_MAX \<equiv> 16"

record partition =
  start_lba :: u64
  part_sectors :: u64
  part_type :: u8
  active :: bool

record partition_table =
  entries :: "partition list"
  gpt :: bool

record partition_view =
  parent :: block_device
  view_start_lba :: u64

definition add_entry :: "partition_table \<Rightarrow> u64 \<Rightarrow> u64 \<Rightarrow> u8 \<Rightarrow> bool \<Rightarrow> u64 \<Rightarrow> partition_table" where
  "add_entry table start sectors type is_active device_sectors =
     (if sectors = 0 then table
      else case checked_add_u64 start sectors of
        None \<Rightarrow> table
      | Some end' \<Rightarrow>
          if device_sectors \<noteq> 0 \<and> end' > device_sectors then table
          else if length (entries table) = PARTITION_MAX then table
          else table\<lparr>entries := entries table @
                 [\<lparr>start_lba = start, part_sectors = sectors, part_type = type, active = is_active\<rparr>]\<rparr>)"

text \<open>The fields of one MBR entry, \<open>None\<close> where the loop would \<open>break\<close>.\<close>

definition mbr_entry :: "u8 list \<Rightarrow> nat \<Rightarrow> (u8 \<times> u8 \<times> u32 \<times> u32) option" where
  "mbr_entry sector index =
     do { let r = reader_init (Some (drop (MBR_TABLE_OFFSET + index * MBR_ENTRY_BYTES) sector))
                    (of_nat MBR_ENTRY_BYTES);
          r \<leftarrow> reader_seek r MBR_ENTRY_STATUS_OFFSET;
          (status, r) \<leftarrow> reader_u8 r;
          r \<leftarrow> reader_seek r MBR_ENTRY_TYPE_OFFSET;
          (type, r) \<leftarrow> reader_u8 r;
          r \<leftarrow> reader_seek r MBR_ENTRY_START_LBA_OFFSET;
          (start, r) \<leftarrow> reader_u32 r;
          r \<leftarrow> reader_seek r MBR_ENTRY_SECTORS_OFFSET;
          (sectors, r) \<leftarrow> reader_u32 r;
          Some (status, type, start, sectors) }"

fun mbr_entries :: "u8 list \<Rightarrow> u64 \<Rightarrow> nat list \<Rightarrow> partition_table \<Rightarrow> bool \<times> partition_table" where
  "mbr_entries sector device_sectors [] out = (True, out)"
| "mbr_entries sector device_sectors (index # rest) out =
     (case mbr_entry sector index of
        None \<Rightarrow> (True, out)
      | Some (status, type, start, sectors) \<Rightarrow>
          if type = MBR_TYPE_EMPTY then mbr_entries sector device_sectors rest out
          else if type = MBR_TYPE_GPT_PROTECTIVE then (True, out\<lparr>gpt := True, entries := []\<rparr>)
          else mbr_entries sector device_sectors rest
                 (add_entry out (ucast start) (ucast sectors) type (status AND MBR_STATUS_ACTIVE \<noteq> 0)
                    device_sectors))"

definition partition_parse_mbr :: "u8 list \<Rightarrow> u64 \<Rightarrow> bool \<times> partition_table" where
  "partition_parse_mbr sector device_sectors =
     (let out = \<lparr>entries = [], gpt = False\<rparr>;
          signature = ucast (sector ! MBR_SIGNATURE_OFFSET) OR
                      push_bit 8 (ucast (sector ! (MBR_SIGNATURE_OFFSET + 1)) :: u16)
      in if signature \<noteq> MBR_SIGNATURE then (False, out)
         else mbr_entries sector device_sectors [0..<MBR_ENTRY_COUNT] out)"

definition entry_is_used :: "u8 list \<Rightarrow> bool" where
  "entry_is_used type_guid = list_ex (\<lambda>index. type_guid ! index \<noteq> 0) [0..<16]"

text \<open>One turn of the GPT loop: \<open>None\<close> is \<open>break\<close>, \<open>Some None\<close> is \<open>continue\<close>.\<close>

definition gpt_entry :: "block_device \<Rightarrow> u64 \<Rightarrow> u32 \<Rightarrow> u32 \<Rightarrow> (u64 \<times> u64) option option" where
  "gpt_entry device entry_lba entry_bytes index =
     do { off \<leftarrow> checked_mul_u64 (ucast index) (ucast entry_bytes);
          off \<leftarrow> checked_add_u64 (entry_lba * ucast BLOCK_SECTOR_BYTES_DEFAULT) off;
          entry \<leftarrow> block_read_bytes device off (ucast entry_bytes);
          (if \<not> entry_is_used (drop GPT_ENTRY_TYPE_OFFSET entry) then Some None
           else do { let r = reader_init (Some entry) (ucast entry_bytes);
                     r \<leftarrow> reader_seek r GPT_ENTRY_FIRST_LBA_OFFSET;
                     (first_lba, r) \<leftarrow> reader_u64 r;
                     (last_lba, r) \<leftarrow> reader_u64 r;
                     Some (if last_lba < first_lba then None else Some (first_lba, last_lba)) }) }"

fun gpt_entries :: "block_device \<Rightarrow> u64 \<Rightarrow> u32 \<Rightarrow> u32 list \<Rightarrow> partition_table \<Rightarrow> partition_table" where
  "gpt_entries device entry_lba entry_bytes [] out = out"
| "gpt_entries device entry_lba entry_bytes (index # rest) out =
     (case gpt_entry device entry_lba entry_bytes index of
        None \<Rightarrow> out
      | Some None \<Rightarrow> gpt_entries device entry_lba entry_bytes rest out
      | Some (Some (first_lba, last_lba)) \<Rightarrow>
          gpt_entries device entry_lba entry_bytes rest
            (add_entry out first_lba (last_lba - first_lba + 1) 0 False (sector_count device)))"

definition parse_gpt :: "block_device \<Rightarrow> u8 list \<Rightarrow> partition_table \<Rightarrow> bool \<times> partition_table" where
  "parse_gpt device stale out =
     (case block_read device GPT_HEADER_LBA 1 of
        None \<Rightarrow> (False, out)
      | Some bytes \<Rightarrow>
          let header = fill_sector bytes stale
          in if memcmp_bytes header GPT_SIGNATURE GPT_SIGNATURE_BYTES \<noteq> 0 then (False, out)
             else case do { let r = reader_init (Some header) 512;
                            r \<leftarrow> reader_seek r GPT_HEADER_ENTRY_LBA_OFFSET;
                            (entry_lba, r) \<leftarrow> reader_u64 r;
                            (entry_count, r) \<leftarrow> reader_u32 r;
                            (entry_bytes, r) \<leftarrow> reader_u32 r;
                            Some (entry_lba, entry_count, entry_bytes) } of
               None \<Rightarrow> (False, out)
             | Some (entry_lba, entry_count, entry_bytes) \<Rightarrow>
                 if entry_bytes < GPT_ENTRY_MIN_BYTES \<or> entry_bytes > GPT_ENTRY_MAX_BYTES then (False, out)
                 else let entry_count = (if entry_count > of_nat PARTITION_MAX then of_nat PARTITION_MAX
                                         else entry_count);
                          out = gpt_entries device entry_lba entry_bytes
                                  (map of_nat [0..<unat entry_count]) out
                      in (length (entries out) > 0, out))"

definition partition_table_read :: "block_device \<Rightarrow> u8 list \<Rightarrow> bool \<times> partition_table" where
  "partition_table_read device stale =
     (let out = \<lparr>entries = [], gpt = False\<rparr>
      in if \<not> block_device_valid device then (False, out)
         else case block_read device 0 1 of
                None \<Rightarrow> (False, out)
              | Some bytes \<Rightarrow>
                  (case partition_parse_mbr (fill_sector bytes stale) (sector_count device) of
                     (False, out) \<Rightarrow> (False, out)
                   | (True, out) \<Rightarrow>
                       if gpt out then parse_gpt device stale out
                       else (length (entries out) > 0, out)))"

definition partition_read_sectors :: "partition_view \<Rightarrow> u64 \<Rightarrow> u64 \<Rightarrow> u32 \<Rightarrow> u8 list option" where
  "partition_read_sectors view device_sectors lba count =
     do { end' \<leftarrow> checked_add_u64 lba (ucast count);
          ensure (\<not> end' > device_sectors);
          absolute \<leftarrow> checked_add_u64 (view_start_lba view) lba;
          read_sectors (parent view) absolute count }"

text \<open>What the parent has stored of a sector when such a read fails.\<close>

definition partition_torn_sector :: "partition_view \<Rightarrow> u64 \<Rightarrow> u64 \<Rightarrow> u8 list" where
  "partition_torn_sector view device_sectors lba =
     (case do { end' \<leftarrow> checked_add_u64 lba 1;
                ensure (\<not> end' > device_sectors);
                checked_add_u64 (view_start_lba view) lba } of
        None \<Rightarrow> []
      | Some absolute \<Rightarrow> torn_sector (parent view) absolute)"

definition partition_open :: "block_device \<Rightarrow> partition \<Rightarrow> block_device option" where
  "partition_open device entry =
     do { ensure (block_device_valid device);
          ensure (part_sectors entry \<noteq> 0);
          end' \<leftarrow> checked_add_u64 (start_lba entry) (part_sectors entry);
          ensure (\<not> (sector_count device \<noteq> 0 \<and> end' > sector_count device));
          let view = \<lparr>parent = device, view_start_lba = start_lba entry\<rparr>;
          Some \<lparr>read_sectors = partition_read_sectors view (part_sectors entry),
                sector_bytes = sector_bytes device,
                sector_count = part_sectors entry,
                torn_sector = partition_torn_sector view (part_sectors entry)\<rparr> }"

subsection \<open>Every entry is inside the device\<close>

definition entry_inside :: "u64 \<Rightarrow> partition \<Rightarrow> bool" where
  "entry_inside device_sectors e \<longleftrightarrow> part_sectors e \<noteq> 0 \<and>
     unat (start_lba e) + unat (part_sectors e) < 2 ^ 64 \<and>
     (device_sectors = 0 \<or> unat (start_lba e) + unat (part_sectors e) \<le> unat device_sectors)"

definition table_wf :: "u64 \<Rightarrow> partition_table \<Rightarrow> bool" where
  "table_wf device_sectors t \<longleftrightarrow> length (entries t) \<le> PARTITION_MAX \<and>
     (\<forall>e \<in> set (entries t). entry_inside device_sectors e)"

lemma table_wf_empty [simp]: "table_wf n \<lparr>entries = [], gpt = g\<rparr>"
  by (simp add: table_wf_def)

lemma add_entry_wf: "table_wf n t \<Longrightarrow> table_wf n (add_entry t start sectors ty act n)"
  by (auto simp: add_entry_def table_wf_def entry_inside_def checked_add_u64_def unat_add_fits
      word_less_nat_alt not_less split: option.splits if_splits)

lemma mbr_entries_wf: "table_wf n out \<Longrightarrow> table_wf n (snd (mbr_entries sector n idxs out))"
proof (induction sector n idxs out rule: mbr_entries.induct)
  case (2 sector n i rest out)
  show ?case
  proof (cases "mbr_entry sector i")
    case None
    with 2 show ?thesis by simp
  next
    case (Some x)
    obtain status ty start sectors where x: "x = (status, ty, start, sectors)" by (cases x)
    consider "ty = MBR_TYPE_EMPTY" | "ty \<noteq> MBR_TYPE_EMPTY" "ty = MBR_TYPE_GPT_PROTECTIVE"
      | "ty \<noteq> MBR_TYPE_EMPTY" "ty \<noteq> MBR_TYPE_GPT_PROTECTIVE" by blast
    then show ?thesis
    proof cases
      case 1
      with 2 Some x show ?thesis by simp
    next
      case 2
      with Some x show ?thesis by (simp add: table_wf_def)
    next
      case 3
      then show ?thesis
        using "2.IH"(2) [OF Some x [symmetric] refl refl 3] add_entry_wf [OF "2.prems"] Some x by simp
    qed
  qed
qed simp

lemma gpt_entries_wf: "table_wf (sector_count d) out \<Longrightarrow> table_wf (sector_count d) (gpt_entries d lba bytes idxs out)"
  by (induction d lba bytes idxs out rule: gpt_entries.induct) (auto simp: add_entry_wf split: option.split)

lemma parse_gpt_wf: "table_wf (sector_count d) out \<Longrightarrow> table_wf (sector_count d) (snd (parse_gpt d stale out))"
  by (auto simp: parse_gpt_def Let_def gpt_entries_wf split: option.split)

lemma partition_parse_mbr_wf: "table_wf n (snd (partition_parse_mbr sector n))"
  unfolding partition_parse_mbr_def Let_def by (simp add: mbr_entries_wf)

text \<open>
  Whatever the disk holds, a partition table read from it has at most 16 entries, and each of
  them is non-empty, does not wrap, and ends inside the device if the device knows its size, whether
  the read succeeded or not.
\<close>

theorem partition_table_inside:
  "length (entries (snd (partition_table_read d stale))) \<le> PARTITION_MAX \<and>
   list_all (entry_inside (sector_count d)) (entries (snd (partition_table_read d stale)))"
proof -
  have "table_wf (sector_count d) (snd (partition_table_read d stale))"
  proof (cases "block_read d 0 1")
    case None
    then show ?thesis by (simp add: partition_table_read_def Let_def)
  next
    case (Some bytes)
    obtain ok out where parse: "partition_parse_mbr (fill_sector bytes stale) (sector_count d) = (ok, out)"
      by (cases "partition_parse_mbr (fill_sector bytes stale) (sector_count d)")
    then have "table_wf (sector_count d) out" by (metis partition_parse_mbr_wf snd_conv)
    with Some parse show ?thesis
      by (cases ok) (auto simp: partition_table_read_def Let_def parse_gpt_wf)
  qed
  then show ?thesis by (simp add: table_wf_def list_all_iff)
qed

subsection \<open>A partition is a device of its own\<close>

lemma partition_openD:
  assumes "partition_open d e = Some out"
  shows "block_device_valid d" "entry_inside (sector_count d) e" "sector_bytes out = sector_bytes d"
    "sector_count out = part_sectors e"
    "read_sectors out = partition_read_sectors \<lparr>parent = d, view_start_lba = start_lba e\<rparr> (part_sectors e)"
    "torn_sector out = partition_torn_sector \<lparr>parent = d, view_start_lba = start_lba e\<rparr> (part_sectors e)"
proof -
  from assms obtain x where valid: "block_device_valid d" and n: "part_sectors e \<noteq> 0"
    and x: "checked_add_u64 (start_lba e) (part_sectors e) = Some x"
    and le: "\<not> (sector_count d \<noteq> 0 \<and> x > sector_count d)"
    and out: "out = \<lparr>read_sectors = partition_read_sectors \<lparr>parent = d, view_start_lba = start_lba e\<rparr> (part_sectors e),
                sector_bytes = sector_bytes d, sector_count = part_sectors e,
                torn_sector = partition_torn_sector \<lparr>parent = d, view_start_lba = start_lba e\<rparr> (part_sectors e)\<rparr>"
    by (auto simp: partition_open_def opt_bind Let_def)
  have "unat x = unat (start_lba e) + unat (part_sectors e)" using x by (simp add: checked_Some)
  moreover have "unat x < 2 ^ 64" by simp
  ultimately show "entry_inside (sector_count d) e"
    using n le by (auto simp: entry_inside_def word_less_nat_alt)
  show "block_device_valid d" by (rule valid)
  show "sector_bytes out = sector_bytes d" "sector_count out = part_sectors e"
    "read_sectors out = partition_read_sectors \<lparr>parent = d, view_start_lba = start_lba e\<rparr> (part_sectors e)"
    "torn_sector out = partition_torn_sector \<lparr>parent = d, view_start_lba = start_lba e\<rparr> (part_sectors e)"
    by (simp_all add: out)
qed

lemma partition_sound:
  assumes sound: "sound_device d disk" and opened: "partition_open d e = Some out"
  shows "sound_device out (\<lambda>a. disk (unat (start_lba e) * unat (sector_bytes d) + a))"
  unfolding sound_device_def
proof (intro allI impI)
  fix lba count bytes
  assume *: "0 < count \<and> count \<le> BLOCK_MAX_SECTORS_PER_READ \<and> unat lba + unat count \<le> 2 ^ 64 \<and>
    read_sectors out lba count = Some bytes"
  note o = partition_openD [OF opened]
  let ?sb = "unat (sector_bytes d)" and ?s = "unat (start_lba e)"
  from * obtain x a where x: "checked_add_u64 lba (ucast count) = Some x" "\<not> x > part_sectors e"
    and a: "checked_add_u64 (start_lba e) lba = Some a" and rd: "read_sectors d a count = Some bytes"
    by (auto simp: o(5) partition_read_sectors_def opt_bind)
  have end': "unat lba + unat count \<le> unat (part_sectors e)"
    using x by (simp add: checked_Some word_less_nat_alt not_less)
  have au: "unat a = ?s + unat lba" using a by (simp add: checked_Some)
  have "unat a + unat count \<le> 2 ^ 64" using end' o(2) by (simp add: au entry_inside_def)
  then have "bytes = image_bytes disk (unat a * ?sb) (unat count * ?sb)"
    using * by (intro sound_deviceD [OF sound rd]) (auto simp: word_less_nat_alt word_le_nat_alt)
  moreover have "image_bytes disk (?s * ?sb + b) n = image_bytes (\<lambda>a. disk (?s * ?sb + a)) b n" for b n
    by (rule nth_equalityI) (simp_all add: image_bytes_def add.assoc)
  ultimately show "bytes = image_bytes (\<lambda>a. disk (?s * ?sb + a)) (unat lba * unat (sector_bytes out))
      (unat count * unat (sector_bytes out))"
    by (simp add: au o(3) add_mult_distrib)
qed

text \<open>
  C12. Through an opened partition every read returns the disk's bytes at the partition's start plus
  the offset, and only offsets inside the partition can be read: nothing above can reach the rest of
  the disk.
\<close>

theorem partition_view_confined:
  assumes "sound_device d disk" "partition_open d e = Some out" "len \<noteq> 0"
    and "block_read_bytes out off len = Some bytes"
  shows "bytes = image_bytes disk (unat (start_lba e) * unat (sector_bytes d) + unat off) (unat len) \<and>
    unat off + unat len \<le> unat (part_sectors e) * unat (sector_bytes d)"
proof -
  note o = partition_openD [OF assms(2)]
  have "bytes = image_bytes (\<lambda>a. disk (unat (start_lba e) * unat (sector_bytes d) + a)) (unat off) (unat len)"
    by (rule block_read_bytes_sound [OF partition_sound [OF assms(1,2)] assms(4)])
  then have "bytes = image_bytes disk (unat (start_lba e) * unat (sector_bytes d) + unat off) (unat len)"
    by (auto intro!: nth_equalityI simp: image_bytes_def add.assoc)
  moreover have "sector_count out \<noteq> 0" using o(2,4) by (simp add: entry_inside_def)
  from block_read_bytes_refuses(2) [OF this assms(3,4)]
  have "unat off + unat len \<le> unat (part_sectors e) * unat (sector_bytes d)" by (simp add: o(3,4))
  ultimately show ?thesis by blast
qed

lemma partition_view_confined_witness:
  "\<exists>out bytes. partition_open demo_device \<lparr>start_lba = 10, part_sectors = 20, part_type = 0x83, active = True\<rparr> = Some out \<and>
     block_read_bytes out 700 100 = Some bytes \<and> bytes = image_bytes demo_disk 5820 100"
proof -
  let ?e = "\<lparr>start_lba = 10, part_sectors = 20, part_type = 0x83, active = True\<rparr>"
  obtain out where out: "partition_open demo_device ?e = Some out"
    by (simp add: partition_open_def demo_device_def block_device_valid_def checked_add_u64_def Let_def)
  note o = partition_openD [OF out]
  have "complete_device out"
    unfolding complete_device_def o(4,5)
    by (auto simp: partition_read_sectors_def demo_device_def checked_add_u64_def word_less_nat_alt
        word_le_nat_alt unat_add_fits not_less)
  moreover have "block_device_valid out" using o(1,3) by (simp add: block_device_valid_def)
  ultimately obtain bytes where bytes: "block_read_bytes out 700 100 = Some bytes"
    using block_read_bytes_total [OF partition_sound [OF demo_device(1) out], of 700 100] o(3,4)
    by (auto simp: demo_device_def)
  have "bytes = image_bytes demo_disk (unat (start_lba ?e) * unat (sector_bytes demo_device) + unat (700 :: u64)) (unat (100 :: usize)) \<and>
    unat (700 :: u64) + unat (100 :: usize) \<le> unat (part_sectors ?e) * unat (sector_bytes demo_device)"
    by (rule partition_view_confined [OF demo_device(1) out _ bytes]) simp
  with out bytes show ?thesis by (auto simp: demo_device_def)
qed

end
