(* ===== verification/Elf.thy ===== *)
theory Elf
  imports Block Reader Str
begin

text \<open>
  \<open>src/elf/elf.c\<close>: parsing and loading an ELF64 kernel. The reading callback is a function from an
  offset and a length to its answer and the bytes it stored at \<open>out\<close>: all of them when it succeeds,
  and any shorter part when it fails. Parsing builds the image of segments; loading is a function on
  the flat memory, which it also returns when it fails half way.
\<close>

abbreviation (input) ELF_MAGIC_BYTES :: nat where "ELF_MAGIC_BYTES \<equiv> 4"
abbreviation (input) ELF_IDENT_CLASS_OFFSET :: nat where "ELF_IDENT_CLASS_OFFSET \<equiv> 4"
abbreviation (input) ELF_IDENT_DATA_OFFSET :: nat where "ELF_IDENT_DATA_OFFSET \<equiv> 5"
abbreviation (input) ELF_IDENT_VERSION_OFFSET :: nat where "ELF_IDENT_VERSION_OFFSET \<equiv> 6"
abbreviation (input) ELF_CLASS_64 :: u8 where "ELF_CLASS_64 \<equiv> 2"
abbreviation (input) ELF_DATA_LITTLE_ENDIAN :: u8 where "ELF_DATA_LITTLE_ENDIAN \<equiv> 1"
abbreviation (input) ELF_VERSION_CURRENT :: nat where "ELF_VERSION_CURRENT \<equiv> 1"
abbreviation (input) ELF_HEADER_BYTES :: usize where "ELF_HEADER_BYTES \<equiv> 64"
abbreviation (input) ELF_HEADER_TYPE_OFFSET :: usize where "ELF_HEADER_TYPE_OFFSET \<equiv> 16"
abbreviation (input) ELF_HEADER_PHOFF_OFFSET :: usize where "ELF_HEADER_PHOFF_OFFSET \<equiv> 32"
abbreviation (input) ELF_HEADER_PHENTSIZE_OFFSET :: usize where "ELF_HEADER_PHENTSIZE_OFFSET \<equiv> 54"
abbreviation (input) ELF_TYPE_EXECUTABLE :: u16 where "ELF_TYPE_EXECUTABLE \<equiv> 2"
abbreviation (input) ELF_TYPE_SHARED :: u16 where "ELF_TYPE_SHARED \<equiv> 3"
abbreviation (input) ELF_MACHINE_X86_64 :: u16 where "ELF_MACHINE_X86_64 \<equiv> 62"
abbreviation (input) ELF_PROGRAM_HEADER_BYTES :: u64 where "ELF_PROGRAM_HEADER_BYTES \<equiv> 56"
abbreviation (input) ELF_PROGRAM_TYPE_LOAD :: u32 where "ELF_PROGRAM_TYPE_LOAD \<equiv> 1"
abbreviation (input) ELF_PROGRAM_TYPE_INTERPRETER :: u32 where "ELF_PROGRAM_TYPE_INTERPRETER \<equiv> 3"
abbreviation (input) ELF_FLAG_EXECUTE :: u32 where "ELF_FLAG_EXECUTE \<equiv> 1"
abbreviation (input) ELF_FLAG_WRITE :: u32 where "ELF_FLAG_WRITE \<equiv> 2"
abbreviation (input) ELF_MAX_SEGMENTS :: nat where "ELF_MAX_SEGMENTS \<equiv> 16"
abbreviation (input) ELF_MAX_PROGRAM_HEADERS :: u16 where "ELF_MAX_PROGRAM_HEADERS \<equiv> 64"
abbreviation (input) ELF_COPY_CHUNK_BYTES :: u64 where "ELF_COPY_CHUNK_BYTES \<equiv> 4096"

type_synonym elf_read = "u64 \<Rightarrow> usize \<Rightarrow> bool \<times> u8 list"

record elf_segment =
  file_offset :: u64
  virtual_address :: u64
  physical_address :: u64
  file_bytes :: u64
  memory_bytes :: u64
  seg_flags :: u32

record elf_image =
  entry_address :: u64
  segments :: "elf_segment list"
  lowest_address :: u64
  highest_address :: u64

text \<open>The bias is the \<open>int64_t\<close> of the code: \<open>sint\<close> reads its value.\<close>

record elf_placement =
  bias :: "64 word"
  limit_low :: u64
  limit_high :: u64

definition elf_magic :: "u8 list" where
  "elf_magic = [0x7F, of_char CHR ''E'', of_char CHR ''L'', of_char CHR ''F'']"

definition biased :: "u64 \<Rightarrow> 64 word \<Rightarrow> u64 option" where
  "biased address b =
     (if sint b \<ge> 0 then checked_add_u64 address b
      else let magnitude = - (b + 1) + 1
           in if magnitude > address then None else Some (address - magnitude))"

definition segment_within :: "elf_segment \<Rightarrow> elf_placement \<Rightarrow> bool" where
  "segment_within segment placement =
     (case biased (physical_address segment) (bias placement) of
        None \<Rightarrow> False
      | Some start \<Rightarrow>
          (case checked_add_u64 start (memory_bytes segment) of
             None \<Rightarrow> False
           | Some end' \<Rightarrow> \<not> (start < limit_low placement \<or> end' > limit_high placement)))"

definition segments_overlap :: "elf_segment \<Rightarrow> elf_segment \<Rightarrow> bool" where
  "segments_overlap left right =
     (case checked_add_u64 (physical_address left) (memory_bytes left) of
        None \<Rightarrow> True
      | Some left_end \<Rightarrow>
          (case checked_add_u64 (physical_address right) (memory_bytes right) of
             None \<Rightarrow> True
           | Some right_end \<Rightarrow>
               physical_address left < right_end \<and> physical_address right < left_end))"

text \<open>A read whose bytes are used only when it succeeds.\<close>

definition read_or_fail :: "elf_read \<Rightarrow> u64 \<Rightarrow> usize \<Rightarrow> u8 list option" where
  "read_or_fail read off n = (case read off n of (ok, bytes) \<Rightarrow> if ok then Some bytes else None)"

definition parse_header :: "elf_read \<Rightarrow> (u64 \<times> u16 \<times> u64) option" where
  "parse_header read =
     do { header \<leftarrow> read_or_fail read 0 ELF_HEADER_BYTES;
          ensure (\<not> memcmp_bytes header elf_magic ELF_MAGIC_BYTES \<noteq> 0);
          ensure (\<not> header ! ELF_IDENT_CLASS_OFFSET \<noteq> ELF_CLASS_64);
          ensure (\<not> header ! ELF_IDENT_DATA_OFFSET \<noteq> ELF_DATA_LITTLE_ENDIAN);
          ensure (\<not> header ! ELF_IDENT_VERSION_OFFSET \<noteq> of_nat ELF_VERSION_CURRENT);
          let r = reader_init (Some header) ELF_HEADER_BYTES;
          r \<leftarrow> reader_seek r ELF_HEADER_TYPE_OFFSET;
          (type, r) \<leftarrow> reader_u16 r;
          (machine, r) \<leftarrow> reader_u16 r;
          (version, r) \<leftarrow> reader_u32 r;
          (entry, r) \<leftarrow> reader_u64 r;
          r \<leftarrow> reader_seek r ELF_HEADER_PHOFF_OFFSET;
          (program_offset, r) \<leftarrow> reader_u64 r;
          r \<leftarrow> reader_seek r ELF_HEADER_PHENTSIZE_OFFSET;
          (entry_size, r) \<leftarrow> reader_u16 r;
          (count, r) \<leftarrow> reader_u16 r;
          ensure (\<not> (type \<noteq> ELF_TYPE_EXECUTABLE \<and> type \<noteq> ELF_TYPE_SHARED));
          ensure (\<not> machine \<noteq> ELF_MACHINE_X86_64);
          ensure (\<not> version \<noteq> of_nat ELF_VERSION_CURRENT);
          ensure (\<not> ucast entry_size \<noteq> ELF_PROGRAM_HEADER_BYTES);
          ensure (\<not> (count = 0 \<or> count > ELF_MAX_PROGRAM_HEADERS));
          Some (program_offset, count, entry) }"

definition load_segment_ok :: "elf_segment \<Rightarrow> u64 \<Rightarrow> bool" where
  "load_segment_ok seg align \<longleftrightarrow>
     \<not> file_bytes seg > memory_bytes seg \<and>
     memory_bytes seg \<noteq> 0 \<and>
     \<not> (align \<noteq> 0 \<and> align AND (align - 1) \<noteq> 0) \<and>
     checked_add_u64 (file_offset seg) (file_bytes seg) \<noteq> None \<and>
     checked_add_u64 (physical_address seg) (memory_bytes seg) \<noteq> None \<and>
     checked_add_u64 (virtual_address seg) (memory_bytes seg) \<noteq> None"

definition parse_program_header :: "u8 list \<Rightarrow> (elf_segment \<times> u32) option" where
  "parse_program_header raw =
     do { let r = reader_init (Some raw) ELF_PROGRAM_HEADER_BYTES;
          (type, r) \<leftarrow> reader_u32 r;
          (fl, r) \<leftarrow> reader_u32 r;
          (off, r) \<leftarrow> reader_u64 r;
          (vaddr, r) \<leftarrow> reader_u64 r;
          (paddr, r) \<leftarrow> reader_u64 r;
          (filesz, r) \<leftarrow> reader_u64 r;
          (memsz, r) \<leftarrow> reader_u64 r;
          (align, r) \<leftarrow> reader_u64 r;
          let seg = \<lparr>file_offset = off, virtual_address = vaddr, physical_address = paddr,
                     file_bytes = filesz, memory_bytes = memsz, seg_flags = fl\<rparr>;
          ensure (type \<noteq> ELF_PROGRAM_TYPE_LOAD \<or> load_segment_ok seg align);
          Some (seg, type) }"

definition add_segment :: "elf_image \<Rightarrow> elf_segment \<Rightarrow> elf_image" where
  "add_segment out segment =
     (let end' = physical_address segment + memory_bytes segment
      in out\<lparr>lowest_address := (if physical_address segment < lowest_address out
                                then physical_address segment else lowest_address out),
             highest_address := (if end' > highest_address out then end' else highest_address out),
             segments := segments out @ [segment]\<rparr>)"

fun parse_segments :: "elf_read \<Rightarrow> u64 \<Rightarrow> u16 list \<Rightarrow> elf_image \<Rightarrow> elf_image option" where
  "parse_segments read program_offset [] out = Some out"
| "parse_segments read program_offset (index # rest) out =
     do { at' \<leftarrow> checked_mul_u64 (ucast index) ELF_PROGRAM_HEADER_BYTES;
          at' \<leftarrow> checked_add_u64 program_offset at';
          raw \<leftarrow> read_or_fail read at' ELF_PROGRAM_HEADER_BYTES;
          (segment, type) \<leftarrow> parse_program_header raw;
          ensure (\<not> type = ELF_PROGRAM_TYPE_INTERPRETER);
          (if type \<noteq> ELF_PROGRAM_TYPE_LOAD then parse_segments read program_offset rest out
           else do { ensure (length (segments out) \<noteq> ELF_MAX_SEGMENTS);
                     ensure (\<not> list_ex (\<lambda>other. segments_overlap other segment) (segments out));
                     parse_segments read program_offset rest (add_segment out segment) }) }"

definition elf_parse :: "elf_read \<Rightarrow> elf_image option" where
  "elf_parse read =
     do { (program_offset, program_count, entry) \<leftarrow> parse_header read;
          out \<leftarrow> parse_segments read program_offset (map of_nat [0..<unat program_count])
                   \<lparr>entry_address = entry, segments = [], lowest_address = -1, highest_address = 0\<rparr>;
          ensure (\<not> length (segments out) = 0);
          Some out }"

lemma chunk_less:
  "len > 0 \<Longrightarrow> unat (len - (if len > ELF_COPY_CHUNK_BYTES then ELF_COPY_CHUNK_BYTES else len)) < unat len"
  by (auto simp: unat_sub_fits word_le_nat_alt word_less_nat_alt)

function zero_range :: "u64 \<Rightarrow> u64 \<Rightarrow> mem \<Rightarrow> mem" where
  "zero_range cursor len m =
     (if len > 0 then
        let chunk = (if len > ELF_COPY_CHUNK_BYTES then ELF_COPY_CHUNK_BYTES else len)
        in zero_range (cursor + chunk) (len - chunk) (memset cursor 0 chunk m)
      else m)"
  by pat_completeness auto
termination by (relation "measure (\<lambda>(cursor, len, m). unat len)") (auto simp: chunk_less Let_def)

declare zero_range.simps [simp del]

function copy_chunks :: "elf_read \<Rightarrow> u64 \<Rightarrow> u64 \<Rightarrow> u64 \<Rightarrow> mem \<Rightarrow> bool \<times> mem" where
  "copy_chunks read cursor from' remaining m =
     (if remaining > 0 then
        let chunk = (if remaining > ELF_COPY_CHUNK_BYTES then ELF_COPY_CHUNK_BYTES else remaining);
            (ok, bytes) = read from' chunk;
            m = store_bytes m cursor bytes
        in if \<not> ok then (False, m)
           else copy_chunks read (cursor + chunk) (from' + chunk) (remaining - chunk) m
      else (True, m))"
  by pat_completeness auto
termination by (relation "measure (\<lambda>(read, cursor, from', remaining, m). unat remaining)") (auto simp: chunk_less Let_def)

declare copy_chunks.simps [simp del]

definition copy_segment :: "elf_read \<Rightarrow> elf_segment \<Rightarrow> u64 \<Rightarrow> mem \<Rightarrow> bool \<times> mem" where
  "copy_segment read segment destination m =
     (case copy_chunks read destination (file_offset segment) (file_bytes segment) m of
        (False, m) \<Rightarrow> (False, m)
      | (True, m) \<Rightarrow> (True, zero_range (destination + file_bytes segment)
                              (memory_bytes segment - file_bytes segment) m))"

fun load_segments :: "elf_read \<Rightarrow> elf_placement \<Rightarrow> elf_segment list \<Rightarrow> mem \<Rightarrow> bool \<times> mem" where
  "load_segments read placement [] m = (True, m)"
| "load_segments read placement (segment # rest) m =
     (case biased (physical_address segment) (bias placement) of
        None \<Rightarrow> (False, m)
      | Some destination \<Rightarrow>
          (case copy_segment read segment destination m of
             (False, m) \<Rightarrow> (False, m)
           | (True, m) \<Rightarrow> load_segments read placement rest m))"

definition elf_load :: "elf_read \<Rightarrow> elf_image \<Rightarrow> elf_placement \<Rightarrow> mem \<Rightarrow> bool \<times> mem" where
  "elf_load read img placement m =
     (if limit_low placement \<ge> limit_high placement then (False, m)
      else if length (segments img) = 0 then (False, m)
      else if list_ex (\<lambda>segment. \<not> segment_within segment placement) (segments img) then (False, m)
      else load_segments read placement (segments img) m)"

definition elf_entry_point :: "elf_image \<Rightarrow> elf_placement \<Rightarrow> u64" where
  "elf_entry_point img placement =
     (case biased (entry_address img) (bias placement) of None \<Rightarrow> 0 | Some entry \<Rightarrow> entry)"

subsection \<open>Addresses and ranges\<close>

lemma sint_nat:
  "sint (b :: 64 word) = (if unat b < 2 ^ 63 then int (unat b) else int (unat b) - 2 ^ 64)"
proof -
  obtain n where n: "unat b = n" by blast
  then have u: "uint b = int n" by (metis uint_nat)
  have lt: "n < 2 ^ 64" using n unsigned_less [of b, where 'a = nat] by simp
  have "sint b = take_bit 64 (int n + 2 ^ 63) - 2 ^ 63"
    unfolding sint_uint u by (simp add: signed_take_bit_eq_take_bit_shift)
  then have s: "sint b = (int n + 2 ^ 63) mod 2 ^ 64 - 2 ^ 63" by (simp only: take_bit_eq_mod)
  show ?thesis
  proof (cases "n < 2 ^ 63")
    case True
    then have "(int n + 2 ^ 63) mod 2 ^ 64 = int n + 2 ^ 63" by (intro mod_pos_pos_trivial) simp_all
    then show ?thesis using True unfolding s n by simp
  next
    case False
    have "(int n + 2 ^ 63) mod 2 ^ 64 = int n - 2 ^ 63"
      using False lt by (intro int_mod_pos_eq [of _ _ 1]) simp_all
    then show ?thesis using False unfolding s n by simp
  qed
qed

text \<open>A biased address is the address plus the signed bias, and refused when that is not an address.\<close>

lemma biased_exact:
  "biased a b = (if 0 \<le> int (unat a) + sint b \<and> int (unat a) + sint b < 2 ^ 64
                 then Some (word_of_int (int (unat a) + sint b)) else None)"
proof (cases "sint b \<ge> 0")
  case True
  have "unat b < 2 ^ 64" using unsigned_less [of b, where 'a = nat] by simp
  then have b: "sint b = int (unat b)" using True uint_lt2p [of b] unfolding sint_nat by (simp split: if_splits)
  have w: "word_of_int (int (unat a) + int (unat b)) = a + b" by simp
  have "(int (unat a) + int (unat b) < 2 ^ 64) = (unat a + unat b < 2 ^ 64)"
    using of_nat_less_iff [of "unat a + unat b" "2 ^ 64", where 'a = int] by (simp only: of_nat_add of_nat_power of_nat_numeral)
  then show ?thesis using True unfolding biased_def b w
    by (simp only: checked_add_u64_Some checked_add_u64_def) simp
next
  case False
  then have sb: "sint b = int (unat b) - 2 ^ 64" by (auto simp: sint_nat split: if_splits)
  have m: "- (b + 1) + 1 = - b" by simp
  have "b \<noteq> 0" using False by auto
  then have u: "unat (- b) = 2 ^ 64 - unat b" by (simp add: unat_neg)
  have lt: "unat b < 2 ^ 64" "unat a < 2 ^ 64" using unsigned_less [of b, where 'a = nat] unsigned_less [of a, where 'a = nat] by simp_all
  have w: "word_of_int (int (unat a) + sint b) = a + b"
    unfolding sb by simp
  have "int (unat a) + sint b < 2 ^ 64" using uint_lt2p [of a] False by simp
  moreover have "(0 \<le> int (unat a) + sint b) = (\<not> - b > a)"
  proof -
    have "(0 \<le> int i + (int j - 2 ^ 64)) = (\<not> i < 2 ^ 64 - j)" if "j < 2 ^ 64" for i j :: nat
      using that by simp linarith
    from this [OF lt(1)] show ?thesis unfolding sb word_less_nat_alt u by blast
  qed
  ultimately show ?thesis using False w by (simp add: biased_def Let_def m)
qed


subsection \<open>Filling memory\<close>

lemma chunk_eq: "unat (if len > ELF_COPY_CHUNK_BYTES then ELF_COPY_CHUNK_BYTES else len) = min 4096 (unat len)"
  by (auto simp: word_less_nat_alt)

lemma chunk_split:
  fixes len a x :: u64
  defines "chunk \<equiv> (if len > ELF_COPY_CHUNK_BYTES then ELF_COPY_CHUNK_BYTES else len)"
  shows "unat (len - chunk) = unat len - unat chunk" "unat chunk \<le> unat len"
    "in_range a (unat len) x \<longleftrightarrow> in_range a (unat chunk) x \<or> in_range (a + chunk) (unat (len - chunk)) x"
    "in_range (a + chunk) (unat (len - chunk)) x \<Longrightarrow> unat (x - a) = unat chunk + unat (x - (a + chunk))"
proof -
  have c: "unat chunk = min 4096 (unat len)" unfolding chunk_def by (rule chunk_eq)
  then show le: "unat chunk \<le> unat len" by simp
  then show rest: "unat (len - chunk) = unat len - unat chunk"
    by (subst unat_sub_fits) (auto simp: word_le_nat_alt)
  have "unat chunk + unat (len - chunk) \<le> 2 ^ 64"
    using le less_imp_le [OF unsigned_less [of len]] unfolding rest by simp
  from in_range_split [OF this, of a x]
  show "in_range a (unat len) x \<longleftrightarrow> in_range a (unat chunk) x \<or> in_range (a + chunk) (unat (len - chunk)) x"
    using le unfolding rest by simp
  assume b: "in_range (a + chunk) (unat (len - chunk)) x"
  have "unat (x - (a + chunk)) + unat chunk \<le> unat len"
    using b le unfolding in_range_def rest by simp
  from unat_add_below [OF this] show "unat (x - a) = unat chunk + unat (x - (a + chunk))" by simp
qed

lemma zero_range_eq:
  "unat cursor + unat len \<le> 2 ^ 64 \<Longrightarrow>
   zero_range cursor len m x = (if in_range cursor (unat len) x then 0 else m x)"
proof (induction "unat len" arbitrary: cursor len m rule: less_induct)
  case less
  define chunk where "chunk = (if len > ELF_COPY_CHUNK_BYTES then ELF_COPY_CHUNK_BYTES else len)"
  have c: "unat chunk = min 4096 (unat len)" unfolding chunk_def by (rule chunk_eq)
  show ?case
  proof (cases "len > 0")
    case False
    then show ?thesis by (subst zero_range.simps) (simp add: word_gt_0)
  next
    case True
    then have pos: "0 < unat len" by (simp add: word_less_nat_alt)
    have rest: "unat (len - chunk) = unat len - unat chunk"
      using c by (subst unat_sub_fits) (auto simp: word_le_nat_alt)
    have "zero_range cursor len m x = zero_range (cursor + chunk) (len - chunk) (memset cursor 0 chunk m) x"
      using True by (subst zero_range.simps) (simp add: chunk_def Let_def)
    also have "\<dots> = (if in_range (cursor + chunk) (unat (len - chunk)) x then 0 else memset cursor 0 chunk m x)"
    proof (cases "unat len \<le> 4096")
      case True
      then have "len - chunk = 0" using c by (simp add: rest unat_eq_0 flip: unat_eq_0)
      then show ?thesis by (subst zero_range.simps) simp
    next
      case False
      then have "unat (cursor + chunk) = unat cursor + unat chunk"
        using c less.prems by (intro unat_add_fits) simp
      then show ?thesis using less.prems rest c pos by (intro less.hyps) auto
    qed
    also have "\<dots> = (if in_range cursor (unat len) x then 0 else m x)"
      using chunk_split(3) [where len = len and a = cursor and x = x, folded chunk_def] by (auto simp: memset_eq)
    finally show ?thesis .
  qed
qed

text \<open>
  What the reading callback owes: a read that succeeds stores the bytes of the file, and one that fails
  stores no more than was asked for.
\<close>

definition reads_file :: "elf_read \<Rightarrow> (nat \<Rightarrow> u8) \<Rightarrow> bool" where
  "reads_file read file \<longleftrightarrow>
     (\<forall>off n ok bytes. read off n = (ok, bytes) \<longrightarrow>
        length bytes \<le> unat n \<and> (ok \<longrightarrow> bytes = image_bytes file (unat off) (unat n)))"

lemma reads_fileD:
  "reads_file read file \<Longrightarrow> read off n = (ok, bytes) \<Longrightarrow> length bytes \<le> unat n"
  "reads_file read file \<Longrightarrow> read off n = (True, bytes) \<Longrightarrow> bytes = image_bytes file (unat off) (unat n)"
  unfolding reads_file_def by blast+

lemma in_range_mono: "in_range a i x \<Longrightarrow> i \<le> j \<Longrightarrow> in_range a j x"
  by (simp add: in_range_def)

lemma copy_chunks_frame:
  assumes "reads_file read file"
  shows "copy_chunks read cursor from' remaining m = (ok, m') \<Longrightarrow>
    \<not> in_range cursor (unat remaining) x \<Longrightarrow> m' x = m x"
proof (induction "unat remaining" arbitrary: cursor from' remaining m rule: less_induct)
  case less
  define chunk where "chunk = (if remaining > ELF_COPY_CHUNK_BYTES then ELF_COPY_CHUNK_BYTES else remaining)"
  have c: "unat chunk = min 4096 (unat remaining)" unfolding chunk_def by (rule chunk_eq)
  show ?case
  proof (cases "remaining > 0")
    case False
    then show ?thesis using less.prems(1) by (subst (asm) copy_chunks.simps) (simp add: word_gt_0)
  next
    case True
    then have pos: "0 < unat remaining" by (simp add: word_less_nat_alt)
    obtain good bytes where r: "read from' chunk = (good, bytes)" by fastforce
    have rest: "unat (remaining - chunk) = unat remaining - unat chunk"
      using c by (subst unat_sub_fits) (auto simp: word_le_nat_alt)
    have split: "in_range cursor (unat remaining) x \<longleftrightarrow>
        in_range cursor (unat chunk) x \<or> in_range (cursor + chunk) (unat (remaining - chunk)) x"
      unfolding chunk_def by (rule chunk_split)
    have "\<not> in_range cursor (length bytes) x"
      using split less.prems(2) in_range_mono [OF _ reads_fileD(1) [OF assms r]] by blast
    then have store: "store_bytes m cursor bytes x = m x" by (rule store_bytes_outside)
    show ?thesis
    proof (cases good)
      case False
      then show ?thesis using less.prems(1) True r store
        by (subst (asm) copy_chunks.simps) (auto simp: chunk_def Let_def)
    next
      case good: True
      have next': "copy_chunks read (cursor + chunk) (from' + chunk) (remaining - chunk) (store_bytes m cursor bytes) = (ok, m')"
        using less.prems(1) True r good by (subst (asm) copy_chunks.simps) (auto simp: chunk_def Let_def)
      have "m' x = store_bytes m cursor bytes x"
        using rest c pos split less.prems(2) by (intro less.hyps [OF _ next']) auto
      with store show ?thesis by simp
    qed
  qed
qed


lemma copy_chunks_bytes:
  assumes "reads_file read file"
  shows "copy_chunks read cursor from' remaining m = (True, m') \<Longrightarrow> in_range cursor (unat remaining) x \<Longrightarrow>
    unat from' + unat remaining < 2 ^ 64 \<Longrightarrow> m' x = file (unat from' + unat (x - cursor))"
proof (induction "unat remaining" arbitrary: cursor from' remaining m rule: less_induct)
  case less
  define chunk where "chunk = (if remaining > ELF_COPY_CHUNK_BYTES then ELF_COPY_CHUNK_BYTES else remaining)"
  note split = chunk_split(1,2) [of remaining, folded chunk_def]
    chunk_split(3,4) [where len = remaining and a = cursor and x = x, folded chunk_def]
  have c: "unat chunk = min 4096 (unat remaining)" unfolding chunk_def by (rule chunk_eq)
  have pos: "0 < unat remaining" using less.prems(2) by (cases "unat remaining = 0") auto
  then have "remaining > 0" by (simp add: word_less_nat_alt)
  obtain good bytes where r: "read from' chunk = (good, bytes)" by fastforce
  have good: "good"
    and next': "copy_chunks read (cursor + chunk) (from' + chunk) (remaining - chunk) (store_bytes m cursor bytes) = (True, m')"
    using less.prems(1) \<open>remaining > 0\<close> r
    by (subst (asm) copy_chunks.simps; auto simp: chunk_def Let_def split: if_splits)+
  have bytes: "bytes = image_bytes file (unat from') (unat chunk)"
    using reads_fileD(2) [OF assms] r good by simp
  show ?case
  proof (cases "in_range (cursor + chunk) (unat (remaining - chunk)) x")
    case True
    have f: "unat (from' + chunk) = unat from' + unat chunk"
      using less.prems(3) split(2) by (intro unat_add_fits) simp
    have "m' x = file (unat (from' + chunk) + unat (x - (cursor + chunk)))"
      using less.prems(3) True f split(1,2) c pos by (intro less.hyps [OF _ next']) auto
    with f split(4) True show ?thesis by (simp add: add.assoc)
  next
    case False
    then have "m' x = store_bytes m cursor bytes x" by (rule copy_chunks_frame [OF assms next'])
    also have "in_range cursor (unat chunk) x" using False split(3) less.prems(2) by simp
    then have "store_bytes m cursor bytes x = file (unat from' + unat (x - cursor))"
      by (simp add: store_bytes_def bytes image_bytes_def in_range_def)
    finally show ?thesis .
  qed
qed

lemma copy_chunks_total:
  assumes "\<And>off n. fst (read off n)"
  shows "fst (copy_chunks read cursor from' remaining m)"
proof (induction "unat remaining" arbitrary: cursor from' remaining m rule: less_induct)
  case less
  show ?case
  proof (cases "remaining > 0")
    case True
    define chunk where "chunk = (if remaining > ELF_COPY_CHUNK_BYTES then ELF_COPY_CHUNK_BYTES else remaining)"
    obtain bytes where r: "read from' chunk = (True, bytes)" using assms by (metis prod.collapse)
    have "unat (remaining - chunk) < unat remaining" unfolding chunk_def using True by (rule chunk_less)
    from less.hyps [OF this] show ?thesis
      using True r by (subst copy_chunks.simps) (simp add: Let_def chunk_def)
  qed (simp add: copy_chunks.simps)
qed

subsection \<open>Segments\<close>

definition segment_wf :: "elf_segment \<Rightarrow> bool" where
  "segment_wf s \<longleftrightarrow> file_bytes s \<le> memory_bytes s \<and> 0 < unat (memory_bytes s) \<and>
     unat (file_offset s) + unat (file_bytes s) < 2 ^ 64 \<and>
     unat (physical_address s) + unat (memory_bytes s) < 2 ^ 64 \<and>
     unat (virtual_address s) + unat (memory_bytes s) < 2 ^ 64"

text \<open>The byte a loaded segment has at an offset: the file's, and zero past what the file gives.\<close>

definition loaded_byte :: "(nat \<Rightarrow> u8) \<Rightarrow> elf_segment \<Rightarrow> nat \<Rightarrow> u8" where
  "loaded_byte file s i = (if i < unat (file_bytes s) then file (unat (file_offset s) + i) else 0)"

lemma copy_segment_facts:
  assumes "reads_file read file" "copy_segment read s d m = (ok, m')" "segment_wf s"
    and fits: "unat d + unat (memory_bytes s) < 2 ^ 64"
  shows "\<not> in_range d (unat (memory_bytes s)) x \<Longrightarrow> m' x = m x"
    and "ok \<Longrightarrow> in_range d (unat (memory_bytes s)) x \<Longrightarrow> m' x = loaded_byte file s (unat (x - d))"
proof -
  let ?f = "unat (file_bytes s)" and ?n = "unat (memory_bytes s)"
  have le: "?f \<le> ?n" using assms(3) by (simp add: segment_wf_def word_le_nat_alt)
  have rest: "unat (memory_bytes s - file_bytes s) = ?n - ?f"
    using assms(3) by (simp add: segment_wf_def unat_sub_fits)
  obtain good m1 where c: "copy_chunks read d (file_offset s) (file_bytes s) m = (good, m1)" by fastforce
  have split: "in_range d ?n x \<longleftrightarrow> in_range d ?f x \<or> in_range (d + file_bytes s) (?n - ?f) x"
    using in_range_split [of ?f "?n - ?f" d x] le unat_lt64 [of "memory_bytes s"] by simp
  have dest: "unat (d + file_bytes s) = unat d + ?f" using fits le by (intro unat_add_fits) simp
  have zero: "zero_range (d + file_bytes s) (memory_bytes s - file_bytes s) m1 x =
      (if in_range (d + file_bytes s) (?n - ?f) x then 0 else m1 x)"
    using fits le dest rest by (subst zero_range_eq) auto
  have res: "ok = good" "m' x = (if good then zero_range (d + file_bytes s) (memory_bytes s - file_bytes s) m1 x else m1 x)"
    using assms(2) c by (auto simp: copy_segment_def split: bool.splits)
  have frame: "\<not> in_range d ?f x \<Longrightarrow> m1 x = m x" by (rule copy_chunks_frame [OF assms(1) c])
  show "\<not> in_range d ?n x \<Longrightarrow> m' x = m x" using res zero frame split by auto
  assume ok: ok and x: "in_range d ?n x"
  have cc: "copy_chunks read d (file_offset s) (file_bytes s) m = (True, m1)" using c ok res by simp
  show "m' x = loaded_byte file s (unat (x - d))"
  proof (cases "in_range d ?f x")
    case True
    have nz: "\<not> in_range (d + file_bytes s) (?n - ?f) x"
      using True fits le dest in_range_nat [of d ?f x] in_range_nat [of "d + file_bytes s" "?n - ?f" x] by simp
    have "m1 x = file (unat (file_offset s) + unat (x - d))"
      using copy_chunks_bytes [OF assms(1) cc True] assms(3) by (simp add: segment_wf_def)
    with nz True zero res ok show ?thesis by (simp add: loaded_byte_def in_range_def)
  next
    case False
    with x split zero res ok show ?thesis by (simp add: loaded_byte_def in_range_def)
  qed
qed

lemma copy_segment_total:
  "(\<And>off n. fst (read off n)) \<Longrightarrow> fst (copy_segment read s d m)"
  using copy_chunks_total [of read d "file_offset s" "file_bytes s" m]
  by (auto simp: copy_segment_def split: prod.splits bool.splits)

lemma biased_int:
  assumes "biased a b = Some d"
  shows "int (unat d) = int (unat a) + sint b"
proof -
  obtain k where k: "k = int (unat a) + sint b" by blast
  then have "0 \<le> k" "k < 2 ^ 64" "d = word_of_int k"
    using assms unfolding biased_exact by (auto split: if_splits)
  then have "uint d = k" by (simp add: uint_word_of_int)
  with k show ?thesis by simp
qed

subsection \<open>Loading a list of segments\<close>

text \<open>Where a segment goes, and the addresses it then covers.\<close>

definition placed :: "elf_placement \<Rightarrow> elf_segment \<Rightarrow> u64" where
  "placed p s = (case biased (physical_address s) (bias p) of None \<Rightarrow> 0 | Some d \<Rightarrow> d)"

definition covers :: "elf_placement \<Rightarrow> u64 \<Rightarrow> elf_segment \<Rightarrow> bool" where
  "covers p x s \<longleftrightarrow> in_range (placed p s) (unat (memory_bytes s)) x"

text \<open>The memory an image leaves behind.\<close>

definition loaded :: "(nat \<Rightarrow> u8) \<Rightarrow> elf_placement \<Rightarrow> elf_segment list \<Rightarrow> mem \<Rightarrow> mem" where
  "loaded file p segs m = (\<lambda>x. case List.find (covers p x) segs of
     None \<Rightarrow> m x | Some s \<Rightarrow> loaded_byte file s (unat (x - placed p s)))"

lemma segment_withinD:
  assumes "segment_within s p"
  obtains d where "biased (physical_address s) (bias p) = Some d" "placed p s = d"
    "unat d + unat (memory_bytes s) < 2 ^ 64" "unat (limit_low p) \<le> unat d"
    "unat d + unat (memory_bytes s) \<le> unat (limit_high p)"
proof -
  from assms obtain d e where d: "biased (physical_address s) (bias p) = Some d"
    and e: "checked_add_u64 d (memory_bytes s) = Some e" "\<not> (d < limit_low p \<or> e > limit_high p)"
    by (auto simp: segment_within_def split: option.splits)
  from e(1) have "unat e = unat d + unat (memory_bytes s)" by (simp add: checked_Some)
  then show ?thesis using e d that [of d] unsigned_less [of e, where 'a = nat]
    by (simp add: placed_def word_less_nat_alt not_less)
qed

lemma within_window:
  assumes "segment_within s p" "covers p x s"
  shows "limit_low p \<le> x \<and> x < limit_high p"
proof -
  from assms(1) obtain d where d: "placed p s = d" "unat d + unat (memory_bytes s) < 2 ^ 64"
    "unat (limit_low p) \<le> unat d" "unat d + unat (memory_bytes s) \<le> unat (limit_high p)"
    by (elim segment_withinD)
  with assms(2) in_range_nat [of d "unat (memory_bytes s)" x] show ?thesis
    by (simp add: covers_def word_le_nat_alt word_less_nat_alt)
qed

text \<open>Two segments whose ranges of physical memory have no byte in common.\<close>

definition segments_apart :: "elf_segment \<Rightarrow> elf_segment \<Rightarrow> bool" where
  "segments_apart s t \<longleftrightarrow>
     unat (physical_address s) + unat (memory_bytes s) \<le> unat (physical_address t) \<or>
     unat (physical_address t) + unat (memory_bytes t) \<le> unat (physical_address s)"

lemma segments_overlap_apart: "segment_wf s \<Longrightarrow> segment_wf t \<Longrightarrow> segments_overlap s t = (\<not> segments_apart s t)"
  by (auto simp: segments_overlap_def segments_apart_def segment_wf_def checked_add_u64_def word_less_nat_alt unat_add_fits not_less)

lemma apart_covers:
  assumes "segments_apart s t" "segment_within s p" "segment_within t p" "covers p x s"
  shows "\<not> covers p x t"
proof
  assume "covers p x t"
  let ?b = "sint (bias p)"
  have pos: "int (unat d) = int (unat a) + ?b" if "biased a (bias p) = Some d" for a d
    using that by (rule biased_int)
  obtain d where d: "biased (physical_address s) (bias p) = Some d" "placed p s = d"
    "unat d + unat (memory_bytes s) < 2 ^ 64" using assms(2) by (elim segment_withinD)
  obtain e where e: "biased (physical_address t) (bias p) = Some e" "placed p t = e"
    "unat e + unat (memory_bytes t) < 2 ^ 64" using assms(3) by (elim segment_withinD)
  have xs: "unat d \<le> unat x" "unat x < unat d + unat (memory_bytes s)"
    using assms(4) d in_range_nat [of d "unat (memory_bytes s)" x] by (simp_all add: covers_def)
  have xt: "unat e \<le> unat x" "unat x < unat e + unat (memory_bytes t)"
    using \<open>covers p x t\<close> e in_range_nat [of e "unat (memory_bytes t)" x] by (simp_all add: covers_def)
  show False using assms(1) pos [OF d(1)] pos [OF e(1)] xs xt unfolding segments_apart_def by linarith
qed

lemma load_segments_facts:
  assumes "reads_file read file"
  shows "load_segments read p segs m = (ok, m') \<Longrightarrow> list_all segment_wf segs \<Longrightarrow>
    list_all (\<lambda>s. segment_within s p) segs \<Longrightarrow>
    sorted_wrt segments_apart segs \<Longrightarrow>
    (\<not> list_ex (covers p x) segs \<longrightarrow> m' x = m x) \<and> (ok \<longrightarrow> m' x = loaded file p segs m x)"
proof (induction segs arbitrary: m)
  case Nil
  then show ?case by (simp add: loaded_def)
next
  case (Cons s segs)
  have wf: "segment_wf s" "segment_within s p" using Cons.prems by simp_all
  obtain d where d: "biased (physical_address s) (bias p) = Some d" "placed p s = d"
    "unat d + unat (memory_bytes s) < 2 ^ 64" using wf(2) by (elim segment_withinD)
  obtain good m1 where c: "copy_segment read s d m = (good, m1)" by fastforce
  note facts = copy_segment_facts [OF assms c wf(1) d(3), of x]
  have cov: "covers p x s = in_range d (unat (memory_bytes s)) x" by (simp add: covers_def d)
  show ?case
  proof (cases good)
    case False
    then have "\<not> ok" "m' = m1" using Cons.prems(1) d c by auto
    then show ?thesis using facts cov by simp
  next
    case True
    then have rest: "load_segments read p segs m1 = (ok, m')" using Cons.prems(1) d c by simp
    have IH: "(\<not> list_ex (covers p x) segs \<longrightarrow> m' x = m1 x) \<and> (ok \<longrightarrow> m' x = loaded file p segs m1 x)"
      using Cons.prems by (intro Cons.IH [OF rest]) simp_all
    show ?thesis
    proof (cases "covers p x s")
      case covered: True
      have "\<not> list_ex (covers p x) segs"
        using Cons.prems apart_covers [OF _ wf(2) _ covered] by (auto simp: list_ex_iff list_all_iff)
      then show ?thesis using IH facts cov covered True d(2) by (simp add: loaded_def)
    next
      case False
      then show ?thesis using IH facts cov by (simp add: loaded_def split: option.splits)
    qed
  qed
qed

lemma load_segments_total:
  assumes "\<And>off n. fst (read off n)"
  shows "list_all (\<lambda>s. segment_within s p) segs \<Longrightarrow> fst (load_segments read p segs m)"
proof (induction segs arbitrary: m)
  case (Cons s segs)
  then obtain d where d: "biased (physical_address s) (bias p) = Some d" by (auto elim: segment_withinD)
  obtain m1 where "copy_segment read s d m = (True, m1)"
    using copy_segment_total [of read s d m] assms by (cases "copy_segment read s d m") auto
  then show ?case using Cons d by simp
qed simp

subsection \<open>Parsing\<close>

text \<open>The segment a program header at an offset of the file describes, and its type.\<close>

definition header_segment :: "(nat \<Rightarrow> u8) \<Rightarrow> nat \<Rightarrow> elf_segment" where
  "header_segment file a =
     \<lparr>file_offset = file_field file (a + 8) 8, virtual_address = file_field file (a + 16) 8,
      physical_address = file_field file (a + 24) 8, file_bytes = file_field file (a + 32) 8,
      memory_bytes = file_field file (a + 40) 8, seg_flags = ucast (file_field file (a + 4) 4)\<rparr>"

definition header_type :: "(nat \<Rightarrow> u8) \<Rightarrow> nat \<Rightarrow> u32" where
  "header_type file a = ucast (file_field file a 4)"

lemma parse_program_header_facts:
  assumes "parse_program_header (image_bytes file a 56) = Some (s, t)"
  shows "s = header_segment file a" "t = header_type file a" "t = ELF_PROGRAM_TYPE_LOAD \<Longrightarrow> segment_wf s"
proof -
  from assms show "s = header_segment file a" "t = header_type file a"
    by (auto simp: parse_program_header_def opt_bind Let_def header_segment_def header_type_def
        reader_init_def rd_at_def field_at field_at [of 0, simplified] dest!: reader_fields)
  from assms show "t = ELF_PROGRAM_TYPE_LOAD \<Longrightarrow> segment_wf s"
    by (auto simp: parse_program_header_def opt_bind Let_def load_segment_ok_def segment_wf_def
        checked_add_u64_def word_less_nat_alt not_less unat_gt_0 word_le_nat_alt split: if_splits)
qed

definition program_offset :: "(nat \<Rightarrow> u8) \<Rightarrow> u64" where
  "program_offset file = file_field file 32 8"

definition program_count :: "(nat \<Rightarrow> u8) \<Rightarrow> nat" where
  "program_count file = unat (file_field file 56 2)"

text \<open>The load segments of the program headers with the given indices, in their order.\<close>

definition header_at :: "(nat \<Rightarrow> u8) \<Rightarrow> u64 \<Rightarrow> u16 \<Rightarrow> nat" where
  "header_at file po i = unat po + unat i * 56"

definition file_segments :: "(nat \<Rightarrow> u8) \<Rightarrow> u64 \<Rightarrow> u16 list \<Rightarrow> elf_segment list" where
  "file_segments file po is =
     map (\<lambda>i. header_segment file (header_at file po i))
       (filter (\<lambda>i. header_type file (header_at file po i) = ELF_PROGRAM_TYPE_LOAD) is)"

definition image_wf :: "elf_image \<Rightarrow> bool" where
  "image_wf img \<longleftrightarrow>
     length (segments img) \<le> ELF_MAX_SEGMENTS \<and> list_all segment_wf (segments img) \<and>
     sorted_wrt segments_apart (segments img) \<and>
     (\<forall>s \<in> set (segments img). lowest_address img \<le> physical_address s \<and>
        physical_address s + memory_bytes s \<le> highest_address img)"

text \<open>What the header of a file has to be.\<close>

definition header_ok :: "(nat \<Rightarrow> u8) \<Rightarrow> bool" where
  "header_ok file \<longleftrightarrow>
     map file [0..<7] = [0x7F, 0x45, 0x4C, 0x46, 2, 1, 1] \<and>
     unat (file_field file 16 2) \<in> {2, 3} \<and> unat (file_field file 18 2) = 62 \<and> unat (file_field file 20 4) = 1 \<and>
     unat (file_field file 54 2) = 56 \<and> 1 \<le> program_count file \<and> program_count file \<le> 64"

text \<open>
  What a program header at an offset has to be: not that of an interpreter, and if it is one of a segment to load, a
  segment that neither wraps nor has more bytes in the file than in memory, aligned to a power of two or not at all.
\<close>

definition program_header_ok :: "(nat \<Rightarrow> u8) \<Rightarrow> nat \<Rightarrow> bool" where
  "program_header_ok file a \<longleftrightarrow> a < 2 ^ 64 \<and> unat (header_type file a) \<noteq> 3 \<and>
     (unat (header_type file a) = 1 \<longrightarrow> segment_wf (header_segment file a) \<and>
        (unat (file_field file (a + 48) 8) = 0 \<or> (\<exists>k. unat (file_field file (a + 48) 8) = 2 ^ k)))"

abbreviation program_indices :: "(nat \<Rightarrow> u8) \<Rightarrow> u16 list" where
  "program_indices file \<equiv> map of_nat [0..<program_count file]"

definition acceptable :: "(nat \<Rightarrow> u8) \<Rightarrow> bool" where
  "acceptable file \<longleftrightarrow> header_ok file \<and>
     (\<forall>i \<in> set (program_indices file). program_header_ok file (header_at file (program_offset file) i)) \<and>
     (let ss = file_segments file (program_offset file) (program_indices file)
      in ss \<noteq> [] \<and> length ss \<le> 16 \<and> sorted_wrt segments_apart ss)"

text \<open>The image a file describes.\<close>

definition described :: "(nat \<Rightarrow> u8) \<Rightarrow> elf_image" where
  "described file =
     (let ss = file_segments file (program_offset file) (program_indices file)
      in \<lparr>entry_address = file_field file 24 8, segments = ss, lowest_address = Min (physical_address ` set ss),
          highest_address = Max ((\<lambda>s. physical_address s + memory_bytes s) ` set ss)\<rparr>)"

subsubsection \<open>Parsing a file that can be read\<close>

definition whole_file :: "(nat \<Rightarrow> u8) \<Rightarrow> elf_read" where
  "whole_file file off n = (True, image_bytes file (unat off) (unat n))"

lemma read_whole [simp]: "read_or_fail (whole_file file) off n = Some (image_bytes file (unat off) (unat n))"
  by (simp add: read_or_fail_def whole_file_def)

lemma read_or_failD:
  "reads_file read file \<Longrightarrow> read_or_fail read off n = Some bytes \<Longrightarrow> bytes = image_bytes file (unat off) (unat n)"
  unfolding read_or_fail_def by (cases "read off n") (auto split: if_splits dest: reads_fileD(2))

lemma read_or_fail_total:
  assumes "reads_file read file" "fst (read off n)"
  shows "read_or_fail read off n = Some (image_bytes file (unat off) (unat n))"
  using reads_fileD(2) [OF assms(1), of off n] assms(2) by (cases "read off n") (simp add: read_or_fail_def)

lemma parse_segments_whole:
  assumes "reads_file read file"
  shows "parse_segments read po is img = Some out \<Longrightarrow> parse_segments (whole_file file) po is img = Some out"
proof (induction "is" arbitrary: img)
  case (Cons i "is")
  obtain off at' raw s t where
    off: "checked_mul_u64 (ucast i) 56 = Some off" "checked_add_u64 po off = Some at'"
    and raw: "read_or_fail read at' 56 = Some raw" and p: "parse_program_header raw = Some (s, t)"
    and rest: "ensure (t \<noteq> ELF_PROGRAM_TYPE_INTERPRETER) = Some ()"
      "(if t \<noteq> ELF_PROGRAM_TYPE_LOAD then parse_segments read po is img
       else do { ensure (length (segments img) \<noteq> ELF_MAX_SEGMENTS);
                 ensure (\<not> list_ex (\<lambda>other. segments_overlap other s) (segments img));
                 parse_segments read po is (add_segment img s) }) = Some out"
    using Cons.prems by (auto simp: opt_bind simp del: not_None_eq)
  from rest(2) have "(if t \<noteq> ELF_PROGRAM_TYPE_LOAD then parse_segments (whole_file file) po is img
       else do { ensure (length (segments img) \<noteq> ELF_MAX_SEGMENTS);
                 ensure (\<not> list_ex (\<lambda>other. segments_overlap other s) (segments img));
                 parse_segments (whole_file file) po is (add_segment img s) }) = Some out"
    using Cons.IH by (auto simp: opt_bind split: if_splits)
  then show ?case using off p rest(1) read_or_failD [OF assms raw] by simp
qed simp

lemma parse_segments_cong:
  assumes "\<And>off n. read_or_fail read off n = read_or_fail read' off n"
  shows "parse_segments read po is img = parse_segments read' po is img"
  by (induction "is" arbitrary: img) (simp_all add: assms cong: if_cong prod.case_cong)

lemma elf_parse_whole:
  assumes "reads_file read file"
  shows "elf_parse read = Some img \<Longrightarrow> elf_parse (whole_file file) = Some img"
    "(\<And>off n. fst (read off n)) \<Longrightarrow> elf_parse read = elf_parse (whole_file file)"
proof -
  have "parse_header read = Some x \<Longrightarrow> parse_header (whole_file file) = Some x" for x
    using read_or_failD [OF assms, of 0 64] by (cases "read_or_fail read 0 64") (simp_all add: parse_header_def)
  then show "elf_parse read = Some img \<Longrightarrow> elf_parse (whole_file file) = Some img"
    by (auto simp: elf_parse_def opt_bind dest!: parse_segments_whole [OF assms])
  assume "\<And>off n. fst (read off n)"
  then have eq: "read_or_fail read off n = read_or_fail (whole_file file) off n" for off n
    using read_or_fail_total [OF assms] by simp
  have "parse_header read = parse_header (whole_file file)" unfolding parse_header_def eq ..
  then show "elf_parse read = elf_parse (whole_file file)"
    unfolding elf_parse_def by (simp only: parse_segments_cong [OF eq])
qed

text \<open>A reader at a place of a buffer that holds a part of a file, and what it finds there.\<close>

definition file_reader :: "(nat \<Rightarrow> u8) \<Rightarrow> nat \<Rightarrow> nat \<Rightarrow> nat \<Rightarrow> reader" where
  "file_reader file a len p =
     \<lparr>rd_base = Some (image_bytes file a len), rd_length = of_nat len, rd_position = of_nat p\<rparr>"

lemma file_reads:
  assumes "p + k \<le> len" "len < 2 ^ 64"
  shows "k = 2 \<Longrightarrow> reader_u16 (file_reader file a len p) = Some (ucast (file_field file (a + p) 2), file_reader file a len (p + 2))"
    "k = 4 \<Longrightarrow> reader_u32 (file_reader file a len p) = Some (ucast (file_field file (a + p) 4), file_reader file a len (p + 4))"
    "k = 8 \<Longrightarrow> reader_u64 (file_reader file a len p) = Some (file_field file (a + p) 8, file_reader file a len (p + 8))"
    "reader_seek (file_reader file a len q) (of_nat p) = Some (file_reader file a len p)"
proof -
  have u: "unat (of_nat p :: u64) = p" "unat (of_nat len :: u64) = len" using assms(1,2) by (simp_all add: unat_of_nat64)
  note at = reader_scalar_at [of "file_reader file a len p" "image_bytes file a len"] field_at [OF assms(1), of "file" a]
  show "k = 2 \<Longrightarrow> reader_u16 (file_reader file a len p) = Some (ucast (file_field file (a + p) 2), file_reader file a len (p + 2))"
    "k = 4 \<Longrightarrow> reader_u32 (file_reader file a len p) = Some (ucast (file_field file (a + p) 4), file_reader file a len (p + 4))"
    "k = 8 \<Longrightarrow> reader_u64 (file_reader file a len p) = Some (file_field file (a + p) 8, file_reader file a len (p + 8))"
    "reader_seek (file_reader file a len q) (of_nat p) = Some (file_reader file a len p)"
    using assms(1) at u by (simp_all add: file_reader_def reader_u16_def reader_u32_def reader_u64_def reader_seek_def word_less_nat_alt)
qed

lemma field_bound: "unat (file_field file a 2) < 2 ^ 16" "unat (file_field file a 4) < 2 ^ 32"
  using little_endian_bound [of 2 "image_bytes file a 2"] little_endian_bound [of 4 "image_bytes file a 4"]
  by (simp_all add: file_field_def)

lemma field_cast:
  "unat (ucast (file_field file a 2) :: u16) = unat (file_field file a 2)"
  "unat (ucast (file_field file a 4) :: u32) = unat (file_field file a 4)"
  using field_bound [of "file" a] by (simp_all add: unat_ucast_down)

lemma parse_header_eval:
  "parse_header (whole_file file) =
     (if header_ok file then Some (program_offset file, ucast (file_field file 56 2), file_field file 24 8) else None)"
proof -
  let ?r = "file_reader file 0 64"
  have init: "reader_init (Some (image_bytes file 0 64)) 64 = ?r 0" by (simp add: reader_init_def file_reader_def)
  have seeks: "reader_seek (?r q) 16 = Some (?r 16)" "reader_seek (?r q) 32 = Some (?r 32)" "reader_seek (?r q) 54 = Some (?r 54)" for q
    using file_reads(4) [of 16 0 64 "file" 0 q] file_reads(4) [of 32 0 64 "file" 0 q] file_reads(4) [of 54 0 64 "file" 0 q] by simp_all
  have fields: "reader_u16 (?r 16) = Some (ucast (file_field file 16 2), ?r 18)"
    "reader_u16 (?r 18) = Some (ucast (file_field file 18 2), ?r 20)"
    "reader_u32 (?r 20) = Some (ucast (file_field file 20 4), ?r 24)"
    "reader_u64 (?r 24) = Some (file_field file 24 8, ?r 32)"
    "reader_u64 (?r 32) = Some (program_offset file, ?r 40)"
    "reader_u16 (?r 54) = Some (ucast (file_field file 54 2), ?r 56)"
    "reader_u16 (?r 56) = Some (ucast (file_field file 56 2), ?r 58)"
    using file_reads(1) [of 16 2 64 "file" 0] file_reads(1) [of 18 2 64 "file" 0] file_reads(2) [of 20 4 64 "file" 0]
      file_reads(3) [of 24 8 64 "file" 0] file_reads(3) [of 32 8 64 "file" 0] file_reads(1) [of 54 2 64 "file" 0]
      file_reads(1) [of 56 2 64 "file" 0]
    by (simp_all add: program_offset_def)
  have magic: "memcmp_bytes (image_bytes file 0 64) elf_magic 4 = 0 \<longleftrightarrow> map file [0..<4] = elf_magic"
  proof -
    have "take 4 (image_bytes file 0 64) = map file [0..<4]" by (simp add: image_bytes_def take_map upt_rec)
    then show ?thesis by (subst memcmp_bytes_0) (simp_all add: elf_magic_def)
  qed
  have idents: "image_bytes file 0 64 ! 4 = file 4" "image_bytes file 0 64 ! 5 = file 5" "image_bytes file 0 64 ! 6 = file 6"
    by (simp_all add: image_bytes_def)
  have ident: "map file [0..<7] = [0x7F, 0x45, 0x4C, 0x46, 2, 1, 1] \<longleftrightarrow>
      map file [0..<4] = elf_magic \<and> file 4 = 2 \<and> file 5 = 1 \<and> file 6 = 1"
    by (simp add: upt_rec elf_magic_def eval_nat_numeral)
  show ?thesis
    unfolding parse_header_def header_ok_def ident
    by (simp add: init seeks fields magic idents program_count_def word_unat_eq_iff field_cast word_less_nat_alt not_less ensure_def)
qed

lemma load_segment_ok_iff:
  "load_segment_ok s al \<longleftrightarrow> segment_wf s \<and> (unat al = 0 \<or> (\<exists>k. unat al = 2 ^ k))"
  unfolding pow2_exp [symmetric] load_segment_ok_def segment_wf_def
  by (auto simp: checked_add_u64_def unat_gt_0 not_less pow2_def unat_eq_0 split: if_splits)

lemma parse_program_header_eval:
  assumes "a < 2 ^ 64"
  shows "parse_program_header (image_bytes file a 56) =
     (if unat (header_type file a) = 3 \<or> program_header_ok file a then Some (header_segment file a, header_type file a) else None)"
proof -
  let ?r = "file_reader file a 56"
  have init: "reader_init (Some (image_bytes file a 56)) 56 = ?r 0" by (simp add: reader_init_def file_reader_def)
  have fields: "reader_u32 (?r 0) = Some (header_type file a, ?r 4)"
    "reader_u32 (?r 4) = Some (ucast (file_field file (a + 4) 4), ?r 8)"
    "reader_u64 (?r 8) = Some (file_field file (a + 8) 8, ?r 16)"
    "reader_u64 (?r 16) = Some (file_field file (a + 16) 8, ?r 24)"
    "reader_u64 (?r 24) = Some (file_field file (a + 24) 8, ?r 32)"
    "reader_u64 (?r 32) = Some (file_field file (a + 32) 8, ?r 40)"
    "reader_u64 (?r 40) = Some (file_field file (a + 40) 8, ?r 48)"
    "reader_u64 (?r 48) = Some (file_field file (a + 48) 8, ?r 56)"
    using file_reads(2) [of 0 4 56 "file" a] file_reads(2) [of 4 4 56 "file" a] file_reads(3) [of 8 8 56 "file" a]
      file_reads(3) [of 16 8 56 "file" a] file_reads(3) [of 24 8 56 "file" a] file_reads(3) [of 32 8 56 "file" a]
      file_reads(3) [of 40 8 56 "file" a] file_reads(3) [of 48 8 56 "file" a]
    by (simp_all add: header_type_def)
  have "header_type file a \<noteq> 1 \<longleftrightarrow> unat (header_type file a) \<noteq> 1" by (simp add: word_unat_eq_iff)
  then show ?thesis
    using assms by (auto simp: parse_program_header_def init fields load_segment_ok_iff program_header_ok_def
        ensure_def header_segment_def)
qed

lemma parse_segments_eval:
  "list_all segment_wf (segments img) \<Longrightarrow> sorted_wrt segments_apart (segments img) \<Longrightarrow> length (segments img) \<le> 16 \<Longrightarrow>
   parse_segments (whole_file file) po is img =
    (let ss = file_segments file po is
     in if (\<forall>i \<in> set is. program_header_ok file (header_at file po i)) \<and> length (segments img @ ss) \<le> 16 \<and>
           sorted_wrt segments_apart (segments img @ ss)
        then Some (fold (\<lambda>s img. add_segment img s) ss img) else None)"
proof (induction "is" arbitrary: img)
  case Nil
  then show ?case by (simp add: file_segments_def)
next
  case (Cons i "is")
  let ?a = "header_at file po i" and ?s = "header_segment file (header_at file po i)"
  have mul: "checked_mul_u64 (ucast i) 56 = Some (ucast i * 56)"
  proof -
    have "unat i < 2 ^ LENGTH(16)" by (rule unsigned_less)
    then have "unat i * 56 < 2 ^ LENGTH(16) * 56" by (rule mult_strict_right_mono) simp
    then have "unat i * 56 < 2 ^ 64" by (rule order.strict_trans2) simp
    then show ?thesis by (simp add: checked_mul_u64_def unsigned_ucast_eq take_bit_nat_eq_self)
  qed
  then have off: "unat (ucast i * 56 :: u64) = unat i * 56" by (simp add: checked_Some)
  show ?case
  proof (cases "?a < 2 ^ 64")
    case False
    then have "checked_add_u64 po (ucast i * 56) = None" using off by (simp add: checked_add_u64_None header_at_def)
    then show ?thesis using mul False by (simp add: program_header_ok_def Let_def)
  next
    case True
    then obtain at' where at': "checked_add_u64 po (ucast i * 56) = Some at'" "unat at' = ?a"
      using off by (auto simp: checked_add_u64_def header_at_def unat_add_fits)
    note step = mul at' parse_program_header_eval [OF True]
    have one: "header_type file ?a = 1 \<longleftrightarrow> unat (header_type file ?a) = 1"
      "header_type file ?a = 3 \<longleftrightarrow> unat (header_type file ?a) = 3" by (simp_all add: word_unat_eq_iff)
    consider "unat (header_type file ?a) = 3" | "unat (header_type file ?a) \<noteq> 3" "\<not> program_header_ok file ?a"
      | "program_header_ok file ?a" "header_type file ?a \<noteq> 1" | "program_header_ok file ?a" "header_type file ?a = 1"
      by blast
    then show ?thesis
    proof cases
      case 1
      then have "\<not> program_header_ok file ?a" by (simp add: program_header_ok_def)
      with 1 one(2) show ?thesis by (simp add: step)
    next
      case 2
      then show ?thesis by (simp add: step)
    next
      case 3
      then show ?thesis using one Cons by (simp add: step program_header_ok_def [of "file" ?a] file_segments_def Let_def)
    next
      case 4
      then have wf: "segment_wf ?s" by (simp add: program_header_ok_def)
      have overlap: "list_ex (\<lambda>other. segments_overlap other ?s) (segments img) \<longleftrightarrow> \<not> (\<forall>other \<in> set (segments img). segments_apart other ?s)"
        using Cons.prems(1) wf by (auto simp: list_ex_iff list_all_iff segments_overlap_apart)
      show ?thesis
      proof (cases "length (segments img) = 16 \<or> \<not> (\<forall>other \<in> set (segments img). segments_apart other ?s)")
        case True
        then show ?thesis using 4 overlap
          by (auto simp: step file_segments_def sorted_wrt_append ensure_def Let_def)
      next
        case False
        then have "list_all segment_wf (segments (add_segment img ?s))"
          "sorted_wrt segments_apart (segments (add_segment img ?s))" "length (segments (add_segment img ?s)) \<le> 16"
          using Cons.prems wf by (auto simp: add_segment_def Let_def sorted_wrt_append)
        note IH = Cons.IH [OF this]
        have segs: "segments (add_segment img ?s) = segments img @ [?s]" by (simp add: add_segment_def Let_def)
        show ?thesis using False 4 overlap IH unfolding segs
          by (simp add: step file_segments_def Let_def)
      qed
    qed
  qed
qed

lemma fold_add_segment:
  "fold (\<lambda>s img. add_segment img s) ss img =
     img\<lparr>segments := segments img @ ss, lowest_address := fold min (map physical_address ss) (lowest_address img),
         highest_address := fold max (map (\<lambda>s. physical_address s + memory_bytes s) ss) (highest_address img)\<rparr>"
proof (induction ss arbitrary: img)
  case (Cons s ss)
  then show ?case by (simp add: add_segment_def Let_def min_def max_def)
qed simp

lemma elf_parse_eval: "elf_parse (whole_file file) = (if acceptable file then Some (described file) else None)"
proof -
  let ?ss = "file_segments file (program_offset file) (program_indices file)"
  let ?out = "\<lparr>entry_address = file_field file 24 8, segments = [], lowest_address = -1, highest_address = 0\<rparr>"
  have count: "unat (ucast (file_field file 56 2) :: u16) = program_count file"
    by (simp add: field_cast program_count_def)
  have "fold min (map physical_address ?ss) (-1) = Min (insert (-1) (physical_address ` set ?ss))"
    using Min.set_eq_fold [of "-1" "map physical_address ?ss"] by simp
  also have "\<dots> = Min (physical_address ` set ?ss)" if "?ss \<noteq> []"
    using that by (subst Min_insert) (auto simp: min_def intro: antisym)
  finally have low: "?ss \<noteq> [] \<Longrightarrow> fold min (map physical_address ?ss) (-1) = Min (physical_address ` set ?ss)" .
  have "fold max (map (\<lambda>s. physical_address s + memory_bytes s) ?ss) 0 =
      Max (insert 0 ((\<lambda>s. physical_address s + memory_bytes s) ` set ?ss))"
    using Max.set_eq_fold [of 0 "map (\<lambda>s. physical_address s + memory_bytes s) ?ss"] by simp
  also have "\<dots> = Max ((\<lambda>s. physical_address s + memory_bytes s) ` set ?ss)" if "?ss \<noteq> []"
    using that by (subst Max_insert) (auto simp: max_def intro: antisym)
  finally have high: "?ss \<noteq> [] \<Longrightarrow> fold max (map (\<lambda>s. physical_address s + memory_bytes s) ?ss) 0 =
      Max ((\<lambda>s. physical_address s + memory_bytes s) ` set ?ss)" .
  have "fold (\<lambda>s img. add_segment img s) ?ss ?out = described file" if "?ss \<noteq> []"
    using low [OF that] high [OF that] by (simp add: fold_add_segment described_def Let_def)
  moreover have "segments (fold (\<lambda>s img. add_segment img s) ?ss ?out) = ?ss" by (simp add: fold_add_segment)
  moreover have "parse_segments (whole_file file) (program_offset file) (program_indices file) ?out =
      (if (\<forall>i \<in> set (program_indices file). program_header_ok file (header_at file (program_offset file) i)) \<and>
          length ?ss \<le> 16 \<and> sorted_wrt segments_apart ?ss
       then Some (fold (\<lambda>s img. add_segment img s) ?ss ?out) else None)"
    by (subst parse_segments_eval) (simp_all add: Let_def)
  moreover have "segments (described file) = ?ss" by (simp add: described_def Let_def)
  ultimately show ?thesis
    unfolding elf_parse_def parse_header_eval acceptable_def Let_def
    by (auto simp: count ensure_def)
qed

lemma elf_parse_run:
  assumes "reads_file read file"
  shows "elf_parse read \<in> {None, if acceptable file then Some (described file) else None}"
    "(\<And>off n. fst (read off n)) \<Longrightarrow> elf_parse read = (if acceptable file then Some (described file) else None)"
proof -
  show "elf_parse read \<in> {None, if acceptable file then Some (described file) else None}"
    using elf_parse_whole(1) [OF assms] unfolding elf_parse_eval by (cases "elf_parse read") auto
qed (use elf_parse_whole(2) [OF assms] elf_parse_eval in auto)

lemma image_wf_start: "image_wf \<lparr>entry_address = e, segments = [], lowest_address = l, highest_address = h\<rparr>"
  by (simp add: image_wf_def)

lemma add_segment_wf:
  assumes "image_wf img" "segment_wf s" "length (segments img) \<noteq> ELF_MAX_SEGMENTS"
    "\<not> list_ex (\<lambda>other. segments_overlap other s) (segments img)"
  shows "image_wf (add_segment img s)"
proof -
  have "length (segments img) < 16" using assms(1,3) by (simp add: image_wf_def)
  moreover have "sorted_wrt segments_apart (segments img @ [s])"
    using assms(1,2,4) by (auto simp: image_wf_def sorted_wrt_append list_ex_iff list_all_iff segments_overlap_apart)
  ultimately show ?thesis
    using assms(1,2) by (auto simp: image_wf_def add_segment_def Let_def intro: order_trans)
qed

lemma described_wf: "acceptable file \<Longrightarrow> image_wf (described file)"
  by (auto simp: acceptable_def described_def image_wf_def Let_def file_segments_def list_all_iff program_header_ok_def)

lemma elf_parse_facts:
  assumes "reads_file read file" "elf_parse read = Some img"
  shows "image_wf img" "segments img \<noteq> []" "entry_address img = file_field file 24 8"
    "segments img = file_segments file (program_offset file) (map of_nat [0..<program_count file])"
    "image_bytes file 0 4 = elf_magic" "program_count file \<le> 64"
proof -
  have ok: "acceptable file" "img = described file"
    using elf_parse_run(1) [OF assms(1)] assms(2) by (auto split: if_splits)
  then show "image_wf img" by (simp add: described_wf)
  show "segments img \<noteq> []" "entry_address img = file_field file 24 8"
    "segments img = file_segments file (program_offset file) (map of_nat [0..<program_count file])"
    "program_count file \<le> 64"
    using ok by (auto simp: acceptable_def described_def header_ok_def Let_def)
  have "map file [0..<7] = [0x7F, 0x45, 0x4C, 0x46, 2, 1, 1]" using ok(1) by (simp add: acceptable_def header_ok_def)
  then show "image_bytes file 0 4 = elf_magic" by (simp add: image_bytes_def elf_magic_def upt_rec)
qed

text \<open>
  C20. Parsing accepts exactly the ELF files this machine can load and describes them exactly. A file whose reads
  succeed is parsed if and only if its header is that of a 64-bit little-endian x86-64 executable or shared object
  with 1 to 64 program headers of the size known, every program header lies below 2^64, none names an interpreter,
  every one of type LOAD neither wraps in the file or in either address space nor has more bytes in the file than in
  memory and is aligned to a power of two or to nothing, and there are 1 to 16 of those, no two with a byte of
  physical memory in common; the image is then the entry of the header, those segments in their order, and the lowest
  and the highest physical address of them. When reads fail, parsing fails or answers the same.
\<close>

theorem elf_parse_exact:
  assumes "reads_file read file"
  shows "elf_parse read \<in> {None, if acceptable file then Some (described file) else None} \<and>
    ((\<forall>off n. fst (read off n)) \<longrightarrow> elf_parse read = (if acceptable file then Some (described file) else None))"
  using elf_parse_run [OF assms] by blast

definition in_window :: "elf_placement \<Rightarrow> u64 \<Rightarrow> bool" where
  "in_window p x \<longleftrightarrow> limit_low p \<le> x \<and> x < limit_high p"

definition fits_window :: "elf_image \<Rightarrow> elf_placement \<Rightarrow> bool" where
  "fits_window img p \<longleftrightarrow> limit_low p < limit_high p \<and> list_all (\<lambda>s. segment_within s p) (segments img)"

lemma elf_load_run:
  assumes "reads_file read file" "elf_parse read = Some img" "elf_load read img p m = (ok, m')"
  shows "(\<forall>x. \<not> in_window p x \<longrightarrow> m' x = m x) \<and>
    (ok \<longrightarrow> m' = loaded file p (segments img) m) \<and>
    (\<not> fits_window img p \<longrightarrow> \<not> ok \<and> m' = m) \<and>
    ((\<forall>off n. fst (read off n)) \<longrightarrow> ok = fits_window img p)"
proof (cases "fits_window img p")
  case False
  then have "elf_load read img p m = (False, m)"
    using elf_parse_facts(2) [OF assms(1,2)]
    by (auto simp: elf_load_def fits_window_def list_ex_iff list_all_iff)
  then show ?thesis using False assms(3) by simp
next
  case True
  then have within: "list_all (\<lambda>s. segment_within s p) (segments img)" by (simp add: fits_window_def)
  have load: "load_segments read p (segments img) m = (ok, m')"
    using True assms(3) elf_parse_facts(2) [OF assms(1,2)]
    by (auto simp: elf_load_def fits_window_def list_ex_iff list_all_iff split: if_splits)
  have wf: "list_all segment_wf (segments img)" "sorted_wrt segments_apart (segments img)"
    using elf_parse_facts(1) [OF assms(1,2)] by (simp_all add: image_wf_def)
  note facts = load_segments_facts [OF assms(1) load wf(1) within wf(2)]
  have "m' x = m x" if "\<not> in_window p x" for x
    using facts [of x] within_window [of _ p x] within that
    by (auto simp: in_window_def list_ex_iff list_all_iff)
  moreover have "m' = loaded file p (segments img) m" if ok
    using facts that by blast
  moreover have ok if "\<forall>off n. fst (read off n)"
    using load_segments_total [OF _ within, of read m] load that by simp
  ultimately show ?thesis using True by blast
qed


subsection \<open>A kernel in memory\<close>

text \<open>A file of one program header: 3 bytes of code for 5 bytes of memory at 0x2000.\<close>

definition demo_elf_header :: "u8 list" where
  "demo_elf_header = elf_magic @ [2, 1, 1] @ replicate 9 0 @ [2, 0] @ [62, 0] @ [1, 0, 0, 0] @
     [0, 32, 0, 0, 0, 0, 0, 0] @ [64, 0, 0, 0, 0, 0, 0, 0] @ replicate 14 0 @ [56, 0] @ [1, 0] @ replicate 6 0"

definition demo_program_header :: "u8 list" where
  "demo_program_header =
     [1, 0, 0, 0] @ [5, 0, 0, 0] @ [120, 0, 0, 0, 0, 0, 0, 0] @ [0, 32, 0, 0, 0, 0, 0, 0] @ [0, 32, 0, 0, 0, 0, 0, 0] @
     [3, 0, 0, 0, 0, 0, 0, 0] @ [5, 0, 0, 0, 0, 0, 0, 0] @ [0, 16, 0, 0, 0, 0, 0, 0]"

definition demo_elf :: "nat \<Rightarrow> u8" where
  "demo_elf = file_of (demo_elf_header @ demo_program_header @ [0xF4, 0xEB, 0xFD])"

definition demo_elf_read :: elf_read where
  "demo_elf_read off n = (True, image_bytes demo_elf (unat off) (unat n))"

definition demo_segment :: elf_segment where
  "demo_segment = \<lparr>file_offset = 120, virtual_address = 0x2000, physical_address = 0x2000, file_bytes = 3,
     memory_bytes = 5, seg_flags = 5\<rparr>"

definition demo_image :: elf_image where
  "demo_image = \<lparr>entry_address = 0x2000, segments = [demo_segment], lowest_address = 0x2000, highest_address = 0x2005\<rparr>"

definition demo_placement :: elf_placement where
  "demo_placement = \<lparr>bias = 0x100, limit_low = 0x1000, limit_high = 0x3000\<rparr>"

lemma demo_reads: "reads_file demo_elf_read demo_elf" "fst (demo_elf_read off n)"
  by (simp_all add: reads_file_def demo_elf_read_def)

lemma demo_bytes:
  "image_bytes demo_elf 0 64 = demo_elf_header" "image_bytes demo_elf 64 56 = demo_program_header"
proof -
  have "length demo_elf_header = 64" "length demo_program_header = 56"
    by (simp_all add: demo_elf_header_def demo_program_header_def elf_magic_def)
  then show "image_bytes demo_elf 0 64 = demo_elf_header" "image_bytes demo_elf 64 56 = demo_program_header"
    unfolding demo_elf_def by (subst image_bytes_file_of; simp)+
qed

lemma demo_elf_header_eq:
  "demo_elf_header = [0x7F, 69, 76, 70, 2, 1, 1, 0, 0, 0, 0, 0, 0, 0, 0, 0, 2, 0, 62, 0, 1, 0, 0, 0,
     0, 32, 0, 0, 0, 0, 0, 0, 64, 0, 0, 0, 0, 0, 0, 0, 0, 0, 0, 0, 0, 0, 0, 0, 0, 0, 0, 0, 0, 0, 56, 0,
     1, 0, 0, 0, 0, 0, 0, 0]"
  by (simp add: demo_elf_header_def elf_magic_def eval_nat_numeral)

lemma demo_header: "parse_header demo_elf_read = Some (64, 1, 0x2000)"
proof -
  have "memcmp_bytes demo_elf_header elf_magic 4 = 0"
    by (subst memcmp_bytes_0) (simp_all add: demo_elf_header_def elf_magic_def)
  moreover have "read_or_fail demo_elf_read 0 64 = Some demo_elf_header"
    by (simp add: read_or_fail_def demo_elf_read_def demo_bytes)
  moreover have "reader_init (Some demo_elf_header) 64 = \<lparr>rd_base = Some demo_elf_header, rd_length = 64, rd_position = 0\<rparr>"
    by (simp add: reader_init_def)
  ultimately show ?thesis
    by (simp add: parse_header_def) (simp add: demo_elf_header_eq reading_eval)
qed

lemma demo_program: "parse_program_header demo_program_header = Some (demo_segment, 1)"
  by (simp add: parse_program_header_def reader_init_def demo_program_header_def)
    (simp add: reading_eval demo_segment_def load_segment_ok_def checked_add_u64_def)

lemma demo_parse: "elf_parse demo_elf_read = Some demo_image"
  by (simp add: elf_parse_def demo_header demo_program upt_rec checked_mul_u64_def checked_add_u64_def
      read_or_fail_def demo_elf_read_def demo_bytes add_segment_def demo_image_def demo_segment_def)

theorem elf_parse_exact_witness: "elf_parse demo_elf_read = Some (described demo_elf) \<and> described demo_elf = demo_image"
  using elf_parse_exact [OF demo_reads(1)] demo_parse by (auto split: if_splits)


subsection \<open>Reading from a source of bytes\<close>

text \<open>The reading callback over a file: a refused read stores nothing.\<close>

definition source_read :: "('d \<Rightarrow> u64 \<Rightarrow> usize \<Rightarrow> u8 list option) \<Rightarrow> 'd \<Rightarrow> elf_read" where
  "source_read read d off n = (case read d off n of None \<Rightarrow> (False, []) | Some bytes \<Rightarrow> (True, bytes))"

context byte_source
begin

lemma source_reads_file: "ok d \<Longrightarrow> reads_file (source_read read d) (image d)"
  using read_image read_length by (fastforce simp: reads_file_def source_read_def split: option.splits)

end

end
