(* ===== verification/Path.thy ===== *)
theory Path
  imports Str
begin

text \<open>
  The walk along a path that \<open>fat_open\<close> and \<open>ext2_open\<close> share, loop by loop: skipping separators and
  finding the end of a component. A path is the bytes in front of its NUL.
\<close>

abbreviation (input) PATH_SEPARATOR :: u8 where "PATH_SEPARATOR \<equiv> of_char CHR ''/''"

text \<open>\<open>path[index]\<close>, with the NUL behind the path.\<close>

definition path_at :: "str \<Rightarrow> nat \<Rightarrow> u8" where
  "path_at path index = (if index < length path then path ! index else 0)"

function skip_separators :: "str \<Rightarrow> nat \<Rightarrow> nat" where
  "skip_separators path index = (if path_at path index = PATH_SEPARATOR then skip_separators path (Suc index) else index)"
  by pat_completeness auto
termination
  by (relation "measure (\<lambda>(path, index). length path - index)") (auto simp: path_at_def split: if_splits)

declare skip_separators.simps [simp del]

function component_end :: "str \<Rightarrow> nat \<Rightarrow> nat" where
  "component_end path index =
     (if path_at path index \<noteq> 0 \<and> path_at path index \<noteq> PATH_SEPARATOR then component_end path (Suc index) else index)"
  by pat_completeness auto
termination
  by (relation "measure (\<lambda>(path, index). length path - index)") (auto simp: path_at_def split: if_splits)

declare component_end.simps [simp del]

lemma skip_separators_ge: "index \<le> skip_separators path index"
  by (induction path index rule: skip_separators.induct) (subst skip_separators.simps, auto)

lemma component_end_ge: "index \<le> component_end path index"
  by (induction path index rule: component_end.induct) (subst component_end.simps, auto)

end
