(* ===== verification/Fat.thy ===== *)
theory Fat
  imports Block Path
begin

text \<open>
  \<open>src/fs/fat.c\<close>: FAT32, read only. The volume carries its geometry and the one cached FAT sector; a file
  carries where its last read left the cluster chain. Operations return what they read and the volume
  (and file) they leave behind. A path and a name are the bytes in front of the NUL; the stack buffers
  of the code start with arbitrary bytes, which are parameters. A block read that fails
  leaves in the cached sector what the device had stored by then. A file's volume pointer is the volume it is used with, and null
  pointers are not states of the model.
\<close>

abbreviation (input) FAT_BPB_BYTES_PER_SECTOR_OFFSET :: usize where "FAT_BPB_BYTES_PER_SECTOR_OFFSET \<equiv> 11"
abbreviation (input) FAT_BPB_TOTAL_SECTORS_32_OFFSET :: usize where "FAT_BPB_TOTAL_SECTORS_32_OFFSET \<equiv> 32"
abbreviation (input) FAT_BPB_SECTORS_PER_FAT_16_OFFSET :: usize where "FAT_BPB_SECTORS_PER_FAT_16_OFFSET \<equiv> 22"
abbreviation (input) FAT_BPB_ROOT_CLUSTER_OFFSET :: usize where "FAT_BPB_ROOT_CLUSTER_OFFSET \<equiv> 44"
abbreviation (input) FAT_BPB_SIGNATURE_OFFSET :: nat where "FAT_BPB_SIGNATURE_OFFSET \<equiv> 510"
abbreviation (input) FAT_BPB_SIGNATURE :: u16 where "FAT_BPB_SIGNATURE \<equiv> 0xAA55"
abbreviation (input) FAT_DIRECTORY_ENTRY_BYTES :: u64 where "FAT_DIRECTORY_ENTRY_BYTES \<equiv> 32"
abbreviation (input) FAT_ENTRY_NAME_OFFSET :: nat where "FAT_ENTRY_NAME_OFFSET \<equiv> 0"
abbreviation (input) FAT_ENTRY_NAME_BYTES :: nat where "FAT_ENTRY_NAME_BYTES \<equiv> 11"
abbreviation (input) FAT_ENTRY_ATTRIBUTES_OFFSET :: nat where "FAT_ENTRY_ATTRIBUTES_OFFSET \<equiv> 11"
abbreviation (input) FAT_ENTRY_CLUSTER_HIGH_OFFSET :: nat where "FAT_ENTRY_CLUSTER_HIGH_OFFSET \<equiv> 20"
abbreviation (input) FAT_ENTRY_CLUSTER_LOW_OFFSET :: nat where "FAT_ENTRY_CLUSTER_LOW_OFFSET \<equiv> 26"
abbreviation (input) FAT_ENTRY_SIZE_OFFSET :: nat where "FAT_ENTRY_SIZE_OFFSET \<equiv> 28"
abbreviation (input) FAT_ATTRIBUTE_VOLUME_LABEL :: u8 where "FAT_ATTRIBUTE_VOLUME_LABEL \<equiv> 0x08"
abbreviation (input) FAT_ATTRIBUTE_DIRECTORY :: u8 where "FAT_ATTRIBUTE_DIRECTORY \<equiv> 0x10"
abbreviation (input) FAT_ATTRIBUTE_LONG_NAME :: u8 where "FAT_ATTRIBUTE_LONG_NAME \<equiv> 0x0F"
abbreviation (input) FAT_ENTRY_END_OF_DIRECTORY :: u8 where "FAT_ENTRY_END_OF_DIRECTORY \<equiv> 0"
abbreviation (input) FAT_ENTRY_DELETED :: u8 where "FAT_ENTRY_DELETED \<equiv> 0xE5"
abbreviation (input) FAT_FIRST_DATA_CLUSTER :: u32 where "FAT_FIRST_DATA_CLUSTER \<equiv> 2"
abbreviation (input) FAT_CLUSTER_MASK :: u32 where "FAT_CLUSTER_MASK \<equiv> 0x0FFFFFFF"
abbreviation (input) FAT_CLUSTER_BAD :: u32 where "FAT_CLUSTER_BAD \<equiv> 0x0FFFFFF7"
abbreviation (input) FAT_CLUSTER_END :: u32 where "FAT_CLUSTER_END \<equiv> 0x0FFFFFF8"
abbreviation (input) FAT_FAT_ENTRY_BYTES :: u64 where "FAT_FAT_ENTRY_BYTES \<equiv> 4"
abbreviation (input) FAT_LONG_SEQUENCE_OFFSET :: nat where "FAT_LONG_SEQUENCE_OFFSET \<equiv> 0"
abbreviation (input) FAT_LONG_SEQUENCE_MASK :: u8 where "FAT_LONG_SEQUENCE_MASK \<equiv> 0x1F"
abbreviation (input) FAT_LONG_SEQUENCE_LAST :: u8 where "FAT_LONG_SEQUENCE_LAST \<equiv> 0x40"
abbreviation (input) FAT_LONG_CHECKSUM_OFFSET :: nat where "FAT_LONG_CHECKSUM_OFFSET \<equiv> 13"
abbreviation (input) FAT_LONG_CHARS_PER_ENTRY :: nat where "FAT_LONG_CHARS_PER_ENTRY \<equiv> 13"
abbreviation (input) FAT_LONG_MAX_SEQUENCE :: u8 where "FAT_LONG_MAX_SEQUENCE \<equiv> 20"
abbreviation (input) FAT_LONG_NAME_MAX :: nat where "FAT_LONG_NAME_MAX \<equiv> 260"
abbreviation (input) FAT_MAX_PATH_BYTES :: nat where "FAT_MAX_PATH_BYTES \<equiv> 256"
abbreviation (input) FAT_MAX_NAME_BYTES :: nat where "FAT_MAX_NAME_BYTES \<equiv> FAT_LONG_NAME_MAX"
abbreviation (input) NAME_PADDING :: u8 where "NAME_PADDING \<equiv> of_char CHR '' ''"
abbreviation (input) EXTENSION_SEPARATOR :: u8 where "EXTENSION_SEPARATOR \<equiv> of_char CHR ''.''"
abbreviation (input) NAME_BASE_BYTES :: nat where "NAME_BASE_BYTES \<equiv> 8"
abbreviation (input) NAME_EXTENSION_BYTES :: nat where "NAME_EXTENSION_BYTES \<equiv> 3"

subsection \<open>The volume\<close>

record fat_volume =
  fat_device :: block_device
  bytes_per_sector :: u32
  sectors_per_cluster :: u32
  cluster_bytes :: u32
  fat_start_sector :: u64
  data_start_sector :: u64
  sectors_per_fat :: u32
  root_cluster :: u32
  cluster_count :: u32
  fat_sector :: "u8 list"
  fat_sector_index :: u64
  fat_sector_valid :: bool

record fat_walk =
  walk_offset :: u64
  walk_cluster :: u32
  walk_valid :: bool

record fat_file =
  first_cluster :: u32
  file_size :: u32
  directory :: bool
  walk :: fat_walk

definition upper :: "u8 \<Rightarrow> u8" where
  "upper value =
     (if value \<ge> of_char CHR ''a'' \<and> value \<le> of_char CHR ''z''
      then value - of_char CHR ''a'' + of_char CHR ''A'' else value)"

definition cluster_sector :: "fat_volume \<Rightarrow> u32 \<Rightarrow> u64" where
  "cluster_sector volume cluster =
     data_start_sector volume +
     ucast (cluster - FAT_FIRST_DATA_CLUSTER) * ucast (sectors_per_cluster volume)"

definition cluster_in_range :: "fat_volume \<Rightarrow> u32 \<Rightarrow> bool" where
  "cluster_in_range volume cluster =
     (if cluster < FAT_FIRST_DATA_CLUSTER then False
      else cluster < FAT_FIRST_DATA_CLUSTER + cluster_count volume)"

text \<open>The fields of the boot sector \<open>fat_mount\<close> reads.\<close>

record boot_fields =
  bf_bytes_per_sector :: u16
  bf_sectors_per_cluster :: u8
  bf_reserved_sectors :: u16
  bf_fat_count :: u8
  bf_root_entry_count :: u16
  bf_total_16 :: u16
  bf_sectors_per_fat_16 :: u16
  bf_total_32 :: u32
  bf_sectors_per_fat_32 :: u32
  bf_root_cluster :: u32

definition read_boot_fields :: "u8 list \<Rightarrow> boot_fields option" where
  "read_boot_fields sector =
     do { let r = reader_init (Some sector) (ucast BLOCK_SECTOR_BYTES_DEFAULT);
          r \<leftarrow> reader_seek r FAT_BPB_BYTES_PER_SECTOR_OFFSET;
          (bytes_per_sector, r) \<leftarrow> reader_u16 r;
          (sectors_per_cluster, r) \<leftarrow> reader_u8 r;
          (reserved_sectors, r) \<leftarrow> reader_u16 r;
          (fat_count, r) \<leftarrow> reader_u8 r;
          (root_entry_count, r) \<leftarrow> reader_u16 r;
          (total_16, r) \<leftarrow> reader_u16 r;
          r \<leftarrow> reader_seek r FAT_BPB_SECTORS_PER_FAT_16_OFFSET;
          (sectors_per_fat_16, r) \<leftarrow> reader_u16 r;
          r \<leftarrow> reader_seek r FAT_BPB_TOTAL_SECTORS_32_OFFSET;
          (total_32, r) \<leftarrow> reader_u32 r;
          (sectors_per_fat_32, r) \<leftarrow> reader_u32 r;
          r \<leftarrow> reader_seek r FAT_BPB_ROOT_CLUSTER_OFFSET;
          (root_cluster, r) \<leftarrow> reader_u32 r;
          Some \<lparr>bf_bytes_per_sector = bytes_per_sector, bf_sectors_per_cluster = sectors_per_cluster,
                bf_reserved_sectors = reserved_sectors, bf_fat_count = fat_count,
                bf_root_entry_count = root_entry_count, bf_total_16 = total_16,
                bf_sectors_per_fat_16 = sectors_per_fat_16, bf_total_32 = total_32,
                bf_sectors_per_fat_32 = sectors_per_fat_32, bf_root_cluster = root_cluster\<rparr> }"

definition volume_of :: "block_device \<Rightarrow> u8 list \<Rightarrow> boot_fields \<Rightarrow> fat_volume option" where
  "volume_of device old_sector b =
     do { ensure (\<not> (bf_root_entry_count b \<noteq> 0 \<or> bf_sectors_per_fat_16 b \<noteq> 0));
          ensure (\<not> bf_sectors_per_fat_32 b = 0);
          ensure (\<not> ucast (bf_bytes_per_sector b) \<noteq> sector_bytes device);
          ensure (\<not> bf_sectors_per_cluster b = 0);
          ensure (\<not> (ucast (bf_sectors_per_cluster b) AND (ucast (bf_sectors_per_cluster b) - 1 :: u32)) \<noteq> 0);
          ensure (\<not> (bf_reserved_sectors b = 0 \<or> bf_fat_count b = 0));
          let total_sectors = (if bf_total_32 b \<noteq> 0 then bf_total_32 b else ucast (bf_total_16 b));
          ensure (\<not> total_sectors = 0);
          ensure (\<not> (sector_count device \<noteq> 0 \<and> ucast total_sectors > sector_count device));
          fat_sectors \<leftarrow> checked_mul_u64 (ucast (bf_fat_count b)) (ucast (bf_sectors_per_fat_32 b));
          data_start \<leftarrow> checked_add_u64 (ucast (bf_reserved_sectors b)) fat_sectors;
          ensure (\<not> data_start \<ge> ucast total_sectors);
          let data_sectors = ucast total_sectors - data_start;
          let clusters = data_sectors div ucast (bf_sectors_per_cluster b);
          ensure (\<not> clusters = 0);
          bytes \<leftarrow> checked_mul_u64 (ucast (bf_sectors_per_cluster b)) (ucast (bf_bytes_per_sector b));
          let volume =
            \<lparr>fat_device = device, bytes_per_sector = ucast (bf_bytes_per_sector b),
             sectors_per_cluster = ucast (bf_sectors_per_cluster b), cluster_bytes = ucast bytes,
             fat_start_sector = ucast (bf_reserved_sectors b), data_start_sector = data_start,
             sectors_per_fat = bf_sectors_per_fat_32 b, root_cluster = bf_root_cluster b,
             cluster_count = (if clusters > 0xFFFFFFFF then 0xFFFFFFFF else ucast clusters),
             fat_sector = old_sector, fat_sector_index = 0, fat_sector_valid = False\<rparr>;
          ensure (cluster_in_range volume (bf_root_cluster b));
          Some volume }"

definition fat_mount :: "block_device \<Rightarrow> u8 list \<Rightarrow> u8 list \<Rightarrow> fat_volume option" where
  "fat_mount device stale old_sector =
     do { ensure (block_device_valid device);
          bytes \<leftarrow> block_read device 0 1;
          let sector = fill_sector bytes stale;
          let signature = ucast (sector ! FAT_BPB_SIGNATURE_OFFSET) OR
                          push_bit 8 (ucast (sector ! (FAT_BPB_SIGNATURE_OFFSET + 1)));
          ensure (\<not> signature \<noteq> FAT_BPB_SIGNATURE);
          b \<leftarrow> read_boot_fields sector;
          volume_of device old_sector b }"

subsection \<open>The cluster chain\<close>

text \<open>The FAT sector with the given index, from the cache or from the disk into it.\<close>

definition load_fat_sector :: "fat_volume \<Rightarrow> u64 \<Rightarrow> bool \<times> fat_volume" where
  "load_fat_sector volume sector =
     (if \<not> fat_sector_valid volume \<or> fat_sector_index volume \<noteq> sector then
        case block_read (fat_device volume) sector 1 of
          None \<Rightarrow>
            (False, volume\<lparr>fat_sector := fill_sector (block_read_stored (fat_device volume) sector) (fat_sector volume)\<rparr>)
        | Some bytes \<Rightarrow>
            (True, volume\<lparr>fat_sector := fill_sector bytes (fat_sector volume),
                          fat_sector_index := sector, fat_sector_valid := True\<rparr>)
      else (True, volume))"

text \<open>Where in the disk a cluster's FAT entry lies, if it lies in the FAT.\<close>

definition fat_entry_at :: "fat_volume \<Rightarrow> u32 \<Rightarrow> u64 option" where
  "fat_entry_at volume cluster =
     do { ensure (cluster_in_range volume cluster);
          offset \<leftarrow> checked_mul_u64 (ucast cluster) FAT_FAT_ENTRY_BYTES;
          limit \<leftarrow> checked_mul_u64 (ucast (sectors_per_fat volume)) (ucast (bytes_per_sector volume));
          ensure (\<not> offset + FAT_FAT_ENTRY_BYTES > limit);
          checked_add_u64 (fat_start_sector volume * ucast (bytes_per_sector volume)) offset }"

definition next_cluster :: "fat_volume \<Rightarrow> u32 \<Rightarrow> u32 option \<times> fat_volume" where
  "next_cluster volume cluster =
     (case fat_entry_at volume cluster of
        None \<Rightarrow> (None, volume)
      | Some absolute \<Rightarrow>
          (case load_fat_sector volume (absolute div ucast (bytes_per_sector volume)) of
             (False, volume) \<Rightarrow> (None, volume)
           | (True, volume) \<Rightarrow>
               let raw = drop (unat (absolute mod ucast (bytes_per_sector volume))) (fat_sector volume);
                   value = ucast (raw ! 0) OR push_bit 8 (ucast (raw ! 1)) OR
                           push_bit 16 (ucast (raw ! 2)) OR push_bit 24 (ucast (raw ! 3))
               in (Some (value AND FAT_CLUSTER_MASK), volume)))"

definition is_end_of_chain :: "u32 \<Rightarrow> bool" where
  "is_end_of_chain cluster \<longleftrightarrow> cluster \<ge> FAT_CLUSTER_END \<or> cluster = FAT_CLUSTER_BAD"

text \<open>Every step leaves the geometry of the volume alone.\<close>

definition same_volume :: "fat_volume \<Rightarrow> fat_volume \<Rightarrow> bool" where
  "same_volume v w \<longleftrightarrow>
     w = v\<lparr>fat_sector := fat_sector w, fat_sector_index := fat_sector_index w, fat_sector_valid := fat_sector_valid w\<rparr>"

lemma same_volume_refl [simp]: "same_volume v v"
  by (simp add: same_volume_def)

lemma same_volume_trans: "same_volume u v \<Longrightarrow> same_volume v w \<Longrightarrow> same_volume u w"
  by (cases u; cases v; cases w) (simp add: same_volume_def)

lemma next_cluster_same: "next_cluster v c = (r, w) \<Longrightarrow> same_volume v w"
  by (auto simp: next_cluster_def load_fat_sector_def same_volume_def Let_def
      split: option.splits if_splits prod.splits bool.splits)

function advance_loop :: "fat_volume \<Rightarrow> u32 \<Rightarrow> u64 \<Rightarrow> u64 \<Rightarrow> u32 option \<times> fat_volume" where
  "advance_loop volume cluster count steps =
     (if count > 0 then
        case next_cluster volume cluster of
          (None, volume) \<Rightarrow> (None, volume)
        | (Some cluster, volume) \<Rightarrow>
            if is_end_of_chain cluster then (None, volume)
            else if \<not> cluster_in_range volume cluster then (None, volume)
            else if steps + 1 > ucast (cluster_count volume) then (None, volume)
            else advance_loop volume cluster (count - 1) (steps + 1)
      else (Some cluster, volume))"
  by pat_completeness auto
termination
  by (relation "measure (\<lambda>(volume, cluster, count, steps). unat count)")
    (auto simp: unat_sub_fits word_less_nat_alt word_le_nat_alt Suc_le_eq)

declare advance_loop.simps [simp del]

definition advance :: "fat_volume \<Rightarrow> u32 \<Rightarrow> u64 \<Rightarrow> u32 option \<times> fat_volume" where
  "advance volume cluster count = advance_loop volume cluster count 0"

definition cluster_bytes_at :: "fat_volume \<Rightarrow> u32 \<Rightarrow> u32 \<Rightarrow> usize \<Rightarrow> u8 list option" where
  "cluster_bytes_at volume cluster into_cluster count =
     do { byte_offset \<leftarrow> checked_mul_u64 (cluster_sector volume cluster) (ucast (bytes_per_sector volume));
          byte_offset \<leftarrow> checked_add_u64 byte_offset (ucast into_cluster);
          block_read_bytes (fat_device volume) byte_offset count }"

function read_clusters ::
  "fat_volume \<Rightarrow> u32 \<Rightarrow> u32 \<Rightarrow> usize \<Rightarrow> u64 \<Rightarrow> u8 list \<Rightarrow> u8 list option \<times> fat_volume" where
  "read_clusters volume cluster into_cluster len walked out =
     (if len > 0 then
        if \<not> cluster_in_range volume cluster then (None, volume)
        else
          let available = cluster_bytes volume - into_cluster;
              taken = (if ucast available < len then ucast available else len)
          in case cluster_bytes_at volume cluster into_cluster taken of
               None \<Rightarrow> (None, volume)
             | Some bytes \<Rightarrow>
                 if len - taken = 0 then (Some (out @ bytes), volume)
                 else case next_cluster volume cluster of
                   (None, volume) \<Rightarrow> (None, volume)
                 | (Some cluster, volume) \<Rightarrow>
                     if is_end_of_chain cluster then (None, volume)
                     else if walked + 1 > ucast (cluster_count volume) then (None, volume)
                     else read_clusters volume cluster 0 (len - taken) (walked + 1) (out @ bytes)
      else (Some out, volume))"
  by pat_completeness auto
termination
proof (relation "measure (\<lambda>(volume, cluster, into_cluster, len, walked, out).
    if unat walked < 2 ^ 32 then 2 ^ 32 - unat walked else 2 ^ 33)", goal_cases)
  case (2 volume cluster into_cluster len walked out)
  then have le: "unat (walked + 1) < 2 ^ 32"
    using le_less_trans [OF _ unat_lt32] by (auto simp: not_less word_le_nat_alt)
  have "unat (walked + 1) = Suc (unat walked)" if "unat walked < 2 ^ 32"
    using that by (subst unat_add_fits) simp_all
  with le show ?case by auto
qed simp

declare read_clusters.simps [simp del]

definition read_chain ::
  "fat_volume \<Rightarrow> u32 \<Rightarrow> u64 \<Rightarrow> usize \<Rightarrow> fat_walk option \<Rightarrow> u8 list option \<times> fat_volume \<times> fat_walk option" where
  "read_chain volume head offset len start =
     (if len = 0 then (Some [], volume, start)
      else
        let target_index = offset div ucast (cluster_bytes volume);
            (cluster, index) =
              (case start of
                 Some w \<Rightarrow> if walk_valid w \<and> walk_offset w \<le> target_index then (walk_cluster w, walk_offset w)
                           else (head, 0)
               | None \<Rightarrow> (head, 0))
        in case advance volume cluster (target_index - index) of
             (None, volume) \<Rightarrow> (None, volume, start)
           | (Some cluster, volume) \<Rightarrow>
               let start = map_option (\<lambda>_. \<lparr>walk_offset = target_index, walk_cluster = cluster, walk_valid = True\<rparr>) start
               in case read_clusters volume cluster (ucast (offset mod ucast (cluster_bytes volume))) len 0 [] of
                    (result, volume) \<Rightarrow> (result, volume, start))"

definition fat_read :: "fat_volume \<Rightarrow> fat_file \<Rightarrow> u64 \<Rightarrow> usize \<Rightarrow> u8 list option \<times> fat_volume \<times> fat_file" where
  "fat_read volume f offset len =
     (if directory f then (None, volume, f)
      else if len = 0 then (Some [], volume, f)
      else case checked_add_u64 offset len of
        None \<Rightarrow> (None, volume, f)
      | Some end' \<Rightarrow>
          if end' > ucast (file_size f) then (None, volume, f)
          else case read_chain volume (first_cluster f) offset len (Some (walk f)) of
            (result, volume, w) \<Rightarrow> (result, volume, f\<lparr>walk := the w\<rparr>))"

subsection \<open>Names\<close>

text \<open>The loop that looks for the separator, from \<open>base\<close> on.\<close>

definition base_length :: "str \<Rightarrow> nat" where
  "base_length name = length (takeWhile (\<lambda>c. c \<noteq> EXTENSION_SEPARATOR) name)"

text \<open>\<open>wanted[start + index] = upper(name[index])\<close> over a run of the name.\<close>

definition write_upper :: "nat \<Rightarrow> str \<Rightarrow> u8 list \<Rightarrow> u8 list" where
  "write_upper start part wanted = fold (\<lambda>index w. w[start + index := upper (part ! index)]) [0..<length part] wanted"

definition name_matches :: "u8 list \<Rightarrow> str \<Rightarrow> bool" where
  "name_matches entry_name name =
     (let wanted = replicate FAT_ENTRY_NAME_BYTES NAME_PADDING;
          base = base_length name
      in if base > NAME_BASE_BYTES then False
         else
           let wanted = write_upper 0 (take base name) wanted;
               extension = length name - base - 1
           in if base < length name \<and> extension > NAME_EXTENSION_BYTES then False
              else
                let wanted = (if base < length name
                              then write_upper NAME_BASE_BYTES (drop (base + 1) name) wanted else wanted)
                in list_all (\<lambda>index. upper (entry_name ! index) = wanted ! index) [0..<FAT_ENTRY_NAME_BYTES])"

definition long_name_offsets :: "nat list" where
  "long_name_offsets = [1, 3, 5, 7, 9, 14, 16, 18, 20, 22, 24, 28, 30]"

record long_name =
  text_bytes :: "u8 list"
  long_length :: nat
  long_checksum :: u8
  long_valid :: bool

definition short_name_checksum :: "u8 list \<Rightarrow> u8" where
  "short_name_checksum name =
     fold (\<lambda>index sum. push_bit 7 (sum AND 1) + drop_bit 1 sum + name ! index) [0..<FAT_ENTRY_NAME_BYTES] 0"

definition long_name_reset :: "long_name \<Rightarrow> long_name" where
  "long_name_reset pending = pending\<lparr>long_length := 0, long_valid := False\<rparr>"

text \<open>The loop over the 13 characters of a fragment, which ends early where it resets.\<close>

fun long_name_units :: "u8 list \<Rightarrow> nat \<Rightarrow> nat list \<Rightarrow> long_name \<Rightarrow> long_name" where
  "long_name_units entry base [] pending = pending"
| "long_name_units entry base (index # rest) pending =
     (let at' = long_name_offsets ! index;
          unit = (ucast (entry ! at') OR push_bit 8 (ucast (entry ! (at' + 1))) :: u16);
          position = base + index
      in if position \<ge> FAT_LONG_NAME_MAX then long_name_reset pending
         else if unit = 0 \<or> unit = 0xFFFF then
           long_name_units entry base rest
             (if position < long_length pending then pending\<lparr>long_length := position\<rparr> else pending)
         else if unit > 0x7F then long_name_reset pending
         else long_name_units entry base rest
                (pending\<lparr>text_bytes := (text_bytes pending)[position := ucast unit]\<rparr>))"

definition long_name_accumulate :: "long_name \<Rightarrow> u8 list \<Rightarrow> long_name" where
  "long_name_accumulate pending entry =
     (let sequence = entry ! FAT_LONG_SEQUENCE_OFFSET AND FAT_LONG_SEQUENCE_MASK
      in if sequence = 0 \<or> sequence > FAT_LONG_MAX_SEQUENCE then long_name_reset pending
         else
           let pending = (if entry ! FAT_LONG_SEQUENCE_OFFSET AND FAT_LONG_SEQUENCE_LAST \<noteq> 0
                          then (long_name_reset pending)\<lparr>long_checksum := entry ! FAT_LONG_CHECKSUM_OFFSET,
                                 long_length := unat sequence * FAT_LONG_CHARS_PER_ENTRY, long_valid := True\<rparr>
                          else pending)
           in if \<not> long_valid pending then pending
              else if entry ! FAT_LONG_CHECKSUM_OFFSET \<noteq> long_checksum pending then long_name_reset pending
              else long_name_units entry (unat (sequence - 1) * FAT_LONG_CHARS_PER_ENTRY)
                     [0..<FAT_LONG_CHARS_PER_ENTRY] pending)"

definition long_name_matches :: "long_name \<Rightarrow> str \<Rightarrow> bool" where
  "long_name_matches pending name =
     (if \<not> long_valid pending \<or> long_length pending \<noteq> length name then False
      else list_all (\<lambda>index. upper (text_bytes pending ! index) = upper (name ! index)) [0..<length name])"

subsection \<open>Directories and paths\<close>

text \<open>The file an 8.3 entry describes.\<close>

definition entry_file :: "u8 list \<Rightarrow> fat_walk \<Rightarrow> fat_file" where
  "entry_file entry old =
     (let high = (ucast (entry ! FAT_ENTRY_CLUSTER_HIGH_OFFSET) OR
                  push_bit 8 (ucast (entry ! (FAT_ENTRY_CLUSTER_HIGH_OFFSET + 1))) :: u32);
          low = ucast (entry ! FAT_ENTRY_CLUSTER_LOW_OFFSET) OR
                push_bit 8 (ucast (entry ! (FAT_ENTRY_CLUSTER_LOW_OFFSET + 1)))
      in \<lparr>first_cluster = push_bit 16 high OR low,
          file_size = ucast (entry ! FAT_ENTRY_SIZE_OFFSET) OR
                 push_bit 8 (ucast (entry ! (FAT_ENTRY_SIZE_OFFSET + 1))) OR
                 push_bit 16 (ucast (entry ! (FAT_ENTRY_SIZE_OFFSET + 2))) OR
                 push_bit 24 (ucast (entry ! (FAT_ENTRY_SIZE_OFFSET + 3))),
          directory = entry ! FAT_ENTRY_ATTRIBUTES_OFFSET AND FAT_ATTRIBUTE_DIRECTORY \<noteq> 0,
          walk = old\<lparr>walk_valid := False\<rparr>\<rparr>)"

definition entry_matches :: "long_name \<Rightarrow> u8 list \<Rightarrow> str \<Rightarrow> bool" where
  "entry_matches pending entry name =
     (let short_name = drop FAT_ENTRY_NAME_OFFSET entry;
          long_belongs = long_valid pending \<and> long_checksum pending = short_name_checksum short_name
      in (long_belongs \<and> long_name_matches pending name) \<or> name_matches short_name name)"

function search_directory ::
  "fat_volume \<Rightarrow> u32 \<Rightarrow> str \<Rightarrow> fat_walk \<Rightarrow> u64 \<Rightarrow> u64 \<Rightarrow> u64 \<Rightarrow> long_name \<Rightarrow> fat_file option \<times> fat_volume" where
  "search_directory volume cluster name old offset entries_seen maximum_entries pending =
     (if entries_seen < maximum_entries then
        case read_chain volume cluster offset FAT_DIRECTORY_ENTRY_BYTES None of
          (None, volume, _) \<Rightarrow> (None, volume)
        | (Some entry, volume, _) \<Rightarrow>
            let next = search_directory volume cluster name old (offset + FAT_DIRECTORY_ENTRY_BYTES)
                         (entries_seen + 1) maximum_entries;
                attributes = entry ! FAT_ENTRY_ATTRIBUTES_OFFSET
            in if entry ! FAT_ENTRY_NAME_OFFSET = FAT_ENTRY_END_OF_DIRECTORY then (None, volume)
               else if entry ! FAT_ENTRY_NAME_OFFSET = FAT_ENTRY_DELETED then next (long_name_reset pending)
               else if attributes = FAT_ATTRIBUTE_LONG_NAME then next (long_name_accumulate pending entry)
               else if attributes AND FAT_ATTRIBUTE_VOLUME_LABEL \<noteq> 0 then next (long_name_reset pending)
               else if \<not> entry_matches pending entry name then next (long_name_reset pending)
               else (Some (entry_file entry old), volume)
      else (None, volume))"
  by pat_completeness auto
termination
  by (relation "measure (\<lambda>(volume, cluster, name, old, offset, entries_seen, maximum_entries, pending).
      unat maximum_entries - unat entries_seen)")
    (auto simp: unat_Suc_fits word_less_nat_alt)

declare search_directory.simps [simp del]

definition find_in_directory ::
  "fat_volume \<Rightarrow> u32 \<Rightarrow> str \<Rightarrow> fat_walk \<Rightarrow> long_name \<Rightarrow> fat_file option \<times> fat_volume" where
  "find_in_directory volume cluster name old stale =
     (let maximum_entries = ucast (cluster_count volume) * ucast (cluster_bytes volume) div FAT_DIRECTORY_ENTRY_BYTES
      in search_directory volume cluster name old 0 0 maximum_entries (long_name_reset stale))"

function open_from :: "fat_volume \<Rightarrow> str \<Rightarrow> (nat \<Rightarrow> long_name) \<Rightarrow> nat \<Rightarrow> fat_file \<Rightarrow> fat_file option \<times> fat_volume" where
  "open_from volume path stale index current =
     (if path_at path index \<noteq> 0 then
        if index \<ge> FAT_MAX_PATH_BYTES then (None, volume)
        else if \<not> directory current then (None, volume)
        else
          let start = index;
              index = component_end path index;
              len = index - start
          in if len = 0 \<or> len > FAT_MAX_NAME_BYTES then (None, volume)
             else case find_in_directory volume (first_cluster current) (take len (drop start path)) (walk current) (stale start) of
                    (None, volume) \<Rightarrow> (None, volume)
                  | (Some current, volume) \<Rightarrow>
                      open_from volume path stale (skip_separators path index) current
      else (Some current, volume))"
  by pat_completeness auto
termination
proof (relation "measure (\<lambda>(volume, path, stale, index, current). length path - index)", goal_cases)
  case (2 volume path stale index current)
  then have "index < length path" by (auto simp: path_at_def split: if_splits)
  moreover have "component_end path index > index" using 2 by simp
  ultimately show ?case using skip_separators_ge [of "component_end path index" path] 2 by simp
qed simp

declare open_from.simps [simp del]

definition fat_open :: "fat_volume \<Rightarrow> str \<Rightarrow> fat_walk \<Rightarrow> (nat \<Rightarrow> long_name) \<Rightarrow> fat_file option \<times> fat_volume" where
  "fat_open volume path old stale =
     open_from volume path stale (skip_separators path 0)
       \<lparr>first_cluster = root_cluster volume, file_size = 0, directory = True, walk = old\<lparr>walk_valid := False\<rparr>\<rparr>"

subsection \<open>What a mounted volume promises\<close>

definition fat_geometry :: "fat_volume \<Rightarrow> bool" where
  "fat_geometry v \<longleftrightarrow>
     block_device_valid (fat_device v) \<and> bytes_per_sector v = sector_bytes (fat_device v) \<and>
     0 < unat (sectors_per_cluster v) \<and>
     unat (cluster_bytes v) = unat (sectors_per_cluster v) * unat (bytes_per_sector v) \<and>
     unat (cluster_count v) + 2 < 2 ^ 32 \<and>
     unat (data_start_sector v) + unat (cluster_count v) * unat (sectors_per_cluster v) < 2 ^ 32 \<and>
     (sector_count (fat_device v) \<noteq> 0 \<longrightarrow>
        unat (data_start_sector v) + unat (cluster_count v) * unat (sectors_per_cluster v)
          \<le> unat (sector_count (fat_device v))) \<and>
     unat (fat_start_sector v) + unat (sectors_per_fat v) \<le> unat (data_start_sector v)"

lemma volume_of_geometry:
  assumes "block_device_valid d" "volume_of d old b = Some v"
  shows "fat_geometry v" "fat_device v = d" "fat_sector v = old" "\<not> fat_sector_valid v"
    "cluster_in_range v (root_cluster v)"
proof -
  let ?spc = "unat (bf_sectors_per_cluster b)" and ?bps = "unat (bf_bytes_per_sector b)"
  define total where "total = (if bf_total_32 b \<noteq> 0 then bf_total_32 b else ucast (bf_total_16 b))"
  obtain fats start bytes where
    z: "bf_sectors_per_cluster b \<noteq> 0" "bf_fat_count b \<noteq> 0" "ucast (bf_bytes_per_sector b) = sector_bytes d"
    and dev: "sector_count d \<noteq> 0 \<longrightarrow> \<not> ucast total > sector_count d"
    and f: "checked_mul_u64 (ucast (bf_fat_count b)) (ucast (bf_sectors_per_fat_32 b)) = Some fats"
    and s: "checked_add_u64 (ucast (bf_reserved_sectors b)) fats = Some start"
    and lt: "\<not> start \<ge> ucast total"
    and bt: "checked_mul_u64 (ucast (bf_sectors_per_cluster b)) (ucast (bf_bytes_per_sector b)) = Some bytes"
    and v: "v = \<lparr>fat_device = d, bytes_per_sector = ucast (bf_bytes_per_sector b),
             sectors_per_cluster = ucast (bf_sectors_per_cluster b), cluster_bytes = ucast bytes,
             fat_start_sector = ucast (bf_reserved_sectors b), data_start_sector = start,
             sectors_per_fat = bf_sectors_per_fat_32 b, root_cluster = bf_root_cluster b,
             cluster_count = (if (ucast total - start) div ucast (bf_sectors_per_cluster b) > 0xFFFFFFFF then 0xFFFFFFFF
               else ucast ((ucast total - start) div ucast (bf_sectors_per_cluster b))),
             fat_sector = old, fat_sector_index = 0, fat_sector_valid = False\<rparr>"
    and range: "cluster_in_range v (bf_root_cluster b)"
    and res: "bf_reserved_sectors b \<noteq> 0"
    using assms(2) unfolding volume_of_def Let_def total_def [symmetric] by (auto simp: opt_bind)
  show "fat_device v = d" "fat_sector v = old" "\<not> fat_sector_valid v" "cluster_in_range v (root_cluster v)"
    using range by (simp_all add: v)
  have spc: "0 < ?spc" using z by (simp add: unat_gt_0)
  have st: "unat start = unat (bf_reserved_sectors b) + unat (bf_fat_count b) * unat (bf_sectors_per_fat_32 b)"
    using f s by (simp add: checked_Some)
  have lt': "unat start < unat total" using lt by (simp add: word_le_nat_alt not_le)
  define n where "n = (unat total - unat start) div ?spc"
  have ds: "unat (ucast total - start :: u64) = unat total - unat start"
    using lt' by (subst unat_sub_fits) (auto simp: word_le_nat_alt)
  have q: "unat ((ucast total - start) div ucast (bf_sectors_per_cluster b) :: u64) = n"
    by (simp add: unat_div ds n_def)
  have nle: "n * ?spc \<le> unat total - unat start" unfolding n_def by (rule div_times_less_eq_dividend)
  moreover have "n \<le> n * ?spc" using spc by simp
  ultimately have n: "n \<le> unat total - unat start" by linarith
  have fc: "1 * unat (bf_sectors_per_fat_32 b) \<le> unat (bf_fat_count b) * unat (bf_sectors_per_fat_32 b)"
    using z(2) by (intro mult_le_mono1) (simp add: Suc_le_eq unat_gt_0)
  have tot: "unat total < 2 ^ 32" by simp
  have "unat (bf_reserved_sectors b) \<ge> 1" using res by (simp add: Suc_le_eq unat_gt_0)
  moreover have "1 \<le> unat (bf_sectors_per_fat_32 b)"
    using assms(2) by (auto simp: volume_of_def opt_bind Suc_le_eq unat_gt_0)
  ultimately have "2 \<le> unat start" using st fc by linarith
  with n tot have small: "n + 2 < 2 ^ 32" using lt' by linarith
  have cc: "unat (cluster_count v) = n"
    using q small by (auto simp: v word_less_nat_alt unsigned_ucast_eq take_bit_nat_eq_self)
  have bps: "?bps \<le> 512" using assms(1) z(3)
    by (auto simp: block_device_valid_def word_less_nat_alt not_less) (metis unat_ucast_up(4))
  have bytes: "unat bytes = ?spc * ?bps" using bt by (simp add: checked_Some)
  have "?spc * ?bps \<le> 257 * 512" using bps by (intro mult_le_mono less_imp_le [OF less_trans [OF unat_lt8]]) simp_all
  then have cb: "unat (cluster_bytes v) = ?spc * ?bps"
    using bytes by (simp add: v unsigned_ucast_eq take_bit_nat_eq_self)
  have "unat start + n * ?spc \<le> unat total" using nle lt' by linarith
  moreover have "unat total \<le> unat (sector_count d)" if "sector_count d \<noteq> 0"
    using dev that by (simp add: word_less_nat_alt not_less)
  moreover have vf: "fat_device v = d" "bytes_per_sector v = ucast (bf_bytes_per_sector b)"
    "unat (sectors_per_cluster v) = ?spc" "data_start_sector v = start"
    "unat (fat_start_sector v) = unat (bf_reserved_sectors b)" "sectors_per_fat v = bf_sectors_per_fat_32 b"
    by (simp_all add: v)
  moreover have "unat (bf_reserved_sectors b) + unat (bf_sectors_per_fat_32 b) \<le> unat start"
    using st fc by simp
  moreover have "unat start + n * ?spc < 2 ^ 32" using calculation(1) tot by linarith
  ultimately show "fat_geometry v"
    using assms(1) z(3) spc cb small unfolding fat_geometry_def cc vf(1-6)
    by (metis order_trans unat_ucast_up(4))
qed

lemma fat_mount_geometry:
  assumes "fat_mount d stale old = Some v"
  shows "fat_geometry v" "fat_device v = d" "fat_sector v = old" "\<not> fat_sector_valid v"
    "cluster_in_range v (root_cluster v)"
proof -
  from assms obtain b where "block_device_valid d" "volume_of d old b = Some v"
    by (auto simp: fat_mount_def opt_bind Let_def)
  from volume_of_geometry [OF this]
  show "fat_geometry v" "fat_device v = d" "fat_sector v = old" "\<not> fat_sector_valid v"
    "cluster_in_range v (root_cluster v)" by auto
qed

text \<open>The cache holds the sector it claims to hold.\<close>

definition cache_ok :: "(nat \<Rightarrow> u8) \<Rightarrow> fat_volume \<Rightarrow> bool" where
  "cache_ok disk v \<longleftrightarrow> length (fat_sector v) = 512 \<and>
     (fat_sector_valid v \<longrightarrow>
        take (unat (bytes_per_sector v)) (fat_sector v) =
          image_bytes disk (unat (fat_sector_index v) * unat (bytes_per_sector v)) (unat (bytes_per_sector v)))"

text \<open>
  The volume an operation leaves behind: the same file system, with a sound cache. Everything read from it
  later is what it would have been.
\<close>

definition fat_volume_ok :: "(nat \<Rightarrow> u8) \<Rightarrow> fat_volume \<Rightarrow> bool" where
  "fat_volume_ok disk v \<longleftrightarrow> fat_geometry v \<and> cache_ok disk v \<and> sound_device (fat_device v) disk \<and>
     4 dvd unat (bytes_per_sector v)"

lemma same_volumeD:
  assumes "same_volume v w"
  shows "fat_device w = fat_device v" "bytes_per_sector w = bytes_per_sector v"
    "sectors_per_cluster w = sectors_per_cluster v" "cluster_bytes w = cluster_bytes v"
    "fat_start_sector w = fat_start_sector v" "data_start_sector w = data_start_sector v"
    "sectors_per_fat w = sectors_per_fat v" "root_cluster w = root_cluster v" "cluster_count w = cluster_count v"
  using assms by (cases v; cases w; simp add: same_volume_def)+


lemma same_volume_keeps:
  assumes "same_volume v w"
  shows "fat_geometry w = fat_geometry v" "cluster_in_range w = cluster_in_range v"
    "fat_entry_at w = fat_entry_at v" "cluster_bytes_at w = cluster_bytes_at v"
    "cluster_sector w = cluster_sector v"
  using same_volumeD [OF assms]
  by (simp_all add: fun_eq_iff fat_geometry_def cluster_in_range_def fat_entry_at_def cluster_bytes_at_def cluster_sector_def)

subsection \<open>The links of the chain\<close>

definition fat_link :: "(nat \<Rightarrow> u8) \<Rightarrow> fat_volume \<Rightarrow> u32 \<Rightarrow> u32" where
  "fat_link disk v c =
     ucast (file_field disk (unat (fat_start_sector v) * unat (bytes_per_sector v) + 4 * unat c) 4) AND FAT_CLUSTER_MASK"

lemma fat_entry_at_facts:
  assumes "fat_geometry v" "fat_entry_at v c = Some a"
  shows "unat a = unat (fat_start_sector v) * unat (bytes_per_sector v) + 4 * unat c"
    "4 * unat c + 4 \<le> unat (sectors_per_fat v) * unat (bytes_per_sector v)" "cluster_in_range v c"
proof -
  obtain off limit where o: "checked_mul_u64 (ucast c) 4 = Some off"
    and l: "checked_mul_u64 (ucast (sectors_per_fat v)) (ucast (bytes_per_sector v)) = Some limit"
    and le: "\<not> off + 4 > limit"
    and a: "checked_add_u64 (fat_start_sector v * ucast (bytes_per_sector v)) off = Some a"
    and r: "cluster_in_range v c"
    using assms(2) by (auto simp: fat_entry_at_def opt_bind)
  show "cluster_in_range v c" by (rule r)
  have off: "unat off = 4 * unat c" using o by (simp add: checked_Some)
  have c: "unat c < 2 ^ 32" by simp
  have "unat (off + 4) = unat off + 4" by (subst unat_add_fits) (simp_all add: off less_trans [OF unat_lt32])
  then show "4 * unat c + 4 \<le> unat (sectors_per_fat v) * unat (bytes_per_sector v)"
    using le l off by (simp add: checked_Some word_less_nat_alt not_less)
  have "unat (bytes_per_sector v) \<le> 512"
    using assms(1) by (auto simp: fat_geometry_def block_device_valid_def word_less_nat_alt not_less)
  moreover have "unat (fat_start_sector v) < 2 ^ 32"
    using assms(1) unfolding fat_geometry_def by linarith
  ultimately have "unat (fat_start_sector v) * unat (bytes_per_sector v) < 2 ^ 32 * 513"
    by (intro mult_strict_mono) simp_all
  then have "unat (fat_start_sector v * ucast (bytes_per_sector v)) = unat (fat_start_sector v) * unat (bytes_per_sector v)"
    by (subst unat_mult_fits) simp_all
  then show "unat a = unat (fat_start_sector v) * unat (bytes_per_sector v) + 4 * unat c"
    using a off by (simp add: checked_Some)
qed

text \<open>
  A device whose failed reads of a sector have stored nothing. The code does not need a device to be like that to refuse
  what it cannot read, but the cached sector is only what it claims to be as long as no such read has failed.
\<close>

definition fat_untorn :: "fat_volume \<Rightarrow> bool" where
  "fat_untorn v \<longleftrightarrow> (\<forall>s. block_read (fat_device v) s 1 = None \<longrightarrow> block_read_stored (fat_device v) s = [])"

lemma fat_untorn_same: "same_volume v w \<Longrightarrow> fat_untorn w = fat_untorn v"
  by (simp add: fat_untorn_def same_volumeD)

text \<open>
  After a failed read of another sector the cache still answers for the sector it held before, with what that read has
  stored in the place of its bytes.
\<close>

lemma torn_cache_answers:
  assumes "fat_sector_valid v" "fat_sector_index v = s" "t \<noteq> s" "block_read (fat_device v) t 1 = None"
  defines "w \<equiv> snd (load_fat_sector v t)"
  shows "load_fat_sector w s = (True, w)"
    "fat_sector w = fill_sector (block_read_stored (fat_device v) t) (fat_sector v)"
  using assms(1-4) by (simp_all add: load_fat_sector_def w_def)

lemma load_fat_sector_facts:
  assumes "fat_volume_ok disk v" "load_fat_sector v s = (ok, w)"
  shows "same_volume v w" "ok \<or> fat_untorn v \<Longrightarrow> cache_ok disk w"
    "ok \<Longrightarrow> fat_sector_valid w \<and> fat_sector_index w = s"
proof -
  have bps: "unat (bytes_per_sector v) \<le> 512" "bytes_per_sector v = sector_bytes (fat_device v)"
    using assms(1) by (auto simp: fat_volume_ok_def fat_geometry_def block_device_valid_def word_less_nat_alt not_less)
  have read: "b = image_bytes disk (unat s * unat (bytes_per_sector v)) (unat (bytes_per_sector v))"
    if "block_read (fat_device v) s 1 = Some b" for b
    using block_read_sound [OF _ that, of disk] assms(1) bps(2) by (simp add: fat_volume_ok_def)
  show "same_volume v w" "ok \<or> fat_untorn v \<Longrightarrow> cache_ok disk w" "ok \<Longrightarrow> fat_sector_valid w \<and> fat_sector_index w = s"
    using assms bps read by (auto simp: load_fat_sector_def same_volume_def cache_ok_def fat_volume_ok_def
        fat_untorn_def fill_sector_def split: if_splits option.splits)
qed

lemma next_cluster_facts:
  assumes "fat_volume_ok disk v" "next_cluster v c = (r, w)"
  shows "same_volume v w" "r \<noteq> None \<or> fat_untorn v \<Longrightarrow> cache_ok disk w"
    "r = Some c' \<Longrightarrow> c' = fat_link disk v c \<and> fat_entry_at v c \<noteq> None"
proof -
  have geo: "fat_geometry v" and dvd: "4 dvd unat (bytes_per_sector v)" and ok: "cache_ok disk v"
    using assms(1) by (simp_all add: fat_volume_ok_def)
  let ?bps = "unat (bytes_per_sector v)"
  have *: "same_volume v w \<and> (r \<noteq> None \<or> fat_untorn v \<longrightarrow> cache_ok disk w) \<and> (r = Some c' \<longrightarrow> c' = fat_link disk v c \<and> fat_entry_at v c \<noteq> None)"
  proof (cases "fat_entry_at v c")
    case None
    then show ?thesis using assms(2) ok by (simp add: next_cluster_def)
  next
    case (Some a)
    note a = fat_entry_at_facts [OF geo Some]
    define q where "q = a div ucast (bytes_per_sector v)"
    obtain good u where l: "load_fat_sector v q = (good, u)" by fastforce
    note lf = load_fat_sector_facts [OF assms(1) l]
    show ?thesis
    proof (cases good)
      case False
      then show ?thesis using assms(2) Some l lf unfolding q_def by (simp add: next_cluster_def)
    next
      case True
      have bps: "0 < ?bps" "?bps \<le> 512"
        using geo by (auto simp: fat_geometry_def block_device_valid_def word_less_nat_alt not_less unat_gt_0)
      let ?m = "unat a mod ?bps"
      obtain k where k: "?bps = 4 * k" using dvd by blast
      have "4 dvd unat a" unfolding a(1) using dvd by simp
      then have "4 dvd ?m" using dvd by (simp add: dvd_mod)
      then obtain j where j: "?m = 4 * j" by blast
      have "?m < ?bps" using bps by simp
      then have m: "?m + 4 \<le> ?bps" using j k by simp
      have cache: "cache_ok disk u" using lf(2) True by blast
      have buf: "take ?bps (fat_sector u) = image_bytes disk (unat q * ?bps) ?bps"
        using cache lf(3) [OF True] same_volumeD(2) [OF lf(1)] by (simp add: cache_ok_def)
      have q: "unat q = unat a div ?bps" by (simp add: q_def unat_div)
      have nth: "drop ?m (fat_sector u) ! i = image_bytes disk (unat a) 4 ! i" if "i < 4" for i
      proof -
        have "drop ?m (fat_sector u) ! i = take ?bps (fat_sector u) ! (?m + i)"
          using that m cache bps by (simp add: cache_ok_def)
        also have "\<dots> = disk (unat q * ?bps + (?m + i))" unfolding buf using that m by (simp add: image_bytes_def)
        also have "unat q * ?bps + (?m + i) = unat a + i"
          unfolding q add.assoc [symmetric] div_mult_mod_eq ..
        finally show ?thesis using that by (simp add: image_bytes_def)
      qed
      have mod: "unat (a mod ucast (bytes_per_sector v)) = ?m" by (simp add: unat_mod)
      have "little_endian (drop ?m (fat_sector u)) 4 = file_field disk (unat a) 4"
        unfolding file_field_def using nth by (intro little_endian_cong)
      moreover have "fat_link disk v c = ucast (file_field disk (unat a) 4) AND FAT_CLUSTER_MASK"
        by (simp add: fat_link_def a(1))
      moreover have "load_fat_sector v (a div ucast (bytes_per_sector v)) = (True, u)"
        using l True by (simp add: q_def)
      ultimately have "r = Some (fat_link disk v c)" "w = u"
        using assms(2) Some mod unfolding next_cluster_def
        by (simp_all add: Let_def little_endian_4 [symmetric] same_volumeD(2) [OF lf(1)])
      then show ?thesis using lf cache Some by simp
    qed
  qed
  then show "same_volume v w" "r \<noteq> None \<or> fat_untorn v \<Longrightarrow> cache_ok disk w"
    "r = Some c' \<Longrightarrow> c' = fat_link disk v c \<and> fat_entry_at v c \<noteq> None" by blast+
qed

lemma fat_volume_ok_same:
  "fat_volume_ok disk v \<Longrightarrow> same_volume v w \<Longrightarrow> cache_ok disk w \<Longrightarrow> fat_volume_ok disk w"
  using same_volumeD [of v w] by (simp add: fat_volume_ok_def same_volume_keeps)

text \<open>A volume on a device that answers every read inside it.\<close>

definition fat_ready :: "fat_volume \<Rightarrow> bool" where
  "fat_ready v \<longleftrightarrow> complete_device (fat_device v) \<and> sector_count (fat_device v) \<noteq> 0"

lemma fat_ready_same: "same_volume v w \<Longrightarrow> fat_ready w = fat_ready v"
  by (simp add: fat_ready_def same_volumeD)

lemma block_read_one_total:
  assumes "complete_device d" "block_device_valid d" "unat s < unat (sector_count d)"
  shows "block_read d s 1 \<noteq> None"
proof -
  obtain b where b: "read_sectors d s 1 = Some b" using complete_one [OF assms(1,3)] by blast
  have "unat s + 1 \<le> unat (sector_count d)" using assms(3) by simp
  from le_less_trans [OF this unsigned_less] have u: "unat s + 1 < 2 ^ 64" by simp
  then have "unat (s + 1) = unat s + 1" by (subst unat_add_fits) simp_all
  then have "within_device d s 1"
    using assms(3) u by (auto simp: within_device_def checked_add_u64_def word_le_nat_alt)
  moreover have "block_read_loop d s 1 [] = Some b"
    by (subst block_read_loop.simps) (simp add: b block_read_loop.simps)
  ultimately show ?thesis using assms(2) by (simp add: block_read_def)
qed

lemma fat_ready_untorn:
  assumes "fat_ready v"
  shows "fat_untorn v"
proof -
  have "block_read (fat_device v) s 1 \<noteq> None" if "block_device_valid (fat_device v)" "within_device (fat_device v) s 1" for s
  proof -
    have "unat s < unat (sector_count (fat_device v))"
      using that(2) assms by (auto simp: within_device_def checked_add_u64_def fat_ready_def word_le_nat_alt unat_add_fits split: if_splits)
    then show ?thesis using assms that(1) by (intro block_read_one_total) (simp_all add: fat_ready_def)
  qed
  then show ?thesis by (fastforce simp: fat_untorn_def block_read_stored_def)
qed

lemma next_cluster_total:
  assumes "fat_volume_ok disk v" "fat_ready v" "fat_entry_at v c \<noteq> None"
  shows "fst (next_cluster v c) = Some (fat_link disk v c)"
proof -
  obtain a where a: "fat_entry_at v c = Some a" using assms(3) by blast
  have geo: "fat_geometry v" using assms(1) by (simp add: fat_volume_ok_def)
  note fa = fat_entry_at_facts [OF geo a]
  have "unat a < (unat (fat_start_sector v) + unat (sectors_per_fat v)) * unat (bytes_per_sector v)"
    using fa(1,2) by (simp add: add_mult_distrib)
  then have "unat a div unat (bytes_per_sector v) < unat (fat_start_sector v) + unat (sectors_per_fat v)"
    by (rule less_mult_imp_div_less)
  also have "\<dots> \<le> unat (sector_count (fat_device v))"
    using geo assms(2) unfolding fat_geometry_def fat_ready_def by linarith
  finally have "block_read (fat_device v) (a div ucast (bytes_per_sector v)) 1 \<noteq> None"
    using geo assms(2) by (intro block_read_one_total) (simp_all add: unat_div fat_ready_def fat_geometry_def)
  then have "fst (load_fat_sector v (a div ucast (bytes_per_sector v)))"
    by (auto simp: load_fat_sector_def split: option.split)
  then obtain u where l: "load_fat_sector v (a div ucast (bytes_per_sector v)) = (True, u)"
    by (cases "load_fat_sector v (a div ucast (bytes_per_sector v))") auto
  then obtain c' w where n: "next_cluster v c = (Some c', w)"
    using a by (auto simp: next_cluster_def Let_def)
  with next_cluster_facts(3) [OF assms(1) n] show ?thesis by simp
qed

subsection \<open>The chain as a list of clusters\<close>

definition chain_step :: "(nat \<Rightarrow> u8) \<Rightarrow> fat_volume \<Rightarrow> u32 \<Rightarrow> u32 option" where
  "chain_step disk v c =
     (if fat_entry_at v c \<noteq> None \<and> \<not> is_end_of_chain (fat_link disk v c) \<and> cluster_in_range v (fat_link disk v c)
      then Some (fat_link disk v c) else None)"

primrec chain_nth :: "(nat \<Rightarrow> u8) \<Rightarrow> fat_volume \<Rightarrow> u32 \<Rightarrow> nat \<Rightarrow> u32 option" where
  "chain_nth disk v c 0 = Some c"
| "chain_nth disk v c (Suc n) = chain_nth disk v c n \<bind> chain_step disk v"

lemma chain_nth_add: "chain_nth disk v c (m + n) = chain_nth disk v c m \<bind> (\<lambda>d. chain_nth disk v d n)"
  by (induction n) (auto simp: Option.bind_assoc split: Option.bind_splits)

lemma chain_nth_Suc_left: "chain_nth disk v c (Suc n) = chain_step disk v c \<bind> (\<lambda>d. chain_nth disk v d n)"
  using chain_nth_add [of disk v c 1 n] by simp

lemma chain_step_same: "same_volume v w \<Longrightarrow> chain_step disk w = chain_step disk v"
  by (simp add: fun_eq_iff chain_step_def same_volume_keeps fat_link_def same_volumeD)

lemma chain_nth_same: "same_volume v w \<Longrightarrow> chain_nth disk w c n = chain_nth disk v c n"
  by (induction n) (simp_all add: chain_step_same)

lemma advance_loop_facts:
  "advance_loop v c count steps = (r, w) \<Longrightarrow> fat_volume_ok disk v \<Longrightarrow>
   same_volume v w \<and> (r \<noteq> None \<or> fat_untorn v \<longrightarrow> cache_ok disk w) \<and> (\<forall>c'. r = Some c' \<longrightarrow> chain_nth disk v c (unat count) = Some c') \<and>
   (fat_ready v \<and> unat steps + unat count \<le> unat (cluster_count v) \<and> chain_nth disk v c (unat count) \<noteq> None \<longrightarrow>
      r \<noteq> None)"
proof (induction "unat count" arbitrary: v c count steps)
  case 0
  then show ?case by (auto simp: advance_loop.simps unat_eq_0 fat_volume_ok_def)
next
  case (Suc n)
  have pos: "count > 0" using Suc.hyps(2) by (simp add: word_less_nat_alt)
  have n: "n = unat (count - 1)" using Suc.hyps(2) pos by (subst unat_sub_fits) (auto simp: word_le_nat_alt)
  obtain c1 u where nx: "next_cluster v c = (c1, u)" by fastforce
  note nf = next_cluster_facts [OF Suc.prems(2) nx]
  have step: "chain_nth disk v c (unat count) = chain_step disk v c \<bind> (\<lambda>d. chain_nth disk u d n)"
    unfolding Suc.hyps(2) [symmetric] chain_nth_Suc_left by (simp add: chain_nth_same [OF nf(1)])
  have st: "unat steps + 1 \<le> unat (cluster_count v) \<Longrightarrow> unat (steps + 1) = unat steps + 1"
    using unat_add_below [of steps 1 "ucast (cluster_count v)"] by simp
  have run: "(r, w) = (case c1 of None \<Rightarrow> (None, u) | Some c1 \<Rightarrow>
      if is_end_of_chain c1 then (None, u) else if \<not> cluster_in_range u c1 then (None, u)
      else if steps + 1 > ucast (cluster_count u) then (None, u) else advance_loop u c1 (count - 1) (steps + 1))"
    using Suc.prems(1) pos nx by (subst (asm) advance_loop.simps) (auto split: option.splits)
  show ?case
  proof (cases "\<exists>d. c1 = Some d \<and> \<not> is_end_of_chain d \<and> cluster_in_range v d \<and> \<not> steps + 1 > ucast (cluster_count v)")
    case True
    then obtain d where d: "c1 = Some d" "\<not> is_end_of_chain d" "cluster_in_range v d"
      "\<not> steps + 1 > ucast (cluster_count v)" by blast
    then have rec: "advance_loop u d (count - 1) (steps + 1) = (r, w)"
      using run by (simp add: same_volume_keeps [OF nf(1)] same_volumeD [OF nf(1)])
    have "fat_volume_ok disk u" using d(1) by (intro fat_volume_ok_same [OF Suc.prems(2) nf(1)] nf(2)) simp
    note IH = Suc.hyps(1) [OF n rec this]
    have "chain_step disk v c = Some d" using nf(3) [OF d(1)] d by (simp add: chain_step_def)
    then have eq: "chain_nth disk v c (unat count) = chain_nth disk u d n" by (simp add: step)
    have "unat steps + unat count \<le> unat (cluster_count v) \<Longrightarrow>
        unat (steps + 1) + unat (count - 1) \<le> unat (cluster_count u)"
      using st Suc.hyps(2) n by (simp add: same_volumeD [OF nf(1)])
    then show ?thesis
      using IH eq same_volume_trans [OF nf(1)] n fat_ready_same [OF nf(1)] fat_untorn_same [OF nf(1)] by auto
  next
    case False
    then have r: "r = None" "w = u"
      using run by (auto simp: same_volume_keeps [OF nf(1)] same_volumeD [OF nf(1)] split: option.splits if_splits)
    have "\<not> (fat_ready v \<and> unat steps + unat count \<le> unat (cluster_count v) \<and> chain_nth disk v c (unat count) \<noteq> None)"
    proof
      assume a: "fat_ready v \<and> unat steps + unat count \<le> unat (cluster_count v) \<and> chain_nth disk v c (unat count) \<noteq> None"
      then obtain d where d: "chain_step disk v c = Some d" using step by (cases "chain_step disk v c") auto
      then have e: "fat_entry_at v c \<noteq> None" "d = fat_link disk v c" "\<not> is_end_of_chain d" "cluster_in_range v d"
        by (auto simp: chain_step_def split: if_splits)
      have "c1 = Some d" using next_cluster_total [OF Suc.prems(2) _ e(1)] a nx e(2) by simp
      moreover have "\<not> steps + 1 > ucast (cluster_count v)"
        using a st Suc.hyps(2) by (simp add: word_less_nat_alt not_less)
      ultimately show False using False e by blast
    qed
    then show ?thesis using r nf by simp
  qed
qed

subsection \<open>The bytes of a chain\<close>

definition cluster_pos :: "fat_volume \<Rightarrow> u32 \<Rightarrow> nat" where
  "cluster_pos v c =
     (unat (data_start_sector v) + (unat c - 2) * unat (sectors_per_cluster v)) * unat (bytes_per_sector v)"

definition chain_byte :: "(nat \<Rightarrow> u8) \<Rightarrow> fat_volume \<Rightarrow> u32 \<Rightarrow> nat \<Rightarrow> u8" where
  "chain_byte disk v head i =
     (case chain_nth disk v head (i div unat (cluster_bytes v)) of
        None \<Rightarrow> 0
      | Some c \<Rightarrow> disk (cluster_pos v c + i mod unat (cluster_bytes v)))"

lemma cluster_sector_nat:
  assumes "fat_geometry v" "cluster_in_range v c"
  shows "unat (cluster_sector v c) = unat (data_start_sector v) + (unat c - 2) * unat (sectors_per_cluster v)"
    "unat c - 2 < unat (cluster_count v)"
proof -
  have c: "2 \<le> unat c" using assms(2) by (auto simp: cluster_in_range_def word_less_nat_alt split: if_splits)
  have "unat (2 + cluster_count v) = 2 + unat (cluster_count v)"
    using assms(1) by (subst unat_add_fits) (simp_all add: fat_geometry_def)
  then show lt: "unat c - 2 < unat (cluster_count v)"
    using assms(2) c by (auto simp: cluster_in_range_def word_less_nat_alt split: if_splits)
  have d: "unat (c - 2) = unat c - 2" using c by (subst unat_sub_fits) (simp_all add: word_le_nat_alt)
  have le: "(unat c - 2) * unat (sectors_per_cluster v) \<le> unat (cluster_count v) * unat (sectors_per_cluster v)"
    using lt by (intro mult_le_mono1) simp
  have small: "unat (data_start_sector v) + (unat c - 2) * unat (sectors_per_cluster v) < 2 ^ 32"
    using assms(1) le unfolding fat_geometry_def by linarith
  have m: "unat (ucast (c - 2) * ucast (sectors_per_cluster v) :: u64) = (unat c - 2) * unat (sectors_per_cluster v)"
    using small d by (subst unat_mult_fits) simp_all
  show "unat (cluster_sector v c) = unat (data_start_sector v) + (unat c - 2) * unat (sectors_per_cluster v)"
    unfolding cluster_sector_def using small m by (subst unat_add_fits) simp_all
qed

lemma cluster_bytes_at_facts:
  assumes "fat_volume_ok disk v" "cluster_in_range v c"
  shows "cluster_bytes_at v c into n = Some bs \<Longrightarrow> bs = image_bytes disk (cluster_pos v c + unat into) (unat n)"
    and "fat_ready v \<Longrightarrow> unat into + unat n \<le> unat (cluster_bytes v) \<Longrightarrow> cluster_bytes_at v c into n \<noteq> None"
proof -
  have geo: "fat_geometry v" using assms(1) by (simp add: fat_volume_ok_def)
  note sector = cluster_sector_nat [OF geo assms(2)]
  let ?bps = "unat (bytes_per_sector v)" and ?spc = "unat (sectors_per_cluster v)"
  have bps: "?bps \<le> 512" "bytes_per_sector v = sector_bytes (fat_device v)"
    using geo by (auto simp: fat_geometry_def block_device_valid_def word_less_nat_alt not_less)
  have "(unat c - 2) * ?spc + ?spc = (unat c - 2 + 1) * ?spc" by (simp add: add_mult_distrib)
  also have "\<dots> \<le> unat (cluster_count v) * ?spc" using sector(2) by (intro mult_le_mono1) simp
  finally have last: "unat (cluster_sector v c) + ?spc \<le> unat (data_start_sector v) + unat (cluster_count v) * ?spc"
    using sector(1) by simp
  have "unat (data_start_sector v) + unat (cluster_count v) * ?spc < 2 ^ 32"
    using geo by (simp add: fat_geometry_def)
  then have "(unat (cluster_sector v c) + ?spc) * ?bps \<le> 2 ^ 32 * 512"
    using last bps by (intro mult_le_mono) linarith+
  then have all: "unat (cluster_sector v c) * ?bps + unat (cluster_bytes v) \<le> 2 ^ 41"
    using geo by (simp add: fat_geometry_def add_mult_distrib)
  have mul: "checked_mul_u64 (cluster_sector v c) (ucast (bytes_per_sector v)) =
      Some (cluster_sector v c * ucast (bytes_per_sector v))"
    "unat (cluster_sector v c * ucast (bytes_per_sector v)) = cluster_pos v c"
    using all unat_mult_fits [of "cluster_sector v c" "ucast (bytes_per_sector v)"]
    by (simp_all add: checked_mul_u64_def cluster_pos_def sector(1))
  show "bs = image_bytes disk (cluster_pos v c + unat into) (unat n)" if r: "cluster_bytes_at v c into n = Some bs"
  proof -
    from r obtain a where a: "checked_add_u64 (cluster_sector v c * ucast (bytes_per_sector v)) (ucast into) = Some a"
      "block_read_bytes (fat_device v) a n = Some bs"
      by (auto simp: cluster_bytes_at_def opt_bind mul)
    have "unat a = cluster_pos v c + unat into" using a(1) mul(2) by (simp add: checked_Some)
    moreover have "sound_device (fat_device v) disk" using assms(1) by (simp add: fat_volume_ok_def)
    ultimately show ?thesis using block_read_bytes_sound [OF _ a(2)] by simp
  qed
  show "cluster_bytes_at v c into n \<noteq> None"
    if ready: "fat_ready v" and fits: "unat into + unat n \<le> unat (cluster_bytes v)"
  proof -
    let ?a = "cluster_sector v c * ucast (bytes_per_sector v) + ucast into"
    have pos: "cluster_pos v c + unat (cluster_bytes v) \<le> 2 ^ 41"
      using all sector(1) by (simp add: cluster_pos_def)
    have a: "unat ?a = cluster_pos v c + unat into"
      using pos fits mul(2) by (subst unat_add_fits) simp_all
    have add: "checked_add_u64 (cluster_sector v c * ucast (bytes_per_sector v)) (ucast into) = Some ?a"
      using pos fits mul(2) by (simp add: checked_add_u64_def)
    have "cluster_pos v c + unat (cluster_bytes v) = (unat (cluster_sector v c) + ?spc) * ?bps"
      using geo by (simp add: cluster_pos_def sector(1) fat_geometry_def add_mult_distrib)
    also have "\<dots> \<le> unat (sector_count (fat_device v)) * ?bps"
      using last geo ready unfolding fat_geometry_def fat_ready_def by (intro mult_le_mono1) linarith
    finally have "unat ?a + unat n \<le> unat (sector_count (fat_device v)) * ?bps"
      using a fits by simp
    moreover have "unat ?a + unat n < 2 ^ 64" using a fits pos by simp
    ultimately have "block_read_bytes (fat_device v) ?a n \<noteq> None"
      using block_read_bytes_total [of "fat_device v" disk ?a n] assms(1) ready bps(2) geo
      by (auto simp: fat_volume_ok_def fat_ready_def fat_geometry_def)
    then show ?thesis by (simp add: cluster_bytes_at_def mul add)
  qed
qed

lemma chain_bytes_run:
  assumes "0 < unat (cluster_bytes v)" "chain_nth disk v head k = Some c" "into + n \<le> unat (cluster_bytes v)"
  shows "map (chain_byte disk v head) [k * unat (cluster_bytes v) + into ..< k * unat (cluster_bytes v) + into + n] =
    image_bytes disk (cluster_pos v c + into) n"
proof (rule nth_equalityI)
  fix i assume "i < length (map (chain_byte disk v head)
    [k * unat (cluster_bytes v) + into ..< k * unat (cluster_bytes v) + into + n])"
  then have i: "i < n" by simp
  then have "(k * unat (cluster_bytes v) + (into + i)) div unat (cluster_bytes v) = k"
    "(k * unat (cluster_bytes v) + (into + i)) mod unat (cluster_bytes v) = into + i"
    using assms(3) by (auto intro: div_nat_eqI)
  then show "map (chain_byte disk v head) [k * unat (cluster_bytes v) + into ..< k * unat (cluster_bytes v) + into + n] ! i =
      image_bytes disk (cluster_pos v c + into) n ! i"
    using i assms(2) by (simp add: chain_byte_def image_bytes_def add.assoc)
qed simp

text \<open>All clusters a range of chain bytes needs, and a walk to the last of them that stays below the bound.\<close>

definition chain_covers :: "(nat \<Rightarrow> u8) \<Rightarrow> fat_volume \<Rightarrow> u32 \<Rightarrow> nat \<Rightarrow> bool" where
  "chain_covers disk v head n \<longleftrightarrow>
     (\<forall>j. j * unat (cluster_bytes v) < n \<longrightarrow>
        j \<le> unat (cluster_count v) \<and> (\<exists>c. chain_nth disk v head j = Some c \<and> cluster_in_range v c))"

lemma chain_same:
  assumes "same_volume v w"
  shows "chain_byte disk w = chain_byte disk v" "chain_covers disk w = chain_covers disk v"
proof -
  have p: "cluster_pos w = cluster_pos v" by (simp add: fun_eq_iff cluster_pos_def same_volumeD [OF assms])
  show "chain_byte disk w = chain_byte disk v" "chain_covers disk w = chain_covers disk v"
    by (simp_all add: fun_eq_iff chain_byte_def chain_covers_def chain_nth_same [OF assms] p
        same_volumeD [OF assms] same_volume_keeps [OF assms] split: option.split)
qed

lemma read_clusters_step:
  assumes "len > 0" "cluster_in_range v c"
    "n = (if ucast (cluster_bytes v - into) < len then ucast (cluster_bytes v - into) else len)"
  shows "read_clusters v c into len walked out = (case cluster_bytes_at v c into n of None \<Rightarrow> (None, v)
      | Some bytes \<Rightarrow> if len - n = 0 then (Some (out @ bytes), v)
          else case next_cluster v c of (None, volume) \<Rightarrow> (None, volume)
            | (Some cluster, volume) \<Rightarrow> if is_end_of_chain cluster then (None, volume)
                else if walked + 1 > ucast (cluster_count volume) then (None, volume)
                else read_clusters volume cluster 0 (len - n) (walked + 1) (out @ bytes))"
  using assms(1,2) unfolding assms(3) by (subst read_clusters.simps) (simp add: Let_def)

lemma read_clusters_facts:
  "read_clusters v c into len walked out = (r, w) \<Longrightarrow> fat_volume_ok disk v \<Longrightarrow>
   chain_nth disk v head k = Some c \<Longrightarrow> unat into < unat (cluster_bytes v) \<Longrightarrow> unat walked \<le> k \<Longrightarrow>
   same_volume v w \<and> (r \<noteq> None \<or> fat_untorn v \<longrightarrow> cache_ok disk w) \<and>
   (\<forall>bs. r = Some bs \<longrightarrow> bs = out @ map (chain_byte disk v head)
      [k * unat (cluster_bytes v) + unat into ..< k * unat (cluster_bytes v) + unat into + unat len]) \<and>
   (fat_ready v \<and> chain_covers disk v head (k * unat (cluster_bytes v) + unat into + unat len) \<longrightarrow> r \<noteq> None)"
proof (induction "unat len" arbitrary: v c into len walked out k rule: less_induct)
  case less
  let ?cb = "unat (cluster_bytes v)"
  note ok = less.prems(2)
  show ?case
  proof (cases "len > 0 \<and> cluster_in_range v c")
    case False
    then consider "len = 0" | "len > 0" "\<not> cluster_in_range v c" by (auto simp: word_gt_0)
    then show ?thesis
    proof cases
      case 1
      then show ?thesis using less.prems by (auto simp: read_clusters.simps fat_volume_ok_def)
    next
      case 2
      have "r = None" "w = v" using less.prems(1) 2 by (auto simp: read_clusters.simps)
      moreover have "\<not> chain_covers disk v head (k * ?cb + unat into + unat len)"
        using 2 less.prems(3) by (auto simp: chain_covers_def word_gt_0 unat_gt_0 intro!: exI [of _ k])
      ultimately show ?thesis using ok by (simp add: fat_volume_ok_def)
    qed
  next
    case True
    then have pos: "0 < unat len" and range: "cluster_in_range v c" by (auto simp: word_less_nat_alt)
    define n where "n = (if ucast (cluster_bytes v - into) < len then ucast (cluster_bytes v - into) else len)"
    have avail: "unat (cluster_bytes v - into) = ?cb - unat into"
      using less.prems(4) by (subst unat_sub_fits) (simp_all add: word_le_nat_alt)
    have n: "unat n = min (?cb - unat into) (unat len)"
      unfolding n_def by (auto simp: word_less_nat_alt avail)
    have rest: "unat (len - n) = unat len - unat n" using n by (subst unat_sub_fits) (auto simp: word_le_nat_alt)
    have npos: "0 < unat n" using n pos less.prems(4) by simp
    have fit: "unat into + unat n \<le> ?cb" using n less.prems(4) by linarith
    note cba = cluster_bytes_at_facts [OF ok range, of into n]
    have bytes_eq: "bs = map (chain_byte disk v head) [k * ?cb + unat into ..< k * ?cb + unat into + unat n]"
      if "cluster_bytes_at v c into n = Some bs" for bs
      using cba(1) [OF that] chain_bytes_run [OF _ less.prems(3) fit] less.prems(4) by simp
    have run: "(r, w) = (case cluster_bytes_at v c into n of None \<Rightarrow> (None, v)
      | Some bytes \<Rightarrow> if len - n = 0 then (Some (out @ bytes), v)
          else case next_cluster v c of (None, volume) \<Rightarrow> (None, volume)
            | (Some cluster, volume) \<Rightarrow> if is_end_of_chain cluster then (None, volume)
                else if walked + 1 > ucast (cluster_count volume) then (None, volume)
                else read_clusters volume cluster 0 (len - n) (walked + 1) (out @ bytes))"
      using read_clusters_step [OF _ range n_def, of walked out] less.prems(1) True by simp
    show ?thesis
    proof (cases "cluster_bytes_at v c into n")
      case None
      then show ?thesis using run ok cba(2) fit by (auto simp: fat_volume_ok_def)
    next
      case (Some bytes)
      note bytes = bytes_eq [OF Some]
      show ?thesis
      proof (cases "len - n = 0")
        case True
        then have "unat (len - n) = 0" by simp
        then have all: "unat n = unat len" using rest n by linarith
        have "r = Some (out @ bytes)" "w = v" using run Some True by simp_all
        then show ?thesis using ok bytes unfolding all by (simp add: fat_volume_ok_def)
      next
        case more: False
        then have "unat (len - n) \<noteq> 0" by (simp add: unat_eq_0)
        then have more': "0 < unat len - unat n" using rest by linarith
        then have into_n: "unat into + unat n = ?cb" using n less.prems(4) by linarith
        have k1: "Suc k * ?cb = k * ?cb + unat into + unat n" using into_n by simp
        obtain c1 u where nx: "next_cluster v c = (c1, u)" by fastforce
        note nf = next_cluster_facts [OF ok nx]
        have step: "chain_nth disk v head (Suc k) = chain_step disk v c" using less.prems(3) by simp
        have "unat (walked + 1) \<le> unat walked + 1" by (simp add: unat_word_ariths)
        then have w1: "unat (walked + 1) \<le> Suc k" using less.prems(5) by simp
        have upto: "k * ?cb + unat into + unat len = Suc k * ?cb + unat (len - n)"
          using k1 rest more' by simp
        show ?thesis
        proof (cases "\<exists>d. c1 = Some d \<and> \<not> is_end_of_chain d \<and> cluster_in_range v d \<and> \<not> walked + 1 > ucast (cluster_count v)")
          case True
          then obtain d where d: "c1 = Some d" "\<not> is_end_of_chain d" "cluster_in_range v d"
            "\<not> walked + 1 > ucast (cluster_count v)" by blast
          have oku: "fat_volume_ok disk u" using d(1) by (intro fat_volume_ok_same [OF ok nf(1)] nf(2)) simp
          have rec: "read_clusters u d 0 (len - n) (walked + 1) (out @ bytes) = (r, w)"
            using run Some more nx d by (simp add: same_volumeD [OF nf(1)])
          have "chain_step disk v c = Some d" using nf(3) [OF d(1)] d by (simp add: chain_step_def)
          then have ch: "chain_nth disk u head (Suc k) = Some d"
            using step by (simp add: chain_nth_same [OF nf(1)] del: chain_nth.simps)
          have "same_volume u w \<and> (r \<noteq> None \<or> fat_untorn u \<longrightarrow> cache_ok disk w) \<and>
             (\<forall>bs. r = Some bs \<longrightarrow> bs = (out @ bytes) @ map (chain_byte disk u head)
                [Suc k * unat (cluster_bytes u) + unat (0 :: u32) ..< Suc k * unat (cluster_bytes u) + unat (0 :: u32) + unat (len - n)]) \<and>
             (fat_ready u \<and> chain_covers disk u head (Suc k * unat (cluster_bytes u) + unat (0 :: u32) + unat (len - n)) \<longrightarrow> r \<noteq> None)"
            using rest npos more' less.prems(4) w1
            by (intro less.hyps [OF _ rec oku ch]) (auto simp: same_volumeD [OF nf(1)])
          then have IH: "same_volume u w \<and> (r \<noteq> None \<or> fat_untorn v \<longrightarrow> cache_ok disk w) \<and>
             (\<forall>bs. r = Some bs \<longrightarrow> bs = out @ bytes @ map (chain_byte disk v head) [Suc k * ?cb ..< Suc k * ?cb + unat (len - n)]) \<and>
             (fat_ready v \<and> chain_covers disk v head (Suc k * ?cb + unat (len - n)) \<longrightarrow> r \<noteq> None)"
            by (simp add: chain_same [OF nf(1), of disk] same_volumeD [OF nf(1)] fat_ready_same [OF nf(1)] fat_untorn_same [OF nf(1)] del: mult_Suc)
          have "map (chain_byte disk v head) [k * ?cb + unat into ..< Suc k * ?cb + unat (len - n)] =
              bytes @ map (chain_byte disk v head) [Suc k * ?cb ..< Suc k * ?cb + unat (len - n)]"
            unfolding bytes map_append [symmetric] k1 [symmetric]
            by (subst upt_split [of _ "Suc k * ?cb"]) (use k1 in simp_all)
          then show ?thesis
            using IH same_volume_trans [OF nf(1)] unfolding upto by (simp del: mult_Suc)
        next
          case False
          have r: "r = None" "same_volume v w \<and> (fat_untorn v \<longrightarrow> cache_ok disk w)"
          proof -
            have "read_clusters u d 0 (len - n) (walked + 1) (out @ bytes) = (None, u)"
              if "\<not> cluster_in_range v d" for d
              using that by (subst read_clusters.simps)
                (use more in \<open>simp add: same_volume_keeps [OF nf(1)] word_gt_0\<close>)
            then have "r = None" "w = u"
              using run Some more nx False by (auto simp: same_volumeD [OF nf(1)] split: option.splits if_splits)
            then show "r = None" "same_volume v w \<and> (fat_untorn v \<longrightarrow> cache_ok disk w)" using nf by simp_all
          qed
          have "\<not> (fat_ready v \<and> chain_covers disk v head (k * ?cb + unat into + unat len))"
          proof
            assume a: "fat_ready v \<and> chain_covers disk v head (k * ?cb + unat into + unat len)"
            have "Suc k * ?cb < k * ?cb + unat into + unat len" using upto more' rest by simp
            then obtain d where d: "chain_nth disk v head (Suc k) = Some d" "cluster_in_range v d"
              and le: "Suc k \<le> unat (cluster_count v)"
              using a unfolding chain_covers_def by blast
            then have e: "fat_entry_at v c \<noteq> None" "d = fat_link disk v c" "\<not> is_end_of_chain d"
              using step by (auto simp: chain_step_def simp del: chain_nth.simps split: if_splits)
            have "c1 = Some d" using next_cluster_total [OF ok _ e(1)] a nx e(2) by simp
            moreover have "\<not> walked + 1 > ucast (cluster_count v)"
              using w1 le by (simp add: word_less_nat_alt not_less)
            ultimately show False using False e d by blast
          qed
          then show ?thesis using r by simp
        qed
      qed
    qed
  qed
qed


subsection \<open>Reading files\<close>

text \<open>A walk remembers a true place in the chain.\<close>

definition walk_ok :: "(nat \<Rightarrow> u8) \<Rightarrow> fat_volume \<Rightarrow> u32 \<Rightarrow> fat_walk \<Rightarrow> bool" where
  "walk_ok disk v head w \<longleftrightarrow>
     (walk_valid w \<longrightarrow> chain_nth disk v head (unat (walk_offset w)) = Some (walk_cluster w))"

lemma walk_ok_same: "same_volume v w \<Longrightarrow> walk_ok disk w = walk_ok disk v"
  by (simp add: fun_eq_iff walk_ok_def chain_nth_same)

lemma read_chain_facts:
  assumes run: "read_chain v head off len start = (r, w, start')"
    and ok: "fat_volume_ok disk v" and walk: "\<And>s. start = Some s \<Longrightarrow> walk_ok disk v head s"
    and fits: "unat off + unat len < 2 ^ 64"
  shows "same_volume v w \<and> (r \<noteq> None \<or> fat_untorn v \<longrightarrow> cache_ok disk w) \<and> (start = None \<longleftrightarrow> start' = None) \<and>
    (\<forall>s. start' = Some s \<longrightarrow> walk_ok disk v head s) \<and>
    (\<forall>bs. r = Some bs \<longrightarrow> bs = map (chain_byte disk v head) [unat off ..< unat off + unat len]) \<and>
    (fat_ready v \<and> chain_covers disk v head (unat off + unat len) \<longrightarrow> r \<noteq> None)"
proof (cases "len = 0")
  case True
  then show ?thesis using run ok walk by (auto simp: read_chain_def fat_volume_ok_def)
next
  case False
  let ?cb = "unat (cluster_bytes v)"
  have geo: "fat_geometry v" using ok by (simp add: fat_volume_ok_def)
  have cb: "0 < ?cb" using geo by (auto simp: fat_geometry_def block_device_valid_def unat_gt_0)
  define target where "target = off div ucast (cluster_bytes v)"
  define into where "into = (ucast (off mod ucast (cluster_bytes v)) :: u32)"
  obtain c0 i0 where start: "(c0, i0) = (case start of
      Some w \<Rightarrow> if walk_valid w \<and> walk_offset w \<le> target then (walk_cluster w, walk_offset w) else (head, 0)
    | None \<Rightarrow> (head, 0))" using that [OF prod.collapse] by blast
  have i0: "chain_nth disk v head (unat i0) = Some c0" "unat i0 \<le> unat target"
    using start walk by (auto simp: walk_ok_def word_le_nat_alt split: option.splits if_splits)
  have target: "unat target = unat off div ?cb" by (simp add: target_def unat_div)
  have "unat (off mod ucast (cluster_bytes v)) < 2 ^ 32"
    using cb by (simp add: unat_mod less_trans [OF mod_less_divisor])
  then have into: "unat into = unat off mod ?cb"
    by (simp add: into_def unat_ucast_down unat_mod)
  have off: "unat target * ?cb + unat into = unat off" using target into by simp
  have lt: "unat into < ?cb" using cb into by simp
  have dist: "unat (target - i0) = unat target - unat i0"
    using i0(2) by (subst unat_sub_fits) (auto simp: word_le_nat_alt)
  obtain c1 u where adv: "advance v c0 (target - i0) = (c1, u)" by fastforce
  note af = advance_loop_facts [OF adv [unfolded advance_def] ok]
  have same: "same_volume v u" and okc: "c1 \<noteq> None \<or> fat_untorn v \<longrightarrow> cache_ok disk u" using af by blast+
  have run': "(r, w, start') = (case c1 of None \<Rightarrow> (None, u, start) | Some c \<Rightarrow>
      (case read_clusters u c into len 0 [] of (result, volume) \<Rightarrow>
        (result, volume, map_option (\<lambda>_. \<lparr>walk_offset = target, walk_cluster = c, walk_valid = True\<rparr>) start)))"
    using run False adv
    unfolding read_chain_def target_def [symmetric] Let_def
    by (simp add: start [symmetric] same_volumeD(4) [OF same] into_def split: option.splits)
  have chain: "chain_nth disk v head (unat target) = chain_nth disk v c0 (unat (target - i0))"
    using chain_nth_add [of disk v head "unat i0" "unat (target - i0)"] i0 dist by simp
  show ?thesis
  proof (cases c1)
    case None
    have "\<not> (fat_ready v \<and> chain_covers disk v head (unat off + unat len))"
    proof
      assume a: "fat_ready v \<and> chain_covers disk v head (unat off + unat len)"
      have "0 < unat len" using False by (simp add: unat_gt_0)
      then have "unat target * ?cb < unat off + unat len" using off by linarith
      then have c: "unat target \<le> unat (cluster_count v)" "chain_nth disk v head (unat target) \<noteq> None"
        using a by (auto simp: chain_covers_def)
      then have "unat (0 :: u64) + unat (target - i0) \<le> unat (cluster_count v)" using dist by simp
      moreover have "chain_nth disk v c0 (unat (target - i0)) \<noteq> None" using chain c(2) by simp
      ultimately show False using af a None by blast
    qed
    then show ?thesis using None run' same okc walk by simp
  next
    case (Some c)
    have at': "chain_nth disk v head (unat target) = Some c" using af Some chain by simp
    have oku: "fat_volume_ok disk u" using okc Some by (intro fat_volume_ok_same [OF ok same]) simp
    obtain r' w' where rc: "read_clusters u c into len 0 [] = (r', w')" by fastforce
    have "same_volume u w' \<and> (r' \<noteq> None \<or> fat_untorn u \<longrightarrow> cache_ok disk w') \<and>
       (\<forall>bs. r' = Some bs \<longrightarrow> bs = [] @ map (chain_byte disk u head)
          [unat target * unat (cluster_bytes u) + unat into ..< unat target * unat (cluster_bytes u) + unat into + unat len]) \<and>
       (fat_ready u \<and> chain_covers disk u head (unat target * unat (cluster_bytes u) + unat into + unat len) \<longrightarrow> r' \<noteq> None)"
      using at' lt by (intro read_clusters_facts [OF rc oku]) (simp_all add: chain_nth_same [OF same] same_volumeD [OF same])
    then show ?thesis
      using run' Some rc same_volume_trans [OF same] at' off
      by (auto simp: chain_same [OF same] same_volumeD [OF same] fat_ready_same [OF same] fat_untorn_same [OF same] walk_ok_def)
  qed
qed

text \<open>A file whose chain is as long as its size says.\<close>

definition fat_file_complete :: "(nat \<Rightarrow> u8) \<Rightarrow> fat_volume \<Rightarrow> fat_file \<Rightarrow> bool" where
  "fat_file_complete disk v f \<longleftrightarrow> chain_covers disk v (first_cluster f) (unat (file_size f))"

text \<open>The bytes of a file: those of its cluster chain.\<close>

definition fat_content :: "(nat \<Rightarrow> u8) \<Rightarrow> fat_volume \<Rightarrow> fat_file \<Rightarrow> nat \<Rightarrow> u8" where
  "fat_content disk v f = chain_byte disk v (first_cluster f)"

lemma fat_read_facts:
  assumes run: "fat_read v f off len = (r, w, g)" and ok: "fat_volume_ok disk v"
    and walk: "walk_ok disk v (first_cluster f) (walk f)"
  shows "(r \<noteq> None \<or> fat_untorn v \<or> unat (file_size f) < unat off + unat len \<longrightarrow> fat_volume_ok disk w) \<and> same_volume v w \<and> walk_ok disk w (first_cluster g) (walk g) \<and> g = f\<lparr>walk := walk g\<rparr> \<and>
    (\<forall>bs. r = Some bs \<longrightarrow> bs = image_bytes (fat_content disk v f) (unat off) (unat len) \<and> \<not> directory f \<and>
        (len \<noteq> 0 \<longrightarrow> unat off + unat len \<le> unat (file_size f))) \<and>
    (fat_ready v \<and> fat_file_complete disk v f \<and> \<not> directory f \<and> unat off + unat len \<le> unat (file_size f) \<longrightarrow> r \<noteq> None)"
proof (cases "directory f \<or> len = 0 \<or> \<not> (unat off + unat len \<le> unat (file_size f))")
  case True
  have "checked_add_u64 off len = Some e \<Longrightarrow> (ucast (file_size f) < e) = (unat (file_size f) < unat off + unat len)" for e
    by (simp add: checked_Some word_less_nat_alt)
  then have "w = v" "g = f" "r = (if \<not> directory f \<and> len = 0 then Some [] else None)"
    using run True by (auto simp: fat_read_def split: if_splits option.splits)
  then show ?thesis using True ok walk by auto
next
  case False
  have fits: "unat off + unat len \<le> unat (file_size f)" using False by blast
  then have fits': "unat off + unat len < 2 ^ 64" using unat_lt64 [of "ucast (file_size f)"] by simp
  obtain e where e: "checked_add_u64 off len = Some e" "unat e = unat off + unat len"
    using fits' by (metis checked_add_u64_None checked_add_u64_Some linorder_not_le option.exhaust)
  then have "\<not> ucast (file_size f) < e" using fits by (simp add: word_less_nat_alt)
  obtain r' w' s where rc: "read_chain v (first_cluster f) off len (Some (walk f)) = (r', w', s)"
    by (cases "read_chain v (first_cluster f) off len (Some (walk f))") auto
  have res: "r = r'" "w = w'" "g = f\<lparr>walk := the s\<rparr>"
    using run False e \<open>\<not> ucast (file_size f) < e\<close> rc by (simp_all add: fat_read_def)
  have facts: "same_volume v w' \<and> (r' \<noteq> None \<or> fat_untorn v \<longrightarrow> cache_ok disk w') \<and> (Some (walk f) = None \<longleftrightarrow> s = None) \<and>
    (\<forall>x. s = Some x \<longrightarrow> walk_ok disk v (first_cluster f) x) \<and>
    (\<forall>bs. r' = Some bs \<longrightarrow> bs = map (chain_byte disk v (first_cluster f)) [unat off ..< unat off + unat len]) \<and>
    (fat_ready v \<and> chain_covers disk v (first_cluster f) (unat off + unat len) \<longrightarrow> r' \<noteq> None)"
    using walk by (intro read_chain_facts [OF rc ok _ fits']) simp
  moreover have "fat_file_complete disk v f \<Longrightarrow> chain_covers disk v (first_cluster f) (unat off + unat len)"
    using fits by (auto simp: fat_file_complete_def chain_covers_def)
  ultimately show ?thesis
    using res False fat_volume_ok_same [OF ok] walk_ok_same [of v w']
    by (auto simp: image_bytes_def fat_content_def)
qed

text \<open>A caller's reads of one open file, in order, with what each returned.\<close>

fun fat_reads :: "fat_volume \<Rightarrow> fat_file \<Rightarrow> (u64 \<times> usize) list \<Rightarrow> u8 list option list" where
  "fat_reads v f [] = []"
| "fat_reads v f ((off, len) # rest) = (case fat_read v f off len of (r, v, f) \<Rightarrow> r # fat_reads v f rest)"

lemma fat_content_same: "same_volume v w \<Longrightarrow> g = f\<lparr>walk := x\<rparr> \<Longrightarrow> fat_content disk w g = fat_content disk v f"
  by (simp add: fat_content_def chain_same)

text \<open>What an answer to a read of a file may be: the bytes of its chain in the range asked for, or nothing.\<close>

definition sound_answer :: "(nat \<Rightarrow> u8) \<Rightarrow> fat_volume \<Rightarrow> fat_file \<Rightarrow> u64 \<times> usize \<Rightarrow> u8 list option \<Rightarrow> bool" where
  "sound_answer disk v f = (\<lambda>(off, len) r. \<forall>bytes. r = Some bytes \<longrightarrow>
     bytes = image_bytes (fat_content disk v f) (unat off) (unat len) \<and> \<not> directory f \<and>
     (len \<noteq> 0 \<longrightarrow> unat off + unat len \<le> unat (file_size f)))"

text \<open>A request that was answered, or is refused without a look at the disk.\<close>

definition harmless :: "fat_file \<Rightarrow> u64 \<times> usize \<Rightarrow> u8 list option \<Rightarrow> bool" where
  "harmless f = (\<lambda>(off, len) r. r \<noteq> None \<or> unat (file_size f) < unat off + unat len)"

lemma length_fat_reads [simp]: "length (fat_reads v f reqs) = length reqs"
  by (induction v f reqs rule: fat_reads.induct) (auto split: prod.splits)

lemma fat_reads_run:
  "fat_volume_ok disk v \<Longrightarrow> walk_ok disk v (first_cluster f) (walk f) \<Longrightarrow> i < length reqs \<Longrightarrow>
   fat_untorn v \<or> (\<forall>j < i. harmless f (reqs ! j) (fat_reads v f reqs ! j)) \<Longrightarrow>
   sound_answer disk v f (reqs ! i) (fat_reads v f reqs ! i)"
proof (induction reqs arbitrary: v f i)
  case (Cons req reqs)
  obtain off len where req: "req = (off, len)" by fastforce
  obtain r w g where run: "fat_read v f off len = (r, w, g)" by (metis prod_cases3)
  note facts = fat_read_facts [OF run Cons.prems(1,2)]
  then have g: "g = f\<lparr>walk := walk g\<rparr>" and same: "same_volume v w" by blast+
  have gf: "first_cluster g = first_cluster f" "file_size g = file_size f" "directory g = directory f"
    by (subst g, simp)+
  show ?case
  proof (cases i)
    case 0
    then show ?thesis using facts by (simp add: req run sound_answer_def)
  next
    case (Suc k)
    have "harmless f req r \<or> fat_untorn v" using Cons.prems(4) Suc by (auto simp: req run)
    then have w: "fat_volume_ok disk w" "walk_ok disk w (first_cluster g) (walk g)"
      using facts by (auto simp: harmless_def req)
    have "sound_answer disk w g (reqs ! k) (fat_reads w g reqs ! k)"
    proof (rule Cons.IH [OF w])
      show "k < length reqs" using Cons.prems(3) Suc by simp
      show "fat_untorn w \<or> (\<forall>j < k. harmless g (reqs ! j) (fat_reads w g reqs ! j))"
        using Cons.prems(4) by (auto simp: Suc req run fat_untorn_same [OF same] harmless_def gf)
    qed
    then show ?thesis
      unfolding sound_answer_def fat_content_same [OF same g] gf by (simp add: Suc req run)
  qed
qed simp

text \<open>
  C23. Whatever the FAT holds, a read of a file returns the bytes of its cluster chain at that offset, within the file's
  size, or nothing, and the cached sector and the remembered place in the chain never change what is read: for every
  request of a sequence, as long as the device stores nothing of a sector it fails to read, or else up to and including the
  first request inside the file that is not answered (behind it the cached sector may be torn: \<open>torn_cache_answers\<close>).
\<close>

theorem fat_reads_sound:
  assumes "fat_volume_ok disk v" "walk_ok disk v (first_cluster f) (walk f)" "i < length reqs"
    and "fat_untorn v \<or> (\<forall>j < i. harmless f (reqs ! j) (fat_reads v f reqs ! j))"
  shows "sound_answer disk v f (reqs ! i) (fat_reads v f reqs ! i)"
  by (rule fat_reads_run [OF assms])

text \<open>
  C22. A file whose chain reaches as far as its size says, on a device that answers, is read exactly: any
  sequence of reads gets the bytes asked for, and is refused exactly the ranges that leave the file.
\<close>

theorem fat_reads_exact:
  assumes "fat_volume_ok disk v" "walk_ok disk v (first_cluster f) (walk f)"
    and "fat_ready v" "fat_file_complete disk v f" "\<not> directory f"
  shows "fat_reads v f reqs = map (\<lambda>(off, len).
      if len = 0 \<or> unat off + unat len \<le> unat (file_size f)
      then Some (image_bytes (fat_content disk v f) (unat off) (unat len)) else None) reqs"
  using assms
proof (induction reqs arbitrary: v f)
  case (Cons req reqs)
  obtain off len where req: "req = (off, len)" by fastforce
  obtain r w g where run: "fat_read v f off len = (r, w, g)" by (metis prod_cases3)
  note facts = fat_read_facts [OF run Cons.prems(1,2)]
  then have g: "g = f\<lparr>walk := walk g\<rparr>" and same: "same_volume v w" by blast+
  have gf: "first_cluster g = first_cluster f" "file_size g = file_size f" "directory g = directory f"
    by (subst g, simp)+
  have complete: "fat_file_complete disk w g"
    using Cons.prems(4) by (simp add: fat_file_complete_def gf chain_same [OF same])
  have zero: "fat_read v f off 0 = (Some [], v, f)" using Cons.prems(5) by (simp add: fat_read_def)
  have "r = (if len = 0 \<or> unat off + unat len \<le> unat (file_size f)
      then Some (image_bytes (fat_content disk v f) (unat off) (unat len)) else None)"
  proof (cases "len = 0")
    case True
    then show ?thesis using zero run by simp
  next
    case False
    then show ?thesis using facts Cons.prems(3-5) by (cases r) auto
  qed
  moreover have "fat_reads w g reqs = map (\<lambda>(off, len). if len = 0 \<or> unat off + unat len \<le> unat (file_size f)
      then Some (image_bytes (fat_content disk v f) (unat off) (unat len)) else None) reqs"
    using Cons.IH [of w g] facts Cons.prems(3,5) fat_ready_same [OF same] fat_ready_untorn [OF Cons.prems(3)] complete
    unfolding gf fat_content_same [OF same g] by blast
  ultimately show ?case by (simp add: req run)
qed simp

subsection \<open>Names\<close>

text \<open>The 11 bytes a path component stands for, when it has a short form: base and extension, padded.\<close>

definition short_name :: "str \<Rightarrow> u8 list option" where
  "short_name name =
     (let base = takeWhile (\<lambda>c. c \<noteq> EXTENSION_SEPARATOR) name;
          extension = drop (Suc (length base)) name
      in if length base \<le> 8 \<and> length extension \<le> 3
         then Some (map upper base @ replicate (8 - length base) NAME_PADDING @
                    map upper extension @ replicate (3 - length extension) NAME_PADDING)
         else None)"

lemma write_upper_eq:
  "start + length part \<le> length w \<Longrightarrow>
   write_upper start part w = take start w @ map upper part @ drop (start + length part) w"
proof -
  assume fits: "start + length part \<le> length w"
  have "k \<le> length part \<Longrightarrow> fold (\<lambda>index w. w[start + index := upper (part ! index)]) [0..<k] w =
      take start w @ map upper (take k part) @ drop (start + k) w" for k
  proof (induction k)
    case (Suc k)
    have "drop (start + k) w = w ! (start + k) # drop (Suc (start + k)) w"
      using Suc.prems fits by (simp add: Cons_nth_drop_Suc)
    then show ?case using Suc fits
      by (simp add: list_update_append take_Suc_conv_app_nth min_def)
  qed simp
  from this [of "length part"] show ?thesis by (simp add: write_upper_def)
qed

text \<open>
  A path component matches an 8.3 entry exactly when the entry's name is the component's short form,
  letters compared without their case.
\<close>

theorem name_matches_exact:
  assumes "11 \<le> length entry"
  shows "name_matches entry name \<longleftrightarrow> short_name name = Some (map upper (take 11 entry))"
proof -
  let ?b = "takeWhile (\<lambda>c. c \<noteq> EXTENSION_SEPARATOR) name"
  have b: "take (length ?b) name = ?b" by (rule takeWhile_eq_take [symmetric])
  have le: "length ?b \<le> length name" by (rule length_takeWhile_le)
  have all: "list_all (\<lambda>i. upper (entry ! i) = w ! i) [0..<11] \<longleftrightarrow> w = map upper (take 11 entry)"
    if "length w = 11" for w
    using assms that by (auto simp: list_all_iff list_eq_iff_nth_eq)
  show ?thesis
  proof (cases "length ?b \<le> 8 \<and> length name - length ?b - 1 \<le> 3")
    case False
    then show ?thesis by (auto simp: name_matches_def short_name_def base_length_def Let_def)
  next
    case True
    let ?e = "drop (Suc (length ?b)) name"
    let ?w0 = "write_upper 0 ?b (replicate 11 NAME_PADDING)"
    have w0: "?w0 = map upper ?b @ replicate (11 - length ?b) NAME_PADDING"
      using True by (subst write_upper_eq) (auto simp: drop_replicate)
    have w1: "write_upper 8 ?e ?w0 = map upper ?b @ replicate (8 - length ?b) NAME_PADDING @
        map upper ?e @ replicate (3 - length ?e) NAME_PADDING"
      unfolding w0 using True
      by (subst write_upper_eq) (auto simp: take_replicate drop_replicate min_def)
    have w0': "?w0 = map upper ?b @ replicate (8 - length ?b) NAME_PADDING @ replicate 3 NAME_PADDING"
      unfolding w0 using True by (simp flip: replicate_add)
    define w where "w = (if length ?b < length name then write_upper 8 ?e ?w0 else ?w0)"
    have w: "w = map upper ?b @ replicate (8 - length ?b) NAME_PADDING @
        map upper ?e @ replicate (3 - length ?e) NAME_PADDING"
      unfolding w_def using w1 w0' le by auto
    have "length w = 11" unfolding w using True by simp
    moreover have "name_matches entry name \<longleftrightarrow> list_all (\<lambda>i. upper (entry ! i) = w ! i) [0..<11]"
      using True unfolding name_matches_def base_length_def Let_def w_def b by simp
    moreover have "short_name name = Some w" using True by (simp add: short_name_def Let_def w)
    ultimately show ?thesis using all [of w] by auto
  qed
qed

subsection \<open>Searching a directory\<close>

text \<open>The 32 bytes of a directory's entry with a given index.\<close>

definition dir_entry :: "(nat \<Rightarrow> u8) \<Rightarrow> fat_volume \<Rightarrow> u32 \<Rightarrow> nat \<Rightarrow> u8 list" where
  "dir_entry disk v c i = image_bytes (chain_byte disk v c) (32 * i) 32"

text \<open>A file the directory lists: an entry with no end marker at or before it, neither deleted nor a label.\<close>

definition listed :: "(nat \<Rightarrow> u8) \<Rightarrow> fat_volume \<Rightarrow> u32 \<Rightarrow> nat \<Rightarrow> bool" where
  "listed disk v c i \<longleftrightarrow> (\<forall>j \<le> i. dir_entry disk v c j ! 0 \<noteq> FAT_ENTRY_END_OF_DIRECTORY) \<and>
     dir_entry disk v c i ! 0 \<noteq> FAT_ENTRY_DELETED \<and>
     dir_entry disk v c i ! 11 AND FAT_ATTRIBUTE_VOLUME_LABEL = 0"

text \<open>The name by which an entry answers: its short name, or a long name with its checksum.\<close>

definition answers_to :: "u8 list \<Rightarrow> str \<Rightarrow> bool" where
  "answers_to entry name \<longleftrightarrow> short_name name = Some (map upper (take 11 entry)) \<or>
     (\<exists>pending. long_checksum pending = short_name_checksum entry \<and> long_name_matches pending name)"

lemma dir_entry_same: "same_volume v w \<Longrightarrow> dir_entry disk w = dir_entry disk v \<and> listed disk w = listed disk v"
  by (simp add: fun_eq_iff dir_entry_def listed_def chain_same)

lemma entry_matches_answers:
  assumes "entry_matches pending entry name" "11 \<le> length entry"
  shows "answers_to entry name"
  using assms name_matches_exact [OF assms(2), of name]
  by (auto simp: entry_matches_def answers_to_def Let_def)

lemma search_directory_step:
  assumes "seen < maximum" "read_chain v c off 32 None = (Some entry, u, x)"
  shows "search_directory v c name old off seen maximum pending =
    (let next' = search_directory u c name old (off + 32) (seen + 1) maximum
     in if entry ! 0 = FAT_ENTRY_END_OF_DIRECTORY then (None, u)
        else if entry ! 0 = FAT_ENTRY_DELETED then next' (long_name_reset pending)
        else if entry ! 11 = FAT_ATTRIBUTE_LONG_NAME then next' (long_name_accumulate pending entry)
        else if entry ! 11 AND FAT_ATTRIBUTE_VOLUME_LABEL \<noteq> 0 then next' (long_name_reset pending)
        else if \<not> entry_matches pending entry name then next' (long_name_reset pending)
        else (Some (entry_file entry old), u))"
  using assms by (subst search_directory.simps) (simp add: Let_def)

lemma search_directory_facts:
  "search_directory v c name old off seen maximum pending = (r, w) \<Longrightarrow> fat_volume_ok disk v \<Longrightarrow>
   unat off = 32 * i \<Longrightarrow> unat seen = i \<Longrightarrow> unat maximum \<le> 2 ^ 50 \<Longrightarrow>
   (\<forall>j < i. dir_entry disk v c j ! 0 \<noteq> FAT_ENTRY_END_OF_DIRECTORY) \<Longrightarrow>
   same_volume v w \<and> (r \<noteq> None \<or> fat_untorn v \<longrightarrow> cache_ok disk w) \<and>
   (\<forall>f. r = Some f \<longrightarrow> (\<exists>k \<ge> i. listed disk v c k \<and> answers_to (dir_entry disk v c k) name \<and>
      f = entry_file (dir_entry disk v c k) old))"
proof (induction "unat maximum - unat seen" arbitrary: v off seen pending i rule: less_induct)
  case less
  note ok = less.prems(2)
  show ?case
  proof (cases "seen < maximum")
    case False
    then show ?thesis using less.prems(1) ok by (auto simp: search_directory.simps fat_volume_ok_def)
  next
    case True
    then have lt: "unat seen < unat maximum" by (simp add: word_less_nat_alt)
    then have small: "32 * i + 32 < 2 ^ 60" using less.prems(3-5) by simp
    obtain e u x where rc: "read_chain v c off 32 None = (e, u, x)" by (metis prod_cases3)
    have fits: "unat off + unat (32 :: usize) < 2 ^ 64" using small less.prems(3) by simp
    have rf: "same_volume v u \<and> (e \<noteq> None \<or> fat_untorn v \<longrightarrow> cache_ok disk u) \<and>
      (\<forall>bs. e = Some bs \<longrightarrow> bs = map (chain_byte disk v c) [unat off ..< unat off + unat (32 :: usize)])"
      using read_chain_facts [OF rc ok _ fits] by simp
    then have same: "same_volume v u" and oku: "e \<noteq> None \<Longrightarrow> fat_volume_ok disk u" using fat_volume_ok_same [OF ok] by blast+
    have entry: "entry = dir_entry disk v c i" if "e = Some entry" for entry
      using rf that less.prems(3) by (simp add: dir_entry_def image_bytes_def)
    define next' where "next' = search_directory u c name old (off + 32) (seen + 1) maximum"
    have more: "same_volume v w \<and> (r \<noteq> None \<or> fat_untorn v \<longrightarrow> cache_ok disk w) \<and>
        (\<forall>f. r = Some f \<longrightarrow> (\<exists>k \<ge> i. listed disk v c k \<and> answers_to (dir_entry disk v c k) name \<and>
           f = entry_file (dir_entry disk v c k) old))"
      if e: "e \<noteq> None" and n: "next' p = (r, w)" and ne: "dir_entry disk v c i ! 0 \<noteq> FAT_ENTRY_END_OF_DIRECTORY" for p
    proof -
      have s1: "unat (seen + 1) = Suc i" using True less.prems(4) by (simp add: unat_Suc_fits)
      have o1: "unat (off + 32) = 32 * Suc i" using small less.prems(3) by (subst unat_add_fits) simp_all
      have "same_volume u w \<and> (r \<noteq> None \<or> fat_untorn u \<longrightarrow> cache_ok disk w) \<and>
        (\<forall>f. r = Some f \<longrightarrow> (\<exists>k \<ge> Suc i. listed disk u c k \<and> answers_to (dir_entry disk u c k) name \<and>
           f = entry_file (dir_entry disk u c k) old))"
        using less.prems(4-6) lt s1 o1 ne
        by (intro less.hyps [OF _ n [unfolded next'_def] oku [OF e]]) (auto simp: dir_entry_same [OF same] less_Suc_eq)
      then show ?thesis
        using same_volume_trans [OF same] dir_entry_same [OF same] fat_untorn_same [OF same] by auto (blast dest: Suc_leD)+
    qed
    show ?thesis
    proof (cases e)
      case None
      then have "r = None" "w = u"
        using less.prems(1) True rc by (subst (asm) search_directory.simps, simp)+
      then show ?thesis using rf by simp
    next
      case (Some entry)
      note entry = entry [OF Some]
      have run': "(r, w) = (if entry ! 0 = FAT_ENTRY_END_OF_DIRECTORY then (None, u)
         else if entry ! 0 = FAT_ENTRY_DELETED then next' (long_name_reset pending)
         else if entry ! 11 = FAT_ATTRIBUTE_LONG_NAME then next' (long_name_accumulate pending entry)
         else if entry ! 11 AND FAT_ATTRIBUTE_VOLUME_LABEL \<noteq> 0 then next' (long_name_reset pending)
         else if \<not> entry_matches pending entry name then next' (long_name_reset pending)
         else (Some (entry_file entry old), u))"
        using less.prems(1) search_directory_step [OF True rc [unfolded Some]]
        unfolding next'_def Let_def by simp
      consider "entry ! 0 = FAT_ENTRY_END_OF_DIRECTORY" "r = None" "w = u"
        | p where "entry ! 0 \<noteq> FAT_ENTRY_END_OF_DIRECTORY" "next' p = (r, w)"
        | "entry ! 0 \<noteq> FAT_ENTRY_END_OF_DIRECTORY" "entry ! 0 \<noteq> FAT_ENTRY_DELETED"
          "entry ! 11 AND FAT_ATTRIBUTE_VOLUME_LABEL = 0" "entry_matches pending entry name"
          "r = Some (entry_file entry old)" "w = u"
        using run' by (auto split: if_splits)
      then show ?thesis
      proof cases
        case 1
        then show ?thesis using rf by simp
      next
        case (2 p)
        then show ?thesis using more [OF _ 2(2)] Some unfolding entry by blast
      next
        case 3
        have "listed disk v c i"
          using 3 less.prems(6) entry by (auto simp: listed_def le_less)
        moreover have "answers_to (dir_entry disk v c i) name"
          using 3(4) entry by (intro entry_matches_answers) (simp_all add: dir_entry_def)
        ultimately show ?thesis using 3 rf entry Some by auto
      qed
    qed
  qed
qed

text \<open>
  A search finds only what the directory lists: the file it returns is that of an entry in front of
  the end marker, not deleted and not the volume label, whose short name is the component or which a
  long name with its checksum names; and the volume it leaves behind is the same with a sound cache.
\<close>

theorem find_in_directory_sound:
  assumes "fat_volume_ok disk v" "find_in_directory v c name old stale = (Some f, w)"
  shows "(\<exists>k. listed disk v c k \<and> answers_to (dir_entry disk v c k) name \<and>
      f = entry_file (dir_entry disk v c k) old) \<and> same_volume v w \<and> fat_volume_ok disk w"
proof -
  have geo: "fat_geometry v" using assms(1) by (simp add: fat_volume_ok_def)
  have "unat (cluster_count v) * unat (sectors_per_cluster v) * unat (bytes_per_sector v) \<le> 2 ^ 32 * 512"
    using geo by (intro mult_le_mono)
      (auto simp: fat_geometry_def block_device_valid_def word_less_nat_alt not_less)
  then have prod: "unat (cluster_count v) * unat (cluster_bytes v) \<le> 2 ^ 41"
    using geo by (simp add: fat_geometry_def mult.assoc)
  then have "unat (ucast (cluster_count v) * ucast (cluster_bytes v) div 32 :: u64) =
      unat (cluster_count v) * unat (cluster_bytes v) div 32"
    by (subst unat_div) (simp add: unat_mult_fits)
  then have "unat (ucast (cluster_count v) * ucast (cluster_bytes v) div 32 :: u64) \<le> 2 ^ 50"
    using prod by simp
  then have "same_volume v w \<and> (Some f \<noteq> None \<or> fat_untorn v \<longrightarrow> cache_ok disk w) \<and>
    (\<forall>g. Some f = Some g \<longrightarrow> (\<exists>k \<ge> 0. listed disk v c k \<and> answers_to (dir_entry disk v c k) name \<and>
       g = entry_file (dir_entry disk v c k) old))"
    using assms(2) unfolding find_in_directory_def Let_def
    by (intro search_directory_facts [OF _ assms(1)]) auto
  then show ?thesis using fat_volume_ok_same [OF assms(1)] by blast
qed


text \<open>
  A volume that mounts is sane: its clusters, counted from 2, lie in the device behind the FAT and
  none of the arithmetic on them wraps; its root cluster is one of them; and the first read of it finds a
  sound (empty) cache.
\<close>

theorem fat_mount_sound:
  assumes "fat_mount d stale old = Some v" "sound_device d disk" "length old = 512" "4 dvd unat (sector_bytes d)"
  shows "fat_volume_ok disk v \<and> cluster_in_range v (root_cluster v) \<and>
    (\<forall>c. cluster_in_range v c \<longrightarrow> unat (data_start_sector v) \<le> unat (cluster_sector v c) \<and>
       unat (cluster_sector v c) + unat (sectors_per_cluster v) \<le>
         unat (data_start_sector v) + unat (cluster_count v) * unat (sectors_per_cluster v))"
proof -
  note geo = fat_mount_geometry [OF assms(1)]
  have "fat_volume_ok disk v"
    using geo assms(2-4) by (simp add: fat_volume_ok_def cache_ok_def fat_geometry_def)
  moreover have "unat (data_start_sector v) \<le> unat (cluster_sector v c) \<and>
       unat (cluster_sector v c) + unat (sectors_per_cluster v) \<le>
         unat (data_start_sector v) + unat (cluster_count v) * unat (sectors_per_cluster v)"
    if "cluster_in_range v c" for c
  proof -
    note sector = cluster_sector_nat [OF geo(1) that]
    have "(unat c - 2 + 1) * unat (sectors_per_cluster v) \<le> unat (cluster_count v) * unat (sectors_per_cluster v)"
      using sector(2) by (intro mult_le_mono1) simp
    then show ?thesis using sector(1) by (simp add: add_mult_distrib)
  qed
  ultimately show ?thesis using geo by blast
qed

subsection \<open>A small volume\<close>

text \<open>Twelve sectors: the boot sector, one sector of FAT, ten clusters. The file at cluster 3 goes on in 4.\<close>

definition demo_fat_disk :: "nat \<Rightarrow> u8" where
  "demo_fat_disk a = (case map_of [(12, 2), (13, 1), (14, 1), (16, 1), (32, 12), (36, 1), (44, 2),
     (510, 0x55), (511, 0xAA), (524, 4), (1024, 65), (1025, 32), (1026, 32), (1027, 32),
     (1028, 32), (1029, 32), (1030, 32), (1031, 32), (1032, 84), (1033, 88), (1034, 84), (1035, 32), (1050, 3),
     (1052, 88), (1053, 2), (528, 0xFF), (529, 0xFF), (530, 0xFF), (531, 0x0F)] a of
     Some b \<Rightarrow> b | None \<Rightarrow> 0)"

definition demo_fat_device :: block_device where
  "demo_fat_device = \<lparr>read_sectors = (\<lambda>lba count. Some (image_bytes demo_fat_disk (unat lba * 512) (unat count * 512))),
     sector_bytes = 512, sector_count = 12, torn_sector = (\<lambda>_. [])\<rparr>"

definition demo_fat_volume :: fat_volume where
  "demo_fat_volume = \<lparr>fat_device = demo_fat_device, bytes_per_sector = 512, sectors_per_cluster = 1, cluster_bytes = 512,
     fat_start_sector = 1, data_start_sector = 2, sectors_per_fat = 1, root_cluster = 2, cluster_count = 10,
     fat_sector = replicate 512 0, fat_sector_index = 0, fat_sector_valid = False\<rparr>"

definition demo_fat_file :: fat_file where
  "demo_fat_file = \<lparr>first_cluster = 3, file_size = 600, directory = False,
     walk = \<lparr>walk_offset = 0, walk_cluster = 0, walk_valid = False\<rparr>\<rparr>"

lemma demo_fat_device:
  "sound_device demo_fat_device demo_fat_disk" "complete_device demo_fat_device" "block_device_valid demo_fat_device"
  by (simp_all add: sound_device_def complete_device_def block_device_valid_def demo_fat_device_def)

lemma demo_fat_boot: "block_read demo_fat_device 0 1 = Some (image_bytes demo_fat_disk 0 512)"
  using block_read_one_total [OF demo_fat_device(2,3), of 0] block_read_sound [OF demo_fat_device(1), of 0 1]
  by (auto simp: demo_fat_device_def)

lemma demo_boot_fields:
  "read_boot_fields (image_bytes demo_fat_disk 0 512) =
     Some \<lparr>bf_bytes_per_sector = 512, bf_sectors_per_cluster = 1, bf_reserved_sectors = 1, bf_fat_count = 1,
       bf_root_entry_count = 0, bf_total_16 = 0, bf_sectors_per_fat_16 = 0, bf_total_32 = 12,
       bf_sectors_per_fat_32 = 1, bf_root_cluster = 2\<rparr>"
  by (simp add: read_boot_fields_def reader_init_def reader_u8_def reader_u16_def reader_u32_def reader_scalar_def
      reader_has_def rd_at_def reader_seek_def field_at)
    (simp add: file_field_def image_bytes_def upt_rec little_endian_def push_bit_eq_mult demo_fat_disk_def)

lemma demo_fat_mount: "fat_mount demo_fat_device stale (replicate 512 0) = Some demo_fat_volume"
proof -
  have "fill_sector (image_bytes demo_fat_disk 0 512) stale = image_bytes demo_fat_disk 0 512"
    by (simp add: fill_sector_def)
  moreover have "image_bytes demo_fat_disk 0 512 ! 510 = 0x55" "image_bytes demo_fat_disk 0 512 ! 511 = 0xAA"
    by (simp_all add: image_bytes_def demo_fat_disk_def)
  ultimately show ?thesis
    by (simp add: fat_mount_def demo_fat_device demo_fat_boot demo_boot_fields push_bit_eq_mult volume_of_def
        checked_mul_u64_def checked_add_u64_def cluster_in_range_def demo_fat_volume_def)
      (simp add: demo_fat_device_def)
qed

lemma demo_fat_volume: "fat_volume_ok demo_fat_disk demo_fat_volume" "fat_ready demo_fat_volume"
  using fat_mount_geometry [OF demo_fat_mount] demo_fat_device
  by (auto simp: fat_volume_ok_def cache_ok_def fat_ready_def demo_fat_volume_def demo_fat_device_def)

lemma demo_chain: "chain_nth demo_fat_disk demo_fat_volume 3 1 = Some 4"
proof -
  have "file_field demo_fat_disk 524 4 = 4"
    by (simp add: file_field_def little_endian_def image_bytes_def upt_rec demo_fat_disk_def)
  then have "fat_link demo_fat_disk demo_fat_volume 3 = 4"
    by (simp add: fat_link_def demo_fat_volume_def)
  then show ?thesis
    by (simp add: chain_step_def fat_entry_at_def cluster_in_range_def checked_mul_u64_def checked_add_u64_def
        demo_fat_volume_def is_end_of_chain_def)
qed

lemma demo_fat_complete: "fat_file_complete demo_fat_disk demo_fat_volume demo_fat_file"
proof -
  have "\<exists>c. chain_nth demo_fat_disk demo_fat_volume 3 j = Some c \<and> cluster_in_range demo_fat_volume c"
    if "j * 512 < 600" for j
  proof -
    have "j = 0 \<or> j = 1" using that by auto
    moreover have "cluster_in_range demo_fat_volume 3" "cluster_in_range demo_fat_volume 4"
      by (simp_all add: cluster_in_range_def demo_fat_volume_def)
    ultimately show ?thesis using demo_chain by (auto simp del: chain_nth.simps(2))
  qed
  then show ?thesis
    by (auto simp: fat_file_complete_def chain_covers_def demo_fat_file_def) (simp_all add: demo_fat_volume_def)
qed

theorem fat_reads_exact_witness:
  "fat_reads demo_fat_volume demo_fat_file [(500, 40), (590, 20), (510, 4)] =
    [Some (image_bytes (fat_content demo_fat_disk demo_fat_volume demo_fat_file) 500 40), None,
     Some (image_bytes (fat_content demo_fat_disk demo_fat_volume demo_fat_file) 510 4)]"
proof -
  have "walk_ok demo_fat_disk demo_fat_volume (first_cluster demo_fat_file) (walk demo_fat_file)" "\<not> directory demo_fat_file"
    by (simp_all add: walk_ok_def demo_fat_file_def)
  from fat_reads_exact [OF demo_fat_volume(1) this(1) demo_fat_volume(2) demo_fat_complete this(2)]
  show ?thesis by (simp add: demo_fat_file_def [THEN arg_cong, of file_size] del: fat_reads.simps)
qed

theorem fat_reads_sound_witness:
  "sound_answer demo_fat_disk demo_fat_volume demo_fat_file (590, 20)
     (fat_reads demo_fat_volume demo_fat_file [(580, 20), (590, 20)] ! 1)"
proof -
  have "walk_ok demo_fat_disk demo_fat_volume (first_cluster demo_fat_file) (walk demo_fat_file)"
    by (simp add: walk_ok_def demo_fat_file_def)
  from fat_reads_sound [OF demo_fat_volume(1) this, of 1 "[(580, 20), (590, 20)]"] fat_ready_untorn [OF demo_fat_volume(2)]
  show ?thesis by simp
qed

theorem fat_mount_sound_witness:
  "fat_volume_ok demo_fat_disk demo_fat_volume \<and> cluster_in_range demo_fat_volume (root_cluster demo_fat_volume)"
  using fat_mount_sound [OF demo_fat_mount demo_fat_device(1)] by (simp add: demo_fat_device_def)

theorem name_matches_exact_witness:
  "name_matches (map of_char ''KERNEL  ELF'') (map of_char ''kernel.elf'') \<longleftrightarrow>
   short_name (map of_char ''kernel.elf'') = Some (map upper (take 11 (map of_char ''KERNEL  ELF'')))"
  by (rule name_matches_exact) simp


text \<open>The root directory holds the file as \<open>A.TXT\<close>.\<close>

definition demo_fat_entry :: "u8 list" where
  "demo_fat_entry = [65, 32, 32, 32, 32, 32, 32, 32, 84, 88, 84, 32, 0, 0, 0, 0, 0, 0, 0, 0, 0, 0, 0, 0, 0, 0, 3, 0, 88, 2, 0, 0]"

lemma demo_dir_entry: "map (chain_byte demo_fat_disk demo_fat_volume 2) [0..<32] = demo_fat_entry"
proof -
  have "map (chain_byte demo_fat_disk demo_fat_volume 2) [0..<32] = map (\<lambda>i. demo_fat_disk (1024 + i)) [0..<32]"
    by (simp add: chain_byte_def cluster_pos_def demo_fat_volume_def)
  also have "\<dots> = demo_fat_entry" by (simp add: upt_rec demo_fat_disk_def demo_fat_entry_def)
  finally show ?thesis .
qed

lemma demo_find:
  "\<exists>w. find_in_directory demo_fat_volume 2 (map of_char ''a.txt'') (walk demo_fat_file) stale =
     (Some demo_fat_file, w)"
proof -
  obtain e u x where rc: "read_chain demo_fat_volume 2 0 32 None = (e, u, x)" by (metis prod_cases3)
  have "chain_covers demo_fat_disk demo_fat_volume 2 32"
    by (auto simp: chain_covers_def demo_fat_volume_def cluster_in_range_def)
  then have e: "e = Some demo_fat_entry"
    using read_chain_facts [OF rc demo_fat_volume(1)] demo_fat_volume(2) demo_dir_entry by auto
  have names: "name_matches demo_fat_entry (map of_char ''a.txt'')"
  proof -
    have "short_name (map of_char ''a.txt'') = Some (map upper (take 11 demo_fat_entry))" by code_simp
    then show ?thesis by (subst name_matches_exact) (simp_all add: demo_fat_entry_def)
  qed
  have f: "entry_file demo_fat_entry (walk demo_fat_file) = demo_fat_file"
    by (simp add: entry_file_def demo_fat_entry_def demo_fat_file_def push_bit_eq_mult)
  have "search_directory demo_fat_volume 2 (map of_char ''a.txt'') (walk demo_fat_file) 0 0 160 (long_name_reset stale) =
      (Some demo_fat_file, u)"
    using search_directory_step [OF _ rc [unfolded e], of 0 160] names f
    by (simp add: entry_matches_def Let_def) (simp add: demo_fat_entry_def)
  then show ?thesis by (simp add: find_in_directory_def) (simp add: demo_fat_volume_def)
qed

theorem find_in_directory_sound_witness:
  "\<exists>k. listed demo_fat_disk demo_fat_volume 2 k \<and>
     answers_to (dir_entry demo_fat_disk demo_fat_volume 2 k) (map of_char ''a.txt'')"
proof -
  obtain w where "find_in_directory demo_fat_volume 2 (map of_char ''a.txt'') (walk demo_fat_file)
      \<lparr>text_bytes = [], long_length = 0, long_checksum = 0, long_valid = False\<rparr> = (Some demo_fat_file, w)"
    using demo_find by blast
  from find_in_directory_sound [OF demo_fat_volume(1) this] show ?thesis by blast
qed

subsection \<open>Files as sources of bytes\<close>

definition fat_source_ok :: "fat_volume \<times> fat_file \<Rightarrow> bool" where
  "fat_source_ok s = (case s of (v, f) \<Rightarrow>
     fat_volume_ok (device_image (fat_device v)) v \<and>
     walk_ok (device_image (fat_device v)) v (first_cluster f) (walk f))"

interpretation fat_source: byte_source "\<lambda>(v, f) off n. fst (fat_read v f off n)"
  "\<lambda>(v, f). fat_content (device_image (fat_device v)) v f" fat_source_ok
proof (unfold_locales, goal_cases)
  case (1 d off n bs)
  obtain v f where d: "d = (v, f)" by fastforce
  obtain r w g where run: "fat_read v f off n = (r, w, g)" by (metis prod_cases3)
  from 1 fat_read_facts [OF run, of "device_image (fat_device v)"] show ?case
    by (simp add: d run fat_source_ok_def)
qed

text \<open>
  Nothing checks that every fragment of a long name was there: a single entry that says it is the second and last
  fragment makes a valid name of 13 characters out of whatever the buffer held before.
\<close>

lemma long_name_fragment_missing:
  "long_name_accumulate pending (0x42 # replicate 31 0) =
     pending\<lparr>long_length := 13, long_checksum := 0, long_valid := True\<rparr>"
proof -
  define e :: "u8 list" where "e = 0x42 # replicate 31 0"
  have at: "e ! (long_name_offsets ! i) = 0" "e ! Suc (long_name_offsets ! i) = 0" if "i < 13" for i
    using that by (auto simp: less_Suc_eq numeral_eq_Suc long_name_offsets_def e_def)
  have units: "long_name_units e 13 ks p = (if ks = [] \<or> long_length p \<le> 13 then p else p\<lparr>long_length := 13 + hd ks\<rparr>)"
    if "ks = [] \<or> hd ks = 0 \<and> long_length p = 26 \<or> long_length p = 13" "\<forall>i \<in> set ks. i < 13" for ks p
    using that
  proof (induction ks arbitrary: p)
    case (Cons i ks)
    then show ?case by (auto simp: at Let_def)
  qed simp
  have "e ! 0 = 0x42" "e ! 13 = 0" by (simp_all add: e_def)
  then have "long_name_accumulate pending e = pending\<lparr>long_length := 13, long_checksum := 0, long_valid := True\<rparr>"
    by (simp add: long_name_accumulate_def Let_def long_name_reset_def units)
  then show ?thesis by (simp add: e_def)
qed

end
