(* ===== verification/Ext2.thy ===== *)
theory Ext2
  imports Block Path
begin

text \<open>
  \<open>src/fs/ext2.c\<close>: ext2, read only. Nothing is cached, so an operation is a function of the volume and the
  device to what it read. A file's volume pointer is the volume it is used with; null pointers are not
  states of the model. \<open>find_in_directory\<close> and \<open>name_matches\<close> carry a suffix here, since \<open>fat.c\<close> has
  static functions of the same names.
\<close>

abbreviation (input) EXT2_SUPERBLOCK_OFFSET :: u64 where "EXT2_SUPERBLOCK_OFFSET \<equiv> 1024"
abbreviation (input) EXT2_SUPERBLOCK_BYTES :: usize where "EXT2_SUPERBLOCK_BYTES \<equiv> 1024"
abbreviation (input) EXT2_MAGIC :: u16 where "EXT2_MAGIC \<equiv> 0xEF53"
abbreviation (input) EXT2_SUPER_INODE_COUNT_OFFSET :: usize where "EXT2_SUPER_INODE_COUNT_OFFSET \<equiv> 0"
abbreviation (input) EXT2_SUPER_FIRST_DATA_BLOCK_OFFSET :: usize where "EXT2_SUPER_FIRST_DATA_BLOCK_OFFSET \<equiv> 20"
abbreviation (input) EXT2_SUPER_BLOCKS_PER_GROUP_OFFSET :: usize where "EXT2_SUPER_BLOCKS_PER_GROUP_OFFSET \<equiv> 32"
abbreviation (input) EXT2_SUPER_INODES_PER_GROUP_OFFSET :: usize where "EXT2_SUPER_INODES_PER_GROUP_OFFSET \<equiv> 40"
abbreviation (input) EXT2_SUPER_MAGIC_OFFSET :: usize where "EXT2_SUPER_MAGIC_OFFSET \<equiv> 56"
abbreviation (input) EXT2_SUPER_REVISION_OFFSET :: usize where "EXT2_SUPER_REVISION_OFFSET \<equiv> 76"
abbreviation (input) EXT2_SUPER_INODE_BYTES_OFFSET :: usize where "EXT2_SUPER_INODE_BYTES_OFFSET \<equiv> 88"
abbreviation (input) EXT2_SUPER_INCOMPATIBLE_OFFSET :: usize where "EXT2_SUPER_INCOMPATIBLE_OFFSET \<equiv> 96"
abbreviation (input) EXT2_REVISION_ORIGINAL :: u32 where "EXT2_REVISION_ORIGINAL \<equiv> 0"
abbreviation (input) EXT2_ORIGINAL_INODE_BYTES :: u32 where "EXT2_ORIGINAL_INODE_BYTES \<equiv> 128"
abbreviation (input) EXT2_MIN_BLOCK_BYTES :: u32 where "EXT2_MIN_BLOCK_BYTES \<equiv> 1024"
abbreviation (input) EXT2_MAX_BLOCK_BYTES :: u32 where "EXT2_MAX_BLOCK_BYTES \<equiv> 65536"
abbreviation (input) EXT2_MAX_LOG_BLOCK_SIZE :: u32 where "EXT2_MAX_LOG_BLOCK_SIZE \<equiv> 6"
abbreviation (input) EXT2_INCOMPATIBLE_EXTENTS :: u32 where "EXT2_INCOMPATIBLE_EXTENTS \<equiv> 0x0040"
abbreviation (input) EXT2_INODE_FLAG_EXTENTS :: u32 where "EXT2_INODE_FLAG_EXTENTS \<equiv> 0x00080000"
abbreviation (input) EXT2_GROUP_DESCRIPTOR_BYTES :: u64 where "EXT2_GROUP_DESCRIPTOR_BYTES \<equiv> 32"
abbreviation (input) EXT2_GROUP_INODE_TABLE_OFFSET :: u64 where "EXT2_GROUP_INODE_TABLE_OFFSET \<equiv> 8"
abbreviation (input) EXT2_ROOT_INODE :: u32 where "EXT2_ROOT_INODE \<equiv> 2"
abbreviation (input) EXT2_INODE_MODE_OFFSET :: usize where "EXT2_INODE_MODE_OFFSET \<equiv> 0"
abbreviation (input) EXT2_INODE_SIZE_LOW_OFFSET :: usize where "EXT2_INODE_SIZE_LOW_OFFSET \<equiv> 4"
abbreviation (input) EXT2_INODE_FLAGS_OFFSET :: usize where "EXT2_INODE_FLAGS_OFFSET \<equiv> 32"
abbreviation (input) EXT2_INODE_BLOCKS_OFFSET :: usize where "EXT2_INODE_BLOCKS_OFFSET \<equiv> 40"
abbreviation (input) EXT2_INODE_SIZE_HIGH_OFFSET :: usize where "EXT2_INODE_SIZE_HIGH_OFFSET \<equiv> 108"
abbreviation (input) EXT2_MODE_FORMAT_MASK :: u16 where "EXT2_MODE_FORMAT_MASK \<equiv> 0xF000"
abbreviation (input) EXT2_MODE_DIRECTORY :: u16 where "EXT2_MODE_DIRECTORY \<equiv> 0x4000"
abbreviation (input) EXT2_MODE_REGULAR :: u16 where "EXT2_MODE_REGULAR \<equiv> 0x8000"
abbreviation (input) EXT2_DIRECT_BLOCKS :: u64 where "EXT2_DIRECT_BLOCKS \<equiv> 12"
abbreviation (input) EXT2_INDIRECT_INDEX :: nat where "EXT2_INDIRECT_INDEX \<equiv> 12"
abbreviation (input) EXT2_BLOCK_POINTERS :: nat where "EXT2_BLOCK_POINTERS \<equiv> 15"
abbreviation (input) EXT2_POINTER_BYTES :: u64 where "EXT2_POINTER_BYTES \<equiv> 4"
abbreviation (input) EXT2_DIRENT_RECORD_LENGTH_OFFSET :: nat where "EXT2_DIRENT_RECORD_LENGTH_OFFSET \<equiv> 4"
abbreviation (input) EXT2_DIRENT_NAME_LENGTH_OFFSET :: nat where "EXT2_DIRENT_NAME_LENGTH_OFFSET \<equiv> 6"
abbreviation (input) EXT2_DIRENT_NAME_OFFSET :: u64 where "EXT2_DIRENT_NAME_OFFSET \<equiv> 8"
abbreviation (input) EXT2_DIRENT_MIN_BYTES :: u64 where "EXT2_DIRENT_MIN_BYTES \<equiv> 8"
abbreviation (input) EXT2_MAX_NAME_BYTES :: nat where "EXT2_MAX_NAME_BYTES \<equiv> 255"
abbreviation (input) EXT2_MAX_PATH_BYTES :: nat where "EXT2_MAX_PATH_BYTES \<equiv> 1024"
abbreviation (input) BLOCK_HOLE :: u32 where "BLOCK_HOLE \<equiv> 0"

record ext2_volume =
  ext2_device :: block_device
  block_bytes :: u32
  pointers_per_block :: u32
  blocks_per_group :: u32
  inodes_per_group :: u32
  inode_bytes :: u32
  block_count :: u32
  inode_count :: u32
  group_table_offset :: u64

record ext2_file =
  inode_size :: u64
  inode_directory :: bool
  inode_blocks :: "u32 list"

definition read_u32_at :: "ext2_volume \<Rightarrow> u64 \<Rightarrow> u32 option" where
  "read_u32_at volume offset =
     do { raw \<leftarrow> block_read_bytes (ext2_device volume) offset EXT2_POINTER_BYTES;
          Some (ucast (raw ! 0) OR push_bit 8 (ucast (raw ! 1)) OR push_bit 16 (ucast (raw ! 2)) OR
                push_bit 24 (ucast (raw ! 3))) }"

definition block_offset :: "ext2_volume \<Rightarrow> u32 \<Rightarrow> u64 option" where
  "block_offset volume block =
     (if block = BLOCK_HOLE \<or> block \<ge> block_count volume then None
      else checked_mul_u64 (ucast block) (ucast (block_bytes volume)))"

subsection \<open>Mounting\<close>

text \<open>The fields of the superblock \<open>ext2_mount\<close> reads behind the magic.\<close>

record super_fields =
  sf_inode_count :: u32
  sf_block_count :: u32
  sf_first_data_block :: u32
  sf_log_block_size :: u32
  sf_blocks_per_group :: u32
  sf_inodes_per_group :: u32
  sf_revision :: u32
  sf_inode_bytes_16 :: u16
  sf_incompatible :: u32

definition read_super_fields :: "u8 list \<Rightarrow> super_fields option" where
  "read_super_fields super =
     do { let r = reader_init (Some super) EXT2_SUPERBLOCK_BYTES;
          r \<leftarrow> reader_seek r EXT2_SUPER_MAGIC_OFFSET;
          (magic, r) \<leftarrow> reader_u16 r;
          ensure (\<not> magic \<noteq> EXT2_MAGIC);
          r \<leftarrow> reader_seek r EXT2_SUPER_INODE_COUNT_OFFSET;
          (inodes, r) \<leftarrow> reader_u32 r;
          (blocks, r) \<leftarrow> reader_u32 r;
          r \<leftarrow> reader_seek r EXT2_SUPER_FIRST_DATA_BLOCK_OFFSET;
          (first_data_block, r) \<leftarrow> reader_u32 r;
          (log_block_size, r) \<leftarrow> reader_u32 r;
          r \<leftarrow> reader_seek r EXT2_SUPER_BLOCKS_PER_GROUP_OFFSET;
          (blocks_group, r) \<leftarrow> reader_u32 r;
          r \<leftarrow> reader_seek r EXT2_SUPER_INODES_PER_GROUP_OFFSET;
          (inodes_group, r) \<leftarrow> reader_u32 r;
          r \<leftarrow> reader_seek r EXT2_SUPER_REVISION_OFFSET;
          (revision, r) \<leftarrow> reader_u32 r;
          r \<leftarrow> reader_seek r EXT2_SUPER_INODE_BYTES_OFFSET;
          (inode_bytes_16, r) \<leftarrow> reader_u16 r;
          r \<leftarrow> reader_seek r EXT2_SUPER_INCOMPATIBLE_OFFSET;
          (incompatible, r) \<leftarrow> reader_u32 r;
          Some \<lparr>sf_inode_count = inodes, sf_block_count = blocks, sf_first_data_block = first_data_block,
                sf_log_block_size = log_block_size, sf_blocks_per_group = blocks_group,
                sf_inodes_per_group = inodes_group, sf_revision = revision,
                sf_inode_bytes_16 = inode_bytes_16, sf_incompatible = incompatible\<rparr> }"

definition volume_of_super :: "block_device \<Rightarrow> super_fields \<Rightarrow> ext2_volume option" where
  "volume_of_super device s =
     do { ensure (\<not> sf_log_block_size s > EXT2_MAX_LOG_BLOCK_SIZE);
          let bytes = push_bit (unat (sf_log_block_size s)) EXT2_MIN_BLOCK_BYTES;
          ensure (\<not> (bytes < EXT2_MIN_BLOCK_BYTES \<or> bytes > EXT2_MAX_BLOCK_BYTES));
          ensure (\<not> bytes mod sector_bytes device \<noteq> 0);
          ensure (\<not> sf_incompatible s AND EXT2_INCOMPATIBLE_EXTENTS \<noteq> 0);
          ensure (\<not> (sf_blocks_per_group s = 0 \<or> sf_inodes_per_group s = 0));
          ensure (\<not> (sf_block_count s = 0 \<or> sf_inode_count s = 0));
          let inode = (if sf_revision s = EXT2_REVISION_ORIGINAL then EXT2_ORIGINAL_INODE_BYTES
                       else ucast (sf_inode_bytes_16 s));
          ensure (\<not> inode < EXT2_ORIGINAL_INODE_BYTES);
          ensure (\<not> inode > bytes);
          ensure (\<not> inode AND (inode - 1) \<noteq> 0);
          volume_bytes \<leftarrow> checked_mul_u64 (ucast (sf_block_count s)) (ucast bytes);
          ensure (\<not> (sector_count device \<noteq> 0 \<and>
                     volume_bytes > sector_count device * ucast (sector_bytes device)));
          let table_block = ucast (sf_first_data_block s) + 1;
          table_offset \<leftarrow> checked_mul_u64 table_block (ucast bytes);
          Some \<lparr>ext2_device = device, block_bytes = bytes,
                pointers_per_block = bytes div ucast EXT2_POINTER_BYTES,
                blocks_per_group = sf_blocks_per_group s, inodes_per_group = sf_inodes_per_group s,
                inode_bytes = inode, block_count = sf_block_count s, inode_count = sf_inode_count s,
                group_table_offset = table_offset\<rparr> }"

definition ext2_mount :: "block_device \<Rightarrow> ext2_volume option" where
  "ext2_mount device =
     do { ensure (block_device_valid device);
          super \<leftarrow> block_read_bytes device EXT2_SUPERBLOCK_OFFSET EXT2_SUPERBLOCK_BYTES;
          s \<leftarrow> read_super_fields super;
          volume_of_super device s }"

subsection \<open>The block map\<close>

text \<open>The loop that works out the depth: index, span, depth and slot when it ends.\<close>

function resolve_depth :: "u64 \<Rightarrow> u64 \<Rightarrow> u64 \<Rightarrow> nat \<Rightarrow> nat \<Rightarrow> (u64 \<times> u64 \<times> nat \<times> nat) option" where
  "resolve_depth per_block index span depth slot =
     (if depth \<le> 3 then
        if index < span then Some (index, span, depth, slot)
        else do { next \<leftarrow> checked_mul_u64 span per_block;
                  resolve_depth per_block (index - span) next (depth + 1) (slot + 1) }
      else Some (index, span, depth, slot))"
  by pat_completeness auto
termination by (relation "measure (\<lambda>(per_block, index, span, depth, slot). 4 - depth)") auto

declare resolve_depth.simps [simp del]

text \<open>The loop that follows the pointers, one level per turn.\<close>

fun follow_pointers :: "ext2_volume \<Rightarrow> u32 \<Rightarrow> u64 \<Rightarrow> u64 \<Rightarrow> nat \<Rightarrow> u32 option" where
  "follow_pointers volume block index span 0 = Some block"
| "follow_pointers volume block index span (Suc depth) =
     (if block = BLOCK_HOLE then Some BLOCK_HOLE
      else do { let span = span div ucast (pointers_per_block volume);
                let within = index div span;
                let index = index mod span;
                offset \<leftarrow> block_offset volume block;
                offset \<leftarrow> checked_add_u64 offset (within * EXT2_POINTER_BYTES);
                block \<leftarrow> read_u32_at volume offset;
                follow_pointers volume block index span depth })"

definition resolve_block :: "ext2_volume \<Rightarrow> u32 list \<Rightarrow> u64 \<Rightarrow> u32 option" where
  "resolve_block volume blocks index =
     (if index < EXT2_DIRECT_BLOCKS then Some (blocks ! unat index)
      else do { let per_block = ucast (pointers_per_block volume);
                (index, span, depth, slot) \<leftarrow>
                  resolve_depth per_block (index - EXT2_DIRECT_BLOCKS) per_block 1 EXT2_INDIRECT_INDEX;
                ensure (\<not> depth > 3);
                follow_pointers volume (blocks ! slot) index span depth })"

text \<open>One turn of the loop of \<open>read_blocks\<close>: the bytes it writes at the cursor.\<close>

definition read_in_block :: "ext2_volume \<Rightarrow> u32 \<Rightarrow> u32 \<Rightarrow> usize \<Rightarrow> u8 list option" where
  "read_in_block volume block into_block count =
     (if block = BLOCK_HOLE then Some (replicate (unat count) 0)
      else do { at' \<leftarrow> block_offset volume block;
                at' \<leftarrow> checked_add_u64 at' (ucast into_block);
                block_read_bytes (ext2_device volume) at' count })"

text \<open>The code divides by the size of a block; no volume that mounts has blocks of size 0.\<close>

function read_blocks :: "ext2_volume \<Rightarrow> u32 list \<Rightarrow> u64 \<Rightarrow> usize \<Rightarrow> u8 list option" where
  "read_blocks volume blocks offset len =
     (if block_bytes volume = 0 then None
      else if len > 0 then
        let index = offset div ucast (block_bytes volume);
            into_block = ucast (offset mod ucast (block_bytes volume));
            available = block_bytes volume - into_block;
            count = (if ucast available < len then ucast available else len)
        in do { block \<leftarrow> resolve_block volume blocks index;
                bytes \<leftarrow> read_in_block volume block into_block count;
                rest \<leftarrow> read_blocks volume blocks (offset + count) (len - count);
                Some (bytes @ rest) }
      else Some [])"
  by pat_completeness auto
termination
proof (relation "measure (\<lambda>(volume, blocks, offset, len). unat len)", goal_cases)
  case (2 volume blocks offset len index into available count)
  then have bb: "0 < unat (block_bytes volume)" by (simp add: unat_gt_0)
  then have m: "unat (offset mod ucast (block_bytes volume)) < unat (block_bytes volume)" by (simp add: unat_mod)
  then have "unat (offset mod ucast (block_bytes volume)) < 2 ^ 32" by (rule less_trans) simp
  then have "unat into < unat (block_bytes volume)" using m 2 by (simp add: unat_ucast_down)
  then have "0 < unat available" using 2 by (simp add: unat_sub_fits word_le_nat_alt)
  then have "0 < unat count" "count \<le> len"
    using 2 by (auto simp: word_less_nat_alt word_le_nat_alt)
  then show ?case by (simp add: unat_sub_fits word_le_nat_alt)
qed simp

declare read_blocks.simps [simp del]

definition ext2_read :: "ext2_volume \<Rightarrow> ext2_file \<Rightarrow> u64 \<Rightarrow> usize \<Rightarrow> u8 list option" where
  "ext2_read volume f offset len =
     (if inode_directory f then None
      else if len = 0 then Some []
      else do { end' \<leftarrow> checked_add_u64 offset len;
                ensure (\<not> end' > inode_size f);
                read_blocks volume (inode_blocks f) offset len })"

subsection \<open>Inodes, directories and paths\<close>

fun read_pointers :: "nat \<Rightarrow> reader \<Rightarrow> (u32 list \<times> reader) option" where
  "read_pointers 0 r = Some ([], r)"
| "read_pointers (Suc n) r =
     do { (pointer, r) \<leftarrow> reader_u32 r; (rest, r) \<leftarrow> read_pointers n r; Some (pointer # rest, r) }"

definition parse_inode :: "u8 list \<Rightarrow> ext2_file option" where
  "parse_inode raw =
     do { let r = reader_init (Some raw) (ucast EXT2_ORIGINAL_INODE_BYTES);
          r \<leftarrow> reader_seek r EXT2_INODE_MODE_OFFSET;
          (mode, r) \<leftarrow> reader_u16 r;
          r \<leftarrow> reader_seek r EXT2_INODE_SIZE_LOW_OFFSET;
          (size_low, r) \<leftarrow> reader_u32 r;
          r \<leftarrow> reader_seek r EXT2_INODE_FLAGS_OFFSET;
          (flags, r) \<leftarrow> reader_u32 r;
          ensure (\<not> flags AND EXT2_INODE_FLAG_EXTENTS \<noteq> 0);
          r \<leftarrow> reader_seek r EXT2_INODE_BLOCKS_OFFSET;
          (blocks, r) \<leftarrow> read_pointers EXT2_BLOCK_POINTERS r;
          let format = mode AND EXT2_MODE_FORMAT_MASK;
          let out = \<lparr>inode_size = ucast size_low, inode_directory = (format = EXT2_MODE_DIRECTORY),
                     inode_blocks = blocks\<rparr>;
          if format = EXT2_MODE_REGULAR then
            do { r \<leftarrow> reader_seek r EXT2_INODE_SIZE_HIGH_OFFSET;
                 (size_high, r) \<leftarrow> reader_u32 r;
                 Some (out\<lparr>inode_size := inode_size out OR push_bit 32 (ucast size_high)\<rparr>) }
          else do { ensure (format = EXT2_MODE_DIRECTORY); Some out } }"

definition read_inode :: "ext2_volume \<Rightarrow> u32 \<Rightarrow> ext2_file option" where
  "read_inode volume inode =
     do { ensure (\<not> (inode = 0 \<or> inode > inode_count volume));
          let group = (inode - 1) div inodes_per_group volume;
          let within = (inode - 1) mod inodes_per_group volume;
          descriptor \<leftarrow> checked_mul_u64 (ucast group) EXT2_GROUP_DESCRIPTOR_BYTES;
          descriptor \<leftarrow> checked_add_u64 (group_table_offset volume) descriptor;
          table_block \<leftarrow> read_u32_at volume (descriptor + EXT2_GROUP_INODE_TABLE_OFFSET);
          at' \<leftarrow> block_offset volume table_block;
          at' \<leftarrow> checked_add_u64 at' (ucast within * ucast (inode_bytes volume));
          raw \<leftarrow> block_read_bytes (ext2_device volume) at' (ucast EXT2_ORIGINAL_INODE_BYTES);
          parse_inode raw }"

definition name_matches_ext2 :: "u8 list \<Rightarrow> u8 \<Rightarrow> str \<Rightarrow> bool" where
  "name_matches_ext2 entry_name entry_length name =
     (if unat entry_length \<noteq> length name then False
      else list_all (\<lambda>index. entry_name ! index = name ! index) [0..<length name])"

text \<open>The head of a directory record: its inode, its length and the length of its name.\<close>

definition dirent_head :: "u8 list \<Rightarrow> u32 \<times> u16 \<times> u8" where
  "dirent_head entry =
     (ucast (entry ! 0) OR push_bit 8 (ucast (entry ! 1)) OR push_bit 16 (ucast (entry ! 2)) OR
        push_bit 24 (ucast (entry ! 3)),
      ucast (entry ! EXT2_DIRENT_RECORD_LENGTH_OFFSET) OR
        push_bit 8 (ucast (entry ! (EXT2_DIRENT_RECORD_LENGTH_OFFSET + 1))),
      entry ! EXT2_DIRENT_NAME_LENGTH_OFFSET)"

text \<open>One turn of the search: the record's inode when it is the one looked for, and the record's length.\<close>

definition search_record :: "ext2_volume \<Rightarrow> ext2_file \<Rightarrow> str \<Rightarrow> u64 \<Rightarrow> (u32 option \<times> u16) option" where
  "search_record volume d name offset =
     do { let remaining = inode_size d - offset;
          ensure (\<not> remaining < EXT2_DIRENT_MIN_BYTES);
          entry \<leftarrow> read_blocks volume (inode_blocks d) offset EXT2_DIRENT_MIN_BYTES;
          let (inode, record, name_length) = dirent_head entry;
          ensure (\<not> (ucast record < EXT2_DIRENT_MIN_BYTES \<or> ucast record > remaining));
          ensure (\<not> EXT2_DIRENT_MIN_BYTES + ucast name_length > ucast record);
          if inode \<noteq> 0 \<and> unat name_length = length name then
            do { bytes \<leftarrow> read_blocks volume (inode_blocks d) (offset + EXT2_DIRENT_NAME_OFFSET) (ucast name_length);
                 Some (if name_matches_ext2 bytes name_length name then Some inode else None, record) }
          else Some (None, record) }"

lemma search_record_bounds:
  assumes "search_record v d name off = Some (r, record)"
  shows "8 \<le> unat record" "unat record \<le> unat (inode_size d - off)"
proof -
  obtain entry where "read_blocks v (inode_blocks d) off 8 = Some entry"
    using assms by (auto simp: search_record_def opt_bind Let_def)
  moreover obtain inode rlen n where "dirent_head entry = (inode, rlen, n)" by (metis prod_cases3)
  ultimately show "8 \<le> unat record" "unat record \<le> unat (inode_size d - off)"
    using assms by (auto simp: search_record_def opt_bind Let_def word_less_nat_alt not_less split: if_splits)
qed

function find_in_directory_ext2 :: "ext2_volume \<Rightarrow> ext2_file \<Rightarrow> str \<Rightarrow> u64 \<Rightarrow> u32 option" where
  "find_in_directory_ext2 volume d name offset =
     (if offset < inode_size d then
        case search_record volume d name offset of
          None \<Rightarrow> None
        | Some (Some inode, record) \<Rightarrow> Some inode
        | Some (None, record) \<Rightarrow> find_in_directory_ext2 volume d name (offset + ucast record)
      else None)"
  by pat_completeness auto
termination
proof (relation "measure (\<lambda>(volume, d, name, offset). unat (inode_size d - offset))", goal_cases)
  case (2 volume d name offset x a rlen)
  then have "search_record volume d name offset = Some (None, rlen)" by simp
  note b = search_record_bounds [OF this]
  have "inode_size d - (offset + ucast rlen) = (inode_size d - offset) - ucast rlen" by simp
  also have "unat \<dots> = unat (inode_size d - offset) - unat rlen"
    using b by (subst unat_sub_fits) (simp_all add: word_le_nat_alt)
  finally show ?case using b by simp
qed simp

declare find_in_directory_ext2.simps [simp del]

function open_from_ext2 :: "ext2_volume \<Rightarrow> str \<Rightarrow> nat \<Rightarrow> ext2_file \<Rightarrow> ext2_file option" where
  "open_from_ext2 volume path index current =
     (if path_at path index \<noteq> 0 then
        if index \<ge> EXT2_MAX_PATH_BYTES then None
        else if \<not> inode_directory current then None
        else
          let start = index;
              index = component_end path index;
              len = index - start
          in if len = 0 \<or> len > EXT2_MAX_NAME_BYTES then None
             else case find_in_directory_ext2 volume current (take len (drop start path)) 0 of
                    None \<Rightarrow> None
                  | Some inode \<Rightarrow>
                      (case read_inode volume inode of
                         None \<Rightarrow> None
                       | Some current \<Rightarrow> open_from_ext2 volume path (skip_separators path index) current)
      else Some current)"
  by pat_completeness auto
termination
proof (relation "measure (\<lambda>(volume, path, index, current). length path - index)", goal_cases)
  case (2 volume path index current)
  then have "index < length path" by (auto simp: path_at_def split: if_splits)
  moreover have "component_end path index > index" using 2 by simp
  ultimately show ?case using skip_separators_ge [of "component_end path index" path] 2 by simp
qed simp

declare open_from_ext2.simps [simp del]

definition ext2_open :: "ext2_volume \<Rightarrow> str \<Rightarrow> ext2_file option" where
  "ext2_open volume path =
     do { current \<leftarrow> read_inode volume EXT2_ROOT_INODE;
          ensure (inode_directory current);
          open_from_ext2 volume path (skip_separators path 0) current }"

subsection \<open>What a mounted volume promises\<close>

definition ext2_geometry :: "ext2_volume \<Rightarrow> bool" where
  "ext2_geometry v \<longleftrightarrow> block_device_valid (ext2_device v) \<and>
     1024 \<le> unat (block_bytes v) \<and> unat (block_bytes v) \<le> 65536 \<and> 4 dvd unat (block_bytes v) \<and>
     unat (pointers_per_block v) = unat (block_bytes v) div 4 \<and>
     (sector_count (ext2_device v) \<noteq> 0 \<and>
        unat (sector_count (ext2_device v)) * unat (sector_bytes (ext2_device v)) < 2 ^ 64 \<longrightarrow>
      unat (block_count v) * unat (block_bytes v) \<le>
        unat (sector_count (ext2_device v)) * unat (sector_bytes (ext2_device v)))"

lemma ext2_mount_geometry:
  assumes "ext2_mount d = Some v"
  shows "ext2_geometry v" "ext2_device v = d"
proof -
  from assms obtain s where valid: "block_device_valid d" and vs: "volume_of_super d s = Some v"
    by (auto simp: ext2_mount_def opt_bind)
  define k where "k = unat (sf_log_block_size s)"
  define bytes :: u32 where "bytes = push_bit k EXT2_MIN_BLOCK_BYTES"
  obtain vb where k: "k \<le> 6" and range: "\<not> (bytes < 1024 \<or> bytes > 65536)"
    and vb: "checked_mul_u64 (ucast (sf_block_count s)) (ucast bytes) = Some vb"
    and inside: "\<not> (sector_count d \<noteq> 0 \<and> vb > sector_count d * ucast (sector_bytes d))"
    and v: "block_bytes v = bytes" "pointers_per_block v = bytes div 4" "block_count v = sf_block_count s" "ext2_device v = d"
    using vs unfolding volume_of_super_def Let_def k_def [symmetric] bytes_def [symmetric]
    by (auto simp: opt_bind k_def word_less_nat_alt not_less)
  show "ext2_device v = d" by (rule v)
  have "unat bytes = 2 ^ k * 1024"
  proof -
    have "k \<in> {0,1,2,3,4,5,6}" using k by auto
    then show ?thesis by (auto simp: bytes_def push_bit_eq_mult)
  qed
  then have "4 dvd unat bytes" by simp
  moreover have "unat vb = unat (block_count v) * unat bytes" using vb v by (simp add: checked_Some)
  moreover have "unat (sector_count d * ucast (sector_bytes d)) = unat (sector_count d) * unat (sector_bytes d)"
    if "unat (sector_count d) * unat (sector_bytes d) < 2 ^ 64"
    using that by (subst unat_mult_fits) simp_all
  ultimately show "ext2_geometry v"
    using valid range inside v unfolding ext2_geometry_def
    by (auto simp add: word_less_nat_alt not_less unat_div)
qed

definition ext2_volume_ok :: "(nat \<Rightarrow> u8) \<Rightarrow> ext2_volume \<Rightarrow> bool" where
  "ext2_volume_ok disk v \<longleftrightarrow> ext2_geometry v \<and> sound_device (ext2_device v) disk"

text \<open>A device that answers every read inside it, and whose size in bytes is a 64-bit number.\<close>

definition ext2_ready :: "ext2_volume \<Rightarrow> bool" where
  "ext2_ready v \<longleftrightarrow> complete_device (ext2_device v) \<and> sector_count (ext2_device v) \<noteq> 0 \<and>
     unat (sector_count (ext2_device v)) * unat (sector_bytes (ext2_device v)) < 2 ^ 64"

definition valid_block :: "ext2_volume \<Rightarrow> u32 \<Rightarrow> bool" where
  "valid_block v b \<longleftrightarrow> b \<noteq> BLOCK_HOLE \<and> b < block_count v"

lemma block_offset_facts:
  assumes "ext2_geometry v"
  shows "block_offset v b = Some a \<Longrightarrow> unat a = unat b * unat (block_bytes v) \<and> valid_block v b"
    and "valid_block v b \<Longrightarrow> block_offset v b \<noteq> None"
proof -
  have "unat b * unat (block_bytes v) \<le> 2 ^ 32 * 65536"
    using assms unsigned_less [of b, where 'a = nat] by (intro mult_le_mono) (auto simp: ext2_geometry_def less_imp_le)
  then have "unat b * unat (block_bytes v) < 2 ^ 64" by (rule le_less_trans) simp
  then show "block_offset v b = Some a \<Longrightarrow> unat a = unat b * unat (block_bytes v) \<and> valid_block v b"
    "valid_block v b \<Longrightarrow> block_offset v b \<noteq> None"
    by (auto simp: block_offset_def valid_block_def checked_Some checked_mul_u64_def not_le unat_mult_fits split: if_splits)
qed

text \<open>Reads inside a valid block.\<close>

lemma read_block_facts:
  assumes "ext2_volume_ok disk v" "valid_block v b" "unat a = unat b * unat (block_bytes v) + off"
  shows "block_read_bytes (ext2_device v) a n = Some bs \<Longrightarrow>
      bs = image_bytes disk (unat b * unat (block_bytes v) + off) (unat n)"
    and "ext2_ready v \<Longrightarrow> off + unat n \<le> unat (block_bytes v) \<Longrightarrow> block_read_bytes (ext2_device v) a n \<noteq> None"
proof -
  have sound: "sound_device (ext2_device v) disk" and geo: "ext2_geometry v"
    using assms(1) by (simp_all add: ext2_volume_ok_def)
  show "block_read_bytes (ext2_device v) a n = Some bs \<Longrightarrow>
      bs = image_bytes disk (unat b * unat (block_bytes v) + off) (unat n)"
    using block_read_bytes_sound [OF sound, of a n bs] assms(3) by simp
  assume ready: "ext2_ready v" and fits: "off + unat n \<le> unat (block_bytes v)"
  have "(unat b + 1) * unat (block_bytes v) \<le> unat (block_count v) * unat (block_bytes v)"
    using assms(2) by (intro mult_le_mono1) (simp add: valid_block_def word_less_nat_alt)
  also have "\<dots> \<le> unat (sector_count (ext2_device v)) * unat (sector_bytes (ext2_device v))"
    using geo ready by (simp add: ext2_geometry_def ext2_ready_def)
  finally have "unat a + unat n \<le> unat (sector_count (ext2_device v)) * unat (sector_bytes (ext2_device v))"
    using assms(3) fits by simp
  then show "block_read_bytes (ext2_device v) a n \<noteq> None"
    using geo ready unfolding ext2_geometry_def ext2_ready_def
    by (intro block_read_bytes_total [OF sound]) auto
qed

subsection \<open>The block map as a tree\<close>

text \<open>The \<open>i\<close>-th pointer of a block, the tree of pointer blocks, and the block of a file's \<open>i\<close>-th block.\<close>

definition pointer_at :: "(nat \<Rightarrow> u8) \<Rightarrow> ext2_volume \<Rightarrow> u32 \<Rightarrow> nat \<Rightarrow> u32" where
  "pointer_at disk v b i = ucast (file_field disk (unat b * unat (block_bytes v) + 4 * i) 4)"

fun block_tree :: "(nat \<Rightarrow> u8) \<Rightarrow> ext2_volume \<Rightarrow> nat \<Rightarrow> u32 \<Rightarrow> nat \<Rightarrow> u32 option" where
  "block_tree disk v 0 b i = Some b"
| "block_tree disk v (Suc d) b i =
     (if b = BLOCK_HOLE then Some BLOCK_HOLE
      else if valid_block v b then
        block_tree disk v d (pointer_at disk v b (i div unat (pointers_per_block v) ^ d))
          (i mod unat (pointers_per_block v) ^ d)
      else None)"

definition block_map :: "(nat \<Rightarrow> u8) \<Rightarrow> ext2_volume \<Rightarrow> u32 list \<Rightarrow> nat \<Rightarrow> u32 option" where
  "block_map disk v blocks i =
     (let p = unat (pointers_per_block v)
      in if i < 12 then Some (blocks ! i)
         else if i - 12 < p then block_tree disk v 1 (blocks ! 12) (i - 12)
         else if i - 12 - p < p ^ 2 then block_tree disk v 2 (blocks ! 13) (i - 12 - p)
         else if i - 12 - p - p ^ 2 < p ^ 3 then block_tree disk v 3 (blocks ! 14) (i - 12 - p - p ^ 2)
         else None)"

lemma read_u32_at_facts:
  assumes "ext2_volume_ok disk v" "valid_block v b" "unat a = unat b * unat (block_bytes v) + 4 * i"
  shows "read_u32_at v a = Some x \<Longrightarrow> x = pointer_at disk v b i"
    and "ext2_ready v \<Longrightarrow> i < unat (pointers_per_block v) \<Longrightarrow> read_u32_at v a \<noteq> None"
proof -
  note rb = read_block_facts [OF assms, of 4]
  show "x = pointer_at disk v b i" if "read_u32_at v a = Some x"
  proof -
    from that obtain raw where r: "block_read_bytes (ext2_device v) a 4 = Some raw" "x = ucast (little_endian raw 4)"
      by (auto simp: read_u32_at_def opt_bind little_endian_4)
    with rb(1) show ?thesis by (simp add: pointer_at_def file_field_def)
  qed
  show "read_u32_at v a \<noteq> None" if "ext2_ready v" "i < unat (pointers_per_block v)"
  proof -
    have "4 * i + 4 \<le> unat (block_bytes v)"
      using that(2) assms(1) by (auto simp: ext2_volume_ok_def ext2_geometry_def)
    with rb(2) that show ?thesis by (auto simp: read_u32_at_def)
  qed
qed

lemma follow_pointers_facts:
  assumes "ext2_volume_ok disk v"
  shows "unat span = unat (pointers_per_block v) ^ d \<Longrightarrow> unat index < unat (pointers_per_block v) ^ d \<Longrightarrow>
    (\<forall>r. follow_pointers v b index span d = Some r \<longrightarrow> block_tree disk v d b (unat index) = Some r) \<and>
    (ext2_ready v \<and> block_tree disk v d b (unat index) \<noteq> None \<longrightarrow> follow_pointers v b index span d \<noteq> None)"
proof (induction d arbitrary: b index span)
  case (Suc d)
  let ?p = "unat (pointers_per_block v)"
  have geo: "ext2_geometry v" using assms by (simp add: ext2_volume_ok_def)
  have p: "0 < ?p" "4 * ?p = unat (block_bytes v)" using geo by (auto simp: ext2_geometry_def)
  define s where "s = span div ucast (pointers_per_block v)"
  have s: "unat s = ?p ^ d" using Suc.prems(1) p by (simp add: s_def unat_div)
  have idx: "unat (index mod s) = unat index mod ?p ^ d" "unat (index div s) = unat index div ?p ^ d"
    by (simp_all add: s unat_mod unat_div)
  have lt: "unat index mod ?p ^ d < ?p ^ d" using p by simp
  have w: "unat index div ?p ^ d < ?p"
    using Suc.prems(2) by (intro less_mult_imp_div_less) simp
  show ?case
  proof (cases "b = BLOCK_HOLE")
    case True
    then show ?thesis by simp
  next
    case False
    show ?thesis
    proof (cases "valid_block v b")
      case bad: False
      then have "follow_pointers v b index span (Suc d) = None"
        using False block_offset_facts(1) [OF geo, of b] by (auto simp: opt_bind Let_def simp flip: not_Some_eq)
      then show ?thesis using False bad by simp
    next
      case True
      obtain a where a: "block_offset v b = Some a" "unat a = unat b * unat (block_bytes v)"
        using block_offset_facts [OF geo] True by (metis option.exhaust)
      have w4: "unat (index div s * 4) = 4 * (unat index div ?p ^ d)"
      proof -
        have "unat index div ?p ^ d < 2 ^ 32" using w by (rule less_trans) simp
        then show ?thesis using idx by (subst unat_mult_fits) simp_all
      qed
      define t where "t = a + index div s * 4"
      have "unat b * unat (block_bytes v) + unat (block_bytes v) \<le> (2 ^ 32 + 1) * 65536"
        using geo unsigned_less [of b, where 'a = nat]
        by (subst add_mult_distrib) (intro add_mono mult_le_mono; auto simp: ext2_geometry_def less_imp_le)
      then have "unat a + unat (index div s * 4) \<le> (2 ^ 32 + 1) * 65536" using a(2) w4 w p by linarith
      then have fits: "unat a + unat (index div s * 4) < 2 ^ 64" by (rule le_less_trans) simp
      have t: "checked_add_u64 a (index div s * 4) = Some t"
        "unat t = unat b * unat (block_bytes v) + 4 * (unat index div ?p ^ d)"
        using fits a(2) w4 unfolding t_def by (simp_all add: checked_add_u64_def unat_add_fits)
      note ru = read_u32_at_facts [OF assms True t(2)]
      have run: "follow_pointers v b index span (Suc d) =
          (case read_u32_at v t of None \<Rightarrow> None | Some c \<Rightarrow> follow_pointers v c (index mod s) s d)"
        using False a t by (simp add: Let_def s_def [symmetric] split: option.split)
      show ?thesis
      proof (cases "read_u32_at v t")
        case None
        then show ?thesis using run ru(2) w by auto
      next
        case (Some c)
        note IH = Suc.IH [OF s, of "index mod s" c]
        have c: "c = pointer_at disk v b (unat index div ?p ^ d)" using ru(1) Some by simp
        have tree: "block_tree disk v (Suc d) b (unat index) = block_tree disk v d c (unat (index mod s))"
          using False True idx c by simp
        show ?thesis unfolding run tree using IH lt idx Some by simp
      qed
    qed
  qed
qed simp

lemma resolve_depth_step:
  assumes "unat span = p ^ d" "p = unat per_block" "p \<le> 2 ^ 14" "d \<le> 3"
  shows "unat index < p ^ d \<Longrightarrow> resolve_depth per_block index span d slot = Some (index, span, d, slot)"
    and "p ^ d \<le> unat index \<Longrightarrow> resolve_depth per_block index span d slot =
      resolve_depth per_block (index - span) (span * per_block) (d + 1) (slot + 1) \<and>
      unat (index - span) = unat index - p ^ d \<and> unat (span * per_block) = p ^ (d + 1)"
proof -
  show "unat index < p ^ d \<Longrightarrow> resolve_depth per_block index span d slot = Some (index, span, d, slot)"
    using assms by (subst resolve_depth.simps) (simp add: word_less_nat_alt)
  assume le: "p ^ d \<le> unat index"
  have "p ^ (d + 1) \<le> (2 ^ 14) ^ (d + 1)" using assms(3) by (rule power_mono) simp
  also have "\<dots> \<le> (2 ^ 14) ^ 4" using assms(4) by (intro power_increasing) simp_all
  finally have fits: "unat span * unat per_block < 2 ^ 64" using assms by (simp add: mult.commute)
  then have "unat (span * per_block) = p ^ (d + 1)" using assms by (subst unat_mult_fits) (simp_all add: mult.commute)
  moreover have "unat (index - span) = unat index - p ^ d"
    using le assms by (subst unat_sub_fits) (simp_all add: word_le_nat_alt)
  moreover have "resolve_depth per_block index span d slot =
      resolve_depth per_block (index - span) (span * per_block) (d + 1) (slot + 1)"
    using le assms fits by (subst resolve_depth.simps) (simp add: word_less_nat_alt checked_mul_u64_def)
  ultimately show "resolve_depth per_block index span d slot =
      resolve_depth per_block (index - span) (span * per_block) (d + 1) (slot + 1) \<and>
      unat (index - span) = unat index - p ^ d \<and> unat (span * per_block) = p ^ (d + 1)" by blast
qed

lemma resolve_block_facts:
  assumes "ext2_volume_ok disk v"
  shows "resolve_block v blocks index = Some r \<Longrightarrow> block_map disk v blocks (unat index) = Some r"
    and "ext2_ready v \<Longrightarrow> block_map disk v blocks (unat index) \<noteq> None \<Longrightarrow> resolve_block v blocks index \<noteq> None"
proof -
  let ?p = "unat (pointers_per_block v)" and ?w = "ucast (pointers_per_block v) :: u64"
  have geo: "ext2_geometry v" using assms by (simp add: ext2_volume_ok_def)
  then have p: "?p \<le> 2 ^ 14" by (auto simp: ext2_geometry_def)
  have "(\<forall>r. resolve_block v blocks index = Some r \<longrightarrow> block_map disk v blocks (unat index) = Some r) \<and>
    (ext2_ready v \<and> block_map disk v blocks (unat index) \<noteq> None \<longrightarrow> resolve_block v blocks index \<noteq> None)"
  proof (cases "unat index < 12")
    case True
    then show ?thesis by (simp add: resolve_block_def block_map_def word_less_nat_alt Let_def)
  next
    case False
    then have i: "unat (index - 12) = unat index - 12" by (subst unat_sub_fits) (simp_all add: word_le_nat_alt)
    have res: "resolve_block v blocks index = (case resolve_depth ?w (index - 12) ?w 1 12 of
        None \<Rightarrow> None | Some (index, span, depth, slot) \<Rightarrow>
          if depth \<le> 3 then follow_pointers v (blocks ! slot) index span depth else None)"
      using False
      by (simp add: resolve_block_def word_less_nat_alt Let_def bind_eq_None_conv split: option.split)
    note st = resolve_depth_step [where p = ?p and per_block = ?w, OF _ _ p]
    have w1: "unat ?w = ?p ^ 1" by simp
    note s1 = st [where span = ?w and d = 1 and slot = 12 and index = "index - 12", OF w1]
    let ?i2 = "index - 12 - ?w" and ?i3 = "index - 12 - ?w - ?w * ?w"
    have map: "block_map disk v blocks (unat index) =
      (if unat index - 12 < ?p then block_tree disk v 1 (blocks ! 12) (unat index - 12)
       else if unat index - 12 - ?p < ?p ^ 2 then block_tree disk v 2 (blocks ! 13) (unat index - 12 - ?p)
       else if unat index - 12 - ?p - ?p ^ 2 < ?p ^ 3
         then block_tree disk v 3 (blocks ! 14) (unat index - 12 - ?p - ?p ^ 2) else None)"
      using False by (simp add: block_map_def Let_def)
    consider (one) "unat index - 12 < ?p"
      | (two) "\<not> unat index - 12 < ?p" "unat index - 12 - ?p < ?p ^ 2"
      | (three) "\<not> unat index - 12 < ?p" "\<not> unat index - 12 - ?p < ?p ^ 2" "unat index - 12 - ?p - ?p ^ 2 < ?p ^ 3"
      | (out) "\<not> unat index - 12 < ?p" "\<not> unat index - 12 - ?p < ?p ^ 2" "\<not> unat index - 12 - ?p - ?p ^ 2 < ?p ^ 3"
      by blast
    then show ?thesis
    proof cases
      case one
      then have "resolve_depth ?w (index - 12) ?w 1 12 = Some (index - 12, ?w, 1, 12)"
        using s1(1) i by simp
      then show ?thesis
        using one follow_pointers_facts [OF assms, of ?w 1 "index - 12" "blocks ! 12"] i
        by (simp add: res map del: follow_pointers.simps block_tree.simps)
    next
      case two
      have a: "resolve_depth ?w (index - 12) ?w 1 12 = resolve_depth ?w ?i2 (?w * ?w) 2 13"
        "unat ?i2 = unat index - 12 - ?p" "unat (?w * ?w) = ?p ^ 2"
        using s1(2) two(1) i by (simp_all add: numeral_2_eq_2)
      have "resolve_depth ?w ?i2 (?w * ?w) 2 13 = Some (?i2, ?w * ?w, 2, 13)"
        using st(1) [OF a(3), of ?i2 13] a(2) two(2) by simp
      then show ?thesis
        using two a follow_pointers_facts [OF assms, of "?w * ?w" 2 ?i2 "blocks ! 13"]
        by (simp add: res map del: follow_pointers.simps block_tree.simps)
    next
      case three
      have a: "resolve_depth ?w (index - 12) ?w 1 12 = resolve_depth ?w ?i2 (?w * ?w) 2 13"
        "unat ?i2 = unat index - 12 - ?p" "unat (?w * ?w) = ?p ^ 2"
        using s1(2) three(1) i by (simp_all add: numeral_2_eq_2)
      have b: "resolve_depth ?w ?i2 (?w * ?w) 2 13 = resolve_depth ?w ?i3 (?w * ?w * ?w) 3 14"
        "unat ?i3 = unat index - 12 - ?p - ?p ^ 2" "unat (?w * ?w * ?w) = ?p ^ 3"
        using st(2) [OF a(3), of ?i2 13] a(2) three(2) by simp_all
      have "resolve_depth ?w ?i3 (?w * ?w * ?w) 3 14 = Some (?i3, ?w * ?w * ?w, 3, 14)"
        using st(1) [OF b(3), of ?i3 14] b(2) three(3) by simp
      then show ?thesis
        using three a b follow_pointers_facts [OF assms, of "?w * ?w * ?w" 3 ?i3 "blocks ! 14"]
        by (simp add: res map del: follow_pointers.simps block_tree.simps)
    next
      case out
      have a: "resolve_depth ?w (index - 12) ?w 1 12 = resolve_depth ?w ?i2 (?w * ?w) 2 13"
        "unat ?i2 = unat index - 12 - ?p" "unat (?w * ?w) = ?p ^ 2"
        using s1(2) out(1) i by (simp_all add: numeral_2_eq_2)
      have b: "resolve_depth ?w ?i2 (?w * ?w) 2 13 = resolve_depth ?w ?i3 (?w * ?w * ?w) 3 14"
        "unat ?i3 = unat index - 12 - ?p - ?p ^ 2" "unat (?w * ?w * ?w) = ?p ^ 3"
        using st(2) [OF a(3), of ?i2 13] a(2) out(2) by simp_all
      have "resolve_depth ?w ?i3 (?w * ?w * ?w) 3 14 =
          resolve_depth ?w (?i3 - ?w * ?w * ?w) (?w * ?w * ?w * ?w) 4 15"
        using st(2) [OF b(3), of ?i3 14] b(2) out(3) by simp
      then have "resolve_depth ?w (index - 12) ?w 1 12 =
          Some (?i3 - ?w * ?w * ?w, ?w * ?w * ?w * ?w, 4, 15)"
        using a b by (simp add: resolve_depth.simps [of _ _ _ 4])
      then show ?thesis using out by (simp add: res map)
    qed
  qed
  then show "resolve_block v blocks index = Some r \<Longrightarrow> block_map disk v blocks (unat index) = Some r"
    "ext2_ready v \<Longrightarrow> block_map disk v blocks (unat index) \<noteq> None \<Longrightarrow> resolve_block v blocks index \<noteq> None"
    by blast+
qed

subsection \<open>The bytes of a file\<close>

definition ext2_byte :: "(nat \<Rightarrow> u8) \<Rightarrow> ext2_volume \<Rightarrow> u32 list \<Rightarrow> nat \<Rightarrow> u8" where
  "ext2_byte disk v blocks i =
     (case block_map disk v blocks (i div unat (block_bytes v)) of
        None \<Rightarrow> 0
      | Some b \<Rightarrow> if b = BLOCK_HOLE then 0
                  else disk (unat b * unat (block_bytes v) + i mod unat (block_bytes v)))"

text \<open>Every block of the first \<open>n\<close> bytes is a hole or a block of the volume.\<close>

definition blocks_cover :: "(nat \<Rightarrow> u8) \<Rightarrow> ext2_volume \<Rightarrow> u32 list \<Rightarrow> nat \<Rightarrow> bool" where
  "blocks_cover disk v blocks n \<longleftrightarrow>
     (\<forall>j. j * unat (block_bytes v) < n \<longrightarrow>
        (\<exists>b. block_map disk v blocks j = Some b \<and> (b = BLOCK_HOLE \<or> valid_block v b)))"

lemma read_in_block_facts:
  assumes "ext2_volume_ok disk v" "block_map disk v blocks j = Some b" "unat into + unat n \<le> unat (block_bytes v)"
  shows "read_in_block v b into n = Some bs \<Longrightarrow>
      bs = map (ext2_byte disk v blocks) [j * unat (block_bytes v) + unat into ..< j * unat (block_bytes v) + unat into + unat n]"
    and "ext2_ready v \<Longrightarrow> b = BLOCK_HOLE \<or> valid_block v b \<Longrightarrow> read_in_block v b into n \<noteq> None"
proof -
  let ?bb = "unat (block_bytes v)"
  have geo: "ext2_geometry v" using assms(1) by (simp add: ext2_volume_ok_def)
  have byte: "ext2_byte disk v blocks (j * ?bb + unat into + i) =
      (if b = BLOCK_HOLE then 0 else disk (unat b * ?bb + (unat into + i)))" if "i < unat n" for i
  proof -
    have "(j * ?bb + (unat into + i)) div ?bb = j" "(j * ?bb + (unat into + i)) mod ?bb = unat into + i"
      using that assms(3) by (auto intro: div_nat_eqI)
    then show ?thesis using assms(2) by (simp add: ext2_byte_def add.assoc)
  qed
  have at': "unat (a + ucast into) = unat b * ?bb + unat into" "checked_add_u64 a (ucast into) = Some (a + ucast into)"
    "valid_block v b" if "block_offset v b = Some a" for a
  proof -
    have a: "unat a = unat b * ?bb" "valid_block v b" using block_offset_facts(1) [OF geo that] by simp_all
    have "unat b * ?bb + unat into \<le> 2 ^ 32 * 65536 + 2 ^ 32"
      using geo unsigned_less [of b, where 'a = nat] unsigned_less [of into, where 'a = nat]
      by (intro add_mono mult_le_mono) (auto simp: ext2_geometry_def less_imp_le)
    then have "unat a + unat into < 2 ^ 64" using a by simp
    then show "unat (a + ucast into) = unat b * ?bb + unat into" "checked_add_u64 a (ucast into) = Some (a + ucast into)"
      "valid_block v b" using a by (simp_all add: unat_add_fits checked_add_u64_def)
  qed
  show "bs = map (ext2_byte disk v blocks) [j * ?bb + unat into ..< j * ?bb + unat into + unat n]"
    if r: "read_in_block v b into n = Some bs"
  proof (cases "b = BLOCK_HOLE")
    case True
    then show ?thesis using r byte by (intro nth_equalityI) (auto simp: read_in_block_def)
  next
    case False
    then obtain a where a: "block_offset v b = Some a" "block_read_bytes (ext2_device v) (a + ucast into) n = Some bs"
      using r at' by (auto simp: read_in_block_def opt_bind)
    have "bs = image_bytes disk (unat b * ?bb + unat into) (unat n)"
      using read_block_facts(1) [OF assms(1) at'(3) [OF a(1)] at'(1) [OF a(1)] a(2)] .
    then show ?thesis using False byte by (intro nth_equalityI) (auto simp: image_bytes_def add.assoc)
  qed
  assume ready: "ext2_ready v" and b: "b = BLOCK_HOLE \<or> valid_block v b"
  show "read_in_block v b into n \<noteq> None"
  proof (cases "b = BLOCK_HOLE")
    case True
    then show ?thesis by (simp add: read_in_block_def)
  next
    case False
    then obtain a where a: "block_offset v b = Some a" using block_offset_facts(2) [OF geo] b by blast
    then show ?thesis
      using False read_block_facts(2) [OF assms(1) at'(3) [OF a] at'(1) [OF a] ready assms(3)] at'(2) [OF a]
      by (simp add: read_in_block_def)
  qed
qed

lemma read_blocks_facts:
  assumes "ext2_volume_ok disk v"
  shows "unat off + unat len < 2 ^ 64 \<Longrightarrow>
    (\<forall>bs. read_blocks v blocks off len = Some bs \<longrightarrow>
       bs = map (ext2_byte disk v blocks) [unat off ..< unat off + unat len]) \<and>
    (ext2_ready v \<and> blocks_cover disk v blocks (unat off + unat len) \<longrightarrow> read_blocks v blocks off len \<noteq> None)"
proof (induction "unat len" arbitrary: off len rule: less_induct)
  case less
  let ?bb = "unat (block_bytes v)"
  have geo: "ext2_geometry v" using assms by (simp add: ext2_volume_ok_def)
  then have bb: "0 < ?bb" "block_bytes v \<noteq> 0" by (auto simp: ext2_geometry_def)
  show ?case
  proof (cases "len > 0")
    case False
    then show ?thesis using bb by (simp add: read_blocks.simps [of _ _ off] word_gt_0)
  next
    case True
    then have pos: "0 < unat len" by (simp add: word_less_nat_alt)
    define index where "index = off div ucast (block_bytes v)"
    define into where "into = (ucast (off mod ucast (block_bytes v)) :: u32)"
    define n where "n = (if ucast (block_bytes v - into) < len then ucast (block_bytes v - into) else len)"
    have index: "unat index = unat off div ?bb" by (simp add: index_def unat_div)
    have "unat off mod ?bb < 2 ^ 32" using bb by (intro less_trans [OF mod_less_divisor]) simp_all
    then have into: "unat into = unat off mod ?bb" by (simp add: into_def unat_ucast_down unat_mod)
    have lt: "unat into < ?bb" using bb into by simp
    have off: "unat index * ?bb + unat into = unat off" using index into by simp
    have avail: "unat (block_bytes v - into) = ?bb - unat into"
      using lt by (subst unat_sub_fits) (simp_all add: word_le_nat_alt)
    have n: "unat n = min (?bb - unat into) (unat len)" unfolding n_def by (auto simp: word_less_nat_alt avail)
    have fit: "unat into + unat n \<le> ?bb" using n lt by linarith
    have npos: "0 < unat n" "unat n \<le> unat len" using n pos lt by simp_all
    have rest: "unat (len - n) = unat len - unat n" using n by (subst unat_sub_fits) (auto simp: word_le_nat_alt)
    have next': "unat (off + n) = unat off + unat n" using less.prems npos by (subst unat_add_fits) simp_all
    have run: "read_blocks v blocks off len =
      do { block \<leftarrow> resolve_block v blocks index; bytes \<leftarrow> read_in_block v block into n;
           rest \<leftarrow> read_blocks v blocks (off + n) (len - n); Some (bytes @ rest) }"
      unfolding index_def into_def n_def using True bb by (subst read_blocks.simps) (simp add: Let_def)
    note rb = resolve_block_facts [OF assms, of blocks index]
    have IH: "(\<forall>bs. read_blocks v blocks (off + n) (len - n) = Some bs \<longrightarrow>
       bs = map (ext2_byte disk v blocks) [unat off + unat n ..< unat off + unat len]) \<and>
      (ext2_ready v \<and> blocks_cover disk v blocks (unat off + unat len) \<longrightarrow> read_blocks v blocks (off + n) (len - n) \<noteq> None)"
      using less.hyps [of "len - n" "off + n"] rest next' npos less.prems by simp
    have split: "map (ext2_byte disk v blocks) [unat off ..< unat off + unat len] =
        map (ext2_byte disk v blocks) [unat off ..< unat off + unat n] @
        map (ext2_byte disk v blocks) [unat off + unat n ..< unat off + unat len]"
      unfolding map_append [symmetric] using npos by (subst upt_split [of _ "unat off + unat n"]) simp_all
    show ?thesis
    proof (intro conjI impI allI)
      fix bs assume "read_blocks v blocks off len = Some bs"
      then obtain block bytes more where
        b: "resolve_block v blocks index = Some block" "read_in_block v block into n = Some bytes"
        and m: "read_blocks v blocks (off + n) (len - n) = Some more" "bs = bytes @ more"
        by (auto simp: run opt_bind)
      have "bytes = map (ext2_byte disk v blocks) [unat off ..< unat off + unat n]"
        using read_in_block_facts(1) [OF assms rb(1) [OF b(1)] fit b(2)] off by simp
      then show "bs = map (ext2_byte disk v blocks) [unat off ..< unat off + unat len]"
        unfolding split using IH m by blast
    next
      assume a: "ext2_ready v \<and> blocks_cover disk v blocks (unat off + unat len)"
      have "unat index * ?bb < unat off + unat len" using off pos by linarith
      then obtain b where b: "block_map disk v blocks (unat index) = Some b" "b = BLOCK_HOLE \<or> valid_block v b"
        using a unfolding blocks_cover_def by blast
      then obtain b' where "resolve_block v blocks index = Some b'" using rb(2) a by blast
      then have rs: "resolve_block v blocks index = Some b" using rb(1) b by force
      obtain bytes where by': "read_in_block v b into n = Some bytes"
        using read_in_block_facts(2) [OF assms b(1) fit _ b(2)] a by blast
      obtain more where "read_blocks v blocks (off + n) (len - n) = Some more" using IH a by blast
      then show "read_blocks v blocks off len \<noteq> None" by (simp add: run rs by')
    qed
  qed
qed

text \<open>The content of a file, and a file whose block map names only holes and blocks of the volume.\<close>

definition ext2_content :: "(nat \<Rightarrow> u8) \<Rightarrow> ext2_volume \<Rightarrow> ext2_file \<Rightarrow> nat \<Rightarrow> u8" where
  "ext2_content disk v f = ext2_byte disk v (inode_blocks f)"

definition ext2_file_complete :: "(nat \<Rightarrow> u8) \<Rightarrow> ext2_volume \<Rightarrow> ext2_file \<Rightarrow> bool" where
  "ext2_file_complete disk v f \<longleftrightarrow> blocks_cover disk v (inode_blocks f) (unat (inode_size f))"

lemma ext2_read_facts:
  assumes "ext2_volume_ok disk v"
  shows "ext2_read v f off len = Some bytes \<Longrightarrow> \<not> inode_directory f \<and>
      bytes = image_bytes (ext2_content disk v f) (unat off) (unat len) \<and>
      (len \<noteq> 0 \<longrightarrow> unat off + unat len \<le> unat (inode_size f))"
    and "ext2_ready v \<Longrightarrow> ext2_file_complete disk v f \<Longrightarrow> \<not> inode_directory f \<Longrightarrow>
      unat off + unat len \<le> unat (inode_size f) \<Longrightarrow> ext2_read v f off len \<noteq> None"
proof -
  have inside: "checked_add_u64 off len = Some e \<Longrightarrow> (inode_size f < e) = (unat (inode_size f) < unat off + unat len)" for e
    by (simp add: checked_Some word_less_nat_alt)
  have fits: "unat off + unat len < 2 ^ 64" if "unat off + unat len \<le> unat (inode_size f)"
    using that by (rule le_less_trans) (use unsigned_less [of "inode_size f", where 'a = nat] in simp)
  note rb = read_blocks_facts [OF assms fits, of "inode_blocks f"]
  show "\<not> inode_directory f \<and> bytes = image_bytes (ext2_content disk v f) (unat off) (unat len) \<and>
      (len \<noteq> 0 \<longrightarrow> unat off + unat len \<le> unat (inode_size f))" if "ext2_read v f off len = Some bytes"
  proof (cases "len = 0")
    case True
    then show ?thesis using that by (auto simp: ext2_read_def split: if_splits)
  next
    case False
    then have "\<not> inode_directory f" "unat off + unat len \<le> unat (inode_size f)"
      "read_blocks v (inode_blocks f) off len = Some bytes"
      using that inside by (auto simp: ext2_read_def opt_bind not_less split: if_splits)
    then show ?thesis using rb by (simp add: image_bytes_def ext2_content_def)
  qed
  assume a: "ext2_ready v" "ext2_file_complete disk v f" "\<not> inode_directory f"
    "unat off + unat len \<le> unat (inode_size f)"
  then have "blocks_cover disk v (inode_blocks f) (unat off + unat len)"
    by (auto simp: ext2_file_complete_def blocks_cover_def)
  then have "read_blocks v (inode_blocks f) off len \<noteq> None" using rb [OF a(4)] a(1) by blast
  moreover obtain e where "checked_add_u64 off len = Some e" using fits [OF a(4)] by (simp add: checked_add_u64_def)
  ultimately show "ext2_read v f off len \<noteq> None" using a inside by (auto simp: ext2_read_def)
qed

text \<open>
  C24. A file of an ext2 volume reads as its block map says, through up to three levels of indirection: the
  bytes returned for a range are those of the mapped blocks, with zeros for the holes; a range that leaves
  the file is refused; and nothing else is, when the map names only holes and blocks of the volume and the
  device answers.
\<close>

theorem ext2_read_exact:
  assumes "ext2_volume_ok disk v" "ext2_ready v" "ext2_file_complete disk v f" "\<not> inode_directory f"
  shows "ext2_read v f off len =
    (if len = 0 \<or> unat off + unat len \<le> unat (inode_size f)
     then Some (image_bytes (ext2_content disk v f) (unat off) (unat len)) else None)"
proof (cases "len = 0")
  case True
  then show ?thesis using assms(4) by (simp add: ext2_read_def)
next
  case False
  then show ?thesis
    using ext2_read_facts [OF assms(1), of f off len] assms(2-4) by (cases "ext2_read v f off len") auto
qed

text \<open>
  On any ext2 volume that mounts, however corrupt its pointers, a read returns the bytes the block map
  names or nothing, and a block number is followed only when it is a block of the volume.
\<close>

theorem ext2_read_sound:
  assumes "ext2_mount d = Some v" "sound_device d disk" "ext2_read v f off len = Some bytes"
  shows "bytes = image_bytes (ext2_content disk v f) (unat off) (unat len) \<and>
    (len \<noteq> 0 \<longrightarrow> unat off + unat len \<le> unat (inode_size f))"
proof -
  have "ext2_volume_ok disk v" using ext2_mount_geometry [OF assms(1)] assms(2) by (simp add: ext2_volume_ok_def)
  from ext2_read_facts(1) [OF this assms(3)] show ?thesis by blast
qed


subsection \<open>A small volume\<close>

text \<open>Sixteen blocks; the file has block 5, holes, and block 7 behind the pointer block 6.\<close>

definition demo_ext2_disk :: "nat \<Rightarrow> u8" where
  "demo_ext2_disk a = (case map_of [(1024, 16), (1028, 16), (1044, 1), (1056, 8), (1064, 8), (1080, 0x53), (1081, 0xEF),
     (5120, 42), (6144, 7)] a of Some b \<Rightarrow> b | None \<Rightarrow> 0)"

definition demo_ext2_device :: block_device where
  "demo_ext2_device = \<lparr>read_sectors = (\<lambda>lba count. Some (image_bytes demo_ext2_disk (unat lba * 512) (unat count * 512))),
     sector_bytes = 512, sector_count = 32, torn_sector = (\<lambda>_. [])\<rparr>"

definition demo_ext2_volume :: ext2_volume where
  "demo_ext2_volume = \<lparr>ext2_device = demo_ext2_device, block_bytes = 1024, pointers_per_block = 256,
     blocks_per_group = 8, inodes_per_group = 8, inode_bytes = 128, block_count = 16, inode_count = 16,
     group_table_offset = 2048\<rparr>"

definition demo_ext2_file :: ext2_file where
  "demo_ext2_file = \<lparr>inode_size = 13312, inode_directory = False,
     inode_blocks = [5, 0, 0, 0, 0, 0, 0, 0, 0, 0, 0, 0, 6, 0, 0]\<rparr>"

lemma demo_ext2_device:
  "sound_device demo_ext2_device demo_ext2_disk" "complete_device demo_ext2_device" "block_device_valid demo_ext2_device"
  by (simp_all add: sound_device_def complete_device_def block_device_valid_def demo_ext2_device_def)

lemma demo_ext2_mount: "ext2_mount demo_ext2_device = Some demo_ext2_volume"
proof -
  have super: "block_read_bytes demo_ext2_device 1024 1024 = Some (image_bytes demo_ext2_disk 1024 1024)"
    using block_read_bytes_exact [OF demo_ext2_device, of 1024 1024] by (simp add: demo_ext2_device_def)
  have "read_super_fields (image_bytes demo_ext2_disk 1024 1024) =
      Some \<lparr>sf_inode_count = 16, sf_block_count = 16, sf_first_data_block = 1, sf_log_block_size = 0,
        sf_blocks_per_group = 8, sf_inodes_per_group = 8, sf_revision = 0, sf_inode_bytes_16 = 0, sf_incompatible = 0\<rparr>"
    by (simp add: read_super_fields_def reader_init_def reader_u16_def reader_u32_def reader_scalar_def
        reader_has_def rd_at_def reader_seek_def field_at field_at [of 0, simplified])
      (simp add: file_field_def image_bytes_def upt_rec little_endian_def push_bit_eq_mult demo_ext2_disk_def)
  then show ?thesis
    by (simp add: ext2_mount_def super demo_ext2_device volume_of_super_def checked_mul_u64_def demo_ext2_volume_def)
      (simp add: demo_ext2_device_def)
qed

lemma demo_ext2_volume: "ext2_volume_ok demo_ext2_disk demo_ext2_volume" "ext2_ready demo_ext2_volume"
  using ext2_mount_geometry [OF demo_ext2_mount] demo_ext2_device
  by (simp_all add: ext2_volume_ok_def ext2_ready_def demo_ext2_volume_def demo_ext2_device_def)

lemma demo_ext2_complete: "ext2_file_complete demo_ext2_disk demo_ext2_volume demo_ext2_file"
proof -
  have "pointer_at demo_ext2_disk demo_ext2_volume 6 0 = 7"
    by (simp add: pointer_at_def demo_ext2_volume_def file_field_def image_bytes_def upt_rec little_endian_def
        push_bit_eq_mult demo_ext2_disk_def)
  moreover have "valid_block demo_ext2_volume b" if "b \<in> {5, 6, 7}" for b
    using that by (auto simp: valid_block_def demo_ext2_volume_def)
  moreover have "\<exists>b. block_map demo_ext2_disk demo_ext2_volume (inode_blocks demo_ext2_file) j = Some b \<and>
      (b = BLOCK_HOLE \<or> valid_block demo_ext2_volume b)" if "j * 1024 < 13312" for j
  proof -
    have "j < 13" using that by simp
    then have "j \<in> {0, 1, 2, 3, 4, 5, 6, 7, 8, 9, 10, 11, 12}" unfolding insert_iff empty_iff by presburger
    then show ?thesis using calculation
      by (auto simp: block_map_def demo_ext2_file_def) (simp_all add: demo_ext2_volume_def)
  qed
  ultimately show ?thesis
    by (auto simp: ext2_file_complete_def blocks_cover_def demo_ext2_file_def) (simp_all add: demo_ext2_volume_def)
qed

theorem ext2_read_exact_witness:
  "ext2_read demo_ext2_volume demo_ext2_file 1000 12000 =
     Some (image_bytes (ext2_content demo_ext2_disk demo_ext2_volume demo_ext2_file) 1000 12000) \<and>
   ext2_read demo_ext2_volume demo_ext2_file 13000 1000 = None"
  using ext2_read_exact [OF demo_ext2_volume demo_ext2_complete, of 1000 12000]
    ext2_read_exact [OF demo_ext2_volume demo_ext2_complete, of 13000 1000]
  by (simp add: demo_ext2_file_def [THEN arg_cong, of inode_size] demo_ext2_file_def [THEN arg_cong, of inode_directory])

theorem ext2_read_sound_witness:
  "\<exists>bytes. ext2_read demo_ext2_volume demo_ext2_file 5 7 = Some bytes \<and>
     bytes = image_bytes (ext2_content demo_ext2_disk demo_ext2_volume demo_ext2_file) 5 7"
proof -
  obtain bytes where r: "ext2_read demo_ext2_volume demo_ext2_file 5 7 = Some bytes"
    using ext2_read_facts(2) [OF demo_ext2_volume demo_ext2_complete, of 5 7] by (auto simp: demo_ext2_file_def)
  from ext2_read_sound [OF demo_ext2_mount demo_ext2_device(1) r] r show ?thesis by simp
qed

subsection \<open>Files as sources of bytes\<close>

definition ext2_source_ok :: "ext2_volume \<times> ext2_file \<Rightarrow> bool" where
  "ext2_source_ok s = ext2_volume_ok (device_image (ext2_device (fst s))) (fst s)"

interpretation ext2_source: byte_source "\<lambda>(v, f) off n. ext2_read v f off n"
  "\<lambda>(v, f). ext2_content (device_image (ext2_device v)) v f" ext2_source_ok
  by unfold_locales (auto simp: ext2_source_ok_def dest: ext2_read_facts(1))

end
