(* ===== verification/Config.thy ===== *)
theory Config
  imports Log
begin

text \<open>
  \<open>src/config/config.c\<close>: the boot configuration. The file is a byte list; a \<open>struct str\<close> that points into
  it is the byte list it names, empty for the null one. The error the code writes through a pointer is
  the left side of the result, and the parsed configuration the right. The entry being filled is an
  index, as the code's \<open>current\<close> points into the array of entries.
\<close>

abbreviation (input) CONFIG_MAX_ENTRIES :: nat where "CONFIG_MAX_ENTRIES \<equiv> 16"
abbreviation (input) CONFIG_MAX_MODULES :: nat where "CONFIG_MAX_MODULES \<equiv> 8"
abbreviation (input) CONFIG_MAX_BYTES :: nat where "CONFIG_MAX_BYTES \<equiv> 65536"
abbreviation (input) CONFIG_MAX_LINE_BYTES :: nat where "CONFIG_MAX_LINE_BYTES \<equiv> 1024"
abbreviation (input) CONFIG_COMMENT_CHARACTER :: u8 where "CONFIG_COMMENT_CHARACTER \<equiv> of_char CHR ''#''"
abbreviation (input) CONFIG_ENTRY_CHARACTER :: u8 where "CONFIG_ENTRY_CHARACTER \<equiv> of_char CHR '':''"
abbreviation (input) CONFIG_ASSIGNMENT_CHARACTER :: u8 where "CONFIG_ASSIGNMENT_CHARACTER \<equiv> of_char CHR ''=''"
abbreviation (input) CONFIG_DEFAULT_TIMEOUT_SECONDS :: u64 where "CONFIG_DEFAULT_TIMEOUT_SECONDS \<equiv> 5"
abbreviation (input) CONFIG_MAX_TIMEOUT_SECONDS :: u64 where "CONFIG_MAX_TIMEOUT_SECONDS \<equiv> 3600"
abbreviation (input) NEWLINE :: u8 where "NEWLINE \<equiv> 10"
abbreviation (input) CARRIAGE_RETURN :: u8 where "CARRIAGE_RETURN \<equiv> 13"

record config_entry =
  entry_name :: str
  kernel :: str
  cmdline :: str
  modules :: "str list"

record config =
  timeout_seconds :: u64
  default_entry :: str
  config_entries :: "config_entry list"

record config_error =
  error_line :: nat
  error_reason :: string

definition fail :: "nat \<Rightarrow> string \<Rightarrow> config_error + 'a" where
  "fail line why = Inl \<lparr>error_line = line, error_reason = why\<rparr>"

text \<open>The next line, without its terminator, and the offset past it.\<close>

definition next_line :: "u8 list \<Rightarrow> nat \<Rightarrow> str \<times> nat" where
  "next_line tx offset =
     (let start = offset;
          end' = start + length (takeWhile (\<lambda>c. c \<noteq> NEWLINE) (drop start tx));
          offset = (if end' < length tx then end' + 1 else end');
          stop = (if end' > start \<and> tx ! (end' - 1) = CARRIAGE_RETURN then end' - 1 else end')
      in (take (stop - start) (drop start tx), offset))"

text \<open>The loop that looks for the separator, from \<open>index\<close> on.\<close>

function split_from :: "str \<Rightarrow> nat \<Rightarrow> (str \<times> str) option" where
  "split_from line index =
     (if index < length line then
        if line ! index \<noteq> CONFIG_ASSIGNMENT_CHARACTER then split_from line (index + 1)
        else
          let key = str_trim (str_slice line 0 index);
              value = str_trim (str_slice line (index + 1) (length line - index - 1))
          in if length key > 0 then Some (key, value) else None
      else None)"
  by pat_completeness auto
termination by (relation "measure (\<lambda>(line, index). length line - index)") auto

declare split_from.simps [simp del]

definition split_assignment :: "str \<Rightarrow> (str \<times> str) option" where
  "split_assignment line = split_from line 0"

definition apply_global :: "config \<Rightarrow> str \<Rightarrow> str \<Rightarrow> nat \<Rightarrow> config_error + config" where
  "apply_global c key value line =
     (if str_equal_cstr key (lit ''timeout'' @ [0]) then
        (case str_to_u64 value of
           None \<Rightarrow> fail line ''timeout is not a number''
         | Some n \<Rightarrow>
             if n > CONFIG_MAX_TIMEOUT_SECONDS then fail line ''timeout is longer than anyone will wait''
             else Inr (c\<lparr>timeout_seconds := n\<rparr>))
      else if str_equal_cstr key (lit ''default'' @ [0]) then Inr (c\<lparr>default_entry := value\<rparr>)
      else fail line ''unknown setting outside an entry'')"

definition apply_entry :: "config_entry \<Rightarrow> str \<Rightarrow> str \<Rightarrow> nat \<Rightarrow> config_error + config_entry" where
  "apply_entry e key value line =
     (if length value = 0 then fail line ''setting has no value''
      else if str_equal_cstr key (lit ''kernel'' @ [0]) then Inr (e\<lparr>kernel := value\<rparr>)
      else if str_equal_cstr key (lit ''cmdline'' @ [0]) then Inr (e\<lparr>cmdline := value\<rparr>)
      else if str_equal_cstr key (lit ''module'' @ [0]) then
        (if length (modules e) = CONFIG_MAX_MODULES then fail line ''too many modules in one entry''
         else Inr (e\<lparr>modules := modules e @ [value]\<rparr>))
      else fail line ''unknown setting in an entry'')"

definition clear_entry :: config_entry where
  "clear_entry = \<lparr>entry_name = [], kernel = [], cmdline = [], modules = []\<rparr>"

fun find_from :: "config_entry list \<Rightarrow> str \<Rightarrow> nat \<Rightarrow> nat option" where
  "find_from [] name index = None"
| "find_from (e # rest) name index =
     (if str_equal (entry_name e) name then Some index else find_from rest name (index + 1))"

text \<open>The entry of a name, as its index.\<close>

definition config_find :: "config \<Rightarrow> str \<Rightarrow> nat option" where
  "config_find c name = find_from (config_entries c) name 0"

text \<open>One line of the file, trimmed, on the configuration and the current entry.\<close>

definition parse_line :: "str \<Rightarrow> nat \<Rightarrow> config \<times> nat option \<Rightarrow> config_error + config \<times> nat option" where
  "parse_line line line_number = (\<lambda>(out, current).
     if length line = 0 then Inr (out, current)
     else if line ! 0 = CONFIG_COMMENT_CHARACTER then Inr (out, current)
     else if length line > CONFIG_MAX_LINE_BYTES then fail line_number ''line is too long''
     else if line ! 0 = CONFIG_ENTRY_CHARACTER then
       let name = str_trim (str_slice line 1 (length line - 1))
       in if length name = 0 then fail line_number ''entry has no name''
          else if length (config_entries out) = CONFIG_MAX_ENTRIES then fail line_number ''too many entries''
          else if config_find out name \<noteq> None then fail line_number ''an entry of this name already exists''
          else Inr (out\<lparr>config_entries := config_entries out @ [clear_entry\<lparr>entry_name := name\<rparr>]\<rparr>,
                    Some (length (config_entries out)))
     else
       case split_assignment line of
         None \<Rightarrow> fail line_number ''line is neither an entry nor a setting''
       | Some (key, value) \<Rightarrow>
           (case current of
              Some i \<Rightarrow>
                (case apply_entry (config_entries out ! i) key value line_number of
                   Inl err \<Rightarrow> Inl err
                 | Inr e \<Rightarrow> Inr (out\<lparr>config_entries := (config_entries out)[i := e]\<rparr>, current))
            | None \<Rightarrow>
                (case apply_global out key value line_number of
                   Inl err \<Rightarrow> Inl err
                 | Inr out \<Rightarrow> Inr (out, current))))"

lemma next_line_advances: "offset < length tx \<Longrightarrow> offset < snd (next_line tx offset) \<and> snd (next_line tx offset) \<le> length tx"
  using length_takeWhile_le [of "\<lambda>c. c \<noteq> NEWLINE" "drop offset tx"]
  by (auto simp: next_line_def Let_def)

function parse_lines :: "u8 list \<Rightarrow> nat \<Rightarrow> nat \<Rightarrow> config \<times> nat option \<Rightarrow> config_error + config \<times> nat option" where
  "parse_lines tx offset line_number state =
     (if offset < length tx then
        let line_number = line_number + 1
        in case parse_line (str_trim (fst (next_line tx offset))) line_number state of
             Inl err \<Rightarrow> Inl err
           | Inr state \<Rightarrow> parse_lines tx (snd (next_line tx offset)) line_number state
      else Inr state)"
  by pat_completeness auto
termination
  by (relation "measure (\<lambda>(tx, offset, line_number, state). length tx - offset)")
    (auto simp: next_line_advances diff_less_mono2)

declare parse_lines.simps [simp del]

definition config_parse :: "u8 list \<Rightarrow> config_error + config" where
  "config_parse tx =
     (if length tx > CONFIG_MAX_BYTES then fail 0 ''the file is larger than a configuration should ever be''
      else
        case parse_lines tx 0 0
          (\<lparr>timeout_seconds = CONFIG_DEFAULT_TIMEOUT_SECONDS, default_entry = [], config_entries = []\<rparr>, None) of
          Inl err \<Rightarrow> Inl err
        | Inr (out, current) \<Rightarrow>
            if list_ex (\<lambda>e. length (kernel e) = 0) (config_entries out) then fail 0 ''an entry has no kernel''
            else Inr out)"

definition config_default_entry :: "config \<Rightarrow> nat option" where
  "config_default_entry c =
     (if length (config_entries c) = 0 then None
      else if length (default_entry c) = 0 then Some 0
      else config_find c (default_entry c))"

subsection \<open>What a parsed configuration is\<close>

definition entry_wf :: "config_entry \<Rightarrow> bool" where
  "entry_wf e \<longleftrightarrow> entry_name e \<noteq> [] \<and> length (modules e) \<le> CONFIG_MAX_MODULES \<and> [] \<notin> set (modules e)"

definition config_wf :: "config \<Rightarrow> bool" where
  "config_wf c \<longleftrightarrow> timeout_seconds c \<le> CONFIG_MAX_TIMEOUT_SECONDS \<and>
     length (config_entries c) \<le> CONFIG_MAX_ENTRIES \<and>
     distinct (map entry_name (config_entries c)) \<and> list_all entry_wf (config_entries c)"

definition state_wf :: "config \<times> nat option \<Rightarrow> bool" where
  "state_wf s \<longleftrightarrow> config_wf (fst s) \<and> (\<forall>i. snd s = Some i \<longrightarrow> i < length (config_entries (fst s)))"

lemma find_from_eq:
  "find_from es name k = (if name \<in> set (map entry_name es)
     then Some (k + length (takeWhile (\<lambda>e. entry_name e \<noteq> name) es)) else None)"
  by (induction es arbitrary: k) auto

lemma config_find_None: "config_find c name = None \<longleftrightarrow> name \<notin> set (map entry_name (config_entries c))"
  by (simp add: config_find_def find_from_eq)

lemma config_find_Some:
  assumes "config_find c name = Some i"
  shows "i < length (config_entries c) \<and> entry_name (config_entries c ! i) = name"
proof -
  let ?t = "takeWhile (\<lambda>e. entry_name e \<noteq> name) (config_entries c)"
  have "name \<in> set (map entry_name (config_entries c))" and i: "i = length ?t"
    using assms by (auto simp: config_find_def find_from_eq split: if_splits)
  then have "?t \<noteq> config_entries c" by (metis (mono_tags, lifting) imageE list.set_map set_takeWhileD)
  then have "length ?t < length (config_entries c)"
    by (metis length_takeWhile_le le_neq_implies_less takeWhile_eq_take take_all_iff order_refl)
  with i show ?thesis using nth_length_takeWhile [of "\<lambda>e. entry_name e \<noteq> name" "config_entries c"] by simp
qed

lemma apply_global_wf: "config_wf c \<Longrightarrow> apply_global c key value n = Inr c' \<Longrightarrow>
   config_wf c' \<and> config_entries c' = config_entries c"
  by (auto simp: apply_global_def fail_def config_wf_def not_less split: if_splits option.splits)

lemma apply_entry_wf: "entry_wf e \<Longrightarrow> apply_entry e key value n = Inr e' \<Longrightarrow> entry_wf e' \<and> entry_name e' = entry_name e"
  by (auto simp: apply_entry_def fail_def entry_wf_def split: if_splits)

lemma parse_line_wf:
  assumes "state_wf s" "parse_line line n s = Inr s'"
  shows "state_wf s'"
proof -
  obtain out current where s: "s = (out, current)" by fastforce
  have wf: "config_wf out" "\<And>i. current = Some i \<Longrightarrow> i < length (config_entries out)"
    using assms(1) by (simp_all add: s state_wf_def)
  consider "s' = s"
    | name where "name \<noteq> []" "length (config_entries out) \<noteq> 16" "config_find out name = None"
      "s' = (out\<lparr>config_entries := config_entries out @ [clear_entry\<lparr>entry_name := name\<rparr>]\<rparr>, Some (length (config_entries out)))"
    | key val i e where "current = Some i" "apply_entry (config_entries out ! i) key val n = Inr e"
      "s' = (out\<lparr>config_entries := (config_entries out)[i := e]\<rparr>, current)"
    | key val out' where "current = None" "apply_global out key val n = Inr out'" "s' = (out', current)"
    using assms(2) unfolding s parse_line_def
    by (auto simp: Let_def fail_def split: if_splits option.splits sum.splits)
  then show ?thesis
  proof cases
    case 2
    then show ?thesis using wf
      by (auto simp: state_wf_def config_wf_def entry_wf_def clear_entry_def config_find_None)
  next
    case (3 key val i e)
    have i: "i < length (config_entries out)" using wf 3 by blast
    then have "entry_wf (config_entries out ! i)" using wf(1) by (simp add: config_wf_def list_all_length)
    from apply_entry_wf [OF this 3(2)] i
    have "entry_wf e" "map entry_name ((config_entries out)[i := e]) = map entry_name (config_entries out)"
      by (simp_all add: map_update list_update_same_conv)
    then show ?thesis using wf 3 i
      by (auto simp: state_wf_def config_wf_def list_all_iff dest!: set_update_subset_insert [THEN subsetD])
  next
    case 4
    then show ?thesis using apply_global_wf wf by (auto simp: state_wf_def)
  qed (use assms(1) in simp)
qed

lemma parse_lines_wf: "parse_lines tx off n s = Inr s' \<Longrightarrow> state_wf s \<Longrightarrow> state_wf s'"
proof (induction tx off n s rule: parse_lines.induct)
  case (1 tx off n s)
  show ?case
  proof (cases "off < length tx")
    case True
    then obtain m where "parse_line (str_trim (fst (next_line tx off))) (n + 1) s = Inr m"
      and "parse_lines tx (snd (next_line tx off)) (n + 1) m = Inr s'"
      using "1.prems"(1) parse_lines.simps [of tx off n s] by (auto simp: Let_def split: sum.splits)
    with 1 True show ?thesis using parse_line_wf by blast
  next
    case False
    with "1.prems" show ?thesis by (simp add: parse_lines.simps)
  qed
qed

lemma config_find_nth:
  assumes "config_wf c" "i < length (config_entries c)"
  shows "config_find c (entry_name (config_entries c ! i)) = Some i"
proof -
  let ?names = "map entry_name (config_entries c)"
  have "entry_name (config_entries c ! i) \<in> set ?names" using assms(2) by simp
  then obtain j where j: "config_find c (entry_name (config_entries c ! i)) = Some j"
    using config_find_None [of c "entry_name (config_entries c ! i)"] by (cases "config_find c (entry_name (config_entries c ! i))") blast+
  from config_find_Some [OF j] have "j < length ?names" "?names ! j = ?names ! i" using assms(2) by simp_all
  moreover have "distinct ?names" using assms(1) by (simp add: config_wf_def)
  ultimately have "j = i" using nth_eq_iff_index_eq assms(2) by (metis length_map)
  with j show ?thesis by simp
qed

lemma config_parse_cases:
  assumes "config_parse tx = Inr c"
  obtains current where "parse_lines tx 0 0
      (\<lparr>timeout_seconds = CONFIG_DEFAULT_TIMEOUT_SECONDS, default_entry = [], config_entries = []\<rparr>, None) = Inr (c, current)"
    "list_all (\<lambda>e. kernel e \<noteq> []) (config_entries c)"
  using assms by (auto simp: config_parse_def fail_def list_ex_iff list_all_iff split: if_splits sum.splits)

lemma initial_state_wf: "state_wf (\<lparr>timeout_seconds = 5, default_entry = [], config_entries = []\<rparr>, None)"
  by (simp add: state_wf_def config_wf_def)

lemma config_parse_checked:
  assumes "config_parse tx = Inr c"
  shows "config_wf c \<and> list_all (\<lambda>e. kernel e \<noteq> []) (config_entries c) \<and>
    (\<forall>i < length (config_entries c). config_find c (entry_name (config_entries c ! i)) = Some i)"
proof -
  from config_parse_cases [OF assms] obtain current where
    p: "parse_lines tx 0 0 (\<lparr>timeout_seconds = 5, default_entry = [], config_entries = []\<rparr>, None) = Inr (c, current)"
    and k: "list_all (\<lambda>e. kernel e \<noteq> []) (config_entries c)" by blast
  have "config_wf c" using parse_lines_wf [OF p initial_state_wf] by (simp add: state_wf_def)
  with k show ?thesis using config_find_nth by blast
qed

text \<open>
  C25. A configuration that parses is one that can be booted from: at most 16 entries with different,
  non-empty names, each with a kernel and at most 8 modules, none of them empty, and a timeout nobody
  waits more than an hour for. Every entry is the one \<open>config_find\<close> finds under its name.
\<close>

theorem config_parse_wf:
  assumes "config_parse tx = Inr c"
  shows "config_wf c \<and> list_all (\<lambda>e. kernel e \<noteq> []) (config_entries c) \<and>
    (\<forall>i < length (config_entries c). config_find c (entry_name (config_entries c ! i)) = Some i)"
  by (rule config_parse_checked [OF assms])

subsection \<open>A printed configuration parses back\<close>

definition setting :: "string \<Rightarrow> str \<Rightarrow> str" where
  "setting key val = lit key @ lit '' = '' @ val"

definition entry_lines :: "config_entry \<Rightarrow> str list" where
  "entry_lines e = ([CONFIG_ENTRY_CHARACTER] @ entry_name e) # setting ''kernel'' (kernel e) #
     (if cmdline e = [] then [] else [setting ''cmdline'' (cmdline e)]) @ map (setting ''module'') (modules e)"

definition config_lines :: "config \<Rightarrow> str list" where
  "config_lines c = setting ''timeout'' (unsigned_text (timeout_seconds c) 10) #
     (if default_entry c = [] then [] else [setting ''default'' (default_entry c)]) @
     concat (map entry_lines (config_entries c))"

definition print_lines :: "str list \<Rightarrow> u8 list" where
  "print_lines ls = concat (map (\<lambda>l. l @ [NEWLINE]) ls)"

definition print_config :: "config \<Rightarrow> u8 list" where
  "print_config c = print_lines (config_lines c)"

text \<open>A text that a line can carry: no newline in it and no blank at its ends.\<close>

definition clean :: "str \<Rightarrow> bool" where
  "clean v \<longleftrightarrow> NEWLINE \<notin> set v \<and> v \<noteq> [] \<and> \<not> is_space (hd v) \<and> \<not> is_space (last v) \<and>
     length v \<le> CONFIG_MAX_LINE_BYTES - 16"

definition entry_printable :: "config_entry \<Rightarrow> bool" where
  "entry_printable e \<longleftrightarrow> clean (entry_name e) \<and> clean (kernel e) \<and> (cmdline e = [] \<or> clean (cmdline e)) \<and>
     list_all clean (modules e)"

definition config_printable :: "config \<Rightarrow> bool" where
  "config_printable c \<longleftrightarrow> (default_entry c = [] \<or> clean (default_entry c)) \<and>
     list_all entry_printable (config_entries c) \<and> length (print_config c) \<le> CONFIG_MAX_BYTES"

fun run_lines :: "str list \<Rightarrow> nat \<Rightarrow> config \<times> nat option \<Rightarrow> config_error + config \<times> nat option" where
  "run_lines [] n s = Inr s"
| "run_lines (l # ls) n s = (case parse_line l (n + 1) s of Inl err \<Rightarrow> Inl err | Inr s \<Rightarrow> run_lines ls (n + 1) s)"

definition line_clean :: "str \<Rightarrow> bool" where
  "line_clean l \<longleftrightarrow> NEWLINE \<notin> set l \<and> l \<noteq> [] \<and> \<not> is_space (hd l) \<and> \<not> is_space (last l)"

lemma next_line_print:
  assumes "drop off tx = l @ NEWLINE # rest" "line_clean l"
  shows "next_line tx off = (l, off + length l + 1)"
proof -
  have off: "off \<le> length tx" using assms(1) by (cases "off \<le> length tx") auto
  have len: "length tx = off + length l + 1 + length rest"
    using off arg_cong [OF assms(1), of length] by simp
  have tw: "takeWhile (\<lambda>c. c \<noteq> NEWLINE) (drop off tx) = l"
    using assms by (subst assms(1), subst takeWhile_append2) (auto simp: line_clean_def)
  have "tx ! (off + length l - 1) = drop off tx ! (length l - 1)"
    using assms(2) off by (cases l) (auto simp: line_clean_def)
  also have "\<dots> = last l" using assms by (simp add: line_clean_def last_conv_nth nth_append)
  finally have "tx ! (off + length l - 1) \<noteq> CARRIAGE_RETURN"
    using assms(2) by (auto simp: line_clean_def is_space_def)
  then show ?thesis using tw len by (simp add: next_line_def Let_def assms(1))
qed

lemma parse_lines_print:
  assumes "drop off tx = print_lines ls" "off \<le> length tx" "list_all line_clean ls"
  shows "parse_lines tx off n s = run_lines ls n s"
  using assms
proof (induction ls arbitrary: off n s)
  case Nil
  then show ?case by (simp add: parse_lines.simps print_lines_def)
next
  case (Cons l ls)
  have d: "drop off tx = l @ NEWLINE # print_lines ls" using Cons.prems(1) by (simp add: print_lines_def)
  have nl: "next_line tx off = (l, off + length l + 1)" using next_line_print [OF d] Cons.prems(3) by simp
  have "off < length tx" using d Cons.prems(2) by (cases "off = length tx") auto
  moreover have "drop (off + length l + 1) tx = print_lines ls"
    using arg_cong [OF d, of "drop (length l + 1)"] by (simp add: add.commute add.left_commute)
  moreover have "off + length l + 1 \<le> length tx"
    using arg_cong [OF d, of length] Cons.prems(2) by simp
  moreover have "str_trim l = l" using Cons.prems(3) by (simp add: line_clean_def str_trim_id)
  ultimately show ?case
    using Cons.IH Cons.prems(3) parse_lines.simps [of tx off n s] nl by (simp add: Let_def split: sum.split)
qed

lemma run_lines_append:
  "run_lines (ls @ ms) n s =
     (case run_lines ls n s of Inl err \<Rightarrow> Inl err | Inr s' \<Rightarrow> run_lines ms (n + length ls) s')"
  by (induction ls arbitrary: n s) (auto split: sum.split)

lemma split_from_first:
  assumes "CONFIG_ASSIGNMENT_CHARACTER \<notin> set k" "i \<le> length k"
  shows "split_from (k @ CONFIG_ASSIGNMENT_CHARACTER # r) i =
    (if str_trim k = [] then None else Some (str_trim k, str_trim r))"
  using assms(2)
proof (induction "length k - i" arbitrary: i)
  case 0
  then have "i = length k" by linarith
  then show ?case by (subst split_from.simps) (simp add: str_slice_eq Let_def)
next
  case (Suc n)
  then have i: "i < length k" by linarith
  then have "k ! i \<noteq> CONFIG_ASSIGNMENT_CHARACTER" using assms(1) nth_mem by metis
  then show ?case using Suc i by (subst split_from.simps) (auto simp: nth_append)
qed

lemma trim_space:
  assumes "\<not> is_space (hd v)" "\<not> is_space (last v)" "v \<noteq> []"
  shows "str_trim (of_char CHR '' '' # v) = v" "str_trim (v @ [of_char CHR '' '']) = v"
proof -
  have sp: "is_space (of_char CHR '' '')" by code_simp
  have "str_trim x = v" if x: "x = a @ v @ b" and ab: "\<forall>c \<in> set (a @ b). is_space c" for x a b
  proof -
    obtain pre post where s: "x = pre @ str_trim x @ post" "\<forall>c \<in> set pre. is_space c" "\<forall>c \<in> set post. is_space c"
      "str_trim x \<noteq> [] \<Longrightarrow> \<not> is_space (hd (str_trim x)) \<and> \<not> is_space (last (str_trim x))"
      by (rule str_trim_spec [of x]) blast
    have ne: "str_trim x \<noteq> []"
    proof
      assume e: "str_trim x = []"
      have "hd v \<in> set x" using x assms(3) by simp
      then have "hd v \<in> set pre \<union> set post" using s(1) e by (metis append_Nil set_append)
      then show False using s assms(1) by blast
    qed
    have tw: "takeWhile is_space (l @ m) = l" if "\<forall>c \<in> set l. is_space c" "m \<noteq> []" "\<not> is_space (hd m)" for l m
      using that by (cases m) (simp_all add: takeWhile_append2)
    have "takeWhile is_space x = a" using tw [of a "v @ b"] assms x ab by simp
    moreover have "takeWhile is_space x = pre" using tw [of pre "str_trim x @ post"] s ne by simp
    moreover have "takeWhile is_space (rev x) = rev b"
      using tw [of "rev b" "rev (a @ v)"] assms x ab by (simp add: hd_rev)
    moreover have "takeWhile is_space (rev x) = rev post"
      using tw [of "rev post" "rev (pre @ str_trim x)"] s ne
      by (metis hd_append2 hd_rev rev_append rev_is_Nil_conv set_rev append.assoc append_is_Nil_conv)
    ultimately have "a = pre" "b = post" by simp_all
    with x s(1) show ?thesis by (metis append_same_eq same_append_eq)
  qed
  from this [of "of_char CHR '' '' # v" "[of_char CHR '' '']" "[]"]
    this [of "v @ [of_char CHR '' '']" "[]" "[of_char CHR '' '']"] sp
  show "str_trim (of_char CHR '' '' # v) = v" "str_trim (v @ [of_char CHR '' '']) = v" by simp_all
qed

abbreviation (input) setting_keys :: "string set" where
  "setting_keys \<equiv> {''timeout'', ''default'', ''kernel'', ''cmdline'', ''module''}"

lemma setting_key_facts:
  assumes "key \<in> setting_keys"
  shows "CONFIG_ASSIGNMENT_CHARACTER \<notin> set (lit key)" "lit key \<noteq> []" "\<not> is_space (hd (lit key))"
    "\<not> is_space (last (lit key))" "hd (lit key) \<noteq> CONFIG_COMMENT_CHARACTER" "hd (lit key) \<noteq> CONFIG_ENTRY_CHARACTER"
    "length (lit key) \<le> 7" "NEWLINE \<notin> set (lit key)" "str_from_cstr (lit key @ [0]) = lit key"
proof -
  have "\<forall>key \<in> setting_keys. CONFIG_ASSIGNMENT_CHARACTER \<notin> set (lit key) \<and> lit key \<noteq> [] \<and>
    \<not> is_space (hd (lit key)) \<and> \<not> is_space (last (lit key)) \<and> hd (lit key) \<noteq> CONFIG_COMMENT_CHARACTER \<and>
    hd (lit key) \<noteq> CONFIG_ENTRY_CHARACTER \<and> length (lit key) \<le> 7 \<and> NEWLINE \<notin> set (lit key) \<and>
    str_from_cstr (lit key @ [0]) = lit key" by code_simp
  note all = bspec [OF this assms]
  show "CONFIG_ASSIGNMENT_CHARACTER \<notin> set (lit key)" "lit key \<noteq> []" "\<not> is_space (hd (lit key))"
    "\<not> is_space (last (lit key))" "hd (lit key) \<noteq> CONFIG_COMMENT_CHARACTER" "hd (lit key) \<noteq> CONFIG_ENTRY_CHARACTER"
    "length (lit key) \<le> 7" "NEWLINE \<notin> set (lit key)" "str_from_cstr (lit key @ [0]) = lit key" by (simp_all only: all simp_thms)
qed

lemma lit_assignment: "lit '' = '' = [of_char CHR '' '', CONFIG_ASSIGNMENT_CHARACTER, of_char CHR '' '']" by simp

lemma setting_line:
  assumes "key \<in> setting_keys" "clean v"
  shows "line_clean (setting key v)" "split_assignment (setting key v) = Some (lit key, v)"
    "setting key v \<noteq> []" "setting key v ! 0 \<noteq> CONFIG_COMMENT_CHARACTER"
    "setting key v ! 0 \<noteq> CONFIG_ENTRY_CHARACTER" "length (setting key v) \<le> CONFIG_MAX_LINE_BYTES"
proof -
  note k = setting_key_facts [OF assms(1)]
  have v: "NEWLINE \<notin> set v" "v \<noteq> []" "\<not> is_space (hd v)" "\<not> is_space (last v)" "length v \<le> 1008"
    using assms(2) by (auto simp: clean_def)
  have nl: "NEWLINE \<notin> set (lit '' = '')" by code_simp
  show "line_clean (setting key v)" using k v nl by (auto simp: line_clean_def setting_def)
  have "setting key v ! 0 = hd (lit key)" using k(2) by (cases key) (simp_all add: setting_def)
  then show "setting key v ! 0 \<noteq> CONFIG_COMMENT_CHARACTER" "setting key v ! 0 \<noteq> CONFIG_ENTRY_CHARACTER"
    using k by simp_all
  show "setting key v \<noteq> []" "length (setting key v) \<le> CONFIG_MAX_LINE_BYTES"
    using k v by (simp_all add: setting_def)
  have "setting key v = (lit key @ [of_char CHR '' '']) @ CONFIG_ASSIGNMENT_CHARACTER # (of_char CHR '' '' # v)"
    by (simp add: setting_def)
  then show "split_assignment (setting key v) = Some (lit key, v)"
    using split_from_first [of "lit key @ [of_char CHR '' '']" 0 "of_char CHR '' '' # v"]
      trim_space [OF v(3,4,2)] trim_space [OF k(3,4,2)] k(1,2)
    by (simp add: split_assignment_def)
qed

lemma parse_line_setting:
  assumes "key \<in> setting_keys" "clean v"
  shows "parse_line (setting key v) n (out, current) =
    (case current of
       Some i \<Rightarrow>
         (case apply_entry (config_entries out ! i) (lit key) v n of
            Inl err \<Rightarrow> Inl err
          | Inr e \<Rightarrow> Inr (out\<lparr>config_entries := (config_entries out)[i := e]\<rparr>, current))
     | None \<Rightarrow>
         (case apply_global out (lit key) v n of Inl err \<Rightarrow> Inl err | Inr out \<Rightarrow> Inr (out, current)))"
  using setting_line [OF assms] by (simp add: parse_line_def)

lemma setting_key_eqs:
  "str_equal_cstr (lit k) (lit k' @ [0]) \<longleftrightarrow> k = k'" if "k \<in> setting_keys" "k' \<in> setting_keys"
proof -
  have "\<forall>k \<in> setting_keys. \<forall>k' \<in> setting_keys. str_equal_cstr (lit k) (lit k' @ [0]) = (k = k')"
    by code_simp
  from bspec [OF bspec [OF this that(1)] that(2)] show ?thesis .
qed

lemma apply_entry_settings:
  assumes "v \<noteq> []"
  shows "apply_entry e (lit ''kernel'') v n = Inr (e\<lparr>kernel := v\<rparr>)"
    "apply_entry e (lit ''cmdline'') v n = Inr (e\<lparr>cmdline := v\<rparr>)"
    "length (modules e) \<noteq> CONFIG_MAX_MODULES \<Longrightarrow>
       apply_entry e (lit ''module'') v n = Inr (e\<lparr>modules := modules e @ [v]\<rparr>)"
  unfolding apply_entry_def using assms
  by (simp_all only: setting_key_eqs insert_iff simp_thms) simp_all

lemma apply_global_settings:
  shows "apply_global c (lit ''default'') v n = Inr (c\<lparr>default_entry := v\<rparr>)"
    "str_to_u64 v = Some t \<Longrightarrow> t \<le> CONFIG_MAX_TIMEOUT_SECONDS \<Longrightarrow>
       apply_global c (lit ''timeout'') v n = Inr (c\<lparr>timeout_seconds := t\<rparr>)"
  unfolding apply_global_def
  by (simp_all only: setting_key_eqs insert_iff simp_thms) (simp_all add: leD)

lemma clean_nonempty: "clean v \<Longrightarrow> v \<noteq> []"
  by (simp add: clean_def)

lemma parse_setting_lines:
  assumes v: "clean v"
  shows "parse_line (setting ''kernel'' v) n (out, Some i) =
      Inr (out\<lparr>config_entries := (config_entries out)[i := (config_entries out ! i)\<lparr>kernel := v\<rparr>]\<rparr>, Some i)"
    "parse_line (setting ''cmdline'' v) n (out, Some i) =
      Inr (out\<lparr>config_entries := (config_entries out)[i := (config_entries out ! i)\<lparr>cmdline := v\<rparr>]\<rparr>, Some i)"
    "length (modules (config_entries out ! i)) \<noteq> CONFIG_MAX_MODULES \<Longrightarrow>
      parse_line (setting ''module'' v) n (out, Some i) =
      Inr (out\<lparr>config_entries := (config_entries out)[i := (config_entries out ! i)\<lparr>modules := modules (config_entries out ! i) @ [v]\<rparr>]\<rparr>, Some i)"
    "parse_line (setting ''default'' v) n (out, None) = Inr (out\<lparr>default_entry := v\<rparr>, None)"
    "str_to_u64 v = Some t \<Longrightarrow> t \<le> CONFIG_MAX_TIMEOUT_SECONDS \<Longrightarrow>
      parse_line (setting ''timeout'' v) n (out, None) = Inr (out\<lparr>timeout_seconds := t\<rparr>, None)"
  by (simp_all only: parse_line_setting [OF _ v] apply_entry_settings [OF clean_nonempty [OF v]] apply_global_settings
      insert_iff simp_thms option.case sum.case)

lemma unsigned_text_clean:
  "clean (unsigned_text t 10) \<and> str_to_u64 (unsigned_text t 10) = Some t"
proof -
  note ten = unsigned_text_value [of 10 t, simplified]
  have "digits_value 10 a tx = Some m \<Longrightarrow> c \<in> set tx \<Longrightarrow> digit_of 10 c \<noteq> None" for a tx c m
    by (induction tx arbitrary: a) (auto split: option.splits)
  then have "c \<in> set (unsigned_text t 10) \<Longrightarrow> c \<in> set (map fst digit_chars)" for c
    using ten(1) by (fastforce simp: digit_of_def map_of_eq_None_iff split: option.splits dest: map_of_SomeD)
  moreover have "\<forall>c \<in> set (map fst digit_chars). c \<noteq> NEWLINE \<and> \<not> is_space c" by code_simp
  ultimately have c: "\<forall>c \<in> set (unsigned_text t 10). c \<noteq> NEWLINE \<and> \<not> is_space c" by blast
  then have "clean (unsigned_text t 10)" using ten(2,3) by (auto simp: clean_def)
  moreover have "numeral_value (unsigned_text t 10) = Some (unat t)"
    using decimal_not_hex [OF ten(1)] ten(1,3) unfolding numeral_value_def by (simp only: if_False)
  then have "map_option unat (str_to_u64 (unsigned_text t 10)) = Some (unat t)"
    by (simp only: str_to_u64_exact_eq) simp_all
  then have "str_to_u64 (unsigned_text t 10) = Some t" by (auto dest: unat_inj)
  ultimately show ?thesis by simp
qed

text \<open>The lines of one entry add that entry.\<close>

lemma run_modules:
  assumes "list_all clean ms" "i < length (config_entries c)"
    "length (modules (config_entries c ! i)) + length ms \<le> CONFIG_MAX_MODULES"
  shows "run_lines (map (setting ''module'') ms) n (c, Some i) =
    Inr (c\<lparr>config_entries := (config_entries c)[i := (config_entries c ! i)\<lparr>modules := modules (config_entries c ! i) @ ms\<rparr>]\<rparr>, Some i)"
  using assms
proof (induction ms arbitrary: n c)
  case Nil
  then show ?case by simp
next
  case (Cons m ms)
  let ?e = "config_entries c ! i"
  let ?c = "c\<lparr>config_entries := (config_entries c)[i := ?e\<lparr>modules := modules ?e @ [m]\<rparr>]\<rparr>"
  have m: "clean m" "m \<noteq> []" using Cons.prems by (auto simp: clean_def)
  have "parse_line (setting ''module'' m) (n + 1) (c, Some i) = Inr (?c, Some i)"
    using Cons.prems m by (simp add: parse_setting_lines)
  then show ?case using Cons.IH [of ?c "n + 1"] Cons.prems by simp
qed

lemma run_entry:
  assumes "entry_printable e" "length (modules e) \<le> CONFIG_MAX_MODULES"
    "length (config_entries c) < CONFIG_MAX_ENTRIES" "entry_name e \<notin> set (map entry_name (config_entries c))"
  shows "run_lines (entry_lines e) n (c, cur) =
    Inr (c\<lparr>config_entries := config_entries c @ [e]\<rparr>, Some (length (config_entries c)))"
proof -
  let ?i = "length (config_entries c)"
  let ?c = "\<lambda>e. c\<lparr>config_entries := config_entries c @ [e]\<rparr>"
  have cl: "clean (entry_name e)" "clean (kernel e)" "cmdline e \<noteq> [] \<longrightarrow> clean (cmdline e)" "list_all clean (modules e)"
    using assms(1) by (auto simp: entry_printable_def)
  then have ne: "kernel e \<noteq> []" by (simp add: clean_def)
  have "str_trim (entry_name e) = entry_name e" "entry_name e \<noteq> []" "length (entry_name e) \<le> 1008"
    using cl(1) by (simp_all add: clean_def str_trim_id)
  then have start: "parse_line ([CONFIG_ENTRY_CHARACTER] @ entry_name e) m (c, cur) =
      Inr (?c (clear_entry\<lparr>entry_name := entry_name e\<rparr>), Some ?i)" for m
    using assms(3,4) config_find_None [of c "entry_name e"] by (simp add: parse_line_def str_slice_eq Let_def)
  let ?k = "clear_entry\<lparr>entry_name := entry_name e, kernel := kernel e\<rparr>"
  have k: "parse_line (setting ''kernel'' (kernel e)) m (?c (clear_entry\<lparr>entry_name := entry_name e\<rparr>), Some ?i) =
      Inr (?c ?k, Some ?i)" for m
    using cl ne by (simp add: parse_setting_lines clear_entry_def)
  let ?l = "if cmdline e = [] then [] else [setting ''cmdline'' (cmdline e)]"
  have l: "run_lines ?l m (?c ?k, Some ?i) = Inr (?c (?k\<lparr>cmdline := cmdline e\<rparr>), Some ?i)" for m
    using cl(3) by (simp add: parse_setting_lines clear_entry_def)
  have ms: "run_lines (map (setting ''module'') (modules e)) m (?c (?k\<lparr>cmdline := cmdline e\<rparr>), Some ?i) = Inr (?c e, Some ?i)" for m
    using run_modules [of "modules e" ?i "?c (?k\<lparr>cmdline := cmdline e\<rparr>)" m] cl(4) assms(2) by (simp add: clear_entry_def)
  show ?thesis by (simp only: entry_lines_def run_lines.simps start k run_lines_append l ms sum.case)
qed

lemma run_entries:
  assumes "list_all entry_printable es" "list_all entry_wf es"
    "length (config_entries c) + length es \<le> CONFIG_MAX_ENTRIES"
    "distinct (map entry_name (config_entries c @ es))"
  shows "\<exists>cur'. run_lines (concat (map entry_lines es)) n (c, cur) =
    Inr (c\<lparr>config_entries := config_entries c @ es\<rparr>, cur')"
  using assms
proof (induction es arbitrary: n c cur)
  case Nil
  then show ?case by simp
next
  case (Cons e es)
  have "run_lines (entry_lines e) n (c, cur) =
    Inr (c\<lparr>config_entries := config_entries c @ [e]\<rparr>, Some (length (config_entries c)))"
    using Cons.prems by (intro run_entry) (auto simp: entry_wf_def)
  with Cons.IH [of "c\<lparr>config_entries := config_entries c @ [e]\<rparr>"] Cons.prems show ?case
    by (simp add: run_lines_append)
qed

lemma clean_line: "clean v \<Longrightarrow> line_clean (setting ''kernel'' v) \<and> line_clean (setting ''cmdline'' v) \<and>
    line_clean (setting ''module'' v) \<and> line_clean (setting ''default'' v) \<and> line_clean (setting ''timeout'' v)"
  using setting_line(1) by blast

lemma entry_lines_clean: "entry_printable e \<Longrightarrow> list_all line_clean (entry_lines e)"
proof -
  have "\<not> is_space CONFIG_ENTRY_CHARACTER \<and> CONFIG_ENTRY_CHARACTER \<noteq> NEWLINE" by code_simp
  then show "entry_printable e \<Longrightarrow> list_all line_clean (entry_lines e)"
    by (auto simp: entry_printable_def entry_lines_def list_all_iff clean_line) (auto simp: line_clean_def clean_def)
qed

lemma config_lines_clean:
  assumes "config_printable c" shows "list_all line_clean (config_lines c)"
  using assms entry_lines_clean unsigned_text_clean [of "timeout_seconds c"]
  by (auto simp: config_printable_def config_lines_def list_all_iff clean_line)

text \<open>
  C26. The configuration language loses nothing: a well-formed configuration whose texts fit a line,
  written out in the syntax of the file (\<open>timeout =\<close>, \<open>default =\<close>, \<open>:name\<close>, \<open>kernel =\<close>, \<open>cmdline =\<close>,
  \<open>module =\<close>), parses to exactly itself; a command line keeps the \<open>=\<close>, \<open>#\<close> and \<open>:\<close> signs in it.
\<close>

theorem config_roundtrip:
  assumes "config_wf c" "config_printable c" "list_all (\<lambda>e. kernel e \<noteq> []) (config_entries c)"
  shows "config_parse (print_config c) = Inr c"
proof -
  define c0 :: config where "c0 = \<lparr>timeout_seconds = CONFIG_DEFAULT_TIMEOUT_SECONDS, default_entry = [], config_entries = []\<rparr>"
  let ?t = "setting ''timeout'' (unsigned_text (timeout_seconds c) 10)"
  let ?d = "if default_entry c = [] then [] else [setting ''default'' (default_entry c)]"
  let ?c = "c0\<lparr>timeout_seconds := timeout_seconds c, default_entry := default_entry c\<rparr>"
  have pr: "default_entry c = [] \<or> clean (default_entry c)" "list_all entry_printable (config_entries c)"
    "length (print_config c) \<le> CONFIG_MAX_BYTES" using assms(2) by (simp_all add: config_printable_def)
  have wf: "timeout_seconds c \<le> CONFIG_MAX_TIMEOUT_SECONDS" "list_all entry_wf (config_entries c)"
    "length (config_entries c) \<le> CONFIG_MAX_ENTRIES" "distinct (map entry_name (config_entries c))"
    using assms(1) by (simp_all add: config_wf_def)
  have t: "parse_line ?t m (c0, None) = Inr (c0\<lparr>timeout_seconds := timeout_seconds c\<rparr>, None)" for m
    using unsigned_text_clean [of "timeout_seconds c"] wf(1) by (simp add: parse_setting_lines)
  have d: "run_lines ?d m (c0\<lparr>timeout_seconds := timeout_seconds c\<rparr>, None) = Inr (?c, None)" for m
    using pr(1) by (auto simp: parse_setting_lines c0_def)
  obtain cur where e: "run_lines (concat (map entry_lines (config_entries c))) (1 + length ?d) (?c, None) =
      Inr (?c\<lparr>config_entries := config_entries ?c @ config_entries c\<rparr>, cur)"
    using run_entries [OF pr(2) wf(2), of ?c] wf(3,4) by (auto simp: c0_def)
  have "?c\<lparr>config_entries := config_entries ?c @ config_entries c\<rparr> = c" by (simp add: c0_def)
  then have "run_lines (config_lines c) 0 (c0, None) = Inr (c, cur)"
    using e by (simp only: config_lines_def run_lines.simps t run_lines_append d sum.case add_0)
  then have "parse_lines (print_config c) 0 0 (c0, None) = Inr (c, cur)"
    using parse_lines_print [of 0 "print_config c" "config_lines c"] config_lines_clean [OF assms(2)]
    by (simp add: print_config_def)
  then show ?thesis using pr(3) assms(3)
    by (auto simp: config_parse_def c0_def list_ex_iff list_all_iff)
qed

definition demo_config :: config where
  "demo_config = \<lparr>timeout_seconds = 5, default_entry = lit ''a'', config_entries =
     [\<lparr>entry_name = lit ''a'', kernel = lit ''/k'', cmdline = lit ''r=1'', modules = [lit ''/m'']\<rparr>]\<rparr>"

lemma demo_config_ok:
  "config_wf demo_config" "config_printable demo_config" "list_all (\<lambda>e. kernel e \<noteq> []) (config_entries demo_config)"
  using unsigned_text_value(2) [of 10 5]
  by (simp_all add: demo_config_def config_wf_def config_printable_def entry_wf_def entry_printable_def clean_def
      is_space_def print_config_def print_lines_def config_lines_def entry_lines_def setting_def)

theorem config_roundtrip_witness: "config_parse (print_config demo_config) = Inr demo_config"
  by (rule config_roundtrip [OF demo_config_ok])

abbreviation (input) demo_text :: "u8 list" where
  "demo_text \<equiv> lit (''#'' @ [CHR 0x0A] @ '':a'' @ [CHR 0x0D, CHR 0x0A] @ ''kernel=k'')"

lemma demo_text_parses: "config_parse demo_text =
    Inr \<lparr>timeout_seconds = 5, default_entry = [], config_entries =
      [\<lparr>entry_name = lit ''a'', kernel = lit ''k'', cmdline = [], modules = []\<rparr>]\<rparr>"
proof -
  have "parse_lines demo_text 0 0 (\<lparr>timeout_seconds = 5, default_entry = [], config_entries = []\<rparr>, None) =
    Inr (\<lparr>timeout_seconds = 5, default_entry = [], config_entries =
      [\<lparr>entry_name = lit ''a'', kernel = lit ''k'', cmdline = [], modules = []\<rparr>]\<rparr>, Some 0)"
    by code_simp
  moreover have "\<not> length demo_text > CONFIG_MAX_BYTES" by simp
  ultimately show ?thesis unfolding config_parse_def by (simp only: if_False sum.case prod.case) simp
qed

theorem config_parse_wf_witness:
  "\<exists>c. config_parse demo_text = Inr c \<and> config_find c (lit ''a'') = Some 0"
  using config_parse_wf [OF demo_text_parses] demo_text_parses by (intro exI conjI) auto

end
