(* ===== verification/Acpi.thy ===== *)
theory Acpi
  imports Mem
begin

text \<open>
  \<open>src/acpi/acpi.c\<close>: finding and checking the firmware tables. Memory is identity mapped, a table is
  the address of its first byte and a null pointer the address 0. The callback that turns a physical
  address into a pointer is the function \<open>phys\<close>. The two loops whose bounds come from a 64-bit length
  and from a table's own length are \<open>partial_function\<close>s: \<open>None\<close> is a loop that does not end.
\<close>

definition ACPI_RSDP_SIGNATURE :: "u8 list" where "ACPI_RSDP_SIGNATURE = map of_char ''RSD PTR ''"
definition ACPI_SIGNATURE_MADT :: "u8 list" where "ACPI_SIGNATURE_MADT = map of_char ''APIC''"
abbreviation (input) ACPI_RSDP_SIGNATURE_BYTES :: nat where "ACPI_RSDP_SIGNATURE_BYTES \<equiv> 8"
abbreviation (input) ACPI_RSDP_ALIGNMENT :: u64 where "ACPI_RSDP_ALIGNMENT \<equiv> 16"
abbreviation (input) ACPI_RSDP_REVISION_OFFSET :: u64 where "ACPI_RSDP_REVISION_OFFSET \<equiv> 15"
abbreviation (input) ACPI_RSDP_RSDT_OFFSET :: u64 where "ACPI_RSDP_RSDT_OFFSET \<equiv> 16"
abbreviation (input) ACPI_RSDP_LENGTH_OFFSET :: u64 where "ACPI_RSDP_LENGTH_OFFSET \<equiv> 20"
abbreviation (input) ACPI_RSDP_XSDT_OFFSET :: u64 where "ACPI_RSDP_XSDT_OFFSET \<equiv> 24"
abbreviation (input) ACPI_RSDP_REVISION_1_BYTES :: nat where "ACPI_RSDP_REVISION_1_BYTES \<equiv> 20"
abbreviation (input) ACPI_RSDP_REVISION_2 :: u8 where "ACPI_RSDP_REVISION_2 \<equiv> 2"
abbreviation (input) ACPI_RSDP_MAX_BYTES :: nat where "ACPI_RSDP_MAX_BYTES \<equiv> 64"
abbreviation (input) ACPI_SDT_HEADER_BYTES :: nat where "ACPI_SDT_HEADER_BYTES \<equiv> 36"
abbreviation (input) ACPI_SDT_SIGNATURE_BYTES :: nat where "ACPI_SDT_SIGNATURE_BYTES \<equiv> 4"
abbreviation (input) ACPI_SDT_LENGTH_OFFSET :: u64 where "ACPI_SDT_LENGTH_OFFSET \<equiv> 4"
abbreviation (input) ACPI_SDT_MAX_BYTES :: nat where "ACPI_SDT_MAX_BYTES \<equiv> 1048576"
abbreviation (input) ACPI_MAX_TABLES :: nat where "ACPI_MAX_TABLES \<equiv> 64"
abbreviation (input) ACPI_MADT_LOCAL_APIC_OFFSET :: u64 where "ACPI_MADT_LOCAL_APIC_OFFSET \<equiv> 36"
abbreviation (input) ACPI_MADT_ENTRIES_OFFSET :: u32 where "ACPI_MADT_ENTRIES_OFFSET \<equiv> 44"
abbreviation (input) ACPI_MADT_ENTRY_TYPE_OFFSET :: u64 where "ACPI_MADT_ENTRY_TYPE_OFFSET \<equiv> 0"
abbreviation (input) ACPI_MADT_ENTRY_LENGTH_OFFSET :: u64 where "ACPI_MADT_ENTRY_LENGTH_OFFSET \<equiv> 1"
abbreviation (input) ACPI_MADT_ENTRY_MIN_BYTES :: "'a::len word" where "ACPI_MADT_ENTRY_MIN_BYTES \<equiv> 2"
abbreviation (input) ACPI_MADT_LOCAL_APIC :: u8 where "ACPI_MADT_LOCAL_APIC \<equiv> 0"
abbreviation (input) ACPI_MADT_LOCAL_X2APIC :: u8 where "ACPI_MADT_LOCAL_X2APIC \<equiv> 9"
abbreviation (input) ACPI_MADT_LOCAL_APIC_ID_OFFSET :: u64 where "ACPI_MADT_LOCAL_APIC_ID_OFFSET \<equiv> 3"
abbreviation (input) ACPI_MADT_LOCAL_APIC_FLAGS_OFFSET :: u64 where "ACPI_MADT_LOCAL_APIC_FLAGS_OFFSET \<equiv> 4"
abbreviation (input) ACPI_MADT_X2APIC_ID_OFFSET :: u64 where "ACPI_MADT_X2APIC_ID_OFFSET \<equiv> 4"
abbreviation (input) ACPI_MADT_X2APIC_FLAGS_OFFSET :: u64 where "ACPI_MADT_X2APIC_FLAGS_OFFSET \<equiv> 8"
abbreviation (input) ACPI_MADT_PROCESSOR_ENABLED :: u32 where "ACPI_MADT_PROCESSOR_ENABLED \<equiv> 1"
abbreviation (input) ACPI_MADT_PROCESSOR_ONLINE_CAPABLE :: u32 where "ACPI_MADT_PROCESSOR_ONLINE_CAPABLE \<equiv> 2"
abbreviation (input) ACPI_MAX_PROCESSORS :: nat where "ACPI_MAX_PROCESSORS \<equiv> 256"

record acpi_tables =
  tables :: "u64 list"
  rsdp :: u64
  acpi_revision :: u8
  tables_truncated :: bool

record acpi_processor =
  apic_id :: u32
  enabled :: bool

record acpi_processor_table =
  processors :: "acpi_processor list"
  local_apic_address :: u64
  processors_truncated :: bool

definition table_length :: "mem \<Rightarrow> u64 \<Rightarrow> u32" where
  "table_length m table =
     (let at = table + ACPI_SDT_LENGTH_OFFSET
      in ucast (m at) OR push_bit 8 (ucast (m (at + 1))) OR push_bit 16 (ucast (m (at + 2))) OR
         push_bit 24 (ucast (m (at + 3))))"

definition acpi_checksum :: "mem \<Rightarrow> u64 \<Rightarrow> nat \<Rightarrow> bool" where
  "acpi_checksum m bytes len = (fold (\<lambda>index s. s + m (bytes + of_nat index)) [0..<len] (0 :: u8) = 0)"

definition acpi_rsdp_valid :: "mem \<Rightarrow> u64 \<Rightarrow> bool" where
  "acpi_rsdp_valid m candidate =
     (if candidate = 0 then False
      else if memcmp_bytes (load_bytes m candidate 8) ACPI_RSDP_SIGNATURE ACPI_RSDP_SIGNATURE_BYTES \<noteq> 0 then False
      else if \<not> acpi_checksum m candidate ACPI_RSDP_REVISION_1_BYTES then False
      else if m (candidate + ACPI_RSDP_REVISION_OFFSET) < ACPI_RSDP_REVISION_2 then True
      else
        let length_at = candidate + ACPI_RSDP_LENGTH_OFFSET;
            len = ucast (m length_at) OR push_bit 8 (ucast (m (length_at + 1))) OR
              push_bit 16 (ucast (m (length_at + 2))) OR push_bit 24 (ucast (m (length_at + 3))) :: u32
        in if unat len < ACPI_RSDP_REVISION_1_BYTES then False
           else if unat len > ACPI_RSDP_MAX_BYTES then False
           else acpi_checksum m candidate (unat len))"

partial_function (option) scan_rsdp :: "mem \<Rightarrow> u64 \<Rightarrow> usize \<Rightarrow> usize \<Rightarrow> u64 option" where
  "scan_rsdp m base final offset =
     (if offset \<le> final then
        if acpi_rsdp_valid m (base + offset) then Some (base + offset)
        else scan_rsdp m base final (offset + ACPI_RSDP_ALIGNMENT)
      else Some 0)"

definition acpi_find_rsdp :: "mem \<Rightarrow> u64 \<Rightarrow> usize \<Rightarrow> u64 option" where
  "acpi_find_rsdp m region len =
     (if region = 0 \<or> len < of_nat ACPI_RSDP_REVISION_1_BYTES then Some 0
      else scan_rsdp m region (len - of_nat ACPI_RSDP_REVISION_1_BYTES) 0)"

definition table_usable :: "mem \<Rightarrow> u64 \<Rightarrow> bool" where
  "table_usable m table =
     (if table = 0 then False
      else let len = table_length m table
           in if unat len < ACPI_SDT_HEADER_BYTES then False
              else if unat len > ACPI_SDT_MAX_BYTES then False
              else acpi_checksum m table (unat len))"

definition keep :: "mem \<Rightarrow> acpi_tables \<Rightarrow> u64 \<Rightarrow> acpi_tables" where
  "keep m out table =
     (if \<not> table_usable m table then out
      else if length (tables out) = ACPI_MAX_TABLES then out\<lparr>tables_truncated := True\<rparr>
      else out\<lparr>tables := tables out @ [table]\<rparr>)"

definition acpi_identity_map :: "u64 \<Rightarrow> u64" where
  "acpi_identity_map physical = physical"

text \<open>The XSDT's address, when the revision promises one and it is not null; and the RSDT's.\<close>

definition xsdt_address :: "reader \<Rightarrow> u8 \<Rightarrow> u64 option" where
  "xsdt_address r revision =
     (if revision \<ge> ACPI_RSDP_REVISION_2 then
        do { r \<leftarrow> reader_seek r ACPI_RSDP_XSDT_OFFSET;
             (xsdt, r) \<leftarrow> reader_u64 r;
             ensure (xsdt \<noteq> 0);
             Some xsdt }
      else None)"

definition rsdt_address :: "reader \<Rightarrow> u32 option" where
  "rsdt_address r =
     do { r \<leftarrow> reader_seek r ACPI_RSDP_RSDT_OFFSET;
          (rsdt, r) \<leftarrow> reader_u32 r;
          ensure (\<not> rsdt = 0);
          Some rsdt }"

definition read_pointer :: "bool \<Rightarrow> reader \<Rightarrow> (u64 \<times> reader) option" where
  "read_pointer wide entries =
     (if wide then reader_u64 entries
      else do { (narrow, entries) \<leftarrow> reader_u32 entries; Some (ucast narrow, entries) })"

text \<open>The loop over the pointers of the root table, \<open>n\<close> of them to go.\<close>

fun collect_entries :: "mem \<Rightarrow> (u64 \<Rightarrow> u64) \<Rightarrow> bool \<Rightarrow> nat \<Rightarrow> reader \<Rightarrow> acpi_tables \<Rightarrow> acpi_tables" where
  "collect_entries m phys wide 0 entries out = out"
| "collect_entries m phys wide (Suc n) entries out =
     (case read_pointer wide entries of
        None \<Rightarrow> out
      | Some (pointer, entries) \<Rightarrow>
          if pointer = 0 then collect_entries m phys wide n entries out
          else collect_entries m phys wide n entries (keep m out (phys pointer)))"

definition collect_root :: "mem \<Rightarrow> (u64 \<Rightarrow> u64) \<Rightarrow> u64 \<Rightarrow> bool \<Rightarrow> acpi_tables \<Rightarrow> bool \<times> acpi_tables" where
  "collect_root m phys root wide out =
     (if \<not> table_usable m root then (False, out)
      else
        let len = table_length m root;
            stride = (if wide then 8 else 4);
            count = (unat len - ACPI_SDT_HEADER_BYTES) div stride
        in case reader_seek (reader_init (Some (load_bytes m root (unat len))) (ucast len)) (of_nat ACPI_SDT_HEADER_BYTES) of
             None \<Rightarrow> (False, out)
           | Some entries \<Rightarrow> (True, collect_entries m phys wide count entries out))"

definition acpi_collect :: "mem \<Rightarrow> u64 \<Rightarrow> (u64 \<Rightarrow> u64) \<Rightarrow> bool \<times> acpi_tables" where
  "acpi_collect m root_pointer phys =
     (let out = \<lparr>tables = [], rsdp = 0, acpi_revision = 0, tables_truncated = False\<rparr>
      in if \<not> acpi_rsdp_valid m root_pointer then (False, out)
         else
           let out = out\<lparr>rsdp := root_pointer, acpi_revision := m (root_pointer + ACPI_RSDP_REVISION_OFFSET)\<rparr>;
               r = reader_init (Some (load_bytes m root_pointer ACPI_RSDP_MAX_BYTES)) (of_nat ACPI_RSDP_MAX_BYTES);
               root = (case xsdt_address r (acpi_revision out) of None \<Rightarrow> 0 | Some xsdt \<Rightarrow> phys xsdt)
           in if root \<noteq> 0 then collect_root m phys root True out
              else case rsdt_address r of
                     None \<Rightarrow> (False, out)
                   | Some rsdt \<Rightarrow> collect_root m phys (phys (ucast rsdt)) False out)"

fun find_table_from :: "mem \<Rightarrow> u64 list \<Rightarrow> u8 list \<Rightarrow> u64" where
  "find_table_from m [] signature = 0"
| "find_table_from m (table # rest) signature =
     (if memcmp_bytes (load_bytes m table 4) signature ACPI_SDT_SIGNATURE_BYTES = 0 then table
      else find_table_from m rest signature)"

definition acpi_find_table :: "mem \<Rightarrow> acpi_tables \<Rightarrow> u8 list \<Rightarrow> u64" where
  "acpi_find_table m ts signature = find_table_from m (tables ts) signature"

definition add_processor :: "acpi_processor_table \<Rightarrow> u32 \<Rightarrow> u32 \<Rightarrow> acpi_processor_table" where
  "add_processor out apic flags =
     (if length (processors out) = ACPI_MAX_PROCESSORS then out\<lparr>processors_truncated := True\<rparr>
      else out\<lparr>processors := processors out @
        [\<lparr>apic_id = apic, enabled = (flags AND (ACPI_MADT_PROCESSOR_ENABLED OR ACPI_MADT_PROCESSOR_ONLINE_CAPABLE) \<noteq> 0)\<rparr>]\<rparr>)"

definition local_apic_fields :: "reader \<Rightarrow> (u32 \<times> u32) option" where
  "local_apic_fields inner =
     do { inner \<leftarrow> reader_seek inner ACPI_MADT_LOCAL_APIC_ID_OFFSET;
          (apic, inner) \<leftarrow> reader_u8 inner;
          inner \<leftarrow> reader_seek inner ACPI_MADT_LOCAL_APIC_FLAGS_OFFSET;
          (flags, inner) \<leftarrow> reader_u32 inner;
          Some (ucast apic, flags) }"

definition x2apic_fields :: "reader \<Rightarrow> (u32 \<times> u32) option" where
  "x2apic_fields inner =
     do { inner \<leftarrow> reader_seek inner ACPI_MADT_X2APIC_ID_OFFSET;
          (apic, inner) \<leftarrow> reader_u32 inner;
          inner \<leftarrow> reader_seek inner ACPI_MADT_X2APIC_FLAGS_OFFSET;
          (flags, inner) \<leftarrow> reader_u32 inner;
          Some (apic, flags) }"

definition madt_record :: "mem \<Rightarrow> u64 \<Rightarrow> u8 \<Rightarrow> u8 \<Rightarrow> acpi_processor_table \<Rightarrow> acpi_processor_table" where
  "madt_record m entry ty entry_bytes out =
     (let inner = reader_init (Some (load_bytes m entry (unat entry_bytes))) (ucast entry_bytes)
      in if ty = ACPI_MADT_LOCAL_APIC then
           (case local_apic_fields inner of None \<Rightarrow> out | Some (apic, flags) \<Rightarrow> add_processor out apic flags)
         else if ty = ACPI_MADT_LOCAL_X2APIC then
           (case x2apic_fields inner of None \<Rightarrow> out | Some (apic, flags) \<Rightarrow> add_processor out apic flags)
         else out)"

partial_function (option) madt_loop :: "mem \<Rightarrow> u64 \<Rightarrow> u32 \<Rightarrow> u32 \<Rightarrow> acpi_processor_table \<Rightarrow> acpi_processor_table option" where
  "madt_loop m madt len offset out =
     (if offset + ACPI_MADT_ENTRY_MIN_BYTES \<le> len then
        let entry = madt + ucast offset;
            ty = m (entry + ACPI_MADT_ENTRY_TYPE_OFFSET);
            entry_bytes = m (entry + ACPI_MADT_ENTRY_LENGTH_OFFSET)
        in if entry_bytes < ACPI_MADT_ENTRY_MIN_BYTES then Some out
           else if offset + ucast entry_bytes > len then Some out
           else madt_loop m madt len (offset + ucast entry_bytes) (madt_record m entry ty entry_bytes out)
      else Some out)"

text \<open>The outer option is \<open>None\<close> if the loop over the records does not end.\<close>

definition acpi_processors :: "mem \<Rightarrow> acpi_tables \<Rightarrow> (bool \<times> acpi_processor_table) option" where
  "acpi_processors m ts =
     (let out = \<lparr>processors = [], local_apic_address = 0, processors_truncated = False\<rparr>;
          madt = acpi_find_table m ts ACPI_SIGNATURE_MADT
      in if madt = 0 then Some (False, out)
         else
           let len = table_length m madt
           in if len < ACPI_MADT_ENTRIES_OFFSET then Some (False, out)
              else
                case do { r \<leftarrow> reader_seek (reader_init (Some (load_bytes m madt (unat len))) (ucast len))
                                 ACPI_MADT_LOCAL_APIC_OFFSET;
                          reader_u32 r } of
                  None \<Rightarrow> Some (False, out)
                | Some (local_apic, r) \<Rightarrow>
                    map_option (\<lambda>out. (length (processors out) > 0, out))
                      (madt_loop m madt len ACPI_MADT_ENTRIES_OFFSET (out\<lparr>local_apic_address := ucast local_apic\<rparr>)))"

subsection \<open>What the tables have to be\<close>

lemma acpi_checksum_sum: "acpi_checksum m t n \<longleftrightarrow> sum_list (load_bytes m t n) = 0"
proof -
  have "fold (\<lambda>index s. s + m (t + of_nat index)) [0..<n] a = a + sum_list (load_bytes m t n)" for a
    by (induction n) (simp_all add: load_bytes_def add.assoc)
  then show ?thesis by (simp add: acpi_checksum_def)
qed

lemma table_length_le32: "table_length m t = le32 (load_bytes m t n) 4" if "8 \<le> n"
proof -
  have "le32 (load_bytes m t n) 4 = ucast (little_endian (drop 4 (load_bytes m t n)) 4)" by (simp add: le32_def)
  also have "\<dots> = table_length m t"
    using that unfolding little_endian_4 by (simp add: table_length_def Let_def ac_simps)
  finally show ?thesis by simp
qed

text \<open>Bytes whose sum is a multiple of 256.\<close>

definition sums_to_zero :: "u8 list \<Rightarrow> bool" where
  "sums_to_zero bs \<longleftrightarrow> 256 dvd sum_list (map unat bs)"

lemma sums_to_zero_checksum: "acpi_checksum m t n = sums_to_zero (load_bytes m t n)"
proof -
  have "sum_list bs = (of_nat (sum_list (map unat bs)) :: u8)" for bs :: "u8 list"
    by (induction bs) simp_all
  moreover have "(of_nat k :: u8) = 0 \<longleftrightarrow> 256 dvd k" for k by (simp add: word_of_nat_eq_0_iff)
  ultimately show ?thesis by (simp add: acpi_checksum_sum sums_to_zero_def)
qed

text \<open>
  A table that may be used: not null, with a length of its own between the 36 bytes of the header and a mebibyte, and
  with all the bytes of that length summing to zero.
\<close>

definition told_length :: "mem \<Rightarrow> u64 \<Rightarrow> nat" where
  "told_length m t = unat (le32 (load_bytes m t 8) 4)"

definition sound_table :: "mem \<Rightarrow> u64 \<Rightarrow> bool" where
  "sound_table m t \<longleftrightarrow> t \<noteq> 0 \<and> 36 \<le> told_length m t \<and> told_length m t \<le> 1048576 \<and>
     sums_to_zero (load_bytes m t (told_length m t))"

lemma told_length_eq: "told_length m t = unat (table_length m t)"
  using table_length_le32 [of 8 m t] by (simp add: told_length_def)

lemma table_usable_sound: "table_usable m t = sound_table m t"
  by (auto simp: table_usable_def sound_table_def told_length_eq Let_def sums_to_zero_checksum)

text \<open>
  A root pointer that may be used: not null, with its signature, its first 20 bytes summing to zero, and from revision 2 on
  a length between 20 and 64 and all the bytes of that length summing to zero. A length below 32 is allowed, and then the
  eight bytes at 24 are not among those summed.
\<close>

definition sound_rsdp :: "mem \<Rightarrow> u64 \<Rightarrow> bool" where
  "sound_rsdp m r \<longleftrightarrow> r \<noteq> 0 \<and> load_bytes m r 8 = [0x52, 0x53, 0x44, 0x20, 0x50, 0x54, 0x52, 0x20] \<and>
     sums_to_zero (load_bytes m r 20) \<and>
     (2 \<le> unat (m (r + 15)) \<longrightarrow>
        (let n = unat (le32 (load_bytes m r 24) 20) in 20 \<le> n \<and> n \<le> 64 \<and> sums_to_zero (load_bytes m r n)))"

lemma rsdp_valid_sound: "acpi_rsdp_valid m r = sound_rsdp m r"
proof -
  have "ACPI_RSDP_SIGNATURE = [0x52, 0x53, 0x44, 0x20, 0x50, 0x54, 0x52, 0x20]" by (simp add: ACPI_RSDP_SIGNATURE_def)
  then have sig: "memcmp_bytes (load_bytes m r 8) ACPI_RSDP_SIGNATURE 8 = 0 \<longleftrightarrow>
      load_bytes m r 8 = [0x52, 0x53, 0x44, 0x20, 0x50, 0x54, 0x52, 0x20]"
    unfolding \<open>ACPI_RSDP_SIGNATURE = _\<close> by (subst memcmp_bytes_0) simp_all
  have len: "ucast (m (r + 20)) OR push_bit 8 (ucast (m (r + 20 + 1))) OR push_bit 16 (ucast (m (r + 20 + 2))) OR
      push_bit 24 (ucast (m (r + 20 + 3))) = le32 (load_bytes m r 24) 20"
    by (simp add: le32_def little_endian_4 add.commute)
  have small: "m (r + 15) < 2 \<longleftrightarrow> \<not> 2 \<le> unat (m (r + 15))" by (simp add: word_less_nat_alt not_le)
  show ?thesis
    unfolding acpi_rsdp_valid_def sound_rsdp_def Let_def len sums_to_zero_checksum small sig by auto
qed

subsection \<open>Finding the root pointer\<close>

lemma scan_rsdp_first:
  assumes "unat offset = 16 * k" "unat final \<le> 18446744073709551595"
  shows "scan_rsdp m base final offset =
    Some (case find (acpi_rsdp_valid m) (map (\<lambda>k. base + of_nat (16 * k)) [k..<Suc (unat final div 16)]) of
            None \<Rightarrow> 0 | Some r \<Rightarrow> r)"
  using assms(1)
proof (induction "Suc (unat final div 16) - k" arbitrary: offset k)
  case 0
  then have "\<not> offset \<le> final" by (simp add: word_le_nat_alt)
  with 0 show ?case by (subst scan_rsdp.simps) simp
next
  case (Suc n)
  then have le: "k \<le> unat final div 16" by linarith
  then have off: "16 * k \<le> unat final" by linarith
  have o: "offset = of_nat (16 * k)" by (rule word_eq_of_nat [OF Suc.prems])
  have nxt: "unat (offset + 16) = 16 * Suc k"
    using Suc.prems off assms(2) by (subst unat_add_fits) simp_all
  have up: "[k..<Suc (unat final div 16)] = k # [Suc k..<Suc (unat final div 16)]"
    using le by (subst upt_conv_Cons) simp_all
  have "scan_rsdp m base final (offset + 16) = Some (case find (acpi_rsdp_valid m)
      (map (\<lambda>k. base + of_nat (16 * k)) [Suc k..<Suc (unat final div 16)]) of None \<Rightarrow> 0 | Some r \<Rightarrow> r)"
    using Suc(1) [OF _ nxt] Suc(2) le by simp
  then show ?case using Suc.prems off unfolding up
    by (subst scan_rsdp.simps) (simp add: word_le_nat_alt o del: of_nat_mult)
qed

lemma acpi_find_rsdp_run:
  "acpi_find_rsdp m region len =
     Some (if region = 0 then 0
           else case find (acpi_rsdp_valid m) (map (\<lambda>k. region + of_nat (16 * k)) [0..<(unat len - 4) div 16]) of
                  None \<Rightarrow> 0 | Some r \<Rightarrow> r)"
proof (cases "region = 0 \<or> len < 20")
  case True
  then show ?thesis by (auto simp: acpi_find_rsdp_def word_less_nat_alt)
next
  case False
  then have "20 \<le> unat len" and f: "unat (len - 20) = unat len - 20"
    by (simp_all add: word_less_nat_alt unat_sub_fits word_le_nat_alt)
  then have c: "Suc (unat (len - 20) div 16) = (unat len - 4) div 16" by simp
  have "unat (len - 20) \<le> 18446744073709551595" using f unat_lt64 [of len] by linarith
  from scan_rsdp_first [of 0 0 "len - 20", OF _ this] False show ?thesis
    unfolding c by (simp add: acpi_find_rsdp_def)
qed

text \<open>
  C27. The scan for the root pointer always ends, without \<open>offset\<close> wrapping around whatever the length,
  and answers the first 16-byte aligned place in the region where a whole valid root pointer begins,
  or null when there is none.
\<close>

theorem acpi_find_rsdp_first:
  "acpi_find_rsdp m region len =
     Some (if region = 0 then 0
           else case find (sound_rsdp m) (map (\<lambda>k. region + of_nat (16 * k)) [0..<(unat len - 4) div 16]) of
                  None \<Rightarrow> 0 | Some r \<Rightarrow> r)"
  unfolding acpi_find_rsdp_run rsdp_valid_sound ..

subsection \<open>The root table\<close>

text \<open>The pointers a root table of \<open>bs\<close> lists, \<open>w\<close> bytes each, behind its header.\<close>

definition root_pointers :: "nat \<Rightarrow> u8 list \<Rightarrow> u64 list" where
  "root_pointers w bs = map (\<lambda>i. little_endian (drop (36 + w * i) bs) w) [0..<(length bs - 36) div w]"

definition table_bytes :: "mem \<Rightarrow> u64 \<Rightarrow> u8 list" where
  "table_bytes m t = load_bytes m t (unat (table_length m t))"

lemma length_table_bytes [simp]: "length (table_bytes m t) = unat (table_length m t)"
  by (simp add: table_bytes_def)

lemma table_usable_length:
  "table_usable m t \<Longrightarrow> t \<noteq> 0 \<and> 36 \<le> unat (table_length m t) \<and> unat (table_length m t) \<le> 1048576 \<and>
     acpi_checksum m t (unat (table_length m t))"
  by (auto simp: table_usable_def Let_def split: if_splits)

text \<open>What \<open>keep\<close> makes of a list of candidates.\<close>

definition kept :: "u64 list \<Rightarrow> acpi_tables \<Rightarrow> acpi_tables" where
  "kept ts out = out\<lparr>tables := take 64 (tables out @ ts),
     tables_truncated := (tables_truncated out \<or> length (tables out @ ts) > 64)\<rparr>"

lemma keep_kept:
  assumes "length (tables out) \<le> 64"
  shows "kept ts (keep m out t) = kept (filter (table_usable m) [t] @ ts) out"
    "length (tables (keep m out t)) \<le> 64"
  using assms by (auto simp: keep_def kept_def)

lemma read_pointer_at:
  assumes "rd_base r = Some b" "w = (if wide then 8 else 4)"
    "unat (rd_position r) + w \<le> unat (rd_length r)"
  shows "read_pointer wide r =
    Some (little_endian (drop (unat (rd_position r)) b) w, r\<lparr>rd_position := rd_position r + of_nat w\<rparr>)"
proof -
  have c: "ucast (ucast (little_endian xs 4) :: u32) = little_endian xs 4" for xs
    using little_endian_bound [of 4 xs] by (intro unat_inj) (simp add: unat_ucast_down)
  show ?thesis using assms reader_reads_at(1,2) [OF assms(1)]
    by (auto simp: read_pointer_def le32_def le64_def c)
qed

lemma collect_entries_kept:
  assumes "rd_base r = Some b" "w = (if wide then 8 else 4)" "length (tables out) \<le> 64"
    "unat (rd_position r) = 36 + w * k" "36 + w * (k + n) \<le> unat (rd_length r)"
  shows "collect_entries m phys wide n r out =
    kept (filter (table_usable m) (map phys (filter (\<lambda>p. p \<noteq> 0)
      (map (\<lambda>i. little_endian (drop (36 + w * i) b) w) [k..<k + n])))) out"
  using assms(1,3,4,5)
proof (induction n arbitrary: r k out)
  case 0
  then show ?case by (simp add: kept_def)
next
  case (Suc n)
  have w: "w = 8 \<or> w = 4" using assms(2) by simp
  have room: "unat (rd_position r) + w \<le> unat (rd_length r)"
    using Suc.prems(3,4) by (simp add: algebra_simps)
  let ?p = "little_endian (drop (36 + w * k) b) w"
  let ?r = "r\<lparr>rd_position := rd_position r + of_nat w\<rparr>"
  have rp: "read_pointer wide r = Some (?p, ?r)"
    using read_pointer_at [OF Suc.prems(1) assms(2) room] Suc.prems(3) by simp
  have uw: "unat (of_nat w :: u64) = w" using w by auto
  have pos: "unat (rd_position ?r) = 36 + w * Suc k"
    using Suc.prems(3) room uw by (simp add: unat_add_below [of _ _ "rd_length r"])
  have IH: "length (tables out') \<le> 64 \<Longrightarrow> collect_entries m phys wide n ?r out' =
      kept (filter (table_usable m) (map phys (filter (\<lambda>p. p \<noteq> 0)
        (map (\<lambda>i. little_endian (drop (36 + w * i) b) w) [Suc k..<Suc k + n])))) out'" for out'
    by (rule Suc.IH) (use Suc.prems(1,4) pos in simp_all)
  have up: "[k..<k + Suc n] = k # [Suc k..<Suc k + n]" by (subst upt_conv_Cons) simp_all
  note keep = keep_kept [OF Suc.prems(2), where m = m and t = "phys ?p"]
  have step: "collect_entries m phys wide (Suc n) r out =
      (if ?p = 0 then collect_entries m phys wide n ?r out
       else collect_entries m phys wide n ?r (keep m out (phys ?p)))"
    by (simp only: collect_entries.simps rp option.case prod.case)
  show ?case
  proof (cases "?p = 0")
    case True
    then show ?thesis by (simp only: step if_True IH [OF Suc.prems(2)] up list.map filter.simps simp_thms if_False)
  next
    case False
    then show ?thesis
      by (cases "table_usable m (phys ?p)")
        (simp_all only: step if_False IH [OF keep(2)] keep(1) up list.map filter.simps simp_thms if_True append.simps)
  qed
qed

definition collected :: "mem \<Rightarrow> (u64 \<Rightarrow> u64) \<Rightarrow> u64 \<Rightarrow> nat \<Rightarrow> u64 list" where
  "collected m phys root w =
     (if table_usable m root
      then filter (table_usable m) (map phys (filter (\<lambda>p. p \<noteq> 0) (root_pointers w (table_bytes m root)))) else [])"

lemma collect_root_collected:
  assumes "tables out = []" "\<not> tables_truncated out"
  shows "collect_root m phys root wide out =
    (table_usable m root, kept (collected m phys root (if wide then 8 else 4)) out)"
proof (cases "table_usable m root")
  case False
  then show ?thesis using assms by (simp add: collect_root_def collected_def kept_def)
next
  case True
  define n where "n = unat (table_length m root)"
  define w where "w = (if wide then 8 else 4 :: nat)"
  define r where "r = \<lparr>rd_base = Some (load_bytes m root n), rd_length = ucast (table_length m root), rd_position = 36\<rparr>"
  have len: "36 \<le> n" using table_usable_length [OF True] by (simp add: n_def)
  have w: "36 + w * (0 + (n - 36) div w) \<le> unat (rd_length r)"
  proof -
    have "36 + w * ((n - 36) div w) \<le> n"
      using div_times_less_eq_dividend [of "n - 36" w] len unfolding mult.commute [of w] by linarith
    then show ?thesis by (simp add: r_def n_def)
  qed
  have "collect_entries m phys wide ((n - 36) div w) r out = kept (collected m phys root w) out"
    using collect_entries_kept [OF _ w_def _ _ w, of "load_bytes m root n" out m phys] assms
    by (simp add: collected_def True root_pointers_def table_bytes_def r_def n_def)
  with True len show ?thesis
    by (simp add: collect_root_def Let_def reader_seek_init r_def n_def w_def)
qed

text \<open>The root table the pointer leads to, and the width of the pointers in it.\<close>

definition rsdp_root :: "mem \<Rightarrow> u64 \<Rightarrow> (u64 \<Rightarrow> u64) \<Rightarrow> u64 \<times> nat" where
  "rsdp_root m r phys =
     (let bs = load_bytes m r 64
      in if m (r + 15) \<ge> 2 \<and> le64 bs 24 \<noteq> 0 \<and> phys (le64 bs 24) \<noteq> 0 then (phys (le64 bs 24), 8)
         else (if le32 bs 16 = 0 then 0 else phys (ucast (le32 bs 16)), 4))"

lemma acpi_collect_run:
  "acpi_collect m r phys =
     (if acpi_rsdp_valid m r then
        let (root, w) = rsdp_root m r phys; ts = collected m phys root w
        in (table_usable m root,
            \<lparr>tables = take 64 ts, rsdp = r, acpi_revision = m (r + 15), tables_truncated = (length ts > 64)\<rparr>)
      else (False, \<lparr>tables = [], rsdp = 0, acpi_revision = 0, tables_truncated = False\<rparr>))"
proof (cases "acpi_rsdp_valid m r")
  case False
  then show ?thesis by (simp add: acpi_collect_def Let_def)
next
  case True
  let ?bs = "load_bytes m r 64"
  let ?rd = "reader_init (Some ?bs) 64"
  let ?out = "\<lparr>tables = [], rsdp = r, acpi_revision = m (r + 15), tables_truncated = False\<rparr>"
  have x: "xsdt_address ?rd (m (r + 15)) = (if m (r + 15) \<ge> 2 \<and> le64 ?bs 24 \<noteq> 0 then Some (le64 ?bs 24) else None)"
    by (simp add: xsdt_address_def reader_seek_init reader_reads_at)
  have d: "rsdt_address ?rd = (if le32 ?bs 16 = 0 then None else Some (le32 ?bs 16))"
    by (simp add: rsdt_address_def reader_seek_init reader_reads_at)
  have nul: "\<not> table_usable m 0" by (simp add: table_usable_def)
  have root: "collect_root m phys root wide ?out =
     (table_usable m root, kept (collected m phys root (if wide then 8 else 4)) ?out)" for root wide
    by (rule collect_root_collected) simp_all
  have k: "kept ts ?out = \<lparr>tables = take 64 ts, rsdp = r, acpi_revision = m (r + 15), tables_truncated = (length ts > 64)\<rparr>" for ts
    by (simp add: kept_def)
  show ?thesis using True nul
    by (simp add: acpi_collect_def Let_def x d rsdp_root_def root k collected_def)
qed

text \<open>The tables a root table lists: its pointers of \<open>w\<close> bytes behind the header, without the null ones, that may be used.\<close>

definition listed_tables :: "mem \<Rightarrow> (u64 \<Rightarrow> u64) \<Rightarrow> u64 \<Rightarrow> nat \<Rightarrow> u64 list" where
  "listed_tables m phys root w =
     (if sound_table m root
      then filter (sound_table m) (map phys (filter (\<lambda>p. p \<noteq> 0) (root_pointers w (load_bytes m root (told_length m root)))))
      else [])"

lemma collected_listed: "collected m phys root w = listed_tables m phys root w"
proof -
  have "table_usable m = sound_table m" by (rule ext) (rule table_usable_sound)
  then show ?thesis by (simp add: collected_def listed_tables_def table_bytes_def told_length_eq)
qed

text \<open>
  C28. The tables collected from a sound root pointer are exactly the first 64 of those the root table lists (the XSDT if
  the pointer has revision 2 and gives one, the RSDT otherwise), not null and each with a header, a length in bounds and a
  sum of its own that is zero; the 65th marks the list as truncated. Nothing is collected through a root pointer or a root
  table that is not sound. The address of the XSDT is taken from a sound pointer of revision 2 also when its length ends in
  front of that field, so that the field itself is covered by no sum (\<open>rsdp_short_xsdt_unchecked\<close>).
\<close>

theorem acpi_collect_exact:
  "acpi_collect m r phys =
     (if sound_rsdp m r then
        let (root, w) = rsdp_root m r phys; ts = listed_tables m phys root w
        in (sound_table m root,
            \<lparr>tables = take 64 ts, rsdp = r, acpi_revision = m (r + 15), tables_truncated = (length ts > 64)\<rparr>)
      else (False, \<lparr>tables = [], rsdp = 0, acpi_revision = 0, tables_truncated = False\<rparr>))"
  unfolding acpi_collect_run collected_listed table_usable_sound rsdp_valid_sound ..

subsection \<open>The processors of the machine\<close>

text \<open>The records of the MADT, up to the first that does not advance or does not fit, and the processor each describes.\<close>

function madt_records :: "u8 list \<Rightarrow> u8 list list" where
  "madt_records bs =
     (if length bs < 2 \<or> bs ! 1 < 2 \<or> length bs < unat (bs ! 1) then []
      else take (unat (bs ! 1)) bs # madt_records (drop (unat (bs ! 1)) bs))"
  by pat_completeness auto
termination by (relation "measure length") (auto simp: word_less_nat_alt)

declare madt_records.simps [simp del]

definition processor_of :: "u8 list \<Rightarrow> acpi_processor option" where
  "processor_of bs =
     (if bs ! 0 = 0 \<and> 8 \<le> length bs then Some \<lparr>apic_id = ucast (bs ! 3), enabled = (le32 bs 4 AND 3 \<noteq> 0)\<rparr>
      else if bs ! 0 = 9 \<and> 12 \<le> length bs then Some \<lparr>apic_id = le32 bs 4, enabled = (le32 bs 8 AND 3 \<noteq> 0)\<rparr>
      else None)"

definition added :: "acpi_processor list \<Rightarrow> acpi_processor_table \<Rightarrow> acpi_processor_table" where
  "added ps out = out\<lparr>processors := take 256 (processors out @ ps),
     processors_truncated := (processors_truncated out \<or> length (processors out @ ps) > 256)\<rparr>"

lemma add_processor_added:
  assumes "length (processors out) \<le> 256"
  shows "added ps (add_processor out apic flags) =
      added (\<lparr>apic_id = apic, enabled = (flags AND 3 \<noteq> 0)\<rparr> # ps) out"
    "length (processors (add_processor out apic flags)) \<le> 256"
  using assms by (auto simp: add_processor_def added_def take_Cons')

lemma madt_record_bound: "length (processors out) \<le> 256 \<Longrightarrow> length (processors (madt_record m entry ty n out)) \<le> 256"
  by (auto simp: madt_record_def Let_def add_processor_added(2) split: option.split)

lemma madt_loop_bound:
  "madt_loop m madt len off out = Some res \<Longrightarrow> length (processors out) \<le> 256 \<longrightarrow> length (processors res) \<le> 256"
proof (rule madt_loop.raw_induct
    [where P = "\<lambda>m madt len off out res. length (processors out) \<le> 256 \<longrightarrow> length (processors res) \<le> 256"], goal_cases)
  case (1 loop m madt len off out res)
  then show ?case by (auto simp: Let_def madt_record_bound split: if_splits)
qed

lemma acpi_processors_bound: "acpi_processors m ts = Some (ok, ps) \<Longrightarrow> length (processors ps) \<le> 256"
  by (auto simp: acpi_processors_def Let_def dest: madt_loop_bound split: if_splits option.splits)

lemma load_bytes_slice:
  "a + n \<le> k \<Longrightarrow> load_bytes m (base + of_nat a) n = take n (drop a (load_bytes m base k))"
  by (rule nth_equalityI) (simp_all add: algebra_simps)

lemma reader_literal:
  assumes "unat (p :: u64) \<le> unat (len :: u64)" "unat len \<le> length b"
  shows "reader_u32 \<lparr>rd_base = Some b, rd_length = len, rd_position = p\<rparr> =
      (if unat p + 4 \<le> unat len
       then Some (le32 b (unat p), \<lparr>rd_base = Some b, rd_length = len, rd_position = p + 4\<rparr>) else None)"
    "reader_u8 \<lparr>rd_base = Some b, rd_length = len, rd_position = p\<rparr> =
      (if unat p < unat len
       then Some (b ! unat p, \<lparr>rd_base = Some b, rd_length = len, rd_position = p + 1\<rparr>) else None)"
  using assms
  by (auto simp: reader_reads_at reader_short word_le_nat_alt)

lemma reader_seek_literal:
  "reader_seek \<lparr>rd_base = Some b, rd_length = len, rd_position = p\<rparr> off =
     (if unat off \<le> unat len then Some \<lparr>rd_base = Some b, rd_length = len, rd_position = off\<rparr> else None)"
  by (simp add: reader_seek_def word_less_nat_alt)

lemma record_fields:
  assumes "length bs = unat n"
  shows "local_apic_fields (reader_init (Some bs) (ucast (n :: u8))) =
      (if 8 \<le> length bs then Some (ucast (bs ! 3), le32 bs 4) else None)"
    "x2apic_fields (reader_init (Some bs) (ucast n)) =
      (if 12 \<le> length bs then Some (le32 bs 4, le32 bs 8) else None)"
proof -
  consider "unat n < 3" | "unat n = 3" | "4 \<le> unat n" "unat n < 8" | "8 \<le> unat n" by linarith
  then show "local_apic_fields (reader_init (Some bs) (ucast n)) =
      (if 8 \<le> length bs then Some (ucast (bs ! 3), le32 bs 4) else None)"
    by cases (simp_all add: assms local_apic_fields_def reader_seek_init reader_seek_literal reader_literal)
  consider "unat n < 4" | "4 \<le> unat n" "unat n < 8" | "8 \<le> unat n" "unat n < 12" | "12 \<le> unat n" by linarith
  then show "x2apic_fields (reader_init (Some bs) (ucast n)) =
      (if 12 \<le> length bs then Some (le32 bs 4, le32 bs 8) else None)"
    by cases (simp_all add: assms x2apic_fields_def reader_seek_init reader_seek_literal reader_literal)
qed

lemma madt_record_added:
  assumes "length bs = unat n" "bs = load_bytes m entry (unat n)" "length (processors out) \<le> 256"
    "ty = bs ! 0"
  shows "added ps (madt_record m entry ty n out) =
      added ((case processor_of bs of None \<Rightarrow> [] | Some p \<Rightarrow> [p]) @ ps) out"
    "length (processors (madt_record m entry ty n out)) \<le> 256"
  unfolding madt_record_def Let_def assms(2) [symmetric] record_fields [OF assms(1)]
  using assms(3,4) by (simp_all add: processor_of_def add_processor_added)

lemma madt_loop_added:
  assumes "unat len \<le> 1048576" "unat offset \<le> unat len" "length (processors out) \<le> 256"
  shows "madt_loop m madt len offset out =
    Some (added (List.map_filter processor_of (madt_records (drop (unat offset) (load_bytes m madt (unat len))))) out)"
  using assms(2,3)
proof (induction "unat len - unat offset" arbitrary: offset out rule: less_induct)
  case less
  define bs where "bs = drop (unat offset) (load_bytes m madt (unat len))"
  define n where "n = m (madt + ucast offset + 1)"
  have lbs: "length bs = unat len - unat offset" by (simp add: bs_def)
  have o2: "unat (offset + 2) = unat offset + 2"
    using less.prems assms(1) by (subst unat_add_fits) simp_all
  have uo: "(ucast offset :: u64) = of_nat (unat offset)" by simp
  have byte: "bs ! i = m (madt + ucast offset + of_nat i)" if "i < length bs" for i
    using that by (simp add: bs_def add.assoc)
  have on: "unat (offset + ucast n) = unat offset + unat n"
  proof -
    have "unat offset + unat n < 4294967296" using less.prems(1) assms(1) unat_lt8 [of n] by linarith
    then show ?thesis by (subst unat_add_fits) simp_all
  qed
  note step = madt_loop.simps [of m madt len offset out]
  show ?case
  proof (cases "2 \<le> length bs \<and> 2 \<le> unat n \<and> unat n \<le> length bs")
    case False
    then consider "length bs < 2" | "2 \<le> length bs" "bs ! 1 = n" "unat n < 2 \<or> length bs < unat n"
      using byte [of 1] by (fastforce simp: n_def)
    then show ?thesis
    proof cases
      case 1
      then have "madt_records bs = []" by (simp add: madt_records.simps)
      moreover have "\<not> offset + 2 \<le> len" using 1 o2 lbs by (simp add: word_le_nat_alt)
      ultimately show ?thesis unfolding bs_def [symmetric] step using less.prems
        by (simp add: added_def List.map_filter_def)
    next
      case 2
      then have "madt_records bs = []" by (auto simp: madt_records.simps word_less_nat_alt)
      moreover have "n < 2 \<or> len < offset + ucast n"
        using 2 on lbs less.prems by (auto simp: word_less_nat_alt)
      ultimately show ?thesis unfolding bs_def [symmetric] step using less.prems
        by (auto simp: added_def List.map_filter_def Let_def n_def [symmetric])
    qed
  next
    case True
    let ?rec = "take (unat n) bs"
    let ?out = "madt_record m (madt + ucast offset) (m (madt + ucast offset)) n out"
    have n: "bs ! 1 = n" using True byte [of 1] by (simp add: n_def)
    have recs: "madt_records bs = ?rec # madt_records (drop (unat n) bs)"
      using True n by (subst madt_records.simps) (simp add: word_less_nat_alt)
    have rec: "?rec = load_bytes m (madt + ucast offset) (unat n)"
      unfolding bs_def uo by (intro load_bytes_slice [symmetric]) (use True lbs less.prems in linarith)
    have ty: "m (madt + ucast offset) = ?rec ! 0" using True byte [of 0] by (cases bs) auto
    have len: "length ?rec = unat n" using True by simp
    note add = madt_record_added [OF len rec less.prems(2) ty]
    have nxt: "drop (unat n) bs = drop (unat (offset + ucast n)) (load_bytes m madt (unat len))"
      unfolding on bs_def by (simp add: add.commute)
    have fit: "unat offset + unat n \<le> unat len" "2 \<le> unat n"
      using True lbs less.prems(1) by (elim conjE, linarith)+
    then have "unat len - unat (offset + ucast n) < unat len - unat offset" unfolding on by linarith
    note fit' = this
    have "madt_loop m madt len offset out = madt_loop m madt len (offset + ucast n) ?out"
    proof -
      from fit have "offset + 2 \<le> len" "\<not> n < 2" "\<not> len < offset + ucast n"
        using o2 on by (simp_all add: word_le_nat_alt word_less_nat_alt)
      then show ?thesis unfolding step by (simp add: Let_def n_def [symmetric])
    qed
    also have "\<dots> = Some (added (List.map_filter processor_of (madt_records (drop (unat n) bs))) ?out)"
      unfolding nxt by (rule less.hyps [OF fit' _ add(2)]) (use on fit in simp)
    also have "\<dots> = Some (added (List.map_filter processor_of (madt_records bs)) out)"
      unfolding add(1) recs by (simp add: List.map_filter_def split: option.split)
    finally show ?thesis unfolding bs_def .
  qed
qed

definition madt_processors :: "u8 list \<Rightarrow> acpi_processor list" where
  "madt_processors bs = List.map_filter processor_of (madt_records (drop 44 bs))"

lemma find_table_from_mem: "find_table_from m ts s \<noteq> 0 \<Longrightarrow> find_table_from m ts s \<in> set ts"
  by (induction ts) (auto split: if_splits)

lemma acpi_processors_run:
  assumes "list_all (table_usable m) (tables ts)"
  shows "acpi_processors m ts =
    (let madt = acpi_find_table m ts ACPI_SIGNATURE_MADT; bs = table_bytes m madt; ps = madt_processors bs
     in if madt = 0 \<or> length bs < 44 then
          Some (False, \<lparr>processors = [], local_apic_address = 0, processors_truncated = False\<rparr>)
        else Some (ps \<noteq> [], \<lparr>processors = take 256 ps, local_apic_address = ucast (le32 bs 36),
                            processors_truncated = (length ps > 256)\<rparr>))"
proof (cases "acpi_find_table m ts ACPI_SIGNATURE_MADT = 0")
  case True
  then show ?thesis by (simp add: acpi_processors_def Let_def)
next
  case False
  define madt where "madt = acpi_find_table m ts ACPI_SIGNATURE_MADT"
  have nz: "madt \<noteq> 0" using False by (simp add: madt_def)
  then have "madt \<in> set (tables ts)"
    using find_table_from_mem by (simp add: madt_def acpi_find_table_def)
  then have "table_usable m madt" using assms by (simp add: list_all_iff)
  from table_usable_length [OF this] have max: "unat (table_length m madt) \<le> 1048576" by blast
  show ?thesis
  proof (cases "unat (table_length m madt) < 44")
    case True
    then show ?thesis using nz
      by (simp add: acpi_processors_def Let_def madt_def [symmetric] word_less_nat_alt)
  next
    case False
    define out where "out = \<lparr>processors = [], local_apic_address = ucast (le32 (table_bytes m madt) 36), processors_truncated = False\<rparr>"
    have loop: "madt_loop m madt (table_length m madt) 44 out = Some (added (madt_processors (table_bytes m madt)) out)"
      using madt_loop_added [OF max, of 44 out m madt] False by (simp add: out_def madt_processors_def table_bytes_def)
    have "length (take 256 ps) > 0 \<longleftrightarrow> ps \<noteq> []" for ps :: "acpi_processor list" by (cases ps) simp_all
    moreover have "do { r \<leftarrow> reader_seek (reader_init (Some (load_bytes m madt (unat (table_length m madt)))) (ucast (table_length m madt))) 36;
         reader_u32 r } = Some (le32 (table_bytes m madt) 36,
           \<lparr>rd_base = Some (table_bytes m madt), rd_length = ucast (table_length m madt), rd_position = 40\<rparr>)"
      using False by (simp add: reader_seek_init reader_reads_at table_bytes_def)
    ultimately show ?thesis using False nz loop
      by (simp add: acpi_processors_def Let_def madt_def [symmetric] word_less_nat_alt out_def added_def)
  qed
qed

text \<open>
  C29. Reading the processors out of the tables that were collected always ends, and gives exactly the
  first 256 processors of the MADT's records (types 0 and 9, enabled if either flag is set) with the
  address of the local APIC, whatever lengths the records claim: a record of length 0 or 1, or one past the
  end of the table, ends the list.
\<close>

theorem acpi_processors_exact:
  assumes "list_all (table_usable m) (tables ts)"
  shows "acpi_processors m ts =
    (let madt = acpi_find_table m ts ACPI_SIGNATURE_MADT; bs = table_bytes m madt; ps = madt_processors bs
     in if madt = 0 \<or> length bs < 44 then
          Some (False, \<lparr>processors = [], local_apic_address = 0, processors_truncated = False\<rparr>)
        else Some (ps \<noteq> [], \<lparr>processors = take 256 ps, local_apic_address = ucast (le32 bs 36),
                            processors_truncated = (length ps > 256)\<rparr>))"
  by (rule acpi_processors_run [OF assms])

text \<open>
  A root pointer of revision 2 that gives its length as 20 passes the checks whatever the eight bytes at
  the offset of the XSDT's address are, as those lie behind what was summed.
\<close>

lemma below_xsdt:
  assumes "i < 24" shows "store64 m (r + 24) v (r + of_nat i) = m (r + of_nat i)"
proof (rule store64_outside)
  have "r + of_nat i - (r + 24) = - of_nat (24 - i)" using assms by (simp add: of_nat_diff)
  moreover have "unat (of_nat (24 - i) :: u64) = 24 - i" by (rule unat_of_nat64) simp
  then have "unat (- of_nat (24 - i) :: u64) = 2 ^ 64 - (24 - i)" using assms
    by (subst unat_neg) (auto simp: unat_eq_0 [symmetric])
  ultimately show "\<not> in_range (r + 24) 8 (r + of_nat i)" using assms by (simp add: in_range_def)
qed

lemma rsdp_short_xsdt_unchecked:
  assumes "acpi_rsdp_valid m r" "le32 (load_bytes m r 24) 20 = 20"
  shows "acpi_rsdp_valid (store64 m (r + 24) v) r"
proof -
  let ?m = "store64 m (r + 24) v"
  have l: "load_bytes ?m r n = load_bytes m r n" if "n \<le> 24" for n
    using that below_xsdt by (auto simp: load_bytes_def)
  have c: "acpi_checksum ?m r n = acpi_checksum m r n" if "n \<le> 24" for n
    using that below_xsdt by (auto simp: acpi_checksum_def intro!: fold_cong arg_cong [where f = "\<lambda>x. x = 0"])
  have b: "?m (r + 15) = m (r + 15)" "?m (r + 20) = m (r + 20)" "?m (r + 20 + 1) = m (r + 20 + 1)"
      "?m (r + 20 + 2) = m (r + 20 + 2)" "?m (r + 20 + 3) = m (r + 20 + 3)"
    using below_xsdt [of 15 m r v] below_xsdt [of 20 m r v] below_xsdt [of 21 m r v] below_xsdt [of 22 m r v] below_xsdt [of 23 m r v]
    by (simp_all add: add.assoc)
  have len: "ucast (m (r + 20)) OR push_bit 8 (ucast (m (r + 20 + 1))) OR push_bit 16 (ucast (m (r + 20 + 2))) OR
      push_bit 24 (ucast (m (r + 20 + 3))) = (20 :: u32)"
    using assms(2) by (simp add: le32_def little_endian_4 add.commute)
  have "unat (20 :: u32) = 20" by simp
  with assms(1) show ?thesis unfolding acpi_rsdp_valid_def Let_def b len
    by (simp add: l c split: if_splits)
qed

text \<open>A MADT with one processor at 0x3000.\<close>

definition demo_madt :: "u8 list" where
  "demo_madt = [65, 80, 73, 67, 52, 0, 0, 0, 1, 194, 0, 0, 0, 0, 0, 0, 0, 0, 0, 0, 0, 0, 0, 0, 0, 0, 0, 0,
     0, 0, 0, 0, 0, 0, 0, 0, 0, 0, 224, 254, 0, 0, 0, 0, 0, 8, 0, 5, 1, 0, 0, 0]"

definition demo_acpi_mem :: mem where
  "demo_acpi_mem = store_bytes (\<lambda>_. 0) 0x3000 demo_madt"

lemma length_demo_madt: "length demo_madt = 52"
  by (simp add: demo_madt_def)

lemma demo_madt_bytes: "load_bytes demo_acpi_mem 0x3000 52 = demo_madt"
  using load_store_bytes [of demo_madt "\<lambda>_. 0" "0x3000"] by (simp add: demo_acpi_mem_def length_demo_madt)

lemma demo_madt_length: "table_length demo_acpi_mem 0x3000 = 52"
  unfolding table_length_le32 [of 52, simplified] demo_madt_bytes le32_def
  by (simp add: little_endian_4 demo_madt_def)

lemma demo_madt_usable: "table_usable demo_acpi_mem 0x3000"
  by (simp add: table_usable_def demo_madt_length acpi_checksum_sum demo_madt_bytes) (simp add: demo_madt_def)

lemma demo_madt_processors: "madt_processors demo_madt = [\<lparr>apic_id = 5, enabled = True\<rparr>]"
  by (simp add: madt_processors_def demo_madt_def madt_records.simps processor_of_def le32_def little_endian_4)

lemma demo_madt_found: "find_table_from demo_acpi_mem [0x3000] ACPI_SIGNATURE_MADT = 0x3000"
proof -
  have "load_bytes demo_acpi_mem 0x3000 4 = take 4 demo_madt"
    using load_bytes_slice [of 0 4 52 demo_acpi_mem "0x3000"] demo_madt_bytes by simp
  moreover have "memcmp_bytes (take 4 demo_madt) ACPI_SIGNATURE_MADT 4 = 0" by code_simp
  ultimately show ?thesis by simp
qed

definition demo_tables :: acpi_tables where
  "demo_tables = \<lparr>tables = [0x3000], rsdp = 0x1000, acpi_revision = 0, tables_truncated = False\<rparr>"

theorem acpi_processors_exact_witness:
  "acpi_processors demo_acpi_mem demo_tables =
     Some (True, \<lparr>processors = [\<lparr>apic_id = 5, enabled = True\<rparr>], local_apic_address = 0xFEE00000,
                  processors_truncated = False\<rparr>)"
proof -
  have "list_all (table_usable demo_acpi_mem) (tables demo_tables)"
    using demo_madt_usable by (simp add: demo_tables_def)
  moreover have "table_bytes demo_acpi_mem 0x3000 = demo_madt"
    by (simp add: table_bytes_def demo_madt_length demo_madt_bytes)
  moreover have "le32 demo_madt 36 = 0xFEE00000"
    by (simp add: le32_def little_endian_4 demo_madt_def)
  moreover have "acpi_find_table demo_acpi_mem demo_tables ACPI_SIGNATURE_MADT = 0x3000"
    using demo_madt_found by (simp only: acpi_find_table_def demo_tables_def acpi_tables.simps)
  ultimately show ?thesis
    using acpi_processors_exact [of demo_acpi_mem demo_tables]
    by (simp add: demo_madt_processors demo_madt_length Let_def)
qed

end
