(* ===== verification/Pci.thy ===== *)
theory Pci
  imports Boot_Prelude
begin

text \<open>
  \<open>src/pci/pci.c\<close>: walking the PCI buses. The configuration space is what the injected \<open>read\<close> answers,
  a function of bus, device, function and offset, as reading these registers changes nothing. The walk over
  the pending buses is a \<open>partial_function\<close>, since only the table of seen buses makes it end.
\<close>

abbreviation (input) PCI_CONFIG_ENABLE :: u32 where "PCI_CONFIG_ENABLE \<equiv> 0x80000000"
abbreviation (input) PCI_VENDOR_OFFSET :: u8 where "PCI_VENDOR_OFFSET \<equiv> 0x00"
abbreviation (input) PCI_CLASS_OFFSET :: u8 where "PCI_CLASS_OFFSET \<equiv> 0x08"
abbreviation (input) PCI_HEADER_TYPE_OFFSET :: u8 where "PCI_HEADER_TYPE_OFFSET \<equiv> 0x0C"
abbreviation (input) PCI_HEADER_TYPE_MULTIFUNCTION :: u8 where "PCI_HEADER_TYPE_MULTIFUNCTION \<equiv> 0x80"
abbreviation (input) PCI_HEADER_TYPE_MASK :: u8 where "PCI_HEADER_TYPE_MASK \<equiv> 0x7F"
abbreviation (input) PCI_HEADER_TYPE_BRIDGE :: u8 where "PCI_HEADER_TYPE_BRIDGE \<equiv> 0x01"
abbreviation (input) PCI_VENDOR_NONE :: u32 where "PCI_VENDOR_NONE \<equiv> 0xFFFF"
abbreviation (input) PCI_BUSES :: nat where "PCI_BUSES \<equiv> 256"
abbreviation (input) PCI_DEVICES_PER_BUS :: nat where "PCI_DEVICES_PER_BUS \<equiv> 32"
abbreviation (input) PCI_FUNCTIONS_PER_DEVICE :: nat where "PCI_FUNCTIONS_PER_DEVICE \<equiv> 8"
abbreviation (input) PCI_MAX_DEVICES :: nat where "PCI_MAX_DEVICES \<equiv> 64"
abbreviation (input) BUS_SHIFT :: nat where "BUS_SHIFT \<equiv> 16"
abbreviation (input) DEVICE_SHIFT :: nat where "DEVICE_SHIFT \<equiv> 11"
abbreviation (input) FUNCTION_SHIFT :: nat where "FUNCTION_SHIFT \<equiv> 8"
abbreviation (input) OFFSET_MASK :: u8 where "OFFSET_MASK \<equiv> 0xFC"
abbreviation (input) BRIDGE_SECONDARY_BUS_OFFSET :: u8 where "BRIDGE_SECONDARY_BUS_OFFSET \<equiv> 0x18"
abbreviation (input) BRIDGE_SECONDARY_BUS_SHIFT :: nat where "BRIDGE_SECONDARY_BUS_SHIFT \<equiv> 8"

type_synonym pci_config_read_fn = "u8 \<Rightarrow> u8 \<Rightarrow> u8 \<Rightarrow> u8 \<Rightarrow> u32"

record pci_device =
  bus :: u8
  device :: u8
  func :: u8
  vendor :: u16
  "identifier" :: u16
  class_code :: u8
  "subclass" :: u8
  interface :: u8

record pci_devices =
  devices :: "pci_device list"
  devices_truncated :: bool

record pci_walk =
  walk_out :: pci_devices
  pending :: "bool list"
  seen :: "bool list"

definition pci_config_address :: "u8 \<Rightarrow> u8 \<Rightarrow> u8 \<Rightarrow> u8 \<Rightarrow> u32" where
  "pci_config_address b d f offset =
     PCI_CONFIG_ENABLE OR push_bit BUS_SHIFT (ucast b) OR push_bit DEVICE_SHIFT (ucast d) OR
     push_bit FUNCTION_SHIFT (ucast f) OR ucast (offset AND OFFSET_MASK)"

definition pci_record :: "pci_devices \<Rightarrow> u8 \<Rightarrow> u8 \<Rightarrow> u8 \<Rightarrow> u32 \<Rightarrow> u32 \<Rightarrow> bool \<times> pci_devices" where
  "pci_record out b d f identity class_word =
     (if length (devices out) = PCI_MAX_DEVICES then (False, out\<lparr>devices_truncated := True\<rparr>)
      else (True, out\<lparr>devices := devices out @
        [\<lparr>bus = b, device = d, func = f,
          vendor = ucast (identity AND 0xFFFF), identifier = ucast (drop_bit 16 identity),
          class_code = ucast (drop_bit 24 class_word AND 0xFF),
          subclass = ucast (drop_bit 16 class_word AND 0xFF),
          interface = ucast (drop_bit 8 class_word AND 0xFF)\<rparr>]\<rparr>))"

definition visit_function :: "pci_config_read_fn \<Rightarrow> u8 \<Rightarrow> u8 \<Rightarrow> u8 \<Rightarrow> pci_walk \<Rightarrow> pci_walk" where
  "visit_function read b d f w =
     (let identity = read b d f PCI_VENDOR_OFFSET
      in if identity AND 0xFFFF = PCI_VENDOR_NONE then w
         else
           let class_word = read b d f PCI_CLASS_OFFSET;
               (ok, out) = pci_record (walk_out w) b d f identity class_word;
               w = w\<lparr>walk_out := out\<rparr>
           in if \<not> ok then w
              else
                let header_word = read b d f PCI_HEADER_TYPE_OFFSET;
                    header = ucast (drop_bit 16 header_word AND 0xFF) :: u8
                in if header AND PCI_HEADER_TYPE_MASK \<noteq> PCI_HEADER_TYPE_BRIDGE then w
                   else
                     let bus_word = read b d f BRIDGE_SECONDARY_BUS_OFFSET;
                         secondary = ucast (drop_bit BRIDGE_SECONDARY_BUS_SHIFT bus_word AND 0xFF) :: u8
                     in if \<not> seen w ! unat secondary then w\<lparr>pending := (pending w)[unat secondary := True]\<rparr>
                        else w)"

definition visit_device :: "pci_config_read_fn \<Rightarrow> u8 \<Rightarrow> u8 \<Rightarrow> pci_walk \<Rightarrow> pci_walk" where
  "visit_device read b d w =
     (let identity = read b d 0 PCI_VENDOR_OFFSET
      in if identity AND 0xFFFF = PCI_VENDOR_NONE then w
         else
           let w = visit_function read b d 0 w;
               header_word = read b d 0 PCI_HEADER_TYPE_OFFSET;
               header = ucast (drop_bit 16 header_word AND 0xFF) :: u8
           in if header AND PCI_HEADER_TYPE_MULTIFUNCTION = 0 then w
              else fold (\<lambda>function. visit_function read b d (of_nat function)) [1..<PCI_FUNCTIONS_PER_DEVICE] w)"

text \<open>The first pending bus from \<open>index\<close> on, \<open>PCI_BUSES\<close> when there is none.\<close>

fun next_bus :: "bool list \<Rightarrow> nat \<Rightarrow> nat" where
  "next_bus [] index = PCI_BUSES"
| "next_bus (p # ps) index = (if p then index else next_bus ps (index + 1))"

partial_function (option) walk_buses :: "pci_config_read_fn \<Rightarrow> pci_walk \<Rightarrow> pci_walk option" where
  "walk_buses read w =
     (let b = next_bus (pending w) 0
      in if b = PCI_BUSES then Some w
         else
           let w = w\<lparr>pending := (pending w)[b := False], seen := (seen w)[b := True]\<rparr>
           in walk_buses read
                (fold (\<lambda>device. visit_device read (of_nat b) (of_nat device)) [0..<PCI_DEVICES_PER_BUS] w))"

definition pci_enumerate :: "pci_config_read_fn \<Rightarrow> (nat \<times> pci_devices) option" where
  "pci_enumerate read =
     (let w = \<lparr>walk_out = \<lparr>devices = [], devices_truncated = False\<rparr>,
               pending = (replicate PCI_BUSES False)[0 := True], seen = replicate PCI_BUSES False\<rparr>
      in map_option (\<lambda>w. (length (devices (walk_out w)), walk_out w)) (walk_buses read w))"

subsection \<open>What there is to find\<close>

type_synonym slot = "u8 \<times> u8 \<times> u8"

definition header_of :: "pci_config_read_fn \<Rightarrow> slot \<Rightarrow> u8" where
  "header_of read = (\<lambda>(b, d, f). ucast (drop_bit 16 (read b d f 0x0C) AND 0xFF))"

definition answers :: "pci_config_read_fn \<Rightarrow> slot \<Rightarrow> bool" where
  "answers read = (\<lambda>(b, d, f). read b d f 0 AND 0xFFFF \<noteq> 0xFFFF)"

definition secondary_of :: "pci_config_read_fn \<Rightarrow> slot \<Rightarrow> u8" where
  "secondary_of read = (\<lambda>(b, d, f). ucast (drop_bit 8 (read b d f 0x18) AND 0xFF))"

definition is_bridge :: "pci_config_read_fn \<Rightarrow> slot \<Rightarrow> bool" where
  "is_bridge read s \<longleftrightarrow> header_of read s AND 0x7F = 1"

text \<open>The functions that are present on a bus: those of function 0 of each device, and the other seven of
  a device that says it has more than one.\<close>

definition present :: "pci_config_read_fn \<Rightarrow> slot \<Rightarrow> bool" where
  "present read = (\<lambda>(b, d, f). d < 32 \<and> f < 8 \<and> answers read (b, d, 0) \<and> answers read (b, d, f) \<and>
     (f = 0 \<or> header_of read (b, d, 0) AND 0x80 \<noteq> 0))"

inductive bus_reachable :: "pci_config_read_fn \<Rightarrow> u8 \<Rightarrow> bool" for read where
  root: "bus_reachable read 0"
| bridge: "bus_reachable read b \<Longrightarrow> present read (b, d, f) \<Longrightarrow> is_bridge read (b, d, f) \<Longrightarrow>
    bus_reachable read (secondary_of read (b, d, f))"

definition slot_of :: "pci_device \<Rightarrow> slot" where
  "slot_of e = (bus e, device e, func e)"

definition device_at :: "pci_config_read_fn \<Rightarrow> slot \<Rightarrow> pci_device" where
  "device_at read = (\<lambda>(b, d, f).
     \<lparr>bus = b, device = d, func = f, vendor = ucast (read b d f 0 AND 0xFFFF),
      identifier = ucast (drop_bit 16 (read b d f 0)), class_code = ucast (drop_bit 24 (read b d f 8) AND 0xFF),
      subclass = ucast (drop_bit 16 (read b d f 8) AND 0xFF),
      interface = ucast (drop_bit 8 (read b d f 8) AND 0xFF)\<rparr>)"

definition machine :: "pci_config_read_fn \<Rightarrow> slot set" where
  "machine read = {s. present read s \<and> bus_reachable read (fst s)}"

subsection \<open>One bus\<close>

text \<open>The functions the code probes on a device, in order.\<close>

definition probed :: "pci_config_read_fn \<Rightarrow> u8 \<Rightarrow> u8 \<Rightarrow> slot list" where
  "probed read b d =
     (if \<not> answers read (b, d, 0) then []
      else map (\<lambda>f. (b, d, of_nat f)) (if header_of read (b, d, 0) AND 0x80 = 0 then [0] else [0..<8]))"

definition bus_slots :: "pci_config_read_fn \<Rightarrow> u8 \<Rightarrow> slot list" where
  "bus_slots read b = filter (answers read) (concat (map (\<lambda>d. probed read b (of_nat d)) [0..<32]))"

definition visit :: "pci_config_read_fn \<Rightarrow> slot \<Rightarrow> pci_walk \<Rightarrow> pci_walk" where
  "visit read s w =
     (if length (devices (walk_out w)) = 64 then w\<lparr>walk_out := walk_out w\<lparr>devices_truncated := True\<rparr>\<rparr>
      else
        let w = w\<lparr>walk_out := walk_out w\<lparr>devices := devices (walk_out w) @ [device_at read s]\<rparr>\<rparr>
        in if is_bridge read s \<and> \<not> seen w ! unat (secondary_of read s)
           then w\<lparr>pending := (pending w)[unat (secondary_of read s) := True]\<rparr> else w)"

lemma visit_function_visit:
  "visit_function read b d f w = (if answers read (b, d, f) then visit read (b, d, f) w else w)"
  by (simp add: visit_function_def visit_def pci_record_def answers_def is_bridge_def header_of_def
      secondary_of_def device_at_def Let_def)

lemma fold_filter: "fold (\<lambda>s. if P s then g s else (\<lambda>x. x)) ss = fold g (filter P ss)"
  by (induction ss) auto

lemma visit_device_probed:
  "visit_device read b d = fold (\<lambda>s. if answers read s then visit read s else (\<lambda>x. x)) (probed read b d)"
proof -
  have up: "[0..<8] = 0 # [1..<8 :: nat]" by (simp add: upt_rec)
  have v: "visit_function read b d f = (if answers read (b, d, f) then visit read (b, d, f) else (\<lambda>x. x))" for f
    by (auto simp: visit_function_visit)
  have "visit_device read b d w = fold (\<lambda>s. if answers read s then visit read s else (\<lambda>x. x)) (probed read b d) w" for w
  proof (cases "answers read (b, d, 0)")
    case False
    then show ?thesis by (simp add: visit_device_def probed_def) (simp add: answers_def)
  next
    case True
    then have "read b d 0 0 AND 0xFFFF \<noteq> 0xFFFF" by (simp add: answers_def)
    then show ?thesis unfolding visit_device_def probed_def Let_def v up
      by (simp add: header_of_def True fold_map o_def)
  qed
  then show ?thesis by blast
qed

lemma visit_bus:
  "fold (\<lambda>d. visit_device read b (of_nat d)) [0..<32] = fold (visit read) (bus_slots read b)"
proof -
  have "fold (\<lambda>d. visit_device read b (of_nat d)) ds =
      fold (\<lambda>s. if answers read s then visit read s else (\<lambda>x. x)) (concat (map (\<lambda>d. probed read b (of_nat d)) ds))" for ds
    by (induction ds) (simp_all add: visit_device_probed)
  then show ?thesis by (simp add: fold_filter bus_slots_def)
qed

lemma set_bus_slots: "set (bus_slots read b) = {s. present read s \<and> fst s = b}"
proof -
  have d: "(\<exists>n \<in> {0..<32}. d = of_nat n) \<longleftrightarrow> d < 32" for d :: u8
  proof
    assume "d < 32"
    then show "\<exists>n \<in> {0..<32}. d = of_nat n"
      by (intro bexI [of _ "unat d"]) (auto simp: word_less_nat_alt)
  qed (auto simp: word_less_nat_alt unat_of_nat)
  have f: "(\<exists>n \<in> {0..<8}. d = of_nat n) \<longleftrightarrow> d < 8" for d :: u8
  proof
    assume "d < 8"
    then show "\<exists>n \<in> {0..<8}. d = of_nat n"
      by (intro bexI [of _ "unat d"]) (auto simp: word_less_nat_alt)
  qed (auto simp: word_less_nat_alt unat_of_nat)
  show ?thesis
  proof (intro set_eqI iffI)
    fix s assume "s \<in> set (bus_slots read b)"
    then show "s \<in> {s. present read s \<and> fst s = b}"
      using d f by (auto simp: bus_slots_def probed_def present_def split: if_splits)
  next
    fix s assume "s \<in> {s. present read s \<and> fst s = b}"
    then obtain e g where s: "s = (b, e, g)" and p: "present read (b, e, g)" by (cases s) auto
    from p have "e < 32" "g < 8" by (simp_all add: present_def)
    with d [of e] f [of g] obtain n k where n: "n < 32" "e = of_nat n" and k: "k < 8" "g = of_nat k" by auto
    from p have "(b, e, g) \<in> set (probed read b e)"
      using k by (auto simp: present_def probed_def)
    then show "s \<in> set (bus_slots read b)"
      using p n by (auto simp: s bus_slots_def present_def)
  qed
qed

lemma distinct_bus_slots: "distinct (bus_slots read b)"
proof -
  have inj: "inj_on (of_nat :: nat \<Rightarrow> u8) {0..<n}" if "n \<le> 256" for n
    using that by (intro inj_onI) (auto dest!: arg_cong [where f = unat] simp: unat_of_nat)
  have p: "distinct (probed read b d)" for d
    using inj [of 8] by (auto simp: probed_def distinct_map inj_on_def)
  have disj: "d \<noteq> e \<Longrightarrow> set (probed read b d) \<inter> set (probed read b e) = {}" for d e
    by (auto simp: probed_def split: if_splits)
  have "distinct (concat (map (\<lambda>d. probed read b (of_nat d)) [0..<n]))" if "n \<le> 32" for n
    using that
  proof (induction n)
    case (Suc n)
    have "(of_nat i :: u8) \<noteq> of_nat n" if "i < n" for i
      using that Suc.prems inj_onD [OF inj [of 32], of i n] by auto
    with disj have "set (probed read b (of_nat i)) \<inter> set (probed read b (of_nat n)) = {}" if "i < n" for i
      using that by blast
    with Suc p show ?case by fastforce
  qed simp
  then show ?thesis by (simp add: bus_slots_def)
qed

lemma slot_of_device_at [simp]: "slot_of (device_at read s) = s"
  by (cases s) (simp add: slot_of_def device_at_def)

subsection \<open>The walk\<close>

definition slots :: "pci_walk \<Rightarrow> slot list" where
  "slots w = map slot_of (devices (walk_out w))"

text \<open>What holds when exactly the functions in \<open>V\<close> have been visited.\<close>

definition walk_inv :: "pci_config_read_fn \<Rightarrow> slot set \<Rightarrow> pci_walk \<Rightarrow> bool" where
  "walk_inv read V w \<longleftrightarrow>
     length (pending w) = 256 \<and> length (seen w) = 256 \<and> V \<subseteq> machine read \<and>
     distinct (slots w) \<and> set (slots w) \<subseteq> V \<and> devices (walk_out w) = map (device_at read) (slots w) \<and>
     length (slots w) \<le> 64 \<and>
     (if devices_truncated (walk_out w) then length (slots w) = 64 \<and> V \<noteq> set (slots w)
      else set (slots w) = V \<and>
        (\<forall>s \<in> V. is_bridge read s \<longrightarrow>
           seen w ! unat (secondary_of read s) \<or> pending w ! unat (secondary_of read s))) \<and>
     (\<forall>b. pending w ! unat (b :: u8) \<longrightarrow> \<not> seen w ! unat b \<and> bus_reachable read b) \<and>
     (\<forall>b. seen w ! unat (b :: u8) \<longrightarrow> bus_reachable read b) \<and>
     (\<exists>b :: u8. b = 0 \<and> (seen w ! unat b \<or> pending w ! unat b))"

lemma unat_u8_length: "length xs = 256 \<Longrightarrow> unat (b :: u8) < length xs"
  by simp

lemma visit_inv:
  assumes inv: "walk_inv read V w" and s: "s \<in> machine read" "s \<notin> V"
  shows "walk_inv read (insert s V) (visit read s w)" "seen (visit read s w) = seen w"
proof -
  have len: "length (devices (walk_out w)) = length (slots w)" by (simp add: slots_def)
  note i = inv [unfolded walk_inv_def]
  show "seen (visit read s w) = seen w" by (simp add: visit_def Let_def)
  show "walk_inv read (insert s V) (visit read s w)"
  proof (cases "length (slots w) = 64")
    case True
    then have v: "visit read s w = w\<lparr>walk_out := walk_out w\<lparr>devices_truncated := True\<rparr>\<rparr>"
      by (simp add: visit_def len)
    have "slots (visit read s w) = slots w" by (simp add: v slots_def)
    moreover have "insert s V \<noteq> set (slots w)" using i s by blast
    ultimately show ?thesis using i s True unfolding walk_inv_def by (simp add: v) blast
  next
    case False
    let ?w = "w\<lparr>walk_out := walk_out w\<lparr>devices := devices (walk_out w) @ [device_at read s]\<rparr>\<rparr>"
    let ?b = "unat (secondary_of read s)"
    have nt: "\<not> devices_truncated (walk_out w)" "set (slots w) = V" using i False by (auto split: if_splits)
    have sl: "slots ?w = slots w @ [s]" "slots (?w\<lparr>pending := p\<rparr>) = slots w @ [s]" for p
      by (simp_all add: slots_def)
    have common: "distinct (slots w @ [s])" "set (slots w @ [s]) = insert s V" "length (slots w @ [s]) \<le> 64"
      "insert s V \<subseteq> machine read" "devices (walk_out w) @ [device_at read s] = map (device_at read) (slots w @ [s])"
      using i s False nt by auto
    have sec: "bus_reachable read (secondary_of read s)" if "is_bridge read s"
      using that s(1) bus_reachable.bridge by (cases s) (auto simp: machine_def)
    show ?thesis
    proof (cases "is_bridge read s \<and> \<not> seen w ! ?b")
      case True
      then have v: "visit read s w = ?w\<lparr>pending := (pending w)[?b := True]\<rparr>"
        using False by (simp add: visit_def len Let_def)
      have upd: "(pending w)[?b := True] ! unat c \<longleftrightarrow> c = secondary_of read s \<or> pending w ! unat c" for c :: u8
        using i by (auto simp: nth_list_update dest: unat_inj)
      show ?thesis unfolding walk_inv_def v sl
        using i nt True common sec upd by (auto simp: )
    next
      case no: False
      then have v: "visit read s w = ?w" using False by (simp add: visit_def len Let_def) blast
      show ?thesis unfolding walk_inv_def v sl using i nt no common by auto
    qed
  qed
qed

lemma fold_visit_inv:
  assumes "walk_inv read V w" "set ss \<subseteq> machine read" "distinct ss" "set ss \<inter> V = {}"
  shows "walk_inv read (V \<union> set ss) (fold (visit read) ss w) \<and> seen (fold (visit read) ss w) = seen w"
  using assms
proof (induction ss arbitrary: w V)
  case (Cons s ss)
  then have "walk_inv read (insert s V) (visit read s w)" "seen (visit read s w) = seen w"
    using visit_inv [of read V w s] by auto
  with Cons.IH [of "insert s V" "visit read s w"] Cons.prems show ?case by auto
qed simp

lemma next_bus_cases:
  obtains "next_bus ps k = 256" "\<forall>i < length ps. \<not> ps ! i"
  | i where "i < length ps" "next_bus ps k = k + i" "ps ! i"
proof -
  have "(next_bus ps k = 256 \<and> (\<forall>i < length ps. \<not> ps ! i)) \<or> (\<exists>i < length ps. next_bus ps k = k + i \<and> ps ! i)"
  proof (induction ps arbitrary: k)
    case (Cons p ps)
    show ?case
    proof (cases p)
      case True
      then show ?thesis by (intro disjI2 exI [of _ 0]) simp
    next
      case False
      from Cons.IH [of "k + 1"] show ?thesis
      proof
        assume "next_bus ps (k + 1) = 256 \<and> (\<forall>i < length ps. \<not> ps ! i)"
        then show ?thesis using False by (auto simp: nth_Cons split: nat.split)
      next
        assume "\<exists>i < length ps. next_bus ps (k + 1) = k + 1 + i \<and> ps ! i"
        then obtain i where "i < length ps" "next_bus ps (k + 1) = k + 1 + i" "ps ! i" by blast
        then show ?thesis using False by (intro disjI2 exI [of _ "Suc i"]) simp
      qed
    qed
  qed simp
  then show thesis using that by blast
qed

text \<open>The functions of the buses seen so far.\<close>

definition visited :: "pci_config_read_fn \<Rightarrow> pci_walk \<Rightarrow> slot set" where
  "visited read w = {s. present read s \<and> seen w ! unat (fst s)}"

lemma walk_buses_inv:
  assumes "walk_inv read (visited read w) w"
  shows "\<exists>w'. walk_buses read w = Some w' \<and> walk_inv read (visited read w') w' \<and>
    (\<forall>b :: u8. \<not> pending w' ! unat b)"
  using assms
proof (induction "card {b :: u8. \<not> seen w ! unat b}" arbitrary: w rule: less_induct)
  case less
  have len: "length (pending w) = 256" "length (seen w) = 256" using less.prems by (auto simp: walk_inv_def)
  show ?case
  proof (cases rule: next_bus_cases [of "pending w" 0])
    case 1
    then have "walk_buses read w = Some w" by (subst walk_buses.simps) (simp add: Let_def)
    moreover have "\<not> pending w ! unat b" for b :: u8 using 1(2) len(1) unat_lt8 [of b] by simp
    ultimately show ?thesis using less.prems by blast
  next
    case (2 i)
    define b :: u8 where "b = of_nat i"
    have i: "i = unat b" using 2(1) len(1) by (simp add: b_def unat_of_nat)
    let ?w = "w\<lparr>pending := (pending w)[i := False], seen := (seen w)[i := True]\<rparr>"
    let ?w' = "fold (visit read) (bus_slots read b) ?w"
    have nb: "\<not> seen w ! unat b" "bus_reachable read b" using less.prems 2(3) i by (auto simp: walk_inv_def)
    have seen': "seen ?w ! unat c \<longleftrightarrow> c = b \<or> seen w ! unat c" for c :: u8
      using len 2(1) i by (auto simp: nth_list_update dest: unat_inj)
    have pend': "pending ?w ! unat c \<longleftrightarrow> c \<noteq> b \<and> pending w ! unat c" for c :: u8
      using len 2(1) i by (auto simp: nth_list_update dest: unat_inj)
    have "slots ?w = slots w" by (simp add: slots_def)
    then have "walk_inv read (visited read w) ?w"
      using less.prems nb seen' pend' len unfolding walk_inv_def by auto
    moreover have "set (bus_slots read b) \<subseteq> machine read" "set (bus_slots read b) \<inter> visited read w = {}"
      using nb by (auto simp: set_bus_slots machine_def visited_def)
    ultimately have w': "walk_inv read (visited read w \<union> set (bus_slots read b)) ?w'" "seen ?w' = seen ?w"
      using fold_visit_inv distinct_bus_slots by blast+
    have "visited read w \<union> set (bus_slots read b) = visited read ?w'"
      using seen' w'(2) by (auto simp: visited_def set_bus_slots)
    with w' have inv: "walk_inv read (visited read ?w') ?w'" by simp
    have step: "walk_buses read w = walk_buses read ?w'"
      using 2(1,2) len by (subst walk_buses.simps) (simp add: Let_def visit_bus b_def)
    have "b \<in> {c. \<not> seen w ! unat c}" "b \<notin> {c. \<not> seen ?w' ! unat c}" using nb seen' w'(2) by auto
    moreover have "{c :: u8. \<not> seen ?w' ! unat c} \<subseteq> {c. \<not> seen w ! unat c}" using seen' w'(2) by auto
    ultimately have "card {c :: u8. \<not> seen ?w' ! unat c} < card {c :: u8. \<not> seen w ! unat c}"
      by (intro psubset_card_mono) auto
    with less.hyps [of ?w'] inv show ?thesis unfolding step by blast
  qed
qed

lemma pci_enumerate_run:
  "\<exists>out. pci_enumerate read = Some (length (devices out), out) \<and>
     distinct (map slot_of (devices out)) \<and>
     devices out = map (device_at read) (map slot_of (devices out)) \<and>
     (if devices_truncated out
      then length (devices out) = 64 \<and> set (map slot_of (devices out)) \<subset> machine read
      else set (map slot_of (devices out)) = machine read)"
proof -
  let ?w = "\<lparr>walk_out = \<lparr>devices = [], devices_truncated = False\<rparr>,
    pending = (replicate 256 False)[0 := True], seen = replicate 256 False\<rparr>"
  have none: "(replicate 256 False) ! unat b \<longleftrightarrow> False" for b :: u8 by simp
  have first: "(replicate 256 False)[0 := True] ! unat b \<longleftrightarrow> b = 0" for b :: u8
    by (cases "b = 0") (simp_all add: nth_list_update unat_eq_0)
  have "visited read ?w = {}" by (simp add: visited_def)
  moreover have "walk_inv read {} ?w"
    using bus_reachable.root by (simp add: walk_inv_def slots_def first del: nth_list_update_eq)
  ultimately obtain w where run: "walk_buses read ?w = Some w" and inv: "walk_inv read (visited read w) w"
    and idle: "\<forall>b :: u8. \<not> pending w ! unat b" using walk_buses_inv [of read ?w] by auto
  have sub: "set (slots w) \<subseteq> visited read w" "visited read w \<subseteq> machine read" using inv by (auto simp: walk_inv_def)
  have all: "machine read \<subseteq> visited read w" if nt: "\<not> devices_truncated (walk_out w)"
  proof -
    have "seen w ! unat b" if "bus_reachable read b" for b
      using that
    proof (induction rule: bus_reachable.induct)
      case root
      then show ?case using inv idle by (auto simp: walk_inv_def)
    next
      case (bridge b d f)
      then have "(b, d, f) \<in> visited read w" by (simp add: visited_def)
      then show ?case using inv idle nt bridge by (auto simp: walk_inv_def)
    qed
    then show ?thesis by (auto simp: machine_def visited_def)
  qed
  have "pci_enumerate read = Some (length (devices (walk_out w)), walk_out w)"
    by (simp add: pci_enumerate_def run)
  moreover have "if devices_truncated (walk_out w)
      then length (devices (walk_out w)) = 64 \<and> set (map slot_of (devices (walk_out w))) \<subset> machine read
      else set (map slot_of (devices (walk_out w))) = machine read"
    using inv sub all unfolding slots_def [symmetric] by (auto simp: walk_inv_def slots_def [of w])
  moreover have "distinct (map slot_of (devices (walk_out w)))"
    "devices (walk_out w) = map (device_at read) (map slot_of (devices (walk_out w)))"
    using inv unfolding slots_def [symmetric] by (simp_all only: walk_inv_def)
  ultimately show ?thesis by blast
qed


end
