(* ===== verification/Framebuffer.thy ===== *)
theory Framebuffer
  imports Mem
begin

text \<open>
  \<open>src/video/framebuffer.c\<close>: pixels in the memory the firmware's linear framebuffer is mapped at. The
  lemmas read a screen as a function from coordinates to colours, and state the drawing on that.
\<close>

abbreviation (input) FRAMEBUFFER_MAX_WIDTH :: u32 where "FRAMEBUFFER_MAX_WIDTH \<equiv> 16384"
abbreviation (input) FRAMEBUFFER_MAX_HEIGHT :: u32 where "FRAMEBUFFER_MAX_HEIGHT \<equiv> 16384"
abbreviation (input) FRAMEBUFFER_MIN_BITS_PER_PIXEL :: u32 where "FRAMEBUFFER_MIN_BITS_PER_PIXEL \<equiv> 15"
abbreviation (input) FRAMEBUFFER_MAX_BITS_PER_PIXEL :: u32 where "FRAMEBUFFER_MAX_BITS_PER_PIXEL \<equiv> 32"
abbreviation (input) FRAMEBUFFER_BITS_PER_BYTE :: u32 where "FRAMEBUFFER_BITS_PER_BYTE \<equiv> 8"
abbreviation (input) FRAMEBUFFER_CHANNEL_MAX_BITS :: u8 where "FRAMEBUFFER_CHANNEL_MAX_BITS \<equiv> 8"
abbreviation (input) CHANNEL_FULL_BITS :: nat where "CHANNEL_FULL_BITS \<equiv> 8"

record framebuffer_channel =
  shift :: u8
  bits :: u8

record framebuffer =
  fb_base :: u64
  width :: u32
  height :: u32
  pitch :: u32
  bits_per_pixel :: u32
  red :: framebuffer_channel
  green :: framebuffer_channel
  blue :: framebuffer_channel

definition framebuffer_bytes_per_pixel :: "framebuffer \<Rightarrow> u32" where
  "framebuffer_bytes_per_pixel fb =
     (bits_per_pixel fb + FRAMEBUFFER_BITS_PER_BYTE - 1) div FRAMEBUFFER_BITS_PER_BYTE"

definition channel_valid :: "framebuffer_channel \<Rightarrow> u32 \<Rightarrow> bool" where
  "channel_valid channel bpp =
     (if bits channel = 0 \<or> bits channel > FRAMEBUFFER_CHANNEL_MAX_BITS then False
      else (ucast (shift channel) :: u32) + ucast (bits channel) \<le> bpp)"

definition framebuffer_valid :: "framebuffer \<Rightarrow> bool" where
  "framebuffer_valid fb =
     (if fb_base fb = 0 then False
      else if width fb = 0 \<or> height fb = 0 then False
      else if width fb > FRAMEBUFFER_MAX_WIDTH then False
      else if height fb > FRAMEBUFFER_MAX_HEIGHT then False
      else if bits_per_pixel fb < FRAMEBUFFER_MIN_BITS_PER_PIXEL then False
      else if bits_per_pixel fb > FRAMEBUFFER_MAX_BITS_PER_PIXEL then False
      else if pitch fb < width fb * framebuffer_bytes_per_pixel fb then False
      else if \<not> channel_valid (red fb) (bits_per_pixel fb) then False
      else if \<not> channel_valid (green fb) (bits_per_pixel fb) then False
      else if \<not> channel_valid (blue fb) (bits_per_pixel fb) then False
      else True)"

definition pack_channel :: "framebuffer_channel \<Rightarrow> u8 \<Rightarrow> u32" where
  "pack_channel channel v =
     (let narrowed = drop_bit (CHANNEL_FULL_BITS - unat (bits channel)) (ucast v :: u32)
      in push_bit (unat (shift channel)) narrowed)"

definition framebuffer_pack :: "framebuffer \<Rightarrow> u8 \<Rightarrow> u8 \<Rightarrow> u8 \<Rightarrow> u32" where
  "framebuffer_pack fb r g b = pack_channel (red fb) r OR pack_channel (green fb) g OR pack_channel (blue fb) b"

definition pixel_at :: "framebuffer \<Rightarrow> u32 \<Rightarrow> u32 \<Rightarrow> u64" where
  "pixel_at fb x y = fb_base fb + ucast y * ucast (pitch fb) + ucast x * ucast (framebuffer_bytes_per_pixel fb)"

text \<open>The loop that stores one pixel.\<close>

definition store_pixel :: "u64 \<Rightarrow> u32 \<Rightarrow> u32 \<Rightarrow> mem \<Rightarrow> mem" where
  "store_pixel at bytes colour m =
     fold (\<lambda>index m. m(at + of_nat index := ucast (drop_bit (index * 8) colour))) [0..<unat bytes] m"

definition framebuffer_put :: "framebuffer \<Rightarrow> u32 \<Rightarrow> u32 \<Rightarrow> u32 \<Rightarrow> mem \<Rightarrow> mem" where
  "framebuffer_put fb x y colour m =
     (if x \<ge> width fb \<or> y \<ge> height fb then m
      else store_pixel (pixel_at fb x y) (framebuffer_bytes_per_pixel fb) colour m)"

definition framebuffer_get :: "framebuffer \<Rightarrow> u32 \<Rightarrow> u32 \<Rightarrow> mem \<Rightarrow> u32" where
  "framebuffer_get fb x y m =
     (if x \<ge> width fb \<or> y \<ge> height fb then 0
      else fold (\<lambda>index colour. colour OR push_bit (index * 8) (ucast (m (pixel_at fb x y + of_nat index))))
             [0..<unat (framebuffer_bytes_per_pixel fb)] 0)"

text \<open>One row of a fill, with the pointer that moves along it.\<close>

definition fill_row :: "u64 \<Rightarrow> u32 \<Rightarrow> u32 \<Rightarrow> u32 \<Rightarrow> mem \<Rightarrow> mem" where
  "fill_row at w bytes colour m =
     snd (fold (\<lambda>column (at, m). (at + ucast bytes, store_pixel at bytes colour m)) [0..<unat w] (at, m))"

definition framebuffer_fill :: "framebuffer \<Rightarrow> u32 \<Rightarrow> u32 \<Rightarrow> u32 \<Rightarrow> u32 \<Rightarrow> u32 \<Rightarrow> mem \<Rightarrow> mem" where
  "framebuffer_fill fb x y w h colour m =
     (if x \<ge> width fb \<or> y \<ge> height fb then m
      else
        let w = (if w > width fb - x then width fb - x else w);
            h = (if h > height fb - y then height fb - y else h);
            bytes = framebuffer_bytes_per_pixel fb
        in fold (\<lambda>row. fill_row (pixel_at fb x (y + of_nat row)) w bytes colour) [0..<unat h] m)"

text \<open>Row by row, front to back or back to front.\<close>

definition framebuffer_move_rows :: "framebuffer \<Rightarrow> u32 \<Rightarrow> u32 \<Rightarrow> u32 \<Rightarrow> mem \<Rightarrow> mem" where
  "framebuffer_move_rows fb to_y from_y h m =
     (if to_y \<ge> height fb \<or> from_y \<ge> height fb then m
      else if to_y = from_y then m
      else
        let available = height fb - (if to_y > from_y then to_y else from_y);
            h = (if h > available then available else h)
        in if h = 0 then m
           else
             let row_bytes = ucast (width fb) * ucast (framebuffer_bytes_per_pixel fb)
             in if to_y < from_y then
                  fold (\<lambda>row. memcpy (pixel_at fb 0 (to_y + of_nat row)) (pixel_at fb 0 (from_y + of_nat row)) row_bytes)
                    [0..<unat h] m
                else
                  fold (\<lambda>row. memcpy (pixel_at fb 0 (to_y + of_nat row - 1)) (pixel_at fb 0 (from_y + of_nat row - 1)) row_bytes)
                    (rev [1..<Suc (unat h)]) m)"

subsection \<open>Where the pixels are\<close>

text \<open>A framebuffer the code accepts, that does not run past the top of memory.\<close>

definition fb_ok :: "framebuffer \<Rightarrow> bool" where
  "fb_ok fb \<longleftrightarrow> framebuffer_valid fb \<and> unat (fb_base fb) + unat (height fb) * unat (pitch fb) \<le> 2 ^ 64"

definition bpp :: "framebuffer \<Rightarrow> nat" where
  "bpp fb = unat (framebuffer_bytes_per_pixel fb)"

lemma bpp_range:
  assumes "fb_ok fb"
  shows "2 \<le> bpp fb \<and> bpp fb \<le> 4"
proof -
  have b: "15 \<le> unat (bits_per_pixel fb)" "unat (bits_per_pixel fb) \<le> 32"
    using assms by (auto simp: fb_ok_def framebuffer_valid_def word_less_nat_alt split: if_splits)
  have "unat (bits_per_pixel fb + 8 - 1) = unat (bits_per_pixel fb) + 7"
  proof -
    have "bits_per_pixel fb + 8 - 1 = bits_per_pixel fb + 7" by simp
    then show ?thesis using b by (simp add: unat_word_ariths)
  qed
  then have "bpp fb = (unat (bits_per_pixel fb) + 7) div 8"
    by (simp add: bpp_def framebuffer_bytes_per_pixel_def unat_div)
  with b show ?thesis by auto
qed

lemma fb_geometry:
  assumes "fb_ok fb"
  shows "0 < unat (width fb)" "unat (width fb) \<le> 16384" "0 < unat (height fb)" "unat (height fb) \<le> 16384"
    "unat (width fb) * bpp fb \<le> unat (pitch fb)"
    "unat (fb_base fb) + unat (height fb) * unat (pitch fb) \<le> 2 ^ 64"
proof -
  show g: "0 < unat (width fb)" "unat (width fb) \<le> 16384" "0 < unat (height fb)" "unat (height fb) \<le> 16384"
    "unat (fb_base fb) + unat (height fb) * unat (pitch fb) \<le> 2 ^ 64"
    using assms by (auto simp: fb_ok_def framebuffer_valid_def word_less_nat_alt unat_gt_0 split: if_splits)
  have "unat (width fb) * unat (framebuffer_bytes_per_pixel fb) \<le> 16384 * 4"
    using g(2) bpp_range [OF assms] by (intro mult_le_mono) (simp_all add: bpp_def)
  then have "unat (width fb * framebuffer_bytes_per_pixel fb) = unat (width fb) * bpp fb"
    by (subst unat_mult_fits) (simp_all add: bpp_def)
  then show "unat (width fb) * bpp fb \<le> unat (pitch fb)"
    using assms by (auto simp: fb_ok_def framebuffer_valid_def word_less_nat_alt split: if_splits)
qed

text \<open>The offset of a pixel in the framebuffer.\<close>

definition offset_of :: "framebuffer \<Rightarrow> nat \<Rightarrow> nat \<Rightarrow> nat" where
  "offset_of fb x y = y * unat (pitch fb) + x * bpp fb"

lemma pixel_at_offset: "pixel_at fb x y = fb_base fb + of_nat (offset_of fb (unat x) (unat y))"
  by (simp add: pixel_at_def offset_of_def bpp_def)

definition on_screen :: "framebuffer \<Rightarrow> u32 \<times> u32 \<Rightarrow> bool" where
  "on_screen fb p \<longleftrightarrow> fst p < width fb \<and> snd p < height fb"

text \<open>The bytes of a pixel.\<close>

definition in_pixel :: "framebuffer \<Rightarrow> u32 \<times> u32 \<Rightarrow> u64 \<Rightarrow> bool" where
  "in_pixel fb p = in_range (pixel_at fb (fst p) (snd p)) (bpp fb)"

lemma offset_inside:
  assumes "fb_ok fb" "on_screen fb (x, y)"
  shows "offset_of fb (unat x) (unat y) + bpp fb \<le> unat (height fb) * unat (pitch fb)"
    "unat x * bpp fb + bpp fb \<le> unat (pitch fb)"
proof -
  have x: "unat x + 1 \<le> unat (width fb)" and y: "unat y + 1 \<le> unat (height fb)"
    using assms(2) by (auto simp: on_screen_def word_less_nat_alt)
  have "unat x * bpp fb + bpp fb = (unat x + 1) * bpp fb" by simp
  also have "\<dots> \<le> unat (width fb) * bpp fb" using x by (rule mult_le_mono1)
  also have "\<dots> \<le> unat (pitch fb)" by (rule fb_geometry(5) [OF assms(1)])
  finally show row: "unat x * bpp fb + bpp fb \<le> unat (pitch fb)" .
  then have "offset_of fb (unat x) (unat y) + bpp fb \<le> (unat y + 1) * unat (pitch fb)"
    by (simp add: offset_of_def)
  also have "\<dots> \<le> unat (height fb) * unat (pitch fb)" using y by (rule mult_le_mono1)
  finally show "offset_of fb (unat x) (unat y) + bpp fb \<le> unat (height fb) * unat (pitch fb)" .
qed

lemma unat_offset:
  assumes "fb_ok fb" "k < unat (height fb) * unat (pitch fb)"
  shows "unat (fb_base fb + of_nat k) = unat (fb_base fb) + k"
proof -
  have k: "unat (fb_base fb) + k < 2 ^ 64" using fb_geometry(6) [OF assms(1)] assms(2) by linarith
  then have "k < 2 ^ 64" by linarith
  with k show ?thesis by (subst unat_add_fits) (simp_all add: unat_of_nat64)
qed

text \<open>The pixels of a framebuffer do not overlap.\<close>

lemma in_pixel_eq:
  assumes fb: "fb_ok fb" and p: "on_screen fb p" "in_pixel fb p a" and q: "on_screen fb q" "in_pixel fb q a"
  shows "p = q"
proof -
  have pos: "0 < bpp fb" using bpp_range [OF fb] by simp
  have dec: "snd p = of_nat (k div unat (pitch fb)) \<and> fst p = of_nat (k mod unat (pitch fb) div bpp fb)"
    if p: "on_screen fb p" "in_pixel fb p a" and k: "k = unat a - unat (fb_base fb)" for p k
  proof -
    obtain x y where xy: "p = (x, y)" by (cases p)
    let ?o = "offset_of fb (unat x) (unat y)"
    define i where "i = unat (a - pixel_at fb x y)"
    have i: "i < bpp fb" using p(2) by (simp add: in_pixel_def in_range_def i_def xy)
    note ins = offset_inside [OF fb p(1) [unfolded xy]]
    have "a = fb_base fb + of_nat (?o + i)" by (simp add: i_def pixel_at_offset)
    then have "unat a = unat (fb_base fb) + (?o + i)"
      using unat_offset [OF fb, of "?o + i"] ins(1) i by simp
    then have kk: "k = unat y * unat (pitch fb) + (unat x * bpp fb + i)" using k by (simp add: offset_of_def)
    have lt: "unat x * bpp fb + i < unat (pitch fb)" using ins(2) i by linarith
    have "k div unat (pitch fb) = unat y" "k mod unat (pitch fb) = unat x * bpp fb + i"
      using lt unfolding kk by simp_all
    moreover have "(unat x * bpp fb + i) div bpp fb = unat x" using i by simp
    ultimately show ?thesis by (simp add: xy)
  qed
  from dec [OF p refl] dec [OF q refl] show ?thesis by (simp add: prod_eq_iff)
qed

lemma store_pixel_byte:
  "store_pixel at bytes colour m a =
     (if in_range at (unat bytes) a then ucast (drop_bit (unat (a - at) * 8) colour) else m a)"
proof -
  have "fold (\<lambda>index m. m(at + of_nat index := ucast (drop_bit (index * 8) colour))) [0..<n] m a =
      (if in_range at n a then ucast (drop_bit (unat (a - at) * 8) colour) else m a)" if "n < 2 ^ 64" for n
    using that by (induction n) (auto simp: in_range_Suc unat_of_nat64)
  from this [of "unat bytes"] show ?thesis by (simp add: store_pixel_def less_trans [OF unat_lt32])
qed

lemma read_colour_bytes:
  assumes "n \<le> 4" "\<And>i. i < n \<Longrightarrow> b i = ucast (drop_bit (i * 8) c)"
  shows "fold (\<lambda>index colour. colour OR push_bit (index * 8) (ucast (b index :: u8))) [0..<n] 0 = take_bit (n * 8) (c :: u32)"
  using assms
proof (induction n)
  case (Suc n)
  have "take_bit (n * 8) c OR push_bit (n * 8) (ucast (ucast (drop_bit (n * 8) c) :: u8)) = take_bit (Suc n * 8) c"
  proof (rule bit_word_eqI)
    fix k assume k: "k < LENGTH(32)"
    show "bit (take_bit (n * 8) c OR push_bit (n * 8) (ucast (ucast (drop_bit (n * 8) c) :: u8))) k \<longleftrightarrow>
        bit (take_bit (Suc n * 8) c) k"
      using k Suc.prems(1) by (auto simp: bit_simps)
  qed
  with Suc show ?case by simp
qed simp

text \<open>Storing a set of pixels, one after the other.\<close>

definition paint :: "framebuffer \<Rightarrow> u32 \<Rightarrow> (u32 \<times> u32) list \<Rightarrow> mem \<Rightarrow> mem" where
  "paint fb colour ps = fold (\<lambda>p. store_pixel (pixel_at fb (fst p) (snd p)) (framebuffer_bytes_per_pixel fb) colour) ps"

text \<open>The colour the hardware keeps of a 32-bit value.\<close>

definition shown :: "framebuffer \<Rightarrow> u32 \<Rightarrow> u32" where
  "shown fb colour = take_bit (bpp fb * 8) colour"

lemma get_store_pixel:
  assumes "fb_ok fb" "on_screen fb p"
  shows "framebuffer_get fb x y (store_pixel (pixel_at fb (fst p) (snd p)) (framebuffer_bytes_per_pixel fb) colour m) =
    (if (x, y) = p then shown fb colour else framebuffer_get fb x y m)"
proof (cases "on_screen fb (x, y)")
  case False
  then have "x \<ge> width fb \<or> y \<ge> height fb" by (auto simp: on_screen_def)
  then have "framebuffer_get fb x y n = 0" for n by (simp add: framebuffer_get_def)
  then show ?thesis using False assms(2) by auto
next
  case True
  let ?n = "unat (framebuffer_bytes_per_pixel fb)"
  let ?m = "store_pixel (pixel_at fb (fst p) (snd p)) (framebuffer_bytes_per_pixel fb) colour m"
  have n: "?n \<le> 4" using bpp_range [OF assms(1)] by (simp add: bpp_def)
  have on: "\<not> (x \<ge> width fb \<or> y \<ge> height fb)" using True by (auto simp: on_screen_def)
  have inp: "in_pixel fb (x, y) (pixel_at fb x y + of_nat i)" if "i < ?n" for i
    using that n by (simp add: in_pixel_def bpp_def in_range_offset)
  show ?thesis
  proof (cases "(x, y) = p")
    case eq: True
    have "?m (pixel_at fb x y + of_nat i) = ucast (drop_bit (i * 8) colour)" if "i < ?n" for i
      using that n eq by (auto simp: store_pixel_byte in_range_offset unat_of_nat64)
    then show ?thesis using on eq n by (simp add: framebuffer_get_def shown_def bpp_def read_colour_bytes)
  next
    case False
    have "?m (pixel_at fb x y + of_nat i) = m (pixel_at fb x y + of_nat i)" if "i < ?n" for i
    proof -
      have "\<not> in_pixel fb p (pixel_at fb x y + of_nat i)"
        using in_pixel_eq [OF assms _ True inp [OF that]] False by blast
      then show ?thesis by (simp add: store_pixel_byte in_pixel_def bpp_def)
    qed
    then show ?thesis using on False by (auto simp: framebuffer_get_def intro!: fold_cong)
  qed
qed

lemma get_paint:
  assumes "fb_ok fb" "\<forall>p \<in> set ps. on_screen fb p"
  shows "framebuffer_get fb x y (paint fb colour ps m) =
    (if (x, y) \<in> set ps then shown fb colour else framebuffer_get fb x y m)"
  using assms(2)
proof (induction ps arbitrary: m)
  case (Cons p ps)
  then show ?case using get_store_pixel [OF assms(1)] by (simp add: paint_def)
qed (simp add: paint_def)

lemma paint_outside:
  assumes "\<And>p. p \<in> set ps \<Longrightarrow> \<not> in_pixel fb p a"
  shows "paint fb colour ps m a = m a"
  using assms
proof (induction ps arbitrary: m)
  case (Cons p ps)
  then have "\<not> in_pixel fb p a" by simp
  then have "store_pixel (pixel_at fb (fst p) (snd p)) (framebuffer_bytes_per_pixel fb) colour m a = m a"
    by (simp add: store_pixel_byte in_pixel_def bpp_def)
  with Cons show ?case by (simp add: paint_def)
qed (simp add: paint_def)

lemma framebuffer_put_paint:
  "framebuffer_put fb x y colour = (if on_screen fb (x, y) then paint fb colour [(x, y)] else (\<lambda>m. m))"
  by (auto simp: framebuffer_put_def on_screen_def paint_def fun_eq_iff not_le)

lemma fill_row_paint:
  assumes "unat x + unat w < 2 ^ 32"
  shows "fill_row (pixel_at fb x y) w (framebuffer_bytes_per_pixel fb) colour m =
    paint fb colour (map (\<lambda>column. (x + of_nat column, y)) [0..<unat w]) m"
proof -
  let ?b = "framebuffer_bytes_per_pixel fb"
  have "fold (\<lambda>column (at, m). (at + ucast ?b, store_pixel at ?b colour m)) [0..<n] (pixel_at fb x y, m) =
      (fb_base fb + of_nat (offset_of fb (unat x + n) (unat y)),
       paint fb colour (map (\<lambda>column. (x + of_nat column, y)) [0..<n]) m)" if "unat x + n < 2 ^ 32" for n
    using that
  proof (induction n)
    case (Suc n)
    have "n < 2 ^ 32" using Suc.prems by linarith
    then have "unat (x + of_nat n) = unat x + n"
      using Suc.prems by (subst unat_add_fits) (simp_all add: unat_of_nat)
    then have "pixel_at fb (x + of_nat n) y = fb_base fb + of_nat (offset_of fb (unat x + n) (unat y))"
      by (simp add: pixel_at_offset)
    with Suc show ?case by (simp add: paint_def offset_of_def bpp_def algebra_simps)
  qed (simp add: pixel_at_offset paint_def)
  from this [OF assms] show ?thesis by (simp add: fill_row_def)
qed

subsection \<open>Filling\<close>

definition in_rect :: "u32 \<Rightarrow> u32 \<Rightarrow> u32 \<Rightarrow> u32 \<Rightarrow> u32 \<times> u32 \<Rightarrow> bool" where
  "in_rect x y w h p \<longleftrightarrow> unat x \<le> unat (fst p) \<and> unat (fst p) < unat x + unat w \<and>
     unat y \<le> unat (snd p) \<and> unat (snd p) < unat y + unat h"

lemma fill_paint:
  assumes fb: "fb_ok fb"
  obtains ps where "framebuffer_fill fb x y w h colour m = paint fb colour ps m"
    "set ps = {p. on_screen fb p \<and> in_rect x y w h p}"
proof (cases "on_screen fb (x, y)")
  case False
  then have "framebuffer_fill fb x y w h colour m = paint fb colour [] m"
    by (auto simp: framebuffer_fill_def on_screen_def paint_def not_less)
  moreover have "{p. on_screen fb p \<and> in_rect x y w h p} = {}"
    using False by (auto simp: on_screen_def in_rect_def word_less_nat_alt)
  ultimately show ?thesis using that [of "[]"] by simp
next
  case True
  define w' where "w' = (if w > width fb - x then width fb - x else w)"
  define h' where "h' = (if h > height fb - y then height fb - y else h)"
  note g = fb_geometry [OF fb]
  have x: "unat x < unat (width fb)" and y: "unat y < unat (height fb)"
    using True by (auto simp: on_screen_def word_less_nat_alt)
  have w': "unat w' = min (unat w) (unat (width fb) - unat x)" and h': "unat h' = min (unat h) (unat (height fb) - unat y)"
    using x y by (auto simp: w'_def h'_def word_less_nat_alt word_le_nat_alt unat_sub_fits)
  let ?row = "\<lambda>r. map (\<lambda>column. (x + of_nat column, y + of_nat r)) [0..<unat w']"
  have "framebuffer_fill fb x y w h colour m =
      fold (\<lambda>row. fill_row (pixel_at fb x (y + of_nat row)) w' (framebuffer_bytes_per_pixel fb) colour) [0..<unat h'] m"
    using True by (simp add: framebuffer_fill_def on_screen_def w'_def h'_def Let_def not_le [symmetric])
  also have "\<dots> = fold (\<lambda>r. paint fb colour (?row r)) [0..<unat h'] m"
  proof -
    have "unat x + unat w' < 2 ^ 32" using w' x g(2) by simp
    then have "fill_row (pixel_at fb x (y + of_nat r)) w' (framebuffer_bytes_per_pixel fb) colour = paint fb colour (?row r)" for r
      by (intro ext fill_row_paint)
    then show ?thesis by simp
  qed
  also have "\<dots> = paint fb colour (concat (map ?row [0..<unat h'])) m"
  proof -
    have "fold (\<lambda>r. paint fb colour (?row r)) rs m = paint fb colour (concat (map ?row rs)) m" for rs m
      by (induction rs arbitrary: m) (simp_all add: paint_def)
    then show ?thesis .
  qed
  finally have eq: "framebuffer_fill fb x y w h colour m = paint fb colour (concat (map ?row [0..<unat h'])) m" .
  have un: "unat (v + of_nat k) = unat v + k" if "unat v + k < 16384" for v :: u32 and k
    using that by (subst unat_add_fits) (simp_all add: unat_of_nat)
  have "set (concat (map ?row [0..<unat h'])) = {p. on_screen fb p \<and> in_rect x y w h p}"
  proof (intro set_eqI iffI)
    fix p assume "p \<in> set (concat (map ?row [0..<unat h']))"
    then obtain c r where cr: "c < unat w'" "r < unat h'" "p = (x + of_nat c, y + of_nat r)" by auto
    have "unat x + c < unat (width fb)" "unat y + r < unat (height fb)" "c < unat w" "r < unat h"
      using cr w' h' x y by linarith+
    moreover from this have "unat (x + of_nat c) = unat x + c" "unat (y + of_nat r) = unat y + r"
      using g un by simp_all
    ultimately show "p \<in> {p. on_screen fb p \<and> in_rect x y w h p}"
      using cr(3) by (simp add: on_screen_def in_rect_def word_less_nat_alt)
  next
    fix p assume "p \<in> {p. on_screen fb p \<and> in_rect x y w h p}"
    then obtain px py where p: "p = (px, py)" "unat px < unat (width fb)" "unat py < unat (height fb)"
      "unat x \<le> unat px" "unat px < unat x + unat w" "unat y \<le> unat py" "unat py < unat y + unat h"
      by (cases p) (auto simp: on_screen_def in_rect_def word_less_nat_alt)
    have "px = x + of_nat (unat px - unat x)" "py = y + of_nat (unat py - unat y)"
      using p(4,6) by (simp_all add: of_nat_diff)
    moreover have "unat px - unat x < unat w'" "unat py - unat y < unat h'"
      using p w' h' by (simp_all add: less_diff_iff) 
    ultimately show "p \<in> set (concat (map ?row [0..<unat h']))"
      unfolding p(1) by (simp add: image_iff) (metis atLeastLessThan_iff zero_le)
  qed
  with eq that show ?thesis by blast
qed

lemma fill_get:
  assumes "fb_ok fb"
  shows "framebuffer_get fb px py (framebuffer_fill fb x y w h colour m) =
      (if on_screen fb (px, py) \<and> in_rect x y w h (px, py) then shown fb colour
       else framebuffer_get fb px py m) \<and>
    {a. framebuffer_fill fb x y w h colour m a \<noteq> m a} \<subseteq>
      (\<Union>p \<in> {p. on_screen fb p \<and> in_rect x y w h p}. {a. in_pixel fb p a})"
proof -
  obtain ps where ps: "framebuffer_fill fb x y w h colour m = paint fb colour ps m"
    "set ps = {p. on_screen fb p \<and> in_rect x y w h p}" by (rule fill_paint [OF assms])
  have "framebuffer_get fb px py (paint fb colour ps m) =
      (if (px, py) \<in> set ps then shown fb colour else framebuffer_get fb px py m)"
    by (rule get_paint [OF assms]) (simp add: ps(2))
  moreover have "{a. paint fb colour ps m a \<noteq> m a} \<subseteq> (\<Union>p \<in> set ps. {a. in_pixel fb p a})"
    using paint_outside [of ps fb _ colour m] by blast
  ultimately show ?thesis unfolding ps by simp
qed

text \<open>
  A fill paints exactly the pixels of the rectangle that are on the screen, in the colour as far as the
  depth of the screen shows it, and changes no other pixel and no byte of memory outside them, whatever
  the rectangle (the row padding between the pixels stays as it was).
\<close>

theorem framebuffer_fill_exact:
  assumes "fb_ok fb"
  shows "framebuffer_get fb px py (framebuffer_fill fb x y w h colour m) =
      (if on_screen fb (px, py) \<and> in_rect x y w h (px, py) then shown fb colour
       else framebuffer_get fb px py m) \<and>
    {a. framebuffer_fill fb x y w h colour m a \<noteq> m a} \<subseteq>
      (\<Union>p \<in> {p. on_screen fb p \<and> in_rect x y w h p}. {a. in_pixel fb p a})"
  by (rule fill_get [OF assms])

subsection \<open>Moving rows\<close>

lemma memcpy_row:
  fixes m :: mem
  assumes fb: "fb_ok fb" and t: "t < height fb" and f: "f < height fb" and ne: "t \<noteq> f"
  defines "m' \<equiv> memcpy (pixel_at fb 0 t) (pixel_at fb 0 f) (ucast (width fb) * ucast (framebuffer_bytes_per_pixel fb)) m"
  shows "framebuffer_get fb x y m' = (if y = t then framebuffer_get fb x f m else framebuffer_get fb x y m)"
    "m' a \<noteq> m a \<Longrightarrow> \<exists>x. on_screen fb (x, t) \<and> in_pixel fb (x, t) a"
proof -
  let ?n = "unat (width fb) * bpp fb" and ?p = "unat (pitch fb)" and ?h = "unat (height fb)"
  note g = fb_geometry [OF fb]
  have n: "unat (ucast (width fb) * ucast (framebuffer_bytes_per_pixel fb) :: u64) = ?n"
  proof -
    have "?n \<le> 16384 * 4" using g(2) bpp_range [OF fb] by (intro mult_le_mono) simp_all
    then show ?thesis by (subst unat_mult_fits) (simp_all add: bpp_def)
  qed
  have row: "unat v * ?p + ?n \<le> ?h * ?p" if "v < height fb" for v
  proof -
    have "unat v * ?p + ?n \<le> (unat v + 1) * ?p" using g(5) by simp
    also have "\<dots> \<le> ?h * ?p" using that by (intro mult_le_mono1) (simp add: word_less_nat_alt)
    finally show ?thesis .
  qed
  have pos: "0 < ?n" using g(1) bpp_range [OF fb] by simp
  have at: "unat (pixel_at fb 0 v) = unat (fb_base fb) + unat v * ?p" if "v < height fb" for v
  proof -
    have "unat v * ?p < ?h * ?p" using row [OF that] pos by linarith
    from unat_offset [OF fb this] show ?thesis by (simp add: pixel_at_offset offset_of_def)
  qed
  have sep: "t \<le> f \<and> unat t * ?p + ?n \<le> unat f * ?p \<or> unat f * ?p + ?n \<le> unat t * ?p"
  proof (cases "t < f")
    case True
    then have "(unat t + 1) * ?p \<le> unat f * ?p" by (intro mult_le_mono1) (simp add: word_less_nat_alt)
    with g(5) True show ?thesis by (intro disjI1) (simp add: less_imp_le)
  next
    case False
    with ne have "f < t" by simp
    then have "(unat f + 1) * ?p \<le> unat t * ?p" by (intro mult_le_mono1) (simp add: word_less_nat_alt)
    with g(5) show ?thesis by simp
  qed
  have m': "m' = copied (pixel_at fb 0 t) (pixel_at fb 0 f) ?n m"
    unfolding m'_def
    by (subst memcpy_eq_copied)
      (use row [OF t] row [OF f] g(6) sep in \<open>auto simp: n at [OF t] at [OF f] word_le_nat_alt\<close>)
  have bp: "0 < bpp fb" using bpp_range [OF fb] by simp
  show out: "\<exists>x. on_screen fb (x, t) \<and> in_pixel fb (x, t) a" if "m' a \<noteq> m a" for a
  proof -
    define i where "i = unat (a - pixel_at fb 0 t)"
    have i: "i < ?n" using that by (auto simp: m' copied_def in_range_def i_def split: if_splits)
    define x where "x = (of_nat (i div bpp fb) :: u32)"
    have lt: "i div bpp fb < unat (width fb)" using i bp by (simp add: less_mult_imp_div_less)
    then have ux: "unat x = i div bpp fb" using g(2) by (simp add: x_def unat_of_nat)
    have "pixel_at fb x t = pixel_at fb 0 t + of_nat (i div bpp fb * bpp fb)"
      by (simp add: pixel_at_offset offset_of_def ux)
    then have "a - pixel_at fb x t = of_nat i - of_nat (i div bpp fb * bpp fb)" by (simp add: i_def)
    also have "\<dots> = of_nat (i mod bpp fb)" by (simp add: modulo_nat_def of_nat_diff)
    finally have d: "a - pixel_at fb x t = of_nat (i mod bpp fb)" .
    have "i mod bpp fb < 18446744073709551616"
      using mod_less_divisor [OF bp, of i] bpp_range [OF fb] by linarith
    then have "unat (a - pixel_at fb x t) = i mod bpp fb" unfolding d by (simp add: unat_of_nat64)
    then have "in_pixel fb (x, t) a" using bp by (simp add: in_pixel_def in_range_def)
    moreover have "on_screen fb (x, t)" using lt ux t by (simp add: on_screen_def word_less_nat_alt)
    ultimately show ?thesis by blast
  qed
  show "framebuffer_get fb x y m' = (if y = t then framebuffer_get fb x f m else framebuffer_get fb x y m)"
  proof (cases "on_screen fb (x, y)")
    case off: False
    then show ?thesis using t f by (auto simp: framebuffer_get_def on_screen_def)
  next
    case on: True
    have b4: "bpp fb < 2 ^ 64" using bpp_range [OF fb] by simp
    show ?thesis
    proof (cases "y = t")
      case False
      have "m' (pixel_at fb x y + of_nat i) = m (pixel_at fb x y + of_nat i)" if "i < bpp fb" for i
      proof (rule ccontr)
        assume "m' (pixel_at fb x y + of_nat i) \<noteq> m (pixel_at fb x y + of_nat i)"
        from out [OF this] obtain z where "on_screen fb (z, t)" "in_pixel fb (z, t) (pixel_at fb x y + of_nat i)" by blast
        moreover have "in_pixel fb (x, y) (pixel_at fb x y + of_nat i)"
          using that b4 by (simp add: in_pixel_def in_range_offset)
        ultimately show False using in_pixel_eq [OF fb _ _ on] False by blast
      qed
      then show ?thesis using False by (auto simp: framebuffer_get_def bpp_def intro!: fold_cong)
    next
      case True
      have "m' (pixel_at fb x t + of_nat i) = m (pixel_at fb x f + of_nat i)" if "i < bpp fb" for i
      proof -
        let ?k = "unat x * bpp fb + i"
        have k: "?k < ?n"
        proof -
          have "unat x + 1 \<le> unat (width fb)" using on by (auto simp: on_screen_def word_less_nat_alt)
          then have "(unat x + 1) * bpp fb \<le> ?n" by (rule mult_le_mono1)
          with that show ?thesis by simp
        qed
        then have "?k < 2 ^ 64" using n unat_lt64 [of "ucast (width fb) * ucast (framebuffer_bytes_per_pixel fb)"] by simp
        with k have inr: "in_range (pixel_at fb 0 t) ?n (pixel_at fb 0 t + of_nat ?k)" by (rule in_range_offset)
        have pix: "pixel_at fb x v + of_nat i = pixel_at fb 0 v + of_nat ?k" for v
          by (simp add: pixel_at_offset offset_of_def)
        show ?thesis unfolding pix m' copied_def if_P [OF inr] by (simp only: add_diff_cancel_left')
      qed
      then show ?thesis using True on t f
        by (auto simp: framebuffer_get_def bpp_def on_screen_def not_le intro!: fold_cong)
    qed
  qed
qed

text \<open>How many rows a move really moves.\<close>

definition moved_rows :: "framebuffer \<Rightarrow> u32 \<Rightarrow> u32 \<Rightarrow> u32 \<Rightarrow> nat" where
  "moved_rows fb to_y from_y h =
     (if to_y = from_y then 0 else min (unat h) (unat (height fb) - max (unat to_y) (unat from_y)))"

definition moved_to :: "framebuffer \<Rightarrow> u32 \<Rightarrow> u32 \<Rightarrow> u32 \<Rightarrow> u32 \<Rightarrow> bool" where
  "moved_to fb to_y from_y h y \<longleftrightarrow>
     unat to_y \<le> unat y \<and> unat y < unat to_y + moved_rows fb to_y from_y h"

text \<open>Rows copied one at a time, each given as where to and where from.\<close>

definition copy_rows :: "framebuffer \<Rightarrow> (u32 \<times> u32) list \<Rightarrow> mem \<Rightarrow> mem" where
  "copy_rows fb = fold (\<lambda>(t, f). memcpy (pixel_at fb 0 t) (pixel_at fb 0 f)
      (ucast (width fb) * ucast (framebuffer_bytes_per_pixel fb)))"

text \<open>In an order in which no row is read or written again after it was written.\<close>

lemma copy_rows_get:
  assumes fb: "fb_ok fb" and inside: "\<forall>(t, f) \<in> set rs. t < height fb \<and> f < height fb \<and> t \<noteq> f"
    and order: "sorted_wrt (\<lambda>r s. fst r \<noteq> fst s \<and> fst r \<noteq> snd s) rs"
  shows "framebuffer_get fb x y (copy_rows fb rs m) =
      framebuffer_get fb x (case map_of rs y of None \<Rightarrow> y | Some f \<Rightarrow> f) m"
    "copy_rows fb rs m a \<noteq> m a \<Longrightarrow> \<exists>x. \<exists>r \<in> set rs. on_screen fb (x, fst r) \<and> in_pixel fb (x, fst r) a"
proof -
  have "framebuffer_get fb x y (copy_rows fb rs m) =
      framebuffer_get fb x (case map_of rs y of None \<Rightarrow> y | Some f \<Rightarrow> f) m \<and>
    (copy_rows fb rs m a \<noteq> m a \<longrightarrow> (\<exists>x. \<exists>r \<in> set rs. on_screen fb (x, fst r) \<and> in_pixel fb (x, fst r) a))"
    using inside order
  proof (induction rs arbitrary: m)
    case Nil
    then show ?case by (simp add: copy_rows_def)
  next
    case (Cons s rs)
    obtain t f where s: "s = (t, f)" by (cases s)
    define m1 where "m1 = memcpy (pixel_at fb 0 t) (pixel_at fb 0 f)
      (ucast (width fb) * ucast (framebuffer_bytes_per_pixel fb)) m"
    have tf: "t < height fb" "f < height fb" "t \<noteq> f" using Cons.prems(1) s by auto
    note one = memcpy_row(1) [OF fb tf, of x _ m, folded m1_def] memcpy_row(2) [OF fb tf, of m a, folded m1_def]
    have run: "copy_rows fb (s # rs) m = copy_rows fb rs m1" by (simp add: copy_rows_def s m1_def)
    have IH: "framebuffer_get fb x y (copy_rows fb rs m1) =
        framebuffer_get fb x (case map_of rs y of None \<Rightarrow> y | Some f \<Rightarrow> f) m1"
      "copy_rows fb rs m1 a \<noteq> m1 a \<Longrightarrow> \<exists>x. \<exists>r \<in> set rs. on_screen fb (x, fst r) \<and> in_pixel fb (x, fst r) a"
      using Cons.IH [of m1] Cons.prems by auto
    have later: "t \<noteq> fst r \<and> t \<noteq> snd r" if "r \<in> set rs" for r using Cons.prems(2) that s by auto
    have "framebuffer_get fb x y (copy_rows fb (s # rs) m) =
        framebuffer_get fb x (case map_of (s # rs) y of None \<Rightarrow> y | Some f \<Rightarrow> f) m"
    proof (cases "map_of rs y")
      case None
      then show ?thesis using IH(1) one(1) [of y] unfolding run by (auto simp: s)
    next
      case (Some g)
      then have "(y, g) \<in> set rs" by (rule map_of_SomeD)
      with later have "t \<noteq> y" "t \<noteq> g" by fastforce+
      then show ?thesis using IH(1) one(1) [of g] Some unfolding run by (auto simp: s)
    qed
    moreover have "\<exists>x. \<exists>r \<in> set (s # rs). on_screen fb (x, fst r) \<and> in_pixel fb (x, fst r) a"
      if "copy_rows fb (s # rs) m a \<noteq> m a"
      using that IH(2) one(2) unfolding run by (cases "m1 a = m a") (auto simp: s)
    ultimately show ?case by blast
  qed
  then show "framebuffer_get fb x y (copy_rows fb rs m) =
      framebuffer_get fb x (case map_of rs y of None \<Rightarrow> y | Some f \<Rightarrow> f) m"
    "copy_rows fb rs m a \<noteq> m a \<Longrightarrow> \<exists>x. \<exists>r \<in> set rs. on_screen fb (x, fst r) \<and> in_pixel fb (x, fst r) a"
    by blast+
qed

text \<open>The rows a move copies, in its order.\<close>

definition row_pairs :: "u32 \<Rightarrow> u32 \<Rightarrow> nat list \<Rightarrow> (u32 \<times> u32) list" where
  "row_pairs to_y from_y rs = map (\<lambda>r. (to_y + of_nat r, from_y + of_nat r)) rs"

lemma move_rows_copy_rows:
  assumes fb: "fb_ok fb"
  obtains rs where "framebuffer_move_rows fb to_y from_y h m = copy_rows fb (row_pairs to_y from_y rs) m"
    "set rs = {0..<moved_rows fb to_y from_y h}"
    "\<forall>(t, f) \<in> set (row_pairs to_y from_y rs). t < height fb \<and> f < height fb \<and> t \<noteq> f"
    "sorted_wrt (\<lambda>r s. fst r \<noteq> fst s \<and> fst r \<noteq> snd s) (row_pairs to_y from_y rs)"
proof -
  let ?k = "moved_rows fb to_y from_y h"
  note g = fb_geometry [OF fb]
  have un: "unat (v + of_nat k) = unat v + k" if "unat v + k < 16384" for v :: u32 and k
    using that by (subst unat_add_fits) (simp_all add: unat_of_nat)
  have k: "r < ?k \<Longrightarrow> to_y \<noteq> from_y \<and> unat to_y + r < unat (height fb) \<and> unat from_y + r < unat (height fb)" for r
    by (auto simp: moved_rows_def split: if_splits)
  have fits: "unat (to_y + of_nat r) = unat to_y + r" "unat (from_y + of_nat r) = unat from_y + r" if "r < ?k" for r
    using k [OF that] g(4) un by auto
  have inside: "\<forall>(t, f) \<in> set (row_pairs to_y from_y rs). t < height fb \<and> f < height fb \<and> t \<noteq> f"
    if rs: "set rs \<subseteq> {0..<?k}" for rs
  proof -
    have "to_y + of_nat r < height fb \<and> from_y + of_nat r < height fb \<and> to_y + of_nat r \<noteq> from_y + of_nat r"
      if "r < ?k" for r
      using k [OF that] fits [OF that] by (simp add: word_less_nat_alt)
    moreover have "r < ?k" if "r \<in> set rs" for r using rs that by auto
    ultimately show ?thesis by (auto simp: row_pairs_def)
  qed
  have neq: "to_y + of_nat r \<noteq> to_y + of_nat s \<and> to_y + of_nat r \<noteq> from_y + (of_nat s :: u32)"
    if "r < ?k" "s < ?k" "r \<noteq> s" "unat to_y + r \<noteq> unat from_y + s" for r s
    using that fits by (auto simp: word_unat_eq_iff)
  have run: "fold (\<lambda>r. memcpy (pixel_at fb 0 (to_y + of_nat r)) (pixel_at fb 0 (from_y + of_nat r))
      (ucast (width fb) * ucast (framebuffer_bytes_per_pixel fb))) rs m = copy_rows fb (row_pairs to_y from_y rs) m" for rs m
    by (induction rs arbitrary: m) (simp_all add: copy_rows_def row_pairs_def)
  consider "?k = 0" "framebuffer_move_rows fb to_y from_y h m = m"
    | "to_y < from_y" "framebuffer_move_rows fb to_y from_y h m = copy_rows fb (row_pairs to_y from_y [0..<?k]) m"
    | "from_y < to_y" "framebuffer_move_rows fb to_y from_y h m = copy_rows fb (row_pairs to_y from_y (rev [0..<?k])) m"
  proof (cases "to_y \<ge> height fb \<or> from_y \<ge> height fb \<or> to_y = from_y")
    case True
    then show ?thesis using that(1)
      by (auto simp: framebuffer_move_rows_def moved_rows_def word_le_nat_alt)
  next
    case False
    define a where "a = height fb - (if to_y > from_y then to_y else from_y)"
    define h' where "h' = (if h > a then a else h)"
    have "unat a = unat (height fb) - max (unat to_y) (unat from_y)"
      using False by (auto simp: a_def word_le_nat_alt word_less_nat_alt unat_sub_fits max_def)
    then have h': "unat h' = ?k" using False by (auto simp: h'_def moved_rows_def word_less_nat_alt)
    show ?thesis
    proof (cases "h' = 0")
      case True
      then have "?k = 0" using h' by simp
      moreover have "framebuffer_move_rows fb to_y from_y h m = m"
        using False True by (simp add: framebuffer_move_rows_def Let_def a_def [symmetric] h'_def [symmetric])
      ultimately show ?thesis using that(1) by blast
    next
      case pos: False
      show ?thesis
      proof (cases "to_y < from_y")
        case True
        then show ?thesis using that(2) False pos
          by (simp add: framebuffer_move_rows_def Let_def a_def [symmetric] h'_def [symmetric] h' run)
      next
        case down: False
        have "rev [1..<Suc ?k] = map Suc (rev [0..<?k])" by (simp only: map_Suc_upt [symmetric] rev_map One_nat_def)
        moreover have "(\<lambda>row. memcpy (pixel_at fb 0 (to_y + of_nat row - 1)) (pixel_at fb 0 (from_y + of_nat row - 1))
            (ucast (width fb) * ucast (framebuffer_bytes_per_pixel fb))) \<circ> Suc =
          (\<lambda>r. memcpy (pixel_at fb 0 (to_y + of_nat r)) (pixel_at fb 0 (from_y + of_nat r))
            (ucast (width fb) * ucast (framebuffer_bytes_per_pixel fb)))"
          by (simp add: fun_eq_iff)
        ultimately have backwards: "fold (\<lambda>row. memcpy (pixel_at fb 0 (to_y + of_nat row - 1)) (pixel_at fb 0 (from_y + of_nat row - 1))
            (ucast (width fb) * ucast (framebuffer_bytes_per_pixel fb))) (rev [1..<Suc ?k]) m =
          copy_rows fb (row_pairs to_y from_y (rev [0..<?k])) m"
          by (simp only: fold_map run)
        have "framebuffer_move_rows fb to_y from_y h m = copy_rows fb (row_pairs to_y from_y (rev [0..<?k])) m"
          using False pos down unfolding framebuffer_move_rows_def Let_def a_def [symmetric] h'_def [symmetric] h' backwards
          by (simp only: simp_thms if_False if_True de_Morgan_disj)
        then show ?thesis using that(3) False down by auto
      qed
    qed
  qed
  then show thesis
  proof cases
    case 1
    then show ?thesis using that [of "[]"] by (simp add: row_pairs_def copy_rows_def)
  next
    case 2
    have "sorted_wrt (\<lambda>r s. fst r \<noteq> fst s \<and> fst r \<noteq> snd s) (row_pairs to_y from_y [0..<?k])"
      unfolding row_pairs_def sorted_wrt_map
      by (rule sorted_wrt_mono_rel [OF _ sorted_wrt_upt])
        (use neq 2(1) in \<open>auto simp: word_less_nat_alt\<close>)
    then show ?thesis using that [of "[0..<?k]"] 2 inside [of "[0..<?k]"] by simp
  next
    case 3
    have "sorted_wrt (\<lambda>r s. fst r \<noteq> fst s \<and> fst r \<noteq> snd s) (row_pairs to_y from_y (rev [0..<?k]))"
      unfolding row_pairs_def sorted_wrt_map sorted_wrt_rev
      by (rule sorted_wrt_mono_rel [OF _ sorted_wrt_upt])
        (use neq 3(1) in \<open>auto simp: word_less_nat_alt\<close>)
    then show ?thesis using that [of "rev [0..<?k]"] 3 inside [of "rev [0..<?k]"] by simp
  qed
qed

lemma map_of_row_pairs:
  assumes fb: "fb_ok fb" and rs: "set rs = {0..<moved_rows fb to_y from_y h}"
  shows "(case map_of (row_pairs to_y from_y rs) y of None \<Rightarrow> y | Some f \<Rightarrow> f) =
    (if moved_to fb to_y from_y h y then y - to_y + from_y else y)"
proof (cases "map_of (row_pairs to_y from_y rs) y")
  case None
  have "\<not> moved_to fb to_y from_y h y"
  proof
    assume mv: "moved_to fb to_y from_y h y"
    then have r: "unat y - unat to_y \<in> set rs" and le: "unat to_y \<le> unat y" by (auto simp: moved_to_def rs)
    have "y = to_y + of_nat (unat y - unat to_y)" using le by (simp add: of_nat_diff)
    with r have "y \<in> fst ` set (row_pairs to_y from_y rs)" by (auto simp: row_pairs_def image_iff)
    with None show False by (simp add: map_of_eq_None_iff)
  qed
  with None show ?thesis by simp
next
  case (Some f)
  then have "(y, f) \<in> set (row_pairs to_y from_y rs)" by (rule map_of_SomeD)
  then obtain r where r: "r < moved_rows fb to_y from_y h" "y = to_y + of_nat r" "f = from_y + of_nat r"
    by (auto simp: row_pairs_def rs)
  have "unat to_y + r < 16384"
    using r(1) fb_geometry(4) [OF fb] by (auto simp: moved_rows_def split: if_splits)
  then have "unat y = unat to_y + r" unfolding r(2) by (subst unat_add_fits) (simp_all add: unat_of_nat)
  with r have "moved_to fb to_y from_y h y" by (simp add: moved_to_def)
  with Some r show ?thesis by simp
qed

lemma move_rows_get:
  assumes "fb_ok fb"
  shows "framebuffer_get fb x y (framebuffer_move_rows fb to_y from_y h m) =
      framebuffer_get fb x (if moved_to fb to_y from_y h y then y - to_y + from_y else y) m \<and>
    {a. framebuffer_move_rows fb to_y from_y h m a \<noteq> m a} \<subseteq>
      (\<Union>p \<in> {p. on_screen fb p \<and> moved_to fb to_y from_y h (snd p)}. {a. in_pixel fb p a})"
proof -
  obtain rs where rs: "framebuffer_move_rows fb to_y from_y h m = copy_rows fb (row_pairs to_y from_y rs) m"
    "set rs = {0..<moved_rows fb to_y from_y h}"
    and ok: "\<forall>(t, f) \<in> set (row_pairs to_y from_y rs). t < height fb \<and> f < height fb \<and> t \<noteq> f"
      "sorted_wrt (\<lambda>r s. fst r \<noteq> fst s \<and> fst r \<noteq> snd s) (row_pairs to_y from_y rs)"
    by (rule move_rows_copy_rows [OF assms])
  have mv: "moved_to fb to_y from_y h (fst r)" if "r \<in> set (row_pairs to_y from_y rs)" for r
  proof -
    from that obtain k where k: "k < moved_rows fb to_y from_y h" "fst r = to_y + of_nat k"
      by (auto simp: row_pairs_def rs(2))
    have "unat to_y + k < 16384"
      using k(1) fb_geometry(4) [OF assms] by (auto simp: moved_rows_def split: if_splits)
    then have "unat (fst r) = unat to_y + k" unfolding k(2) by (subst unat_add_fits) (simp_all add: unat_of_nat)
    with k(1) show ?thesis by (simp add: moved_to_def)
  qed
  have "framebuffer_get fb x y (copy_rows fb (row_pairs to_y from_y rs) m) =
      framebuffer_get fb x (if moved_to fb to_y from_y h y then y - to_y + from_y else y) m"
    unfolding map_of_row_pairs [OF assms rs(2), symmetric] by (rule copy_rows_get(1) [OF assms ok])
  moreover have "{a. copy_rows fb (row_pairs to_y from_y rs) m a \<noteq> m a} \<subseteq>
      (\<Union>p \<in> {p. on_screen fb p \<and> moved_to fb to_y from_y h (snd p)}. {a. in_pixel fb p a})"
  proof
    fix a assume "a \<in> {a. copy_rows fb (row_pairs to_y from_y rs) m a \<noteq> m a}"
    then obtain z r where "r \<in> set (row_pairs to_y from_y rs)" "on_screen fb (z, fst r)" "in_pixel fb (z, fst r) a"
      using copy_rows_get(2) [OF assms ok, of m a] by blast
    with mv show "a \<in> (\<Union>p \<in> {p. on_screen fb p \<and> moved_to fb to_y from_y h (snd p)}. {a. in_pixel fb p a})"
      by (intro UN_I [of "(z, fst r)"]) auto
  qed
  ultimately show ?thesis unfolding rs(1) by blast
qed

text \<open>
  C31. Moving rows is exact in either direction although the ranges overlap: every row moved to shows what
  the row \<open>from_y - to_y\<close> away showed before the call, every other pixel is as it was, and no byte of memory
  outside the pixels moved to changes; a height that would run past the bottom of the screen is cut short.
\<close>

theorem framebuffer_move_rows_exact:
  assumes "fb_ok fb"
  shows "framebuffer_get fb x y (framebuffer_move_rows fb to_y from_y h m) =
      framebuffer_get fb x (if moved_to fb to_y from_y h y then y - to_y + from_y else y) m \<and>
    {a. framebuffer_move_rows fb to_y from_y h m a \<noteq> m a} \<subseteq>
      (\<Union>p \<in> {p. on_screen fb p \<and> moved_to fb to_y from_y h (snd p)}. {a. in_pixel fb p a})"
  by (rule move_rows_get [OF assms])

text \<open>A screen of 4 by 3 pixels of 32 bits with padded rows.\<close>

definition demo_fb :: framebuffer where
  "demo_fb = \<lparr>fb_base = 0xE0000000, width = 4, height = 3, pitch = 32, bits_per_pixel = 32,
     red = \<lparr>shift = 16, bits = 8\<rparr>, green = \<lparr>shift = 8, bits = 8\<rparr>, blue = \<lparr>shift = 0, bits = 8\<rparr>\<rparr>"

lemma demo_fb_ok: "fb_ok demo_fb"
  by (simp add: fb_ok_def demo_fb_def framebuffer_valid_def framebuffer_bytes_per_pixel_def channel_valid_def)

theorem framebuffer_fill_exact_witness:
  "framebuffer_get demo_fb 3 2 (framebuffer_fill demo_fb 1 1 9 9 0xABCDEF (\<lambda>_. 0)) = 0xABCDEF"
  using framebuffer_fill_exact [OF demo_fb_ok, of 3 2 1 1 9 9 "0xABCDEF" "\<lambda>_. 0"]
  by (simp add: demo_fb_def on_screen_def in_rect_def shown_def bpp_def framebuffer_bytes_per_pixel_def take_bit_eq_mod)

theorem framebuffer_move_rows_exact_witness:
  "framebuffer_get demo_fb 2 1 (framebuffer_move_rows demo_fb 0 1 2 (\<lambda>a. ucast a)) = framebuffer_get demo_fb 2 2 (\<lambda>a. ucast a)"
  using framebuffer_move_rows_exact [OF demo_fb_ok, of 2 1 0 1 2 "\<lambda>a. ucast a"]
  by (simp add: moved_to_def moved_rows_def demo_fb_def)

end
