(* ===== verification/Terminal.thy ===== *)
theory Terminal
  imports Framebuffer Str
begin

text \<open>
  \<open>src/terminal/terminal.c\<close>: text on a framebuffer. The font is data the terminal is given, its glyphs a
  list of bytes. The terminal only draws through the framebuffer, so an operation takes the terminal and
  the memory and returns both. The reference is a grid of cells with a cursor.
\<close>

abbreviation (input) TERMINAL_TAB_WIDTH :: u32 where "TERMINAL_TAB_WIDTH \<equiv> 8"
abbreviation (input) TERMINAL_NEWLINE :: u8 where "TERMINAL_NEWLINE \<equiv> 10"
abbreviation (input) TERMINAL_CARRIAGE_RETURN :: u8 where "TERMINAL_CARRIAGE_RETURN \<equiv> 13"
abbreviation (input) TERMINAL_TAB :: u8 where "TERMINAL_TAB \<equiv> 9"
abbreviation (input) GLYPH_MAX_WIDTH :: u32 where "GLYPH_MAX_WIDTH \<equiv> 8"
abbreviation (input) GLYPH_LEFTMOST_BIT :: u32 where "GLYPH_LEFTMOST_BIT \<equiv> 0x80"
abbreviation (input) REPLACEMENT_FILLED :: bool where "REPLACEMENT_FILLED \<equiv> True"

record terminal_font =
  glyphs :: "u8 list"
  font_width :: u32
  font_height :: u32
  first_code :: u32
  glyph_count :: u32

record terminal =
  term_fb :: framebuffer
  font :: terminal_font
  columns :: u32
  rows :: u32
  column :: u32
  row :: u32
  foreground :: u32
  background :: u32

definition terminal_init :: "framebuffer \<Rightarrow> terminal_font \<Rightarrow> u32 \<Rightarrow> u32 \<Rightarrow> terminal option" where
  "terminal_init fb fnt fg bg =
     (if \<not> framebuffer_valid fb then None
      else if font_width fnt = 0 \<or> font_width fnt > GLYPH_MAX_WIDTH then None
      else if font_height fnt = 0 \<or> glyph_count fnt = 0 then None
      else if width fb < font_width fnt \<or> height fb < font_height fnt then None
      else Some \<lparr>term_fb = fb, font = fnt, columns = width fb div font_width fnt,
                 rows = height fb div font_height fnt, column = 0, row = 0, foreground = fg, background = bg\<rparr>)"

definition terminal_clear :: "terminal \<times> mem \<Rightarrow> terminal \<times> mem" where
  "terminal_clear = (\<lambda>(t, m).
     (t\<lparr>column := 0, row := 0\<rparr>,
      framebuffer_fill (term_fb t) 0 0 (width (term_fb t)) (height (term_fb t)) (background t) m))"

definition terminal_set_foreground :: "terminal \<Rightarrow> u32 \<Rightarrow> terminal" where
  "terminal_set_foreground t colour = t\<lparr>foreground := colour\<rparr>"

definition glyph_of :: "terminal_font \<Rightarrow> u8 \<Rightarrow> u8 list option" where
  "glyph_of fnt character =
     (if ucast character < first_code fnt then None
      else let index = ucast character - first_code fnt
           in if index \<ge> glyph_count fnt then None
              else Some (drop (unat index * unat (font_height fnt)) (glyphs fnt)))"

definition glyph_bit :: "u8 list option \<Rightarrow> nat \<Rightarrow> nat \<Rightarrow> bool" where
  "glyph_bit glyph r c =
     (let bits = (case glyph of None \<Rightarrow> 0 | Some g \<Rightarrow> g ! r)
      in case glyph of None \<Rightarrow> REPLACEMENT_FILLED
         | Some _ \<Rightarrow> ucast bits AND drop_bit c GLYPH_LEFTMOST_BIT \<noteq> 0)"

definition draw_glyph :: "terminal \<Rightarrow> u8 \<Rightarrow> u32 \<Rightarrow> u32 \<Rightarrow> mem \<Rightarrow> mem" where
  "draw_glyph t character x y =
     (let glyph = glyph_of (font t) character
      in fold (\<lambda>r. fold (\<lambda>c. framebuffer_put (term_fb t) (x + of_nat c) (y + of_nat r)
                               (if glyph_bit glyph r c then foreground t else background t))
                     [0..<unat (font_width (font t))])
           [0..<unat (font_height (font t))])"

definition scroll :: "terminal \<times> mem \<Rightarrow> terminal \<times> mem" where
  "scroll = (\<lambda>(t, m).
     let line = font_height (font t);
         kept = (if rows t > 0 then (rows t - 1) * line else 0);
         m = framebuffer_move_rows (term_fb t) 0 line kept m;
         m = framebuffer_fill (term_fb t) 0 kept (width (term_fb t)) line (background t) m
     in (t\<lparr>row := (if rows t > 0 then rows t - 1 else 0)\<rparr>, m))"

definition newline :: "terminal \<times> mem \<Rightarrow> terminal \<times> mem" where
  "newline = (\<lambda>(t, m).
     let t = t\<lparr>column := 0, row := row t + 1\<rparr>
     in if row t \<ge> rows t then scroll (t, m) else (t, m))"

definition terminal_put :: "u8 \<Rightarrow> terminal \<times> mem \<Rightarrow> terminal \<times> mem" where
  "terminal_put character = (\<lambda>(t, m).
     if character = TERMINAL_NEWLINE then newline (t, m)
     else if character = TERMINAL_CARRIAGE_RETURN then (t\<lparr>column := 0\<rparr>, m)
     else if character = TERMINAL_TAB then
       let t = t\<lparr>column := (column t div TERMINAL_TAB_WIDTH + 1) * TERMINAL_TAB_WIDTH\<rparr>
       in if column t \<ge> columns t then newline (t, m) else (t, m)
     else
       let (t, m) = (if column t \<ge> columns t then newline (t, m) else (t, m));
           m = draw_glyph t character (column t * font_width (font t)) (row t * font_height (font t)) m
       in (t\<lparr>column := column t + 1\<rparr>, m))"

text \<open>A text up to its terminator.\<close>

definition terminal_write :: "u8 list \<Rightarrow> terminal \<times> mem \<Rightarrow> terminal \<times> mem" where
  "terminal_write tx = fold terminal_put (str_from_cstr tx)"

subsection \<open>A terminal and its cells\<close>

definition term_wf :: "terminal \<Rightarrow> bool" where
  "term_wf t \<longleftrightarrow> fb_ok (term_fb t) \<and> font_width (font t) \<noteq> 0 \<and> font_width (font t) \<le> 8 \<and> font_height (font t) \<noteq> 0 \<and>
     width (term_fb t) div font_width (font t) = columns t \<and> height (term_fb t) div font_height (font t) = rows t \<and>
     0 < columns t \<and> 0 < rows t \<and> column t \<le> columns t \<and> row t < rows t"

lemma term_nat:
  assumes "term_wf t"
  shows "0 < unat (font_width (font t))" "unat (font_width (font t)) \<le> 8" "0 < unat (font_height (font t))"
    "0 < unat (columns t)" "0 < unat (rows t)" "unat (column t) \<le> unat (columns t)" "unat (row t) < unat (rows t)"
    "unat (columns t) * unat (font_width (font t)) \<le> unat (width (term_fb t))"
    "unat (rows t) * unat (font_height (font t)) \<le> unat (height (term_fb t))"
    "unat (width (term_fb t)) \<le> 16384" "unat (height (term_fb t)) \<le> 16384"
    "unat (columns t) \<le> 16384" "unat (rows t) \<le> 16384"
proof -
  have fb: "fb_ok (term_fb t)" using assms by (simp add: term_wf_def)
  show b: "0 < unat (font_width (font t))" "unat (font_width (font t)) \<le> 8" "0 < unat (font_height (font t))"
    "0 < unat (columns t)" "0 < unat (rows t)" "unat (column t) \<le> unat (columns t)" "unat (row t) < unat (rows t)"
    using assms by (auto simp: term_wf_def word_less_nat_alt word_le_nat_alt unat_gt_0)
  show w: "unat (width (term_fb t)) \<le> 16384" "unat (height (term_fb t)) \<le> 16384"
    using fb_geometry [OF fb] by simp_all
  show "unat (columns t) * unat (font_width (font t)) \<le> unat (width (term_fb t))"
    "unat (rows t) * unat (font_height (font t)) \<le> unat (height (term_fb t))"
  proof -
    have "columns t = width (term_fb t) div font_width (font t)" "rows t = height (term_fb t) div font_height (font t)"
      using assms by (simp_all add: term_wf_def)
    then show "unat (columns t) * unat (font_width (font t)) \<le> unat (width (term_fb t))"
      "unat (rows t) * unat (font_height (font t)) \<le> unat (height (term_fb t))" by (simp_all only: unat_div div_times_less_eq_dividend)
  qed
  moreover have "unat (columns t) * 1 \<le> unat (columns t) * unat (font_width (font t))"
    "unat (rows t) * 1 \<le> unat (rows t) * unat (font_height (font t))"
    using b by (intro mult_le_mono2; simp)+
  ultimately show "unat (columns t) \<le> 16384" "unat (rows t) \<le> 16384" using w by linarith+
qed

text \<open>The grid of cells a terminal shows: a cell is blank or a character in the colour it was written in.\<close>

type_synonym cell = "(u8 \<times> u32) option"

record grid =
  cells :: "nat \<Rightarrow> nat \<Rightarrow> cell"
  cur_col :: nat
  cur_row :: nat

definition grid_newline :: "nat \<Rightarrow> grid \<Rightarrow> grid" where
  "grid_newline R g =
     (if cur_row g + 1 \<ge> R
      then g\<lparr>cells := (\<lambda>c r. if r + 1 < R then cells g c (r + 1) else None), cur_col := 0, cur_row := R - 1\<rparr>
      else g\<lparr>cur_col := 0, cur_row := cur_row g + 1\<rparr>)"

definition grid_draw :: "u32 \<Rightarrow> u8 \<Rightarrow> grid \<Rightarrow> grid" where
  "grid_draw ink ch g =
     g\<lparr>cells := (\<lambda>c r. if c = cur_col g \<and> r = cur_row g then Some (ch, ink) else cells g c r), cur_col := cur_col g + 1\<rparr>"

definition grid_put :: "nat \<Rightarrow> nat \<Rightarrow> u32 \<Rightarrow> u8 \<Rightarrow> grid \<Rightarrow> grid" where
  "grid_put C R ink ch g =
     (if ch = TERMINAL_NEWLINE then grid_newline R g
      else if ch = TERMINAL_CARRIAGE_RETURN then g\<lparr>cur_col := 0\<rparr>
      else if ch = TERMINAL_TAB then
        let c = (cur_col g div 8 + 1) * 8 in if c \<ge> C then grid_newline R g else g\<lparr>cur_col := c\<rparr>
      else grid_draw ink ch (if cur_col g \<ge> C then grid_newline R g else g))"

definition cell_colour :: "terminal \<Rightarrow> cell \<Rightarrow> nat \<Rightarrow> nat \<Rightarrow> u32" where
  "cell_colour t cl j i =
     (case cl of None \<Rightarrow> background t
      | Some (ch, ink) \<Rightarrow> if glyph_bit (glyph_of (font t) ch) j i then ink else background t)"

definition pixel :: "terminal \<Rightarrow> mem \<Rightarrow> nat \<Rightarrow> nat \<Rightarrow> u32" where
  "pixel t m x y = framebuffer_get (term_fb t) (of_nat x) (of_nat y) m"

lemma moved_cursor [simp]:
  "cell_colour (t\<lparr>column := c, row := r\<rparr>) = cell_colour t" "pixel (t\<lparr>column := c, row := r\<rparr>) = pixel t"
  "cell_colour (t\<lparr>column := c\<rparr>) = cell_colour t" "pixel (t\<lparr>column := c\<rparr>) = pixel t"
  by (simp_all add: fun_eq_iff cell_colour_def pixel_def split: option.split)

definition displays :: "terminal \<times> mem \<Rightarrow> grid \<Rightarrow> bool" where
  "displays = (\<lambda>(t, m) g.
     unat (column t) = cur_col g \<and> unat (row t) = cur_row g \<and>
     (\<forall>c < unat (columns t). \<forall>r < unat (rows t). \<forall>i < unat (font_width (font t)). \<forall>j < unat (font_height (font t)).
        pixel t m (c * unat (font_width (font t)) + i) (r * unat (font_height (font t)) + j) =
        shown (term_fb t) (cell_colour t (cells g c r) j i)))"

text \<open>Memory that is not a pixel of the screen stays as it was, and the terminal keeps its screen.\<close>

definition keeps :: "terminal \<times> mem \<Rightarrow> terminal \<times> mem \<Rightarrow> bool" where
  "keeps = (\<lambda>(t, m) (t', m').
     term_fb t' = term_fb t \<and> font t' = font t \<and> columns t' = columns t \<and> rows t' = rows t \<and>
     foreground t' = foreground t \<and> background t' = background t \<and>
     {a. m' a \<noteq> m a} \<subseteq> {a. \<exists>p. on_screen (term_fb t) p \<and> in_pixel (term_fb t) p a})"

lemma keeps_refl [simp]: "keeps s s"
  by (cases s) (simp add: keeps_def)

lemma keeps_trans: "keeps s s' \<Longrightarrow> keeps s' s'' \<Longrightarrow> keeps s s''"
proof -
  assume k: "keeps s s'" "keeps s' s''"
  obtain t m t' m' t'' m'' where s: "s = (t, m)" "s' = (t', m')" "s'' = (t'', m'')"
    by (cases s; cases s'; cases s'')
  have "{a. m'' a \<noteq> m a} \<subseteq> {a. m' a \<noteq> m a} \<union> {a. m'' a \<noteq> m' a}" by auto
  with k show ?thesis unfolding s keeps_def by auto
qed

text \<open>The position of a pixel in nat and as the code's 32-bit coordinate.\<close>

lemma cell_pixel:
  assumes wf: "term_wf t" and c: "c < unat (columns t)" "r < unat (rows t)"
    and ij: "i < unat (font_width (font t))" "j < unat (font_height (font t))"
  shows "c * unat (font_width (font t)) + i < unat (width (term_fb t))"
    "r * unat (font_height (font t)) + j < unat (height (term_fb t))"
    "unat (of_nat (c * unat (font_width (font t)) + i) :: u32) = c * unat (font_width (font t)) + i"
    "unat (of_nat (r * unat (font_height (font t)) + j) :: u32) = r * unat (font_height (font t)) + j"
    "on_screen (term_fb t) (of_nat (c * unat (font_width (font t)) + i), of_nat (r * unat (font_height (font t)) + j))"
proof -
  let ?w = "unat (font_width (font t))" and ?h = "unat (font_height (font t))"
  note n = term_nat [OF wf]
  have "c * ?w + i < (c + 1) * ?w" using ij by simp
  also have "\<dots> \<le> unat (columns t) * ?w" using c by (intro mult_le_mono1) simp
  finally show x: "c * ?w + i < unat (width (term_fb t))" using n(8) by linarith
  have "r * ?h + j < (r + 1) * ?h" using ij by simp
  also have "\<dots> \<le> unat (rows t) * ?h" using c by (intro mult_le_mono1) simp
  finally show y: "r * ?h + j < unat (height (term_fb t))" using n(9) by linarith
  have small: "unat (of_nat k :: u32) = k" if "k < 16384" for k
    using that by (simp add: unat_of_nat)
  show ux: "unat (of_nat (c * ?w + i) :: u32) = c * ?w + i" using x n(10) by (intro small) linarith
  show uy: "unat (of_nat (r * ?h + j) :: u32) = r * ?h + j" using y n(11) by (intro small) linarith
  show "on_screen (term_fb t) (of_nat (c * ?w + i), of_nat (r * ?h + j))"
    unfolding on_screen_def fst_conv snd_conv word_less_nat_alt ux uy using x y by blast
qed

lemma cell_unique:
  assumes "c * w + i = c' * w + (i' :: nat)" "i < w" "i' < w"
  shows "c = c' \<and> i = i'"
proof -
  have "c = (c * w + i) div w" "c' = (c' * w + i') div w" using assms(2,3) by simp_all
  then show ?thesis using assms(1) by simp
qed

subsection \<open>Scrolling\<close>

lemma scroll_displays:
  assumes wf: "term_wf t" and d: "displays (t, m) g" and s: "scroll (t0, m) = (t', m')"
    and t0: "t0 = t\<lparr>column := 0, row := rw\<rparr>"
  shows "term_wf t'" "keeps (t, m) (t', m')"
    "displays (t', m') (g\<lparr>cells := (\<lambda>c r. if r + 1 < unat (rows t) then cells g c (r + 1) else None),
       cur_col := 0, cur_row := unat (rows t) - 1\<rparr>)"
proof -
  note n = term_nat [OF wf]
  let ?fb = "term_fb t" and ?w = "unat (font_width (font t))" and ?h = "unat (font_height (font t))" and ?R = "unat (rows t)"
  have fb: "fb_ok ?fb" using wf by (simp add: term_wf_def)
  define line where "line = font_height (font t)"
  define kept where "kept = (rows t - 1) * line"
  define m1 where "m1 = framebuffer_move_rows ?fb 0 line kept m"
  have rpos: "rows t > 0" using n(5) by (simp add: word_less_nat_alt)
  have t': "t' = t\<lparr>column := 0, row := rows t - 1\<rparr>"
    and m': "m' = framebuffer_fill ?fb 0 kept (width ?fb) line (background t) m1"
    using s rpos by (simp_all add: scroll_def t0 Let_def kept_def line_def m1_def)
  have r1: "unat (rows t - 1) = ?R - 1" using n(5) by (intro unat_minus_one) (auto simp: unat_eq_0 [symmetric])
  have split: "?R * ?h = (?R - 1) * ?h + ?h" using n(5) by (cases ?R) simp_all
  have kept: "unat kept = (?R - 1) * ?h"
  proof -
    have "(?R - 1) * ?h < 2 ^ 32" using n(9,11) split by simp
    then show ?thesis by (simp add: kept_def line_def r1 unat_mult_fits)
  qed
  show "term_wf t'" using wf r1 n(5) by (simp add: t' term_wf_def word_less_nat_alt)
  have mv: "moved_to ?fb 0 line kept y \<longleftrightarrow> unat y < unat kept" if "unat y < 16384" for y
    using n(3,9) split kept by (auto simp: moved_to_def moved_rows_def line_def min_def)
  have fill: "framebuffer_get ?fb x y m' = (if on_screen ?fb (x, y) \<and> in_rect 0 kept (width ?fb) line (x, y)
      then shown ?fb (background t) else framebuffer_get ?fb x y m1)" for x y
    unfolding m' by (rule conjunct1 [OF fill_get [OF fb]])
  have move: "framebuffer_get ?fb x y m1 =
      framebuffer_get ?fb x (if moved_to ?fb 0 line kept y then y - 0 + line else y) m" for x y
    unfolding m1_def by (rule conjunct1 [OF move_rows_get [OF fb]])
  have "m' a \<noteq> m1 a \<Longrightarrow> \<exists>p. on_screen ?fb p \<and> in_pixel ?fb p a" for a
    unfolding m' using conjunct2 [OF fill_get [OF fb], of 0 kept "width ?fb" line "background t" m1] by blast
  moreover have "m1 a \<noteq> m a \<Longrightarrow> \<exists>p. on_screen ?fb p \<and> in_pixel ?fb p a" for a
    unfolding m1_def using conjunct2 [OF move_rows_get [OF fb], of 0 line kept m] by blast
  ultimately have "m' a \<noteq> m a \<Longrightarrow> \<exists>p. on_screen ?fb p \<and> in_pixel ?fb p a" for a by metis
  then show "keeps (t, m) (t', m')" by (auto simp: keeps_def t')
  have "pixel t' m' (c * ?w + i) (r * ?h + j) =
      shown ?fb (cell_colour t' (if r + 1 < ?R then cells g c (r + 1) else None) j i)"
    if cr: "c < unat (columns t)" "r < ?R" and ij: "i < ?w" "j < ?h" for c r i j
  proof -
    note px = cell_pixel [OF wf cr ij]
    let ?x = "of_nat (c * ?w + i) :: u32" and ?y = "of_nat (r * ?h + j) :: u32"
    have small: "unat ?y < 16384" using px(2,4) n(11) by linarith
    have col: "cell_colour t' cl j i = cell_colour t cl j i" for cl by (simp add: t')
    show ?thesis
    proof (cases "r + 1 < ?R")
      case True
      have "r * ?h + j < (r + 1) * ?h" using ij by simp
      also have "\<dots> \<le> (?R - 1) * ?h" using True by (intro mult_le_mono1) simp
      finally have lt: "unat ?y < unat kept" using px(4) kept by simp
      then have "\<not> in_rect 0 kept (width ?fb) line (?x, ?y)" by (simp add: in_rect_def)
      then have "framebuffer_get ?fb ?x ?y m' = framebuffer_get ?fb ?x (?y + line) m"
        unfolding fill move mv [OF small] using lt by simp
      moreover have "?y + line = of_nat ((r + 1) * ?h + j)" by (simp add: line_def algebra_simps)
      moreover have "pixel t m (c * ?w + i) ((r + 1) * ?h + j) = shown ?fb (cell_colour t (cells g c (r + 1)) j i)"
        using d cr ij True unfolding displays_def by blast
      moreover have "pixel t' = pixel t" by (simp add: t')
      ultimately show ?thesis using True by (simp only: pixel_def col if_True)
    next
      case False
      then have "r = ?R - 1" using cr by linarith
      then have "unat kept \<le> unat ?y" "unat ?y < unat kept + unat line" using px(4) kept ij by (simp_all add: line_def)
      moreover have "unat ?x < unat (width ?fb)" using px(1,3) by simp
      ultimately have "in_rect 0 kept (width ?fb) line (?x, ?y)" by (simp add: in_rect_def)
      with px(5) have "framebuffer_get ?fb ?x ?y m' = shown ?fb (background t)" by (simp add: fill)
      with False show ?thesis by (simp add: pixel_def t' cell_colour_def)
    qed
  qed
  then show "displays (t', m') (g\<lparr>cells := (\<lambda>c r. if r + 1 < ?R then cells g c (r + 1) else None),
       cur_col := 0, cur_row := ?R - 1\<rparr>)"
    using r1 by (simp add: displays_def t')
qed

lemma newline_displays:
  assumes wf: "term_wf t" and d: "displays (t, m) g" and s: "newline (t0, m) = (t', m')"
    and t0: "t0 = t\<lparr>column := cl\<rparr>"
  shows "term_wf t'" "keeps (t, m) (t', m')" "displays (t', m') (grid_newline (unat (rows t)) g)"
proof -
  note n = term_nat [OF wf]
  have r: "unat (row t + 1) = cur_row g + 1" and rr: "unat (row t) = cur_row g" using d n(7,13)
    by (auto simp: displays_def unat_word_ariths)
  let ?t = "t\<lparr>column := 0, row := row t + 1\<rparr>"
  show "term_wf t'" "keeps (t, m) (t', m')" "displays (t', m') (grid_newline (unat (rows t)) g)"
  proof (atomize (full), cases "rows t \<le> row t + 1")
    case True
    then have "scroll (?t, m) = (t', m')" using s by (simp add: newline_def t0 Let_def)
    from scroll_displays [OF wf d this refl] True r
    show "term_wf t' \<and> keeps (t, m) (t', m') \<and> displays (t', m') (grid_newline (unat (rows t)) g)"
      by (simp add: grid_newline_def word_le_nat_alt)
  next
    case False
    then have t': "t' = ?t" "m' = m" using s by (simp_all add: newline_def t0 Let_def)
    have "term_wf t'" using wf False by (simp add: t' term_wf_def)
    moreover have "displays (t', m') (grid_newline (unat (rows t)) g)"
      using d False r by (simp add: t' displays_def grid_newline_def word_le_nat_alt)
    ultimately show "term_wf t' \<and> keeps (t, m) (t', m') \<and> displays (t', m') (grid_newline (unat (rows t)) g)"
      by (simp add: t' keeps_def)
  qed
qed

subsection \<open>Drawing\<close>

text \<open>Pixels stored one after the other, each in the colour of its position.\<close>

lemma get_put_fold:
  assumes fb: "fb_ok fb" and ps: "\<forall>p \<in> set ps. on_screen fb p"
  shows "framebuffer_get fb x y (fold (\<lambda>p. framebuffer_put fb (fst p) (snd p) (colour p)) ps m) =
      (if (x, y) \<in> set ps then shown fb (colour (x, y)) else framebuffer_get fb x y m) \<and>
    {a. fold (\<lambda>p. framebuffer_put fb (fst p) (snd p) (colour p)) ps m a \<noteq> m a} \<subseteq>
      {a. \<exists>p. on_screen fb p \<and> in_pixel fb p a}"
  using ps
proof (induction ps arbitrary: m)
  case (Cons p ps)
  let ?m = "framebuffer_put fb (fst p) (snd p) (colour p) m"
  have p: "?m = paint fb (colour p) [p] m" using Cons.prems by (simp add: framebuffer_put_paint)
  have "framebuffer_get fb x y ?m = (if (x, y) = p then shown fb (colour p) else framebuffer_get fb x y m)"
    unfolding p using Cons.prems by (subst get_paint [OF fb]) simp_all
  moreover have "{a. ?m a \<noteq> m a} \<subseteq> {a. \<exists>p. on_screen fb p \<and> in_pixel fb p a}"
  proof
    fix a assume "a \<in> {a. ?m a \<noteq> m a}"
    then have "in_pixel fb p a" unfolding p using paint_outside [of "[p]" fb a "colour p" m] by (cases "in_pixel fb p a") auto
    with Cons.prems show "a \<in> {a. \<exists>p. on_screen fb p \<and> in_pixel fb p a}" by (intro CollectI exI [of _ p]) simp
  qed
  moreover have "{a. fold (\<lambda>p. framebuffer_put fb (fst p) (snd p) (colour p)) ps ?m a \<noteq> m a} \<subseteq>
      {a. fold (\<lambda>p. framebuffer_put fb (fst p) (snd p) (colour p)) ps ?m a \<noteq> ?m a} \<union> {a. ?m a \<noteq> m a}" by auto
  ultimately show ?case using Cons.IH [of ?m] Cons.prems by auto
qed simp

lemma draw_displays:
  fixes ch :: u8
  assumes wf: "term_wf t" and d: "displays (t, m) g" and c: "column t < columns t"
  defines "m' \<equiv> draw_glyph t ch (column t * font_width (font t)) (row t * font_height (font t)) m"
  shows "displays (t\<lparr>column := column t + 1\<rparr>, m') (grid_draw (foreground t) ch g)"
    "{a. m' a \<noteq> m a} \<subseteq> {a. \<exists>p. on_screen (term_fb t) p \<and> in_pixel (term_fb t) p a}"
proof -
  note n = term_nat [OF wf]
  let ?fb = "term_fb t" and ?w = "unat (font_width (font t))" and ?h = "unat (font_height (font t))"
  have fb: "fb_ok ?fb" using wf by (simp add: term_wf_def)
  have cur: "cur_col g < unat (columns t)" "cur_row g < unat (rows t)" "unat (column t) = cur_col g" "unat (row t) = cur_row g"
    using d c n(7) by (auto simp: displays_def word_less_nat_alt)
  define x where "x = cur_col g * ?w"
  define y where "y = cur_row g * ?h"
  have xy: "column t * font_width (font t) = of_nat x" "row t * font_height (font t) = of_nat y"
    by (simp_all add: x_def y_def cur(3,4) [symmetric])
  define ps where "ps = concat (map (\<lambda>r. map (\<lambda>c. (of_nat x + of_nat c :: u32, of_nat y + of_nat r :: u32)) [0..<?w]) [0..<?h])"
  define colour where "colour = (\<lambda>p :: u32 \<times> u32. if glyph_bit (glyph_of (font t) ch) (unat (snd p) - y) (unat (fst p) - x)
    then foreground t else background t)"
  have pos: "on_screen ?fb (of_nat x + of_nat i, of_nat y + of_nat j)" "unat (of_nat x + of_nat i :: u32) = x + i"
      "unat (of_nat y + of_nat j :: u32) = y + j" if "i < ?w" "j < ?h" for i j
    using cell_pixel(3-5) [OF wf cur(1,2) that] by (simp_all add: x_def y_def)
  have run: "m' = fold (\<lambda>p. framebuffer_put ?fb (fst p) (snd p) (colour p)) ps m"
  proof -
    have cl: "colour (of_nat x + of_nat c, of_nat y + of_nat r) =
        (if glyph_bit (glyph_of (font t) ch) r c then foreground t else background t)" if "c < ?w" "r < ?h" for c r
      using pos(2,3) [OF that] by (simp add: colour_def)
    have inner: "fold (\<lambda>c. framebuffer_put ?fb (of_nat x + of_nat c) (of_nat y + of_nat r)
          (if glyph_bit (glyph_of (font t) ch) r c then foreground t else background t)) cs =
        fold (\<lambda>p. framebuffer_put ?fb (fst p) (snd p) (colour p)) (map (\<lambda>c. (of_nat x + of_nat c, of_nat y + of_nat r)) cs)"
      if "r < ?h" "set cs \<subseteq> {0..<?w}" for r cs
      using that by (induction cs) (simp_all add: cl)
    have "fold (\<lambda>r. fold (\<lambda>c. framebuffer_put ?fb (of_nat x + of_nat c) (of_nat y + of_nat r)
          (if glyph_bit (glyph_of (font t) ch) r c then foreground t else background t)) [0..<?w]) rs =
        fold (\<lambda>p. framebuffer_put ?fb (fst p) (snd p) (colour p))
          (concat (map (\<lambda>r. map (\<lambda>c. (of_nat x + of_nat c, of_nat y + of_nat r)) [0..<?w]) rs))"
      if "set rs \<subseteq> {0..<?h}" for rs
      using that by (induction rs) (simp_all add: inner)
    then show ?thesis by (simp add: m'_def draw_glyph_def xy ps_def Let_def)
  qed
  have on: "\<forall>p \<in> set ps. on_screen ?fb p" using pos(1) by (auto simp: ps_def)
  note put = get_put_fold [OF fb on, of _ _ colour m, folded run]
  show "{a. m' a \<noteq> m a} \<subseteq> {a. \<exists>p. on_screen ?fb p \<and> in_pixel ?fb p a}" using put by blast
  have "pixel t m' (c * ?w + i) (r * ?h + j) = shown ?fb (cell_colour t (cells (grid_draw (foreground t) ch g) c r) j i)"
    if cr: "c < unat (columns t)" "r < unat (rows t)" and ij: "i < ?w" "j < ?h" for c r i j
  proof -
    note px = cell_pixel [OF wf cr ij]
    let ?p = "(of_nat (c * ?w + i) :: u32, of_nat (r * ?h + j) :: u32)"
    have mem: "?p \<in> set ps \<longleftrightarrow> c = cur_col g \<and> r = cur_row g"
    proof
      assume "?p \<in> set ps"
      then obtain i' j' where k: "i' < ?w" "j' < ?h" "fst ?p = of_nat x + of_nat i'" "snd ?p = of_nat y + of_nat j'"
        by (auto simp: ps_def)
      then have "c * ?w + i = cur_col g * ?w + i'" "r * ?h + j = cur_row g * ?h + j'"
        using px(3,4) pos [OF k(1,2)] by (simp_all only: x_def y_def fst_conv snd_conv)
      then show "c = cur_col g \<and> r = cur_row g" using cell_unique k ij by metis
    next
      assume "c = cur_col g \<and> r = cur_row g"
      then show "?p \<in> set ps" using ij
        by (simp add: ps_def x_def y_def image_iff) (rule conjI, rule bexI [of _ i], simp, simp, rule bexI [of _ j], simp, simp)
    qed
    have get: "pixel t m' (c * ?w + i) (r * ?h + j) =
        (if ?p \<in> set ps then shown ?fb (colour ?p) else pixel t m (c * ?w + i) (r * ?h + j))"
      using put unfolding pixel_def by blast
    show ?thesis
    proof (cases "c = cur_col g \<and> r = cur_row g")
      case True
      have "unat (snd ?p) - y = j" "unat (fst ?p) - x = i"
        unfolding fst_conv snd_conv px(3,4) using True by (simp_all add: x_def y_def)
      then have "colour ?p = cell_colour t (Some (ch, foreground t)) j i"
        unfolding colour_def by (simp only: cell_colour_def option.case prod.case)
      moreover have "cells (grid_draw (foreground t) ch g) c r = Some (ch, foreground t)"
        using True by (simp add: grid_draw_def)
      ultimately show ?thesis using True get mem by (simp only: if_True simp_thms)
    next
      case False
      then have "cells (grid_draw (foreground t) ch g) c r = cells g c r" by (auto simp: grid_draw_def)
      moreover have "pixel t m (c * ?w + i) (r * ?h + j) = shown ?fb (cell_colour t (cells g c r) j i)"
        using d cr ij unfolding displays_def by blast
      ultimately show ?thesis using False get mem by (simp only: if_False)
    qed
  qed
  moreover have "unat (column t + 1) = cur_col g + 1" using c cur(3) by (simp add: unat_Suc_fits)
  ultimately show "displays (t\<lparr>column := column t + 1\<rparr>, m') (grid_draw (foreground t) ch g)"
    using cur(4) by (simp add: displays_def grid_draw_def)
qed

subsection \<open>Writing\<close>

lemma put_displays:
  assumes wf: "term_wf t" and d: "displays (t, m) g" and p: "terminal_put ch (t, m) = (t', m')"
  shows "term_wf t' \<and> keeps (t, m) (t', m') \<and>
    displays (t', m') (grid_put (unat (columns t)) (unat (rows t)) (foreground t) ch g)"
proof -
  note n = term_nat [OF wf]
  have cc: "unat (column t) = cur_col g" using d by (simp add: displays_def)
  consider "ch = 10" | "ch = 13" | "ch = 9" | "ch \<noteq> 10" "ch \<noteq> 13" "ch \<noteq> 9" by blast
  then show "term_wf t' \<and> keeps (t, m) (t', m') \<and>
    displays (t', m') (grid_put (unat (columns t)) (unat (rows t)) (foreground t) ch g)"
  proof cases
    case 1
    then have "newline (t\<lparr>column := column t\<rparr>, m) = (t', m')" using p by (simp add: terminal_put_def)
    from newline_displays [OF wf d this refl] 1 show ?thesis by (simp add: grid_put_def)
  next
    case 2
    then have "t' = t\<lparr>column := 0\<rparr>" "m' = m" using p by (simp_all add: terminal_put_def)
    then show ?thesis using wf d 2 by (simp add: term_wf_def keeps_def displays_def grid_put_def)
  next
    case 3
    let ?c = "(column t div 8 + 1) * 8"
    have c: "unat ?c = (cur_col g div 8 + 1) * 8"
    proof -
      have "(cur_col g div 8 + 1) * 8 < 2 ^ 32" using n(6,12) cc by simp
      then show ?thesis by (simp add: unat_word_ariths unat_div cc)
    qed
    show ?thesis
    proof (cases "columns t \<le> ?c")
      case True
      then have "newline (t\<lparr>column := ?c\<rparr>, m) = (t', m')" using p 3 by (simp add: terminal_put_def Let_def)
      from newline_displays [OF wf d this refl] True c show ?thesis
        by (simp add: grid_put_def 3 Let_def word_le_nat_alt)
    next
      case False
      then have "t' = t\<lparr>column := ?c\<rparr>" "m' = m" using p 3 by (simp_all add: terminal_put_def Let_def)
      then show ?thesis using wf d False c
        by (simp add: term_wf_def keeps_def displays_def grid_put_def 3 Let_def word_le_nat_alt)
    qed
  next
    case 4
    define s1 where "s1 = (if column t \<ge> columns t then newline (t, m) else (t, m))"
    obtain t1 m1 where s1: "s1 = (t1, m1)" by (cases s1)
    define g1 where "g1 = (if cur_col g \<ge> unat (columns t) then grid_newline (unat (rows t)) g else g)"
    have one: "term_wf t1" "keeps (t, m) (t1, m1)" "displays (t1, m1) g1" "column t1 < columns t1"
    proof (atomize (full), cases "columns t \<le> column t")
      case True
      then have nl: "newline (t\<lparr>column := column t\<rparr>, m) = (t1, m1)" using s1 by (simp add: s1_def)
      note r = newline_displays [OF wf d nl refl]
      have "g1 = grid_newline (unat (rows t)) g" using True cc by (simp add: g1_def word_le_nat_alt)
      moreover have "column t1 = 0" using nl by (auto simp: newline_def scroll_def Let_def split: if_splits)
      moreover have "0 < columns t1" using r(1) by (simp add: term_wf_def)
      ultimately show "(term_wf t1 \<and> keeps (t, m) (t1, m1)) \<and> displays (t1, m1) g1 \<and> column t1 < columns t1"
        using r by simp
    next
      case False
      then have "t1 = t" "m1 = m" "g1 = g" using s1 cc by (auto simp: s1_def g1_def word_le_nat_alt)
      then show "(term_wf t1 \<and> keeps (t, m) (t1, m1)) \<and> displays (t1, m1) g1 \<and> column t1 < columns t1"
        using wf d False by simp
    qed
    let ?m = "draw_glyph t1 ch (column t1 * font_width (font t1)) (row t1 * font_height (font t1)) m1"
    have "terminal_put ch (t, m) = (t1\<lparr>column := column t1 + 1\<rparr>, ?m)"
      using 4 s1 unfolding s1_def by (simp add: terminal_put_def Let_def)
    then have t': "t' = t1\<lparr>column := column t1 + 1\<rparr>" "m' = ?m" using p by simp_all
    note dr = draw_displays [OF one(1,3,4), of ch]
    have f: "foreground t1 = foreground t" using one(2) by (simp add: keeps_def)
    have "term_wf t'" using one(1,4) by (simp add: t' term_wf_def word_le_nat_alt word_less_nat_alt unat_Suc_fits [OF one(4)])
    moreover have "keeps (t1, m1) (t', m')" using dr(2) by (simp add: t' keeps_def)
    moreover have "grid_put (unat (columns t)) (unat (rows t)) (foreground t) ch g = grid_draw (foreground t) ch g1"
      using 4 by (simp add: grid_put_def g1_def)
    moreover have "displays (t', m') (grid_draw (foreground t) ch g1)" using dr(1) f by (simp only: t')
    ultimately show ?thesis using keeps_trans [OF one(2)] by simp
  qed
qed

lemma fold_put_displays:
  assumes "term_wf t" "displays (t, m) g" "fold terminal_put tx (t, m) = (t', m')"
  shows "term_wf t' \<and> keeps (t, m) (t', m') \<and>
    displays (t', m') (fold (grid_put (unat (columns t)) (unat (rows t)) (foreground t)) tx g)"
  using assms
proof (induction tx arbitrary: t m g)
  case Nil
  then show ?case by simp
next
  case (Cons ch tx)
  obtain t1 m1 where s1: "terminal_put ch (t, m) = (t1, m1)" by (cases "terminal_put ch (t, m)")
  note p = put_displays [OF Cons.prems(1,2) s1]
  have f: "columns t1 = columns t" "rows t1 = rows t" "foreground t1 = foreground t" using p by (auto simp: keeps_def)
  have "fold terminal_put tx (t1, m1) = (t', m')" using Cons.prems(3) s1 by simp
  from Cons.IH [OF conjunct1 [OF p] conjunct2 [OF conjunct2 [OF p]] this] p show ?case
    unfolding f by (auto intro: keeps_trans)
qed


text \<open>A font of one glyph of one pixel on the demonstration screen, cleared.\<close>

definition demo_font :: terminal_font where
  "demo_font = \<lparr>glyphs = [0x80], font_width = 1, font_height = 1, first_code = 65, glyph_count = 1\<rparr>"

definition demo_terminal :: terminal where
  "demo_terminal = \<lparr>term_fb = demo_fb, font = demo_font, columns = 4, rows = 3, column = 0, row = 0,
     foreground = 7, background = 0\<rparr>"

lemma demo_terminal_init: "terminal_init demo_fb demo_font 7 0 = Some demo_terminal"
  by (simp add: terminal_init_def demo_fb_def demo_font_def demo_terminal_def framebuffer_valid_def
      framebuffer_bytes_per_pixel_def channel_valid_def)

lemma demo_terminal_wf: "term_wf demo_terminal"
  using demo_fb_ok by (simp add: term_wf_def demo_terminal_def) (simp add: demo_fb_def demo_font_def)

lemma demo_blank: "displays (demo_terminal, \<lambda>_. 0) \<lparr>cells = \<lambda>c r. None, cur_col = 0, cur_row = 0\<rparr>"
proof -
  have z: "fold (\<lambda>index colour. colour OR push_bit (index * 8) (ucast (0 :: u8))) is (0 :: u32) = 0" for "is" :: "nat list"
    by (induction "is") simp_all
  have "framebuffer_get demo_fb x y (\<lambda>_. 0) = 0" for x y
    using z by (simp add: framebuffer_get_def)
  then show ?thesis
    by (simp add: displays_def pixel_def demo_terminal_def cell_colour_def shown_def)
qed


lemma terminal_init_wf:
  assumes "fb_ok fb" "terminal_init fb fnt fg bg = Some t"
  shows "term_wf t"
proof -
  have w: "font_width fnt \<noteq> 0" "font_width fnt \<le> 8" "font_height fnt \<noteq> 0" "font_width fnt \<le> width fb"
    "font_height fnt \<le> height fb"
    and t: "t = \<lparr>term_fb = fb, font = fnt, columns = width fb div font_width fnt,
      rows = height fb div font_height fnt, column = 0, row = 0, foreground = fg, background = bg\<rparr>"
    using assms(2) by (auto simp: terminal_init_def not_less split: if_splits)
  have "0 < width fb div font_width fnt" "0 < height fb div font_height fnt"
    using w by (auto simp: word_less_nat_alt word_le_nat_alt unat_div unat_gt_0 div_greater_zero_iff)
  with assms(1) w show ?thesis by (simp add: t term_wf_def)
qed

lemma terminal_clear_displays:
  assumes "term_wf t" "terminal_clear (t, m) = (t', m')"
  shows "term_wf t' \<and> displays (t', m') \<lparr>cells = \<lambda>c r. None, cur_col = 0, cur_row = 0\<rparr>"
proof -
  let ?fb = "term_fb t"
  have fb: "fb_ok ?fb" using assms(1) by (simp add: term_wf_def)
  have t': "t' = t\<lparr>column := 0, row := 0\<rparr>" and m': "m' = framebuffer_fill ?fb 0 0 (width ?fb) (height ?fb) (background t) m"
    using assms(2) by (simp_all add: terminal_clear_def)
  have "framebuffer_get ?fb x y m' = shown ?fb (background t)" if "on_screen ?fb (x, y)" for x y
    using that unfolding m' by (simp add: fill_get [OF fb]) (simp add: in_rect_def on_screen_def word_less_nat_alt)
  then have "pixel t m' (c * unat (font_width (font t)) + i) (r * unat (font_height (font t)) + j) =
      shown ?fb (cell_colour t None j i)"
    if "c < unat (columns t)" "r < unat (rows t)" "i < unat (font_width (font t))" "j < unat (font_height (font t))" for c r i j
    using cell_pixel(5) [OF assms(1) that] by (simp only: pixel_def cell_colour_def option.case)
  with assms(1) show ?thesis by (simp add: t' displays_def) (simp add: term_wf_def)
qed

end
