(* ===== verification/Protocol.thy ===== *)
theory Protocol
  imports Arena Memory_Map Acpi Framebuffer
begin

text \<open>
  \<open>src/protocol/protocol.c\<close>: answering the requests the kernel has in its image. Requests and responses are
  structures in memory, written field by field at the offsets the C compiler gives them; the string
  constants of the loader are addresses, given by \<open>loader_strings\<close>. The result \<open>-1\<close> is \<open>None\<close>, the
  outer \<open>None\<close> is a scan that does not end.
\<close>

abbreviation (input) BOOT_REQUEST_MAGIC_LOW :: u64 where "BOOT_REQUEST_MAGIC_LOW \<equiv> 0x5449554e49582d31"
abbreviation (input) BOOT_REQUEST_MAGIC_HIGH :: u64 where "BOOT_REQUEST_MAGIC_HIGH \<equiv> 0x424f4f54503a3031"
abbreviation (input) BOOT_PROTOCOL_REVISION :: u64 where "BOOT_PROTOCOL_REVISION \<equiv> 0"
abbreviation (input) BOOT_REQUEST_MEMORY_MAP :: u64 where "BOOT_REQUEST_MEMORY_MAP \<equiv> 1"
abbreviation (input) BOOT_REQUEST_KERNEL_ADDRESS :: u64 where "BOOT_REQUEST_KERNEL_ADDRESS \<equiv> 2"
abbreviation (input) BOOT_REQUEST_COMMAND_LINE :: u64 where "BOOT_REQUEST_COMMAND_LINE \<equiv> 3"
abbreviation (input) BOOT_REQUEST_LOADER_INFO :: u64 where "BOOT_REQUEST_LOADER_INFO \<equiv> 4"
abbreviation (input) BOOT_REQUEST_FRAMEBUFFER :: u64 where "BOOT_REQUEST_FRAMEBUFFER \<equiv> 5"
abbreviation (input) BOOT_REQUEST_ACPI :: u64 where "BOOT_REQUEST_ACPI \<equiv> 6"
abbreviation (input) BOOT_REQUEST_PROCESSORS :: u64 where "BOOT_REQUEST_PROCESSORS \<equiv> 7"
abbreviation (input) BOOT_REQUEST_MODULES :: u64 where "BOOT_REQUEST_MODULES \<equiv> 8"
abbreviation (input) BOOT_REQUEST_ALIGNMENT :: u64 where "BOOT_REQUEST_ALIGNMENT \<equiv> 8"
abbreviation (input) BOOT_MAX_REQUESTS :: nat where "BOOT_MAX_REQUESTS \<equiv> 64"
abbreviation (input) BOOT_MEMORY_USABLE :: u64 where "BOOT_MEMORY_USABLE \<equiv> 0"
abbreviation (input) BOOT_MEMORY_RECLAIMABLE :: u64 where "BOOT_MEMORY_RECLAIMABLE \<equiv> 1"
abbreviation (input) BOOT_MEMORY_ACPI_RECLAIMABLE :: u64 where "BOOT_MEMORY_ACPI_RECLAIMABLE \<equiv> 2"
abbreviation (input) BOOT_MEMORY_ACPI_NVS :: u64 where "BOOT_MEMORY_ACPI_NVS \<equiv> 3"
abbreviation (input) BOOT_MEMORY_FRAMEBUFFER :: u64 where "BOOT_MEMORY_FRAMEBUFFER \<equiv> 4"
abbreviation (input) BOOT_MEMORY_KERNEL :: u64 where "BOOT_MEMORY_KERNEL \<equiv> 5"
abbreviation (input) BOOT_MEMORY_RESERVED :: u64 where "BOOT_MEMORY_RESERVED \<equiv> 6"
abbreviation (input) BOOT_MEMORY_BAD :: u64 where "BOOT_MEMORY_BAD \<equiv> 7"

text \<open>\<open>struct boot_request\<close>: two words of magic, the id, the revision and the response pointer.\<close>

abbreviation (input) REQUEST_BYTES :: u64 where "REQUEST_BYTES \<equiv> 40"
abbreviation (input) request_magic_low :: "mem \<Rightarrow> u64 \<Rightarrow> u64" where "request_magic_low m r \<equiv> load64 m r"
abbreviation (input) request_magic_high :: "mem \<Rightarrow> u64 \<Rightarrow> u64" where "request_magic_high m r \<equiv> load64 m (r + 8)"
abbreviation (input) request_id :: "mem \<Rightarrow> u64 \<Rightarrow> u64" where "request_id m r \<equiv> load64 m (r + 16)"
abbreviation (input) request_revision :: "mem \<Rightarrow> u64 \<Rightarrow> u64" where "request_revision m r \<equiv> load64 m (r + 24)"
abbreviation (input) request_response :: "mem \<Rightarrow> u64 \<Rightarrow> u64" where "request_response m r \<equiv> load64 m (r + 32)"

record boot_module =
  module_base :: u64
  module_bytes :: u64
  module_path :: u64

record boot_facts =
  facts_memory :: "memory_map option"
  kernel_physical_base :: u64
  kernel_virtual_base :: u64
  facts_command_line :: u64
  facts_screen :: "framebuffer option"
  facts_rsdp :: u64
  facts_processors :: "acpi_processor_table option"
  facts_modules :: "boot_module list"

record loader_strings =
  EMPTY_COMMAND_LINE :: u64
  LOADER_NAME :: u64
  LOADER_VERSION :: u64

definition protocol_memory_kind :: "memory_kind \<Rightarrow> u64" where
  "protocol_memory_kind kind =
     (case kind of
        MEMORY_KIND_USABLE \<Rightarrow> BOOT_MEMORY_USABLE
      | MEMORY_KIND_BOOTLOADER_RECLAIMABLE \<Rightarrow> BOOT_MEMORY_RECLAIMABLE
      | MEMORY_KIND_ACPI_RECLAIMABLE \<Rightarrow> BOOT_MEMORY_ACPI_RECLAIMABLE
      | MEMORY_KIND_ACPI_NVS \<Rightarrow> BOOT_MEMORY_ACPI_NVS
      | MEMORY_KIND_FRAMEBUFFER \<Rightarrow> BOOT_MEMORY_FRAMEBUFFER
      | MEMORY_KIND_KERNEL \<Rightarrow> BOOT_MEMORY_KERNEL
      | MEMORY_KIND_RESERVED \<Rightarrow> BOOT_MEMORY_RESERVED
      | MEMORY_KIND_BAD \<Rightarrow> BOOT_MEMORY_BAD)"

definition agreed_revision :: "u64 \<Rightarrow> u64" where
  "agreed_revision requested = (if requested > BOOT_PROTOCOL_REVISION then BOOT_PROTOCOL_REVISION else requested)"

text \<open>Assignments to fields of a structure: an offset, and the bytes of the value stored there.\<close>

definition u64_field :: "u64 \<Rightarrow> u8 list" where "u64_field v = le_bytes 8 v"
definition u32_field :: "u32 \<Rightarrow> u8 list" where "u32_field v = le_bytes 4 (ucast v)"

definition set_fields :: "u64 \<Rightarrow> (nat \<times> u8 list) list \<Rightarrow> mem \<Rightarrow> mem" where
  "set_fields p fs m = fold (\<lambda>(off, bs) m. store_bytes m (p + of_nat off) bs) fs m"

text \<open>The fields of the structures of \<open>protocol.h\<close>, at their offsets.\<close>

definition boot_memory_entry :: "memory_region \<Rightarrow> (nat \<times> u8 list) list" where
  "boot_memory_entry region =
     [(0, u64_field (region_base region)), (8, u64_field (region_length region)),
      (16, u64_field (protocol_memory_kind (region_kind region)))]"

definition boot_processor :: "acpi_processor \<Rightarrow> (nat \<times> u8 list) list" where
  "boot_processor p = [(0, u32_field (apic_id p)), (4, u32_field (if enabled p then 1 else 0))]"

definition boot_module_fields :: "boot_module \<Rightarrow> (nat \<times> u8 list) list" where
  "boot_module_fields b =
     [(0, u64_field (module_base b)), (8, u64_field (module_bytes b)), (16, u64_field (module_path b))]"

definition framebuffer_fields :: "framebuffer \<Rightarrow> (nat \<times> u8 list) list" where
  "framebuffer_fields s =
     [(8, u64_field (fb_base s)), (16, u32_field (width s)), (20, u32_field (height s)), (24, u32_field (pitch s)),
      (28, u32_field (bits_per_pixel s)), (32, [shift (red s)]), (33, [bits (red s)]), (34, [shift (green s)]),
      (35, [bits (green s)]), (36, [shift (blue s)]), (37, [bits (blue s)])]"

text \<open>The loop that fills an array of \<open>n\<close>-byte structures.\<close>

definition fill_array :: "u64 \<Rightarrow> nat \<Rightarrow> ('a \<Rightarrow> (nat \<times> u8 list) list) \<Rightarrow> 'a list \<Rightarrow> mem \<Rightarrow> mem" where
  "fill_array e n f xs m = fold (\<lambda>index. set_fields (e + of_nat (n * index)) (f (xs ! index))) [0..<length xs] m"

text \<open>The last two assignments of every answer: the revision and the pointer in the request.\<close>

definition set_revision :: "u64 \<Rightarrow> u64 \<Rightarrow> mem \<Rightarrow> mem" where
  "set_revision response r m = set_fields response [(0, u64_field (agreed_revision (request_revision m r)))] m"

definition set_response :: "u64 \<Rightarrow> u64 \<Rightarrow> mem \<Rightarrow> mem" where
  "set_response r response m = store64 m (r + 32) response"

definition answer_memory_map :: "u64 \<Rightarrow> boot_facts \<Rightarrow> arena \<times> mem \<Rightarrow> (arena \<times> mem) option" where
  "answer_memory_map r facts = (\<lambda>(a, m).
     do { (response, a, m) \<leftarrow> arena_allocate_zeroed a 24 m;
          let rs = (case facts_memory facts of None \<Rightarrow> [] | Some mm \<Rightarrow> regions mm);
          (a, m) \<leftarrow>
            (if length rs > 0 then
               do { (entries, a) \<leftarrow> arena_allocate_array a (of_nat (length rs)) 24;
                    let m = set_fields response [(16, u64_field entries)] m;
                    Some (a, fill_array entries 24 boot_memory_entry rs m) }
             else Some (a, m));
          let m = set_revision response r m;
          let m = set_fields response [(8, u64_field (of_nat (length rs)))] m;
          Some (a, set_response r response m) })"

definition answer_kernel_address :: "u64 \<Rightarrow> boot_facts \<Rightarrow> arena \<times> mem \<Rightarrow> (arena \<times> mem) option" where
  "answer_kernel_address r facts = (\<lambda>(a, m).
     do { (response, a, m) \<leftarrow> arena_allocate_zeroed a 24 m;
          let m = set_revision response r m;
          let m = set_fields response [(8, u64_field (kernel_physical_base facts)), (16, u64_field (kernel_virtual_base facts))] m;
          Some (a, set_response r response m) })"

definition answer_command_line :: "loader_strings \<Rightarrow> u64 \<Rightarrow> boot_facts \<Rightarrow> arena \<times> mem \<Rightarrow> (arena \<times> mem) option" where
  "answer_command_line strings r facts = (\<lambda>(a, m).
     do { (response, a, m) \<leftarrow> arena_allocate_zeroed a 16 m;
          let m = set_revision response r m;
          let m = set_fields response
            [(8, u64_field (if facts_command_line facts \<noteq> 0 then facts_command_line facts else EMPTY_COMMAND_LINE strings))] m;
          Some (a, set_response r response m) })"

definition answer_framebuffer :: "u64 \<Rightarrow> boot_facts \<Rightarrow> arena \<times> mem \<Rightarrow> (arena \<times> mem) option" where
  "answer_framebuffer r facts = (\<lambda>(a, m).
     case facts_screen facts of
       None \<Rightarrow> Some (a, m)
     | Some screen \<Rightarrow>
         do { (response, a, m) \<leftarrow> arena_allocate_zeroed a 40 m;
              let m = set_revision response r m;
              let m = set_fields response (framebuffer_fields screen) m;
              Some (a, set_response r response m) })"

definition answer_acpi :: "u64 \<Rightarrow> boot_facts \<Rightarrow> arena \<times> mem \<Rightarrow> (arena \<times> mem) option" where
  "answer_acpi r facts = (\<lambda>(a, m).
     if facts_rsdp facts = 0 then Some (a, m)
     else
       do { (response, a, m) \<leftarrow> arena_allocate_zeroed a 16 m;
            let m = set_revision response r m;
            let m = set_fields response [(8, u64_field (facts_rsdp facts))] m;
            Some (a, set_response r response m) })"

definition answer_processors :: "u64 \<Rightarrow> boot_facts \<Rightarrow> arena \<times> mem \<Rightarrow> (arena \<times> mem) option" where
  "answer_processors r facts = (\<lambda>(a, m).
     case facts_processors facts of
       None \<Rightarrow> Some (a, m)
     | Some ps \<Rightarrow>
         if length (processors ps) = 0 then Some (a, m)
         else
           do { (response, a, m) \<leftarrow> arena_allocate_zeroed a 32 m;
                (entries, a) \<leftarrow> arena_allocate_array a (of_nat (length (processors ps))) 8;
                let m = set_fields response [(24, u64_field entries)] m;
                let m = fill_array entries 8 boot_processor (processors ps) m;
                let m = set_revision response r m;
                let m = set_fields response
                  [(8, u64_field (of_nat (length (processors ps)))), (16, u64_field (local_apic_address ps))] m;
                Some (a, set_response r response m) })"

definition answer_modules :: "u64 \<Rightarrow> boot_facts \<Rightarrow> arena \<times> mem \<Rightarrow> (arena \<times> mem) option" where
  "answer_modules r facts = (\<lambda>(a, m).
     if length (facts_modules facts) = 0 then Some (a, m)
     else
       do { (response, a, m) \<leftarrow> arena_allocate_zeroed a 24 m;
            (entries, a) \<leftarrow> arena_allocate_array a (of_nat (length (facts_modules facts))) 24;
            let m = set_fields response [(16, u64_field entries)] m;
            let m = fill_array entries 24 boot_module_fields (facts_modules facts) m;
            let m = set_revision response r m;
            let m = set_fields response [(8, u64_field (of_nat (length (facts_modules facts))))] m;
            Some (a, set_response r response m) })"

definition answer_loader_info :: "loader_strings \<Rightarrow> u64 \<Rightarrow> arena \<times> mem \<Rightarrow> (arena \<times> mem) option" where
  "answer_loader_info strings r = (\<lambda>(a, m).
     do { (response, a, m) \<leftarrow> arena_allocate_zeroed a 24 m;
          let m = set_revision response r m;
          let m = set_fields response [(8, u64_field (LOADER_NAME strings)), (16, u64_field (LOADER_VERSION strings))] m;
          Some (a, set_response r response m) })"

definition answer :: "loader_strings \<Rightarrow> u64 \<Rightarrow> boot_facts \<Rightarrow> arena \<times> mem \<Rightarrow> (arena \<times> mem) option" where
  "answer strings r facts s =
     (let i = request_id (snd s) r
      in if i = BOOT_REQUEST_MEMORY_MAP then answer_memory_map r facts s
         else if i = BOOT_REQUEST_KERNEL_ADDRESS then answer_kernel_address r facts s
         else if i = BOOT_REQUEST_COMMAND_LINE then answer_command_line strings r facts s
         else if i = BOOT_REQUEST_LOADER_INFO then answer_loader_info strings r s
         else if i = BOOT_REQUEST_FRAMEBUFFER then answer_framebuffer r facts s
         else if i = BOOT_REQUEST_ACPI then answer_acpi r facts s
         else if i = BOOT_REQUEST_PROCESSORS then answer_processors r facts s
         else if i = BOOT_REQUEST_MODULES then answer_modules r facts s
         else Some s)"

partial_function (option) scan_requests ::
  "loader_strings \<Rightarrow> u64 \<Rightarrow> boot_facts \<Rightarrow> u64 \<Rightarrow> u64 \<Rightarrow> nat \<Rightarrow> arena \<times> mem \<Rightarrow> (nat \<times> arena \<times> mem) option option"
  where
  "scan_requests strings start facts final offset answered s =
     (if offset \<le> final then
        let r = start + offset
        in if request_magic_low (snd s) r \<noteq> BOOT_REQUEST_MAGIC_LOW then
             scan_requests strings start facts final (offset + BOOT_REQUEST_ALIGNMENT) answered s
           else if request_magic_high (snd s) r \<noteq> BOOT_REQUEST_MAGIC_HIGH then
             scan_requests strings start facts final (offset + BOOT_REQUEST_ALIGNMENT) answered s
           else if answered = BOOT_MAX_REQUESTS then Some None
           else
             case answer strings r facts s of
               None \<Rightarrow> Some None
             | Some s \<Rightarrow>
                 scan_requests strings start facts final
                   (offset + (REQUEST_BYTES - BOOT_REQUEST_ALIGNMENT) + BOOT_REQUEST_ALIGNMENT) (answered + 1) s
      else Some (Some (answered, s)))"

definition protocol_answer ::
  "loader_strings \<Rightarrow> u64 \<Rightarrow> u64 \<Rightarrow> boot_facts \<Rightarrow> arena \<times> mem \<Rightarrow> (nat \<times> arena \<times> mem) option option"
  where
  "protocol_answer strings start bytes facts s =
     (if start = 0 then Some None
      else if bytes < REQUEST_BYTES then Some (Some (0, s))
      else scan_requests strings start facts (bytes - REQUEST_BYTES) 0 0 s)"

subsection \<open>Structures in memory\<close>

lemma store_bytes_Nil [simp]: "store_bytes m a [] = m"
  by (simp add: store_bytes_def)

text \<open>Overwriting a part of a buffer.\<close>

definition patch :: "nat \<Rightarrow> u8 list \<Rightarrow> u8 list \<Rightarrow> u8 list" where
  "patch off bs buf = take off buf @ bs @ drop (off + length bs) buf"

lemma store_bytes_patch:
  assumes "off + length bs \<le> length buf" "length buf < 2 ^ 64"
  shows "store_bytes (store_bytes m p buf) (p + of_nat off) bs = store_bytes m p (patch off bs buf)"
proof
  fix x
  have len: "length (patch off bs buf) = length buf" using assms(1) by (simp add: patch_def)
  have sub: "in_range p (length buf) x" if "in_range (p + of_nat off) (length bs) x"
  proof -
    have "in_range p (off + length bs) x" using that assms by (subst in_range_split) auto
    then show ?thesis using assms(1) by (simp add: in_range_def)
  qed
  have d: "x - (p + of_nat off) = (x - p) - of_nat off" by simp
  have uo: "unat (of_nat off :: u64) = off" using assms by (intro unat_of_nat64) linarith
  show "store_bytes (store_bytes m p buf) (p + of_nat off) bs x = store_bytes m p (patch off bs buf) x"
  proof (cases "in_range (p + of_nat off) (length bs) x")
    case True
    have "off \<le> unat (x - p)"
    proof (rule ccontr)
      assume "\<not> off \<le> unat (x - p)"
      then have "unat (x - p - of_nat off) = unat (x - p) + 2 ^ 64 - off" using uo by (simp add: unat_sub_if')
      with True assms \<open>\<not> off \<le> unat (x - p)\<close> show False unfolding in_range_def d by linarith
    qed
    then have k: "unat (x - (p + of_nat off)) = unat (x - p) - off" unfolding d using uo by (simp add: unat_sub_if')
    with True have "unat (x - p) - off < length bs" by (simp add: in_range_def)
    then show ?thesis using True sub [OF True] k \<open>off \<le> unat (x - p)\<close> assms(1)
      by (simp add: store_bytes_def len) (simp add: patch_def nth_append min_def)
  next
    case False
    have "patch off bs buf ! unat (x - p) = buf ! unat (x - p)" if r: "in_range p (length buf) x"
    proof -
      have "\<not> (off \<le> unat (x - p) \<and> unat (x - p) < off + length bs)"
      proof
        assume o: "off \<le> unat (x - p) \<and> unat (x - p) < off + length bs"
        then have "unat (x - (p + of_nat off)) = unat (x - p) - off" unfolding d using uo by (simp add: unat_sub_if')
        with o False show False unfolding in_range_def by linarith
      qed
      moreover have "unat (x - p) < length buf" using r by (simp add: in_range_def)
      ultimately show ?thesis using assms(1) by (auto simp: patch_def nth_append min_def)
    qed
    then show ?thesis using False by (simp add: store_bytes_def len)
  qed
qed

lemma store_bytes_append:
  assumes "length xs + length ys < 2 ^ 64"
  shows "store_bytes (store_bytes m a xs) (a + of_nat (length xs)) ys = store_bytes m a (xs @ ys)"
proof -
  have "store_bytes (store_bytes m a xs) (a + of_nat (length xs)) ys =
      store_bytes (store_bytes (store_bytes m a (xs @ replicate (length ys) 0)) a xs) (a + of_nat (length xs)) ys"
  proof
    fix x
    have "in_range a (length xs + length ys) x \<longleftrightarrow> in_range a (length xs) x \<or> in_range (a + of_nat (length xs)) (length ys) x"
      using assms by (intro in_range_split) simp
    then show "store_bytes (store_bytes m a xs) (a + of_nat (length xs)) ys x =
      store_bytes (store_bytes (store_bytes m a (xs @ replicate (length ys) 0)) a xs) (a + of_nat (length xs)) ys x"
      by (auto simp: store_bytes_def)
  qed
  also have "store_bytes (store_bytes m a (xs @ replicate (length ys) 0)) a xs = store_bytes m a (xs @ replicate (length ys) 0)"
    using store_bytes_patch [of 0 xs "xs @ replicate (length ys) 0" m a] assms by (simp add: patch_def)
  also have "store_bytes \<dots> (a + of_nat (length xs)) ys = store_bytes m a (xs @ ys)"
    using store_bytes_patch [of "length xs" ys "xs @ replicate (length ys) 0" m a] assms by (simp add: patch_def)
  finally show ?thesis .
qed

lemma store_bytes_commute:
  assumes "\<And>x. \<not> (in_range a (length xs) x \<and> in_range b (length ys) x)"
  shows "store_bytes (store_bytes m a xs) b ys = store_bytes (store_bytes m b ys) a xs"
  using assms by (force simp: store_bytes_def fun_eq_iff)

lemma memset_store_bytes: "memset p 0 n m = store_bytes m p (replicate (unat n) 0)"
  by (auto simp: fun_eq_iff memset_eq store_bytes_def in_range_def)

lemma set_fields_store:
  assumes "\<forall>(off, bs) \<in> set fs. off + length bs \<le> length buf" "length buf < 2 ^ 64"
  shows "set_fields p fs (store_bytes m p buf) = store_bytes m p (fold (\<lambda>(off, bs). patch off bs) fs buf)"
  using assms
proof (induction fs arbitrary: buf)
  case (Cons f fs)
  obtain off bs where f: "f = (off, bs)" by (cases f)
  have le: "off + length bs \<le> length buf" using Cons.prems(1) by (simp add: f)
  have len: "length (patch off bs buf) = length buf" using le by (simp add: patch_def)
  show ?case using Cons.IH [of "patch off bs buf"] Cons.prems le
    by (simp add: set_fields_def f store_bytes_patch len)
qed (simp add: set_fields_def)

text \<open>A structure whose fields follow each other without a gap.\<close>

fun adjacent :: "nat \<Rightarrow> (nat \<times> u8 list) list \<Rightarrow> bool" where
  "adjacent k [] = True"
| "adjacent k ((off, bs) # fs) = (off = k \<and> adjacent (k + length bs) fs)"

definition field_bytes :: "(nat \<times> u8 list) list \<Rightarrow> u8 list" where
  "field_bytes fs = concat (map snd fs)"

lemma set_fields_adjacent:
  assumes "adjacent (length xs) fs" "length xs + length (field_bytes fs) < 2 ^ 64"
  shows "set_fields p fs (store_bytes m p xs) = store_bytes m p (xs @ field_bytes fs)"
  using assms
proof (induction fs arbitrary: xs)
  case (Cons f fs)
  obtain off bs where f: "f = (off, bs)" by (cases f)
  have l: "length xs + length bs < 2 ^ 64" using Cons.prems(2) by (simp add: field_bytes_def f)
  have "set_fields p (f # fs) (store_bytes m p xs) = set_fields p fs (store_bytes m p (xs @ bs))"
    using Cons.prems(1) store_bytes_append [OF l] by (simp add: set_fields_def f)
  also have "\<dots> = store_bytes m p ((xs @ bs) @ field_bytes fs)"
    using Cons.prems by (intro Cons.IH) (simp_all add: f field_bytes_def)
  finally show ?case by (simp add: f field_bytes_def)
qed (simp add: set_fields_def field_bytes_def)

lemma fill_array_store:
  assumes "\<And>x. x \<in> set xs \<Longrightarrow> adjacent 0 (f x) \<and> length (field_bytes (f x)) = n" "n * length xs < 2 ^ 64"
  shows "fill_array e n f xs m = store_bytes m e (concat (map (field_bytes \<circ> f) xs))"
proof -
  have len: "length (concat (map (field_bytes \<circ> f) ys)) = n * length ys" if "set ys \<subseteq> set xs" for ys
    using that assms(1) by (induction ys) auto
  have "fold (\<lambda>index. set_fields (e + of_nat (n * index)) (f (xs ! index))) [0..<k] m =
      store_bytes m e (concat (map (field_bytes \<circ> f) (take k xs)))" if "k \<le> length xs" for k
    using that
  proof (induction k)
    case (Suc k)
    let ?xs = "concat (map (field_bytes \<circ> f) (take k xs))"
    have k: "k < length xs" using Suc.prems by simp
    then have x: "adjacent 0 (f (xs ! k))" "length (field_bytes (f (xs ! k))) = n" using assms(1) by simp_all
    have lx: "length ?xs = n * k" using len [of "take k xs"] k set_take_subset [of k xs] by (simp add: min_def)
    have "n * Suc k \<le> n * length xs" using Suc.prems by (rule mult_le_mono2)
    then have fits: "length ?xs + length (field_bytes (f (xs ! k))) < 2 ^ 64" using assms(2) lx x(2) by simp
    have "set_fields (e + of_nat (n * k)) (f (xs ! k)) (store_bytes m e ?xs) =
        store_bytes (store_bytes m e ?xs) (e + of_nat (length ?xs)) (field_bytes (f (xs ! k)))"
      using set_fields_adjacent [of "[]" "f (xs ! k)" "e + of_nat (n * k)" "store_bytes m e ?xs"] x fits by (simp add: lx)
    also have "\<dots> = store_bytes m e (?xs @ field_bytes (f (xs ! k)))" by (rule store_bytes_append [OF fits])
    finally show ?case using Suc k by (simp add: take_Suc_conv_app_nth o_def)
  qed simp
  from this [of "length xs"] show ?thesis by (simp add: fill_array_def)
qed

lemma length_u64_field [simp]: "length (u64_field v) = 8" by (simp add: u64_field_def)
lemma length_u32_field [simp]: "length (u32_field v) = 4" by (simp add: u32_field_def)

lemma u64_field_0: "u64_field 0 = replicate 8 0"
  by (simp add: u64_field_def le_bytes_def map_replicate_const)

lemma agreed_revision_0 [simp]: "agreed_revision v = 0"
  by (simp add: agreed_revision_def word_gt_0)

subsection \<open>What an answer is\<close>

text \<open>The end of what the arena has handed out, and the end of the arena.\<close>

definition arena_taken :: "arena \<Rightarrow> nat" where "arena_taken a = unat (base a) + unat (used a)"
definition arena_end :: "arena \<Rightarrow> nat" where "arena_end a = unat (base a) + unat (capacity a)"

lemma arena_allocate_Some:
  assumes "arena_wf a" "arena_allocate a n = Some (p, a')"
  shows "arena_wf a' \<and> arena_taken a \<le> unat p \<and> unat p + unat n = arena_taken a' \<and> arena_taken a' \<le> arena_end a \<and> arena_end a' = arena_end a \<and>
    n \<noteq> 0 \<and> arena_end a \<le> 2 ^ 64"
proof -
  note al = arena_allocate_aligned_Some [OF assms(1) assms(2) [unfolded arena_allocate_def]]
  have "unat p \<in> span p n" using al(4) by (simp add: span_def unat_gt_0)
  then have "arena_taken a \<le> unat p" using al(5) by (auto simp: arena_free_def arena_taken_def)
  then show ?thesis using al assms(1) by (simp add: arena_taken_def arena_end_def arena_wf_def word_le_nat_alt)
qed

lemma arena_allocate_array_Some:
  assumes "arena_allocate_array a (of_nat k) (of_nat n) = Some (p, a')" "k * n < 2 ^ 64" "0 < n"
  shows "arena_allocate a (of_nat (k * n)) = Some (p, a')"
proof -
  have "k \<le> k * n" using assms(3) by (cases n) simp_all
  have "k = 0 \<or> n \<le> k * n" by (cases k) simp_all
  show ?thesis
  proof (cases "k = 0")
    case False
    then have "k < 2 ^ 64" "n < 2 ^ 64"
      using assms(2) \<open>k \<le> k * n\<close> \<open>k = 0 \<or> n \<le> k * n\<close> by linarith+
    then have "unat (of_nat k :: u64) = k" "unat (of_nat n :: u64) = n" by (auto intro!: unat_of_nat64)
    then show ?thesis using assms(1,2)
      by (auto simp: arena_allocate_array_def checked_mul_size_def opt_bind split: if_splits)
  qed (use assms(1) in \<open>auto simp: arena_allocate_array_def checked_mul_size_def opt_bind split: if_splits\<close>)
qed

text \<open>
  The layout of the responses, as the header of the protocol lays them out for a kernel: little-endian numbers one after
  the other, a kind of memory by its number.
\<close>

abbreviation told64 :: "u64 \<Rightarrow> u8 list" where "told64 v \<equiv> le_bytes 8 v"
abbreviation told32 :: "u32 \<Rightarrow> u8 list" where "told32 v \<equiv> le_bytes 4 (ucast v)"

fun told_kind :: "memory_kind \<Rightarrow> u64" where
  "told_kind MEMORY_KIND_USABLE = 0"
| "told_kind MEMORY_KIND_BOOTLOADER_RECLAIMABLE = 1"
| "told_kind MEMORY_KIND_ACPI_RECLAIMABLE = 2"
| "told_kind MEMORY_KIND_ACPI_NVS = 3"
| "told_kind MEMORY_KIND_FRAMEBUFFER = 4"
| "told_kind MEMORY_KIND_KERNEL = 5"
| "told_kind MEMORY_KIND_RESERVED = 6"
| "told_kind MEMORY_KIND_BAD = 7"

definition told_region :: "memory_region \<Rightarrow> u8 list" where
  "told_region x = told64 (region_base x) @ told64 (region_length x) @ told64 (told_kind (region_kind x))"

definition told_processor :: "acpi_processor \<Rightarrow> u8 list" where
  "told_processor p = told32 (apic_id p) @ told32 (if enabled p then 1 else 0)"

definition told_module :: "boot_module \<Rightarrow> u8 list" where
  "told_module b = told64 (module_base b) @ told64 (module_bytes b) @ told64 (module_path b)"

text \<open>
  The response to a request, from the facts: the bytes of its structure, given the address of its array,
  and the bytes of the array. \<open>None\<close> is no response.
\<close>

definition reply :: "loader_strings \<Rightarrow> boot_facts \<Rightarrow> u64 \<Rightarrow> ((u64 \<Rightarrow> u8 list) \<times> u8 list) option" where
  "reply strings facts i =
     (if i = 1 then
        let rs = (case facts_memory facts of None \<Rightarrow> [] | Some mm \<Rightarrow> regions mm)
        in Some (\<lambda>e. told64 0 @ told64 (of_nat (length rs)) @ told64 e,
                 concat (map told_region rs))
      else if i = 2 then
        Some (\<lambda>e. told64 0 @ told64 (kernel_physical_base facts) @ told64 (kernel_virtual_base facts), [])
      else if i = 3 then
        Some (\<lambda>e. told64 0 @
          told64 (if facts_command_line facts \<noteq> 0 then facts_command_line facts else EMPTY_COMMAND_LINE strings), [])
      else if i = 4 then
        Some (\<lambda>e. told64 0 @ told64 (LOADER_NAME strings) @ told64 (LOADER_VERSION strings), [])
      else if i = 5 then
        map_option (\<lambda>s. (\<lambda>e. told64 0 @ told64 (fb_base s) @
          told32 (width s) @ told32 (height s) @ told32 (pitch s) @ told32 (bits_per_pixel s) @
          [shift (red s), bits (red s), shift (green s), bits (green s), shift (blue s), bits (blue s), 0, 0], []))
          (facts_screen facts)
      else if i = 6 then
        (if facts_rsdp facts = 0 then None else Some (\<lambda>e. told64 0 @ told64 (facts_rsdp facts), []))
      else if i = 7 then
        (case facts_processors facts of None \<Rightarrow> None
         | Some ps \<Rightarrow> if processors ps = [] then None
             else Some (\<lambda>e. told64 0 @ told64 (of_nat (length (processors ps))) @
                    told64 (local_apic_address ps) @ told64 e,
                  concat (map told_processor (processors ps))))
      else if i = 8 then
        (if facts_modules facts = [] then None
         else Some (\<lambda>e. told64 0 @ told64 (of_nat (length (facts_modules facts))) @ told64 e,
                concat (map told_module (facts_modules facts))))
      else None)"

text \<open>The same in the fields the code assigns.\<close>

lemma told_fields:
  "told_region = field_bytes \<circ> boot_memory_entry" "told_processor = field_bytes \<circ> boot_processor"
  "told_module = field_bytes \<circ> boot_module_fields"
proof -
  have "told_kind = protocol_memory_kind"
    by (rule ext, rename_tac k, case_tac k) (simp_all add: protocol_memory_kind_def)
  then show "told_region = field_bytes \<circ> boot_memory_entry"
    by (simp add: fun_eq_iff told_region_def field_bytes_def boot_memory_entry_def u64_field_def)
qed (simp_all add: fun_eq_iff told_processor_def told_module_def field_bytes_def boot_processor_def boot_module_fields_def
    u64_field_def u32_field_def)

lemma reply_fields:
  "reply strings facts i =
     (if i = 1 then
        let rs = (case facts_memory facts of None \<Rightarrow> [] | Some mm \<Rightarrow> regions mm)
        in Some (\<lambda>e. u64_field 0 @ u64_field (of_nat (length rs)) @ u64_field e,
                 concat (map (field_bytes \<circ> boot_memory_entry) rs))
      else if i = 2 then
        Some (\<lambda>e. u64_field 0 @ u64_field (kernel_physical_base facts) @ u64_field (kernel_virtual_base facts), [])
      else if i = 3 then
        Some (\<lambda>e. u64_field 0 @
          u64_field (if facts_command_line facts \<noteq> 0 then facts_command_line facts else EMPTY_COMMAND_LINE strings), [])
      else if i = 4 then
        Some (\<lambda>e. u64_field 0 @ u64_field (LOADER_NAME strings) @ u64_field (LOADER_VERSION strings), [])
      else if i = 5 then
        map_option (\<lambda>s. (\<lambda>e. u64_field 0 @ u64_field (fb_base s) @
          u32_field (width s) @ u32_field (height s) @ u32_field (pitch s) @ u32_field (bits_per_pixel s) @
          [shift (red s), bits (red s), shift (green s), bits (green s), shift (blue s), bits (blue s), 0, 0], []))
          (facts_screen facts)
      else if i = 6 then
        (if facts_rsdp facts = 0 then None else Some (\<lambda>e. u64_field 0 @ u64_field (facts_rsdp facts), []))
      else if i = 7 then
        (case facts_processors facts of None \<Rightarrow> None
         | Some ps \<Rightarrow> if processors ps = [] then None
             else Some (\<lambda>e. u64_field 0 @ u64_field (of_nat (length (processors ps))) @
                    u64_field (local_apic_address ps) @ u64_field e,
                  concat (map (field_bytes \<circ> boot_processor) (processors ps))))
      else if i = 8 then
        (if facts_modules facts = [] then None
         else Some (\<lambda>e. u64_field 0 @ u64_field (of_nat (length (facts_modules facts))) @ u64_field e,
                concat (map (field_bytes \<circ> boot_module_fields) (facts_modules facts))))
      else None)"
  unfolding reply_def told_fields u64_field_def u32_field_def ..

text \<open>A block of bytes in memory, between two addresses.\<close>

definition holds :: "mem \<Rightarrow> nat \<Rightarrow> nat \<Rightarrow> u64 \<Rightarrow> u8 list \<Rightarrow> bool" where
  "holds m lo hi p bs \<longleftrightarrow> lo \<le> unat p \<and> unat p + length bs \<le> hi \<and> load_bytes m p (length bs) = bs"

text \<open>What a request looks like once it has been answered from the arena between \<open>lo\<close> and \<open>hi\<close>.\<close>

definition answered :: "loader_strings \<Rightarrow> boot_facts \<Rightarrow> nat \<Rightarrow> nat \<Rightarrow> mem \<Rightarrow> mem \<Rightarrow> u64 \<Rightarrow> bool" where
  "answered strings facts lo hi m m' r =
     (case reply strings facts (request_id m r) of
        None \<Rightarrow> request_response m' r = request_response m r
      | Some (hdr, ents) \<Rightarrow>
          \<exists>e. holds m' lo hi (request_response m' r) (hdr e) \<and>
              (if ents = [] then e = 0 else holds m' lo hi e ents))"

text \<open>A request that is not in the memory the arena still has.\<close>

definition apart :: "arena \<Rightarrow> u64 \<Rightarrow> nat \<Rightarrow> bool" where
  "apart a r n \<longleftrightarrow> unat r + n \<le> 2 ^ 64 \<and> (unat r + n \<le> arena_taken a \<or> arena_end a \<le> unat r)"

lemma in_range_block: "unat p + n \<le> 2 ^ 64 \<Longrightarrow> in_range p n x \<Longrightarrow> unat p \<le> unat x \<and> unat x < unat p + n"
  by (simp add: in_range_nat)

lemma response_field: "unat (r :: u64) + 40 \<le> 2 ^ 64 \<Longrightarrow> unat (r + 32) = unat r + 32"
  by (subst unat_add_fits) simp_all

lemma responded:
  assumes wf: "arena_wf a" and out: "apart a r 40"
    and p: "arena_allocate a (of_nat n) = Some (p, a1)" "length (hdr e) = n" "n < 2 ^ 64"
    and e: "if ents = [] then e = 0 \<and> a2 = a1
            else arena_allocate a1 (of_nat (length ents)) = Some (e, a2) \<and> length ents < 2 ^ 64"
    and m': "m' = store64 (store_bytes (store_bytes m e ents) p (hdr e)) (r + 32) p"
  shows "arena_wf a2 \<and> arena_end a2 = arena_end a \<and> arena_taken a \<le> arena_taken a2 \<and> arena_taken a2 \<le> arena_end a \<and>
    (\<forall>x. m' x \<noteq> m x \<longrightarrow> (arena_taken a \<le> unat x \<and> unat x < arena_taken a2) \<or> in_range (r + 32) 8 x) \<and>
    request_response m' r = p \<and> holds m' (arena_taken a) (arena_taken a2) p (hdr e) \<and>
    (if ents = [] then e = 0 else holds m' (arena_taken a) (arena_taken a2) e ents)"
proof -
  have P: "arena_wf a1" "arena_taken a \<le> unat p" "unat p + n = arena_taken a1" "arena_taken a1 \<le> arena_end a" "arena_end a1 = arena_end a" "arena_end a \<le> 2 ^ 64"
    using arena_allocate_Some [OF wf p(1)] p(3) by (auto simp: unat_of_nat64)
  have E: "arena_wf a2 \<and> arena_taken a1 \<le> arena_taken a2 \<and> arena_taken a2 \<le> arena_end a \<and> arena_end a2 = arena_end a \<and>
      (ents \<noteq> [] \<longrightarrow> arena_taken a1 \<le> unat e \<and> unat e + length ents = arena_taken a2)"
    using e P arena_allocate_Some [OF P(1), of "of_nat (length ents)" e a2] by (auto simp: unat_of_nat64 split: if_splits)
  have r: "unat r + 40 \<le> 2 ^ 64" "unat r + 40 \<le> arena_taken a \<or> arena_end a \<le> unat r" using out by (auto simp: apart_def)
  have resp: "in_range (r + 32) 8 x \<Longrightarrow> \<not> (arena_taken a \<le> unat x \<and> unat x < arena_taken a2)" for x
    using in_range_block [of "r + 32" 8 x] r E P by (auto simp: response_field)
  have inp: "in_range p n x \<Longrightarrow> arena_taken a \<le> unat x \<and> unat x < arena_taken a1" for x
    using in_range_block [of p n x] P by auto
  have ine: "in_range e (length ents) x \<Longrightarrow> arena_taken a1 \<le> unat x \<and> unat x < arena_taken a2" for x
    using in_range_block [of e "length ents" x] P E by (cases "ents = []") (auto simp: in_range_def)
  have frame: "m' x = m x" if "\<not> (arena_taken a \<le> unat x \<and> unat x < arena_taken a2)" "\<not> in_range (r + 32) 8 x" for x
  proof -
    have "\<not> in_range p n x" using that(1) inp E by fastforce
    moreover have "\<not> in_range e (length ents) x" using that(1) ine P by fastforce
    ultimately show ?thesis using that(2) by (simp add: m' store64_outside store_bytes_outside p(2))
  qed
  have hp: "load_bytes m' p n = hdr e"
  proof -
    have "load_bytes m' p n = load_bytes (store_bytes (store_bytes m e ents) p (hdr e)) p n"
    proof (rule load_bytes_cong)
      fix x assume "in_range p n x"
      with inp [OF this] resp [of x] E have "\<not> in_range (r + 32) 8 x" by fastforce
      then show "m' x = store_bytes (store_bytes m e ents) p (hdr e) x" by (simp add: m' store64_outside)
    qed (use p(3) in simp)
    then show ?thesis using load_store_bytes [of "hdr e" _ p] p(2,3) by simp
  qed
  have he: "load_bytes m' e (length ents) = ents" if "ents \<noteq> []"
  proof -
    have lt: "length ents < 2 ^ 64" using e that by simp
    have "load_bytes m' e (length ents) = load_bytes (store_bytes m e ents) e (length ents)"
    proof (rule load_bytes_cong)
      fix x assume x: "in_range e (length ents) x"
      with ine [OF this] resp [of x] P have "\<not> in_range (r + 32) 8 x" by fastforce
      moreover have "\<not> in_range p n x" using ine [OF x] inp [of x] by fastforce
      ultimately show "m' x = store_bytes m e ents x" by (simp add: m' store64_outside store_bytes_outside p(2))
    qed (use lt in simp)
    then show ?thesis using load_store_bytes [of ents m e] lt by simp
  qed
  have "request_response m' r = p" by (simp add: m')
  moreover have "holds m' (arena_taken a) (arena_taken a2) p (hdr e)" using P E hp p(2) by (auto simp: holds_def)
  moreover have "if ents = [] then e = 0 else holds m' (arena_taken a) (arena_taken a2) e ents"
    using P E he e by (auto simp: holds_def)
  moreover have "\<forall>x. m' x \<noteq> m x \<longrightarrow> (arena_taken a \<le> unat x \<and> unat x < arena_taken a2) \<or> in_range (r + 32) 8 x"
    using frame by blast
  moreover have "arena_wf a2 \<and> arena_end a2 = arena_end a \<and> arena_taken a \<le> arena_taken a2 \<and> arena_taken a2 \<le> arena_end a"
    using P E by linarith
  ultimately show ?thesis by blast
qed

text \<open>The fields of one response written over zeros, with the array in between or without one.\<close>

definition struct_bytes :: "nat \<Rightarrow> (nat \<times> u8 list) list \<Rightarrow> u8 list" where
  "struct_bytes n fs = fold (\<lambda>(off, bs). patch off bs) fs (replicate n 0)"

definition fields_fit :: "nat \<Rightarrow> (nat \<times> u8 list) list \<Rightarrow> bool" where
  "fields_fit n fs \<longleftrightarrow> (\<forall>(off, bs) \<in> set fs. off + length bs \<le> n)"

lemma length_patches:
  "fields_fit (length buf) fs \<Longrightarrow> length (fold (\<lambda>(off, bs). patch off bs) fs buf) = length buf"
  by (induction fs arbitrary: buf) (auto simp: fields_fit_def patch_def)

lemma length_struct_bytes: "fields_fit n fs \<Longrightarrow> length (struct_bytes n fs) = n"
  using length_patches [of "replicate n 0" fs] by (simp add: struct_bytes_def)

lemma set_struct:
  assumes "fields_fit n (fs @ gs)" "n < 2 ^ 64"
  shows "set_fields p gs (store_bytes m p (struct_bytes n fs)) = store_bytes m p (struct_bytes n (fs @ gs))"
proof -
  have "length (struct_bytes n fs) = n" using assms(1) by (intro length_struct_bytes) (simp add: fields_fit_def)
  then show ?thesis using assms
    by (subst set_fields_store) (auto simp: fields_fit_def struct_bytes_def)
qed

lemma zeroed_struct:
  "n < 2 ^ 64 \<Longrightarrow> arena_allocate_zeroed a (of_nat n) m =
     map_option (\<lambda>(p, a). (p, a, store_bytes m p (struct_bytes n []))) (arena_allocate a (of_nat n))"
  by (cases "arena_allocate a (of_nat n)")
    (auto simp: arena_allocate_zeroed_def memset_store_bytes struct_bytes_def unat_of_nat64)

lemma plain_struct:
  assumes "fields_fit n ((0, u64_field 0) # fs)" "n < 2 ^ 64"
  shows "set_fields p fs (set_revision p r (store_bytes m p (struct_bytes n []))) =
    store_bytes m p (struct_bytes n ((0, u64_field 0) # fs))"
proof -
  have "fields_fit n ([] @ [(0, u64_field 0)])" using assms(1) by (simp add: fields_fit_def)
  from set_struct [OF this assms(2)] have
    "set_revision p r (store_bytes m p (struct_bytes n [])) = store_bytes m p (struct_bytes n [(0, u64_field 0)])"
    by (simp add: set_revision_def)
  then show ?thesis using set_struct [of n "[(0, u64_field 0)]" fs] assms by simp
qed

lemma array_struct:
  assumes fit: "fields_fit n ((eoff, u64_field e) # (0, u64_field 0) # fs)" "n < 2 ^ 64"
    and arr: "\<And>m. fill_array e k f xs m = store_bytes m e ents"
    and apart: "\<And>x. \<not> (in_range p n x \<and> in_range e (length ents) x)"
  shows "set_fields p fs (set_revision p r (fill_array e k f xs
      (set_fields p [(eoff, u64_field e)] (store_bytes m p (struct_bytes n []))))) =
    store_bytes (store_bytes m e ents) p (struct_bytes n ((eoff, u64_field e) # (0, u64_field 0) # fs))"
proof -
  let ?b1 = "struct_bytes n [(eoff, u64_field e)]"
  have f1: "fields_fit n ([] @ [(eoff, u64_field e)])" "fields_fit n ([(eoff, u64_field e)] @ [(0, u64_field 0)])"
    "fields_fit n ([(eoff, u64_field e), (0, u64_field 0)] @ fs)" using fit(1) by (simp_all add: fields_fit_def)
  have len: "length ?b1 = n" using f1(1) by (intro length_struct_bytes) simp
  have "set_fields p [(eoff, u64_field e)] (store_bytes m p (struct_bytes n [])) = store_bytes m p ?b1"
    using set_struct [OF f1(1) fit(2)] by simp
  moreover have "store_bytes (store_bytes m p ?b1) e ents = store_bytes (store_bytes m e ents) p ?b1"
    using apart len by (intro store_bytes_commute) simp
  moreover have "set_revision p r (store_bytes m' p ?b1) = store_bytes m' p (struct_bytes n [(eoff, u64_field e), (0, u64_field 0)])" for m'
    using set_struct [OF f1(2) fit(2)] by (simp add: set_revision_def)
  moreover have "set_fields p fs (store_bytes m' p (struct_bytes n [(eoff, u64_field e), (0, u64_field 0)])) =
      store_bytes m' p (struct_bytes n ((eoff, u64_field e) # (0, u64_field 0) # fs))" for m'
    using set_struct [OF f1(3) fit(2)] by simp
  ultimately show ?thesis by (simp add: arr)
qed

text \<open>A run of the code from the arena and the memory to a response.\<close>

definition responds :: "u64 \<Rightarrow> (u64 \<Rightarrow> u8 list) \<Rightarrow> u8 list \<Rightarrow> arena \<times> mem \<Rightarrow> arena \<times> mem \<Rightarrow> bool" where
  "responds r hdr ents = (\<lambda>(a, m) (a', m').
     \<exists>n p e a1. arena_allocate a (of_nat n) = Some (p, a1) \<and> length (hdr e) = n \<and> n < 2 ^ 64 \<and>
       (if ents = [] then e = 0 \<and> a' = a1
        else arena_allocate a1 (of_nat (length ents)) = Some (e, a') \<and> length ents < 2 ^ 64) \<and>
       m' = store64 (store_bytes (store_bytes m e ents) p (hdr e)) (r + 32) p)"

lemma plain_responds:
  assumes "do { (response, a, m) \<leftarrow> arena_allocate_zeroed a (of_nat n) m;
                let m = set_revision response r m;
                let m = set_fields response fs m;
                Some (a, set_response r response m) } = Some (a', m')"
    and "fields_fit n ((0, u64_field 0) # fs)" "n < 2 ^ 64" "\<And>e. hdr e = struct_bytes n ((0, u64_field 0) # fs)"
  shows "responds r hdr [] (a, m) (a', m')"
  using assms(1) length_struct_bytes [OF assms(2)] assms(3,4)
  by (auto simp: zeroed_struct [OF assms(3)] opt_bind plain_struct [OF assms(2,3)] set_response_def responds_def Let_def)

lemma blocks_apart:
  assumes wf: "arena_wf a" and p: "arena_allocate a (of_nat n) = Some (p, a1)" "n < 2 ^ 64"
    and e: "arena_allocate a1 (of_nat k) = Some (e, a2)" "k < 2 ^ 64"
  shows "\<not> (in_range p n x \<and> in_range e k x)"
proof -
  note P = arena_allocate_Some [OF wf p(1)]
  note E = arena_allocate_Some [OF conjunct1 [OF P] e(1)]
  have "unat p + n \<le> unat e" "unat e + k \<le> 2 ^ 64"
    using P E p(2) e(2) by (simp_all add: unat_of_nat64)
  then show ?thesis using in_range_block [of p n x] in_range_block [of e k x] by auto
qed

lemma array_responds:
  assumes wf: "arena_wf a"
    and run: "do { (response, a, m) \<leftarrow> arena_allocate_zeroed a (of_nat n) m;
                (entries, a) \<leftarrow> arena_allocate_array a (of_nat (length xs)) (of_nat k);
                let m = set_fields response [(eoff, u64_field entries)] m;
                let m = fill_array entries k f xs m;
                let m = set_revision response r m;
                let m = set_fields response fs m;
                Some (a, set_response r response m) } = Some (a', m')"
    and fit: "\<And>e. fields_fit n ((eoff, u64_field e) # (0, u64_field 0) # fs)" "n < 2 ^ 64"
    and hdr: "\<And>e. hdr e = struct_bytes n ((eoff, u64_field e) # (0, u64_field 0) # fs)"
    and xs: "\<And>x. x \<in> set xs \<Longrightarrow> adjacent 0 (f x) \<and> length (field_bytes (f x)) = k" "k * length xs < 2 ^ 64"
      "0 < k" "xs \<noteq> []"
  shows "responds r hdr (concat (map (field_bytes \<circ> f) xs)) (a, m) (a', m')"
proof -
  let ?ents = "concat (map (field_bytes \<circ> f) xs)"
  have "length (concat (map (field_bytes \<circ> f) ys)) = k * length ys" if "set ys \<subseteq> set xs" for ys
    using that xs(1) by (induction ys) auto
  then have len: "length ?ents = length xs * k" by (simp add: mult.commute)
  have ne: "?ents \<noteq> []" using len xs(3,4) by (metis length_greater_0_conv nat_0_less_mult_iff)
  have fits: "length xs * k < 2 ^ 64" using xs(2) by (simp only: mult.commute)
  from run obtain p a1 e where p: "arena_allocate a (of_nat n) = Some (p, a1)"
    and e0: "arena_allocate_array a1 (of_nat (length xs)) (of_nat k) = Some (e, a')"
    and m': "m' = set_response r p (set_fields p fs (set_revision p r (fill_array e k f xs
      (set_fields p [(eoff, u64_field e)] (store_bytes m p (struct_bytes n []))))))"
    by (auto simp: zeroed_struct [OF fit(2)] opt_bind Let_def)
  have e: "arena_allocate a1 (of_nat (length ?ents)) = Some (e, a')"
    using arena_allocate_array_Some [OF e0 fits xs(3)] by (simp only: len)
  have ap: "\<not> (in_range p n x \<and> in_range e (length ?ents) x)" for x
  proof -
    have "length ?ents < 2 ^ 64" using fits len by (simp only:)
    from blocks_apart [OF wf p fit(2) e this] show ?thesis .
  qed
  have arr: "fill_array e k f xs m = store_bytes m e ?ents" for m by (rule fill_array_store [OF xs(1,2)])
  have "m' = store64 (store_bytes (store_bytes m e ?ents) p (hdr e)) (r + 32) p"
    unfolding m' array_struct [OF fit arr ap] set_response_def hdr ..
  moreover have "length (hdr e) = n" unfolding hdr by (rule length_struct_bytes [OF fit(1)])
  moreover have "length ?ents < 2 ^ 64" using fits len by (simp only:)
  ultimately show ?thesis using p e fit(2)
    unfolding responds_def prod.case if_not_P [OF ne] by blast
qed

subsection \<open>One request\<close>

definition facts_ok :: "boot_facts \<Rightarrow> bool" where
  "facts_ok facts \<longleftrightarrow>
     (case facts_memory facts of None \<Rightarrow> True | Some mm \<Rightarrow> length (regions mm) \<le> 128) \<and>
     (case facts_processors facts of None \<Rightarrow> True | Some ps \<Rightarrow> length (processors ps) \<le> 256) \<and>
     length (facts_modules facts) \<le> 8"

lemma array_layouts:
  "adjacent 0 (boot_memory_entry x) \<and> length (field_bytes (boot_memory_entry x)) = 24"
  "adjacent 0 (boot_processor p) \<and> length (field_bytes (boot_processor p)) = 8"
  "adjacent 0 (boot_module_fields b) \<and> length (field_bytes (boot_module_fields b)) = 24"
  by (simp_all add: boot_memory_entry_def boot_processor_def boot_module_fields_def field_bytes_def)

lemma struct_layouts:
  "struct_bytes 24 [(0, u64_field a), (8, u64_field b), (16, u64_field c)] = u64_field a @ u64_field b @ u64_field c"
  "struct_bytes 24 [(16, u64_field c), (0, u64_field a), (8, u64_field b)] = u64_field a @ u64_field b @ u64_field c"
  "struct_bytes 24 [(0, u64_field a), (8, u64_field b)] = u64_field a @ u64_field b @ u64_field 0"
  "struct_bytes 16 [(0, u64_field a), (8, u64_field b)] = u64_field a @ u64_field b"
  "struct_bytes 32 [(24, u64_field d), (0, u64_field a), (8, u64_field b), (16, u64_field c)] =
     u64_field a @ u64_field b @ u64_field c @ u64_field d"
  by (simp_all add: struct_bytes_def patch_def u64_field_0)

lemma framebuffer_layout:
  "struct_bytes 40 ((0, u64_field 0) # framebuffer_fields s) = u64_field 0 @ u64_field (fb_base s) @
     u32_field (width s) @ u32_field (height s) @ u32_field (pitch s) @ u32_field (bits_per_pixel s) @
     [shift (red s), bits (red s), shift (green s), bits (green s), shift (blue s), bits (blue s), 0, 0]"
  by (simp add: struct_bytes_def patch_def framebuffer_fields_def drop_Cons' numeral_eq_Suc)

lemma of_nat_numerals: "(of_nat 24 :: u64) = 24" "(of_nat 16 :: u64) = 16" "(of_nat 40 :: u64) = 40"
  "(of_nat 32 :: u64) = 32" "(of_nat 8 :: u64) = 8"
  by simp_all

lemma answer_responds:
  assumes wf: "arena_wf a" and ok: "facts_ok facts" and run: "answer strings r facts (a, m) = Some s'"
  shows "case reply strings facts (request_id m r) of None \<Rightarrow> s' = (a, m)
    | Some (hdr, ents) \<Rightarrow> responds r hdr ents (a, m) s'"
proof -
  obtain a' m' where s': "s' = (a', m')" by (cases s')
  let ?i = "request_id m r"
  consider "?i = 1" | "?i = 2" | "?i = 3" | "?i = 4" | "?i = 5" | "?i = 6" | "?i = 7" | "?i = 8"
    | "?i \<notin> {1, 2, 3, 4, 5, 6, 7, 8}" by auto
  then show ?thesis
  proof cases
    case 1
    define rs where "rs = (case facts_memory facts of None \<Rightarrow> [] | Some mm \<Rightarrow> regions mm)"
    have small: "length rs \<le> 128" using ok by (auto simp: facts_ok_def rs_def split: option.splits)
    have rep: "reply strings facts ?i = Some (\<lambda>e. u64_field 0 @ u64_field (of_nat (length rs)) @ u64_field e,
        concat (map (field_bytes \<circ> boot_memory_entry) rs))" by (simp add: reply_fields 1 rs_def Let_def)
    show ?thesis
    proof (cases "rs = []")
      case True
      have "responds r (\<lambda>e. struct_bytes 24 [(0, u64_field 0), (8, u64_field (of_nat (length rs)))]) [] (a, m) (a', m')"
        by (rule plain_responds [where n = 24])
          (use run 1 True in \<open>simp_all add: answer_def answer_memory_map_def s' rs_def [symmetric] of_nat_numerals Let_def fields_fit_def\<close>)
      then show ?thesis using True by (simp add: rep s' responds_def struct_layouts cong: if_cong)
    next
      case False
      have run': "do { (response, a, m) \<leftarrow> arena_allocate_zeroed a (of_nat 24) m;
                (entries, a) \<leftarrow> arena_allocate_array a (of_nat (length rs)) (of_nat 24);
                let m = set_fields response [(16, u64_field entries)] m;
                let m = fill_array entries 24 boot_memory_entry rs m;
                let m = set_revision response r m;
                let m = set_fields response [(8, u64_field (of_nat (length rs)))] m;
                Some (a, set_response r response m) } = Some (a', m')"
        using run 1 False
        by (auto simp: answer_def answer_memory_map_def s' rs_def [symmetric] Let_def opt_bind of_nat_numerals)
      have "responds r (\<lambda>e. u64_field 0 @ u64_field (of_nat (length rs)) @ u64_field e)
          (concat (map (field_bytes \<circ> boot_memory_entry) rs)) (a, m) (a', m')"
        by (rule array_responds [OF wf run'])
          (use False small in \<open>simp_all add: fields_fit_def array_layouts struct_layouts\<close>)
      then show ?thesis by (simp add: rep s')
    qed
  next
    case 2
    have "responds r (\<lambda>e. u64_field 0 @ u64_field (kernel_physical_base facts) @ u64_field (kernel_virtual_base facts)) [] (a, m) (a', m')"
      by (rule plain_responds [where n = 24 and fs = "[(8, u64_field (kernel_physical_base facts)), (16, u64_field (kernel_virtual_base facts))]"])
        (use run 2 in \<open>simp_all add: answer_def answer_kernel_address_def s' of_nat_numerals fields_fit_def struct_layouts\<close>)
    then show ?thesis by (simp add: reply_fields 2 s')
  next
    case 3
    let ?c = "if facts_command_line facts \<noteq> 0 then facts_command_line facts else EMPTY_COMMAND_LINE strings"
    have "responds r (\<lambda>e. u64_field 0 @ u64_field ?c) [] (a, m) (a', m')"
      by (rule plain_responds [where n = 16 and fs = "[(8, u64_field ?c)]"])
        (use run 3 in \<open>simp_all add: answer_def answer_command_line_def s' of_nat_numerals fields_fit_def struct_layouts\<close>)
    then show ?thesis by (simp add: reply_fields 3 s')
  next
    case 4
    have "responds r (\<lambda>e. u64_field 0 @ u64_field (LOADER_NAME strings) @ u64_field (LOADER_VERSION strings)) [] (a, m) (a', m')"
      by (rule plain_responds [where n = 24 and fs = "[(8, u64_field (LOADER_NAME strings)), (16, u64_field (LOADER_VERSION strings))]"])
        (use run 4 in \<open>simp_all add: answer_def answer_loader_info_def s' of_nat_numerals fields_fit_def struct_layouts\<close>)
    then show ?thesis by (simp add: reply_fields 4 s')
  next
    case 5
    show ?thesis
    proof (cases "facts_screen facts")
      case None
      then show ?thesis using run by (simp add: reply_fields 5 answer_def answer_framebuffer_def)
    next
      case (Some s)
      have "responds r (\<lambda>e. struct_bytes 40 ((0, u64_field 0) # framebuffer_fields s)) [] (a, m) (a', m')"
        by (rule plain_responds [where n = 40 and fs = "framebuffer_fields s"])
          (use run 5 Some in \<open>simp_all add: answer_def answer_framebuffer_def s' of_nat_numerals fields_fit_def framebuffer_fields_def\<close>)
      then show ?thesis unfolding framebuffer_layout by (simp add: reply_fields 5 s' Some)
    qed
  next
    case 6
    show ?thesis
    proof (cases "facts_rsdp facts = 0")
      case True
      then show ?thesis using run by (simp add: reply_fields 6 answer_def answer_acpi_def)
    next
      case False
      have "responds r (\<lambda>e. u64_field 0 @ u64_field (facts_rsdp facts)) [] (a, m) (a', m')"
        by (rule plain_responds [where n = 16 and fs = "[(8, u64_field (facts_rsdp facts))]"])
          (use run 6 False in \<open>simp_all add: answer_def answer_acpi_def s' of_nat_numerals fields_fit_def struct_layouts\<close>)
      then show ?thesis by (simp add: reply_fields 6 s' False)
    qed
  next
    case 7
    show ?thesis
    proof (cases "\<exists>ps. facts_processors facts = Some ps \<and> processors ps \<noteq> []")
      case False
      then show ?thesis using run
        by (auto simp: reply_fields 7 answer_def answer_processors_def split: option.splits)
    next
      case True
      then obtain ps where ps: "facts_processors facts = Some ps" "processors ps \<noteq> []" by blast
      then have small: "length (processors ps) \<le> 256" using ok by (simp add: facts_ok_def)
      have "responds r (\<lambda>e. u64_field 0 @ u64_field (of_nat (length (processors ps))) @
          u64_field (local_apic_address ps) @ u64_field e) (concat (map (field_bytes \<circ> boot_processor) (processors ps))) (a, m) (a', m')"
        by (rule array_responds [where n = 32 and xs = "processors ps" and k = 8 and eoff = 24 and f = boot_processor and fs = "[(8, u64_field (of_nat (length (processors ps)))), (16, u64_field (local_apic_address ps))]", OF wf])
          (use run 7 ps small in \<open>simp_all add: answer_def answer_processors_def s'
            of_nat_numerals Let_def fields_fit_def array_layouts struct_layouts\<close>)
      then show ?thesis using ps by (simp add: reply_fields 7 s')
    qed
  next
    case 8
    show ?thesis
    proof (cases "facts_modules facts = []")
      case True
      then show ?thesis using run by (simp add: reply_fields 8 answer_def answer_modules_def)
    next
      case False
      let ?b = "facts_modules facts"
      have small: "length ?b \<le> 8" using ok by (simp add: facts_ok_def)
      have "responds r (\<lambda>e. u64_field 0 @ u64_field (of_nat (length ?b)) @ u64_field e)
          (concat (map (field_bytes \<circ> boot_module_fields) ?b)) (a, m) (a', m')"
        by (rule array_responds [where n = 24 and xs = ?b and k = 24 and eoff = 16 and f = boot_module_fields and fs = "[(8, u64_field (of_nat (length ?b)))]", OF wf])
          (use run 8 False small in \<open>simp_all add: answer_def answer_modules_def s'
            of_nat_numerals Let_def fields_fit_def array_layouts struct_layouts\<close>)
      then show ?thesis using False by (simp add: reply_fields 8 s')
    qed
  next
    case 9
    then show ?thesis using run by (auto simp: reply_fields answer_def Let_def)
  qed
qed

subsection \<open>All requests\<close>

lemma answer_answered:
  assumes wf: "arena_wf a" and out: "apart a r 40" and ok: "facts_ok facts"
    and run: "answer strings r facts (a, m) = Some (a', m')"
  shows "arena_wf a'" "arena_end a' = arena_end a" "arena_taken a \<le> arena_taken a'" "arena_taken a' \<le> arena_end a"
    "m' x \<noteq> m x \<Longrightarrow> (arena_taken a \<le> unat x \<and> unat x < arena_taken a') \<or> in_range (r + 32) 8 x"
    "answered strings facts (arena_taken a) (arena_taken a') m m' r"
proof -
  have "arena_wf a' \<and> arena_end a' = arena_end a \<and> arena_taken a \<le> arena_taken a' \<and> arena_taken a' \<le> arena_end a \<and>
    (\<forall>x. m' x \<noteq> m x \<longrightarrow> (arena_taken a \<le> unat x \<and> unat x < arena_taken a') \<or> in_range (r + 32) 8 x) \<and>
    answered strings facts (arena_taken a) (arena_taken a') m m' r"
  proof (cases "reply strings facts (request_id m r)")
    case None
    with answer_responds [OF wf ok run] have "a' = a" "m' = m" by simp_all
    then show ?thesis using wf None
      by (simp add: answered_def) (simp add: arena_wf_def arena_taken_def arena_end_def word_le_nat_alt)
  next
    case (Some he)
    obtain hdr ents where he: "he = (hdr, ents)" by (cases he)
    with answer_responds [OF wf ok run] Some have "responds r hdr ents (a, m) (a', m')" by simp
    then obtain n p e a1 where "arena_allocate a (of_nat n) = Some (p, a1)" "length (hdr e) = n" "n < 2 ^ 64"
      "if ents = [] then e = 0 \<and> a' = a1
       else arena_allocate a1 (of_nat (length ents)) = Some (e, a') \<and> length ents < 2 ^ 64"
      "m' = store64 (store_bytes (store_bytes m e ents) p (hdr e)) (r + 32) p"
      unfolding responds_def prod.case by blast
    note R = responded [where hdr = hdr and e = e and ents = ents, OF wf out this]
    then have "answered strings facts (arena_taken a) (arena_taken a') m m' r"
      using Some unfolding answered_def he by auto
    with R show ?thesis by blast
  qed
  then show "arena_wf a'" "arena_end a' = arena_end a" "arena_taken a \<le> arena_taken a'" "arena_taken a' \<le> arena_end a"
    "m' x \<noteq> m x \<Longrightarrow> (arena_taken a \<le> unat x \<and> unat x < arena_taken a') \<or> in_range (r + 32) 8 x"
    "answered strings facts (arena_taken a) (arena_taken a') m m' r" by blast+
qed

text \<open>The requests in an image of \<open>n\<close> bytes from \<open>start\<close>, from an offset on: those with both halves of the magic at
  a multiple of 8, the next one looked for behind the last.\<close>

function requests_from :: "mem \<Rightarrow> u64 \<Rightarrow> nat \<Rightarrow> nat \<Rightarrow> u64 list" where
  "requests_from m start n k =
     (if k + 40 \<le> n then
        let r = start + of_nat k
        in if load64 m r = BOOT_REQUEST_MAGIC_LOW \<and> load64 m (r + 8) = BOOT_REQUEST_MAGIC_HIGH
           then r # requests_from m start n (k + 40) else requests_from m start n (k + 8)
      else [])"
  by pat_completeness auto
termination by (relation "measure (\<lambda>(m, start, n, k). n - k)") auto

declare requests_from.simps [simp del]

lemma requests_from_bounds:
  assumes "unat start + n \<le> 2 ^ 64" "r \<in> set (requests_from m start n k)"
  shows "unat start + k \<le> unat r \<and> unat r + 40 \<le> unat start + n"
  using assms
proof (induction m start n k rule: requests_from.induct)
  case (1 m start n k)
  have k: "k + 40 \<le> n" using 1(4) by (subst (asm) requests_from.simps) (auto split: if_splits)
  let ?r = "start + of_nat k :: u64"
  have ur: "unat ?r = unat start + k"
  proof -
    have "k < 2 ^ 64" using k 1(3) by linarith
    then have "unat (of_nat k :: u64) = k" by (rule unat_of_nat64)
    then show ?thesis using k 1(3) by (subst unat_add_fits) simp_all
  qed
  show ?case
  proof (cases "load64 m ?r = BOOT_REQUEST_MAGIC_LOW \<and> load64 m (?r + 8) = BOOT_REQUEST_MAGIC_HIGH")
    case True
    then have "r = ?r \<or> r \<in> set (requests_from m start n (k + 40))"
      using 1(4) k by (subst (asm) requests_from.simps) (simp add: Let_def)
    then show ?thesis using 1(1) [OF k refl True 1(3)] ur k by fastforce
  next
    case False
    then have "r \<in> set (requests_from m start n (k + 8))"
      using 1(4) k by (subst (asm) requests_from.simps) (auto simp: Let_def)
    then show ?thesis using 1(2) [OF k refl False 1(3)] by fastforce
  qed
qed

lemma load64_same:
  assumes "unat r + 8 \<le> 2 ^ 64" "\<And>x. unat r \<le> unat x \<Longrightarrow> unat x < unat r + 8 \<Longrightarrow> m x = m' x"
  shows "load64 m r = load64 m' r"
  using assms by (intro load64_cong) (auto simp: in_range_nat)

lemma unat_add_small: "unat (r :: u64) + k < 2 ^ 64 \<Longrightarrow> unat (r + of_nat k) = unat r + k"
proof -
  assume "unat r + k < 2 ^ 64"
  then have "unat r + unat (of_nat k :: u64) < 2 ^ 64" "unat (of_nat k :: u64) = k"
    using unat_of_nat64 [of k] by linarith+
  then show ?thesis by (simp add: unat_add_fits)
qed

lemma request_fields_same:
  assumes "unat r + 40 \<le> 2 ^ 64" "\<And>x. unat r \<le> unat x \<Longrightarrow> unat x < unat r + 40 \<Longrightarrow> m x = m' x"
  shows "load64 m r = load64 m' r" "load64 m (r + 8) = load64 m' (r + 8)"
    "request_id m r = request_id m' r" "request_response m r = request_response m' r"
proof -
  have "unat (r + 8) = unat r + 8" "unat (r + 16) = unat r + 16" "unat (r + 32) = unat r + 32"
    using unat_add_small [of r 8] unat_add_small [of r 16] unat_add_small [of r 32] assms(1) by simp_all
  then show "load64 m r = load64 m' r" "load64 m (r + 8) = load64 m' (r + 8)"
    "request_id m r = request_id m' r" "request_response m r = request_response m' r"
    using assms by (auto intro!: load64_same)
qed

lemma requests_from_same:
  assumes "unat start + n \<le> 2 ^ 64" "\<And>x. unat start + k \<le> unat x \<Longrightarrow> unat x < unat start + n \<Longrightarrow> m x = m' x"
  shows "requests_from m start n k = requests_from m' start n k"
  using assms
proof (induction m start n k rule: requests_from.induct)
  case (1 m start n k)
  show ?case
  proof (cases "k + 40 \<le> n")
    case False
    then show ?thesis by (simp add: requests_from.simps)
  next
    case True
    let ?r = "start + of_nat k :: u64"
    have "unat ?r = unat start + k" using True 1(3) by (intro unat_add_small) linarith
    then have "load64 m ?r = load64 m' ?r" "load64 m (?r + 8) = load64 m' (?r + 8)"
      using request_fields_same(1,2) [of ?r m m'] 1(3,4) True by simp_all
    moreover have "load64 m ?r = BOOT_REQUEST_MAGIC_LOW \<and> load64 m (?r + 8) = BOOT_REQUEST_MAGIC_HIGH \<Longrightarrow>
        requests_from m start n (k + 40) = requests_from m' start n (k + 40)"
      by (rule 1(1) [OF True refl]) (use 1(3,4) in auto)
    moreover have "\<not> (load64 m ?r = BOOT_REQUEST_MAGIC_LOW \<and> load64 m (?r + 8) = BOOT_REQUEST_MAGIC_HIGH) \<Longrightarrow>
        requests_from m start n (k + 8) = requests_from m' start n (k + 8)"
      by (rule 1(2) [OF True refl]) (use 1(3,4) in auto)
    ultimately show ?thesis
      using True requests_from.simps [of m start n k] requests_from.simps [of m' start n k] by (simp only: Let_def if_True) metis
  qed
qed

lemma holds_mono:
  assumes "holds m lo hi p bs" "hi \<le> 2 ^ 64" "\<And>x. lo \<le> unat x \<Longrightarrow> unat x < hi \<Longrightarrow> m' x = m x" "hi \<le> hi'"
  shows "holds m' lo hi' p bs"
proof -
  have p: "lo \<le> unat p" "unat p + length bs \<le> hi" "load_bytes m p (length bs) = bs" using assms(1) by (auto simp: holds_def)
  have "load_bytes m' p (length bs) = load_bytes m p (length bs)"
  proof (rule load_bytes_cong)
    fix x assume "in_range p (length bs) x"
    then have "unat p \<le> unat x \<and> unat x < unat p + length bs" using p assms(2) by (intro in_range_block) linarith
    then show "m' x = m x" using p by (intro assms(3)) linarith+
  qed (use p(2) assms(2) in linarith)
  with p assms(4) show ?thesis by (simp add: holds_def)
qed

text \<open>How much room an answer needs.\<close>

lemma arena_allocate_room:
  assumes wf: "arena_wf a" and n: "0 < n" "arena_taken a + 15 + n \<le> arena_end a"
  shows "\<exists>p a'. arena_allocate a (of_nat n) = Some (p, a') \<and> arena_wf a' \<and> arena_end a' = arena_end a \<and>
    arena_taken a' \<le> arena_taken a + 15 + n"
proof -
  let ?cur = "unat (base a) + unat (used a)"
  have end64: "arena_end a \<le> 2 ^ 64" using wf by (simp add: arena_wf_def arena_end_def)
  have p16: "pow2 16" by (simp add: pow2_def)
  have up: "align_up_nat ?cur 16 \<le> ?cur + 15" by (simp add: align_up_nat_def)
  then have lt: "align_up_nat ?cur 16 < 2 ^ 64" "align_up_nat ?cur 16 + n \<le> arena_end a" "n < 2 ^ 64"
    using n end64 by (simp_all add: arena_taken_def)
  then obtain p :: u64 where p: "unat p = align_up_nat ?cur 16" using ex_unat64 by blast
  have un: "unat (of_nat n :: u64) = n" by (rule unat_of_nat64 [OF lt(3)])
  then have "(of_nat n :: u64) \<noteq> 0" using n(1) by (metis less_irrefl unat_0)
  then have al: "arena_allocate a (of_nat n) = Some (p, a\<lparr>used := p + of_nat n - base a\<rparr>)"
    unfolding arena_allocate_def using arena_allocate_aligned_exact [OF wf] p16 p lt(2) un
    by (simp add: arena_end_def)
  with arena_allocate_Some [OF wf al] p un up show ?thesis by (auto simp: arena_taken_def)
qed

lemma arena_allocate_zeroed_room:
  assumes "arena_wf a" "0 < n" "arena_taken a + 15 + n \<le> arena_end a"
  shows "\<exists>p a' m'. arena_allocate_zeroed a (of_nat n) m = Some (p, a', m') \<and> arena_wf a' \<and> arena_end a' = arena_end a \<and>
    arena_taken a' \<le> arena_taken a + 15 + n"
  using arena_allocate_room [OF assms] by (auto simp: arena_allocate_zeroed_def)

lemma arena_allocate_array_room:
  assumes "arena_wf a" "0 < k" "0 < n" "k \<le> 256" "n \<le> 32" "arena_taken a + 15 + k * n \<le> arena_end a"
  shows "\<exists>p a'. arena_allocate_array a (of_nat k) (of_nat n) = Some (p, a') \<and> arena_taken a' \<le> arena_taken a + 15 + k * n"
proof -
  have "k * n \<le> 256 * 32" using assms(4,5) by (rule mult_le_mono)
  then have "checked_mul_size (of_nat k) (of_nat n) = Some (of_nat (k * n))"
    using assms(4,5) by (simp add: checked_mul_size_def unat_of_nat64 unat_word_ariths)
  then show ?thesis using arena_allocate_room [OF assms(1), of "k * n"] assms(2,3,6)
    by (auto simp: arena_allocate_array_def)
qed


lemma plain_room:
  assumes "arena_wf a" "n \<le> 40" "0 < n" "arena_taken a + 4096 \<le> arena_end a"
  shows "\<exists>a' m'. (do { (response, a, m) \<leftarrow> arena_allocate_zeroed a (of_nat n) m;
                let m = set_revision response r m;
                let m = set_fields response fs m;
                Some (a, set_response r response m) }) = Some (a', m') \<and> arena_taken a' \<le> arena_taken a + 4096"
proof -
  have "arena_taken a + 15 + n \<le> arena_end a" using assms by linarith
  from arena_allocate_zeroed_room [OF assms(1,3) this, of m] assms(2) show ?thesis
    by (elim exE conjE) (simp add: opt_bind Let_def)
qed

lemma array_room:
  assumes "arena_wf a" "n \<le> 32" "0 < n" "arena_taken a + 4096 \<le> arena_end a"
    and "xs \<noteq> []" "length xs \<le> 256" "0 < k" "k \<le> 32" "length xs * k \<le> 3072"
  shows "\<exists>a' m'. (do { (response, a, m) \<leftarrow> arena_allocate_zeroed a (of_nat n) m;
                (entries, a) \<leftarrow> arena_allocate_array a (of_nat (length xs)) (of_nat k);
                let m = set_fields response [(eoff, u64_field entries)] m;
                let m = fill_array entries k f xs m;
                let m = set_revision response r m;
                let m = set_fields response fs m;
                Some (a, set_response r response m) }) = Some (a', m') \<and> arena_taken a' \<le> arena_taken a + 4096"
proof -
  have "arena_taken a + 15 + n \<le> arena_end a" using assms by linarith
  from arena_allocate_zeroed_room [OF assms(1,3) this, of m] obtain p a1 m1
    where p: "arena_allocate_zeroed a (of_nat n) m = Some (p, a1, m1)" "arena_wf a1" "arena_end a1 = arena_end a"
      "arena_taken a1 \<le> arena_taken a + 15 + n" by blast
  have "arena_taken a1 + 15 + length xs * k \<le> arena_end a1" using p assms by linarith
  from arena_allocate_array_room [OF p(2) _ assms(7,6,8) this] assms(5) obtain e a2
    where "arena_allocate_array a1 (of_nat (length xs)) (of_nat k) = Some (e, a2)" "arena_taken a2 \<le> arena_taken a1 + 15 + length xs * k"
    by auto
  then show ?thesis using p assms by (simp add: opt_bind Let_def)
qed

lemma answer_succeeds:
  assumes wf: "arena_wf a" and ok: "facts_ok facts" and room: "arena_taken a + 4096 \<le> arena_end a"
  shows "\<exists>a' m'. answer strings r facts (a, m) = Some (a', m') \<and> arena_taken a' \<le> arena_taken a + 4096"
proof -
  note plain = plain_room [OF wf _ _ room] and arr = array_room [OF wf _ _ room]
  have stays: "\<exists>a' m'. Some (a, m) = Some (a', m') \<and> arena_taken a' \<le> arena_taken a + 4096" by simp
  let ?P = "\<lambda>x. \<exists>a' m'. x = Some (a', m') \<and> arena_taken a' \<le> arena_taken a + 4096"
  have 1: "?P (answer_memory_map r facts (a, m))"
  proof -
    define rs where "rs = (case facts_memory facts of None \<Rightarrow> [] | Some mm \<Rightarrow> regions mm)"
    have small: "length rs \<le> 128" using ok by (auto simp: facts_ok_def rs_def split: option.splits)
    show ?thesis
    proof (cases "rs = []")
      case True
      then show ?thesis using plain [of 24 m r "[(8, u64_field 0)]"]
        by (simp add: answer_memory_map_def rs_def [symmetric] Let_def)
    next
      case False
      then show ?thesis
        using arr [of 24 rs 24 m 16 boot_memory_entry r "[(8, u64_field (of_nat (length rs)))]"] small
        by (simp add: answer_memory_map_def rs_def [symmetric] Let_def opt_bind)
    qed
  qed
  have 2: "?P (answer_kernel_address r facts (a, m))" using plain [of 24] by (simp add: answer_kernel_address_def)
  have 3: "?P (answer_command_line strings r facts (a, m))" using plain [of 16] by (simp add: answer_command_line_def)
  have 4: "?P (answer_loader_info strings r (a, m))" using plain [of 24] by (simp add: answer_loader_info_def)
  have 5: "?P (answer_framebuffer r facts (a, m))" using plain [of 40] stays by (cases "facts_screen facts") (simp_all add: answer_framebuffer_def)
  have 6: "?P (answer_acpi r facts (a, m))" using plain [of 16] stays by (simp add: answer_acpi_def)
  have 7: "?P (answer_processors r facts (a, m))"
  proof (cases "\<exists>ps. facts_processors facts = Some ps \<and> processors ps \<noteq> []")
    case True
    then obtain ps where ps: "facts_processors facts = Some ps" "processors ps \<noteq> []" by blast
    then have "length (processors ps) \<le> 256" using ok by (simp add: facts_ok_def)
    then show ?thesis using arr [of 32 "processors ps" 8] ps by (simp add: answer_processors_def)
  qed (use stays in \<open>auto simp: answer_processors_def split: option.splits\<close>)
  have 8: "?P (answer_modules r facts (a, m))"
    using arr [of 24 "facts_modules facts" 24] ok stays by (simp add: answer_modules_def facts_ok_def)
  show ?thesis using 1 2 3 4 5 6 7 8 stays by (simp add: answer_def Let_def)
qed

text \<open>What was answered stays answered while only memory behind it in the arena and later requests change.\<close>

lemma answered_mono:
  assumes a: "answered strings facts lo hi m m1 r" and r: "unat r + 40 \<le> 2 ^ 64" "hi \<le> 2 ^ 64"
    and same: "\<And>x. lo \<le> unat x \<and> unat x < hi \<or> unat r \<le> unat x \<and> unat x < unat r + 40 \<Longrightarrow> m' x = m1 x"
    and mono: "lo' \<le> lo" "hi \<le> hi'"
    and old: "\<And>x. unat r \<le> unat x \<Longrightarrow> unat x < unat r + 40 \<Longrightarrow> m0 x = m x"
  shows "answered strings facts lo' hi' m0 m' r"
proof -
  have f: "request_response m' r = request_response m1 r" using request_fields_same(4) [of r m' m1] r same by blast
  have o: "request_id m0 r = request_id m r" "request_response m0 r = request_response m r"
    using request_fields_same(3,4) [of r m0 m] r old by blast+
  have h: "holds m1 lo hi p bs \<Longrightarrow> holds m' lo' hi' p bs" for p bs
  proof -
    assume "holds m1 lo hi p bs"
    then have "holds m' lo hi' p bs" by (rule holds_mono) (use r same mono in auto)
    then show ?thesis using mono by (simp add: holds_def)
  qed
  show ?thesis using a h unfolding answered_def f o
    by (cases "reply strings facts (request_id m r)") (auto split: if_splits)
qed

definition scanned :: "loader_strings \<Rightarrow> boot_facts \<Rightarrow> u64 list \<Rightarrow> arena \<Rightarrow> mem \<Rightarrow> arena \<Rightarrow> mem \<Rightarrow> bool" where
  "scanned strings facts rs a m a' m' \<longleftrightarrow>
     arena_wf a' \<and> arena_end a' = arena_end a \<and> arena_taken a \<le> arena_taken a' \<and> arena_taken a' \<le> arena_end a \<and>
     (\<forall>r \<in> set rs. answered strings facts (arena_taken a) (arena_taken a') m m' r) \<and>
     {x. m' x \<noteq> m x} \<subseteq> {x. arena_taken a \<le> unat x \<and> unat x < arena_taken a'} \<union> (\<Union>r \<in> set rs. {x. in_range (r + 32) 8 x})"

lemma scanned_Nil: "arena_wf a \<Longrightarrow> scanned strings facts [] a m a m"
  by (simp add: scanned_def) (simp add: arena_wf_def arena_taken_def arena_end_def word_le_nat_alt)

lemma scanned_Cons:
  assumes wf: "arena_wf a" and ok: "facts_ok facts" and run: "answer strings r facts (a, m) = Some (a1, m1)"
    and im: "apart a start n" "unat start \<le> unat r" "unat r + 40 \<le> unat start + n"
    and rs: "\<And>q. q \<in> set rs \<Longrightarrow> unat r + 40 \<le> unat q \<and> unat q + 40 \<le> unat start + n"
    and rest: "scanned strings facts rs a1 m1 a' m'"
  shows "scanned strings facts (r # rs) a m a' m'"
proof -
  have ap: "apart a r 40" using im by (auto simp: apart_def)
  note A = answer_answered [OF wf ap ok run]
  have top: "arena_end a \<le> 2 ^ 64" using wf by (simp add: arena_wf_def arena_end_def)
  have R: "arena_wf a'" "arena_end a' = arena_end a1" "arena_taken a1 \<le> arena_taken a'" "arena_taken a' \<le> arena_end a1"
    "\<And>q. q \<in> set rs \<Longrightarrow> answered strings facts (arena_taken a1) (arena_taken a') m1 m' q"
    "\<And>x. m' x \<noteq> m1 x \<Longrightarrow> (arena_taken a1 \<le> unat x \<and> unat x < arena_taken a') \<or> (\<exists>q \<in> set rs. in_range (q + 32) 8 x)"
    using rest by (auto simp: scanned_def)
  have field: "unat q + 32 \<le> unat x \<and> unat x < unat q + 40" if "in_range (q + 32) 8 x" "unat q + 40 \<le> unat start + n" for q x
  proof -
    have "unat q + 40 \<le> 2 ^ 64" using that(2) im(1) by (auto simp: apart_def)
    then show ?thesis using in_range_block [of "q + 32" 8 x] that(1) response_field [of q] by auto
  qed
  have img: "x \<in> {x. unat start \<le> unat x \<and> unat x < unat start + n} \<Longrightarrow> \<not> (arena_taken a \<le> unat x \<and> unat x < arena_end a)" for x
    using im(1) by (auto simp: apart_def)
  have same1: "m' x = m1 x" if "arena_taken a \<le> unat x \<and> unat x < arena_taken a1 \<or> unat r \<le> unat x \<and> unat x < unat r + 40" for x
  proof (rule ccontr)
    assume "m' x \<noteq> m1 x"
    then consider "arena_taken a1 \<le> unat x" "unat x < arena_taken a'" | q where "q \<in> set rs" "in_range (q + 32) 8 x"
      using R(6) by blast
    then show False
    proof cases
      case 1
      then show False using that img [of x] im A(2,3) R(4) by auto
    next
      case (2 q)
      then have "unat r + 40 \<le> unat q" "unat q + 32 \<le> unat x" "unat x < unat q + 40" "unat q + 40 \<le> unat start + n"
        using rs [of q] field [of q x] by auto
      then show False using that img [of x] im A(4) by auto
    qed
  qed
  have old: "m x = m1 x" if "unat r + 40 \<le> unat x" "unat x < unat start + n" for x
  proof (rule ccontr)
    assume "m x \<noteq> m1 x"
    then have "(arena_taken a \<le> unat x \<and> unat x < arena_taken a1) \<or> in_range (r + 32) 8 x" using A(5) [of x] by auto
    then show False using that img [of x] field [of r x] im A(4) by auto
  qed
  have "answered strings facts (arena_taken a) (arena_taken a') m m' r"
    by (rule answered_mono [OF A(6)]) (use same1 R(3) ap A(4) top in \<open>auto simp: apart_def\<close>)
  moreover have "answered strings facts (arena_taken a) (arena_taken a') m m' q" if q: "q \<in> set rs" for q
    by (rule answered_mono [OF R(5) [OF q]])
      (use rs [OF q] old A(3) R(4) A(2) top im(1) in \<open>auto simp: apart_def\<close>)
  moreover have "{x. m' x \<noteq> m x} \<subseteq> {x. m' x \<noteq> m1 x} \<union> {x. m1 x \<noteq> m x}" by auto
  then have "{x. m' x \<noteq> m x} \<subseteq> {x. arena_taken a \<le> unat x \<and> unat x < arena_taken a'} \<union>
      (\<Union>r \<in> set (r # rs). {x. in_range (r + 32) 8 x})"
    using A(3,5) R(3,6) by fastforce
  ultimately show ?thesis using A(2,3) R(1,2,3,4) unfolding scanned_def by auto
qed

lemma scan_requests_scanned:
  assumes "arena_wf a" "facts_ok facts" "apart a start n" "unat final = n - 40" "40 \<le> n" "offset = of_nat k" "k \<le> n" "past \<le> 64" "n < 2 ^ 64"
  shows "\<exists>res. scan_requests strings start facts final offset past (a, m) = Some res \<and>
    (case res of
       None \<Rightarrow> past + length (requests_from m start n k) > 64 \<or>
         arena_end a < arena_taken a + 4096 * length (requests_from m start n k)
     | Some (cnt, a', m') \<Rightarrow> cnt = past + length (requests_from m start n k) \<and> cnt \<le> 64 \<and>
         scanned strings facts (requests_from m start n k) a m a' m')"
  using assms
proof (induction "n - k" arbitrary: k offset past a m rule: less_induct)
  case less
  have im: "unat start + n \<le> 2 ^ 64" using less.prems(3) by (simp add: apart_def)
  have uo: "unat offset = k" using less.prems(6,7,9) by (simp add: unat_of_nat64)
  note step = scan_requests.simps [of strings start facts final offset past "(a, m)"]
  show ?case
  proof (cases "k + 40 \<le> n")
    case False
    then have "\<not> offset \<le> final" using uo less.prems(4,5) by (simp add: word_le_nat_alt)
    then have "scan_requests strings start facts final offset past (a, m) = Some (Some (past, a, m))"
      unfolding step by simp
    moreover have "requests_from m start n k = []" using False by (simp add: requests_from.simps)
    ultimately show ?thesis using less.prems(8) scanned_Nil [OF less.prems(1)] by simp
  next
    case True
    then have le: "offset \<le> final" using uo less.prems(4) by (simp add: word_le_nat_alt)
    let ?r = "start + offset"
    have r: "unat ?r = unat start + k" using True im unfolding less.prems(6) by (intro unat_add_small) linarith
    define hit where "hit \<longleftrightarrow> load64 m ?r = BOOT_REQUEST_MAGIC_LOW \<and> load64 m (?r + 8) = BOOT_REQUEST_MAGIC_HIGH"
    show ?thesis
    proof (cases hit)
      case False
      then have run: "scan_requests strings start facts final offset past (a, m) =
          scan_requests strings start facts final (offset + 8) past (a, m)"
        unfolding step using le by (auto simp: Let_def hit_def)
      have rq: "requests_from m start n k = requests_from m start n (k + 8)"
        using False True requests_from.simps [of m start n k] by (auto simp: hit_def Let_def less.prems(6))
      show ?thesis unfolding run rq
        by (rule less.hyps) (use less.prems True in simp_all)
    next
      case hit: True
      have rq: "requests_from m start n k = ?r # requests_from m start n (k + 40)"
        using hit True requests_from.simps [of m start n k] by (simp add: hit_def Let_def less.prems(6))
      show ?thesis
      proof (cases "past = 64 \<or> answer strings ?r facts (a, m) = None")
        case True
        then have "scan_requests strings start facts final offset past (a, m) = Some None"
          unfolding step using le hit by (auto simp: Let_def hit_def split: option.split)
        moreover have "past = 64 \<or> arena_end a < arena_taken a + 4096"
          using True answer_succeeds [OF less.prems(1,2), where strings = strings and r = ?r and m = m] by fastforce
        ultimately show ?thesis unfolding rq by auto
      next
        case False
        then obtain a1 m1 where ans: "answer strings ?r facts (a, m) = Some (a1, m1)" by auto
        have run: "scan_requests strings start facts final offset past (a, m) =
            scan_requests strings start facts final (offset + 40) (past + 1) (a1, m1)"
          unfolding step using le hit ans False by (simp add: Let_def hit_def add.assoc)
        have ap: "apart a ?r 40" using less.prems(3) r True by (auto simp: apart_def)
        note A = answer_answered [OF less.prems(1) ap less.prems(2) ans]
        have ap1: "apart a1 start n" using less.prems(3) A(2,3) by (auto simp: apart_def)
        have r40: "unat ?r + 40 \<le> unat start + n" using r True by simp
        have same: "requests_from m1 start n (k + 40) = requests_from m start n (k + 40)"
        proof (rule requests_from_same [OF im])
          fix x :: u64 assume x: "unat start + (k + 40) \<le> unat x" "unat x < unat start + n"
          have "\<not> in_range (?r + 32) 8 x"
          proof
            assume "in_range (?r + 32) 8 x"
            moreover have "unat (?r + 32) = unat ?r + 32" using r40 im by (intro response_field) linarith
            ultimately have "unat x < unat ?r + 40" using in_range_block [of "?r + 32" 8 x] r40 im by auto
            then show False using x r by simp
          qed
          then show "m1 x = m x" using A(4) A(5) [of x] x less.prems(3) by (simp add: apart_def) force
        qed
        have "\<exists>res. scan_requests strings start facts final (offset + 40) (past + 1) (a1, m1) = Some res \<and>
          (case res of
             None \<Rightarrow> past + 1 + length (requests_from m1 start n (k + 40)) > 64 \<or>
               arena_end a1 < arena_taken a1 + 4096 * length (requests_from m1 start n (k + 40))
           | Some (cnt, a', m') \<Rightarrow> cnt = past + 1 + length (requests_from m1 start n (k + 40)) \<and> cnt \<le> 64 \<and>
               scanned strings facts (requests_from m1 start n (k + 40)) a1 m1 a' m')"
          by (rule less.hyps) (use True less.prems A(1) ap1 False in simp_all)
        then obtain res where res: "scan_requests strings start facts final (offset + 40) (past + 1) (a1, m1) = Some res"
          and post: "case res of
              None \<Rightarrow> past + 1 + length (requests_from m1 start n (k + 40)) > 64 \<or>
                arena_end a1 < arena_taken a1 + 4096 * length (requests_from m1 start n (k + 40))
            | Some (cnt, a', m') \<Rightarrow> cnt = past + 1 + length (requests_from m1 start n (k + 40)) \<and> cnt \<le> 64 \<and>
                scanned strings facts (requests_from m1 start n (k + 40)) a1 m1 a' m'"
          by blast
        have "scanned strings facts (?r # requests_from m start n (k + 40)) a m a' m'"
          if "scanned strings facts (requests_from m start n (k + 40)) a1 m1 a' m'" for a' m'
          by (rule scanned_Cons [OF less.prems(1,2) ans less.prems(3) _ r40 _ that])
            (use r requests_from_bounds [OF im] in fastforce)+
        moreover have "arena_end a < arena_taken a + 4096 * Suc l" if "arena_end a1 < arena_taken a1 + 4096 * l" for l
          using that A(2) answer_succeeds [OF less.prems(1,2), where strings = strings and r = ?r and m = m] ans by fastforce
        ultimately show ?thesis unfolding run res rq using post unfolding same
          by (cases res) (auto split: prod.splits)
      qed
    qed
  qed
qed

lemma protocol_answer_run:
  assumes wf: "arena_wf a" and ok: "facts_ok facts" and out: "apart a start (unat bytes)"
  shows "\<exists>res. protocol_answer strings start bytes facts (a, m) = Some res \<and>
    (case res of
       None \<Rightarrow> start = 0 \<or> length (requests_from m start (unat bytes) 0) > 64 \<or>
         arena_end a < arena_taken a + 4096 * length (requests_from m start (unat bytes) 0)
     | Some (n, a', m') \<Rightarrow> n = length (requests_from m start (unat bytes) 0) \<and> n \<le> 64 \<and>
         scanned strings facts (requests_from m start (unat bytes) 0) a m a' m')"
proof -
  show ?thesis
  proof (cases "start = 0 \<or> bytes < 40")
    case True
    then show ?thesis
      by (cases "start = 0") (simp_all add: protocol_answer_def requests_from.simps word_less_nat_alt scanned_Nil [OF wf])
  next
    case False
    then have "unat (bytes - 40) = unat bytes - 40" "40 \<le> unat bytes"
      by (simp_all add: unat_sub word_less_nat_alt word_le_nat_alt)
    then show ?thesis
      using scan_requests_scanned [OF wf ok out, of "bytes - 40" 0 0 0 strings m] unat_lt64 [of bytes] False
      by (simp add: protocol_answer_def cong: option.case_cong)
  qed
qed

text \<open>
  C33. For an image that shares no byte with the memory the arena still has, and facts of at most 128 regions, 256
  processors and 8 modules, the scan always ends, and answers exactly the requests in the image, each with the response the
  facts give it, laid out as the protocol says, in memory of the arena that was free; no other byte changes but the pointers
  to the responses. It fails only for an image at the null address, for more than 64 requests, and for an arena that may not
  have 4096 bytes for each of them.
\<close>

theorem protocol_answer_exact:
  assumes wf: "arena_wf a" and ok: "facts_ok facts" and out: "apart a start (unat bytes)"
  shows "\<exists>res. protocol_answer strings start bytes facts (a, m) = Some res \<and>
    (case res of
       None \<Rightarrow> start = 0 \<or> length (requests_from m start (unat bytes) 0) > 64 \<or>
         arena_end a < arena_taken a + 4096 * length (requests_from m start (unat bytes) 0)
     | Some (n, a', m') \<Rightarrow> n = length (requests_from m start (unat bytes) 0) \<and> n \<le> 64 \<and>
         scanned strings facts (requests_from m start (unat bytes) 0) a m a' m')"
  by (rule protocol_answer_run [OF assms])

definition demo_request :: mem where
  "demo_request = store64 (store64 (store64 (\<lambda>_. 0) 0x1000 BOOT_REQUEST_MAGIC_LOW) 0x1008 BOOT_REQUEST_MAGIC_HIGH) 0x1010 3"

definition demo_facts :: boot_facts where
  "demo_facts = \<lparr>facts_memory = None, kernel_physical_base = 0, kernel_virtual_base = 0, facts_command_line = 0x5000,
     facts_screen = None, facts_rsdp = 0, facts_processors = None, facts_modules = []\<rparr>"

definition demo_strings :: loader_strings where
  "demo_strings = \<lparr>EMPTY_COMMAND_LINE = 0x6000, LOADER_NAME = 0x6001, LOADER_VERSION = 0x6010\<rparr>"

abbreviation (input) demo_answers :: arena where
  "demo_answers \<equiv> \<lparr>base = 0x10000, capacity = 0x2000, used = 0\<rparr>"

lemma demo_requests: "requests_from demo_request 0x1000 40 0 = [0x1000]"
proof -
  have "load64 demo_request 0x1000 = BOOT_REQUEST_MAGIC_LOW" "load64 demo_request 0x1008 = BOOT_REQUEST_MAGIC_HIGH"
    by (simp_all add: demo_request_def load64_store64_other)
  then show ?thesis by (simp add: requests_from.simps)
qed

theorem protocol_answer_exact_witness:
  "\<exists>a' m'. protocol_answer demo_strings 0x1000 40 demo_facts (demo_answers, demo_request) = Some (Some (1, a', m')) \<and>
     scanned demo_strings demo_facts [0x1000] demo_answers demo_request a' m'"
proof -
  have "arena_wf demo_answers" "facts_ok demo_facts" "apart demo_answers 0x1000 (unat (40 :: u64))"
    by (simp_all add: arena_wf_def facts_ok_def demo_facts_def apart_def arena_taken_def arena_end_def)
  from protocol_answer_exact [OF this, of demo_strings demo_request] demo_requests show ?thesis
    by (auto simp: arena_taken_def arena_end_def split: option.splits)
qed

end
