(* ===== verification/Firmware_Memory.thy ===== *)
theory Firmware_Memory
  imports Reader Mem Memory_Map
begin

text \<open>
  \<open>src/fw/bios/e820.c\<close> and \<open>src/fw/uefi/memory.c\<close>: the two tables firmware describes memory with, turned
  into a memory map. Both parsers leave the map in \<open>out\<close> whatever they answer, so the result is a pair.
\<close>

subsection \<open>INT 15h E820\<close>

abbreviation (input) E820_ENTRY_BYTES :: usize where "E820_ENTRY_BYTES \<equiv> 24"
abbreviation (input) E820_MAX_ENTRIES :: u32 where "E820_MAX_ENTRIES \<equiv> 128"
abbreviation (input) E820_TYPE_USABLE :: u32 where "E820_TYPE_USABLE \<equiv> 1"
abbreviation (input) E820_TYPE_RESERVED :: u32 where "E820_TYPE_RESERVED \<equiv> 2"
abbreviation (input) E820_TYPE_ACPI_RECLAIMABLE :: u32 where "E820_TYPE_ACPI_RECLAIMABLE \<equiv> 3"
abbreviation (input) E820_TYPE_ACPI_NVS :: u32 where "E820_TYPE_ACPI_NVS \<equiv> 4"
abbreviation (input) E820_TYPE_BAD :: u32 where "E820_TYPE_BAD \<equiv> 5"
abbreviation (input) E820_ATTRIBUTE_VALID :: u32 where "E820_ATTRIBUTE_VALID \<equiv> 1"

definition e820_kind :: "u32 \<Rightarrow> memory_kind" where
  "e820_kind ty =
     (if ty = E820_TYPE_USABLE then MEMORY_KIND_USABLE
      else if ty = E820_TYPE_ACPI_RECLAIMABLE then MEMORY_KIND_ACPI_RECLAIMABLE
      else if ty = E820_TYPE_ACPI_NVS then MEMORY_KIND_ACPI_NVS
      else if ty = E820_TYPE_BAD then MEMORY_KIND_BAD
      else if ty = E820_TYPE_RESERVED then MEMORY_KIND_RESERVED
      else MEMORY_KIND_RESERVED)"

text \<open>The four reads at the head of the loop, of which any may end it.\<close>

definition e820_fields :: "reader \<Rightarrow> ((u64 \<times> u64 \<times> u32 \<times> u32) \<times> reader) option" where
  "e820_fields r =
     do { (base, r) \<leftarrow> reader_u64 r;
          (len, r) \<leftarrow> reader_u64 r;
          (ty, r) \<leftarrow> reader_u32 r;
          (attributes, r) \<leftarrow> reader_u32 r;
          Some ((base, len, ty, attributes), r) }"

fun e820_entries :: "nat \<Rightarrow> reader \<Rightarrow> memory_map \<Rightarrow> memory_map" where
  "e820_entries 0 r out = out"
| "e820_entries (Suc n) r out =
     (case e820_fields r of
        None \<Rightarrow> out
      | Some ((base, len, ty, attributes), r) \<Rightarrow>
          if attributes AND E820_ATTRIBUTE_VALID = 0 then e820_entries n r out
          else e820_entries n r (snd (memory_map_add out base len (e820_kind ty))))"

definition e820_parse :: "mem \<Rightarrow> u64 \<Rightarrow> u32 \<Rightarrow> bool \<times> memory_map" where
  "e820_parse m buffer number =
     (let out = memory_map_clear
      in if buffer = 0 \<or> number = 0 then (False, out)
         else
           let number = (if number > E820_MAX_ENTRIES then E820_MAX_ENTRIES else number)
           in case checked_mul_size (ucast number) E820_ENTRY_BYTES of
                None \<Rightarrow> (False, out)
              | Some len \<Rightarrow>
                  let r = reader_init (Some (load_bytes m buffer (unat len))) len;
                      out = memory_map_finalize (e820_entries (unat number) r out)
                  in (memory_map_total out MEMORY_KIND_USABLE > 0, out))"

subsection \<open>UEFI GetMemoryMap\<close>

abbreviation (input) UEFI_PAGE_BYTES :: u64 where "UEFI_PAGE_BYTES \<equiv> 4096"
abbreviation (input) UEFI_DESCRIPTOR_TYPE_OFFSET :: u64 where "UEFI_DESCRIPTOR_TYPE_OFFSET \<equiv> 0"
abbreviation (input) UEFI_DESCRIPTOR_PHYSICAL_OFFSET :: u64 where "UEFI_DESCRIPTOR_PHYSICAL_OFFSET \<equiv> 8"
abbreviation (input) UEFI_DESCRIPTOR_PAGES_OFFSET :: u64 where "UEFI_DESCRIPTOR_PAGES_OFFSET \<equiv> 24"
abbreviation (input) UEFI_DESCRIPTOR_MIN_BYTES :: usize where "UEFI_DESCRIPTOR_MIN_BYTES \<equiv> 40"
abbreviation (input) UEFI_DESCRIPTOR_MAX_BYTES :: usize where "UEFI_DESCRIPTOR_MAX_BYTES \<equiv> 1024"
abbreviation (input) UEFI_MEMORY_LOADER_CODE :: u32 where "UEFI_MEMORY_LOADER_CODE \<equiv> 1"
abbreviation (input) UEFI_MEMORY_LOADER_DATA :: u32 where "UEFI_MEMORY_LOADER_DATA \<equiv> 2"
abbreviation (input) UEFI_MEMORY_BOOT_SERVICES_CODE :: u32 where "UEFI_MEMORY_BOOT_SERVICES_CODE \<equiv> 3"
abbreviation (input) UEFI_MEMORY_BOOT_SERVICES_DATA :: u32 where "UEFI_MEMORY_BOOT_SERVICES_DATA \<equiv> 4"
abbreviation (input) UEFI_MEMORY_CONVENTIONAL :: u32 where "UEFI_MEMORY_CONVENTIONAL \<equiv> 7"
abbreviation (input) UEFI_MEMORY_UNUSABLE :: u32 where "UEFI_MEMORY_UNUSABLE \<equiv> 8"
abbreviation (input) UEFI_MEMORY_ACPI_RECLAIM :: u32 where "UEFI_MEMORY_ACPI_RECLAIM \<equiv> 9"
abbreviation (input) UEFI_MEMORY_ACPI_NVS :: u32 where "UEFI_MEMORY_ACPI_NVS \<equiv> 10"

datatype uefi_phase = UEFI_BEFORE_EXIT | UEFI_AFTER_EXIT

definition uefi_memory_kind :: "u32 \<Rightarrow> uefi_phase \<Rightarrow> memory_kind" where
  "uefi_memory_kind ty phase =
     (if ty = UEFI_MEMORY_CONVENTIONAL then MEMORY_KIND_USABLE
      else if ty = UEFI_MEMORY_LOADER_CODE \<or> ty = UEFI_MEMORY_LOADER_DATA then MEMORY_KIND_BOOTLOADER_RECLAIMABLE
      else if ty = UEFI_MEMORY_BOOT_SERVICES_CODE \<or> ty = UEFI_MEMORY_BOOT_SERVICES_DATA then
        (if phase = UEFI_AFTER_EXIT then MEMORY_KIND_USABLE else MEMORY_KIND_RESERVED)
      else if ty = UEFI_MEMORY_ACPI_RECLAIM then MEMORY_KIND_ACPI_RECLAIMABLE
      else if ty = UEFI_MEMORY_ACPI_NVS then MEMORY_KIND_ACPI_NVS
      else if ty = UEFI_MEMORY_UNUSABLE then MEMORY_KIND_BAD
      else MEMORY_KIND_RESERVED)"

definition uefi_descriptor_fields :: "reader \<Rightarrow> (u32 \<times> u64 \<times> u64) option" where
  "uefi_descriptor_fields r =
     do { (ty, r) \<leftarrow> reader_u32 r;
          r \<leftarrow> reader_seek r UEFI_DESCRIPTOR_PHYSICAL_OFFSET;
          (physical, r) \<leftarrow> reader_u64 r;
          r \<leftarrow> reader_seek r UEFI_DESCRIPTOR_PAGES_OFFSET;
          (pages, r) \<leftarrow> reader_u64 r;
          Some (ty, physical, pages) }"

text \<open>The loop over the descriptors; it would run forever only if the stride were zero or the offset wrapped.\<close>

partial_function (option) uefi_descriptors ::
  "mem \<Rightarrow> u64 \<Rightarrow> usize \<Rightarrow> usize \<Rightarrow> uefi_phase \<Rightarrow> usize \<Rightarrow> memory_map \<Rightarrow> memory_map option" where
  "uefi_descriptors m base total_bytes descriptor_bytes phase offset out =
     (if offset + descriptor_bytes \<le> total_bytes then
        let r = reader_init (Some (load_bytes m (base + offset) (unat descriptor_bytes))) descriptor_bytes
        in case uefi_descriptor_fields r of
             None \<Rightarrow> Some out
           | Some (ty, physical, pages) \<Rightarrow>
               (case checked_mul_u64 pages UEFI_PAGE_BYTES of
                  None \<Rightarrow> uefi_descriptors m base total_bytes descriptor_bytes phase (offset + descriptor_bytes) out
                | Some len \<Rightarrow>
                    uefi_descriptors m base total_bytes descriptor_bytes phase (offset + descriptor_bytes)
                      (snd (memory_map_add out physical len (uefi_memory_kind ty phase))))
      else Some out)"

definition uefi_memory_parse ::
  "mem \<Rightarrow> u64 \<Rightarrow> usize \<Rightarrow> usize \<Rightarrow> uefi_phase \<Rightarrow> (bool \<times> memory_map) option" where
  "uefi_memory_parse m descriptors total_bytes descriptor_bytes phase =
     (let out = memory_map_clear
      in if descriptors = 0 \<or> total_bytes = 0 then Some (False, out)
         else if descriptor_bytes < UEFI_DESCRIPTOR_MIN_BYTES then Some (False, out)
         else if descriptor_bytes > UEFI_DESCRIPTOR_MAX_BYTES then Some (False, out)
         else do { out \<leftarrow> uefi_descriptors m descriptors total_bytes descriptor_bytes phase 0 out;
                   let out = memory_map_finalize out;
                   Some (memory_map_total out MEMORY_KIND_USABLE > 0, out) })"

subsection \<open>What a table says\<close>

text \<open>What the two specifications call the types of memory; every other type is reserved.\<close>

definition kind_or_reserved :: "memory_kind option \<Rightarrow> memory_kind" where
  "kind_or_reserved k = (case k of None \<Rightarrow> MEMORY_KIND_RESERVED | Some kind \<Rightarrow> kind)"

definition e820_meaning :: "nat \<Rightarrow> memory_kind" where
  "e820_meaning ty = kind_or_reserved
     (map_of [(1, MEMORY_KIND_USABLE), (3, MEMORY_KIND_ACPI_RECLAIMABLE), (4, MEMORY_KIND_ACPI_NVS), (5, MEMORY_KIND_BAD)] ty)"

definition uefi_meaning :: "uefi_phase \<Rightarrow> nat \<Rightarrow> memory_kind" where
  "uefi_meaning phase ty = kind_or_reserved
     (map_of ([(1, MEMORY_KIND_BOOTLOADER_RECLAIMABLE), (2, MEMORY_KIND_BOOTLOADER_RECLAIMABLE), (7, MEMORY_KIND_USABLE),
        (8, MEMORY_KIND_BAD), (9, MEMORY_KIND_ACPI_RECLAIMABLE), (10, MEMORY_KIND_ACPI_NVS)] @
        (case phase of UEFI_BEFORE_EXIT \<Rightarrow> [] | UEFI_AFTER_EXIT \<Rightarrow> [(3, MEMORY_KIND_USABLE), (4, MEMORY_KIND_USABLE)])) ty)"

lemma e820_kind_meaning: "e820_kind ty = e820_meaning (unat ty)"
  by (simp add: e820_kind_def e820_meaning_def word_unat_eq_iff kind_or_reserved_def)

lemma uefi_memory_kind_meaning: "uefi_memory_kind ty phase = uefi_meaning phase (unat ty)"
  by (cases phase) (simp_all add: uefi_memory_kind_def uefi_meaning_def word_unat_eq_iff kind_or_reserved_def)

text \<open>The entries of an E820 table of \<open>n\<close> rows, without those the firmware marks invalid.\<close>

definition e820_table :: "mem \<Rightarrow> u64 \<Rightarrow> nat \<Rightarrow> (u64 \<times> u64 \<times> memory_kind) list" where
  "e820_table m buffer n =
     (let row = (\<lambda>i. drop (24 * i) (load_bytes m buffer (24 * n)))
      in map (\<lambda>i. (le64 (row i) 0, le64 (row i) 8, e820_meaning (unat (le32 (row i) 16))))
           (filter (\<lambda>i. odd (unat (le32 (row i) 20))) [0..<n]))"

text \<open>The descriptors of a UEFI map with a stride, without those whose length is not a 64-bit number.\<close>

definition uefi_table :: "mem \<Rightarrow> u64 \<Rightarrow> nat \<Rightarrow> nat \<Rightarrow> uefi_phase \<Rightarrow> (u64 \<times> u64 \<times> memory_kind) list" where
  "uefi_table m base n stride phase =
     (let row = (\<lambda>i. load_bytes m (base + of_nat (stride * i)) stride)
      in map (\<lambda>i. (le64 (row i) 8, le64 (row i) 24 * 4096, uefi_meaning phase (unat (le32 (row i) 0))))
           (filter (\<lambda>i. unat (le64 (row i) 24) * 4096 < 2 ^ 64) [0..<n]))"

text \<open>A finalized map says whether anything is usable, and what it says is what the table claims.\<close>

lemma finalized_answer:
  "(memory_map_total (memory_map_finalize (add_entries es memory_map_clear)) MEMORY_KIND_USABLE > 0) =
   (\<exists>a. claim (regions (memory_map_finalize (add_entries es memory_map_clear))) a = Some MEMORY_KIND_USABLE)"
proof -
  let ?f = "memory_map_finalize (add_entries es memory_map_clear)"
  have "unat (memory_map_total ?f MEMORY_KIND_USABLE) = card {a. claim (regions ?f) a = Some MEMORY_KIND_USABLE}"
    using finalized_claims [of es] by (intro memory_map_total_card) blast
  then show ?thesis
    using claimed_finite [of "regions ?f" MEMORY_KIND_USABLE]
    by (simp add: word_less_nat_alt card_gt_0_iff)
qed

lemma add_entries_simps:
  "add_entries [] m = m"
  "add_entries ((b, n, k) # es) m = add_entries es (snd (memory_map_add m b n k))"
  by (simp_all add: add_entries_def)

lemma e820_entries_table:
  fixes m :: mem and buffer :: u64 and n i k :: nat and out :: memory_map
  defines "bs \<equiv> load_bytes m buffer (24 * n)"
  assumes n: "n \<le> 128" and i: "i + k = n"
  shows "e820_entries k \<lparr>rd_base = Some bs, rd_length = of_nat (24 * n), rd_position = of_nat (24 * i)\<rparr> out =
    add_entries (map (\<lambda>i. (le64 (drop (24 * i) bs) 0, le64 (drop (24 * i) bs) 8, e820_kind (le32 (drop (24 * i) bs) 16)))
      (filter (\<lambda>i. odd (unat (le32 (drop (24 * i) bs) 20))) [i..<n])) out"
  using i
proof (induction k arbitrary: i out)
  case 0
  then show ?case by (simp add: add_entries_simps)
next
  case (Suc k)
  define r where "r p = \<lparr>rd_base = Some bs, rd_length = of_nat (24 * n) :: u64, rd_position = of_nat p\<rparr>" for p
  have u: "unat (of_nat p :: u64) = p" if "p \<le> 24 * n" for p
    using that n by (intro unat_of_nat64) simp
  have i24: "24 * i + 24 \<le> 24 * n" using Suc.prems by linarith
  have le: "le64 (drop j bs) p = le64 bs (j + p)" "le32 (drop j bs) p = le32 bs (j + p)" for j p
    by (simp_all add: le64_def le32_def add.commute)
  have step64: "reader_u64 (r p) = Some (le64 bs p, r (p + 8))" if "p + 8 \<le> 24 * n" for p
    using reader_reads_at(2) [of "r p" bs] that u [of p] u [of "24 * n"] by (simp add: r_def)
  have step32: "reader_u32 (r p) = Some (le32 bs p, r (p + 4))" if "p + 4 \<le> 24 * n" for p
    using reader_reads_at(1) [of "r p" bs] that u [of p] u [of "24 * n"] by (simp add: r_def)
  have f: "e820_fields (r (24 * i)) =
      Some ((le64 bs (24 * i), le64 bs (24 * i + 8), le32 bs (24 * i + 16), le32 bs (24 * i + 20)), r (24 * i + 24))"
  proof -
    have "reader_u64 (r (24 * i)) = Some (le64 bs (24 * i), r (24 * i + 8))"
      "reader_u64 (r (24 * i + 8)) = Some (le64 bs (24 * i + 8), r (24 * i + 16))"
      "reader_u32 (r (24 * i + 16)) = Some (le32 bs (24 * i + 16), r (24 * i + 20))"
      "reader_u32 (r (24 * i + 20)) = Some (le32 bs (24 * i + 20), r (24 * i + 24))"
      using i24 step64 [of "24 * i"] step64 [of "24 * i + 8"] step32 [of "24 * i + 16"] step32 [of "24 * i + 20"]
      by (simp_all add: add.assoc)
    then show ?thesis by (simp only: e820_fields_def Option.bind.bind_lunit prod.case)
  qed
  have upt: "[i..<n] = i # [Suc i..<n]" using Suc.prems by (simp add: upt_conv_Cons)
  have IH: "e820_entries k (r (24 * i + 24)) out =
    add_entries (map (\<lambda>i. (le64 (drop (24 * i) bs) 0, le64 (drop (24 * i) bs) 8, e820_kind (le32 (drop (24 * i) bs) 16)))
      (filter (\<lambda>i. odd (unat (le32 (drop (24 * i) bs) 20))) [Suc i..<n])) out" for out
    using Suc.IH [of "Suc i" out] Suc.prems by (simp add: r_def add.commute)
  show ?case
    unfolding r_def [symmetric] e820_entries.simps f option.case prod.case IH odd_and_1 upt by (simp add: add_entries_simps le)
qed

lemma e820_parse_table:
  fixes m :: mem and n :: nat
  assumes "buffer \<noteq> 0" "n = min (unat number) 128" "n \<noteq> 0"
  defines "f \<equiv> memory_map_finalize (add_entries (e820_table m buffer n) memory_map_clear)"
  shows "e820_parse m buffer number = (memory_map_total f MEMORY_KIND_USABLE > 0, f)"
proof -
  let ?c = "if number > 128 then 128 else number :: u32"
  have c: "unat ?c = n" using assms(2) by (auto simp: word_less_nat_alt)
  have n: "n \<le> 128" using assms(2) by simp
  have cc: "unat (ucast ?c :: u64) = n" using c n by (simp add: unat_ucast_up del: if_split)
  have c0: "number \<noteq> 0" using assms(2,3) by auto
  have "(of_nat (24 * n) :: u64) = ucast ?c * 24"
    using word_eq_of_nat [OF cc] by simp
  then have mul: "checked_mul_size (ucast ?c) 24 = Some (of_nat (24 * n))"
    using cc n by (simp add: checked_mul_size_def unat_mult_fits del: if_split)
  have "unat (of_nat (24 * n) :: u64) = 24 * n" using n by (intro unat_of_nat64) simp
  then show ?thesis
    using assms(1) c0 e820_entries_table [OF n, of 0 n m buffer memory_map_clear] c
    by (simp add: e820_parse_def Let_def mul reader_init_def f_def e820_table_def e820_kind_meaning [symmetric] del: if_split)
qed

lemma uefi_fields_at:
  assumes "40 \<le> stride" "stride \<le> 1024"
  shows "uefi_descriptor_fields (reader_init (Some bs) (of_nat stride)) = Some (le32 bs 0, le64 bs 8, le64 bs 24)"
proof -
  have u: "unat (of_nat stride :: u64) = stride" using assms(2) by (intro unat_of_nat64) simp
  let ?r = "\<lambda>p. \<lparr>rd_base = Some bs, rd_length = of_nat stride :: u64, rd_position = p\<rparr>"
  have "reader_u32 (?r 0) = Some (le32 bs 0, ?r 4)" "reader_u64 (?r 8) = Some (le64 bs 8, ?r 16)"
    "reader_u64 (?r 24) = Some (le64 bs 24, ?r 32)"
    using reader_reads_at(1) [of "?r 0" bs] reader_reads_at(2) [of "?r 8" bs] reader_reads_at(2) [of "?r 24" bs] u assms(1)
    by simp_all
  moreover have "reader_init (Some bs) (of_nat stride) = ?r 0" by (simp add: reader_init_def)
  moreover have "reader_seek (?r p) q = Some (?r q)" if "unat q \<le> stride" for p q
    using that u by (simp add: reader_seek_def word_less_nat_alt)
  ultimately show ?thesis using assms(1) by (simp add: uefi_descriptor_fields_def)
qed

lemma uefi_descriptors_table:
  assumes st: "40 \<le> stride" "stride \<le> 1024" and t: "unat len div stride * stride + stride < 2 ^ 64" and n: "n = unat len div stride" and i: "i \<le> n"
  shows "uefi_descriptors m base len (of_nat stride) phase (of_nat (stride * i)) out =
    Some (add_entries (map (\<lambda>i. let row = load_bytes m (base + of_nat (stride * i)) stride
       in (le64 row 8, le64 row 24 * 4096, uefi_memory_kind (le32 row 0) phase))
      (filter (\<lambda>i. unat (le64 (load_bytes m (base + of_nat (stride * i)) stride) 24) * 4096 < 2 ^ 64) [i..<n])) out)"
  using i
proof (induction "n - i" arbitrary: i out)
  case 0
  then have "i = n" by simp
  have le: "stride * n \<le> unat len" "unat len < stride * n + stride"
    unfolding n using st dividend_less_times_div [of stride "unat len"] by (simp_all add: ac_simps)
  have "unat (of_nat (stride * n) + of_nat stride :: u64) = stride * n + stride"
    using unat_of_nat64 [of "stride * n + stride"] t unfolding n by (simp add: mult.commute)
  then have "\<not> of_nat (stride * n) + of_nat stride \<le> len" using le by (simp add: word_le_nat_alt)
  then show ?case using \<open>i = n\<close> by (subst uefi_descriptors.simps) (simp add: add_entries_simps)
next
  case (Suc d)
  then have lt: "i < n" by simp
  then have "stride * i + stride \<le> stride * n" by (metis Suc_leI add.commute mult_Suc_right mult_le_mono2)
  also have "stride * n \<le> unat len" unfolding n by simp
  finally have le: "stride * i + stride \<le> unat len" .
  have eq: "of_nat (stride * i) + of_nat stride = (of_nat (stride * Suc i) :: u64)" by simp
  have "unat (of_nat (stride * Suc i) :: u64) = stride * Suc i"
    using le_less_trans [OF le unat_lt64] by (intro unat_of_nat64) (simp add: add.commute)
  then have go: "(of_nat (stride * Suc i) :: u64) \<le> len" using le by (simp add: word_le_nat_alt)
  have us: "unat (of_nat stride :: u64) = stride" using st by (intro unat_of_nat64) simp
  have upt: "[i..<n] = i # [Suc i..<n]" using lt by (simp add: upt_conv_Cons)
  have IH: "uefi_descriptors m base len (of_nat stride) phase (of_nat (stride * Suc i)) out =
    Some (add_entries (map (\<lambda>i. let row = load_bytes m (base + of_nat (stride * i)) stride
       in (le64 row 8, le64 row 24 * 4096, uefi_memory_kind (le32 row 0) phase))
      (filter (\<lambda>i. unat (le64 (load_bytes m (base + of_nat (stride * i)) stride) 24) * 4096 < 2 ^ 64) [Suc i..<n])) out)" for out
    by (rule Suc.hyps(1)) (use Suc.hyps(2) lt in simp_all)
  let ?row = "load_bytes m (base + of_nat (stride * i)) stride"
  show ?case
  proof (cases "unat (le64 ?row 24) * 4096 < 2 ^ 64")
    case True
    then have "checked_mul_u64 (le64 ?row 24) 4096 = Some (le64 ?row 24 * 4096)" by (simp add: checked_mul_u64_def)
    then show ?thesis using True go
      by (subst uefi_descriptors.simps)
        (simp only: eq us Let_def uefi_fields_at [OF st] option.case prod.case IH upt if_True filter.simps list.map add_entries_simps)
  next
    case False
    then have "checked_mul_u64 (le64 ?row 24) 4096 = None" by (simp add: checked_mul_u64_def)
    then show ?thesis using False go
      by (subst uefi_descriptors.simps)
        (simp only: eq us Let_def uefi_fields_at [OF st] option.case prod.case IH upt if_True if_False filter.simps list.map)
  qed
qed

lemma uefi_memory_parse_table:
  fixes m :: mem and phase :: uefi_phase
  assumes "descriptors \<noteq> 0" "len \<noteq> 0" "40 \<le> stride" "stride \<le> 1024" "unat len div stride * stride + stride < 2 ^ 64"
  defines "f \<equiv> memory_map_finalize (add_entries (uefi_table m descriptors (unat len div stride) stride phase) memory_map_clear)"
  shows "uefi_memory_parse m descriptors len (of_nat stride) phase = Some (memory_map_total f MEMORY_KIND_USABLE > 0, f)"
proof -
  have u: "unat (of_nat stride :: u64) = stride" using assms(4) by (intro unat_of_nat64) simp
  then have "\<not> of_nat stride < (40 :: u64)" "\<not> of_nat stride > (1024 :: u64)"
    using assms(3,4) by (simp_all add: word_less_nat_alt)
  then show ?thesis
    using uefi_descriptors_table [OF assms(3,4,5) refl, of 0 m descriptors phase memory_map_clear] assms(1,2)
    by (simp add: uefi_memory_parse_def f_def uefi_table_def uefi_memory_kind_meaning [symmetric] Let_def)
qed

text \<open>
  C34. Whatever the firmware left in the E820 buffer, the map is the finalized claims of its valid rows, at most 128 of
  them, and the answer is false exactly when no byte of the machine is usable.
\<close>

theorem e820_parse_exact:
  "case e820_parse m buffer number of
     (ok, out) \<Rightarrow>
       let es = e820_table m buffer (if buffer = 0 then 0 else min (unat number) 128)
       in out = memory_map_finalize (add_entries es memory_map_clear) \<and>
          (truncated out \<or> claim (regions out) = entries_claim es) \<and>
          ok = (\<exists>a. claim (regions out) a = Some MEMORY_KIND_USABLE)"
proof (cases "buffer = 0 \<or> number = 0")
  case True
  then have "(if buffer = 0 then 0 else min (unat number) 128) = 0" by auto
  moreover have "e820_parse m buffer number = (False, memory_map_clear)" using True by (auto simp: e820_parse_def)
  ultimately show ?thesis
    by (simp add: e820_table_def add_entries_simps memory_map_clear_def memory_map_finalize_def entries_claim_def fun_eq_iff)
next
  case False
  then have "min (unat number) 128 \<noteq> 0" by (auto simp: min_def unat_gt_0)
  with e820_parse_table [OF _ refl this, of buffer m] False show ?thesis
    using finalized_claims by (simp add: Let_def finalized_answer)
qed

text \<open>
  C35. As long as the end of the descriptor behind the last whole one is a 64-bit number, the loop over the UEFI
  descriptors ends, at the stride the firmware reports, and the map is the finalized claims of the whole descriptors
  whose length is a 64-bit number, with the kinds of the phase; the answer is false exactly when no byte is usable.
  Without that \<open>offset + descriptor_bytes\<close> wraps around, and the loop need not end
  (lemma \<open>uefi_descriptors_forever\<close>).
\<close>

theorem uefi_memory_parse_exact:
  assumes "unat len div unat stride * unat stride + unat stride < 2 ^ 64"
  shows "\<exists>ok out. uefi_memory_parse m descriptors len stride phase = Some (ok, out) \<and>
    (let es = (if descriptors = 0 \<or> unat stride < 40 \<or> 1024 < unat stride then []
               else uefi_table m descriptors (unat len div unat stride) (unat stride) phase)
     in out = memory_map_finalize (add_entries es memory_map_clear) \<and>
        (truncated out \<or> claim (regions out) = entries_claim es) \<and>
        ok = (\<exists>a. claim (regions out) a = Some MEMORY_KIND_USABLE))"
proof -
  let ?n = "unat len div unat stride"
  have clear: "memory_map_finalize memory_map_clear = memory_map_clear" "regions memory_map_clear = []"
    by (simp_all add: memory_map_finalize_def memory_map_clear_def)
  consider "descriptors = 0 \<or> unat stride < 40 \<or> 1024 < unat stride"
    | "descriptors \<noteq> 0" "len = 0" "40 \<le> unat stride" "unat stride \<le> 1024"
    | "descriptors \<noteq> 0" "len \<noteq> 0" "40 \<le> unat stride" "unat stride \<le> 1024" by linarith
  then show ?thesis
  proof cases
    case 1
    then have "uefi_memory_parse m descriptors len stride phase = Some (False, memory_map_clear)"
      by (auto simp: uefi_memory_parse_def Let_def word_less_nat_alt)
    moreover have "(if descriptors = 0 \<or> unat stride < 40 \<or> 1024 < unat stride then []
        else uefi_table m descriptors ?n (unat stride) phase) = []" using 1 by simp
    ultimately show ?thesis by (simp only: Let_def add_entries_simps clear) (auto simp: clear entries_claim_def)
  next
    case 2
    then show ?thesis
      by (auto simp: uefi_memory_parse_def uefi_table_def add_entries_simps clear entries_claim_def)
  next
    case 3
    note run = uefi_memory_parse_table [OF 3 assms, of m phase]
    have "\<not> (descriptors = 0 \<or> unat stride < 40 \<or> 1024 < unat stride)" using 3 by linarith
    then show ?thesis using run finalized_claims by (simp add: Let_def finalized_answer)
  qed
qed

definition demo_descriptor :: mem where
  "demo_descriptor = store_bytes (\<lambda>_. 0) 0x1000
     (le_bytes 4 7 @ le_bytes 4 0 @ le_bytes 8 0x100000 @ le_bytes 8 0 @ le_bytes 8 16 @ le_bytes 8 0)"

theorem uefi_memory_parse_exact_witness:
  "\<exists>ok out. uefi_memory_parse demo_descriptor 0x1000 79 40 UEFI_BEFORE_EXIT = Some (ok, out) \<and>
     out = memory_map_finalize (add_entries [(0x100000, 0x10000, MEMORY_KIND_USABLE)] memory_map_clear)"
proof -
  have "load_bytes demo_descriptor 0x1000 40 = le_bytes 4 7 @ le_bytes 4 0 @ le_bytes 8 0x100000 @ le_bytes 8 0 @ le_bytes 8 16 @ le_bytes 8 0"
    using load_store_bytes [of "le_bytes 4 7 @ le_bytes 4 0 @ le_bytes 8 0x100000 @ le_bytes 8 0 @ le_bytes 8 16 @ le_bytes 8 0"]
    by (simp add: demo_descriptor_def)
  then have "uefi_table demo_descriptor 0x1000 1 40 UEFI_BEFORE_EXIT = [(0x100000, 0x10000, MEMORY_KIND_USABLE)]"
    by (simp add: uefi_table_def le64_def le32_def little_endian_append little_endian_le_bytes uefi_meaning_def
        kind_or_reserved_def take_bit_word_eq_self)
  then show ?thesis
    using uefi_memory_parse_exact [where len = 79 and m = demo_descriptor and descriptors = "0x1000" and stride = 40 and phase = UEFI_BEFORE_EXIT] by (auto simp: Let_def)
qed

text \<open>A length at the end of the address space, which no offset exceeds: the loop over it does not end.\<close>

lemma uefi_descriptors_forever:
  assumes "40 \<le> stride" "stride \<le> 1024"
  shows "uefi_descriptors m base (- 1) (of_nat stride) phase offset out = None"
proof -
  have "uefi_descriptors m base total db phase offset out = Some res \<Longrightarrow> total = - 1 \<and> db = of_nat stride \<longrightarrow> False"
    for m base total db phase offset out res
  proof (rule uefi_descriptors.raw_induct
      [where P = "\<lambda>m base total db phase offset out res. total = - 1 \<and> db = of_nat stride \<longrightarrow> False"], goal_cases)
    case (1 loop m base total db phase offset out res)
    then show ?case by (auto simp: Let_def uefi_fields_at [OF assms] split: option.splits dest: 1(2))
  qed
  then show ?thesis by (metis option.exhaust)
qed

text \<open>Memory that is free before boot services end is free after it.\<close>

lemma uefi_memory_kind_phase: "uefi_memory_kind ty UEFI_AFTER_EXIT \<le> uefi_memory_kind ty UEFI_BEFORE_EXIT"
  by (simp add: uefi_memory_kind_def less_eq_memory_kind_def)

end
