(* ===== verification/Firmware_Video.thy ===== *)
theory Firmware_Video
  imports Reader Framebuffer
begin

text \<open>
  \<open>src/fw/bios/vbe.c\<close> and \<open>src/fw/uefi/graphics.c\<close>: what VBE or the Graphics Output Protocol says a mode
  is, turned into a framebuffer. \<open>None\<close> is a mode that is refused.
\<close>

subsection \<open>VBE\<close>

abbreviation (input) VBE_ATTRIBUTES_OFFSET :: u64 where "VBE_ATTRIBUTES_OFFSET \<equiv> 0x00"
abbreviation (input) VBE_PITCH_OFFSET :: u64 where "VBE_PITCH_OFFSET \<equiv> 0x10"
abbreviation (input) VBE_BITS_PER_PIXEL_OFFSET :: u64 where "VBE_BITS_PER_PIXEL_OFFSET \<equiv> 0x19"
abbreviation (input) VBE_MEMORY_MODEL_OFFSET :: u64 where "VBE_MEMORY_MODEL_OFFSET \<equiv> 0x1B"
abbreviation (input) VBE_RED_BITS_OFFSET :: u64 where "VBE_RED_BITS_OFFSET \<equiv> 0x1F"
abbreviation (input) VBE_FRAMEBUFFER_OFFSET :: u64 where "VBE_FRAMEBUFFER_OFFSET \<equiv> 0x28"
abbreviation (input) VBE_MODE_INFO_BYTES :: usize where "VBE_MODE_INFO_BYTES \<equiv> 256"
abbreviation (input) VBE_ATTRIBUTE_SUPPORTED :: u16 where "VBE_ATTRIBUTE_SUPPORTED \<equiv> 0x01"
abbreviation (input) VBE_ATTRIBUTE_GRAPHICS :: u16 where "VBE_ATTRIBUTE_GRAPHICS \<equiv> 0x10"
abbreviation (input) VBE_ATTRIBUTE_LINEAR :: u16 where "VBE_ATTRIBUTE_LINEAR \<equiv> 0x80"
abbreviation (input) VBE_MEMORY_MODEL_DIRECT_COLOUR :: u8 where "VBE_MEMORY_MODEL_DIRECT_COLOUR \<equiv> 6"

definition vbe_describe :: "mem \<Rightarrow> u64 \<Rightarrow> framebuffer option" where
  "vbe_describe m mode_info =
     do { ensure (mode_info \<noteq> 0);
          let r = reader_init (Some (load_bytes m mode_info (unat VBE_MODE_INFO_BYTES))) VBE_MODE_INFO_BYTES;
          r \<leftarrow> reader_seek r VBE_ATTRIBUTES_OFFSET;
          (attributes, r) \<leftarrow> reader_u16 r;
          r \<leftarrow> reader_seek r VBE_PITCH_OFFSET;
          (p, r) \<leftarrow> reader_u16 r;
          (w, r) \<leftarrow> reader_u16 r;
          (h, r) \<leftarrow> reader_u16 r;
          r \<leftarrow> reader_seek r VBE_BITS_PER_PIXEL_OFFSET;
          (bpp, r) \<leftarrow> reader_u8 r;
          r \<leftarrow> reader_seek r VBE_MEMORY_MODEL_OFFSET;
          (memory_model, r) \<leftarrow> reader_u8 r;
          ensure (attributes AND VBE_ATTRIBUTE_SUPPORTED \<noteq> 0);
          ensure (attributes AND VBE_ATTRIBUTE_GRAPHICS \<noteq> 0);
          ensure (attributes AND VBE_ATTRIBUTE_LINEAR \<noteq> 0);
          ensure (memory_model = VBE_MEMORY_MODEL_DIRECT_COLOUR);
          r \<leftarrow> reader_seek r VBE_RED_BITS_OFFSET;
          (red_bits, r) \<leftarrow> reader_u8 r;
          (red_shift, r) \<leftarrow> reader_u8 r;
          (green_bits, r) \<leftarrow> reader_u8 r;
          (green_shift, r) \<leftarrow> reader_u8 r;
          (blue_bits, r) \<leftarrow> reader_u8 r;
          (blue_shift, r) \<leftarrow> reader_u8 r;
          r \<leftarrow> reader_seek r VBE_FRAMEBUFFER_OFFSET;
          (base, r) \<leftarrow> reader_u32 r;
          ensure (base \<noteq> 0);
          let out = \<lparr>fb_base = ucast base, width = ucast w, height = ucast h, pitch = ucast p,
                     bits_per_pixel = ucast bpp, red = \<lparr>shift = red_shift, bits = red_bits\<rparr>,
                     green = \<lparr>shift = green_shift, bits = green_bits\<rparr>,
                     blue = \<lparr>shift = blue_shift, bits = blue_bits\<rparr>\<rparr>;
          ensure (framebuffer_valid out);
          Some out }"

subsection \<open>Graphics Output Protocol\<close>

abbreviation (input) UEFI_PIXEL_RGB_RESERVED_8 :: u32 where "UEFI_PIXEL_RGB_RESERVED_8 \<equiv> 0"
abbreviation (input) UEFI_PIXEL_BGR_RESERVED_8 :: u32 where "UEFI_PIXEL_BGR_RESERVED_8 \<equiv> 1"
abbreviation (input) UEFI_PIXEL_BIT_MASK :: u32 where "UEFI_PIXEL_BIT_MASK \<equiv> 2"
abbreviation (input) UEFI_GRAPHICS_BITS_PER_PIXEL :: u32 where "UEFI_GRAPHICS_BITS_PER_PIXEL \<equiv> 32"
abbreviation (input) BITS_PER_UINT32 :: u32 where "BITS_PER_UINT32 \<equiv> 32"

record uefi_pixel_masks =
  red_mask :: u32
  green_mask :: u32
  blue_mask :: u32
  reserved_mask :: u32

text \<open>The two loops of \<open>uefi_channel_from_mask\<close>.\<close>

partial_function (option) skip_zeros :: "u32 \<Rightarrow> u32 \<Rightarrow> (u32 \<times> u32) option" where
  "skip_zeros x s = (if x AND 1 = 0 then skip_zeros (drop_bit 1 x) (s + 1) else Some (x, s))"

partial_function (option) take_ones :: "u32 \<Rightarrow> u32 \<Rightarrow> (u32 \<times> u32) option" where
  "take_ones x n = (if x AND 1 \<noteq> 0 then take_ones (drop_bit 1 x) (n + 1) else Some (x, n))"

definition uefi_channel_from_mask :: "u32 \<Rightarrow> framebuffer_channel option option" where
  "uefi_channel_from_mask x =
     (if x = 0 then Some None
      else do { (x, s) \<leftarrow> skip_zeros x 0;
                (x, n) \<leftarrow> take_ones x 0;
                Some (if x \<noteq> 0 then None
                      else if n > ucast FRAMEBUFFER_CHANNEL_MAX_BITS then None
                      else if s + n > BITS_PER_UINT32 then None
                      else Some \<lparr>shift = ucast s, bits = ucast n\<rparr>) })"

definition mask_channels ::
  "uefi_pixel_masks \<Rightarrow> (framebuffer_channel \<times> framebuffer_channel \<times> framebuffer_channel) option option" where
  "mask_channels masks =
     do { r \<leftarrow> uefi_channel_from_mask (red_mask masks);
          g \<leftarrow> uefi_channel_from_mask (green_mask masks);
          b \<leftarrow> uefi_channel_from_mask (blue_mask masks);
          Some (do { r \<leftarrow> r; g \<leftarrow> g; b \<leftarrow> b;
                     ensure (red_mask masks AND green_mask masks = 0);
                     ensure (red_mask masks AND blue_mask masks = 0);
                     ensure (green_mask masks AND blue_mask masks = 0);
                     Some (r, g, b) }) }"

text \<open>The switch over the pixel format: red, green, blue.\<close>

definition mode_channels ::
  "u32 \<Rightarrow> uefi_pixel_masks option \<Rightarrow> (framebuffer_channel \<times> framebuffer_channel \<times> framebuffer_channel) option option" where
  "mode_channels pixel_format masks =
     (if pixel_format = UEFI_PIXEL_RGB_RESERVED_8 then
        Some (Some (\<lparr>shift = 0, bits = 8\<rparr>, \<lparr>shift = 8, bits = 8\<rparr>, \<lparr>shift = 16, bits = 8\<rparr>))
      else if pixel_format = UEFI_PIXEL_BGR_RESERVED_8 then
        Some (Some (\<lparr>shift = 16, bits = 8\<rparr>, \<lparr>shift = 8, bits = 8\<rparr>, \<lparr>shift = 0, bits = 8\<rparr>))
      else if pixel_format = UEFI_PIXEL_BIT_MASK then
        (case masks of None \<Rightarrow> Some None | Some masks \<Rightarrow> mask_channels masks)
      else Some None)"

definition uefi_graphics_describe ::
  "u32 \<Rightarrow> uefi_pixel_masks option \<Rightarrow> u32 \<Rightarrow> u32 \<Rightarrow> u32 \<Rightarrow> u64 \<Rightarrow> framebuffer option option" where
  "uefi_graphics_describe pixel_format masks w h pixels_per_scanline base =
     (if base = 0 then Some None
      else if w = 0 \<or> h = 0 then Some None
      else if pixels_per_scanline < w then Some None
      else do {
        channels \<leftarrow> mode_channels pixel_format masks;
        Some (do {
          (r, g, b) \<leftarrow> channels;
          p \<leftarrow> checked_mul_u64 (ucast pixels_per_scanline)
                 (ucast (UEFI_GRAPHICS_BITS_PER_PIXEL div FRAMEBUFFER_BITS_PER_BYTE));
          ensure (\<not> p > 0xFFFFFFFF);
          let out = \<lparr>fb_base = base, width = w, height = h, pitch = ucast p,
                     bits_per_pixel = UEFI_GRAPHICS_BITS_PER_PIXEL, red = r, green = g, blue = b\<rparr>;
          ensure (framebuffer_valid out);
          Some out }) })"

subsection \<open>Masks\<close>

lemma unat_shift_right: "unat (drop_bit 1 (x :: u32)) = unat x div 2"
  by (simp only: unsigned_drop_bit_eq) (simp add: drop_bit_eq_div take_bit_nat_eq_self)

lemma skip_zeros_run: "unat x = 2 ^ k * q \<Longrightarrow> odd q \<Longrightarrow> skip_zeros x s = Some (of_nat q, s + of_nat k)"
proof (induction k arbitrary: x s)
  case 0
  then show ?case by (subst skip_zeros.simps) (auto simp: odd_and_1 dest: word_eq_of_nat)
next
  case (Suc k)
  have "unat (drop_bit 1 x) = 2 ^ k * q" using Suc.prems(1) by (simp only: unat_shift_right) simp
  from Suc.IH [OF this Suc.prems(2), of "s + 1"] show ?case
    using Suc.prems(1) by (subst skip_zeros.simps) (simp add: odd_and_1 add.assoc)
qed

lemma take_ones_run: "unat x + 1 = 2 ^ k * q \<Longrightarrow> odd q \<Longrightarrow> take_ones x n = Some (of_nat (q - 1), n + of_nat k)"
proof (induction k arbitrary: x n)
  case 0
  then have "unat x = q - 1" by simp
  moreover have "even (q - 1)" using 0 by simp
  ultimately show ?case by (subst take_ones.simps) (auto simp: odd_and_1 dest: word_eq_of_nat)
next
  case (Suc k)
  have q: "1 \<le> 2 ^ k * q" using Suc.prems(2) odd_pos [of q] by (simp add: Suc_le_eq)
  have um: "unat x = 2 * (2 ^ k * q) - 1" using Suc.prems(1) by simp
  then have "unat (drop_bit 1 x) + 1 = 2 ^ k * q" using q by (simp only: unat_shift_right)
  from Suc.IH [OF this Suc.prems(2), of "n + 1"] show ?case
    using um q by (subst take_ones.simps) (simp add: odd_and_1 add.assoc)
qed

lemma odd_part: "0 < n \<Longrightarrow> \<exists>k q. n = 2 ^ k * q \<and> odd (q :: nat)"
proof (induction n rule: less_induct)
  case (less n)
  show ?case
  proof (cases "odd n")
    case True
    then show ?thesis by (intro exI [of _ 0] exI [of _ n]) simp
  next
    case False
    then obtain h where h: "n = 2 * h" by blast
    with less.IH [of h] less.prems obtain k q where "h = 2 ^ k * q" "odd q" by auto
    with h show ?thesis by (intro exI [of _ "Suc k"] exI [of _ q]) simp
  qed
qed

lemma odd_part_unique: "2 ^ s * p = 2 ^ t * q \<Longrightarrow> odd p \<Longrightarrow> odd q \<Longrightarrow> s = t \<and> p = (q :: nat)"
proof (induction s t rule: diff_induct)
  case (1 s)
  then show ?case by (cases s) auto
next
  case (2 t)
  then show ?case by auto
next
  case (3 s t)
  then show ?case by simp
qed

lemma byte_of_nat: "ucast (of_nat k :: u32) = (of_nat k :: u8)"
  by (rule bit_word_eqI) (simp add: bit_simps)

lemma mask_parts:
  assumes "unat (x :: u32) = 2 ^ s * p" "odd p" "p + 1 = 2 ^ b * q" "odd q"
  shows "1 \<le> b \<and> (q = 1 \<longrightarrow> s + b \<le> 32) \<and> b \<le> 32 \<and> s < 32 \<and>
    uefi_channel_from_mask x =
      Some (if q = 1 \<and> b \<le> 8 then Some \<lparr>shift = of_nat s, bits = of_nat b\<rparr> else None)"
proof -
  have x: "x \<noteq> 0" using assms(1,2) by auto
  have p: "0 < p" using assms(2) by (rule odd_pos)
  have b: "1 \<le> b" using assms(2,3,4) by (cases b) auto
  have lt: "2 ^ s * p < 2 ^ 32" using assms(1) unat_lt32 [of x] by simp
  have "2 ^ s * 1 \<le> 2 ^ s * p" using p by (intro mult_le_mono2) simp
  then have "(2 :: nat) ^ s < 2 ^ 32" using lt by linarith
  then have s: "s < 32" by (rule power_less_imp_less_exp [rotated]) simp
  have pl: "p < 2 ^ 32"
  proof -
    have "1 * p \<le> 2 ^ s * p" by (intro mult_le_mono1) simp
    then show ?thesis using lt by linarith
  qed
  have "2 ^ b * 1 \<le> 2 ^ b * q" using odd_pos [OF assms(4)] by (intro mult_le_mono2) simp
  then have "(2 :: nat) ^ b \<le> 2 ^ 32" using pl assms(3) by linarith
  then have b32: "b \<le> 32" by (rule power_le_imp_le_exp [rotated]) simp
  have sb: "s + b \<le> 32" if "q = 1"
  proof (rule ccontr)
    assume "\<not> s + b \<le> 32"
    then have "(2 :: nat) ^ 33 \<le> 2 ^ (s + b)" by (intro power_increasing) simp_all
    moreover have "2 ^ (s + b) = 2 ^ s * p + 2 ^ s" 
    proof -
      have "2 ^ b = p + 1" using assms(3) that by simp
      then show ?thesis by (simp add: power_add)
    qed
    moreover have "(2 :: nat) ^ s \<le> 2 ^ 31" using s by (intro power_increasing) simp_all
    ultimately show False using lt by simp
  qed
  have up: "unat (of_nat p :: u32) = p" using pl by (simp add: unat_of_nat)
  have z: "skip_zeros x 0 = Some (of_nat p, of_nat s)" using skip_zeros_run [OF assms(1,2), of 0] by simp
  have o: "take_ones (of_nat p) 0 = Some (of_nat (q - 1), of_nat b)"
    using take_ones_run [of "of_nat p :: u32", OF _ assms(4), of b 0] up assms(3) by simp
  have "q \<le> 2 ^ b * q" by simp
  then have ql: "q - 1 < 2 ^ 32" using pl assms(3) by linarith
  then have "unat (of_nat (q - 1) :: u32) = q - 1"
    by (simp only: unat_of_nat) (simp add: take_bit_nat_eq_self)
  then have q0: "(of_nat (q - 1) :: u32) = 0 \<longleftrightarrow> q = 1"
    using odd_pos [OF assms(4)] by (simp only: word_unat_eq_iff unat_0) linarith
  have ub: "unat (of_nat b :: u32) = b" "unat (of_nat s :: u32) = s" using b32 s by (simp_all add: unat_of_nat)
  have b8: "(of_nat b :: u32) > 8 \<longleftrightarrow> \<not> b \<le> 8" using ub by (auto simp: word_less_nat_alt)
  have s32: "(of_nat s + of_nat b :: u32) > 32 \<longleftrightarrow> \<not> s + b \<le> 32"
  proof -
    have "unat (of_nat s + of_nat b :: u32) = s + b" using ub s b32 by (subst unat_add_fits) simp_all
    then show ?thesis by (auto simp: word_less_nat_alt)
  qed
  have "uefi_channel_from_mask x =
      Some (if q = 1 \<and> b \<le> 8 then Some \<lparr>shift = of_nat s, bits = of_nat b\<rparr> else None)"
    using x sb b8 s32 by (simp add: uefi_channel_from_mask_def z o q0 [simplified] byte_of_nat)
  with b sb b32 s show ?thesis by blast
qed

text \<open>
  C36. The two loops over a channel mask always end, and the mask is accepted exactly when it is between one and eight
  adjacent bits: then the channel is the one whose bits they are, and it lies inside the 32 bits of a pixel.
\<close>

theorem uefi_channel_from_mask_exact:
  "\<exists>res. uefi_channel_from_mask x = Some res \<and>
    (case res of
       Some c \<Rightarrow> 1 \<le> unat (bits c) \<and> unat (bits c) \<le> 8 \<and> unat (shift c) + unat (bits c) \<le> 32 \<and>
         unat x = (2 ^ unat (bits c) - 1) * 2 ^ unat (shift c)
     | None \<Rightarrow> \<not> (\<exists>b s. 1 \<le> b \<and> b \<le> 8 \<and> unat x = (2 ^ b - 1) * 2 ^ s))"
proof (cases "x = 0")
  case True
  have "(2 :: nat) ^ b - 1 \<noteq> 0" if "1 \<le> b" for b
    using that power_increasing [of 1 b "2 :: nat"] by simp
  then show ?thesis using True by (auto simp: uefi_channel_from_mask_def)
next
  case False
  then obtain s p where sp: "unat x = 2 ^ s * p" "odd p" using odd_part [of "unat x"] by (auto simp: unat_gt_0)
  obtain b q where bq: "p + 1 = 2 ^ b * q" "odd q" using odd_part [of "p + 1"] by auto
  note parts = mask_parts [OF sp bq]
  show ?thesis
  proof (cases "q = 1 \<and> b \<le> 8")
    case True
    have "unat (of_nat b :: u8) = b" "unat (of_nat s :: u8) = s" using parts True by (simp_all add: unat_of_nat)
    moreover have "p = 2 ^ b - 1" using bq(1) True by simp
    ultimately show ?thesis using parts True sp(1) by (simp add: mult.commute)
  next
    case no: False
    have False if h: "1 \<le> b'" "b' \<le> 8" "unat x = (2 ^ b' - 1) * 2 ^ s'" for b' s' :: nat
    proof -
      have pos: "(1 :: nat) \<le> 2 ^ b'" by simp
      have "odd (2 ^ b' - 1 :: nat)" using h(1) pos by (simp add: even_diff_nat)
      moreover have "2 ^ s * p = 2 ^ s' * (2 ^ b' - 1)" using h(3) sp(1) by (simp add: mult.commute)
      ultimately have "p = 2 ^ b' - 1" using odd_part_unique sp(2) by blast
      then have "2 ^ b * q = 2 ^ b' * 1" using bq(1) pos by simp
      then have "b = b' \<and> q = 1" using odd_part_unique [OF _ bq(2)] by simp
      then show False using no h(2) by simp
    qed
    then show ?thesis using parts no by auto
  qed
qed

text \<open>
  A mode that is described, whatever the firmware said about it, is a framebuffer the drawing code accepts, with the
  geometry that was reported; \<open>None\<close> outside is a loop that does not end.
\<close>

lemma uefi_graphics_describe_valid:
  "\<exists>res. uefi_graphics_describe pixel_format masks w h pixels_per_scanline base = Some res \<and>
    (case res of None \<Rightarrow> True
     | Some fb \<Rightarrow> framebuffer_valid fb \<and> fb_base fb = base \<and> width fb = w \<and> height fb = h \<and>
         unat (pitch fb) = 4 * unat pixels_per_scanline \<and> bits_per_pixel fb = 32)"
proof -
  obtain channels where c: "mode_channels pixel_format masks = Some channels"
  proof -
    have "\<exists>res. mask_channels ms = Some res" for ms
    proof -
      have ends: "\<exists>res. uefi_channel_from_mask x = Some res" for x
      proof (cases "x = 0")
        case False
        then obtain s p where sp: "unat x = 2 ^ s * p" "odd p" using odd_part [of "unat x"] by (auto simp: unat_gt_0)
        obtain b q where bq: "p + 1 = 2 ^ b * q" "odd q" using odd_part [of "p + 1"] by auto
        then show ?thesis using mask_parts [OF sp bq] by blast
      qed (simp add: uefi_channel_from_mask_def)
      obtain r g b where "uefi_channel_from_mask (red_mask ms) = Some r"
        "uefi_channel_from_mask (green_mask ms) = Some g" "uefi_channel_from_mask (blue_mask ms) = Some b"
        using ends by blast
      then show ?thesis by (simp add: mask_channels_def)
    qed
    then have "\<exists>channels. mode_channels pixel_format masks = Some channels"
      by (cases masks) (simp_all add: mode_channels_def)
    then show thesis using that by blast
  qed
  have p: "unat (ucast p :: u32) = 4 * unat pixels_per_scanline"
    if "checked_mul_u64 (ucast pixels_per_scanline) 4 = Some p" "\<not> p > 0xFFFFFFFF" for p
  proof -
    have "unat p = unat (ucast pixels_per_scanline :: u64) * 4" using that(1) checked_mul_u64_Some by fastforce
    moreover have "unat (ucast p :: u32) = unat p" using that(2) by (simp add: word_less_nat_alt unat_ucast_down)
    ultimately show ?thesis by (simp add: unat_ucast_up)
  qed
  show ?thesis
    unfolding uefi_graphics_describe_def c
    by (auto simp: opt_bind p Let_def split: option.splits)
qed

end
