(* ===== verification/Firmware.thy ===== *)
theory Firmware
  imports Firmware_Memory Firmware_Video Acpi
begin

text \<open>
  \<open>src/fw/fw.c\<close>, \<open>src/fw/bios/fw_bios.c\<close> and \<open>src/fw/uefi/fw_uefi.c\<close>: the operations the core asks of the
  firmware, and the two backends. An operation is a function on the state \<open>'s\<close> of what lies behind it; the
  outer \<open>None\<close> of a result is a call that does not return. What the UEFI firmware does is a parameter, the
  record \<open>efi_boot_services\<close> of the functions the code calls.
\<close>

subsection \<open>The interface\<close>

record 's fw_ops =
  ops_name :: "string option"
  mem_snapshot :: "(memory_map \<Rightarrow> 's \<Rightarrow> ((bool \<times> memory_map) \<times> 's) option) option"
  fw_read :: "(u64 \<Rightarrow> u32 \<Rightarrow> 's \<Rightarrow> (u8 list option \<times> 's) option) option"
  console_write :: "(string \<Rightarrow> 's \<Rightarrow> 's option) option"
  rsdp_locate :: "('s \<Rightarrow> (u64 \<times> 's) option) option"
  framebuffer_acquire :: "('s \<Rightarrow> (framebuffer option \<times> 's) option) option"

definition FW_NAME_UNKNOWN :: string where "FW_NAME_UNKNOWN = ''unknown''"

definition fw_mem_snapshot :: "'s fw_ops option \<Rightarrow> memory_map \<Rightarrow> 's \<Rightarrow> ((bool \<times> memory_map) \<times> 's) option" where
  "fw_mem_snapshot fw out s =
     (case fw of None \<Rightarrow> Some ((False, out), s)
      | Some ops \<Rightarrow> (case mem_snapshot ops of None \<Rightarrow> Some ((False, out), s)
          | Some f \<Rightarrow> f memory_map_clear s))"

definition fw_block_read :: "'s fw_ops option \<Rightarrow> u64 \<Rightarrow> u32 \<Rightarrow> 's \<Rightarrow> (u8 list option \<times> 's) option" where
  "fw_block_read fw lba sectors s =
     (case fw of None \<Rightarrow> Some (None, s)
      | Some ops \<Rightarrow> (case fw_read ops of None \<Rightarrow> Some (None, s)
          | Some f \<Rightarrow> if sectors = 0 then Some (None, s) else f lba sectors s))"

definition fw_console_write :: "'s fw_ops option \<Rightarrow> string option \<Rightarrow> 's \<Rightarrow> 's option" where
  "fw_console_write fw txt s =
     (case fw of None \<Rightarrow> Some s
      | Some ops \<Rightarrow> (case console_write ops of None \<Rightarrow> Some s
          | Some f \<Rightarrow> (case txt of None \<Rightarrow> Some s | Some txt \<Rightarrow> f txt s)))"

definition fw_name :: "'s fw_ops option \<Rightarrow> string" where
  "fw_name fw =
     (case fw of None \<Rightarrow> FW_NAME_UNKNOWN
      | Some ops \<Rightarrow> (case ops_name ops of None \<Rightarrow> FW_NAME_UNKNOWN | Some n \<Rightarrow> n))"

definition fw_framebuffer_acquire :: "'s fw_ops option \<Rightarrow> 's \<Rightarrow> (framebuffer option \<times> 's) option" where
  "fw_framebuffer_acquire fw s =
     (case fw of None \<Rightarrow> Some (None, s)
      | Some ops \<Rightarrow> (case framebuffer_acquire ops of None \<Rightarrow> Some (None, s)
          | Some f \<Rightarrow>
              do { (out, s) \<leftarrow> f s;
                   Some (case out of None \<Rightarrow> None | Some fb \<Rightarrow> if framebuffer_valid fb then Some fb else None, s) }))"

definition fw_rsdp_locate :: "'s fw_ops option \<Rightarrow> 's \<Rightarrow> (u64 \<times> 's) option" where
  "fw_rsdp_locate fw s =
     (case fw of None \<Rightarrow> Some (0, s)
      | Some ops \<Rightarrow> (case rsdp_locate ops of None \<Rightarrow> Some (0, s) | Some f \<Rightarrow> f s))"

subsection \<open>BIOS\<close>

record fw_bios =
  drive :: u8
  e820_count :: u32
  e820_buffer :: u64
  vbe_mode_info :: u64

abbreviation (input) BIOS_EBDA_POINTER :: u64 where "BIOS_EBDA_POINTER \<equiv> 0x40E"
abbreviation (input) BIOS_EBDA_SEARCH_BYTES :: usize where "BIOS_EBDA_SEARCH_BYTES \<equiv> 1024"
abbreviation (input) BIOS_ROM_START :: u64 where "BIOS_ROM_START \<equiv> 0xE0000"
abbreviation (input) BIOS_ROM_BYTES :: usize where "BIOS_ROM_BYTES \<equiv> 0x20000"

definition bios_mem_snapshot :: "fw_bios \<Rightarrow> memory_map \<Rightarrow> mem \<Rightarrow> ((bool \<times> memory_map) \<times> mem) option" where
  "bios_mem_snapshot self out m = Some (e820_parse m (e820_buffer self) (e820_count self), m)"

definition bios_framebuffer_acquire :: "fw_bios \<Rightarrow> mem \<Rightarrow> (framebuffer option \<times> mem) option" where
  "bios_framebuffer_acquire self m = Some (vbe_describe m (vbe_mode_info self), m)"

definition bios_rsdp_locate :: "mem \<Rightarrow> (u64 \<times> mem) option" where
  "bios_rsdp_locate m =
     (let ebda_pointer = ucast (m BIOS_EBDA_POINTER) OR push_bit 8 (ucast (m (BIOS_EBDA_POINTER + 1))) :: u16;
          ebda = push_bit 4 (ucast ebda_pointer) :: u64
      in do { found \<leftarrow> (if ebda \<noteq> 0 then acpi_find_rsdp m ebda BIOS_EBDA_SEARCH_BYTES else Some 0);
              if found \<noteq> 0 then Some (found, m)
              else do { found \<leftarrow> acpi_find_rsdp m BIOS_ROM_START BIOS_ROM_BYTES; Some (found, m) } })"

definition fw_bios_init :: "u8 \<Rightarrow> u32 \<Rightarrow> u64 \<Rightarrow> u64 \<Rightarrow> mem fw_ops" where
  "fw_bios_init d n buffer mode_info =
     (let firmware = \<lparr>drive = d, e820_count = n, e820_buffer = buffer, vbe_mode_info = mode_info\<rparr>
      in \<lparr>ops_name = Some ''bios'', mem_snapshot = Some (bios_mem_snapshot firmware), fw_read = None,
          console_write = None, rsdp_locate = Some bios_rsdp_locate,
          framebuffer_acquire = Some (bios_framebuffer_acquire firmware)\<rparr>)"

subsection \<open>UEFI\<close>

type_synonym efi_status = u64

abbreviation (input) EFI_SUCCESS :: efi_status where "EFI_SUCCESS \<equiv> 0"
abbreviation (input) EFI_SYSTEM_TABLE_SIGNATURE :: u64 where "EFI_SYSTEM_TABLE_SIGNATURE \<equiv> 0x5453595320494249"
abbreviation (input) UEFI_MEMORY_MAP_SLACK_BYTES :: u64 where "UEFI_MEMORY_MAP_SLACK_BYTES \<equiv> 4096"
abbreviation (input) UEFI_MEMORY_MAP_MAX_BYTES :: u64 where "UEFI_MEMORY_MAP_MAX_BYTES \<equiv> 32768"

record efi_graphics_mode_information =
  horizontal_resolution :: u32
  vertical_resolution :: u32
  info_pixel_format :: u32
  pixel_masks :: uefi_pixel_masks
  info_pixels_per_scanline :: u32

record efi_graphics_mode =
  mode_info_at :: "efi_graphics_mode_information option"
  framebuffer_base :: u64

record efi_graphics_output =
  graphics_mode :: "efi_graphics_mode option"

text \<open>
  The functions of the firmware: \<open>GetMemoryMap\<close> has the size, the key and the stride as in-out parameters and
  writes the map to the address it is given; a null function pointer is \<open>None\<close>.
\<close>

record 's efi_boot_services =
  get_memory_map :: "(u64 \<Rightarrow> u64 \<times> u64 \<times> u64 \<Rightarrow> 's \<times> mem \<Rightarrow> (efi_status \<times> u64 \<times> u64 \<times> u64) \<times> 's \<times> mem) option"
  exit_boot_services :: "(u64 \<Rightarrow> u64 \<Rightarrow> 's \<times> mem \<Rightarrow> efi_status \<times> 's \<times> mem) option"
  locate_graphics :: "('s \<times> mem \<Rightarrow> (efi_status \<times> efi_graphics_output option) \<times> 's \<times> mem) option"

record 's efi_system_table =
  table_signature :: u64
  boot_services :: "'s efi_boot_services option"
  configuration_table :: "(u8 list \<times> u64) list option"

record fw_uefi =
  uefi_image :: u64
  map_key :: u64
  exited :: bool
  uefi_map :: u64

definition acpi_table_guid :: "u8 list" where
  "acpi_table_guid = [0x71, 0xE8, 0x68, 0x88, 0xF1, 0xE4, 0xD3, 0x11, 0xBC, 0x22, 0x00, 0x80, 0xC7, 0x3C, 0x88, 0x81]"

definition same_guid :: "u8 list \<Rightarrow> u8 list \<Rightarrow> bool" where
  "same_guid left right = (memcmp_bytes left right 16 = 0)"

definition uefi_system_table_valid :: "'s efi_system_table option \<Rightarrow> bool" where
  "uefi_system_table_valid table =
     (case table of None \<Rightarrow> False
      | Some table \<Rightarrow>
          if table_signature table \<noteq> EFI_SYSTEM_TABLE_SIGNATURE then False
          else case boot_services table of None \<Rightarrow> False
            | Some services \<Rightarrow>
                if get_memory_map services = None then False
                else if exit_boot_services services = None then False
                else True)"

definition fetch_memory_map ::
  "'s efi_boot_services \<Rightarrow> fw_uefi \<Rightarrow> 's \<times> mem \<Rightarrow> ((u64 \<times> u64) option \<times> fw_uefi) \<times> 's \<times> mem" where
  "fetch_memory_map services self s =
     (let call = the (get_memory_map services);
          ((_, needed, key, stride), s) = call 0 (0, 0, 0) s
      in if needed = 0 then ((None, self), s)
         else if needed + UEFI_MEMORY_MAP_SLACK_BYTES > UEFI_MEMORY_MAP_MAX_BYTES then ((None, self), s)
         else
           let ((status, capacity, key, stride), s) = call (uefi_map self) (UEFI_MEMORY_MAP_MAX_BYTES, key, stride) s
           in if status \<noteq> EFI_SUCCESS then ((None, self), s)
              else ((Some (capacity, stride), self\<lparr>map_key := key\<rparr>), s))"

definition uefi_mem_snapshot ::
  "'s efi_boot_services \<Rightarrow> fw_uefi \<Rightarrow> memory_map \<Rightarrow> 's \<times> mem \<Rightarrow> ((bool \<times> memory_map) \<times> fw_uefi \<times> 's \<times> mem) option"
  where
  "uefi_mem_snapshot services self out s =
     (case fetch_memory_map services self s of
        ((None, self), s) \<Rightarrow> Some ((False, out), self, s)
      | ((Some (map_bytes, descriptor_bytes), self), s) \<Rightarrow>
          do { res \<leftarrow> uefi_memory_parse (snd s) (uefi_map self) map_bytes descriptor_bytes
                 (if exited self then UEFI_AFTER_EXIT else UEFI_BEFORE_EXIT);
               Some (res, self, s) })"

definition uefi_framebuffer_acquire ::
  "'s efi_boot_services \<Rightarrow> fw_uefi \<Rightarrow> 's \<times> mem \<Rightarrow> (framebuffer option \<times> 's \<times> mem) option" where
  "uefi_framebuffer_acquire services self s =
     (if exited self then Some (None, s)
      else case locate_graphics services of None \<Rightarrow> Some (None, s)
        | Some call \<Rightarrow>
            (case call s of ((status, graphics), s) \<Rightarrow>
               if status \<noteq> EFI_SUCCESS then Some (None, s)
               else case do { g \<leftarrow> graphics; md \<leftarrow> graphics_mode g; info \<leftarrow> mode_info_at md; Some (md, info) } of
                   None \<Rightarrow> Some (None, s)
                 | Some (md, info) \<Rightarrow>
                     do { fb \<leftarrow> uefi_graphics_describe (info_pixel_format info) (Some (pixel_masks info))
                            (horizontal_resolution info) (vertical_resolution info)
                            (info_pixels_per_scanline info) (framebuffer_base md);
                          Some (fb, s) }))"

fun find_acpi_entry :: "mem \<Rightarrow> (u8 list \<times> u64) list \<Rightarrow> u64" where
  "find_acpi_entry m [] = 0"
| "find_acpi_entry m ((guid, table) # entries) =
     (if \<not> same_guid guid acpi_table_guid then find_acpi_entry m entries
      else if acpi_rsdp_valid m table then table
      else find_acpi_entry m entries)"

definition uefi_rsdp_locate :: "'s efi_system_table \<Rightarrow> mem \<Rightarrow> u64" where
  "uefi_rsdp_locate system m =
     (case configuration_table system of None \<Rightarrow> 0 | Some entries \<Rightarrow> find_acpi_entry m entries)"

text \<open>The attempts at leaving boot services that are left.\<close>

fun exit_attempts ::
  "nat \<Rightarrow> 's efi_boot_services \<Rightarrow> fw_uefi \<Rightarrow> memory_map \<Rightarrow> 's \<times> mem \<Rightarrow> ((bool \<times> memory_map) \<times> fw_uefi \<times> 's \<times> mem) option"
  where
  "exit_attempts 0 services self out s = Some ((False, out), self, s)"
| "exit_attempts (Suc n) services self out s =
     (case fetch_memory_map services self s of
        ((None, self), s) \<Rightarrow> Some ((False, out), self, s)
      | ((Some (map_bytes, descriptor_bytes), self), s) \<Rightarrow>
          (case the (exit_boot_services services) (uefi_image self) (map_key self) s of
             (status, s) \<Rightarrow>
               if status \<noteq> EFI_SUCCESS then exit_attempts n services self out s
               else
                 let self = self\<lparr>exited := True\<rparr>
                 in do { res \<leftarrow> uefi_memory_parse (snd s) (uefi_map self) map_bytes descriptor_bytes UEFI_AFTER_EXIT;
                         Some (res, self, s) }))"

definition uefi_exit_boot_services ::
  "'s efi_boot_services \<Rightarrow> fw_uefi \<Rightarrow> memory_map \<Rightarrow> 's \<times> mem \<Rightarrow> ((bool \<times> memory_map) \<times> fw_uefi \<times> 's \<times> mem) option" where
  "uefi_exit_boot_services services self out s =
     (if exited self then Some ((False, out), self, s) else exit_attempts 2 services self out s)"

text \<open>The operations of the UEFI backend, over its own state and what lies behind it; the address of the map buffer is
  a parameter.\<close>

definition fw_uefi_init ::
  "u64 \<Rightarrow> u64 \<Rightarrow> 's efi_system_table option \<Rightarrow> ((fw_uefi \<times> 's \<times> mem) fw_ops \<times> fw_uefi) option" where
  "fw_uefi_init map_at img table =
     (if \<not> uefi_system_table_valid table then None
      else
        let system = the table;
            services = the (boot_services system);
            firmware = \<lparr>uefi_image = img, map_key = 0, exited = False, uefi_map = map_at\<rparr>
        in Some (\<lparr>ops_name = Some ''uefi'',
             mem_snapshot = Some (\<lambda>out (self, s). uefi_mem_snapshot services self out s),
             fw_read = None, console_write = None,
             rsdp_locate = Some (\<lambda>(self, s). Some (uefi_rsdp_locate system (snd s), self, s)),
             framebuffer_acquire = Some (\<lambda>(self, s).
               do { (fb, s) \<leftarrow> uefi_framebuffer_acquire services self s; Some (fb, self, s) })\<rparr>, firmware))"

subsection \<open>The map a backend describes\<close>

text \<open>What the core relies on: a map that was described is in order and not longer than the kernel can be handed.\<close>

definition map_in_order :: "memory_map \<Rightarrow> bool" where
  "map_in_order mm \<longleftrightarrow> canonical (regions mm) \<and> length (regions mm) \<le> MEMORY_MAP_MAX_REGIONS"

lemma map_in_order_wf: "map_in_order mm \<Longrightarrow> map_wf mm"
  by (simp add: map_in_order_def map_wf_def canonical_def)

lemma finalize_in_order: "map_wf mm \<Longrightarrow> map_in_order (memory_map_finalize mm)"
  using finalize_spec(1,2) by (simp add: map_in_order_def)

locale described_memory =
  fixes fw :: "'s fw_ops option"
  assumes described: "fw_mem_snapshot fw memory_map_clear s = Some ((True, mm), s') \<Longrightarrow> map_in_order mm"

lemma e820_entries_wf: "map_wf mm \<Longrightarrow> map_wf (e820_entries n r mm)"
  by (induction n r mm rule: e820_entries.induct) (auto simp: memory_map_add_wf split: option.split)

lemma e820_parse_in_order: "e820_parse m buffer n = (True, mm) \<Longrightarrow> map_in_order mm"
  using finalize_in_order [OF e820_entries_wf [OF memory_map_clear_wf]]
  by (auto simp: e820_parse_def Let_def split: if_splits option.splits)

interpretation bios_described: described_memory "Some (fw_bios_init d n buffer mode_info)" for d n buffer mode_info
  by unfold_locales
    (auto simp: fw_mem_snapshot_def fw_bios_init_def bios_mem_snapshot_def Let_def dest: e820_parse_in_order)

lemma uefi_descriptors_wf:
  "uefi_descriptors m at len stride phase off mm = Some out \<Longrightarrow> map_wf mm \<longrightarrow> map_wf out"
proof (rule uefi_descriptors.raw_induct, goal_cases)
  case (1 loop m at len stride phase off mm out)
  show ?case
    using 1(2,3) memory_map_add_wf [of mm]
    by (auto simp: Let_def split: if_splits option.splits prod.splits)
qed

lemma uefi_memory_parse_in_order: "uefi_memory_parse m at len stride phase = Some (True, mm) \<Longrightarrow> map_in_order mm"
  using finalize_in_order [OF uefi_descriptors_wf [THEN mp, OF _ memory_map_clear_wf]]
  by (auto simp: uefi_memory_parse_def Let_def opt_bind split: if_splits)

interpretation uefi_described: described_memory "map_option fst (fw_uefi_init map_at img table)" for map_at img table
proof
  fix s mm s'
  assume "fw_mem_snapshot (map_option fst (fw_uefi_init map_at img table)) memory_map_clear s = Some ((True, mm), s')"
  then show "map_in_order mm"
    by (auto simp: fw_mem_snapshot_def fw_uefi_init_def uefi_mem_snapshot_def opt_bind Let_def
        dest: uefi_memory_parse_in_order split: if_splits option.splits prod.splits)
qed

subsection \<open>Leaving boot services\<close>

lemma fetch_memory_map_Some:
  assumes "fetch_memory_map services self s = ((Some (bytes, stride), self'), s')"
  shows "exited self' = exited self \<and> uefi_image self' = uefi_image self \<and> uefi_map self' = uefi_map self \<and>
    (\<exists>q s1. the (get_memory_map services) (uefi_map self) q s1 = ((EFI_SUCCESS, bytes, map_key self', stride), s'))"
proof -
  obtain st needed key stride0 s1 where c1: "the (get_memory_map services) 0 (0, 0, 0) s = ((st, needed, key, stride0), s1)"
    by (metis prod.collapse)
  obtain st2 bytes2 key2 stride2 s2 where
    c2: "the (get_memory_map services) (uefi_map self) (UEFI_MEMORY_MAP_MAX_BYTES, key, stride0) s1 = ((st2, bytes2, key2, stride2), s2)"
    by (metis prod.collapse)
  show ?thesis using assms c2
    by (simp add: fetch_memory_map_def Let_def c1 del: split_paired_Ex split: if_splits)
      (elim conjE, hypsubst, simp del: split_paired_Ex, blast)
qed

lemma fetch_memory_map_None:
  "fetch_memory_map services self s = ((None, self'), s') \<Longrightarrow> self' = self"
  by (auto simp: fetch_memory_map_def Let_def split: prod.splits if_splits)

lemma exit_attempts_current:
  assumes "exit_attempts n services self out s = Some ((ok, out'), self', s')" "\<not> exited self"
  shows "if exited self' then
      \<exists>q s1 s2 bytes stride.
        the (get_memory_map services) (uefi_map self) q s1 = ((EFI_SUCCESS, bytes, map_key self', stride), s2) \<and>
        the (exit_boot_services services) (uefi_image self) (map_key self') s2 = (EFI_SUCCESS, s') \<and>
        uefi_memory_parse (snd s') (uefi_map self) bytes stride UEFI_AFTER_EXIT = Some (ok, out')
    else \<not> ok \<and> out' = out"
  using assms
proof (induction n arbitrary: self s)
  case (Suc n)
  obtain fetched self1 s1 where f: "fetch_memory_map services self s = ((fetched, self1), s1)" by (metis prod.collapse)
  show ?case
  proof (cases fetched)
    case None
    with f have "self1 = self" using fetch_memory_map_None by blast
    then show ?thesis using Suc.prems f None by simp
  next
    case (Some pair)
    obtain bytes stride where pair: "pair = (bytes, stride)" by (cases pair)
    note F = fetch_memory_map_Some [OF f [unfolded Some pair]]
    obtain status s2 where e: "the (exit_boot_services services) (uefi_image self1) (map_key self1) s1 = (status, s2)"
      by (cases "the (exit_boot_services services) (uefi_image self1) (map_key self1) s1")
    show ?thesis
    proof (cases "status = EFI_SUCCESS")
      case False
      then have "exit_attempts n services self1 out s2 = Some ((ok, out'), self', s')"
        using Suc.prems(1) f Some pair e by simp
      from Suc.IH [OF this] F Suc.prems(2) show ?thesis by (cases "exited self'") (simp_all del: split_paired_Ex)
    next
      case True
      then have "self' = self1\<lparr>exited := True\<rparr>" "s' = s2"
        "uefi_memory_parse (snd s2) (uefi_map self1) bytes stride UEFI_AFTER_EXIT = Some (ok, out')"
        using Suc.prems(1) f Some pair e by (auto simp: opt_bind Let_def)
      then show ?thesis using F e True by (simp del: split_paired_Ex) blast
    qed
  qed
qed simp

text \<open>
  C37. Leaving boot services is tried at most twice, and when it succeeds the map that is handed on is the one the
  firmware accepted the key of: nothing was asked of the firmware between reading that map and leaving. When it fails,
  no map is handed on and the firmware is taken to be still there.
\<close>

theorem uefi_exit_hands_over_current_map:
  assumes "uefi_exit_boot_services services self out s = Some ((ok, out'), self', s')" "\<not> exited self"
  shows "if exited self' then
      \<exists>q s1 s2 bytes stride.
        the (get_memory_map services) (uefi_map self) q s1 = ((EFI_SUCCESS, bytes, map_key self', stride), s2) \<and>
        the (exit_boot_services services) (uefi_image self) (map_key self') s2 = (EFI_SUCCESS, s') \<and>
        uefi_memory_parse (snd s') (uefi_map self) bytes stride UEFI_AFTER_EXIT = Some (ok, out')
    else \<not> ok \<and> out' = out"
  using exit_attempts_current [of 2 services self out s ok out' self' s'] assms by (simp add: uefi_exit_boot_services_def)

text \<open>A firmware that refuses the first key.\<close>

definition demo_services :: "nat efi_boot_services" where
  "demo_services = \<lparr>
     get_memory_map = Some (\<lambda>buffer q (n, m). ((EFI_SUCCESS, if buffer = 0 then 64 else 0, of_nat n, 40), n, m)),
     exit_boot_services = Some (\<lambda>img key (n, m). (if n = 0 then 1 else EFI_SUCCESS, n + 1, m)),
     locate_graphics = None\<rparr>"

abbreviation (input) demo_uefi :: fw_uefi where
  "demo_uefi \<equiv> \<lparr>uefi_image = 1, map_key = 9, exited = False, uefi_map = 0x8000\<rparr>"

lemma exit_two: "exit_attempts 2 services = exit_attempts (Suc (Suc 0)) services"
  by (simp only: numeral_2_eq_2)

lemma demo_exit:
  "uefi_exit_boot_services demo_services demo_uefi memory_map_clear (0, m) =
     Some ((False, memory_map_clear), \<lparr>uefi_image = 1, map_key = 1, exited = True, uefi_map = 0x8000\<rparr>, 2, m)"
  by (simp add: uefi_exit_boot_services_def demo_services_def exit_two fetch_memory_map_def Let_def
      uefi_memory_parse_def)

theorem uefi_exit_hands_over_current_map_witness:
  "\<exists>q s1 s2 bytes stride.
     the (get_memory_map demo_services) 0x8000 q s1 = ((EFI_SUCCESS, bytes, 1, stride), s2) \<and>
     the (exit_boot_services demo_services) 1 1 s2 = (EFI_SUCCESS, 2, \<lambda>_. 0)"
  using uefi_exit_hands_over_current_map [OF demo_exit, of "\<lambda>_. 0"] by (simp, blast)

end
