(* ===== verification/Ata.thy ===== *)
theory Ata
  imports Block
begin

text \<open>
  \<open>src/block/ata.c\<close>: programmed I/O to an ATA drive. Every port access goes through \<open>struct ata_io\<close>, here a
  record of functions on the state \<open>'s\<close> of the hardware behind the ports. What a failed read has already
  stored is not used by the callers, so a read that answers false is \<open>None\<close>.
\<close>

abbreviation (input) ATA_REGISTER_DATA :: u16 where "ATA_REGISTER_DATA \<equiv> 0"
abbreviation (input) ATA_REGISTER_SECTOR_COUNT :: u16 where "ATA_REGISTER_SECTOR_COUNT \<equiv> 2"
abbreviation (input) ATA_REGISTER_LBA_LOW :: u16 where "ATA_REGISTER_LBA_LOW \<equiv> 3"
abbreviation (input) ATA_REGISTER_LBA_MID :: u16 where "ATA_REGISTER_LBA_MID \<equiv> 4"
abbreviation (input) ATA_REGISTER_LBA_HIGH :: u16 where "ATA_REGISTER_LBA_HIGH \<equiv> 5"
abbreviation (input) ATA_REGISTER_DRIVE :: u16 where "ATA_REGISTER_DRIVE \<equiv> 6"
abbreviation (input) ATA_REGISTER_STATUS :: u16 where "ATA_REGISTER_STATUS \<equiv> 7"
abbreviation (input) ATA_REGISTER_COMMAND :: u16 where "ATA_REGISTER_COMMAND \<equiv> 7"
abbreviation (input) ATA_STATUS_ERROR :: u8 where "ATA_STATUS_ERROR \<equiv> 0x01"
abbreviation (input) ATA_STATUS_DRQ :: u8 where "ATA_STATUS_DRQ \<equiv> 0x08"
abbreviation (input) ATA_STATUS_FAULT :: u8 where "ATA_STATUS_FAULT \<equiv> 0x20"
abbreviation (input) ATA_STATUS_READY :: u8 where "ATA_STATUS_READY \<equiv> 0x40"
abbreviation (input) ATA_STATUS_BUSY :: u8 where "ATA_STATUS_BUSY \<equiv> 0x80"
abbreviation (input) ATA_COMMAND_READ_SECTORS :: u8 where "ATA_COMMAND_READ_SECTORS \<equiv> 0x20"
abbreviation (input) ATA_COMMAND_READ_SECTORS_EXT :: u8 where "ATA_COMMAND_READ_SECTORS_EXT \<equiv> 0x24"
abbreviation (input) ATA_COMMAND_IDENTIFY :: u8 where "ATA_COMMAND_IDENTIFY \<equiv> 0xEC"
abbreviation (input) ATA_DRIVE_SELECT_LBA28 :: u8 where "ATA_DRIVE_SELECT_LBA28 \<equiv> 0xE0"
abbreviation (input) ATA_DRIVE_SELECT_LBA48 :: u8 where "ATA_DRIVE_SELECT_LBA48 \<equiv> 0x40"
abbreviation (input) ATA_DRIVE_SLAVE :: u8 where "ATA_DRIVE_SLAVE \<equiv> 0x10"
abbreviation (input) ATA_DRIVE_LBA28_HIGH_MASK :: u64 where "ATA_DRIVE_LBA28_HIGH_MASK \<equiv> 0x0F"
abbreviation (input) ATA_SECTOR_BYTES :: u32 where "ATA_SECTOR_BYTES \<equiv> 512"
abbreviation (input) ATA_WORDS_PER_SECTOR :: nat where "ATA_WORDS_PER_SECTOR \<equiv> 256"
abbreviation (input) ATA_IDENTIFY_WORDS :: nat where "ATA_IDENTIFY_WORDS \<equiv> 256"
abbreviation (input) ATA_LBA28_MAX_SECTORS :: u32 where "ATA_LBA28_MAX_SECTORS \<equiv> 256"
abbreviation (input) ATA_LBA48_MAX_SECTORS :: u32 where "ATA_LBA48_MAX_SECTORS \<equiv> 65536"
abbreviation (input) ATA_LBA28_SECTOR_LIMIT :: u64 where "ATA_LBA28_SECTOR_LIMIT \<equiv> 0x10000000"
abbreviation (input) ATA_IDENTIFY_CAPABILITIES :: nat where "ATA_IDENTIFY_CAPABILITIES \<equiv> 49"
abbreviation (input) ATA_IDENTIFY_LBA28_SECTORS :: nat where "ATA_IDENTIFY_LBA28_SECTORS \<equiv> 60"
abbreviation (input) ATA_IDENTIFY_COMMAND_SETS :: nat where "ATA_IDENTIFY_COMMAND_SETS \<equiv> 83"
abbreviation (input) ATA_IDENTIFY_LBA48_SECTORS :: nat where "ATA_IDENTIFY_LBA48_SECTORS \<equiv> 100"
abbreviation (input) ATA_CAPABILITY_LBA :: u16 where "ATA_CAPABILITY_LBA \<equiv> 0x0200"
abbreviation (input) ATA_COMMAND_SET_LBA48 :: u16 where "ATA_COMMAND_SET_LBA48 \<equiv> 0x0400"
abbreviation (input) ATA_POLL_ATTEMPTS :: nat where "ATA_POLL_ATTEMPTS \<equiv> 1000000"

record 's ata_io =
  read_port_u8 :: "u16 \<Rightarrow> 's \<Rightarrow> u8 \<times> 's"
  write_port_u8 :: "u16 \<Rightarrow> u8 \<Rightarrow> 's \<Rightarrow> 's"
  read_port_u16 :: "u16 \<Rightarrow> 's \<Rightarrow> u16 \<times> 's"

record 's ata_channel =
  channel_io :: "'s ata_io"
  io_base :: u16
  control_base :: u16
  slave :: bool
  lba48 :: bool

definition status_of :: "'s ata_channel \<Rightarrow> 's \<Rightarrow> u8 \<times> 's" where
  "status_of c s = read_port_u8 (channel_io c) (io_base c + ATA_REGISTER_STATUS) s"

definition write_register :: "'s ata_channel \<Rightarrow> u16 \<Rightarrow> u8 \<Rightarrow> 's \<Rightarrow> 's" where
  "write_register c offset v s = write_port_u8 (channel_io c) (io_base c + offset) v s"

definition settle :: "'s ata_channel \<Rightarrow> 's \<Rightarrow> 's" where
  "settle c s = fold (\<lambda>index s. snd (read_port_u8 (channel_io c) (control_base c) s)) [0..<4] s"

fun poll :: "nat \<Rightarrow> 's ata_channel \<Rightarrow> 's \<Rightarrow> u8 option \<times> 's" where
  "poll 0 c s = (None, s)"
| "poll (Suc attempts) c s =
     (case status_of c s of
        (status, s) \<Rightarrow>
          if status = 0xFF then (None, s)
          else if status AND ATA_STATUS_BUSY = 0 then (Some status, s)
          else poll attempts c s)"

definition wait_while_busy :: "'s ata_channel \<Rightarrow> 's \<Rightarrow> u8 option \<times> 's" where
  "wait_while_busy = poll ATA_POLL_ATTEMPTS"

definition wait_for_data :: "'s ata_channel \<Rightarrow> 's \<Rightarrow> bool \<times> 's" where
  "wait_for_data c s =
     (case wait_while_busy c s of
        (None, s) \<Rightarrow> (False, s)
      | (Some status, s) \<Rightarrow>
          if status AND (ATA_STATUS_ERROR OR ATA_STATUS_FAULT) \<noteq> 0 then (False, s)
          else (status AND ATA_STATUS_DRQ \<noteq> 0, s))"

definition select_drive :: "'s ata_channel \<Rightarrow> u8 \<Rightarrow> 's \<Rightarrow> 's" where
  "select_drive c extra s =
     settle c (write_register c ATA_REGISTER_DRIVE (extra OR (if slave c then ATA_DRIVE_SLAVE else 0)) s)"

text \<open>The loop that reads \<open>n\<close> words of the data register.\<close>

fun read_words :: "nat \<Rightarrow> 's ata_channel \<Rightarrow> 's \<Rightarrow> u16 list \<times> 's" where
  "read_words 0 c s = ([], s)"
| "read_words (Suc n) c s =
     (let (word, s) = read_port_u16 (channel_io c) (io_base c + ATA_REGISTER_DATA) s;
          (words, s) = read_words n c s
      in (word # words, s))"

definition word_bytes :: "u16 \<Rightarrow> u8 list" where
  "word_bytes w = [ucast (w AND 0xFF), ucast (drop_bit 8 w)]"

definition read_sector_words :: "'s ata_channel \<Rightarrow> 's \<Rightarrow> u8 list \<times> 's" where
  "read_sector_words c s =
     (case read_words ATA_WORDS_PER_SECTOR c s of (words, s) \<Rightarrow> (concat (map word_bytes words), s))"

definition identify :: "'s ata_channel \<Rightarrow> 's \<Rightarrow> u16 list option \<times> 's" where
  "identify c s =
     (let s = select_drive c ATA_DRIVE_SELECT_LBA28 s;
          s = write_register c ATA_REGISTER_SECTOR_COUNT 0 s;
          s = write_register c ATA_REGISTER_LBA_LOW 0 s;
          s = write_register c ATA_REGISTER_LBA_MID 0 s;
          s = write_register c ATA_REGISTER_LBA_HIGH 0 s;
          s = write_register c ATA_REGISTER_COMMAND ATA_COMMAND_IDENTIFY s;
          s = settle c s;
          (status, s) = status_of c s
      in if status = 0 then (None, s)
         else
           let (mid, s) = read_port_u8 (channel_io c) (io_base c + ATA_REGISTER_LBA_MID) s;
               (high, s) = read_port_u8 (channel_io c) (io_base c + ATA_REGISTER_LBA_HIGH) s
           in if mid \<noteq> 0 \<or> high \<noteq> 0 then (None, s)
              else case wait_for_data c s of
                  (False, s) \<Rightarrow> (None, s)
                | (True, s) \<Rightarrow> (case read_words ATA_IDENTIFY_WORDS c s of (words, s) \<Rightarrow> (Some words, s)))"

definition issue_lba28 :: "'s ata_channel \<Rightarrow> u64 \<Rightarrow> u32 \<Rightarrow> 's \<Rightarrow> 's" where
  "issue_lba28 c lba n s =
     (let high = ucast (drop_bit 24 lba AND ATA_DRIVE_LBA28_HIGH_MASK);
          s = select_drive c (ATA_DRIVE_SELECT_LBA28 OR high) s;
          s = write_register c ATA_REGISTER_SECTOR_COUNT (ucast (if n = ATA_LBA28_MAX_SECTORS then 0 else n)) s;
          s = write_register c ATA_REGISTER_LBA_LOW (ucast (lba AND 0xFF)) s;
          s = write_register c ATA_REGISTER_LBA_MID (ucast (drop_bit 8 lba AND 0xFF)) s;
          s = write_register c ATA_REGISTER_LBA_HIGH (ucast (drop_bit 16 lba AND 0xFF)) s
      in write_register c ATA_REGISTER_COMMAND ATA_COMMAND_READ_SECTORS s)"

definition issue_lba48 :: "'s ata_channel \<Rightarrow> u64 \<Rightarrow> u32 \<Rightarrow> 's \<Rightarrow> 's" where
  "issue_lba48 c lba n s =
     (let s = select_drive c ATA_DRIVE_SELECT_LBA48 s;
          s = write_register c ATA_REGISTER_SECTOR_COUNT (ucast (drop_bit 8 n AND 0xFF)) s;
          s = write_register c ATA_REGISTER_LBA_LOW (ucast (drop_bit 24 lba AND 0xFF)) s;
          s = write_register c ATA_REGISTER_LBA_MID (ucast (drop_bit 32 lba AND 0xFF)) s;
          s = write_register c ATA_REGISTER_LBA_HIGH (ucast (drop_bit 40 lba AND 0xFF)) s;
          s = write_register c ATA_REGISTER_SECTOR_COUNT (ucast (n AND 0xFF)) s;
          s = write_register c ATA_REGISTER_LBA_LOW (ucast (lba AND 0xFF)) s;
          s = write_register c ATA_REGISTER_LBA_MID (ucast (drop_bit 8 lba AND 0xFF)) s;
          s = write_register c ATA_REGISTER_LBA_HIGH (ucast (drop_bit 16 lba AND 0xFF)) s
      in write_register c ATA_REGISTER_COMMAND ATA_COMMAND_READ_SECTORS_EXT s)"

text \<open>The loop over the sectors of a transfer.\<close>

fun read_each :: "nat \<Rightarrow> 's ata_channel \<Rightarrow> 's \<Rightarrow> u8 list option \<times> 's" where
  "read_each 0 c s = (Some [], s)"
| "read_each (Suc n) c s =
     (case wait_for_data c s of
        (False, s) \<Rightarrow> (None, s)
      | (True, s) \<Rightarrow>
          (case read_sector_words c s of
             (bytes, s) \<Rightarrow> (case read_each n c s of (rest, s) \<Rightarrow> (map_option ((@) bytes) rest, s))))"

definition ata_read_sectors :: "'s ata_channel \<Rightarrow> u64 \<Rightarrow> u32 \<Rightarrow> 's \<Rightarrow> u8 list option \<times> 's" where
  "ata_read_sectors c lba n s =
     (if n = 0 then (None, s)
      else case checked_add_u64 lba (ucast n) of
        None \<Rightarrow> (None, s)
      | Some end' \<Rightarrow>
          if lba48 c then
            (if n > ATA_LBA48_MAX_SECTORS then (None, s)
             else read_each (unat n) c (settle c (issue_lba48 c lba n s)))
          else if end' > ATA_LBA28_SECTOR_LIMIT then (None, s)
          else if n > ATA_LBA28_MAX_SECTORS then (None, s)
          else read_each (unat n) c (settle c (issue_lba28 c lba n s)))"

definition sectors_from_identify :: "u16 list \<Rightarrow> bool \<Rightarrow> u64" where
  "sectors_from_identify words l48 =
     (let total = fold (\<lambda>index total. total OR push_bit (index * 16) (ucast (words ! (ATA_IDENTIFY_LBA48_SECTORS + index))))
            [0..<4] 0
      in if l48 \<and> total \<noteq> 0 then total
         else ucast (words ! ATA_IDENTIFY_LBA28_SECTORS) OR
           push_bit 16 (ucast (words ! (ATA_IDENTIFY_LBA28_SECTORS + 1))))"

text \<open>The answer is the channel and the number of sectors of the device that reads through it.\<close>

definition ata_probe :: "'s ata_io \<Rightarrow> u16 \<Rightarrow> u16 \<Rightarrow> bool \<Rightarrow> 's \<Rightarrow> ('s ata_channel \<times> u64) option \<times> 's" where
  "ata_probe io iob control sl s =
     (let c = \<lparr>channel_io = io, io_base = iob, control_base = control, slave = sl, lba48 = False\<rparr>
      in case identify c s of
           (None, s) \<Rightarrow> (None, s)
         | (Some words, s) \<Rightarrow>
             if words ! ATA_IDENTIFY_CAPABILITIES AND ATA_CAPABILITY_LBA = 0 then (None, s)
             else
               let c = c\<lparr>lba48 := words ! ATA_IDENTIFY_COMMAND_SETS AND ATA_COMMAND_SET_LBA48 \<noteq> 0\<rparr>;
                   sectors = sectors_from_identify words (lba48 c)
               in if sectors = 0 then (None, s) else (Some (c, sectors), s))"

subsection \<open>The driver only reads\<close>

text \<open>
  What the driver does to the hardware, whatever the hardware answers: a property of the hardware that no read of a
  port breaks, no write to an address register, and no write of one of the three commands the driver knows.
\<close>

locale read_only_hardware =
  fixes io :: "'s ata_io" and iob :: u16 and P :: "'s \<Rightarrow> bool"
  assumes read_u8: "P s \<Longrightarrow> P (snd (read_port_u8 io port s))"
    and read_u16: "P s \<Longrightarrow> P (snd (read_port_u16 io port s))"
    and write_address: "P s \<Longrightarrow> off \<in> {2, 3, 4, 5, 6} \<Longrightarrow> P (write_port_u8 io (iob + off) v s)"
    and write_command: "P s \<Longrightarrow> v \<in> {ATA_COMMAND_READ_SECTORS, ATA_COMMAND_READ_SECTORS_EXT, ATA_COMMAND_IDENTIFY} \<Longrightarrow>
      P (write_port_u8 io (iob + ATA_REGISTER_COMMAND) v s)"
begin

definition drives :: "'s ata_channel \<Rightarrow> bool" where
  "drives c \<longleftrightarrow> channel_io c = io \<and> io_base c = iob"

lemma status_of_keeps: "drives c \<Longrightarrow> P s \<Longrightarrow> P (snd (status_of c s))"
  by (simp add: status_of_def drives_def read_u8)

lemma settle_keeps: "drives c \<Longrightarrow> P s \<Longrightarrow> P (settle c s)"
  by (simp add: settle_def drives_def read_u8 numeral_eq_Suc)

lemma register_keeps:
  "drives c \<Longrightarrow> P s \<Longrightarrow> off \<in> {2, 3, 4, 5, 6} \<Longrightarrow> P (write_register c off v s)"
  "drives c \<Longrightarrow> P s \<Longrightarrow> v \<in> {ATA_COMMAND_READ_SECTORS, ATA_COMMAND_READ_SECTORS_EXT, ATA_COMMAND_IDENTIFY} \<Longrightarrow>
     P (write_register c ATA_REGISTER_COMMAND v s)"
  by (simp_all only: write_register_def drives_def write_address write_command)

lemma select_keeps: "drives c \<Longrightarrow> P s \<Longrightarrow> P (select_drive c extra s)"
  by (simp add: select_drive_def settle_keeps register_keeps)

lemma poll_keeps: "drives c \<Longrightarrow> P s \<Longrightarrow> P (snd (poll n c s))"
proof (induction n arbitrary: s)
  case (Suc n)
  then show ?case using status_of_keeps [of c s] by (simp add: split_beta)
qed simp

lemma wait_keeps:
  assumes "drives c" "P s" shows "P (snd (wait_for_data c s))"
proof -
  obtain status s1 where run: "wait_while_busy c s = (status, s1)" by fastforce
  have "P (snd (wait_while_busy c s))" unfolding wait_while_busy_def by (rule poll_keeps [OF assms])
  then have "P s1" by (simp add: run)
  then show ?thesis by (cases status) (simp_all add: wait_for_data_def run)
qed

lemma words_keep: "drives c \<Longrightarrow> P s \<Longrightarrow> P (snd (read_words n c s))"
proof (induction n arbitrary: s)
  case (Suc n)
  then show ?case using read_u16 [of s "iob + ATA_REGISTER_DATA"] by (simp add: drives_def Let_def split_beta)
qed simp

lemma sector_keeps: "drives c \<Longrightarrow> P s \<Longrightarrow> P (snd (read_sector_words c s))"
  using words_keep [of c s ATA_WORDS_PER_SECTOR] by (simp add: read_sector_words_def split_beta)

lemma identify_keeps:
  assumes "drives c" "P s" shows "P (snd (identify c s))"
proof -
  have io: "P s \<Longrightarrow> P (snd (read_port_u8 (channel_io c) port s))" for port s
    using assms(1) by (simp add: drives_def read_u8)
  show ?thesis
    using assms unfolding identify_def Let_def split_beta
    by (auto split: option.splits bool.splits
        intro!: io words_keep wait_keeps status_of_keeps settle_keeps register_keeps select_keeps)
qed

lemma issue_keeps:
  "drives c \<Longrightarrow> P s \<Longrightarrow> P (issue_lba28 c lba n s)" "drives c \<Longrightarrow> P s \<Longrightarrow> P (issue_lba48 c lba n s)"
  by (simp_all add: issue_lba28_def issue_lba48_def Let_def register_keeps select_keeps)

lemma each_keeps: "drives c \<Longrightarrow> P s \<Longrightarrow> P (snd (read_each n c s))"
proof (induction n arbitrary: s)
  case (Suc n)
  obtain ready s1 where w: "wait_for_data c s = (ready, s1)" by fastforce
  obtain bytes s2 where r: "read_sector_words c s1 = (bytes, s2)" by fastforce
  have "P s1" using wait_keeps [OF Suc.prems] w by simp
  then have "P s2" using sector_keeps [OF Suc.prems(1)] r by (metis snd_conv)
  then show ?case using Suc.IH [OF Suc.prems(1) \<open>P s2\<close>] \<open>P s1\<close> w r by (auto split: bool.splits prod.splits)
qed simp

lemma read_sectors_keeps: "drives c \<Longrightarrow> P s \<Longrightarrow> P (snd (ata_read_sectors c lba n s))"
  by (auto simp: ata_read_sectors_def each_keeps settle_keeps issue_keeps split: option.splits)

lemma probe_keeps: "P s \<Longrightarrow> P (snd (ata_probe io iob control sl s))"
  using identify_keeps [of "\<lparr>channel_io = io, io_base = iob, control_base = control, slave = sl, lba48 = False\<rparr>" s]
  by (auto simp: ata_probe_def drives_def Let_def split: prod.splits option.splits)

end

subsection \<open>A drive\<close>

text \<open>
  A reference drive behind the ports of one channel: address registers that hold the last two bytes written to them, a
  drive register, the words of the transfer that are still to be read, and a count of the status reads for which the
  drive is busy after a command and between sectors. While it is busy its data register has nothing: it reads as all
  ones and no word of the transfer is consumed. \<open>sense\<close> says what the drive reports for a sector: the error and the
  fault bit of the status it shows while that sector is next. Commands the driver does not use overwrite the disk.
\<close>

record drive =
  platter :: "nat \<Rightarrow> u8"
  identity :: "u16 list"
  count_now :: u8
  count_before :: u8
  low_now :: u8
  low_before :: u8
  mid_now :: u8
  mid_before :: u8
  high_now :: u8
  high_before :: u8
  select :: u8
  pending :: "u16 list"
  senses :: "u8 list"
  busy :: nat
  latency :: nat

definition disk_word :: "(nat \<Rightarrow> u8) \<Rightarrow> nat \<Rightarrow> u16" where
  "disk_word d i = ucast (d (2 * i)) OR push_bit 8 (ucast (d (2 * i + 1)))"

definition transfer :: "(nat \<Rightarrow> u8) \<Rightarrow> nat \<Rightarrow> nat \<Rightarrow> u16 list" where
  "transfer d lba n = map (disk_word d) [256 * lba..<256 * (lba + n)]"

definition address28 :: "drive \<Rightarrow> nat" where
  "address28 d = unat (low_now d) + 2 ^ 8 * unat (mid_now d) + 2 ^ 16 * unat (high_now d) + 2 ^ 24 * (unat (select d) mod 16)"

definition address48 :: "drive \<Rightarrow> nat" where
  "address48 d = unat (low_now d) + 2 ^ 8 * unat (mid_now d) + 2 ^ 16 * unat (high_now d) +
     2 ^ 24 * unat (low_before d) + 2 ^ 32 * unat (mid_before d) + 2 ^ 40 * unat (high_before d)"

definition command :: "(nat \<Rightarrow> u8) \<Rightarrow> u8 \<Rightarrow> drive \<Rightarrow> drive" where
  "command sense v d =
     (let d = d\<lparr>busy := latency d\<rparr>;
          sectors = (\<lambda>lba n. d\<lparr>pending := transfer (platter d) lba n, senses := map sense [lba..<lba + n]\<rparr>)
      in if v = ATA_COMMAND_READ_SECTORS then
           sectors (address28 d) (if count_now d = 0 then 256 else unat (count_now d))
         else if v = ATA_COMMAND_READ_SECTORS_EXT then
           sectors (address48 d) (let n = unat (count_now d) + 256 * unat (count_before d) in if n = 0 then 65536 else n)
         else if v = ATA_COMMAND_IDENTIFY then d\<lparr>pending := identity d, senses := [0]\<rparr>
         else d\<lparr>pending := [], senses := [], platter := (\<lambda>_. 0)\<rparr>)"

definition drive_write :: "(nat \<Rightarrow> u8) \<Rightarrow> u16 \<Rightarrow> u16 \<Rightarrow> u8 \<Rightarrow> drive \<Rightarrow> drive" where
  "drive_write sense iob port v d =
     (if port = iob + 2 then d\<lparr>count_before := count_now d, count_now := v\<rparr>
      else if port = iob + 3 then d\<lparr>low_before := low_now d, low_now := v\<rparr>
      else if port = iob + 4 then d\<lparr>mid_before := mid_now d, mid_now := v\<rparr>
      else if port = iob + 5 then d\<lparr>high_before := high_now d, high_now := v\<rparr>
      else if port = iob + 6 then d\<lparr>select := v\<rparr>
      else if port = iob + 7 then command sense v d
      else d)"

definition drive_status :: "drive \<Rightarrow> u8" where
  "drive_status d = (if busy d > 0 then ATA_STATUS_BUSY else if pending d = [] then ATA_STATUS_READY
     else ATA_STATUS_READY OR ATA_STATUS_DRQ OR (hd (senses d) AND (ATA_STATUS_ERROR OR ATA_STATUS_FAULT)))"

definition drive_read :: "u16 \<Rightarrow> u16 \<Rightarrow> u16 \<Rightarrow> drive \<Rightarrow> u8 \<times> drive" where
  "drive_read iob control port d =
     (if port = iob + 7 \<or> port = control then (drive_status d, d\<lparr>busy := busy d - 1\<rparr>)
      else if port = iob + 4 then (mid_now d, d)
      else if port = iob + 5 then (high_now d, d)
      else (0, d))"

text \<open>The data register; behind the last word of a sector the drive is busy with the next one.\<close>

definition drive_data :: "u16 \<Rightarrow> u16 \<Rightarrow> drive \<Rightarrow> u16 \<times> drive" where
  "drive_data iob port d =
     (if port = iob then
        if busy d > 0 then (0xFFFF, d)
        else case pending d of [] \<Rightarrow> (0, d)
        | w # ws \<Rightarrow>
            (w, if length ws mod 256 = 0 then d\<lparr>pending := ws, senses := tl (senses d), busy := latency d\<rparr>
                else d\<lparr>pending := ws\<rparr>)
      else (0, d))"

definition sensing_io :: "u16 \<Rightarrow> u16 \<Rightarrow> (nat \<Rightarrow> u8) \<Rightarrow> drive ata_io" where
  "sensing_io iob control sense =
     \<lparr>read_port_u8 = drive_read iob control, write_port_u8 = drive_write sense iob, read_port_u16 = drive_data iob\<rparr>"

text \<open>The ports of a drive that can read all its sectors.\<close>

abbreviation drive_io :: "u16 \<Rightarrow> u16 \<Rightarrow> drive ata_io" where
  "drive_io iob control \<equiv> sensing_io iob control (\<lambda>_. 0)"

text \<open>The driver never changes what is on the disk, nor what the drive says of itself.\<close>

interpretation drive_hardware: read_only_hardware "sensing_io iob control sense" iob
  "\<lambda>d. platter d = disk \<and> identity d = ident \<and> latency d = lat"
  by unfold_locales
    (auto simp: sensing_io_def drive_read_def drive_data_def drive_write_def command_def Let_def split: list.splits)

lemma off_neq: "(iob :: u16) + a = iob + b \<longleftrightarrow> a = b" "iob = iob + b \<longleftrightarrow> b = 0"
  by simp_all

text \<open>A channel to the drive; the control port is not one of the other ports.\<close>

definition sensing_channel :: "(nat \<Rightarrow> u8) \<Rightarrow> drive ata_channel \<Rightarrow> bool" where
  "sensing_channel sense c \<longleftrightarrow> channel_io c = sensing_io (io_base c) (control_base c) sense \<and>
     control_base c - io_base c \<notin> {2, 3, 4, 5, 6}"

abbreviation drive_channel :: "drive ata_channel \<Rightarrow> bool" where
  "drive_channel \<equiv> sensing_channel (\<lambda>_. 0)"

lemma drive_writes:
  assumes "sensing_channel sense c"
  shows "write_register c 2 v d = d\<lparr>count_before := count_now d, count_now := v\<rparr>"
    "write_register c 3 v d = d\<lparr>low_before := low_now d, low_now := v\<rparr>"
    "write_register c 4 v d = d\<lparr>mid_before := mid_now d, mid_now := v\<rparr>"
    "write_register c 5 v d = d\<lparr>high_before := high_now d, high_now := v\<rparr>"
    "write_register c 6 v d = d\<lparr>select := v\<rparr>"
    "write_register c 7 v d = command sense v d"
  using assms by (simp_all add: write_register_def sensing_channel_def sensing_io_def drive_write_def)

lemma drive_reads:
  assumes "sensing_channel sense c"
  shows "status_of c d = (drive_status d, d\<lparr>busy := busy d - 1\<rparr>)"
    "settle c d = d\<lparr>busy := busy d - 4\<rparr>"
proof -
  have r: "read_port_u8 (channel_io c) (io_base c + 7) d = (drive_status d, d\<lparr>busy := busy d - 1\<rparr>)"
    "read_port_u8 (channel_io c) (control_base c) d = (drive_status d, d\<lparr>busy := busy d - 1\<rparr>)" for d
    using assms by (simp_all add: sensing_channel_def sensing_io_def drive_read_def)
  then show "status_of c d = (drive_status d, d\<lparr>busy := busy d - 1\<rparr>)" by (simp add: status_of_def)
  show "settle c d = d\<lparr>busy := busy d - 4\<rparr>" by (simp add: settle_def r(2) numeral_eq_Suc)
qed

lemma sense_bits: "v AND 0x21 \<in> {0, 1, 0x20, 0x21 :: u8}"
proof -
  have n: "(0x20 :: u8) = push_bit 5 1" "(0x21 :: u8) = 1 OR 0x20" by simp_all
  have fault: "bit (0x20 :: u8) n \<longleftrightarrow> n = 5" for n
    unfolding n(1) by (simp only: bit_push_bit_iff bit_1_iff) auto
  have both: "bit (0x21 :: u8) n \<longleftrightarrow> n = 0 \<or> n = 5" for n
    unfolding n(2) by (simp only: bit_or_iff bit_1_iff fault)
  have "v AND 0x21 = (if bit v 0 then 1 else 0) OR (if bit v 5 then 0x20 else 0)"
    by (rule bit_word_eqI, unfold bit_and_iff bit_or_iff both, cases "bit v 0"; cases "bit v 5";
        simp only: if_True if_False fault bit_1_iff simp_thms) (auto intro: gr0I)
  then show ?thesis by (simp split: if_splits)
qed
lemma idle_status:
  assumes "busy d = 0"
  shows "drive_status d \<noteq> 0xFF" "drive_status d \<noteq> 0" "drive_status d AND ATA_STATUS_BUSY = 0"
    "drive_status d AND ATA_STATUS_DRQ \<noteq> 0 \<longleftrightarrow> pending d \<noteq> []"
    "drive_status d AND (ATA_STATUS_ERROR OR ATA_STATUS_FAULT) \<noteq> 0 \<longleftrightarrow> pending d \<noteq> [] \<and> hd (senses d) AND 0x21 \<noteq> 0"
proof -
  have "drive_status d = (if pending d = [] then 0x40 else 0x48 OR (hd (senses d) AND 0x21))"
    using assms by (simp add: drive_status_def or.assoc [symmetric])
  then show "drive_status d \<noteq> 0xFF" "drive_status d \<noteq> 0" "drive_status d AND ATA_STATUS_BUSY = 0"
    "drive_status d AND ATA_STATUS_DRQ \<noteq> 0 \<longleftrightarrow> pending d \<noteq> []"
    "drive_status d AND (ATA_STATUS_ERROR OR ATA_STATUS_FAULT) \<noteq> 0 \<longleftrightarrow> pending d \<noteq> [] \<and> hd (senses d) AND 0x21 \<noteq> 0"
    using sense_bits [of "hd (senses d)"] by auto
qed

lemma drive_poll:
  assumes "sensing_channel sense c" "busy d < n"
  shows "poll n c d = (Some (drive_status (d\<lparr>busy := 0\<rparr>)), d\<lparr>busy := 0\<rparr>)"
  using assms(2)
proof (induction n arbitrary: d)
  case (Suc n)
  show ?case
  proof (cases "busy d = 0")
    case True
    then have eq: "d\<lparr>busy := 0\<rparr> = d" by (cases d) simp
    show ?thesis unfolding eq poll.simps drive_reads [OF assms(1)] True
      by (simp add: eq idle_status [OF True])
  next
    case False
    then have "drive_status d = ATA_STATUS_BUSY" by (simp add: drive_status_def)
    moreover have "busy (d\<lparr>busy := busy d - 1\<rparr>) < n" using Suc.prems False by simp
    ultimately show ?thesis using Suc.IH [of "d\<lparr>busy := busy d - 1\<rparr>"] by (simp add: drive_reads [OF assms(1)])
  qed
qed simp

lemma drive_wait:
  assumes "sensing_channel sense c" "busy d < ATA_POLL_ATTEMPTS"
  shows "wait_for_data c d = (pending d \<noteq> [] \<and> hd (senses d) AND 0x21 = 0, d\<lparr>busy := 0\<rparr>)"
proof -
  let ?d = "d\<lparr>busy := 0\<rparr>"
  have run: "wait_while_busy c d = (Some (drive_status ?d), ?d)"
    unfolding wait_while_busy_def by (rule drive_poll [OF assms])
  have "busy ?d = 0" by simp
  note status = idle_status(4,5) [OF this]
  show ?thesis unfolding wait_for_data_def run prod.case option.case status by simp
qed

text \<open>The words left of the sector that is next.\<close>

lemma drive_words:
  assumes "sensing_channel sense c"
  shows "busy d = 0 \<Longrightarrow> length (pending d) = 256 * m + Suc k \<Longrightarrow> k < 256 \<Longrightarrow>
    read_words (Suc k) c d = (take (Suc k) (pending d),
      d\<lparr>pending := drop (Suc k) (pending d), senses := tl (senses d), busy := latency d\<rparr>)"
proof (induction k arbitrary: d)
  case 0
  then obtain w ws where p: "pending d = w # ws" "length ws = 256 * m" by (cases "pending d") auto
  then show ?case using assms 0 by (simp add: sensing_channel_def sensing_io_def drive_data_def)
next
  case (Suc k)
  then obtain w ws where p: "pending d = w # ws" "length ws = 256 * m + Suc k" by (cases "pending d") auto
  have "length ws mod 256 \<noteq> 0" unfolding p(2) using Suc.prems(3) by simp
  then have r: "read_port_u16 (channel_io c) (io_base c) d = (w, d\<lparr>pending := ws\<rparr>)"
    using assms Suc.prems(1) p(1) by (simp add: sensing_channel_def sensing_io_def drive_data_def)
  have "read_words (Suc k) c (d\<lparr>pending := ws\<rparr>) = (take (Suc k) ws,
      d\<lparr>pending := drop (Suc k) ws, senses := tl (senses d), busy := latency d\<rparr>)"
    using Suc.IH [of "d\<lparr>pending := ws\<rparr>"] Suc.prems p(2) by simp
  then show ?case unfolding read_words.simps(2) [of "Suc k"] by (simp add: r p(1) del: read_words.simps)
qed

lemma sector_words: "(256 :: nat) = Suc 255"
  by simp

lemma drive_each:
  assumes "sensing_channel sense c" "length (pending d) = 256 * n" "length (senses d) = n"
    "busy d < ATA_POLL_ATTEMPTS" "latency d < ATA_POLL_ATTEMPTS"
  shows "fst (read_each n c d) =
    (if \<forall>v \<in> set (senses d). v AND 0x21 = 0 then Some (concat (map word_bytes (pending d))) else None)"
  using assms(2-5)
proof (induction n arbitrary: d)
  case (Suc n)
  let ?d = "d\<lparr>busy := 0\<rparr>"
  obtain v vs where v: "senses d = v # vs" "length vs = n" using Suc.prems(2) by (cases "senses d") auto
  have ne: "pending d \<noteq> []" using Suc.prems(1) by auto
  have w: "wait_for_data c d = (v AND 0x21 = 0, ?d)"
    unfolding drive_wait [OF assms(1) Suc.prems(3)] using ne v(1) by simp
  show ?case
  proof (cases "v AND 0x21 = 0")
    case False
    then show ?thesis by (simp add: w v(1))
  next
    case True
    let ?d2 = "d\<lparr>pending := drop 256 (pending d), senses := vs, busy := latency d\<rparr>"
    have "read_words (Suc 255) c ?d = (take (Suc 255) (pending d), ?d2)"
      using drive_words [OF assms(1), of ?d n 255] Suc.prems(1) v(1) by simp
    then have "read_words 256 c ?d = (take 256 (pending d), ?d2)" by (simp only: sector_words)
    then have s: "read_sector_words c ?d = (concat (map word_bytes (take 256 (pending d))), ?d2)"
      by (simp only: read_sector_words_def prod.case)
    have IH: "fst (read_each n c ?d2) =
        (if \<forall>v \<in> set vs. v AND 0x21 = 0 then Some (concat (map word_bytes (drop 256 (pending d)))) else None)"
      using Suc.IH [of ?d2] Suc.prems v(2) by simp
    obtain rest d3 where r: "read_each n c ?d2 = (rest, d3)" by fastforce
    have "concat (map word_bytes (take 256 (pending d))) @ concat (map word_bytes (drop 256 (pending d))) =
        concat (map word_bytes (pending d))"
      by (simp only: map_append [symmetric] concat_append [symmetric] append_take_drop_id)
    then show ?thesis using True IH r by (simp add: w s v(1))
  qed
qed simp

lemma and_byte: "w AND 0xFF = take_bit 8 (w :: 'a :: len word)"
proof -
  have "(0xFF :: 'a word) = mask 8" by (simp add: mask_eq_exp_minus_1)
  then show ?thesis by (simp add: take_bit_eq_mask)
qed

lemma word_bytes_disk: "word_bytes (disk_word d i) = [d (2 * i), d (2 * i + 1)]"
proof -
  have "ucast (disk_word d i AND 0xFF) = d (2 * i)"
    unfolding and_byte by (rule bit_word_eqI) (auto simp: disk_word_def bit_simps)
  moreover have "ucast (drop_bit 8 (disk_word d i)) = d (2 * i + 1)"
    by (rule bit_word_eqI) (auto simp: disk_word_def bit_simps simp del: drop_bit_or dest: bit_imp_le_length)
  ultimately show ?thesis by (simp add: word_bytes_def)
qed

lemma transfer_bytes: "concat (map word_bytes (transfer d lba n)) = image_bytes d (512 * lba) (512 * n)"
proof -
  have "concat (map word_bytes (map (disk_word d) [a..<a + k])) = image_bytes d (2 * a) (2 * k)" for a k
  proof (induction k)
    case (Suc k)
    have "[2 * a..<2 * a + 2 * Suc k] = [2 * a..<2 * a + 2 * k] @ [2 * (a + k), 2 * (a + k) + 1]"
      by (simp add: upt_rec [of "2 * a + 2 * k"] upt_add_eq_append [symmetric] numeral_2_eq_2)
    then show ?case using Suc by (simp add: word_bytes_disk image_bytes_def)
  qed simp
  from this [of "256 * lba" "256 * n"] show ?thesis by (simp add: transfer_def algebra_simps)
qed

lemma low_byte: "unat (ucast (w AND 0xFF) :: u8) = unat (w :: 'a :: len word) mod 256"
proof -
  have "ucast (w AND 0xFF) = (ucast w :: u8)"
    unfolding and_byte by (rule bit_word_eqI) (auto simp: bit_simps dest: bit_imp_le_length)
  then show ?thesis by (simp add: unsigned_ucast_eq take_bit_eq_mod)
qed

lemma unat_shift: "unat (drop_bit k w) = unat (w :: 'a :: len word) div 2 ^ k"
  by (simp only: unsigned_drop_bit_eq) (simp add: drop_bit_eq_div take_bit_nat_eq_self)

lemma base256:
  fixes x :: nat
  shows "x < 2 ^ 28 \<Longrightarrow>
      x mod 256 + 2 ^ 8 * (x div 2 ^ 8 mod 256) + 2 ^ 16 * (x div 2 ^ 16 mod 256) + 2 ^ 24 * (x div 2 ^ 24 mod 16) = x"
    "x < 2 ^ 48 \<Longrightarrow>
      x mod 256 + 2 ^ 8 * (x div 2 ^ 8 mod 256) + 2 ^ 16 * (x div 2 ^ 16 mod 256) +
      2 ^ 24 * (x div 2 ^ 24 mod 256) + 2 ^ 32 * (x div 2 ^ 32 mod 256) + 2 ^ 40 * (x div 2 ^ 40 mod 256) = x"
proof -
  define y where "y k = x div 2 ^ k" for k
  have step: "y k = y k mod 256 + 256 * y (k + 8)" for k
    by (simp add: y_def power_add div_mult2_eq)
  have y0: "y 0 = x" by (simp add: y_def)
  note s = step [of 0, unfolded y0] step [of 8] step [of 16] step [of 24] step [of 32] step [of 40]
  show "x < 2 ^ 28 \<Longrightarrow>
      x mod 256 + 2 ^ 8 * (x div 2 ^ 8 mod 256) + 2 ^ 16 * (x div 2 ^ 16 mod 256) + 2 ^ 24 * (x div 2 ^ 24 mod 16) = x"
  proof -
    assume "x < 2 ^ 28"
    then have "y 24 < 16" by (simp add: y_def div_less_iff_less_mult)
    then have "y 24 mod 16 = y 24" by simp
    then show ?thesis using s(1-3) unfolding y_def [symmetric] by simp
  qed
  show "x < 2 ^ 48 \<Longrightarrow>
      x mod 256 + 2 ^ 8 * (x div 2 ^ 8 mod 256) + 2 ^ 16 * (x div 2 ^ 16 mod 256) +
      2 ^ 24 * (x div 2 ^ 24 mod 256) + 2 ^ 32 * (x div 2 ^ 32 mod 256) + 2 ^ 40 * (x div 2 ^ 40 mod 256) = x"
  proof -
    assume "x < 2 ^ 48"
    then have "y 40 < 256" by (simp add: y_def div_less_iff_less_mult)
    then have "y 40 mod 256 = y 40" by simp
    then show ?thesis using s(1-5) unfolding y_def [symmetric] by simp
  qed
qed

lemma nibble: "unat (take_bit 4 (x :: u8)) = unat x mod 16"
  by (simp only: unsigned_take_bit_eq) (simp add: take_bit_eq_mod)

lemma select_nibble:
  "unat ((0xE0 OR ucast (drop_bit 24 lba AND 0x0F)) OR (if sl then 0x10 else 0) :: u8) mod 16 = unat (lba :: u64) div 2 ^ 24 mod 16"
proof -
  have m: "(0x0F :: u64) = mask 4" by (simp add: mask_eq_exp_minus_1)
  have t: "take_bit 4 (0xE0 :: u8) = 0" "take_bit 4 (if sl then 0x10 else 0 :: u8) = 0" by simp_all
  have "take_bit 4 ((0xE0 OR ucast (drop_bit 24 lba AND 0x0F)) OR (if sl then 0x10 else 0) :: u8) =
      take_bit 4 (ucast (take_bit 4 (drop_bit 24 lba)))"
    by (simp only: take_bit_or t m take_bit_eq_mask [symmetric]) simp
  then have "unat ((0xE0 OR ucast (drop_bit 24 lba AND 0x0F)) OR (if sl then 0x10 else 0) :: u8) mod 16 =
      unat (take_bit 4 (ucast (take_bit 4 (drop_bit 24 lba)) :: u8))" by (simp only: nibble [symmetric])
  also have "\<dots> = unat (ucast (take_bit 4 (drop_bit 24 lba)) :: u8) mod 16" by (rule nibble)
  also have "\<dots> = unat (drop_bit 24 lba) mod 16"
    by (simp only: unsigned_ucast_eq unsigned_take_bit_eq) (simp add: take_bit_eq_mod mod_mod_cancel)
  finally show ?thesis by (simp only: unat_shift)
qed

lemma low48:
  fixes x :: nat
  shows "x mod 2 ^ 48 mod 256 = x mod 256" "k \<le> 40 \<Longrightarrow> x mod 2 ^ 48 div 2 ^ k mod 256 = x div 2 ^ k mod 256"
proof -
  have "take_bit 8 (drop_bit k (take_bit 48 x)) = take_bit 8 (drop_bit k x)" if "k \<le> 40" for k
    by (rule bit_eqI) (use that in \<open>auto simp: bit_simps\<close>)
  from this [unfolded take_bit_eq_mod drop_bit_eq_div] this [of 0, unfolded take_bit_eq_mod drop_bit_eq_div]
  show "x mod 2 ^ 48 mod 256 = x mod 256" "k \<le> 40 \<Longrightarrow> x mod 2 ^ 48 div 2 ^ k mod 256 = x div 2 ^ k mod 256" by simp_all
qed

text \<open>A drive that has the sectors of a range ready.\<close>

definition carrying :: "(nat \<Rightarrow> u8) \<Rightarrow> drive \<Rightarrow> nat \<Rightarrow> nat \<Rightarrow> drive \<Rightarrow> bool" where
  "carrying sense d lba n d' \<longleftrightarrow> pending d' = transfer (platter d) lba n \<and> senses d' = map sense [lba..<lba + n] \<and>
     busy d' = latency d \<and> latency d' = latency d"

lemma run28:
  assumes "sensing_channel sense c"
  shows "carrying sense d (unat lo + 2 ^ 8 * unat mi + 2 ^ 16 * unat hi + 2 ^ 24 * (unat se mod 16))
    (if k = 0 then 256 else unat k)
    (write_register c 7 0x20 (write_register c 5 hi (write_register c 4 mi (write_register c 3 lo
       (write_register c 2 k (settle c (write_register c 6 se d)))))))"
  by (simp add: carrying_def drive_writes [OF assms] drive_reads(2) [OF assms] command_def address28_def Let_def)

lemma run48:
  assumes "sensing_channel sense c"
  shows "carrying sense d (unat lo + 2 ^ 8 * unat mi + 2 ^ 16 * unat hi + 2 ^ 24 * unat lo' + 2 ^ 32 * unat mi' + 2 ^ 40 * unat hi')
    (let n = unat k + 256 * unat k' in if n = 0 then 65536 else n)
    (write_register c 7 0x24 (write_register c 5 hi (write_register c 4 mi (write_register c 3 lo
       (write_register c 2 k (write_register c 5 hi' (write_register c 4 mi' (write_register c 3 lo'
       (write_register c 2 k' (settle c (write_register c 6 se d)))))))))))"
  by (simp add: carrying_def drive_writes [OF assms] drive_reads(2) [OF assms] command_def address48_def Let_def)

lemma issue28:
  assumes "sensing_channel sense c" "unat lba < 2 ^ 28" "0 < n" "unat n \<le> 256"
  shows "carrying sense d (unat lba) (unat n) (issue_lba28 c lba n d)"
proof -
  have n: "unat (ucast (if n = 256 then 0 else n) :: u8) = (if unat n = 256 then 0 else unat n)"
  proof (cases "n = 256")
    case False
    then have "unat n \<noteq> 256" by (simp add: word_unat_eq_iff)
    then show ?thesis using False assms(4) by (simp add: unsigned_ucast_eq take_bit_nat_eq_self)
  qed simp
  have n0: "unat n \<noteq> 0" using assms(3) by (simp add: unat_gt_0 word_gt_0)
  have c: "(if (ucast (if n = 256 then 0 else n) :: u8) = 0 then 256 else unat (ucast (if n = 256 then 0 else n) :: u8)) = unat n"
    using n n0 by (simp add: word_unat_eq_iff)
  have a: "unat (ucast (lba AND 0xFF) :: u8) + 2 ^ 8 * unat (ucast (drop_bit 8 lba AND 0xFF) :: u8) +
      2 ^ 16 * unat (ucast (drop_bit 16 lba AND 0xFF) :: u8) +
      2 ^ 24 * (unat ((0xE0 OR ucast (drop_bit 24 lba AND 0x0F)) OR (if slave c then 0x10 else 0) :: u8) mod 16) = unat lba"
    unfolding select_nibble unat_shift low_byte by (rule base256(1) [OF assms(2)])
  show ?thesis
    using run28 [OF assms(1), of d "ucast (lba AND 0xFF)" "ucast (drop_bit 8 lba AND 0xFF)" "ucast (drop_bit 16 lba AND 0xFF)"
        "(0xE0 OR ucast (drop_bit 24 lba AND 0x0F)) OR (if slave c then 0x10 else 0)" "ucast (if n = 256 then 0 else n)"]
    unfolding a c by (simp only: issue_lba28_def Let_def select_drive_def)
qed

lemma issue48:
  assumes "sensing_channel sense c" "0 < n" "unat n \<le> 65536"
  shows "carrying sense d (unat lba mod 2 ^ 48) (unat n) (issue_lba48 c lba n d)"
proof -
  have n0: "unat n \<noteq> 0" using assms(2) by (simp add: unat_gt_0 word_gt_0)
  have n: "unat (ucast (n AND 0xFF) :: u8) + 256 * unat (ucast (drop_bit 8 n AND 0xFF) :: u8) = unat n mod 65536"
    unfolding unat_shift low_byte using mod_mult2_eq [of "unat n" 256 256] by simp
  have c: "(let k = unat (ucast (n AND 0xFF) :: u8) + 256 * unat (ucast (drop_bit 8 n AND 0xFF) :: u8)
      in if k = 0 then 65536 else k) = unat n"
  proof (cases "unat n = 65536")
    case False
    then have "unat n mod 65536 = unat n" using assms(3) by simp
    then show ?thesis unfolding n Let_def using n0 by simp
  qed (simp add: n)
  have a: "unat (ucast (lba AND 0xFF) :: u8) + 2 ^ 8 * unat (ucast (drop_bit 8 lba AND 0xFF) :: u8) +
      2 ^ 16 * unat (ucast (drop_bit 16 lba AND 0xFF) :: u8) + 2 ^ 24 * unat (ucast (drop_bit 24 lba AND 0xFF) :: u8) +
      2 ^ 32 * unat (ucast (drop_bit 32 lba AND 0xFF) :: u8) + 2 ^ 40 * unat (ucast (drop_bit 40 lba AND 0xFF) :: u8) = unat lba mod 2 ^ 48"
  proof -
    have "unat lba mod 2 ^ 48 < 2 ^ 48" by simp
    note base = base256(2) [OF this]
    have k: "8 \<le> (40 :: nat)" "16 \<le> (40 :: nat)" "24 \<le> (40 :: nat)" "32 \<le> (40 :: nat)" "40 \<le> (40 :: nat)" by simp_all
    show ?thesis
      using base unfolding unat_shift low_byte low48(1) k [THEN low48(2)] .
  qed
  show ?thesis
    using run48 [OF assms(1), of d "ucast (lba AND 0xFF)" "ucast (drop_bit 8 lba AND 0xFF)" "ucast (drop_bit 16 lba AND 0xFF)"
        "ucast (drop_bit 24 lba AND 0xFF)" "ucast (drop_bit 32 lba AND 0xFF)" "ucast (drop_bit 40 lba AND 0xFF)"
        "ucast (n AND 0xFF)" "ucast (drop_bit 8 n AND 0xFF)" "0x40 OR (if slave c then 0x10 else 0)"]
    unfolding a c by (simp only: issue_lba48_def Let_def select_drive_def)
qed

lemma ata_read_sensed:
  assumes c: "sensing_channel sense c" and lat: "latency d < ATA_POLL_ATTEMPTS"
  shows "fst (ata_read_sectors c lba n d) =
    (let a = (if lba48 c then unat lba mod 2 ^ 48 else unat lba)
     in if 0 < unat n \<and> unat n \<le> (if lba48 c then 65536 else 256) \<and>
          (if lba48 c then unat lba + unat n < 2 ^ 64 else unat lba + unat n \<le> 2 ^ 28) \<and>
          (\<forall>i < unat n. sense (a + i) AND 0x21 = 0)
        then Some (image_bytes (platter d) (512 * a) (512 * unat n)) else None)"
proof -
  have each: "fst (read_each (unat n) c (settle c d')) =
      (if \<forall>i < unat n. sense (a + i) AND 0x21 = 0 then Some (image_bytes (platter d) (512 * a) (512 * unat n)) else None)"
    if d': "carrying sense d a (unat n) d'" for d' a
  proof -
    let ?d = "d'\<lparr>busy := busy d' - 4\<rparr>"
    have sectors: "(\<forall>x \<in> {a..<a + k}. P x) = (\<forall>i < k. P (a + i))" for k and P :: "nat \<Rightarrow> bool"
      by (metis add.commute atLeastLessThan_iff le_add1 le_add_diff_inverse2 less_diff_conv2 nat_add_left_cancel_less)
    have "fst (read_each (unat n) c ?d) =
        (if \<forall>v \<in> set (senses ?d). v AND 0x21 = 0 then Some (concat (map word_bytes (pending ?d))) else None)"
      using d' lat by (intro drive_each [OF c]) (simp_all add: carrying_def transfer_def)
    then show ?thesis using d' by (simp add: drive_reads(2) [OF c] carrying_def transfer_bytes sectors)
  qed
  have n0: "n = 0 \<longleftrightarrow> unat n = 0" by (simp add: word_unat_eq_iff)
  have nu: "unat (ucast n :: u64) = unat n" by (simp add: unat_ucast_up)
  have big: "n > 65536 \<longleftrightarrow> \<not> unat n \<le> 65536" "n > 256 \<longleftrightarrow> \<not> unat n \<le> 256" by (simp_all add: word_less_nat_alt not_le)
  consider "n = 0" | "n \<noteq> 0" "lba48 c" | "n \<noteq> 0" "\<not> lba48 c" by blast
  then show ?thesis
  proof cases
    case 1
    then show ?thesis by (simp add: ata_read_sectors_def)
  next
    case 2
    have "0 < n" using 2 by (simp add: word_gt_0)
    from issue48 [OF c this, where lba = lba and d = d, THEN each] 2 n0 show ?thesis
      by (auto simp: ata_read_sectors_def checked_add_u64_def nu big Let_def simp del: unat_eq_0)
  next
    case 3
    have "0 < n" using 3 by (simp add: word_gt_0)
    have end': "unat (lba + ucast n) = unat lba + unat n" if "unat lba + unat n < 2 ^ 64"
      using that nu by (simp add: unat_add_fits)
    have "unat lba < 2 ^ 28" if "unat lba + unat n \<le> 2 ^ 28" using that 3(1) n0 by linarith
    then have issued: "fst (read_each (unat n) c (settle c (issue_lba28 c lba n d))) =
        (if \<forall>i < unat n. sense (unat lba + i) AND 0x21 = 0 then Some (image_bytes (platter d) (512 * unat lba) (512 * unat n)) else None)"
      if "unat lba + unat n \<le> 2 ^ 28" "unat n \<le> 256"
      using that issue28 [OF c _ \<open>0 < n\<close>, where lba = lba and d = d, THEN each] by blast
    show ?thesis
      using 3 n0 end' issued
      by (auto simp: ata_read_sectors_def checked_add_u64_def nu big Let_def word_less_nat_alt simp del: unat_eq_0)
  qed
qed

lemma ata_read_run:
  assumes "drive_channel c" "latency d < ATA_POLL_ATTEMPTS" "lba48 c \<Longrightarrow> unat lba + unat n \<le> 2 ^ 48"
  shows "fst (ata_read_sectors c lba n d) =
    (if 0 < unat n \<and> unat n \<le> (if lba48 c then 65536 else 256) \<and> (lba48 c \<or> unat lba + unat n \<le> 2 ^ 28)
     then Some (image_bytes (platter d) (512 * unat lba) (512 * unat n)) else None)"
  using assms(3) by (auto simp: ata_read_sensed [OF assms(1,2)] Let_def)

lemma drive_identify:
  assumes c: "sensing_channel sense c" "control_base c - io_base c \<noteq> 0"
    and d: "length (identity d) = 256" "latency d < ATA_POLL_ATTEMPTS"
  shows "fst (identify c d) = Some (identity d)"
proof -
  obtain d1 where d1: "write_register c 7 0xEC (write_register c 5 0 (write_register c 4 0 (write_register c 3 0
       (write_register c 2 0 (select_drive c 0xE0 d))))) = d1" by simp
  then have f: "pending d1 = identity d" "senses d1 = [0]" "busy d1 = latency d" "latency d1 = latency d" "mid_now d1 = 0" "high_now d1 = 0"
    by (auto simp: select_drive_def drive_writes [OF c(1)] drive_reads(2) [OF c(1)] command_def Let_def)
  let ?d2 = "d1\<lparr>busy := busy d1 - 5\<rparr>"
  have ne: "identity d \<noteq> []" using d(1) by auto
  have st: "drive_status x \<noteq> 0" for x by (cases "busy x = 0") (simp add: idle_status, simp add: drive_status_def)
  have r: "settle c d1 = d1\<lparr>busy := busy d1 - 4\<rparr>" "status_of c (d1\<lparr>busy := busy d1 - 4\<rparr>) = (drive_status (d1\<lparr>busy := busy d1 - 4\<rparr>), ?d2)"
    by (simp_all add: drive_reads [OF c(1)])
  have m: "read_port_u8 (channel_io c) (io_base c + 4) x = (mid_now x, x)" "read_port_u8 (channel_io c) (io_base c + 5) x = (high_now x, x)" for x
  proof -
    have "io_base c + k \<noteq> control_base c" if "control_base c - io_base c \<noteq> k" for k
    proof
      assume "io_base c + k = control_base c"
      then have "control_base c - io_base c = k" by (metis add_diff_cancel_left')
      with that show False ..
    qed
    then have "io_base c + 4 \<noteq> control_base c" "io_base c + 5 \<noteq> control_base c"
      using c(1) by (simp_all add: sensing_channel_def)
    then show "read_port_u8 (channel_io c) (io_base c + 4) x = (mid_now x, x)" "read_port_u8 (channel_io c) (io_base c + 5) x = (high_now x, x)"
      using c(1) by (auto simp: sensing_channel_def sensing_io_def drive_read_def)
  qed
  let ?d3 = "d1\<lparr>busy := 0\<rparr>"
  have "busy ?d2 < ATA_POLL_ATTEMPTS" using f(3) d(2) by simp
  then have w: "wait_for_data c ?d2 = (True, ?d3)" unfolding drive_wait [OF c(1) \<open>busy ?d2 < _\<close>] using f(1,2) ne by simp
  have "length (pending ?d3) = 256 * 0 + Suc 255" using f(1) d(1) by simp
  from drive_words [OF c(1) _ this] have "\<exists>d4. read_words (Suc 255) c ?d3 = (identity d, d4)" using f(1) d(1) by simp
  then obtain d4 where "read_words 256 c ?d3 = (identity d, d4)" by (auto simp only: sector_words)
  then show ?thesis
    unfolding identify_def Let_def d1 r prod.case m w using st f(5,6) by simp
qed

text \<open>A drive that says it has LBA and a size is found, with the size it says.\<close>

lemma drive_probe:
  assumes "control - iob \<notin> {0, 2, 3, 4, 5, 6}" "length (identity d) = 256" "latency d < ATA_POLL_ATTEMPTS"
  defines "l48 \<equiv> identity d ! 83 AND 0x400 \<noteq> 0"
  shows "fst (ata_probe (drive_io iob control) iob control sl d) =
    (if identity d ! 49 AND 0x200 \<noteq> 0 \<and> sectors_from_identify (identity d) l48 \<noteq> 0
     then Some (\<lparr>channel_io = drive_io iob control, io_base = iob, control_base = control, slave = sl, lba48 = l48\<rparr>,
       sectors_from_identify (identity d) l48) else None)"
proof -
  let ?c = "\<lparr>channel_io = drive_io iob control, io_base = iob, control_base = control, slave = sl, lba48 = False\<rparr>"
  have "fst (identify ?c d) = Some (identity d)"
    by (rule drive_identify) (use assms in \<open>simp_all add: sensing_channel_def\<close>)
  then obtain d' where "identify ?c d = (Some (identity d), d')" by (cases "identify ?c d") simp
  then show ?thesis by (simp add: ata_probe_def Let_def l48_def)
qed

text \<open>
  C38. Through a drive whose registers do what they are for, however long it is busy within the polling limit, a read
  answers exactly the sectors asked for, in the order of the disk, and is refused exactly when it is empty, larger than
  one command can carry, outside 28-bit addresses (with 48-bit addresses: when its end is not a 64-bit number), or when
  the drive reports an error or a fault for one of the sectors. What is asked for with 48-bit addresses are the sectors
  from the low 48 bits of the address on: the code does not look at the others.
\<close>

theorem ata_read_exact:
  assumes "sensing_channel sense c" "latency d < ATA_POLL_ATTEMPTS"
  shows "fst (ata_read_sectors c lba n d) =
    (let a = (if lba48 c then unat lba mod 2 ^ 48 else unat lba)
     in if 0 < unat n \<and> unat n \<le> (if lba48 c then 65536 else 256) \<and>
          (if lba48 c then unat lba + unat n < 2 ^ 64 else unat lba + unat n \<le> 2 ^ 28) \<and>
          (\<forall>i < unat n. sense (a + i) AND 0x21 = 0)
        then Some (image_bytes (platter d) (512 * a) (512 * unat n)) else None)"
  by (rule ata_read_sensed [OF assms])

definition demo_drive :: drive where
  "demo_drive = \<lparr>platter = demo_disk, identity = replicate 256 0, count_now = 0, count_before = 0, low_now = 0, low_before = 0,
     mid_now = 0, mid_before = 0, high_now = 0, high_before = 0, select = 0, pending = [], senses = [], busy = 7, latency = 20\<rparr>"

definition demo_channel_of :: "(nat \<Rightarrow> u8) \<Rightarrow> bool \<Rightarrow> drive ata_channel" where
  "demo_channel_of sense l48 = \<lparr>channel_io = sensing_io 0x1F0 0x3F6 sense, io_base = 0x1F0, control_base = 0x3F6, slave = False, lba48 = l48\<rparr>"

abbreviation demo_channel :: "bool \<Rightarrow> drive ata_channel" where
  "demo_channel \<equiv> demo_channel_of (\<lambda>_. 0)"

lemma demo_channel: "sensing_channel sense (demo_channel_of sense l48)" "lba48 (demo_channel_of sense l48) = l48" "latency demo_drive < ATA_POLL_ATTEMPTS"
  by (simp_all add: sensing_channel_def demo_channel_of_def demo_drive_def)

text \<open>Three sectors, three past the end of 28-bit addresses, and three of which the second cannot be read.\<close>

theorem ata_read_exact_witness:
  "fst (ata_read_sectors (demo_channel True) 0x123456789 3 demo_drive) = Some (image_bytes demo_disk (512 * 0x123456789) 1536) \<and>
   fst (ata_read_sectors (demo_channel False) 0x0FFFFFFE 3 demo_drive) = None \<and>
   fst (ata_read_sectors (demo_channel_of (\<lambda>i. if i = 6 then 1 else 0) False) 5 3 demo_drive) = None"
proof -
  have "\<exists>i < 3. i = (1 :: nat)" by simp
  then show ?thesis
    using ata_read_exact [OF demo_channel(1) [of "\<lambda>_. 0" True] demo_channel(3), of "0x123456789" 3]
      ata_read_exact [OF demo_channel(1) [of "\<lambda>_. 0" False] demo_channel(3), of "0x0FFFFFFE" 3]
      ata_read_exact [OF demo_channel(1) [of "\<lambda>i. if i = 6 then 1 else 0" False] demo_channel(3), of 5 3]
    by (simp add: demo_channel(2) Let_def) (auto simp add: demo_drive_def)
qed

text \<open>
  C39. Whatever the hardware answers, the driver never issues a command other than the two reads and IDENTIFY, and writes
  no register besides the address registers: what these cannot break, probing and reading do not break.
\<close>

theorem ata_driver_only_reads:
  fixes io :: "'s ata_io"
  assumes "\<And>port s. P s \<Longrightarrow> P (snd (read_port_u8 io port s)) \<and> P (snd (read_port_u16 io port s))"
    and "\<And>off v s. P s \<Longrightarrow> off \<in> {2, 3, 4, 5, 6} \<Longrightarrow> P (write_port_u8 io (iob + off) v s)"
    and "\<And>v s. P s \<Longrightarrow> v \<in> {ATA_COMMAND_READ_SECTORS, ATA_COMMAND_READ_SECTORS_EXT, ATA_COMMAND_IDENTIFY} \<Longrightarrow>
      P (write_port_u8 io (iob + ATA_REGISTER_COMMAND) v s)"
    and "P s" "channel_io c = io" "io_base c = iob"
  shows "P (snd (ata_probe io iob control sl s)) \<and> P (snd (ata_read_sectors c lba n s))"
proof -
  have hw: "read_only_hardware io iob P" using assms(1-3) by unfold_locales blast+
  have "read_only_hardware.drives io iob c" unfolding read_only_hardware.drives_def [OF hw] using assms(5,6) by blast
  then show ?thesis
    using read_only_hardware.probe_keeps [OF hw assms(4)] read_only_hardware.read_sectors_keeps [OF hw _ assms(4)] by blast
qed

theorem ata_driver_only_reads_witness:
  "platter (snd (ata_read_sectors (demo_channel True) 5 3 demo_drive)) = demo_disk"
proof -
  have "platter (snd (ata_probe (drive_io 0x1F0 0x3F6) 0x1F0 0x3F6 False demo_drive)) = demo_disk \<and>
      platter (snd (ata_read_sectors (demo_channel True) 5 3 demo_drive)) = demo_disk"
    by (rule ata_driver_only_reads [where P = "\<lambda>d. platter d = demo_disk"])
      (auto simp: sensing_io_def drive_read_def drive_data_def drive_write_def command_def Let_def demo_drive_def
        demo_channel_of_def split: list.splits)
  then show ?thesis by blast
qed

text \<open>The 48-bit path does not look at the end of the range: behind the last address it reads the first sector.\<close>

lemma lba48_wraps:
  "fst (ata_read_sectors (demo_channel True) 0x1000000000000 1 demo_drive) = Some (image_bytes demo_disk 0 512)"
proof -
  have "issue_lba48 (demo_channel True) 0x1000000000000 1 = issue_lba48 (demo_channel True) 0 1"
    by (simp add: fun_eq_iff issue_lba48_def)
  then have "ata_read_sectors (demo_channel True) 0x1000000000000 1 demo_drive = ata_read_sectors (demo_channel True) 0 1 demo_drive"
    by (simp add: ata_read_sectors_def demo_channel(2) checked_add_u64_def)
  then show ?thesis using ata_read_run [OF demo_channel(1) [of "\<lambda>_. 0" True] demo_channel(3), of 0 1] by (simp add: demo_channel(2)) (simp add: demo_drive_def)
qed

end
