(* ===== verification/Cpu.thy ===== *)
theory Cpu
  imports Mem
begin

text \<open>
  \<open>src/cpu/cpuid.c\<close>, \<open>src/cpu/gdt.c\<close> and the arithmetic of \<open>src/boot/guard.c\<close>: what the processor says of
  itself, given the \<open>cpuid\<close> instruction as a function; the descriptors the processor reads; and the stack canary,
  given the timestamp.
\<close>

subsection \<open>Features\<close>

abbreviation (input) LEAF_VENDOR :: u32 where "LEAF_VENDOR \<equiv> 0x00000000"
abbreviation (input) LEAF_FEATURES :: u32 where "LEAF_FEATURES \<equiv> 0x00000001"
abbreviation (input) LEAF_EXTENDED_FEATURES :: u32 where "LEAF_EXTENDED_FEATURES \<equiv> 0x00000007"
abbreviation (input) LEAF_EXTENDED_MAX :: u32 where "LEAF_EXTENDED_MAX \<equiv> 0x80000000"
abbreviation (input) LEAF_EXTENDED_FEATURE_BITS :: u32 where "LEAF_EXTENDED_FEATURE_BITS \<equiv> 0x80000001"
abbreviation (input) LEAF_ADDRESS_SIZES :: u32 where "LEAF_ADDRESS_SIZES \<equiv> 0x80000008"
abbreviation (input) LEAF_INVARIANT_TSC :: u32 where "LEAF_INVARIANT_TSC \<equiv> 0x80000007"
abbreviation (input) FEATURE_ECX_XSAVE :: u32 where "FEATURE_ECX_XSAVE \<equiv> 0x04000000"
abbreviation (input) FEATURE_ECX_OSXSAVE :: u32 where "FEATURE_ECX_OSXSAVE \<equiv> 0x08000000"
abbreviation (input) FEATURE_ECX_AVX :: u32 where "FEATURE_ECX_AVX \<equiv> 0x10000000"
abbreviation (input) FEATURE_ECX_RDRAND :: u32 where "FEATURE_ECX_RDRAND \<equiv> 0x40000000"
abbreviation (input) FEATURE_ECX_PCID :: u32 where "FEATURE_ECX_PCID \<equiv> 0x00020000"
abbreviation (input) EXTENDED_EBX_SMEP :: u32 where "EXTENDED_EBX_SMEP \<equiv> 0x00000080"
abbreviation (input) EXTENDED_EBX_AVX2 :: u32 where "EXTENDED_EBX_AVX2 \<equiv> 0x00000020"
abbreviation (input) EXTENDED_EBX_SMAP :: u32 where "EXTENDED_EBX_SMAP \<equiv> 0x00100000"
abbreviation (input) EXTENDED_EBX_RDSEED :: u32 where "EXTENDED_EBX_RDSEED \<equiv> 0x00040000"
abbreviation (input) EXTENDED_ECX_UMIP :: u32 where "EXTENDED_ECX_UMIP \<equiv> 0x00000004"
abbreviation (input) EXTENDED_FEATURE_EDX_NX :: u32 where "EXTENDED_FEATURE_EDX_NX \<equiv> 0x00100000"
abbreviation (input) EXTENDED_FEATURE_EDX_GBPAGES :: u32 where "EXTENDED_FEATURE_EDX_GBPAGES \<equiv> 0x04000000"
abbreviation (input) EXTENDED_FEATURE_EDX_LONG_MODE :: u32 where "EXTENDED_FEATURE_EDX_LONG_MODE \<equiv> 0x20000000"
abbreviation (input) INVARIANT_TSC_EDX :: u32 where "INVARIANT_TSC_EDX \<equiv> 0x00000100"
abbreviation (input) ADDRESS_BITS_MASK :: u32 where "ADDRESS_BITS_MASK \<equiv> 0xFF"
abbreviation (input) LINEAR_BITS_SHIFT :: nat where "LINEAR_BITS_SHIFT \<equiv> 8"
abbreviation (input) DEFAULT_PHYSICAL_ADDRESS_BITS :: u8 where "DEFAULT_PHYSICAL_ADDRESS_BITS \<equiv> 36"
abbreviation (input) DEFAULT_LINEAR_ADDRESS_BITS :: u8 where "DEFAULT_LINEAR_ADDRESS_BITS \<equiv> 48"
abbreviation (input) VENDOR_REGISTER_BYTES :: nat where "VENDOR_REGISTER_BYTES \<equiv> 4"

record cpuid_result =
  eax :: u32
  ebx :: u32
  ecx :: u32
  edx :: u32

type_synonym cpuid_query = "u32 \<Rightarrow> u32 \<Rightarrow> cpuid_result"

record cpu_features =
  long_mode :: bool
  no_execute :: bool
  gigabyte_pages :: bool
  pcid :: bool
  smep :: bool
  smap :: bool
  umip :: bool
  xsave :: bool
  osxsave :: bool
  avx :: bool
  avx2 :: bool
  rdrand :: bool
  rdseed :: bool
  invariant_tsc :: bool
  physical_address_bits :: u8
  linear_address_bits :: u8
  vendor :: "u8 list"

definition no_features :: cpu_features where
  "no_features = \<lparr>long_mode = False, no_execute = False, gigabyte_pages = False, pcid = False, smep = False,
     smap = False, umip = False, xsave = False, osxsave = False, avx = False, avx2 = False, rdrand = False,
     rdseed = False, invariant_tsc = False, physical_address_bits = 0, linear_address_bits = 0,
     vendor = replicate 13 0\<rparr>"

definition store_vendor_register :: "nat \<Rightarrow> u32 \<Rightarrow> u8 list \<Rightarrow> u8 list" where
  "store_vendor_register at value out =
     fold (\<lambda>index out. out[at + index := ucast (drop_bit (index * 8) value AND 0xFF)]) [0..<VENDOR_REGISTER_BYTES] out"

definition basic_features :: "cpuid_query \<Rightarrow> u32 \<Rightarrow> cpu_features \<Rightarrow> cpu_features" where
  "basic_features query highest_basic_leaf out =
     (if highest_basic_leaf \<ge> LEAF_FEATURES then
        let result = query LEAF_FEATURES 0
        in out\<lparr>xsave := ecx result AND FEATURE_ECX_XSAVE \<noteq> 0, osxsave := ecx result AND FEATURE_ECX_OSXSAVE \<noteq> 0,
               avx := ecx result AND FEATURE_ECX_AVX \<noteq> 0, rdrand := ecx result AND FEATURE_ECX_RDRAND \<noteq> 0,
               pcid := ecx result AND FEATURE_ECX_PCID \<noteq> 0\<rparr>
      else out)"

definition structured_features :: "cpuid_query \<Rightarrow> u32 \<Rightarrow> cpu_features \<Rightarrow> cpu_features" where
  "structured_features query highest_basic_leaf out =
     (if highest_basic_leaf \<ge> LEAF_EXTENDED_FEATURES then
        let result = query LEAF_EXTENDED_FEATURES 0
        in out\<lparr>smep := ebx result AND EXTENDED_EBX_SMEP \<noteq> 0, smap := ebx result AND EXTENDED_EBX_SMAP \<noteq> 0,
               avx2 := ebx result AND EXTENDED_EBX_AVX2 \<noteq> 0, rdseed := ebx result AND EXTENDED_EBX_RDSEED \<noteq> 0,
               umip := ecx result AND EXTENDED_ECX_UMIP \<noteq> 0\<rparr>
      else out)"

definition extended_features :: "cpuid_query \<Rightarrow> u32 \<Rightarrow> cpu_features \<Rightarrow> cpu_features" where
  "extended_features query highest_extended_leaf out =
     (let out = (if highest_extended_leaf \<ge> LEAF_EXTENDED_FEATURE_BITS then
            let result = query LEAF_EXTENDED_FEATURE_BITS 0
            in out\<lparr>long_mode := edx result AND EXTENDED_FEATURE_EDX_LONG_MODE \<noteq> 0,
                   no_execute := edx result AND EXTENDED_FEATURE_EDX_NX \<noteq> 0,
                   gigabyte_pages := edx result AND EXTENDED_FEATURE_EDX_GBPAGES \<noteq> 0\<rparr>
          else out);
          out = (if highest_extended_leaf \<ge> LEAF_INVARIANT_TSC then
            let result = query LEAF_INVARIANT_TSC 0
            in out\<lparr>invariant_tsc := edx result AND INVARIANT_TSC_EDX \<noteq> 0\<rparr>
          else out)
      in if highest_extended_leaf \<ge> LEAF_ADDRESS_SIZES then
           let result = query LEAF_ADDRESS_SIZES 0;
               physical = ucast (eax result AND ADDRESS_BITS_MASK) :: u8;
               linear = ucast (drop_bit LINEAR_BITS_SHIFT (eax result) AND ADDRESS_BITS_MASK) :: u8;
               out = (if physical \<noteq> 0 then out\<lparr>physical_address_bits := physical\<rparr> else out)
           in if linear \<noteq> 0 then out\<lparr>linear_address_bits := linear\<rparr> else out
         else out)"

definition cpu_features_detect :: "cpuid_query \<Rightarrow> cpu_features" where
  "cpu_features_detect query =
     (let out = no_features;
          result = query LEAF_VENDOR 0;
          highest_basic_leaf = eax result;
          out = out\<lparr>vendor := (store_vendor_register 8 (ecx result)
             (store_vendor_register 4 (edx result) (store_vendor_register 0 (ebx result) (vendor out))))[12 := 0]\<rparr>;
          out = basic_features query highest_basic_leaf out;
          out = structured_features query highest_basic_leaf out;
          out = (if \<not> osxsave out then out\<lparr>avx := False, avx2 := False\<rparr> else out);
          result = query LEAF_EXTENDED_MAX 0;
          highest_extended_leaf = eax result;
          out = out\<lparr>physical_address_bits := DEFAULT_PHYSICAL_ADDRESS_BITS,
                    linear_address_bits := DEFAULT_LINEAR_ADDRESS_BITS\<rparr>
      in extended_features query highest_extended_leaf out)"

subsection \<open>Descriptors\<close>

abbreviation (input) GDT_SELECTOR_CODE64 :: nat where "GDT_SELECTOR_CODE64 \<equiv> 0x08"
abbreviation (input) GDT_SELECTOR_DATA64 :: nat where "GDT_SELECTOR_DATA64 \<equiv> 0x10"
abbreviation (input) GDT_SELECTOR_CODE32 :: nat where "GDT_SELECTOR_CODE32 \<equiv> 0x18"
abbreviation (input) GDT_SELECTOR_DATA32 :: nat where "GDT_SELECTOR_DATA32 \<equiv> 0x20"
abbreviation (input) GDT_SELECTOR_CODE16 :: nat where "GDT_SELECTOR_CODE16 \<equiv> 0x28"
abbreviation (input) GDT_SELECTOR_DATA16 :: nat where "GDT_SELECTOR_DATA16 \<equiv> 0x30"
abbreviation (input) GDT_ENTRY_COUNT :: nat where "GDT_ENTRY_COUNT \<equiv> 7"
abbreviation (input) GDT_ENTRY_BYTES :: nat where "GDT_ENTRY_BYTES \<equiv> 8"
abbreviation (input) ACCESS_PRESENT :: u8 where "ACCESS_PRESENT \<equiv> 0x80"
abbreviation (input) ACCESS_SEGMENT :: u8 where "ACCESS_SEGMENT \<equiv> 0x10"
abbreviation (input) ACCESS_EXECUTABLE :: u8 where "ACCESS_EXECUTABLE \<equiv> 0x08"
abbreviation (input) ACCESS_READ_WRITE :: u8 where "ACCESS_READ_WRITE \<equiv> 0x02"
abbreviation (input) FLAG_GRANULARITY_4K :: u8 where "FLAG_GRANULARITY_4K \<equiv> 0x80"
abbreviation (input) FLAG_SIZE_32 :: u8 where "FLAG_SIZE_32 \<equiv> 0x40"
abbreviation (input) FLAG_LONG_MODE :: u8 where "FLAG_LONG_MODE \<equiv> 0x20"
abbreviation (input) LIMIT_MAX_20_BIT :: u32 where "LIMIT_MAX_20_BIT \<equiv> 0xFFFFF"
abbreviation (input) FLAGS_MASK :: u8 where "FLAGS_MASK \<equiv> 0xF0"
abbreviation (input) CODE_ACCESS :: u8 where
  "CODE_ACCESS \<equiv> ACCESS_PRESENT OR ACCESS_SEGMENT OR ACCESS_EXECUTABLE OR ACCESS_READ_WRITE"
abbreviation (input) DATA_ACCESS :: u8 where "DATA_ACCESS \<equiv> ACCESS_PRESENT OR ACCESS_SEGMENT OR ACCESS_READ_WRITE"
abbreviation (input) REAL_MODE_LIMIT :: u32 where "REAL_MODE_LIMIT \<equiv> 0xFFFF"

text \<open>The eight bytes written at \<open>entry\<close>; \<open>None\<close> writes nothing.\<close>

definition gdt_encode :: "u32 \<Rightarrow> u32 \<Rightarrow> u8 \<Rightarrow> u8 \<Rightarrow> u8 list option" where
  "gdt_encode base limit access flags =
     (if limit > LIMIT_MAX_20_BIT then None
      else if flags AND NOT FLAGS_MASK \<noteq> 0 then None
      else Some [ucast (limit AND 0xFF), ucast (drop_bit 8 limit AND 0xFF), ucast (base AND 0xFF),
             ucast (drop_bit 8 base AND 0xFF), ucast (drop_bit 16 base AND 0xFF), access,
             ucast (drop_bit 16 limit AND 0x0F) OR (flags AND FLAGS_MASK), ucast (drop_bit 24 base AND 0xFF)])"

definition gdt_put :: "nat \<Rightarrow> u32 \<Rightarrow> u32 \<Rightarrow> u8 \<Rightarrow> u8 \<Rightarrow> u8 list \<Rightarrow> u8 list" where
  "gdt_put selector base limit access flags table =
     (case gdt_encode base limit access flags of
        None \<Rightarrow> table
      | Some entry \<Rightarrow> take selector table @ entry @ drop (selector + 8) table)"

text \<open>\<open>table\<close> is the buffer of \<open>capacity\<close> bytes.\<close>

definition gdt_build :: "u8 list \<Rightarrow> u8 list" where
  "gdt_build table =
     (if length table < GDT_ENTRY_COUNT * GDT_ENTRY_BYTES then table
      else
        let table = replicate (length table) 0;
            table = gdt_put GDT_SELECTOR_CODE64 0 LIMIT_MAX_20_BIT CODE_ACCESS (FLAG_GRANULARITY_4K OR FLAG_LONG_MODE) table;
            table = gdt_put GDT_SELECTOR_DATA64 0 LIMIT_MAX_20_BIT DATA_ACCESS FLAG_GRANULARITY_4K table;
            table = gdt_put GDT_SELECTOR_CODE32 0 LIMIT_MAX_20_BIT CODE_ACCESS (FLAG_GRANULARITY_4K OR FLAG_SIZE_32) table;
            table = gdt_put GDT_SELECTOR_DATA32 0 LIMIT_MAX_20_BIT DATA_ACCESS (FLAG_GRANULARITY_4K OR FLAG_SIZE_32) table;
            table = gdt_put GDT_SELECTOR_CODE16 0 REAL_MODE_LIMIT CODE_ACCESS 0 table
        in gdt_put GDT_SELECTOR_DATA16 0 REAL_MODE_LIMIT DATA_ACCESS 0 table)"

subsection \<open>The canary\<close>

abbreviation (input) GUARD_MIX_SHIFT :: nat where "GUARD_MIX_SHIFT \<equiv> 17"
abbreviation (input) GUARD_MIX_ODD :: u64 where "GUARD_MIX_ODD \<equiv> 0x9E3779B97F4A7C15"
abbreviation (input) GUARD_LOW_BYTE_MASK :: u64 where "GUARD_LOW_BYTE_MASK \<equiv> 0xFFFFFFFFFFFFFF00"

definition make_guard :: "u64 \<Rightarrow> u64" where
  "make_guard timestamp =
     (let value = timestamp;
          value = value XOR drop_bit GUARD_MIX_SHIFT value;
          value = value * GUARD_MIX_ODD;
          value = value XOR drop_bit GUARD_MIX_SHIFT value
      in value AND GUARD_LOW_BYTE_MASK)"

text \<open>The guard kept from \<open>guard_init\<close> on, and the check of a cookie, which does not return when the cookie is another.\<close>

definition guard_init :: "u64 \<Rightarrow> u64" where
  "guard_init timestamp = make_guard timestamp"

definition security_check_cookie :: "u64 \<Rightarrow> u64 \<Rightarrow> unit option" where
  "security_check_cookie cookie found = (if found = cookie then Some () else None)"

subsection \<open>What they mean\<close>

text \<open>Queries that agree on the leaves the processor says it has.\<close>

definition same_leaves :: "cpuid_query \<Rightarrow> cpuid_query \<Rightarrow> bool" where
  "same_leaves q q' \<longleftrightarrow> q 0 0 = q' 0 0 \<and> q 0x80000000 0 = q' 0x80000000 0 \<and>
     (\<forall>leaf. leaf \<le> eax (q 0 0) \<or> 0x80000000 \<le> leaf \<and> leaf \<le> eax (q 0x80000000 0) \<longrightarrow> q leaf 0 = q' leaf 0)"

text \<open>
  Features are read from no leaf the processor does not have: what the instruction answers for other leaves has no
  influence, and AVX is announced only with the state saving the system has to have turned on.
\<close>

theorem cpu_features_absent_leaves:
  assumes "same_leaves q q'"
  shows "cpu_features_detect q = cpu_features_detect q' \<and>
    (avx (cpu_features_detect q) \<or> avx2 (cpu_features_detect q) \<longrightarrow> osxsave (cpu_features_detect q))"
proof -
  have leaf: "leaf \<le> eax (q' 0 0) \<Longrightarrow> q leaf 0 = q' leaf 0" "0x80000000 \<le> leaf \<Longrightarrow> leaf \<le> eax (q' 0x80000000 0) \<Longrightarrow> q leaf 0 = q' leaf 0" for leaf
    using assms by (auto simp: same_leaves_def)
  have tops: "q 0 0 = q' 0 0" "q 0x80000000 0 = q' 0x80000000 0" using assms by (auto simp: same_leaves_def)
  have parts: "basic_features q (eax (q' 0 0)) = basic_features q' (eax (q' 0 0))"
    "structured_features q (eax (q' 0 0)) = structured_features q' (eax (q' 0 0))"
    "extended_features q (eax (q' 0x80000000 0)) = extended_features q' (eax (q' 0x80000000 0))"
    using leaf by (simp_all add: fun_eq_iff basic_features_def structured_features_def extended_features_def)
  have "cpu_features_detect q = cpu_features_detect q'"
    by (simp only: cpu_features_detect_def Let_def tops parts)
  moreover have "avx (extended_features q h f) = avx f" "avx2 (extended_features q h f) = avx2 f" "osxsave (extended_features q h f) = osxsave f" for h f
    by (simp_all add: extended_features_def Let_def)
  then have "avx (cpu_features_detect q) \<or> avx2 (cpu_features_detect q) \<longrightarrow> osxsave (cpu_features_detect q)"
    unfolding cpu_features_detect_def Let_def by simp
  ultimately show ?thesis by blast
qed

lemma same_leaves_example:
  "same_leaves (\<lambda>leaf subleaf. \<lparr>eax = 0, ebx = 0, ecx = 0, edx = 0\<rparr>)
     (\<lambda>leaf subleaf. if leaf = 7 then \<lparr>eax = 0, ebx = 0x20, ecx = 0, edx = 0\<rparr> else \<lparr>eax = 0, ebx = 0, ecx = 0, edx = 0\<rparr>)"
  by (auto simp: same_leaves_def word_le_nat_alt)

theorem cpu_features_absent_leaves_witness:
  "cpu_features_detect (\<lambda>leaf subleaf. if leaf = 7 then \<lparr>eax = 0, ebx = 0x20, ecx = 0, edx = 0\<rparr> else \<lparr>eax = 0, ebx = 0, ecx = 0, edx = 0\<rparr>) =
   cpu_features_detect (\<lambda>leaf subleaf. \<lparr>eax = 0, ebx = 0, ecx = 0, edx = 0\<rparr>)"
  using cpu_features_absent_leaves [OF same_leaves_example] by simp

text \<open>What the processor reads in a descriptor: base, limit, access and flags.\<close>

definition gdt_decode :: "u8 list \<Rightarrow> u32 \<times> u32 \<times> u8 \<times> u8" where
  "gdt_decode e =
     (ucast (e ! 2) OR push_bit 8 (ucast (e ! 3)) OR push_bit 16 (ucast (e ! 4)) OR push_bit 24 (ucast (e ! 7)),
      ucast (e ! 0) OR push_bit 8 (ucast (e ! 1)) OR push_bit 16 (ucast (e ! 6 AND 0x0F)),
      e ! 5, e ! 6 AND 0xF0)"

lemma base_bytes:
  fixes b :: u32
  shows "ucast (ucast (b AND 0xFF) :: u8) OR push_bit 8 (ucast (ucast (drop_bit 8 b AND 0xFF) :: u8)) OR
     push_bit 16 (ucast (ucast (drop_bit 16 b AND 0xFF) :: u8)) OR push_bit 24 (ucast (ucast (drop_bit 24 b AND 0xFF) :: u8)) = b" (is "?lhs = b")
proof (rule bit_word_eqI)
  fix n assume "n < LENGTH(32)"
  then have n: "n < 32" by simp
  have m: "(0xFF :: u32) = mask 8" by (simp add: mask_eq_exp_minus_1)
  consider "n < 8" | "8 \<le> n" "n < 16" | "16 \<le> n" "n < 24" | "24 \<le> n" "n < 32" using n by linarith
  then show "bit ?lhs n = bit b n"
    by cases (auto simp: m bit_simps)
qed

lemma limit_bytes:
  fixes l :: u32 and f :: u8
  assumes "l \<le> 0xFFFFF"
  shows "ucast (ucast (l AND 0xFF) :: u8) OR push_bit 8 (ucast (ucast (drop_bit 8 l AND 0xFF) :: u8)) OR
     push_bit 16 (ucast ((ucast (drop_bit 16 l AND 0x0F) OR (f AND 0xF0)) AND 0x0F :: u8)) = l" (is "?lhs = l")
proof (rule bit_word_eqI)
  fix n assume "n < LENGTH(32)"
  then have n: "n < 32" by simp
  have m: "(0xFF :: u32) = mask 8" "(0x0F :: u32) = mask 4" "(0x0F :: u8) = mask 4" "(0xF0 :: u8) = push_bit 4 (mask 4)"
    by (simp_all add: mask_eq_exp_minus_1 push_bit_eq_mult)
  have "unat l < 2 ^ 20" using assms by (simp add: word_le_nat_alt)
  then have "take_bit 20 l = l" by (intro unat_inj) (simp add: unsigned_take_bit_eq take_bit_nat_eq_self)
  then have high: "bit l n \<Longrightarrow> n < 20" by (metis bit_take_bit_iff)
  consider "n < 8" | "8 \<le> n" "n < 16" | "16 \<le> n" "n < 20" | "20 \<le> n" using n by linarith
  then show "bit ?lhs n = bit l n"
    by cases (use high in \<open>auto simp: m bit_simps\<close>)
qed

lemma flag_bits:
  fixes f :: u8
  assumes "f AND NOT 0xF0 = 0"
  shows "(ucast (l AND 0x0F :: u32) OR (f AND 0xF0)) AND 0xF0 = f"
proof (rule bit_word_eqI)
  fix n assume "n < LENGTH(8)"
  then have n: "n < 8" by simp
  have m: "(0x0F :: u32) = mask 4" "(0xF0 :: u8) = push_bit 4 (mask 4)" by (simp_all add: mask_eq_exp_minus_1 push_bit_eq_mult)
  have "bit (f AND NOT 0xF0) n \<longleftrightarrow> False" using assms by simp
  then show "bit ((ucast (l AND 0x0F) OR (f AND 0xF0)) AND 0xF0) n = bit f n"
    using n by (auto simp: m bit_simps)
qed

text \<open>
  C40. A descriptor is refused exactly when its limit needs more than twenty bits or its flags are not in the upper four,
  and otherwise its eight bytes read back as the base, limit, access and flags it was made of.
\<close>

theorem gdt_encode_decodes:
  "case gdt_encode base limit access flags of
     None \<Rightarrow> \<not> (limit \<le> 0xFFFFF \<and> flags AND NOT 0xF0 = 0)
   | Some entry \<Rightarrow> limit \<le> 0xFFFFF \<and> flags AND NOT 0xF0 = 0 \<and> length entry = 8 \<and>
       gdt_decode entry = (base, limit, access, flags)"
  using limit_bytes [of limit flags] flag_bits [of flags "drop_bit 16 limit"] base_bytes [of base]
  by (auto simp: gdt_encode_def gdt_decode_def not_less)

lemma make_guard_low_byte: "make_guard t AND 0xFF = 0"
  by (simp add: make_guard_def Let_def and.assoc)

text \<open>A frame whose cookie was overwritten by a string that ends in its low byte or before is caught unless the bytes are the same.\<close>

lemma guard_catches: "found AND 0xFF \<noteq> 0 \<Longrightarrow> security_check_cookie (guard_init t) found = None"
  using make_guard_low_byte [of t] by (auto simp: security_check_cookie_def guard_init_def)

end
