(* ===== verification/Machine.thy ===== *)
theory Machine
  imports Firmware Ata Cpu Pci
begin

text \<open>
  What \<open>src/boot/main.c\<close> stands on: the state \<open>'s\<close> behind the firmware interface holds the memory, and the ports, the
  \<open>cpuid\<close> instruction and the PCI configuration space are functions the core is given. The loader's own memory
  operations act on the memory through the two functions of the interface \<open>memory_of_state\<close>.
\<close>

record 's machine =
  ram :: "'s \<Rightarrow> mem"
  put_ram :: "mem \<Rightarrow> 's \<Rightarrow> 's"
  ata_ports :: "'s ata_io"
  cpuid_execute :: cpuid_query

definition on_memory :: "'s machine \<Rightarrow> (mem \<Rightarrow> mem) \<Rightarrow> 's \<Rightarrow> 's" where
  "on_memory M f s = put_ram M (f (ram M s)) s"

locale memory_of_state =
  fixes M :: "'s machine"
  assumes ram_put: "ram M (put_ram M m s) = m"
    and put_put: "put_ram M m (put_ram M n s) = put_ram M m s"
    and put_ram: "put_ram M (ram M s) s = s"
begin

lemma ram_on_memory: "ram M (on_memory M f s) = f (ram M s)"
  by (simp add: on_memory_def ram_put)

lemma on_memory_compose: "on_memory M g (on_memory M f s) = on_memory M (\<lambda>m. g (f m)) s"
  by (simp add: on_memory_def ram_put put_put)

lemma on_memory_same: "f (ram M s) = ram M s \<Longrightarrow> on_memory M f s = s"
  by (simp add: on_memory_def put_ram)

end

subsection \<open>Hardware beside the memory\<close>

text \<open>
  The BIOS backend has only the memory as its state. The state of its machine is the memory and the hardware \<open>'h\<close> behind
  the ports; the backend does not touch the hardware, and the ports do not touch the memory.
\<close>

definition beside_hardware :: "'s fw_ops \<Rightarrow> ('s \<times> 'h) fw_ops" where
  "beside_hardware ops =
     \<lparr>ops_name = ops_name ops,
      mem_snapshot = map_option (\<lambda>f out (s, h). map_option (\<lambda>(r, s). (r, s, h)) (f out s)) (mem_snapshot ops),
      fw_read = map_option (\<lambda>f lba n (s, h). map_option (\<lambda>(r, s). (r, s, h)) (f lba n s)) (fw_read ops),
      console_write = map_option (\<lambda>f tx (s, h). map_option (\<lambda>s. (s, h)) (f tx s)) (console_write ops),
      rsdp_locate = map_option (\<lambda>f (s, h). map_option (\<lambda>(r, s). (r, s, h)) (f s)) (rsdp_locate ops),
      framebuffer_acquire = map_option (\<lambda>f (s, h). map_option (\<lambda>(r, s). (r, s, h)) (f s)) (framebuffer_acquire ops)\<rparr>"

context described_memory
begin

lemma described_beside_hardware: "described_memory (map_option beside_hardware fw)"
proof
  fix s mm s'
  assume "fw_mem_snapshot (map_option beside_hardware fw) memory_map_clear s = Some ((True, mm), s')"
  then have "fw_mem_snapshot fw memory_map_clear (fst s) = Some ((True, mm), fst s')"
    by (auto simp: fw_mem_snapshot_def beside_hardware_def split: option.splits prod.splits)
  then show "map_in_order mm" by (rule described)
qed

end

definition beside_memory :: "'h ata_io \<Rightarrow> ('m \<times> 'h) ata_io" where
  "beside_memory io =
     \<lparr>read_port_u8 = (\<lambda>port (m, h). apsnd (Pair m) (read_port_u8 io port h)),
      write_port_u8 = (\<lambda>port v (m, h). (m, write_port_u8 io port v h)),
      read_port_u16 = (\<lambda>port (m, h). apsnd (Pair m) (read_port_u16 io port h))\<rparr>"

definition bios_machine :: "'h ata_io \<Rightarrow> cpuid_query \<Rightarrow> (mem \<times> 'h) machine" where
  "bios_machine io query = \<lparr>ram = fst, put_ram = (\<lambda>m (_, h). (m, h)), ata_ports = beside_memory io, cpuid_execute = query\<rparr>"

text \<open>The state of the UEFI backend has the memory beside the firmware's own, which the hardware is part of.\<close>

definition uefi_machine ::
  "(fw_uefi \<times> 's \<times> mem) ata_io \<Rightarrow> cpuid_query \<Rightarrow> (fw_uefi \<times> 's \<times> mem) machine" where
  "uefi_machine io query =
     \<lparr>ram = (\<lambda>(_, _, m). m), put_ram = (\<lambda>m (self, s, _). (self, s, m)), ata_ports = io, cpuid_execute = query\<rparr>"

interpretation bios_memory: memory_of_state "bios_machine io query" for io query
  by unfold_locales (auto simp: bios_machine_def)

interpretation uefi_memory: memory_of_state "uefi_machine io query" for io query
  by unfold_locales (auto simp: uefi_machine_def)

interpretation bios_described_beside: described_memory "map_option beside_hardware (Some (fw_bios_init d n buffer mode_info))"
  for d n buffer mode_info
  by (rule bios_described.described_beside_hardware)

text \<open>The driver does the same to hardware beside a memory as to the hardware alone.\<close>

definition channel_beside :: "'h ata_channel \<Rightarrow> ('m \<times> 'h) ata_channel" where
  "channel_beside c = \<lparr>channel_io = beside_memory (channel_io c), io_base = io_base c, control_base = control_base c,
     slave = slave c, lba48 = lba48 c\<rparr>"

named_theorems beside

lemma port_beside [beside]:
  "read_port_u8 (channel_io (channel_beside c)) port (m, h) = apsnd (Pair m) (read_port_u8 (channel_io c) port h)"
  "read_port_u16 (channel_io (channel_beside c)) port (m, h) = apsnd (Pair m) (read_port_u16 (channel_io c) port h)"
  "io_base (channel_beside c) = io_base c" "lba48 (channel_beside c) = lba48 c" "slave (channel_beside c) = slave c"
  "status_of (channel_beside c) (m, h) = apsnd (Pair m) (status_of c h)"
  "write_register (channel_beside c) off v (m, h) = (m, write_register c off v h)"
  by (simp_all add: channel_beside_def beside_memory_def status_of_def write_register_def)

lemma settle_beside [beside]: "settle (channel_beside c) (m, h) = (m, settle c h)"
  by (simp add: settle_def channel_beside_def beside_memory_def numeral_eq_Suc)

lemma poll_beside [beside]: "poll n (channel_beside c) (m, h) = apsnd (Pair m) (poll n c h)"
  by (induction n arbitrary: h) (simp_all add: beside split: prod.splits)

lemma wait_beside [beside]:
  "wait_while_busy (channel_beside c) (m, h) = apsnd (Pair m) (wait_while_busy c h)"
  "wait_for_data (channel_beside c) (m, h) = apsnd (Pair m) (wait_for_data c h)"
  "select_drive (channel_beside c) v (m, h) = (m, select_drive c v h)"
  by (simp_all add: wait_while_busy_def wait_for_data_def select_drive_def beside split: prod.splits option.splits)

lemma read_words_beside [beside]: "read_words n (channel_beside c) (m, h) = apsnd (Pair m) (read_words n c h)"
  by (induction n arbitrary: h) (simp_all add: beside split: prod.splits)

lemma read_sector_words_beside [beside]: "read_sector_words (channel_beside c) (m, h) = apsnd (Pair m) (read_sector_words c h)"
  by (simp add: read_sector_words_def beside split: prod.splits)

lemma read_each_beside [beside]: "read_each n (channel_beside c) (m, h) = apsnd (Pair m) (read_each n c h)"
  by (induction n arbitrary: h) (simp_all add: beside split: prod.splits bool.splits option.splits)

lemma issue_beside [beside]:
  "issue_lba28 (channel_beside c) lba n (m, h) = (m, issue_lba28 c lba n h)"
  "issue_lba48 (channel_beside c) lba n (m, h) = (m, issue_lba48 c lba n h)"
  by (simp_all add: issue_lba28_def issue_lba48_def beside Let_def)

lemma ata_read_sectors_beside [beside]:
  "ata_read_sectors (channel_beside c) lba n (m, h) = apsnd (Pair m) (ata_read_sectors c lba n h)"
  by (simp add: ata_read_sectors_def beside split: option.splits)

lemma identify_beside [beside]: "identify (channel_beside c) (m, h) = apsnd (Pair m) (identify c h)"
  by (simp add: identify_def beside Let_def split: prod.splits bool.splits)

lemma ata_probe_beside:
  "ata_probe (beside_memory io) iob control sl (m, h) =
     map_prod (map_option (map_prod channel_beside id)) (Pair m) (ata_probe io iob control sl h)"
proof -
  let ?c = "\<lparr>channel_io = io, io_base = iob, control_base = control, slave = sl, lba48 = False\<rparr>"
  have eq: "\<lparr>channel_io = beside_memory io, io_base = iob, control_base = control, slave = sl, lba48 = b\<rparr> =
      channel_beside (?c\<lparr>lba48 := b\<rparr>)" for b by (simp add: channel_beside_def)
  obtain r h' where run: "identify ?c h = (r, h')" by fastforce
  then have "identify \<lparr>channel_io = beside_memory io, io_base = iob, control_base = control, slave = sl, lba48 = False\<rparr> (m, h) =
      (r, m, h')"
    using identify_beside [of ?c m h] by (simp add: eq)
  then show ?thesis
    by (cases r) (simp_all add: ata_probe_def run Let_def eq, simp add: channel_beside_def)
qed

end
