(* ===== verification/Font.thy ===== *)
theory Font
  imports Terminal
begin

text \<open>
  \<open>src/terminal/font8x16.c\<close>: the glyphs of the printable characters, one line of sixteen rows for each, the leftmost
  pixel of a row the most significant bit.
\<close>

abbreviation (input) FONT8X16_WIDTH :: u32 where "FONT8X16_WIDTH \<equiv> 8"
abbreviation (input) FONT8X16_HEIGHT :: u32 where "FONT8X16_HEIGHT \<equiv> 16"
abbreviation (input) FONT8X16_FIRST :: u32 where "FONT8X16_FIRST \<equiv> 0x20"
abbreviation (input) FONT8X16_LAST :: u32 where "FONT8X16_LAST \<equiv> 0x7E"
abbreviation (input) FONT8X16_COUNT :: u32 where "FONT8X16_COUNT \<equiv> FONT8X16_LAST - FONT8X16_FIRST + 1"

text \<open>The array of the source, broken into its characters.\<close>

definition font_glyphs :: "u8 list list" where
  "font_glyphs = [
     [0x00, 0x00, 0x00, 0x00, 0x00, 0x00, 0x00, 0x00, 0x00, 0x00, 0x00, 0x00, 0x00, 0x00, 0x00, 0x00],
     [0x00, 0x00, 0x00, 0x18, 0x18, 0x18, 0x18, 0x10, 0x10, 0x10, 0x00, 0x00, 0x18, 0x00, 0x00, 0x00],
     [0x00, 0x00, 0x00, 0x3C, 0x3C, 0x3C, 0x28, 0x00, 0x00, 0x00, 0x00, 0x00, 0x00, 0x00, 0x00, 0x00],
     [0x00, 0x00, 0x00, 0x12, 0x24, 0x7E, 0x24, 0x24, 0x24, 0xFE, 0x48, 0x48, 0x48, 0x00, 0x00, 0x00],
     [0x10, 0x10, 0x10, 0x3C, 0x76, 0x52, 0x70, 0x38, 0x0C, 0x16, 0x52, 0x56, 0x3C, 0x10, 0x10, 0x00],
     [0x00, 0x00, 0x00, 0x63, 0x92, 0x94, 0xF8, 0x08, 0x16, 0x2B, 0x29, 0x49, 0x86, 0x00, 0x00, 0x00],
     [0x00, 0x00, 0x00, 0x38, 0x64, 0x20, 0x20, 0x70, 0xDB, 0x8E, 0x84, 0x4A, 0x73, 0x00, 0x00, 0x00],
     [0x00, 0x00, 0x00, 0x18, 0x18, 0x18, 0x10, 0x00, 0x00, 0x00, 0x00, 0x00, 0x00, 0x00, 0x00, 0x00],
     [0x00, 0x00, 0x04, 0x0C, 0x10, 0x10, 0x30, 0x30, 0x30, 0x30, 0x30, 0x10, 0x18, 0x0C, 0x04, 0x00],
     [0x00, 0x00, 0x60, 0x30, 0x18, 0x08, 0x08, 0x08, 0x08, 0x08, 0x08, 0x08, 0x18, 0x70, 0x40, 0x00],
     [0x00, 0x00, 0x00, 0x00, 0x10, 0x10, 0x52, 0xFC, 0x18, 0x2C, 0x64, 0x00, 0x00, 0x00, 0x00, 0x00],
     [0x00, 0x00, 0x00, 0x00, 0x00, 0x10, 0x10, 0x10, 0x7E, 0x10, 0x10, 0x10, 0x00, 0x00, 0x00, 0x00],
     [0x00, 0x00, 0x00, 0x00, 0x00, 0x00, 0x00, 0x00, 0x00, 0x00, 0x00, 0x00, 0x18, 0x18, 0x10, 0x10],
     [0x00, 0x00, 0x00, 0x00, 0x00, 0x00, 0x00, 0x00, 0x3C, 0x00, 0x00, 0x00, 0x00, 0x00, 0x00, 0x00],
     [0x00, 0x00, 0x00, 0x00, 0x00, 0x00, 0x00, 0x00, 0x00, 0x00, 0x18, 0x18, 0x00, 0x00, 0x00, 0x00],
     [0x00, 0x02, 0x04, 0x04, 0x04, 0x08, 0x08, 0x08, 0x10, 0x10, 0x10, 0x20, 0x20, 0x60, 0x40, 0x00],
     [0x00, 0x00, 0x00, 0x3C, 0x64, 0x42, 0x42, 0x5A, 0x42, 0x42, 0x42, 0x64, 0x3C, 0x00, 0x00, 0x00],
     [0x00, 0x00, 0x00, 0x18, 0x68, 0x48, 0x08, 0x08, 0x08, 0x08, 0x08, 0x08, 0x7E, 0x00, 0x00, 0x00],
     [0x00, 0x00, 0x00, 0x3C, 0x64, 0x42, 0x06, 0x04, 0x0C, 0x18, 0x30, 0x60, 0x7E, 0x00, 0x00, 0x00],
     [0x00, 0x00, 0x00, 0x7C, 0x04, 0x08, 0x10, 0x1C, 0x04, 0x06, 0x46, 0x64, 0x3C, 0x00, 0x00, 0x00],
     [0x00, 0x00, 0x00, 0x0C, 0x08, 0x10, 0x30, 0x24, 0x64, 0x44, 0x7C, 0x04, 0x04, 0x00, 0x00, 0x00],
     [0x00, 0x00, 0x00, 0x7C, 0x40, 0x40, 0x7C, 0x04, 0x06, 0x02, 0x46, 0x64, 0x3C, 0x00, 0x00, 0x00],
     [0x00, 0x00, 0x00, 0x08, 0x10, 0x10, 0x3C, 0x66, 0x42, 0x42, 0x42, 0x64, 0x3C, 0x00, 0x00, 0x00],
     [0x00, 0x00, 0x00, 0x7E, 0x42, 0x46, 0x04, 0x04, 0x08, 0x08, 0x18, 0x10, 0x30, 0x00, 0x00, 0x00],
     [0x00, 0x00, 0x00, 0x3C, 0x64, 0x42, 0x64, 0x18, 0x64, 0x42, 0x42, 0x66, 0x3C, 0x00, 0x00, 0x00],
     [0x00, 0x00, 0x00, 0x3C, 0x66, 0x42, 0x42, 0x66, 0x3C, 0x0C, 0x08, 0x18, 0x10, 0x00, 0x00, 0x00],
     [0x00, 0x00, 0x00, 0x00, 0x00, 0x18, 0x18, 0x00, 0x00, 0x00, 0x00, 0x18, 0x18, 0x00, 0x00, 0x00],
     [0x00, 0x00, 0x00, 0x00, 0x00, 0x18, 0x18, 0x00, 0x00, 0x00, 0x00, 0x00, 0x18, 0x10, 0x10, 0x10],
     [0x00, 0x00, 0x00, 0x00, 0x00, 0x02, 0x0C, 0x30, 0x40, 0x70, 0x1C, 0x06, 0x00, 0x00, 0x00, 0x00],
     [0x00, 0x00, 0x00, 0x00, 0x00, 0x00, 0x7E, 0x00, 0x00, 0x7E, 0x00, 0x00, 0x00, 0x00, 0x00, 0x00],
     [0x00, 0x00, 0x00, 0x00, 0x00, 0x40, 0x70, 0x1C, 0x06, 0x0C, 0x30, 0x40, 0x00, 0x00, 0x00, 0x00],
     [0x00, 0x00, 0x00, 0x38, 0x04, 0x04, 0x04, 0x1C, 0x10, 0x10, 0x00, 0x00, 0x30, 0x00, 0x00, 0x00],
     [0x00, 0x00, 0x00, 0x3C, 0x66, 0x42, 0x4E, 0x52, 0x52, 0x52, 0x52, 0x52, 0x4E, 0x40, 0x60, 0x3C],
     [0x00, 0x00, 0x00, 0x18, 0x18, 0x18, 0x2C, 0x24, 0x24, 0x3C, 0x46, 0x42, 0x42, 0x00, 0x00, 0x00],
     [0x00, 0x00, 0x00, 0x7C, 0x46, 0x42, 0x44, 0x78, 0x44, 0x42, 0x42, 0x46, 0x7C, 0x00, 0x00, 0x00],
     [0x00, 0x00, 0x00, 0x3C, 0x66, 0x42, 0x40, 0x40, 0x40, 0x40, 0x42, 0x66, 0x3C, 0x00, 0x00, 0x00],
     [0x00, 0x00, 0x00, 0x78, 0x44, 0x46, 0x46, 0x46, 0x46, 0x46, 0x46, 0x44, 0x78, 0x00, 0x00, 0x00],
     [0x00, 0x00, 0x00, 0x7E, 0x40, 0x40, 0x40, 0x7C, 0x40, 0x40, 0x40, 0x40, 0x7E, 0x00, 0x00, 0x00],
     [0x00, 0x00, 0x00, 0x7E, 0x40, 0x40, 0x40, 0x7C, 0x40, 0x40, 0x40, 0x40, 0x40, 0x00, 0x00, 0x00],
     [0x00, 0x00, 0x00, 0x3C, 0x66, 0x40, 0x40, 0x4E, 0x42, 0x42, 0x46, 0x64, 0x3C, 0x00, 0x00, 0x00],
     [0x00, 0x00, 0x00, 0x46, 0x46, 0x46, 0x46, 0x7E, 0x46, 0x46, 0x46, 0x46, 0x46, 0x00, 0x00, 0x00],
     [0x00, 0x00, 0x00, 0x7C, 0x18, 0x18, 0x18, 0x18, 0x18, 0x18, 0x18, 0x18, 0x7C, 0x00, 0x00, 0x00],
     [0x00, 0x00, 0x00, 0x04, 0x04, 0x04, 0x04, 0x04, 0x04, 0x04, 0x44, 0x44, 0x38, 0x00, 0x00, 0x00],
     [0x00, 0x00, 0x00, 0x42, 0x44, 0x44, 0x48, 0x78, 0x48, 0x4C, 0x44, 0x46, 0x42, 0x00, 0x00, 0x00],
     [0x00, 0x00, 0x00, 0x20, 0x20, 0x20, 0x20, 0x20, 0x20, 0x20, 0x20, 0x20, 0x3E, 0x00, 0x00, 0x00],
     [0x00, 0x00, 0x00, 0x66, 0x66, 0x6A, 0x5A, 0x5A, 0x52, 0x42, 0x42, 0x42, 0x42, 0x00, 0x00, 0x00],
     [0x00, 0x00, 0x00, 0x66, 0x66, 0x56, 0x56, 0x56, 0x4E, 0x4A, 0x4A, 0x46, 0x46, 0x00, 0x00, 0x00],
     [0x00, 0x00, 0x00, 0x3C, 0x64, 0x46, 0x46, 0x46, 0x46, 0x46, 0x46, 0x64, 0x3C, 0x00, 0x00, 0x00],
     [0x00, 0x00, 0x00, 0x7C, 0x46, 0x42, 0x42, 0x46, 0x7C, 0x40, 0x40, 0x40, 0x40, 0x00, 0x00, 0x00],
     [0x00, 0x00, 0x00, 0x3C, 0x64, 0x42, 0x42, 0x42, 0x42, 0x42, 0x42, 0x64, 0x3C, 0x0C, 0x04, 0x06],
     [0x00, 0x00, 0x00, 0x7C, 0x46, 0x42, 0x46, 0x7C, 0x48, 0x4C, 0x44, 0x44, 0x42, 0x00, 0x00, 0x00],
     [0x00, 0x00, 0x00, 0x3C, 0x64, 0x46, 0x60, 0x38, 0x0C, 0x02, 0x42, 0x66, 0x3C, 0x00, 0x00, 0x00],
     [0x00, 0x00, 0x00, 0x7E, 0x10, 0x10, 0x10, 0x10, 0x10, 0x10, 0x10, 0x10, 0x10, 0x00, 0x00, 0x00],
     [0x00, 0x00, 0x00, 0x46, 0x46, 0x46, 0x46, 0x46, 0x46, 0x46, 0x46, 0x64, 0x3C, 0x00, 0x00, 0x00],
     [0x00, 0x00, 0x00, 0x42, 0x42, 0x46, 0x24, 0x24, 0x24, 0x2C, 0x38, 0x18, 0x18, 0x00, 0x00, 0x00],
     [0x00, 0x00, 0x00, 0x9B, 0x9A, 0x5A, 0x5A, 0x5A, 0x5A, 0x6A, 0x66, 0x66, 0x64, 0x00, 0x00, 0x00],
     [0x00, 0x00, 0x00, 0x42, 0x64, 0x24, 0x38, 0x18, 0x18, 0x38, 0x24, 0x64, 0x42, 0x00, 0x00, 0x00],
     [0x00, 0x00, 0x00, 0xC2, 0x46, 0x24, 0x24, 0x38, 0x18, 0x10, 0x10, 0x10, 0x10, 0x00, 0x00, 0x00],
     [0x00, 0x00, 0x00, 0x7E, 0x04, 0x04, 0x08, 0x18, 0x10, 0x30, 0x20, 0x40, 0x7E, 0x00, 0x00, 0x00],
     [0x00, 0x1C, 0x10, 0x10, 0x10, 0x10, 0x10, 0x10, 0x10, 0x10, 0x10, 0x10, 0x10, 0x1C, 0x00, 0x00],
     [0x00, 0x40, 0x60, 0x20, 0x20, 0x30, 0x10, 0x10, 0x18, 0x08, 0x08, 0x0C, 0x04, 0x04, 0x06, 0x00],
     [0x00, 0x38, 0x08, 0x08, 0x08, 0x08, 0x08, 0x08, 0x08, 0x08, 0x08, 0x08, 0x08, 0x38, 0x00, 0x00],
     [0x00, 0x00, 0x10, 0x18, 0x18, 0x24, 0x24, 0x42, 0x00, 0x00, 0x00, 0x00, 0x00, 0x00, 0x00, 0x00],
     [0x00, 0x00, 0x00, 0x00, 0x00, 0x00, 0x00, 0x00, 0x00, 0x00, 0x00, 0x00, 0x00, 0x7E, 0x00, 0x00],
     [0x00, 0x00, 0x30, 0x18, 0x00, 0x00, 0x00, 0x00, 0x00, 0x00, 0x00, 0x00, 0x00, 0x00, 0x00, 0x00],
     [0x00, 0x00, 0x00, 0x00, 0x00, 0x3C, 0x64, 0x06, 0x3E, 0x46, 0x46, 0x46, 0x3E, 0x00, 0x00, 0x00],
     [0x00, 0x00, 0x00, 0x40, 0x40, 0x5C, 0x64, 0x46, 0x46, 0x46, 0x46, 0x64, 0x5C, 0x00, 0x00, 0x00],
     [0x00, 0x00, 0x00, 0x00, 0x00, 0x3C, 0x66, 0x42, 0x40, 0x40, 0x42, 0x66, 0x3C, 0x00, 0x00, 0x00],
     [0x00, 0x00, 0x00, 0x06, 0x06, 0x3E, 0x66, 0x46, 0x46, 0x46, 0x46, 0x66, 0x3E, 0x00, 0x00, 0x00],
     [0x00, 0x00, 0x00, 0x00, 0x00, 0x3C, 0x64, 0x42, 0x7E, 0x40, 0x40, 0x66, 0x3C, 0x00, 0x00, 0x00],
     [0x00, 0x00, 0x00, 0x1E, 0x10, 0x10, 0x7E, 0x10, 0x10, 0x10, 0x10, 0x10, 0x10, 0x00, 0x00, 0x00],
     [0x00, 0x00, 0x00, 0x00, 0x00, 0x3E, 0x66, 0x46, 0x46, 0x46, 0x46, 0x66, 0x3E, 0x06, 0x04, 0x3C],
     [0x00, 0x00, 0x00, 0x40, 0x40, 0x5C, 0x64, 0x46, 0x46, 0x46, 0x46, 0x46, 0x46, 0x00, 0x00, 0x00],
     [0x00, 0x00, 0x18, 0x18, 0x00, 0x78, 0x08, 0x08, 0x08, 0x08, 0x08, 0x08, 0x7E, 0x00, 0x00, 0x00],
     [0x00, 0x00, 0x0C, 0x0C, 0x00, 0x7C, 0x0C, 0x0C, 0x0C, 0x0C, 0x0C, 0x0C, 0x0C, 0x0C, 0x08, 0x70],
     [0x00, 0x00, 0x00, 0x40, 0x40, 0x46, 0x44, 0x4C, 0x78, 0x48, 0x44, 0x44, 0x42, 0x00, 0x00, 0x00],
     [0x00, 0x00, 0x00, 0xF0, 0x10, 0x10, 0x10, 0x10, 0x10, 0x10, 0x10, 0x10, 0x0E, 0x00, 0x00, 0x00],
     [0x00, 0x00, 0x00, 0x00, 0x00, 0x76, 0x5A, 0x52, 0x52, 0x52, 0x52, 0x52, 0x52, 0x00, 0x00, 0x00],
     [0x00, 0x00, 0x00, 0x00, 0x00, 0x5C, 0x64, 0x46, 0x46, 0x46, 0x46, 0x46, 0x46, 0x00, 0x00, 0x00],
     [0x00, 0x00, 0x00, 0x00, 0x00, 0x3C, 0x64, 0x46, 0x42, 0x42, 0x46, 0x64, 0x3C, 0x00, 0x00, 0x00],
     [0x00, 0x00, 0x00, 0x00, 0x00, 0x5C, 0x64, 0x46, 0x46, 0x46, 0x46, 0x64, 0x5C, 0x40, 0x40, 0x40],
     [0x00, 0x00, 0x00, 0x00, 0x00, 0x3E, 0x66, 0x46, 0x46, 0x46, 0x46, 0x66, 0x3E, 0x06, 0x06, 0x06],
     [0x00, 0x00, 0x00, 0x00, 0x00, 0x7C, 0x66, 0x62, 0x62, 0x60, 0x60, 0x60, 0x60, 0x00, 0x00, 0x00],
     [0x00, 0x00, 0x00, 0x00, 0x00, 0x3C, 0x66, 0x40, 0x38, 0x0C, 0x02, 0x66, 0x3C, 0x00, 0x00, 0x00],
     [0x00, 0x00, 0x00, 0x10, 0x10, 0x7E, 0x10, 0x10, 0x10, 0x10, 0x10, 0x10, 0x1E, 0x00, 0x00, 0x00],
     [0x00, 0x00, 0x00, 0x00, 0x00, 0x46, 0x46, 0x46, 0x46, 0x46, 0x46, 0x64, 0x3C, 0x00, 0x00, 0x00],
     [0x00, 0x00, 0x00, 0x00, 0x00, 0x42, 0x46, 0x64, 0x24, 0x24, 0x38, 0x18, 0x18, 0x00, 0x00, 0x00],
     [0x00, 0x00, 0x00, 0x00, 0x00, 0x9A, 0x5A, 0x5A, 0x5A, 0x6A, 0x6A, 0x64, 0x24, 0x00, 0x00, 0x00],
     [0x00, 0x00, 0x00, 0x00, 0x00, 0x46, 0x24, 0x38, 0x18, 0x18, 0x2C, 0x24, 0x46, 0x00, 0x00, 0x00],
     [0x00, 0x00, 0x00, 0x00, 0x00, 0x42, 0x46, 0x24, 0x24, 0x24, 0x18, 0x18, 0x18, 0x10, 0x10, 0x30],
     [0x00, 0x00, 0x00, 0x00, 0x00, 0x7C, 0x04, 0x0C, 0x18, 0x10, 0x20, 0x60, 0x7E, 0x00, 0x00, 0x00],
     [0x00, 0x0E, 0x08, 0x08, 0x08, 0x08, 0x08, 0x70, 0x08, 0x08, 0x08, 0x08, 0x08, 0x0E, 0x00, 0x00],
     [0x00, 0x10, 0x10, 0x10, 0x10, 0x10, 0x10, 0x10, 0x10, 0x10, 0x10, 0x10, 0x10, 0x10, 0x10, 0x00],
     [0x00, 0x70, 0x10, 0x10, 0x10, 0x10, 0x10, 0x0E, 0x10, 0x10, 0x10, 0x10, 0x10, 0x70, 0x00, 0x00],
     [0x00, 0x00, 0x00, 0x00, 0x00, 0x00, 0x72, 0x52, 0x4C, 0x00, 0x00, 0x00, 0x00, 0x00, 0x00, 0x00]]"

definition font8x16 :: terminal_font where
  "font8x16 = \<lparr>glyphs = concat font_glyphs, font_width = FONT8X16_WIDTH, font_height = FONT8X16_HEIGHT,
     first_code = FONT8X16_FIRST, glyph_count = FONT8X16_COUNT\<rparr>"

subsection \<open>What is drawn\<close>

lemma font_glyphs_table:
  "length font_glyphs = 95" "list_all (\<lambda>g. length g = 16) font_glyphs" "distinct font_glyphs"
  "list_all (\<lambda>g. g \<noteq> replicate 16 0xFF) font_glyphs"
  by code_simp+

lemma drop_concat:
  assumes "list_all (\<lambda>g. length g = n) gs" "i < length gs"
  shows "drop (n * i) (concat gs) = gs ! i @ concat (drop (Suc i) gs)"
  using assms
proof (induction gs arbitrary: i)
  case (Cons g gs)
  then show ?case by (cases i) simp_all
qed simp

text \<open>The pixels of a character, in the rows and columns of a cell.\<close>

definition looks :: "u8 \<Rightarrow> bool list list" where
  "looks a = map (\<lambda>r. map (glyph_bit (glyph_of font8x16 a) r) [0..<8]) [0..<16]"

definition pixels :: "u8 list \<Rightarrow> bool list list" where
  "pixels g = map (\<lambda>row. map (\<lambda>c. bit row (7 - c)) [0..<8]) g"

lemma pixels_inj: "pixels g = pixels h \<longleftrightarrow> g = h"
proof (rule inj_eq)
  have "inj (\<lambda>row :: u8. map (\<lambda>c. bit row (7 - c)) [0..<8])"
  proof (rule injI)
    fix x y :: u8 assume eq: "map (\<lambda>c. bit x (7 - c)) [0..<8] = map (\<lambda>c. bit y (7 - c)) [0..<8]"
    show "x = y"
    proof (rule bit_word_eqI)
      fix n assume "n < LENGTH(8)"
      then have n: "7 - n < 8" "7 - (7 - n) = n" by simp_all
      from arg_cong [OF eq, of "\<lambda>l. l ! (7 - n)"] n show "bit x n = bit y n" by simp
    qed
  qed
  then show "inj pixels" unfolding pixels_def by (rule inj_mapI)
qed

definition printable :: "u8 \<Rightarrow> bool" where
  "printable a \<longleftrightarrow> 0x20 \<le> a \<and> a \<le> 0x7E"

lemma glyph_bit_pixel:
  assumes "c < 8"
  shows "glyph_bit (Some g) r c = bit (g ! r) (7 - c)"
proof -
  have "drop_bit c (0x80 :: u32) = push_bit (7 - c) 1"
  proof -
    have "c \<in> {0, 1, 2, 3, 4, 5, 6, 7}" using assms by auto
    then show ?thesis by auto
  qed
  moreover have "ucast w AND push_bit k 1 = (0 :: u32) \<longleftrightarrow> \<not> bit w k" if "k < 8" for w :: u8 and k
  proof -
    have "ucast w AND push_bit k 1 = (if bit w k then push_bit k 1 else 0 :: u32)"
      by (rule bit_word_eqI) (use that in \<open>auto simp: bit_simps bit_1_iff\<close>)
    moreover have "push_bit k 1 \<noteq> (0 :: u32)" using that by (simp add: push_bit_eq_mult)
    ultimately show ?thesis by simp
  qed
  ultimately show ?thesis using assms by (simp add: glyph_bit_def Let_def)
qed

lemma looks_pixels:
  "looks a = pixels (if printable a then font_glyphs ! (unat a - 32) else replicate 16 0xFF)"
proof (cases "printable a")
  case False
  then have "unat a < 32 \<or> 126 < unat a" by (simp add: printable_def word_le_nat_alt not_le)
  then have "glyph_of font8x16 a = None"
    by (auto simp: glyph_of_def font8x16_def word_less_nat_alt word_le_nat_alt unat_sub_fits Let_def)
  moreover have "(0xFF :: u8) = mask 8" by (simp add: mask_eq_exp_minus_1)
  then have "\<forall>n < 8. bit (0xFF :: u8) n" by (simp only: bit_mask_iff) simp
  ultimately show ?thesis using False by (auto simp: looks_def pixels_def glyph_bit_def list_eq_iff_nth_eq)
next
  case True
  define i where "i = unat a - 32"
  have i: "32 \<le> unat a" "unat a \<le> 126" "i < 95" using True by (auto simp: printable_def word_le_nat_alt i_def)
  have "unat (ucast a - 32 :: u32) = i" using i(1) by (simp add: unat_sub_fits word_le_nat_alt i_def)
  then have "glyph_of font8x16 a = Some (drop (i * 16) (concat font_glyphs))"
    using i by (simp add: glyph_of_def font8x16_def word_less_nat_alt word_le_nat_alt Let_def)
  also have "drop (i * 16) (concat font_glyphs) = font_glyphs ! i @ concat (drop (Suc i) font_glyphs)"
    using drop_concat [OF font_glyphs_table(2), of i] i(3) font_glyphs_table(1) by (simp add: mult.commute)
  finally have g: "glyph_of font8x16 a = Some (font_glyphs ! i @ concat (drop (Suc i) font_glyphs))" .
  have "length (font_glyphs ! i) = 16"
    using font_glyphs_table(1,2) i(3) by (simp add: list_all_length)
  then show ?thesis using True
    by (auto simp: looks_def pixels_def g glyph_bit_pixel list_eq_iff_nth_eq nth_append i_def)
qed

text \<open>
  Every printable character is drawn with a glyph of its own: two characters look the same on the screen exactly
  when they are equal or neither is printable, so an unprintable character looks like no printable one.
\<close>

lemma font_legible: "looks a = looks b \<longleftrightarrow> (if printable a \<or> printable b then a = b else True)"
proof -
  have at: "font_glyphs ! (unat a - 32) \<noteq> replicate 16 0xFF" if "printable a" for a
    using that font_glyphs_table(1,4) by (auto simp: list_all_length printable_def word_le_nat_alt)
  have "font_glyphs ! (unat a - 32) = font_glyphs ! (unat b - 32) \<longleftrightarrow> a = b" if "printable a" "printable b"
    using that font_glyphs_table(1,3) by (auto simp: nth_eq_iff_index_eq printable_def word_le_nat_alt intro: unat_inj)
  then show ?thesis using at at [THEN not_sym] by (auto simp: looks_pixels pixels_inj)
qed

end
