(* ===== verification/Boot_Screen.thy ===== *)
theory Boot_Screen
  imports Font Log Machine
begin

text \<open>
  The screen of \<open>src/boot/main.c\<close>: the test picture painted on the framebuffer the firmware gives, reading it
  back, and the terminal and log colours on top of it. What the loader logs meanwhile is not part of the model.
\<close>

abbreviation (input) SCREEN_BORDER_PIXELS :: u32 where "SCREEN_BORDER_PIXELS \<equiv> 8"
abbreviation (input) SCREEN_BAR_PIXELS :: u32 where "SCREEN_BAR_PIXELS \<equiv> 32"

abbreviation (input) LOG_LEVEL_DEBUG :: int where "LOG_LEVEL_DEBUG \<equiv> 4"
abbreviation (input) SCREEN_BACKGROUND :: "framebuffer \<Rightarrow> u32" where
  "SCREEN_BACKGROUND screen \<equiv> framebuffer_pack screen 0x00 0x00 0x00"
abbreviation (input) SCREEN_FOREGROUND :: "framebuffer \<Rightarrow> u32" where
  "SCREEN_FOREGROUND screen \<equiv> framebuffer_pack screen 0xD8 0xD8 0xD8"
abbreviation (input) SCREEN_INFO :: "framebuffer \<Rightarrow> u32" where
  "SCREEN_INFO screen \<equiv> framebuffer_pack screen 0x3C 0xC8 0x5A"
abbreviation (input) SCREEN_WARN :: "framebuffer \<Rightarrow> u32" where
  "SCREEN_WARN screen \<equiv> framebuffer_pack screen 0xE0 0xB4 0x3C"
abbreviation (input) SCREEN_ERROR :: "framebuffer \<Rightarrow> u32" where
  "SCREEN_ERROR screen \<equiv> framebuffer_pack screen 0xE0 0x4C 0x4C"
abbreviation (input) SCREEN_DEBUG :: "framebuffer \<Rightarrow> u32" where
  "SCREEN_DEBUG screen \<equiv> framebuffer_pack screen 0x78 0x78 0x78"

text \<open>One step of the grey ramp.\<close>

definition paint_ramp :: "framebuffer \<Rightarrow> u32 \<Rightarrow> mem \<Rightarrow> mem" where
  "paint_ramp screen x m =
     (let level = ucast (x * 255 div (if width screen > 1 then width screen - 1 else 1)) :: u8
      in framebuffer_fill screen x (height screen div 2) 1 SCREEN_BAR_PIXELS
           (framebuffer_pack screen level level level) m)"

definition paint_screen :: "framebuffer \<Rightarrow> mem \<Rightarrow> mem" where
  "paint_screen screen m =
     (let w = width screen;
          h = height screen;
          m = framebuffer_fill screen 0 0 w h (SCREEN_BACKGROUND screen) m;
          m = framebuffer_fill screen 0 0 w SCREEN_BORDER_PIXELS (framebuffer_pack screen 0xFF 0x00 0x00) m;
          m = framebuffer_fill screen 0 (h - SCREEN_BORDER_PIXELS) w SCREEN_BORDER_PIXELS
                (framebuffer_pack screen 0x00 0xFF 0x00) m;
          m = framebuffer_fill screen 0 0 SCREEN_BORDER_PIXELS h (framebuffer_pack screen 0x00 0x00 0xFF) m;
          m = framebuffer_fill screen (w - SCREEN_BORDER_PIXELS) 0 SCREEN_BORDER_PIXELS h
                (framebuffer_pack screen 0xFF 0xFF 0xFF) m
      in fold (\<lambda>x. paint_ramp screen (of_nat x)) [0..<unat w] m)"

definition screen_reads_back :: "framebuffer \<Rightarrow> mem \<Rightarrow> bool" where
  "screen_reads_back screen m =
     (let inset = SCREEN_BORDER_PIXELS div 2;
          w = width screen;
          h = height screen
      in if framebuffer_get screen (w div 2) inset m \<noteq> framebuffer_pack screen 0xFF 0x00 0x00 then False
         else if framebuffer_get screen (w div 2) (h - 1 - inset) m \<noteq> framebuffer_pack screen 0x00 0xFF 0x00 then False
         else if framebuffer_get screen inset (h div 4) m \<noteq> framebuffer_pack screen 0x00 0x00 0xFF then False
         else if framebuffer_get screen (w - 1 - inset) (h div 4) m \<noteq> framebuffer_pack screen 0xFF 0xFF 0xFF then False
         else if framebuffer_get screen (w - 1) (h div 2) m \<noteq> framebuffer_pack screen 0xFF 0xFF 0xFF then False
         else if framebuffer_get screen 0 (h div 2) m \<noteq> framebuffer_pack screen 0x00 0x00 0x00 then False
         else True)"

text \<open>The colour of a level, which the log asks for before it writes the tag.\<close>

definition screen_style :: "framebuffer \<Rightarrow> int \<Rightarrow> terminal \<Rightarrow> terminal" where
  "screen_style screen level t =
     terminal_set_foreground t
       (if level = LOG_LEVEL_ERROR then SCREEN_ERROR screen
        else if level = LOG_LEVEL_WARN then SCREEN_WARN screen
        else if level = LOG_LEVEL_INFO then SCREEN_INFO screen
        else if level = LOG_LEVEL_DEBUG then SCREEN_DEBUG screen
        else SCREEN_FOREGROUND screen)"

definition screen_sink :: "u8 list \<Rightarrow> terminal \<times> mem \<Rightarrow> terminal \<times> mem" where
  "screen_sink tx = terminal_write tx"

text \<open>The screen and the terminal on it, if there are any.\<close>

definition acquire_screen ::
  "'s machine \<Rightarrow> 's fw_ops option \<Rightarrow> 's \<Rightarrow> (framebuffer option \<times> terminal option \<times> 's) option" where
  "acquire_screen M fw s =
     do { (found, s) \<leftarrow> fw_framebuffer_acquire fw s;
          Some (case found of
            None \<Rightarrow> (None, None, s)
          | Some screen \<Rightarrow>
              let s = on_memory M (paint_screen screen) s
              in case terminal_init screen font8x16 (SCREEN_FOREGROUND screen) (SCREEN_BACKGROUND screen) of
                   None \<Rightarrow> (Some screen, None, s)
                 | Some t \<Rightarrow> (Some screen, Some (fst (terminal_clear (t, ram M s))),
                     on_memory M (\<lambda>m. snd (terminal_clear (t, m))) s)) }"

subsection \<open>What the picture is\<close>

lemma eight_half: "(8 :: u32) div 2 = 4"
  by simp

lemma unat_div2: "unat (w div 2) = unat (w :: u32) div 2" "unat (w div 4) = unat w div 4"
  by (simp_all add: unat_div)

lemma bit_pack_channel:
  assumes "channel_valid c n" "bit (pack_channel c v) k" "n \<le> 32"
  shows "k < unat n"
proof -
  have c: "unat (bits c) \<noteq> 0" "unat (bits c) \<le> 8" "(ucast (shift c) :: u32) + ucast (bits c) \<le> n"
    using assms(1) by (auto simp: channel_valid_def word_less_nat_alt unat_eq_0 split: if_splits)
  have "unat ((ucast (shift c) :: u32) + ucast (bits c)) = unat (shift c) + unat (bits c)"
    using c(2) unat_lt8 [of "shift c"] by (intro trans [OF unat_add_fits]) (simp_all del: unat_lt8)
  then have room: "unat (shift c) + unat (bits c) \<le> unat n" using c(3) by (simp add: word_le_nat_alt)
  have "bit (drop_bit (8 - unat (bits c)) (ucast v :: u32)) (k - unat (shift c))" "unat (shift c) \<le> k"
    using assms(2) by (auto simp: pack_channel_def Let_def bit_push_bit_iff)
  then have "8 - unat (bits c) + (k - unat (shift c)) < 8"
    by (auto simp: bit_drop_bit_eq bit_unsigned_iff dest!: bit_imp_le_length)
  with c(2) room \<open>unat (shift c) \<le> k\<close> show ?thesis by linarith
qed

text \<open>A packed colour is shown as it is.\<close>

lemma shown_pack:
  assumes "fb_ok fb"
  shows "shown fb (framebuffer_pack fb r g b) = framebuffer_pack fb r g b"
proof -
  have v: "channel_valid (red fb) (bits_per_pixel fb)" "channel_valid (green fb) (bits_per_pixel fb)"
    "channel_valid (blue fb) (bits_per_pixel fb)" "bits_per_pixel fb \<le> 32"
    using assms by (auto simp: fb_ok_def framebuffer_valid_def not_less split: if_splits)
  have "unat (bits_per_pixel fb) + 7 < 2 ^ 32" using v(4) by (simp add: word_le_nat_alt)
  moreover have "bits_per_pixel fb + 8 - 1 = bits_per_pixel fb + 7" by simp
  ultimately have "bpp fb = (unat (bits_per_pixel fb) + 7) div 8"
    by (simp add: bpp_def framebuffer_bytes_per_pixel_def unat_div unat_add_fits)
  then have n: "unat (bits_per_pixel fb) \<le> bpp fb * 8" by linarith
  show ?thesis
  proof (rule bit_word_eqI)
    fix k assume "k < LENGTH(32)"
    have "bit (framebuffer_pack fb r g b) k \<Longrightarrow> k < bpp fb * 8"
      using v n by (auto simp: framebuffer_pack_def bit_or_iff dest!: bit_pack_channel)
    then show "bit (shown fb (framebuffer_pack fb r g b)) k = bit (framebuffer_pack fb r g b) k"
      by (auto simp: shown_def bit_take_bit_iff)
  qed
qed

text \<open>The ramp, column by column.\<close>

definition ramp_level :: "framebuffer \<Rightarrow> nat \<Rightarrow> u8" where
  "ramp_level fb x = of_nat (x * 255 div (if 1 < unat (width fb) then unat (width fb) - 1 else 1))"

definition in_bar :: "framebuffer \<Rightarrow> u32 \<Rightarrow> bool" where
  "in_bar fb y \<longleftrightarrow> unat (height fb) div 2 \<le> unat y \<and> unat y < unat (height fb) div 2 + 32"

lemma paint_ramp_get:
  assumes fb: "fb_ok fb" and n: "n \<le> unat (width fb)"
  shows "framebuffer_get fb x y (fold (\<lambda>x. paint_ramp fb (of_nat x)) [0..<n] m) =
    (if unat x < n \<and> y < height fb \<and> in_bar fb y
     then framebuffer_pack fb (ramp_level fb (unat x)) (ramp_level fb (unat x)) (ramp_level fb (unat x))
     else framebuffer_get fb x y m)"
  using n
proof (induction n)
  case (Suc n)
  note g = fb_geometry [OF fb]
  have un: "unat (of_nat n :: u32) = n" using Suc.prems g(2) by (simp add: unat_of_nat)
  have level: "ucast ((of_nat n :: u32) * 255 div (if width fb > 1 then width fb - 1 else 1)) = ramp_level fb n"
  proof -
    have "unat ((of_nat n :: u32) * 255) = n * 255"
      using un Suc.prems g(2) by (subst unat_mult_fits) simp_all
    moreover have "unat (if width fb > 1 then width fb - 1 else 1) = (if 1 < unat (width fb) then unat (width fb) - 1 else 1)"
      by (auto simp: word_less_nat_alt unat_sub_fits word_le_nat_alt)
    ultimately have "unat ((of_nat n :: u32) * 255 div (if width fb > 1 then width fb - 1 else 1)) =
        n * 255 div (if 1 < unat (width fb) then unat (width fb) - 1 else 1)"
      by (simp add: unat_div)
    then show ?thesis unfolding ramp_level_def by (metis of_nat_unat)
  qed
  have rect: "on_screen fb (x, y) \<and> in_rect (of_nat n) (height fb div 2) 1 32 (x, y) \<longleftrightarrow>
      unat x = n \<and> y < height fb \<and> in_bar fb y"
    using Suc.prems un by (auto simp: on_screen_def in_rect_def in_bar_def unat_div2 word_less_nat_alt)
  have "framebuffer_get fb x y (fold (\<lambda>x. paint_ramp fb (of_nat x)) [0..<Suc n] m) =
      (if unat x = n \<and> y < height fb \<and> in_bar fb y
       then framebuffer_pack fb (ramp_level fb n) (ramp_level fb n) (ramp_level fb n)
       else framebuffer_get fb x y (fold (\<lambda>x. paint_ramp fb (of_nat x)) [0..<n] m))"
    by (simp add: paint_ramp_def Let_def level fill_get [OF fb, THEN conjunct1] rect shown_pack [OF fb])
  with Suc show ?case by (auto simp: less_Suc_eq)
qed simp

text \<open>The picture as a function of the coordinates: the last fill that covers a pixel wins.\<close>

definition picture :: "framebuffer \<Rightarrow> nat \<Rightarrow> nat \<Rightarrow> u32" where
  "picture fb x y =
     (let w = unat (width fb); h = unat (height fb) in
      if h div 2 \<le> y \<and> y < h div 2 + 32 then framebuffer_pack fb (ramp_level fb x) (ramp_level fb x) (ramp_level fb x)
      else if w - 8 \<le> x then framebuffer_pack fb 0xFF 0xFF 0xFF
      else if x < 8 then framebuffer_pack fb 0x00 0x00 0xFF
      else if h - 8 \<le> y then framebuffer_pack fb 0x00 0xFF 0x00
      else if y < 8 then framebuffer_pack fb 0xFF 0x00 0x00
      else framebuffer_pack fb 0x00 0x00 0x00)"

lemma paint_screen_picture:
  assumes fb: "fb_ok fb" and big: "8 \<le> unat (width fb)" "8 \<le> unat (height fb)" and on: "x < width fb" "y < height fb"
  shows "framebuffer_get fb x y (paint_screen fb m) = picture fb (unat x) (unat y)"
proof -
  have sub: "unat (width fb - 8) = unat (width fb) - 8" "unat (height fb - 8) = unat (height fb) - 8"
    using big by (auto simp: unat_sub_fits word_le_nat_alt)
  have s: "on_screen fb (x, y)" using on by (simp add: on_screen_def)
  have n: "unat x < unat (width fb)" "unat y < unat (height fb)" using on by (simp_all add: word_less_nat_alt)
  show ?thesis
    unfolding paint_screen_def Let_def
    using s n big
    by (simp add: paint_ramp_get [OF fb] fill_get [OF fb, THEN conjunct1] in_rect_def sub picture_def Let_def in_bar_def
      shown_pack [OF fb] on)
qed

lemma picture_points:
  assumes "17 \<le> unat (width fb)" "73 \<le> unat (height fb)"
  shows "picture fb (unat (width fb) div 2) 4 = framebuffer_pack fb 0xFF 0x00 0x00"
    "picture fb (unat (width fb) div 2) (unat (height fb) - 5) = framebuffer_pack fb 0x00 0xFF 0x00"
    "picture fb 4 (unat (height fb) div 4) = framebuffer_pack fb 0x00 0x00 0xFF"
    "picture fb (unat (width fb) - 5) (unat (height fb) div 4) = framebuffer_pack fb 0xFF 0xFF 0xFF"
    "picture fb (unat (width fb) - 1) (unat (height fb) div 2) = framebuffer_pack fb 0xFF 0xFF 0xFF"
    "picture fb 0 (unat (height fb) div 2) = framebuffer_pack fb 0x00 0x00 0x00"
proof -
  define w h where "w = unat (width fb)" and "h = unat (height fb)"
  have n: "17 \<le> w" "73 \<le> h" using assms by (simp_all add: w_def h_def)
  then have d: "w - 8 > w div 2" "8 \<le> w div 2" "h div 2 > 4" "h - 8 > 4" "h - 5 \<ge> h div 2 + 32" "h - 8 \<le> h - 5"
    "h div 4 < h div 2" "w - 8 > 4" "w - 8 \<le> w - 5" by linarith+
  have level: "ramp_level fb 0 = 0" "ramp_level fb (w - 1) = 0xFF"
    using n by (simp_all add: ramp_level_def w_def)
  show "picture fb (unat (width fb) div 2) 4 = framebuffer_pack fb 0xFF 0x00 0x00"
    using d by (simp add: picture_def Let_def flip: w_def h_def)
  show "picture fb (unat (width fb) div 2) (unat (height fb) - 5) = framebuffer_pack fb 0x00 0xFF 0x00"
    using d by (simp add: picture_def Let_def flip: w_def h_def)
  show "picture fb 4 (unat (height fb) div 4) = framebuffer_pack fb 0x00 0x00 0xFF"
    using d by (simp add: picture_def Let_def flip: w_def h_def)
  show "picture fb (unat (width fb) - 5) (unat (height fb) div 4) = framebuffer_pack fb 0xFF 0xFF 0xFF"
    using d by (simp add: picture_def Let_def flip: w_def h_def)
  show "picture fb (unat (width fb) - 1) (unat (height fb) div 2) = framebuffer_pack fb 0xFF 0xFF 0xFF"
    using n level by (simp add: picture_def Let_def flip: w_def h_def)
  show "picture fb 0 (unat (height fb) div 2) = framebuffer_pack fb 0x00 0x00 0x00"
    using n level by (simp add: picture_def Let_def flip: w_def h_def)
qed

text \<open>
  The test picture is exactly the borders, the bar and the background, each pixel in the colour of the last fill
  that covers it, and on every working screen of at least 17 by 73 pixels reading it back reports no error.
\<close>

theorem painted_screen_reads_back:
  assumes "fb_ok fb" "17 \<le> width fb" "73 \<le> height fb"
  shows "screen_reads_back fb (paint_screen fb m) \<and>
    (\<forall>x y. framebuffer_get fb x y (paint_screen fb m) = (if x < width fb \<and> y < height fb then picture fb (unat x) (unat y) else 0))"
proof -
  have n: "17 \<le> unat (width fb)" "73 \<le> unat (height fb)" using assms(2,3) by (simp_all add: word_le_nat_alt)
  have get: "framebuffer_get fb x y (paint_screen fb m) = picture fb (unat x) (unat y)" if "x < width fb" "y < height fb" for x y
    by (rule paint_screen_picture [OF assms(1) _ _ that]) (use n in simp_all)
  have out: "framebuffer_get fb x y m = 0" if "\<not> (x < width fb \<and> y < height fb)" for x y m
    using that by (auto simp: framebuffer_get_def not_less)
  have u: "unat (width fb - 1) = unat (width fb) - 1" "unat (height fb - 1) = unat (height fb) - 1"
    using n by (auto simp: unat_sub_fits word_le_nat_alt)
  then have u': "unat (width fb - 1 - 4) = unat (width fb) - 5" "unat (height fb - 1 - 4) = unat (height fb) - 5"
    using n by (auto simp: unat_sub_fits word_le_nat_alt)
  have points: "width fb div 2 < width fb" "4 < height fb" "height fb - 1 - 4 < height fb" "4 < width fb"
    "height fb div 4 < height fb" "width fb - 1 - 4 < width fb" "width fb - 1 < width fb" "height fb div 2 < height fb" "0 < width fb"
    unfolding word_less_nat_alt unat_div2 u u' using n by simp_all
  have at: "framebuffer_get fb (width fb div 2) 4 (paint_screen fb m) = picture fb (unat (width fb) div 2) 4"
    "framebuffer_get fb (width fb div 2) (height fb - 1 - 4) (paint_screen fb m) = picture fb (unat (width fb) div 2) (unat (height fb) - 5)"
    "framebuffer_get fb 4 (height fb div 4) (paint_screen fb m) = picture fb 4 (unat (height fb) div 4)"
    "framebuffer_get fb (width fb - 1 - 4) (height fb div 4) (paint_screen fb m) = picture fb (unat (width fb) - 5) (unat (height fb) div 4)"
    "framebuffer_get fb (width fb - 1) (height fb div 2) (paint_screen fb m) = picture fb (unat (width fb) - 1) (unat (height fb) div 2)"
    "framebuffer_get fb 0 (height fb div 2) (paint_screen fb m) = picture fb 0 (unat (height fb) div 2)"
    using get [OF points(1,2)] get [OF points(1,3)] get [OF points(4,5)] get [OF points(6,5)] get [OF points(7,8)] get [OF points(9,8)]
    by (simp_all add: u u' [simplified] unat_div2)
  have "screen_reads_back fb (paint_screen fb m)"
    by (simp add: screen_reads_back_def Let_def eight_half at at [simplified] picture_points [OF n] picture_points [OF n, simplified])
  with get out show ?thesis by auto
qed

text \<open>A screen of 32 by 80 pixels.\<close>

definition demo_screen :: framebuffer where
  "demo_screen = demo_fb\<lparr>width := 32, height := 80, pitch := 128\<rparr>"

lemma demo_screen_ok: "fb_ok demo_screen"
  by (simp add: fb_ok_def demo_screen_def demo_fb_def framebuffer_valid_def framebuffer_bytes_per_pixel_def channel_valid_def)

theorem painted_screen_reads_back_witness: "screen_reads_back demo_screen (paint_screen demo_screen (\<lambda>_. 0))"
  using painted_screen_reads_back [OF demo_screen_ok] by (simp add: demo_screen_def)

end
