(* ===== verification/Boot_Memory.thy ===== *)
theory Boot_Memory
  imports Memory_Map Arena Elf
begin

text \<open>
  What \<open>src/boot/main.c\<close> does with physical memory: where the loader's arena goes, where the kernel may be loaded, and
  what the map the kernel is handed says of both.
\<close>

abbreviation (input) LOADER_ARENA_BYTES :: u64 where "LOADER_ARENA_BYTES \<equiv> 1024 * 1024"
abbreviation (input) LOADER_ARENA_ALIGNMENT :: u64 where "LOADER_ARENA_ALIGNMENT \<equiv> 4096"
abbreviation (input) LOADER_ARENA_FLOOR :: u64 where "LOADER_ARENA_FLOOR \<equiv> 1024 * 1024"
abbreviation (input) LOADER_ADDRESS_LIMIT :: u64 where "LOADER_ADDRESS_LIMIT \<equiv> 4 * 1024 * 1024 * 1024"
abbreviation (input) LOADER_ARENA_CEILING :: u64 where "LOADER_ARENA_CEILING \<equiv> 1024 * 1024 * 1024"
abbreviation (input) KERNEL_LIMIT_LOW :: u64 where "KERNEL_LIMIT_LOW \<equiv> 1024 * 1024"
abbreviation (input) KERNEL_LIMIT_HIGH :: u64 where "KERNEL_LIMIT_HIGH \<equiv> LOADER_ADDRESS_LIMIT"

text \<open>The base of the arena is also what \<open>arena_base\<close> keeps.\<close>

definition place_arena :: "memory_map \<Rightarrow> arena option" where
  "place_arena m =
     (case memory_map_find_free_high m LOADER_ARENA_BYTES LOADER_ARENA_ALIGNMENT LOADER_ARENA_CEILING of
        None \<Rightarrow> None
      | Some start \<Rightarrow>
          if start < LOADER_ARENA_FLOOR then None else Some (arena_init start LOADER_ARENA_BYTES))"

text \<open>The check of \<open>load_kernel\<close> on the span of the image.\<close>

definition kernel_in_usable_memory :: "memory_map \<Rightarrow> elf_image \<Rightarrow> bool" where
  "kernel_in_usable_memory m img =
     (case memory_map_find m (lowest_address img) of
        None \<Rightarrow> False
      | Some region \<Rightarrow>
          \<not> (region_kind region \<noteq> MEMORY_KIND_USABLE \<or>
             highest_address img > region_base region + region_length region))"

definition kernel_placement :: elf_placement where
  "kernel_placement = \<lparr>bias = 0, limit_low = KERNEL_LIMIT_LOW, limit_high = KERNEL_LIMIT_HIGH\<rparr>"

definition claim_loader_memory :: "memory_map \<Rightarrow> u64 \<Rightarrow> elf_image \<Rightarrow> memory_map" where
  "claim_loader_memory m arena_base img =
     (let (_, m) = memory_map_add m arena_base LOADER_ARENA_BYTES MEMORY_KIND_BOOTLOADER_RECLAIMABLE;
          (_, m) = memory_map_add m (lowest_address img) (highest_address img - lowest_address img)
             MEMORY_KIND_KERNEL
      in memory_map_finalize m)"

subsection \<open>Where the arena goes\<close>

definition arena_place :: "memory_map \<Rightarrow> nat \<Rightarrow> bool" where
  "arena_place m p \<longleftrightarrow> 2 ^ 20 \<le> p \<and> p + 2 ^ 20 \<le> 2 ^ 30 \<and> 4096 dvd p \<and> usable_run (regions m) p (2 ^ 20)"

lemma place_arena_run:
  assumes "canonical (regions m)"
  shows "case place_arena m of
      None \<Rightarrow> \<not> (\<exists>p. arena_place m p)
    | Some a \<Rightarrow> arena_place m (unat (base a)) \<and> \<not> (\<exists>p. arena_place m p \<and> unat (base a) < p) \<and>
        capacity a = 2 ^ 20 \<and> used a = 0 \<and> arena_wf a"
proof -
  have e: "\<exists>k. unat (0x1000 :: u64) = 2 ^ k" by (rule exI [of _ 12]) simp
  note high = find_free_high_highest [OF assms, of "0x100000" "0x1000" "0x40000000"]
  show ?thesis
  proof (cases "memory_map_find_free_high m 0x100000 0x1000 0x40000000")
    case None
    have "\<not> arena_place m q" for q
    proof
      assume q: "arena_place m q"
      define good where "good q \<longleftrightarrow> q + 0x100000 \<le> 0x40000000 \<and> 4096 dvd q \<and> usable_run (regions m) q 0x100000" for q :: nat
      have bound: "good q \<Longrightarrow> q \<le> 0x40000000" for q by (simp add: good_def)
      from q have "good q" by (simp add: arena_place_def good_def)
      then have "good (Greatest good)" "\<And>r. good r \<Longrightarrow> r \<le> Greatest good"
        using bound by (blast intro: GreatestI_nat Greatest_le_nat)+
      moreover from this(1) have "Greatest good < 2 ^ 64" using bound [of "Greatest good"] by simp
      then obtain w :: u64 where "unat w = Greatest good" using ex_unat64 by blast
      ultimately have "memory_map_find_free_high m 0x100000 0x1000 0x40000000 = Some w"
        unfolding high using e by (simp add: good_def)
      with None show False by simp
    qed
    then show ?thesis using None by (simp add: place_arena_def)
  next
    case (Some p)
    note P = Some [unfolded high]
    have wf: "arena_wf (arena_init p 0x100000)"
      by (rule arena_init_wf) (use P in simp)
    show ?thesis
    proof (cases "p < 0x100000")
      case True
      then have "\<not> arena_place m q" for q
        using P by (fastforce simp: arena_place_def word_less_nat_alt)
      then show ?thesis using Some True by (simp add: place_arena_def)
    next
      case False
      then have "p \<noteq> 0" by auto
      with False have "place_arena m = Some (arena_init p 0x100000)" "base (arena_init p 0x100000) = p"
        "capacity (arena_init p 0x100000) = 2 ^ 20" "used (arena_init p 0x100000) = 0"
        using Some by (simp_all add: place_arena_def arena_init_def)
      moreover have "arena_place m (unat p)" "\<forall>q. arena_place m q \<longrightarrow> q \<le> unat p"
        using P False by (auto simp: arena_place_def word_less_nat_alt)
      ultimately show ?thesis using wf by (auto simp: not_less)
    qed
  qed
qed

text \<open>
  C10. The arena is a megabyte of usable memory between the first megabyte and the first gigabyte, aligned to a page,
  the highest there is, and it is refused only where there is none.
\<close>

theorem place_arena_highest:
  assumes "canonical (regions m)"
  shows "case place_arena m of
      None \<Rightarrow> \<not> (\<exists>p. arena_place m p)
    | Some a \<Rightarrow> arena_place m (unat (base a)) \<and> \<not> (\<exists>p. arena_place m p \<and> unat (base a) < p) \<and>
        capacity a = 2 ^ 20 \<and> used a = 0 \<and> arena_wf a"
  by (rule place_arena_run [OF assms])

lemma demo_arena_place:
  "arena_place \<lparr>regions = [\<lparr>region_base = 0, region_length = 0x80000000, region_kind = MEMORY_KIND_USABLE\<rparr>], truncated = False\<rparr> 0x3FF00000"
  by (simp add: arena_place_def usable_run_def region_span_def)

theorem place_arena_highest_witness:
  "case place_arena \<lparr>regions = [\<lparr>region_base = 0, region_length = 0x80000000, region_kind = MEMORY_KIND_USABLE\<rparr>], truncated = False\<rparr>
   of None \<Rightarrow> False | Some a \<Rightarrow> 0x3FF00000 \<le> unat (base a)"
proof -
  let ?m = "\<lparr>regions = [\<lparr>region_base = 0, region_length = 0x80000000, region_kind = MEMORY_KIND_USABLE\<rparr>], truncated = False\<rparr>"
  have "canonical (regions ?m)" by (simp add: canonical_def region_wf_def)
  from place_arena_highest [OF this] demo_arena_place show ?thesis by (fastforce split: option.splits simp: not_less)
qed

subsection \<open>What the kernel is told\<close>

definition arena_bytes :: "u64 \<Rightarrow> nat set" where
  "arena_bytes b = {unat b..<unat b + 2 ^ 20}"

definition kernel_bytes :: "elf_image \<Rightarrow> nat set" where
  "kernel_bytes img = {unat (lowest_address img)..<unat (highest_address img)}"

lemma claim_restricted:
  assumes "r \<in> set rs" "x \<in> region_span r" "region_kind r \<noteq> MEMORY_KIND_USABLE"
  shows "claim rs x \<notin> {None, Some MEMORY_KIND_USABLE}"
proof -
  have "\<not> region_kind r \<le> MEMORY_KIND_USABLE"
    using assms(3) by (cases "region_kind r") (simp_all add: less_eq_memory_kind_def)
  with assms show ?thesis by (auto simp: claim_None_iff claim_Some_iff)
qed

lemma claim_elsewhere: "\<forall>r \<in> set ss. x \<notin> region_span r \<Longrightarrow> claim (rs @ ss) x = claim rs x"
  by (simp add: claim_append flip: claim_None_iff split: option.split)

lemma claimed_memory_run:
  assumes "map_wf m" "unat arena_base + 2 ^ 20 < 2 ^ 64" "lowest_address img < highest_address img"
  shows "canonical (regions (claim_loader_memory m arena_base img)) \<and>
    (if truncated (claim_loader_memory m arena_base img) then True
     else \<forall>x. if x \<in> arena_bytes arena_base \<union> kernel_bytes img
              then claim (regions (claim_loader_memory m arena_base img)) x \<notin> {None, Some MEMORY_KIND_USABLE}
              else claim (regions (claim_loader_memory m arena_base img)) x = claim (regions m) x)"
proof -
  let ?a = "(arena_base, 0x100000, MEMORY_KIND_BOOTLOADER_RECLAIMABLE)"
  let ?k = "(lowest_address img, highest_address img - lowest_address img, MEMORY_KIND_KERNEL)"
  let ?m = "add_entries [?a, ?k] m"
  have n: "unat (highest_address img - lowest_address img) = unat (highest_address img) - unat (lowest_address img)"
    "unat (lowest_address img) < unat (highest_address img)"
    using assms(3) by (simp_all add: unat_sub_fits less_imp_le word_less_nat_alt)
  have wf: "region_wf (entry_region ?a)" "region_wf (entry_region ?k)"
    using assms(2,3) n by (auto simp: region_wf_def entry_region_def)
  have eq: "claim_loader_memory m arena_base img = memory_map_finalize ?m"
    by (simp add: claim_loader_memory_def add_entries_def split_beta)
  have spans: "region_span (entry_region ?a) = arena_bytes arena_base" "region_span (entry_region ?k) = kernel_bytes img"
    using n by (simp_all add: region_span_def entry_region_def arena_bytes_def kernel_bytes_def)
  note spec = finalize_spec [OF add_entries_wf [OF assms(1), of "[?a, ?k]"]]
  show ?thesis
  proof (cases "truncated (memory_map_finalize ?m)")
    case True
    then show ?thesis using spec(1) unfolding eq by simp
  next
    case False
    then have "\<not> truncated ?m" using spec(3) by blast
    then have "regions ?m = regions m @ [entry_region ?a, entry_region ?k]"
      using add_entries_regions [of m "[?a, ?k]"] assms(1) wf by (simp add: map_wf_def) linarith
    then have claims: "claim (regions (memory_map_finalize ?m)) x =
        claim (regions m @ [entry_region ?a, entry_region ?k]) x" for x
      using spec(5) [OF False] by simp
    have kinds: "region_kind (entry_region ?a) \<noteq> MEMORY_KIND_USABLE" "region_kind (entry_region ?k) \<noteq> MEMORY_KIND_USABLE"
      by (simp_all add: entry_region_def)
    have "claim (regions (memory_map_finalize ?m)) x \<notin> {None, Some MEMORY_KIND_USABLE}"
      if "x \<in> arena_bytes arena_base \<union> kernel_bytes img" for x
      using that kinds spans claim_restricted [of "entry_region ?a" "regions m @ [entry_region ?a, entry_region ?k]" x]
        claim_restricted [of "entry_region ?k" "regions m @ [entry_region ?a, entry_region ?k]" x]
      unfolding claims by (elim UnE) simp_all
    moreover have "claim (regions (memory_map_finalize ?m)) x = claim (regions m) x"
      if "x \<notin> arena_bytes arena_base \<union> kernel_bytes img" for x
      using that spans unfolding claims by (intro claim_elsewhere) simp
    ultimately show ?thesis using spec(1) False unfolding eq by simp
  qed
qed

text \<open>The map is marked only when the firmware's was, or left no room for what the loader claims and the splits it causes.\<close>

lemma claimed_complete:
  assumes "map_wf m" "\<not> truncated m" "length (regions m) \<le> 62"
  shows "\<not> truncated (claim_loader_memory m arena_base img)"
proof -
  let ?a = "(arena_base, 0x100000, MEMORY_KIND_BOOTLOADER_RECLAIMABLE)"
  let ?k = "(lowest_address img, highest_address img - lowest_address img, MEMORY_KIND_KERNEL)"
  let ?m = "add_entries [?a, ?k] m"
  have eq: "claim_loader_memory m arena_base img = memory_map_finalize ?m"
    by (simp add: claim_loader_memory_def add_entries_def split_beta)
  have "length (filter region_wf (map entry_region [?a, ?k])) \<le> 2"
    using length_filter_le [of region_wf "map entry_region [?a, ?k]"] by simp
  then have "\<not> truncated ?m" "length (regions ?m) \<le> 64"
    using add_entries_regions [of m "[?a, ?k]"] assms by simp_all
  then show ?thesis unfolding eq by (rule finalize_spec(6) [OF add_entries_wf [OF assms(1)]])
qed

text \<open>
  On a marked map the claims still hold as far as it reaches, when there was room to add them: the map is a start of the
  one that would have been whole.
\<close>

lemma claimed_never_usable:
  assumes "map_wf m" "length (regions m) \<le> 126"
    and "unat arena_base + 2 ^ 20 < 2 ^ 64" "lowest_address img < highest_address img"
    and x: "x \<in> arena_bytes arena_base \<union> kernel_bytes img"
  shows "claim (regions (claim_loader_memory m arena_base img)) x \<noteq> Some MEMORY_KIND_USABLE"
proof -
  let ?a = "(arena_base, 0x100000, MEMORY_KIND_BOOTLOADER_RECLAIMABLE)"
  let ?k = "(lowest_address img, highest_address img - lowest_address img, MEMORY_KIND_KERNEL)"
  let ?m = "add_entries [?a, ?k] m" and ?rs = "regions m @ [entry_region ?a, entry_region ?k]"
  have n: "unat (highest_address img - lowest_address img) = unat (highest_address img) - unat (lowest_address img)"
    "unat (lowest_address img) < unat (highest_address img)"
    using assms(4) by (simp_all add: unat_sub_fits less_imp_le word_less_nat_alt)
  have wf: "region_wf (entry_region ?a)" "region_wf (entry_region ?k)"
    using assms(3,4) n by (auto simp: region_wf_def entry_region_def)
  have eq: "claim_loader_memory m arena_base img = memory_map_finalize ?m"
    by (simp add: claim_loader_memory_def add_entries_def split_beta)
  have "regions ?m = ?rs"
    using add_entries_regions [of m "[?a, ?k]"] assms(2) wf by simp
  then obtain cut where cut: "claim (regions (memory_map_finalize ?m)) x = (if x < cut then claim ?rs x else None)"
    using finalize_spec(4) [OF add_entries_wf [OF assms(1), of "[?a, ?k]"]] by metis
  have "region_span (entry_region ?a) = arena_bytes arena_base" "region_span (entry_region ?k) = kernel_bytes img"
    using n by (simp_all add: region_span_def entry_region_def arena_bytes_def kernel_bytes_def)
  moreover have "region_kind (entry_region ?a) \<noteq> MEMORY_KIND_USABLE" "region_kind (entry_region ?k) \<noteq> MEMORY_KIND_USABLE"
    by (simp_all add: entry_region_def)
  ultimately have "claim ?rs x \<noteq> Some MEMORY_KIND_USABLE"
    using x claim_restricted [of "entry_region ?a" ?rs x] claim_restricted [of "entry_region ?k" ?rs x] by auto
  then show ?thesis unfolding eq cut by simp
qed

text \<open>
  C8. Unless the map is marked truncated, no byte of the arena and none of the kernel's image is usable memory in the map
  the kernel is handed, all other bytes keep the kind the firmware gave them, and the map is in order.
\<close>

theorem claimed_memory_exact:
  assumes "map_wf m" "unat arena_base + 2 ^ 20 < 2 ^ 64" "lowest_address img < highest_address img"
  shows "canonical (regions (claim_loader_memory m arena_base img)) \<and>
    (if truncated (claim_loader_memory m arena_base img) then True
     else \<forall>x. if x \<in> arena_bytes arena_base \<union> kernel_bytes img
              then claim (regions (claim_loader_memory m arena_base img)) x \<notin> {None, Some MEMORY_KIND_USABLE}
              else claim (regions (claim_loader_memory m arena_base img)) x = claim (regions m) x)"
  by (rule claimed_memory_run [OF assms])

text \<open>A map with one region, an image of one page in it.\<close>

definition demo_usable :: memory_map where
  "demo_usable = \<lparr>regions = [\<lparr>region_base = 0x100000, region_length = 0x200000, region_kind = MEMORY_KIND_USABLE\<rparr>],
     truncated = False\<rparr>"

definition demo_kernel :: elf_image where
  "demo_kernel = \<lparr>entry_address = 0x200000, segments = [], lowest_address = 0x200000, highest_address = 0x201000\<rparr>"

lemma demo_usable_wf: "map_wf demo_usable" "canonical (regions demo_usable)"
  by (simp_all add: demo_usable_def map_wf_def region_wf_def canonical_def)

theorem claimed_memory_exact_witness:
  "claim (regions (claim_loader_memory demo_usable 0x100000 demo_kernel)) 0x200800 \<notin> {None, Some MEMORY_KIND_USABLE} \<and>
   claim (regions (claim_loader_memory demo_usable 0x100000 demo_kernel)) 0x202000 = Some MEMORY_KIND_USABLE"
proof -
  have t: "\<not> truncated (claim_loader_memory demo_usable 0x100000 demo_kernel)"
    by (simp add: claim_loader_memory_def demo_usable_def demo_kernel_def finalize_run_defs)
  have u: "claim (regions demo_usable) 0x202000 = Some MEMORY_KIND_USABLE"
    by (simp add: demo_usable_def region_span_def)
  have k: "kernel_bytes demo_kernel = {0x200000..<0x201000}" "lowest_address demo_kernel < highest_address demo_kernel"
    by (simp_all add: kernel_bytes_def demo_kernel_def)
  note exact = claimed_memory_exact [OF demo_usable_wf(1) _ k(2), of "0x100000", unfolded if_not_P [OF t] k(1) arena_bytes_def]
  from exact [THEN conjunct2, THEN spec, of "0x200800"] exact [THEN conjunct2, THEN spec, of "0x202000"] u show ?thesis
    by simp
qed

text \<open>When the map is full the claims are dropped, and the memory the loader stands on stays usable in it.\<close>

lemma full_map_claims_nothing:
  assumes "length (regions m) = MEMORY_MAP_MAX_REGIONS"
  shows "claim_loader_memory m arena_base img = memory_map_finalize (m\<lparr>truncated := True\<rparr>) \<or>
    claim_loader_memory m arena_base img = memory_map_finalize m"
  using assms by (auto simp: claim_loader_memory_def memory_map_add_def)

text \<open>The kernel is only kept out of memory that is not usable, and the arena still is when the kernel is loaded.\<close>

lemma kernel_may_overlap_arena:
  "(case place_arena demo_usable of None \<Rightarrow> False | Some a \<Rightarrow> unat (base a) \<in> kernel_bytes demo_kernel) \<and>
   kernel_in_usable_memory demo_usable demo_kernel"
  by (simp add: place_arena_def demo_usable_def memory_map_find_free_high_def high_in_region_def region_end_def arena_init_def
      kernel_bytes_def demo_kernel_def kernel_in_usable_memory_def memory_map_find_def)

end
