(* ===== verification/Boot_Tables.thy ===== *)
theory Boot_Tables
  imports Paging Boot_Memory
begin

text \<open>
  The tables the kernel is entered on, \<open>map_segment\<close> and \<open>build_kernel_tables\<close> of \<open>src/boot/main.c\<close>. The processor
  feature bits are arguments; setting the no-execute bit of the processor itself is a wrapper of one instruction. The
  reference is the list of the mappings the tables are meant to hold.
\<close>

abbreviation (input) IDENTITY_MAP_BYTES :: u64 where "IDENTITY_MAP_BYTES \<equiv> LOADER_ADDRESS_LIMIT"

definition map_segment :: "bool \<Rightarrow> elf_segment \<Rightarrow> bool \<Rightarrow> page_tables \<Rightarrow> mem \<Rightarrow> bool \<times> page_tables \<times> mem" where
  "map_segment kernel_no_execute segment writable tables m =
     (let virtual = virtual_address segment AND NOT (PAGE_BYTES - 1);
          physical = physical_address segment AND NOT (PAGE_BYTES - 1);
          leading = virtual_address segment - virtual;
          bytes = memory_bytes segment + leading;
          bytes = (bytes + PAGE_BYTES - 1) AND NOT (PAGE_BYTES - 1);
          flags = (if writable then PAGE_WRITABLE else 0);
          flags = (if \<not> seg_flags segment AND ELF_FLAG_EXECUTE \<noteq> 0 \<and> kernel_no_execute
                   then flags OR PAGE_NO_EXECUTE else flags)
      in paging_map tables m virtual physical bytes flags)"

text \<open>The loop over the segments.\<close>

fun map_segments :: "bool \<Rightarrow> elf_segment list \<Rightarrow> page_tables \<Rightarrow> mem \<Rightarrow> bool \<times> page_tables \<times> mem" where
  "map_segments kernel_no_execute [] tables m = (True, tables, m)"
| "map_segments kernel_no_execute (segment # rest) tables m =
     (if virtual_address segment = physical_address segment then map_segments kernel_no_execute rest tables m
      else case map_segment kernel_no_execute segment (seg_flags segment AND ELF_FLAG_WRITE \<noteq> 0) tables m of
             (False, tables, m) \<Rightarrow> (False, tables, m)
           | (True, tables, m) \<Rightarrow> map_segments kernel_no_execute rest tables m)"

text \<open>The direct map at \<open>direct_base\<close>, below the kernel and above it.\<close>

definition map_direct :: "bool \<Rightarrow> elf_image \<Rightarrow> u64 \<Rightarrow> page_tables \<Rightarrow> mem \<Rightarrow> bool \<times> page_tables \<times> mem" where
  "map_direct kernel_no_execute img direct_base tables m =
     (let room = (0 - direct_base) - PAGE_BYTES;
          direct_bytes = (if room < IDENTITY_MAP_BYTES then room else IDENTITY_MAP_BYTES);
          kernel_low = lowest_address img AND NOT (PAGE_BYTES - 1);
          kernel_high = (highest_address img + PAGE_BYTES - 1) AND NOT (PAGE_BYTES - 1);
          flags = PAGE_WRITABLE OR (if kernel_no_execute then PAGE_NO_EXECUTE else 0)
      in case (if kernel_low > 0 then paging_map tables m direct_base 0 kernel_low flags else (True, tables, m)) of
           (False, tables, m) \<Rightarrow> (False, tables, m)
         | (True, tables, m) \<Rightarrow>
             if kernel_high < direct_bytes
             then paging_map tables m (direct_base + kernel_high) kernel_high (direct_bytes - kernel_high) flags
             else (True, tables, m))"

definition build_kernel_tables ::
  "elf_image \<Rightarrow> bool \<Rightarrow> bool \<Rightarrow> arena \<Rightarrow> mem \<Rightarrow> page_tables option \<times> mem" where
  "build_kernel_tables img no_execute gigabyte_pages loader_arena m =
     (case paging_create loader_arena gigabyte_pages m of
        None \<Rightarrow> (None, m)
      | Some (tables, m) \<Rightarrow>
          (case paging_map tables m 0 0 IDENTITY_MAP_BYTES PAGE_WRITABLE of
             (False, tables, m) \<Rightarrow> (None, m)
           | (True, tables, m) \<Rightarrow>
               (let first = hd (segments img);
                    direct_base = virtual_address first - physical_address first
                in case (if direct_base \<noteq> 0 then map_direct no_execute img direct_base tables m else (True, tables, m)) of
                     (False, tables, m) \<Rightarrow> (None, m)
                   | (True, tables, m) \<Rightarrow>
                       (case map_segments no_execute (segments img) tables m of
                          (False, tables, m) \<Rightarrow> (None, m)
                        | (True, tables, m) \<Rightarrow> (Some tables, m)))))"

subsection \<open>The mappings\<close>

text \<open>A mapping: virtual and physical address, bytes, flags.\<close>

type_synonym mapping = "u64 \<times> u64 \<times> u64 \<times> u64"

definition round_down :: "u64 \<Rightarrow> u64" where
  "round_down a = a AND NOT 0xFFF"

definition round_up :: "u64 \<Rightarrow> u64" where
  "round_up a = (a + 0xFFF) AND NOT 0xFFF"

definition segment_flags :: "bool \<Rightarrow> elf_segment \<Rightarrow> u64" where
  "segment_flags nx s =
     (if seg_flags s AND ELF_FLAG_WRITE \<noteq> 0 then PAGE_WRITABLE else 0) OR
     (if seg_flags s AND ELF_FLAG_EXECUTE = 0 \<and> nx then PAGE_NO_EXECUTE else 0)"

definition segment_mapping :: "bool \<Rightarrow> elf_segment \<Rightarrow> mapping" where
  "segment_mapping nx s =
     (round_down (virtual_address s), round_down (physical_address s),
      round_up (memory_bytes s + (virtual_address s - round_down (virtual_address s))), segment_flags nx s)"

definition direct_mappings :: "bool \<Rightarrow> elf_image \<Rightarrow> u64 \<Rightarrow> mapping list" where
  "direct_mappings nx img b =
     (let room = - b - 0x1000;
          n = (if room < 0x100000000 then room else 0x100000000);
          low = round_down (lowest_address img);
          high = round_up (highest_address img);
          flags = PAGE_WRITABLE OR (if nx then PAGE_NO_EXECUTE else 0)
      in (if low \<noteq> 0 then [(b, 0, low, flags)] else []) @ (if high < n then [(b + high, high, n - high, flags)] else []))"

definition kernel_mappings :: "bool \<Rightarrow> elf_image \<Rightarrow> mapping list" where
  "kernel_mappings nx img =
     (let b = virtual_address (hd (segments img)) - physical_address (hd (segments img))
      in (0, 0, 0x100000000, PAGE_WRITABLE) # (if b \<noteq> 0 then direct_mappings nx img b else []) @
         map (segment_mapping nx) (filter (\<lambda>s. virtual_address s \<noteq> physical_address s) (segments img)))"

fun map_all :: "mapping list \<Rightarrow> page_tables \<Rightarrow> mem \<Rightarrow> bool \<times> page_tables \<times> mem" where
  "map_all [] tables m = (True, tables, m)"
| "map_all ((v, p, n, f) # ms) tables m =
     (case paging_map tables m v p n f of
        (False, tables, m) \<Rightarrow> (False, tables, m)
      | (True, tables, m) \<Rightarrow> map_all ms tables m)"

lemma map_all_append:
  "map_all (xs @ ys) tables m =
     (case map_all xs tables m of (False, tables, m) \<Rightarrow> (False, tables, m) | (True, tables, m) \<Rightarrow> map_all ys tables m)"
  by (induction xs tables m rule: map_all.induct) (auto split: prod.splits bool.splits)

lemma add_sub_1: "a + 0x1000 - 1 = a + 0xFFF" for a :: u64
  by simp

lemma literals: "(4096 :: u64) - 1 = 0xFFF" "(4 :: u64) * 1024 * 1024 * 1024 = 0x100000000" "0 - b = - (b :: u64)"
  by simp_all

lemma map_segments_all:
  "map_segments nx ss tables m =
     map_all (map (segment_mapping nx) (filter (\<lambda>s. virtual_address s \<noteq> physical_address s) ss)) tables m"
proof (induction ss arbitrary: tables m)
  case (Cons s ss)
  have "map_segment nx s (seg_flags s AND ELF_FLAG_WRITE \<noteq> 0) tables m =
      (case segment_mapping nx s of (v, p, n, f) \<Rightarrow> paging_map tables m v p n f)"
    by (simp add: map_segment_def segment_mapping_def segment_flags_def round_down_def round_up_def Let_def add_sub_1)
  with Cons show ?case by (simp add: segment_mapping_def split: prod.split bool.split)
qed simp

lemma map_direct_all: "map_direct nx img b tables m = map_all (direct_mappings nx img b) tables m"
proof -
  define low high n f where "low = round_down (lowest_address img)" and "high = round_up (highest_address img)"
    and "n = (if - b - 0x1000 < 0x100000000 then - b - 0x1000 else 0x100000000 :: u64)"
    and "f = (PAGE_WRITABLE OR (if nx then PAGE_NO_EXECUTE else 0))"
  have d: "direct_mappings nx img b =
      (if low \<noteq> 0 then [(b, 0, low, f)] else []) @ (if high < n then [(b + high, high, n - high, f)] else [])"
    by (simp add: direct_mappings_def Let_def flip: low_def high_def n_def f_def)
  have m: "map_direct nx img b tables m =
      (case (if low > 0 then paging_map tables m b 0 low f else (True, tables, m)) of
           (False, tables, m) \<Rightarrow> (False, tables, m)
         | (True, tables, m) \<Rightarrow>
             if high < n then paging_map tables m (b + high) high (n - high) f else (True, tables, m))"
    unfolding low_def high_def n_def f_def map_direct_def Let_def round_down_def round_up_def add_sub_1 literals ..
  obtain ok t1 m1 where one: "paging_map tables m b 0 low f = (ok, t1, m1)" by (metis prod_cases3)
  show ?thesis unfolding m d
    by (cases "low = 0"; cases ok; cases "high < n") (simp_all add: one word_neq_0_conv split: prod.split bool.split)
qed

lemma build_kernel_tables_all:
  "build_kernel_tables img nx gb a m =
     (case paging_create a gb m of
        None \<Rightarrow> (None, m)
      | Some (tables, m) \<Rightarrow>
          (case map_all (kernel_mappings nx img) tables m of (ok, tables, m) \<Rightarrow> (if ok then Some tables else None, m)))"
proof (cases "paging_create a gb m")
  case None
  then show ?thesis by (simp add: build_kernel_tables_def)
next
  case (Some tm)
  obtain t1 m1 where tm: "tm = (t1, m1)" by (cases tm)
  define b where "b = virtual_address (hd (segments img)) - physical_address (hd (segments img))"
  define direct where "direct = (if b \<noteq> 0 then direct_mappings nx img b else [])"
  obtain ok2 t2 m2 where one: "paging_map t1 m1 0 0 0x100000000 PAGE_WRITABLE = (ok2, t2, m2)"
    by (metis prod_cases3)
  have two: "(if b \<noteq> 0 then map_direct nx img b t2 m2 else (True, t2, m2)) = map_all direct t2 m2"
    by (simp add: direct_def map_direct_all)
  obtain ok3 t3 m3 where three: "map_all direct t2 m2 = (ok3, t3, m3)" by (metis prod_cases3)
  show ?thesis
    unfolding build_kernel_tables_def kernel_mappings_def Let_def Some tm option.case prod.case literals one
      b_def [symmetric] two three map_segments_all direct_def [symmetric]
    by (cases ok2; cases ok3) (simp_all add: one three map_all_append split: prod.split bool.split)
qed

subsection \<open>What the tables translate\<close>

definition covers :: "u64 \<Rightarrow> mapping \<Rightarrow> bool" where
  "covers a = (\<lambda>(v, p, n, f). unat v \<le> unat a \<and> unat a < unat v + unat n)"

definition below52 :: "mapping \<Rightarrow> bool" where
  "below52 = (\<lambda>(v, p, n, f). unat p + unat n \<le> 2 ^ 52)"

text \<open>The translation of an address that a mapping gives.\<close>

definition mapped_to :: "(u64 \<times> u64) option \<Rightarrow> u64 \<Rightarrow> mapping \<Rightarrow> bool" where
  "mapped_to t a = (\<lambda>(v, p, n, f). case t of None \<Rightarrow> False
     | Some (q, g) \<Rightarrow> q = p + (a - v) \<and> g AND NOT PAGE_SIZE_LARGE = f OR PAGE_PRESENT)"

lemma map_all_frame:
  "pt_inv F tables m pos \<Longrightarrow> map_all ms tables m = (ok, tables', m') \<Longrightarrow>
   arena_frame F tables m tables' m'"
proof (induction ms arbitrary: tables m pos)
  case (Cons c ms)
  obtain v p n f where c: "c = (v, p, n, f)" by (cases c)
  obtain good t1 m1 where one: "paging_map tables m v p n f = (good, t1, m1)" by (metis prod_cases3)
  from paging_map_above [OF Cons.prems(1) one] obtain pos1 where
    inv: "pt_inv F t1 m1 pos1" and frame: "arena_frame F tables m t1 m1" by blast
  show ?case
    using Cons.prems(2) Cons.IH [OF inv] frame by (cases good) (auto simp: c one intro: arena_frame_trans)
qed simp

lemma map_all_translates:
  assumes "pt_state tables m" "list_all below52 ms" "map_all ms tables m = (True, tables', m')"
  shows "pt_state tables' m' \<and>
    (\<forall>c \<in> set ms. covers a c \<longrightarrow> paging_translate tables m a = None \<and> mapped_to (paging_translate tables' m' a) a c) \<and>
    ((\<forall>c \<in> set ms. \<not> covers a c) \<longrightarrow> paging_translate tables' m' a = paging_translate tables m a)"
  using assms
proof (induction ms arbitrary: tables m)
  case (Cons c ms)
  obtain v p n f where c: "c = (v, p, n, f)" by (cases c)
  obtain t1 m1 where one: "paging_map tables m v p n f = (True, t1, m1)" and rest: "map_all ms t1 m1 = (True, tables', m')"
    using Cons.prems(3) by (auto simp: c split: prod.splits bool.splits)
  have p: "unat p + unat n \<le> 2 ^ 52" and all: "list_all below52 ms" using Cons.prems(2) by (simp_all add: c below52_def)
  note T = paging_map_translates [OF Cons.prems(1) p one, of a]
  note IH = Cons.IH [OF T [THEN conjunct1] all rest]
  show ?case
  proof (cases "covers a c")
    case True
    then have in_c: "unat v \<le> unat a \<and> unat a < unat v + unat n" by (simp add: c covers_def)
    then obtain g where g: "paging_translate tables m a = None" "paging_translate t1 m1 a = Some (p + (a - v), g)"
      "g AND NOT PAGE_SIZE_LARGE = f OR PAGE_PRESENT"
      using T by auto
    then have none: "\<forall>c \<in> set ms. \<not> covers a c" using IH by auto
    then have "paging_translate tables' m' a = Some (p + (a - v), g)" using IH g(2) by simp
    then have "mapped_to (paging_translate tables' m' a) a c" using g(3) by (simp add: c mapped_to_def)
    with True IH g(1) none show ?thesis by simp
  next
    case False
    then have "paging_translate t1 m1 a = paging_translate tables m a"
      using T by (auto simp: c covers_def)
    from IH [unfolded this] False show ?thesis by simp
  qed
qed simp

subsection \<open>The kernel's tables\<close>

lemma round_down_nat: "unat (round_down a) = unat a div 4096 * 4096"
proof -
  have "pow2 (4096 :: u64)" by (simp add: pow2_def)
  from unat_align_down [OF this, of a] show ?thesis by (simp add: round_down_def)
qed

lemma round_up_nat: "unat a + 0xFFF < 2 ^ 64 \<Longrightarrow> unat (round_up a) = (unat a + 0xFFF) div 4096 * 4096"
proof -
  assume "unat a + 0xFFF < 2 ^ 64"
  then have "unat (a + 0xFFF) = unat a + 0xFFF" by (simp add: unat_add_fits)
  with round_down_nat [of "a + 0xFFF"] show ?thesis by (simp add: round_up_def round_down_def)
qed

lemma page_offset_nat: "unat (a - round_down a) = unat a mod 4096"
proof -
  have "round_down a \<le> a" by (simp add: word_le_nat_alt round_down_nat)
  then show ?thesis by (simp add: unat_sub_fits round_down_nat minus_div_mult_eq_mod)
qed

text \<open>The span of a segment's mapping, when the image lies below four gigabytes.\<close>

lemma segment_mapping_nat:
  assumes "image_wf img" "highest_address img \<le> 0x100000000" "s \<in> set (segments img)"
  shows "unat (physical_address s) + unat (memory_bytes s) \<le> 2 ^ 32"
    "unat (round_up (memory_bytes s + (virtual_address s - round_down (virtual_address s)))) =
       (unat (memory_bytes s) + unat (virtual_address s) mod 4096 + 0xFFF) div 4096 * 4096"
proof -
  have wf: "segment_wf s" "physical_address s + memory_bytes s \<le> highest_address img"
    using assms(1,3) by (auto simp: image_wf_def list_all_iff)
  then have "unat (physical_address s + memory_bytes s) \<le> 2 ^ 32" using assms(2) by (simp add: word_le_nat_alt)
  moreover have "unat (physical_address s + memory_bytes s) = unat (physical_address s) + unat (memory_bytes s)"
    using wf(1) by (simp add: segment_wf_def unat_add_fits)
  ultimately show le: "unat (physical_address s) + unat (memory_bytes s) \<le> 2 ^ 32" by simp
  have small: "unat (virtual_address s) mod 4096 < 4096" by simp
  then have "unat (memory_bytes s + (virtual_address s - round_down (virtual_address s))) =
      unat (memory_bytes s) + unat (virtual_address s) mod 4096"
    using le by (subst unat_add_fits) (simp_all add: page_offset_nat)
  then show "unat (round_up (memory_bytes s + (virtual_address s - round_down (virtual_address s)))) =
       (unat (memory_bytes s) + unat (virtual_address s) mod 4096 + 0xFFF) div 4096 * 4096"
    using le small by (subst round_up_nat) simp_all
qed

lemma kernel_mappings_below52:
  assumes "image_wf img" "highest_address img \<le> 0x100000000" "segments img \<noteq> []"
  shows "list_all below52 (kernel_mappings nx img)"
proof -
  have "below52 (segment_mapping nx s)" if "s \<in> set (segments img)" for s
  proof -
    note n = segment_mapping_nat [OF assms(1,2) that]
    have "unat (physical_address s) div 4096 * 4096 \<le> 2 ^ 32" using n(1) by linarith
    moreover have "(unat (memory_bytes s) + unat (virtual_address s) mod 4096 + 0xFFF) div 4096 * 4096 \<le> 2 ^ 32 + 8192"
    proof -
      have "unat (virtual_address s) mod 4096 < 4096" by simp
      with n(1) show ?thesis by linarith
    qed
    ultimately show ?thesis by (simp add: segment_mapping_def below52_def n(2) round_down_nat)
  qed
  moreover have "list_all below52 (direct_mappings nx img b)" for b
  proof -
    define k where "k = (if - b - 0x1000 < 0x100000000 then - b - 0x1000 else 0x100000000 :: u64)"
    have k: "unat k \<le> 2 ^ 32" by (auto simp: k_def word_less_nat_alt)
    obtain s where s: "s \<in> set (segments img)" using assms(3) by (cases "segments img") auto
    then have "unat (lowest_address img) \<le> unat (physical_address s)"
      using assms(1) by (simp add: image_wf_def word_le_nat_alt)
    then have "unat (lowest_address img) \<le> 2 ^ 32" using segment_mapping_nat(1) [OF assms(1,2) s] by linarith
    then have low: "unat (round_down (lowest_address img)) \<le> 2 ^ 52" unfolding round_down_nat
      by (intro order_trans [OF div_times_less_eq_dividend]) simp
    have high: "unat h + unat (k - h) \<le> 2 ^ 52" if "h < k" for h
      using that k by (simp add: unat_sub_fits less_imp_le word_less_nat_alt)
    show ?thesis using low high by (simp add: direct_mappings_def Let_def below52_def flip: k_def)
  qed
  moreover have "below52 (0, 0, 0x100000000, PAGE_WRITABLE)" by (simp add: below52_def)
  ultimately show ?thesis by (auto simp: kernel_mappings_def Let_def list_all_iff)
qed

lemma build_kernel_tables_spec:
  assumes "arena_wf a" "unat (base a) + unat (capacity a) \<le> 2 ^ 52"
    and "image_wf img" "segments img \<noteq> []" "highest_address img \<le> 0x100000000"
    and "build_kernel_tables img nx gb a m = (Some tables, m')"
  shows "pt_state tables m'"
    "c \<in> set (kernel_mappings nx img) \<Longrightarrow> covers x c \<Longrightarrow> mapped_to (paging_translate tables m' x) x c"
    "\<forall>c \<in> set (kernel_mappings nx img). \<not> covers x c \<Longrightarrow> paging_translate tables m' x = None"
proof -
  obtain t1 m1 where create: "paging_create a gb m = Some (t1, m1)" and all: "map_all (kernel_mappings nx img) t1 m1 = (True, tables, m')"
    using assms(6) by (auto simp: build_kernel_tables_all split: option.splits prod.splits if_splits)
  note C = paging_created [OF assms(1,2) create]
  note T = map_all_translates [OF _ kernel_mappings_below52 [OF assms(3,5,4)] all]
  show "pt_state tables m'" using C T by blast
  show "c \<in> set (kernel_mappings nx img) \<Longrightarrow> covers x c \<Longrightarrow> mapped_to (paging_translate tables m' x) x c"
    using C [of x] T [of x] by blast
  show "\<forall>c \<in> set (kernel_mappings nx img). \<not> covers x c \<Longrightarrow> paging_translate tables m' x = None"
    using C [of x] T [of x] by simp
qed

text \<open>The tables take what the arena has left, and nothing else is written.\<close>

lemma build_kernel_tables_frame:
  assumes "arena_wf a" "unat (base a) + unat (capacity a) \<le> 2 ^ 52" "segments img \<noteq> []"
    and "build_kernel_tables img nx gb a m = (Some tables, m')"
    and x: "\<not> (unat (base a) + unat (used a) \<le> unat x \<and> unat x < unat (base a) + unat (capacity a))"
  shows "m' x = m x"
proof -
  obtain t1 m1 where create: "paging_create a gb m = Some (t1, m1)" and all: "map_all (kernel_mappings nx img) t1 m1 = (True, tables, m')"
    using assms(3,4) by (auto simp: build_kernel_tables_all split: option.splits prod.splits if_splits)
  note C = paging_created_above [OF assms(1,2) create]
  from C(1) obtain pos where "pt_inv (unat (base a) + unat (used a)) t1 m1 pos" ..
  then have "arena_frame (unat (base a) + unat (used a)) t1 m1 tables m'" by (rule map_all_frame [OF _ all])
  then have "m' x = m1 x" using x C(3,4) by (simp add: arena_frame_def)
  with C(5) [OF x] show ?thesis by simp
qed

text \<open>
  C6. The tables the kernel is entered on hold exactly the mappings meant: the identity map of four gigabytes, the direct
  map around the kernel, and the pages of each segment that is not reached by the identity map. Every address of a
  mapping translates to the address at the same offset with the flags of that mapping, so no two of them overlap, and no
  other address translates to anything.
\<close>

theorem build_kernel_tables_exact:
  assumes "arena_wf a" "unat (base a) + unat (capacity a) \<le> 2 ^ 52"
    and "image_wf img" "segments img \<noteq> []" "highest_address img \<le> 0x100000000"
    and "build_kernel_tables img nx gb a m = (Some tables, m')"
  shows "(\<forall>c \<in> set (kernel_mappings nx img). covers x c \<longrightarrow> mapped_to (paging_translate tables m' x) x c) \<and>
    (if \<exists>c \<in> set (kernel_mappings nx img). covers x c then True else paging_translate tables m' x = None)"
  using build_kernel_tables_spec [OF assms] by auto

lemma page_span:
  fixes v n :: nat
  shows "v + n \<le> v div 4096 * 4096 + (n + v mod 4096 + 0xFFF) div 4096 * 4096" "v div 4096 * 4096 \<le> v"
proof -
  have "n + v mod 4096 \<le> (n + v mod 4096 + 0xFFF) div 4096 * 4096" by linarith
  then show "v + n \<le> v div 4096 * 4096 + (n + v mod 4096 + 0xFFF) div 4096 * 4096"
    using div_mult_mod_eq [of v 4096] by linarith
qed simp

lemma flag_of_mapped: "g AND NOT 0x80 = f OR 1 \<Longrightarrow> k AND 0x81 = 0 \<Longrightarrow> g AND k = f AND (k :: u64)"
proof -
  assume g: "g AND NOT 0x80 = f OR 1" and k: "k AND 0x81 = 0"
  have "\<not> bit k 0" "\<not> bit k 7"
  proof -
    have "bit (k AND 0x81) 0 = False" "bit (k AND 0x81) 7 = False" using k by simp_all
    then show "\<not> bit k 0" "\<not> bit k 7" by (simp_all add: bit_and_iff)
  qed
  show "g AND k = f AND k"
  proof (rule bit_word_eqI)
    fix n assume n: "n < LENGTH(64)"
    have "bit (g AND NOT 0x80) n = bit (f OR 1) n" using g by simp
    moreover have "(0x80 :: u64) = push_bit 7 1" by (simp add: push_bit_eq_mult)
    then have "bit (0x80 :: u64) n \<longleftrightarrow> n = 7" using n by (simp only: bit_push_bit_iff bit_1_iff) auto
    ultimately show "bit (g AND k) n = bit (f AND k) n"
      using \<open>\<not> bit k 0\<close> \<open>\<not> bit k 7\<close> n by (cases "n = 0"; cases "n = 7") (auto simp: bit_simps bit_1_iff)
  qed
qed

text \<open>
  What a segment finds in the tables. A page holds whole pages only, so a segment whose two addresses lie at different
  offsets in their pages is found shifted by the difference. A segment that is linked where it is loaded is left to the
  identity map, which is writable and executable; another one has the rights its header asks for, as far as the
  processor can refuse to execute.
\<close>

definition page_shift :: "elf_segment \<Rightarrow> u64" where
  "page_shift s = (virtual_address s AND 0xFFF) - (physical_address s AND 0xFFF)"

definition segment_writable :: "elf_segment \<Rightarrow> bool" where
  "segment_writable s \<longleftrightarrow> virtual_address s = physical_address s \<or> seg_flags s AND ELF_FLAG_WRITE \<noteq> 0"

definition segment_not_executable :: "bool \<Rightarrow> elf_segment \<Rightarrow> bool" where
  "segment_not_executable nx s \<longleftrightarrow> nx \<and> virtual_address s \<noteq> physical_address s \<and> seg_flags s AND ELF_FLAG_EXECUTE = 0"

definition reached_at :: "bool \<Rightarrow> page_tables \<Rightarrow> mem \<Rightarrow> elf_segment \<Rightarrow> nat \<Rightarrow> bool" where
  "reached_at nx tables m s j \<longleftrightarrow>
     (case paging_translate tables m (virtual_address s + of_nat j) of None \<Rightarrow> False
      | Some (a, g) \<Rightarrow> a = physical_address s + page_shift s + of_nat j \<and>
          (g AND PAGE_WRITABLE \<noteq> 0 \<longleftrightarrow> segment_writable s) \<and> (g AND PAGE_NO_EXECUTE \<noteq> 0 \<longleftrightarrow> segment_not_executable nx s))"

definition segment_reached :: "bool \<Rightarrow> page_tables \<Rightarrow> mem \<Rightarrow> elf_segment \<Rightarrow> bool" where
  "segment_reached nx tables m s \<longleftrightarrow> (\<forall>j < unat (memory_bytes s). reached_at nx tables m s j)"

lemma page_offset_mask: "unat (a AND 0xFFF) = unat a mod 4096" for a :: u64
proof -
  have "a AND 0xFFF = take_bit 12 a" by (simp add: take_bit_eq_mask mask_eq_exp_minus_1)
  then have "unat (a AND 0xFFF) = take_bit 12 (unat a)" by (simp only: unsigned_take_bit_eq)
  then show ?thesis by (simp add: take_bit_eq_mod)
qed

lemma page_shift_same: "unat (virtual_address s) mod 4096 = unat (physical_address s) mod 4096 \<Longrightarrow> page_shift s = 0"
proof -
  assume "unat (virtual_address s) mod 4096 = unat (physical_address s) mod 4096"
  then have "virtual_address s AND 0xFFF = physical_address s AND 0xFFF" by (simp only: word_unat_eq_iff page_offset_mask)
  then show "page_shift s = 0" by (simp add: page_shift_def)
qed

lemma above_round_down: "a - round_down a = a AND 0xFFF"
  by (simp add: word_unat_eq_iff page_offset_nat page_offset_mask)

lemma page_shift_split:
  "round_down (physical_address s) + (virtual_address s - round_down (virtual_address s)) = physical_address s + page_shift s"
  unfolding page_shift_def above_round_down [of "virtual_address s"] above_round_down [of "physical_address s", symmetric]
  by (simp add: algebra_simps)

lemma reached_at_mapped:
  assumes "mapped_to (paging_translate tables m (virtual_address s + of_nat j)) (virtual_address s + of_nat j) (v, p, n, f)"
    and "p + (virtual_address s - v) = physical_address s + page_shift s"
    and "f AND PAGE_WRITABLE \<noteq> 0 \<longleftrightarrow> segment_writable s" "f AND PAGE_NO_EXECUTE \<noteq> 0 \<longleftrightarrow> segment_not_executable nx s"
  shows "reached_at nx tables m s j"
proof -
  have off: "p + (virtual_address s + of_nat j - v) = physical_address s + page_shift s + of_nat j"
    using assms(2) by (simp add: algebra_simps)
  from assms(1) obtain g where
    g: "paging_translate tables m (virtual_address s + of_nat j) = Some (physical_address s + page_shift s + of_nat j, g)"
    "g AND NOT 0x80 = f OR 1"
    by (auto simp: mapped_to_def off split: option.splits)
  have "g AND PAGE_WRITABLE = f AND PAGE_WRITABLE" "g AND PAGE_NO_EXECUTE = f AND PAGE_NO_EXECUTE"
    by (rule flag_of_mapped [OF g(2)]; simp)+
  with g(1) assms(3,4) show ?thesis by (simp add: reached_at_def)
qed

lemma kernel_segment_run:
  assumes "arena_wf a" "unat (base a) + unat (capacity a) \<le> 2 ^ 52"
    and "image_wf img" "highest_address img \<le> 0x100000000"
    and "build_kernel_tables img nx gb a m = (Some tables, m')"
    and "s \<in> set (segments img)" "j < unat (memory_bytes s)"
  shows "reached_at nx tables m' s j"
proof -
  let ?x = "virtual_address s + of_nat j"
  have ne: "segments img \<noteq> []" using assms(6) by auto
  have wf: "segment_wf s" using assms(3,6) by (simp add: image_wf_def list_all_iff)
  have j: "j < 2 ^ 64" using assms(7) by (rule less_trans) simp
  then have x: "unat ?x = unat (virtual_address s) + j"
    using wf assms(7) by (subst unat_add_fits) (simp_all add: segment_wf_def unat_of_nat64)
  have mapped: "c \<in> set (kernel_mappings nx img) \<Longrightarrow> covers ?x c \<Longrightarrow> mapped_to (paging_translate tables m' ?x) ?x c" for c
    using build_kernel_tables_spec(2) [OF assms(1-3) ne assms(4,5)] by blast
  show ?thesis
  proof (cases "virtual_address s = physical_address s")
    case True
    have "covers ?x (0, 0, 0x100000000, 2)"
      using segment_mapping_nat(1) [OF assms(3,4,6)] assms(7) using x by (simp add: covers_def True)
    then have "mapped_to (paging_translate tables m' ?x) ?x (0, 0, 0x100000000, 2)"
      by (rule mapped [rotated]) (simp add: kernel_mappings_def Let_def)
    then show ?thesis
      by (rule reached_at_mapped) (simp_all add: True page_shift_def segment_writable_def segment_not_executable_def)
  next
    case False
    have "covers ?x (segment_mapping nx s)"
      unfolding covers_def segment_mapping_def prod.case segment_mapping_nat(2) [OF assms(3,4,6)] round_down_nat x
      using assms(7) page_span(1) [where v = "unat (virtual_address s)" and n = "unat (memory_bytes s)"]
        page_span(2) [where v = "unat (virtual_address s)"] by auto
    moreover have "segment_mapping nx s \<in> set (kernel_mappings nx img)"
      using assms(6) False by (simp add: kernel_mappings_def Let_def)
    ultimately have "mapped_to (paging_translate tables m' ?x) ?x (segment_mapping nx s)"
      by (rule mapped [rotated])
    then show ?thesis
      unfolding segment_mapping_def
      by (rule reached_at_mapped)
        (auto simp: page_shift_split False segment_writable_def segment_not_executable_def segment_flags_def)
  qed
qed

text \<open>
  C5. Every byte of every segment is reached at the address it is linked at, and there is the byte of the loaded
  segment, when its two addresses lie at the same offset in their pages (otherwise the byte that lies the difference of
  the offsets further). A segment linked elsewhere than it is loaded is writable exactly when its header asks for it,
  and not executable exactly when its header does not ask for that and the processor can refuse it. A segment linked
  where it is loaded is writable and executable, whatever its header says.
\<close>

theorem kernel_segments_protected:
  assumes "arena_wf a" "unat (base a) + unat (capacity a) \<le> 2 ^ 52"
    and "image_wf img" "highest_address img \<le> 0x100000000"
    and "build_kernel_tables img nx gb a m = (Some tables, m')"
  shows "list_all (segment_reached nx tables m') (segments img)"
  unfolding list_all_iff segment_reached_def using kernel_segment_run [OF assms] by blast

subsection \<open>A higher-half kernel of two pages\<close>

lemma load_stored: "8 dvd unat a \<Longrightarrow> 8 dvd unat b \<Longrightarrow> load64 (store64 m a v) b = (if a = b then v else load64 m b)"
  using load64_store64_same [of m a v] load64_store64_other [of a b m v] by simp

lemma load_page_zero:
  assumes "4096 dvd unat n" "8 dvd unat b"
  shows "load64 (memset n 0 4096 m) b = (if unat b div 4096 = unat n div 4096 then 0 else load64 m b)"
proof -
  define t i where "t = round_down b" and "i = unat b mod 4096 div 8"
  have t: "4096 dvd unat t" by (simp add: t_def round_down_nat)
  have i: "i < 512" by (simp add: i_def less_mult_imp_div_less)
  have "unat b mod 4096 = i * 8" using assms(2) by (simp add: i_def dvd_mod)
  then have "unat b = unat t + i * 8" using div_mult_mod_eq [of "unat b" 4096] by (simp add: t_def round_down_nat)
  then have b: "b = cell t i" by (intro unat_inj) (simp add: cell_nat [OF t i])
  have "t = n \<longleftrightarrow> unat b div 4096 = unat n div 4096"
    using assms(1) by (auto simp: t_def round_down_nat word_unat_eq_iff)
  then show ?thesis unfolding b load_zeroed_cell [OF assms(1) t i] by (simp flip: b)
qed

definition demo_text :: elf_segment where
  "demo_text = \<lparr>file_offset = 0x1000, virtual_address = 0xFFFFFFFFFFFFD000, physical_address = 0x1000,
     file_bytes = 0x1000, memory_bytes = 0x1000, seg_flags = 5\<rparr>"

definition demo_data :: elf_segment where
  "demo_data = \<lparr>file_offset = 0x2000, virtual_address = 0xFFFFFFFFFFFFE000, physical_address = 0x2000,
     file_bytes = 0x10, memory_bytes = 0x1000, seg_flags = 6\<rparr>"

definition demo_higher_half :: elf_image where
  "demo_higher_half = \<lparr>entry_address = 0xFFFFFFFFFFFFD000, segments = [demo_text, demo_data],
     lowest_address = 0x1000, highest_address = 0x3000\<rparr>"

lemma demo_higher_half_wf: "image_wf demo_higher_half"
proof -
  have "segment_wf demo_text" "segment_wf demo_data" "segments_apart demo_text demo_data"
    by (simp_all add: segment_wf_def segments_apart_def demo_text_def demo_data_def)
  then show ?thesis by (simp add: image_wf_def demo_higher_half_def) (simp add: demo_text_def demo_data_def)
qed

lemma demo_mappings: "kernel_mappings True demo_higher_half =
  [(0, 0, 0x100000000, 2), (0xFFFFFFFFFFFFC000, 0, 0x1000, 0x8000000000000002),
   (0xFFFFFFFFFFFFD000, 0x1000, 0x1000, 0), (0xFFFFFFFFFFFFE000, 0x2000, 0x1000, 0x8000000000000002)]"
  by (simp add: kernel_mappings_def direct_mappings_def segment_mapping_def segment_flags_def demo_higher_half_def
      demo_text_def demo_data_def round_down_def round_up_def Let_def)

abbreviation (input) demo_pages :: "u64 \<Rightarrow> page_tables" where
  "demo_pages n \<equiv> \<lparr>pt_arena = \<lparr>base = 0x100000, capacity = 0x10000, used = n\<rparr>, pt_root = 0x100000, pt_huge_pages = True\<rparr>"

definition demo_memory :: "nat \<Rightarrow> mem" where
  "demo_memory n = fold (\<lambda>step m. step m) (take n
     [memset 0x100000 0 4096, memset 0x101000 0 4096, (\<lambda>m. store64 m 0x100000 0x101007),
      (\<lambda>m. store64 m 0x101000 0x83), (\<lambda>m. store64 m 0x101008 0x40000083), (\<lambda>m. store64 m 0x101010 0x80000083), (\<lambda>m. store64 m 0x101018 0xC0000083),
      memset 0x102000 0 4096, (\<lambda>m. store64 m 0x100FF8 0x102007), memset 0x103000 0 4096, (\<lambda>m. store64 m 0x102FF8 0x103007),
      memset 0x104000 0 4096, (\<lambda>m. store64 m 0x103FF8 0x104007),
      (\<lambda>m. store64 m 0x104FE0 0x8000000000000003), (\<lambda>m. store64 m 0x104FE8 0x1001), (\<lambda>m. store64 m 0x104FF0 0x8000000000002003)]) (\<lambda>_. 0)"

lemmas demo_steps = map_pages.simps map_one_def level_for_def page_size_for_def descend_def allocate_table_def
  arena_allocate_aligned_def is_power_of_two_def checked_add_size_def table_entry_def index_at_def load_stored load_page_zero
  demo_memory_def Let_def

lemma levels_3: "descend_levels 3 t m table level v = descend_levels (Suc (Suc (Suc 0))) t m table level v"
  by (simp only: numeral_3_eq_3)

lemma load_fresh: "load64 (\<lambda>_. 0) a = 0"
  by (simp add: load64_zero)

lemma demo_identity:
  "paging_map (demo_pages 0x1000) (demo_memory 1) 0 0 0x100000000 2 = (True, demo_pages 0x2000, demo_memory 7)"
proof -
  have "map_pages (Suc (Suc (Suc (Suc n)))) (demo_pages 0x1000) (demo_memory 1) 0 0 0x100000000 2 =
      (True, demo_pages 0x2000, demo_memory 7)" for n
    by (simp add: demo_steps)
  from this [of 1048572] show ?thesis
    by (simp add: paging_map_def checked_add_u64_def paging_address_is_canonical_def)
qed

lemma demo_direct:
  "paging_map (demo_pages 0x2000) (demo_memory 7) 0xFFFFFFFFFFFFC000 0 0x1000 0x8000000000000002 =
    (True, demo_pages 0x5000, demo_memory 14)"
  by (simp add: paging_map_def checked_add_u64_def paging_address_is_canonical_def demo_steps load_fresh levels_3 mask_eq_exp_minus_1)

lemma demo_segments:
  "paging_map (demo_pages 0x5000) (demo_memory 14) 0xFFFFFFFFFFFFD000 0x1000 0x1000 0 = (True, demo_pages 0x5000, demo_memory 15)"
  "paging_map (demo_pages 0x5000) (demo_memory 15) 0xFFFFFFFFFFFFE000 0x2000 0x1000 0x8000000000000002 =
    (True, demo_pages 0x5000, demo_memory 16)"
  by (simp_all add: paging_map_def checked_add_u64_def paging_address_is_canonical_def demo_steps load_fresh levels_3 mask_eq_exp_minus_1)

lemma demo_build:
  "build_kernel_tables demo_higher_half True True \<lparr>base = 0x100000, capacity = 0x10000, used = 0\<rparr> (\<lambda>_. 0) =
    (Some (demo_pages 0x5000), demo_memory 16)"
proof -
  have "paging_create \<lparr>base = 0x100000, capacity = 0x10000, used = 0\<rparr> True (\<lambda>_. 0) = Some (demo_pages 0x1000, demo_memory 1)"
    by (simp add: paging_create_def demo_steps)
  then show ?thesis
    by (simp add: build_kernel_tables_all demo_mappings demo_identity demo_direct demo_segments del: One_nat_def)
qed

theorem build_kernel_tables_exact_witness:
  "mapped_to (paging_translate (demo_pages 0x5000) (demo_memory 16) 0xFFFFFFFFFFFFC123) 0xFFFFFFFFFFFFC123
     (0xFFFFFFFFFFFFC000, 0, 0x1000, 0x8000000000000002)"
proof -
  have "arena_wf \<lparr>base = 0x100000, capacity = 0x10000, used = 0\<rparr>" by (simp add: arena_wf_def)
  from build_kernel_tables_exact [OF this _ demo_higher_half_wf _ _ demo_build, of "0xFFFFFFFFFFFFC123"] show ?thesis
    by (simp add: demo_mappings covers_def) (simp add: demo_higher_half_def)
qed

theorem kernel_segments_protected_witness:
  "list_all (segment_reached True (demo_pages 0x5000) (demo_memory 16)) [demo_text, demo_data] \<and>
   page_shift demo_text = 0 \<and> \<not> segment_writable demo_text \<and> segment_writable demo_data \<and>
   \<not> segment_not_executable True demo_text \<and> segment_not_executable True demo_data"
proof -
  have "arena_wf \<lparr>base = 0x100000, capacity = 0x10000, used = 0\<rparr>" by (simp add: arena_wf_def)
  from kernel_segments_protected [OF this _ demo_higher_half_wf _ demo_build]
  have "list_all (segment_reached True (demo_pages 0x5000) (demo_memory 16)) [demo_text, demo_data]"
    by (simp add: demo_higher_half_def)
  then show ?thesis
    by (simp add: page_shift_def segment_writable_def segment_not_executable_def demo_text_def demo_data_def)
qed

text \<open>A segment whose two addresses lie at different offsets in their pages is mapped to other bytes than its own.\<close>

lemma misaligned_segment_shifted:
  assumes "virtual_address s = 0xFFFFFFFF80000100" "physical_address s = 0x200800" "memory_bytes s = 0x100"
  shows "fst (snd (segment_mapping nx s)) + (virtual_address s - fst (segment_mapping nx s)) = 0x200100"
  by (simp add: segment_mapping_def round_down_def assms)

text \<open>
  The part of the direct map below the kernel is not limited to what fits above its base: a kernel linked below the
  address it is loaded at is refused, as the range ends beyond the address space.
\<close>

lemma kernel_linked_below_refused:
  assumes "segments img = s # rest" "lowest_address img = physical_address s" "virtual_address s < physical_address s"
    and "unat (physical_address s) mod 4096 = 0"
  shows "fst (build_kernel_tables img nx gb a m) = None"
proof -
  let ?v = "virtual_address s" and ?p = "physical_address s"
  have low: "?p AND NOT 0xFFF = ?p"
    using round_down_nat [of ?p] assms(4) div_mult_mod_eq [of "unat ?p" 4096] by (simp add: round_down_def word_unat_eq_iff)
  have base: "?v - ?p \<noteq> 0" "0 < ?p" using assms(3) by (auto simp: word_gt_0 not_less)
  have "checked_add_u64 (?v - ?p) ?p = None"
    using assms(3) unat_sub_if' [of ?v ?p] by (simp add: checked_add_u64_None word_less_nat_alt)
  then have refused: "paging_map t k (?v - ?p) 0 ?p f = (False, t, k)" for t k f
    unfolding paging_map_def by (simp only: option.case if_cancel)
  have direct: "map_direct nx img (?v - ?p) t k = (False, t, k)" for t k
    unfolding map_direct_def Let_def assms(2) add_sub_1 literals low using base(2) by (simp only: refused if_True prod.case bool.case)
  show ?thesis
    unfolding build_kernel_tables_def assms(1) list.sel Let_def
    by (simp only: base(1) if_True not_False_eq_True direct prod.case bool.case)
      (simp split: option.split prod.split bool.split)
qed

end
