(* ===== verification/Boot_Files.thy ===== *)
theory Boot_Files
  imports Fat Elf Partition Config Boot_Memory Boot_Tables Protocol
begin

text \<open>
  What \<open>src/boot/main.c\<close> reads from the disk: the volume, the configuration, the modules and the kernel. The file
  system, the arena, the memory and the modules loaded so far are the state; what uninitialised buffers on the stack
  hold and where the static objects lie are parameters. A read of the kernel starts from the state the file was opened
  in: the cached sector a read leaves behind does not show, as the properties of \<open>Fat\<close> say.
\<close>

abbreviation (input) CONFIG_PATH :: "u8 list" where "CONFIG_PATH \<equiv> lit ''/tunix.cfg'' @ [0]"
abbreviation (input) CONFIG_BUFFER_BYTES :: u32 where "CONFIG_BUFFER_BYTES \<equiv> 4096"
abbreviation (input) KERNEL_PATH_BYTES :: nat where "KERNEL_PATH_BYTES \<equiv> 256"
abbreviation (input) COMMAND_LINE_BYTES :: nat where "COMMAND_LINE_BYTES \<equiv> 512"
abbreviation (input) MODULE_PATH_BYTES :: nat where "MODULE_PATH_BYTES \<equiv> 128"

text \<open>What the buffers of one call hold before they are written.\<close>

record stack_garbage =
  sector_garbage :: "u8 list"
  walk_garbage :: fat_walk
  name_garbage :: "nat \<Rightarrow> long_name"

text \<open>The addresses of the static buffers whose contents the kernel is told of.\<close>

record static_places =
  command_line_at :: u64
  module_paths_at :: u64

definition module_path_at :: "static_places \<Rightarrow> nat \<Rightarrow> u64" where
  "module_path_at places index = module_paths_at places + of_nat (index * MODULE_PATH_BYTES)"

record loader =
  boot_volume :: fat_volume
  loader_arena :: arena
  memory_bytes_of :: mem
  loaded_modules :: "boot_module list"

subsection \<open>The volume\<close>

fun first_volume :: "block_device \<Rightarrow> stack_garbage \<Rightarrow> partition list \<Rightarrow> fat_volume option" where
  "first_volume boot_disk g [] = None"
| "first_volume boot_disk g (entry # rest) =
     (case partition_open boot_disk entry of
        None \<Rightarrow> first_volume boot_disk g rest
      | Some boot_partition \<Rightarrow>
          (case fat_mount boot_partition (sector_garbage g) (replicate 512 0) of
             None \<Rightarrow> first_volume boot_disk g rest
           | Some volume \<Rightarrow> Some volume))"

definition mount_boot_filesystem :: "block_device \<Rightarrow> stack_garbage \<Rightarrow> fat_volume option" where
  "mount_boot_filesystem boot_disk g =
     (case partition_table_read boot_disk (sector_garbage g) of
        (False, _) \<Rightarrow> None
      | (True, partitions) \<Rightarrow> first_volume boot_disk g (entries partitions))"

subsection \<open>Whole files\<close>

text \<open>\<open>fat_open\<close> and what follows it, when the file is there.\<close>

definition open_file :: "stack_garbage \<Rightarrow> u8 list \<Rightarrow> fat_volume \<Rightarrow> (fat_file \<times> fat_volume) option" where
  "open_file g path volume =
     (case fat_open volume path (walk_garbage g) (name_garbage g) of
        (None, _) \<Rightarrow> None
      | (Some f, volume) \<Rightarrow> Some (f, volume))"

definition read_whole :: "fat_volume \<Rightarrow> fat_file \<Rightarrow> (u8 list \<times> fat_volume) option" where
  "read_whole volume f =
     (case fat_read volume f 0 (ucast (file_size f)) of
        (None, _) \<Rightarrow> None
      | (Some bytes, volume, _) \<Rightarrow> Some (bytes, volume))"

definition load_module :: "stack_garbage \<Rightarrow> static_places \<Rightarrow> nat \<Rightarrow> str \<Rightarrow> loader \<Rightarrow> loader option" where
  "load_module g places index tx l =
     do { path \<leftarrow> str_copy_cstr tx MODULE_PATH_BYTES;
          let m = store_bytes (memory_bytes_of l) (module_path_at places index) path;
          (f, volume) \<leftarrow> open_file g path (boot_volume l);
          ensure (\<not> file_size f = 0);
          (at, a) \<leftarrow> arena_allocate_aligned (loader_arena l) (ucast (file_size f)) PAGE_BYTES;
          (bytes, volume) \<leftarrow> read_whole volume f;
          Some \<lparr>boot_volume = volume, loader_arena = a, memory_bytes_of = store_bytes m at bytes,
                loaded_modules = loaded_modules l @
                  [\<lparr>module_base = at, module_bytes = ucast (file_size f), module_path = module_path_at places index\<rparr>]\<rparr> }"

fun load_modules :: "(nat \<Rightarrow> stack_garbage) \<Rightarrow> static_places \<Rightarrow> nat \<Rightarrow> str list \<Rightarrow> loader \<Rightarrow> loader option" where
  "load_modules g places index [] l = Some l"
| "load_modules g places index (tx # rest) l =
     do { l \<leftarrow> load_module (g index) places index tx l;
          load_modules g places (Suc index) rest l }"

text \<open>The configuration, up to the strings of the entry that is booted; then its modules. The answer has the path of the
  kernel.\<close>

definition read_configuration ::
  "stack_garbage \<Rightarrow> (nat \<Rightarrow> stack_garbage) \<Rightarrow> static_places \<Rightarrow> loader \<Rightarrow> (u8 list \<times> loader) option" where
  "read_configuration g module_garbage places l =
     do { (f, volume) \<leftarrow> open_file g CONFIG_PATH (boot_volume l);
          ensure (\<not> (file_size f = 0 \<or> file_size f > CONFIG_BUFFER_BYTES));
          (config_text, volume) \<leftarrow> read_whole volume f;
          config \<leftarrow> (case config_parse config_text of Inl err \<Rightarrow> None | Inr config \<Rightarrow> Some config);
          index \<leftarrow> config_default_entry config;
          let entry = config_entries config ! index;
          kernel_path \<leftarrow> str_copy_cstr (kernel entry) KERNEL_PATH_BYTES;
          command_line \<leftarrow> str_copy_cstr (cmdline entry) COMMAND_LINE_BYTES;
          l \<leftarrow> load_modules module_garbage places 0 (modules entry)
                 (l\<lparr>boot_volume := volume,
                    memory_bytes_of := store_bytes (memory_bytes_of l) (command_line_at places) command_line\<rparr>);
          Some (kernel_path, l) }"

subsection \<open>The kernel\<close>

definition kernel_read :: "fat_volume \<times> fat_file \<Rightarrow> elf_read" where
  "kernel_read = source_read (\<lambda>(volume, f) off n. fst (fat_read volume f off n))"

definition load_kernel :: "stack_garbage \<Rightarrow> memory_map \<Rightarrow> u8 list \<Rightarrow> loader \<Rightarrow> (u64 \<times> elf_image \<times> loader) option" where
  "load_kernel g memory kernel_path l =
     do { (kernel_file, volume) \<leftarrow> open_file g kernel_path (boot_volume l);
          kernel_image \<leftarrow> elf_parse (kernel_read (volume, kernel_file));
          ensure (kernel_in_usable_memory memory kernel_image);
          m \<leftarrow> (case elf_load (kernel_read (volume, kernel_file)) kernel_image kernel_placement (memory_bytes_of l) of
                  (False, _) \<Rightarrow> None | (True, m) \<Rightarrow> Some m);
          let entry = elf_entry_point kernel_image kernel_placement;
          ensure (\<not> entry = 0);
          Some (entry, kernel_image, l\<lparr>boot_volume := volume, memory_bytes_of := m\<rparr>) }"

subsection \<open>What an opened file is\<close>

lemma open_from_facts:
  "open_from v path stale i cur = (Some f, w) \<Longrightarrow> fat_volume_ok disk v \<Longrightarrow> \<not> walk_valid (fat_file.walk cur) \<Longrightarrow>
   same_volume v w \<and> fat_volume_ok disk w \<and> \<not> walk_valid (fat_file.walk f)"
proof (induction v path stale i cur rule: open_from.induct)
  case (1 v path stale i cur)
  show ?case
  proof (cases "path_at path i = 0")
    case True
    with 1(2-4) show ?thesis by (auto simp: open_from.simps)
  next
    case False
    define j where "j = component_end path i"
    obtain r u where find: "find_in_directory v (first_cluster cur) (take (j - i) (drop i path)) (fat_file.walk cur) (stale i) = (r, u)"
      by (cases "find_in_directory v (first_cluster cur) (take (j - i) (drop i path)) (fat_file.walk cur) (stale i)")
    have run: "open_from v path stale i cur =
        (if i \<ge> FAT_MAX_PATH_BYTES then (None, v) else if \<not> directory cur then (None, v)
         else if j - i = 0 \<or> j - i > FAT_MAX_NAME_BYTES then (None, v)
         else case r of None \<Rightarrow> (None, u) | Some cur \<Rightarrow> open_from u path stale (skip_separators path j) cur)"
      using False find by (subst open_from.simps) (simp add: Let_def flip: j_def split: option.split)
    then obtain g where r: "r = Some g" and rest: "open_from u path stale (skip_separators path j) g = (Some f, w)"
      and c: "\<not> FAT_MAX_PATH_BYTES \<le> i" "directory cur" "\<not> (j - i = 0 \<or> j - i > FAT_MAX_NAME_BYTES)"
      using 1(2) by (auto split: if_splits option.splits)
    have s: "same_volume v u" "fat_volume_ok disk u" "\<not> walk_valid (fat_file.walk g)"
      using find_in_directory_sound [OF 1(3) find [unfolded r]] by (auto simp: entry_file_def Let_def)
    have "same_volume u w \<and> fat_volume_ok disk w \<and> \<not> walk_valid (fat_file.walk f)"
      using False c s by (intro 1(1) [OF _ _ _ refl j_def refl _ find [unfolded r, symmetric] refl rest]) simp_all
    with s(1) show ?thesis by (blast intro: same_volume_trans)
  qed
qed

lemma open_file_facts:
  assumes "open_file g path v = Some (f, w)" "fat_volume_ok disk v"
  shows "same_volume v w" "fat_volume_ok disk w" "walk_ok disk w (first_cluster f) (fat_file.walk f)"
proof -
  have "open_from v path (name_garbage g) (skip_separators path 0)
      \<lparr>first_cluster = root_cluster v, file_size = 0, directory = True, walk = (walk_garbage g)\<lparr>walk_valid := False\<rparr>\<rparr> = (Some f, w)"
    using assms(1) by (auto simp: open_file_def fat_open_def split: prod.splits option.splits)
  from open_from_facts [OF this assms(2)]
  show "same_volume v w" "fat_volume_ok disk w" "walk_ok disk w (first_cluster f) (fat_file.walk f)"
    by (simp_all add: walk_ok_def)
qed

lemma read_whole_facts:
  assumes "read_whole v f = Some (bytes, w)" "fat_volume_ok disk v" "walk_ok disk v (first_cluster f) (fat_file.walk f)"
  shows "same_volume v w" "fat_volume_ok disk w"
    "bytes = image_bytes (fat_content disk v f) 0 (unat (file_size f))"
proof -
  obtain g where run: "fat_read v f 0 (ucast (file_size f)) = (Some bytes, w, g)"
    using assms(1) by (auto simp: read_whole_def split: prod.splits option.splits)
  from fat_read_facts [OF run assms(2,3)]
  show "same_volume v w" "fat_volume_ok disk w" "bytes = image_bytes (fat_content disk v f) 0 (unat (file_size f))"
    by simp_all
qed

lemma kernel_read_file:
  assumes "fat_volume_ok disk v" "walk_ok disk v (first_cluster f) (fat_file.walk f)"
  shows "reads_file (kernel_read (v, f)) (fat_content disk v f)"
  unfolding reads_file_def kernel_read_def source_read_def
proof (intro allI impI)
  fix off n ok bytes
  obtain r w g where run: "fat_read v f off n = (r, w, g)" by (metis prod_cases3)
  have content: "bs = image_bytes (fat_content disk v f) (unat off) (unat n)" if "r = Some bs" for bs
    using fat_read_facts [OF run assms, THEN conjunct2, THEN conjunct2, THEN conjunct2, THEN conjunct2, THEN conjunct1] that
    by simp
  assume "(case (case (v, f) of (volume, f) \<Rightarrow> \<lambda>off n. fst (fat_read volume f off n)) off n of
     None \<Rightarrow> (False, []) | Some bytes \<Rightarrow> (True, bytes)) = (ok, bytes)"
  then have "r = None \<and> \<not> ok \<and> bytes = [] \<or> r = Some bytes \<and> ok" by (auto simp: run split: option.splits)
  then show "length bytes \<le> unat n \<and> (ok \<longrightarrow> bytes = image_bytes (fat_content disk v f) (unat off) (unat n))"
    by (elim disjE conjE) (simp, drule content, simp)
qed

subsection \<open>Modules\<close>

text \<open>
  A module in memory: its bytes are those of the file its path opens on the volume, in whatever state the cache of the
  volume was, and its path is there as a terminated string.
\<close>

definition holds_file :: "(nat \<Rightarrow> u8) \<Rightarrow> fat_volume \<Rightarrow> str \<Rightarrow> mem \<Rightarrow> boot_module \<Rightarrow> bool" where
  "holds_file disk v tx m b \<longleftrightarrow>
     (\<exists>g u w f. same_volume v u \<and> open_file g (tx @ [0]) u = Some (f, w) \<and>
        module_bytes b = ucast (file_size f) \<and> file_size f \<noteq> 0 \<and>
        load_bytes m (module_base b) (unat (module_bytes b)) = image_bytes (fat_content disk v f) 0 (unat (file_size f))) \<and>
     load_bytes m (module_path b) (Suc (length tx)) = tx @ [0] \<and> length tx < MODULE_PATH_BYTES"

definition module_span :: "boot_module \<Rightarrow> nat set" where
  "module_span b = span (module_base b) (module_bytes b)"

text \<open>The static buffers of the paths from \<open>i\<close> to before \<open>j\<close>.\<close>

definition path_spans :: "static_places \<Rightarrow> nat \<Rightarrow> nat \<Rightarrow> nat set" where
  "path_spans places i j =
     {unat (module_paths_at places) + i * MODULE_PATH_BYTES..<unat (module_paths_at places) + j * MODULE_PATH_BYTES}"

definition arena_range :: "arena \<Rightarrow> nat set" where
  "arena_range a = {unat (base a)..<unat (base a) + unat (capacity a)}"

text \<open>The path buffers lie outside the arena and do not wrap.\<close>

definition places_ok :: "static_places \<Rightarrow> arena \<Rightarrow> nat \<Rightarrow> bool" where
  "places_ok places a n \<longleftrightarrow>
     unat (module_paths_at places) + n * MODULE_PATH_BYTES \<le> 2 ^ 64 \<and> path_spans places 0 n \<inter> arena_range a = {}"

lemma path_at_nat:
  assumes "places_ok places a n" "i < n"
  shows "unat (module_path_at places i) = unat (module_paths_at places) + i * 128"
proof -
  have "i * 128 + 128 \<le> n * 128" using assms(2) by simp
  then have "unat (module_paths_at places) + i * 128 + 128 \<le> 2 ^ 64" using assms(1) by (simp add: places_ok_def)
  moreover from this have "unat (of_nat (i * 128) :: u64) = i * 128" by (intro unat_of_nat64) simp
  ultimately show ?thesis unfolding module_path_at_def by (subst unat_add_fits) (simp_all del: of_nat_mult)
qed

lemma load_module_facts:
  assumes "load_module g places i tx l = Some l'" and disk: "fat_volume_ok disk (boot_volume l)"
    and wf: "arena_wf (loader_arena l)" and places: "places_ok places (loader_arena l) n" "i < n"
  obtains b where "loaded_modules l' = loaded_modules l @ [b]"
    "same_volume (boot_volume l) (boot_volume l')" "fat_volume_ok disk (boot_volume l')"
    "arena_wf (loader_arena l')" "arena_range (loader_arena l') = arena_range (loader_arena l)"
    "module_span b \<subseteq> arena_free (loader_arena l)"
    "arena_free (loader_arena l') \<subseteq> arena_free (loader_arena l) - module_span b"
    "4096 dvd unat (module_base b)" "holds_file disk (boot_volume l) tx (memory_bytes_of l') b"
    "module_path b = module_path_at places i"
    "\<And>x. unat x \<notin> module_span b \<Longrightarrow> unat x \<notin> path_spans places i (Suc i) \<Longrightarrow> memory_bytes_of l' x = memory_bytes_of l x"
proof -
  let ?m = "memory_bytes_of l" and ?p = "module_path_at places i"
  from assms(1) obtain path f v at a bytes w where
    path: "str_copy_cstr tx 128 = Some path" and op: "open_file g path (boot_volume l) = Some (f, v)"
    and ne: "file_size f \<noteq> 0" and al: "arena_allocate_aligned (loader_arena l) (ucast (file_size f)) 4096 = Some (at, a)"
    and rd: "read_whole v f = Some (bytes, w)"
    and l': "l' = \<lparr>boot_volume = w, loader_arena = a, memory_bytes_of = store_bytes (store_bytes ?m ?p path) at bytes,
                loaded_modules = loaded_modules l @ [\<lparr>module_base = at, module_bytes = ucast (file_size f), module_path = ?p\<rparr>]\<rparr>"
    by (auto simp: load_module_def opt_bind Let_def)
  have tx: "path = tx @ [0]" "length tx < 128" using path by (auto simp: str_copy_cstr_def split: if_splits)
  note O = open_file_facts [OF op disk]
  note R = read_whole_facts [OF rd O(2,3)]
  note A = arena_allocate_aligned_Some [OF wf al]
  define b where "b = \<lparr>module_base = at, module_bytes = ucast (file_size f), module_path = ?p\<rparr>"
  have span: "module_span b = span at (ucast (file_size f))" by (simp add: module_span_def b_def)
  have content: "fat_content disk v f = fat_content disk (boot_volume l) f"
    by (rule fat_content_same [OF O(1), where x = "fat_file.walk f"]) simp
  have len: "length bytes = unat (file_size f)" using R(3) by simp
  have top: "unat at + unat (file_size f) \<le> 2 ^ 64"
    using arena.block_end [OF wf al] by simp
  have in_at: "in_range at (length bytes) x \<longleftrightarrow> unat x \<in> module_span b" for x
    using in_range_nat [of at "unat (file_size f)" x] top by (simp add: len span span_def)
  note pn = path_at_nat [OF places]
  have ptop: "unat ?p + 128 \<le> 2 ^ 64"
    using places unfolding pn places_ok_def by auto
  have in_p: "in_range ?p k x \<longleftrightarrow> unat (module_paths_at places) + i * 128 \<le> unat x \<and> unat x < unat (module_paths_at places) + i * 128 + k"
    if "k \<le> 128" for k x
    using in_range_nat [of ?p k x] ptop that unfolding pn by simp
  have apart: "path_spans places i (Suc i) \<inter> module_span b = {}"
  proof -
    have "path_spans places i (Suc i) \<subseteq> path_spans places 0 n" using places(2) by (auto simp: path_spans_def)
    moreover have "module_span b \<subseteq> arena_range (loader_arena l)"
      using A(5) unfolding span by (auto simp: arena_free_def arena_range_def)
    ultimately show ?thesis using places(1) unfolding places_ok_def by blast
  qed
  have in_path: "unat x \<in> path_spans places i (Suc i)" if "in_range ?p (length path) x" for x
    using that tx in_p [of "length path" x] by (simp add: path_spans_def)
  show thesis
  proof (rule that [of b])
    have "load_bytes (memory_bytes_of l') at (length bytes) = bytes"
    proof -
      have "length bytes \<le> 2 ^ 64" using top len by simp
      then show ?thesis unfolding l' by (simp only: loader.simps load_store_bytes)
    qed
    moreover have "load_bytes (memory_bytes_of l') ?p (length path) = load_bytes (store_bytes ?m ?p path) ?p (length path)"
    proof (rule load_bytes_cong)
      fix x assume "in_range ?p (length path) x"
      then have "\<not> in_range at (length bytes) x" using in_path apart unfolding in_at by blast
      then show "memory_bytes_of l' x = store_bytes ?m ?p path x" by (simp add: l' store_bytes_outside)
    qed (use tx in simp)
    moreover have "load_bytes (store_bytes ?m ?p path) ?p (length path) = path"
      using tx by (intro load_store_bytes) simp
    ultimately show "holds_file disk (boot_volume l) tx (memory_bytes_of l') b"
      unfolding holds_file_def using op tx ne len R(3)
      by (intro conjI exI [of _ g] exI [of _ "boot_volume l"] exI [of _ v] exI [of _ f]) (simp_all add: b_def content)
    fix x :: u64 assume "unat x \<notin> module_span b" "unat x \<notin> path_spans places i (Suc i)"
    then show "memory_bytes_of l' x = ?m x"
      using in_path [of x] in_at [of x] by (auto simp: l' store_bytes_def)
  next
    show "same_volume (boot_volume l) (boot_volume l')" using O(1) R(1) by (simp add: l' same_volume_trans)
  next
    show "4096 dvd unat (module_base b)" using A(7) by (simp add: b_def)
  next
    show "arena_range (loader_arena l') = arena_range (loader_arena l)" using A by (simp add: l' arena_range_def)
  next
    show "module_span b \<subseteq> arena_free (loader_arena l)"
      "arena_free (loader_arena l') \<subseteq> arena_free (loader_arena l) - module_span b"
      using A(5,6) by (simp_all add: l' span)
  qed (use R A in \<open>simp_all add: l' b_def\<close>)
qed

lemma holds_file_frame:
  assumes "holds_file disk v tx m b" "unat (module_base b) + unat (module_bytes b) \<le> 2 ^ 64"
    and "\<And>x. unat x \<in> module_span b \<Longrightarrow> m' x = m x"
    and "unat (module_path b) + 128 \<le> 2 ^ 64"
    and "\<And>x. unat (module_path b) \<le> unat x \<Longrightarrow> unat x < unat (module_path b) + 128 \<Longrightarrow> m' x = m x"
  shows "holds_file disk v tx m' b"
proof -
  have tx: "length tx < 128" using assms(1) by (simp add: holds_file_def)
  have "load_bytes m' (module_base b) (unat (module_bytes b)) = load_bytes m (module_base b) (unat (module_bytes b))"
    using assms(2,3) by (intro load_bytes_cong) (auto simp: in_range_nat module_span_def span_def)
  moreover have "load_bytes m' (module_path b) (Suc (length tx)) = load_bytes m (module_path b) (Suc (length tx))"
  proof (rule load_bytes_cong)
    fix x assume "in_range (module_path b) (Suc (length tx)) x"
    then have "unat (module_path b) \<le> unat x" "unat x < unat (module_path b) + 128"
      using tx assms(4) in_range_nat [of "module_path b" "Suc (length tx)" x] by auto
    then show "m' x = m x" by (rule assms(5))
  qed (use tx in simp)
  ultimately show ?thesis using assms(1) unfolding holds_file_def by (simp del: split_paired_Ex)
qed

text \<open>What the loaded modules are, in the order of the configuration.\<close>

definition modules_held :: "(nat \<Rightarrow> u8) \<Rightarrow> fat_volume \<Rightarrow> nat set \<Rightarrow> str list \<Rightarrow> mem \<Rightarrow> boot_module list \<Rightarrow> bool" where
  "modules_held disk v area txs m bs \<longleftrightarrow>
     list_all2 (\<lambda>tx b. holds_file disk v tx m b) txs bs \<and>
     list_all (\<lambda>b. 4096 dvd unat (module_base b) \<and> module_span b \<subseteq> area) bs \<and>
     sorted_wrt (\<lambda>b c. module_span b \<inter> module_span c = {}) bs"

lemma holds_file_same: "same_volume u v \<Longrightarrow> holds_file disk v tx m b \<Longrightarrow> holds_file disk u tx m b"
proof -
  assume same: "same_volume u v"
  have "fat_content disk v f = fat_content disk u f" for f
    by (rule fat_content_same [OF same, where x = "fat_file.walk f"]) simp
  then show "holds_file disk v tx m b \<Longrightarrow> holds_file disk u tx m b"
    unfolding holds_file_def using same_volume_trans [OF same] by metis
qed

lemma load_modules_facts:
  "load_modules g places i txs l = Some l' \<Longrightarrow> fat_volume_ok disk (boot_volume l) \<Longrightarrow> arena_wf (loader_arena l) \<Longrightarrow>
   places_ok places (loader_arena l) (i + length txs) \<Longrightarrow>
   \<exists>bs. loaded_modules l' = loaded_modules l @ bs \<and>
     modules_held disk (boot_volume l) (arena_free (loader_arena l)) txs (memory_bytes_of l') bs \<and>
     same_volume (boot_volume l) (boot_volume l') \<and> fat_volume_ok disk (boot_volume l') \<and>
     arena_wf (loader_arena l') \<and> arena_range (loader_arena l') = arena_range (loader_arena l) \<and>
     arena_free (loader_arena l') \<subseteq> arena_free (loader_arena l) \<and> (\<forall>b \<in> set bs. module_span b \<inter> arena_free (loader_arena l') = {}) \<and>
     (\<forall>x. unat x \<notin> arena_free (loader_arena l) \<and> unat x \<notin> path_spans places i (i + length txs) \<longrightarrow>
        memory_bytes_of l' x = memory_bytes_of l x)"
proof (induction txs arbitrary: i l)
  case Nil
  then show ?case by (simp add: modules_held_def)
next
  case (Cons tx txs)
  from Cons.prems(1) obtain l1 where one: "load_module (g i) places i tx l = Some l1"
    and rest: "load_modules g places (Suc i) txs l1 = Some l'"
    by (auto simp: opt_bind)
  obtain b where b: "loaded_modules l1 = loaded_modules l @ [b]"
    "same_volume (boot_volume l) (boot_volume l1)" "fat_volume_ok disk (boot_volume l1)"
    "arena_wf (loader_arena l1)" "arena_range (loader_arena l1) = arena_range (loader_arena l)"
    "module_span b \<subseteq> arena_free (loader_arena l)"
    "arena_free (loader_arena l1) \<subseteq> arena_free (loader_arena l) - module_span b"
    "4096 dvd unat (module_base b)" "holds_file disk (boot_volume l) tx (memory_bytes_of l1) b"
    "module_path b = module_path_at places i"
    "\<And>x. unat x \<notin> module_span b \<Longrightarrow> unat x \<notin> path_spans places i (Suc i) \<Longrightarrow> memory_bytes_of l1 x = memory_bytes_of l x"
    by (rule load_module_facts [OF one Cons.prems(2,3,4)]) auto
  have places: "places_ok places (loader_arena l1) (Suc i + length txs)"
    using Cons.prems(4) b(5) by (simp add: places_ok_def)
  from Cons.IH [OF rest b(3,4) places] obtain bs where IH:
    "loaded_modules l' = loaded_modules l1 @ bs"
    "modules_held disk (boot_volume l1) (arena_free (loader_arena l1)) txs (memory_bytes_of l') bs"
    "same_volume (boot_volume l1) (boot_volume l')" "fat_volume_ok disk (boot_volume l')" "arena_wf (loader_arena l')"
    "arena_range (loader_arena l') = arena_range (loader_arena l1)"
    "arena_free (loader_arena l') \<subseteq> arena_free (loader_arena l1)" "\<forall>b \<in> set bs. module_span b \<inter> arena_free (loader_arena l') = {}"
    "\<forall>x. unat x \<notin> arena_free (loader_arena l1) \<and> unat x \<notin> path_spans places (Suc i) (Suc i + length txs) \<longrightarrow>
        memory_bytes_of l' x = memory_bytes_of l1 x" by blast
  have free_range: "arena_free (loader_arena l) \<subseteq> arena_range (loader_arena l)" by (auto simp: arena_free_def arena_range_def)
  have sub: "path_spans places i (Suc i) \<subseteq> path_spans places 0 (i + length (tx # txs))"
    "path_spans places (Suc i) (Suc i + length txs) \<subseteq> path_spans places i (i + length (tx # txs))"
    "path_spans places i (Suc i) \<subseteq> path_spans places i (i + length (tx # txs))"
    "path_spans places (Suc i) (Suc i + length txs) \<subseteq> path_spans places 0 (i + length (tx # txs))"
    "path_spans places i (Suc i) \<inter> path_spans places (Suc i) (Suc i + length txs) = {}"
    by (auto simp: path_spans_def)
  have apart: "path_spans places 0 (i + length (tx # txs)) \<inter> arena_free (loader_arena l) = {}"
    using Cons.prems(4) free_range unfolding places_ok_def by blast
  have pn: "unat (module_path b) = unat (module_paths_at places) + i * 128"
    unfolding b(10) by (rule path_at_nat [OF Cons.prems(4)]) simp
  have path_here: "unat x \<in> path_spans places i (Suc i)"
    if "unat (module_path b) \<le> unat x" "unat x < unat (module_path b) + 128" for x :: u64
    using that unfolding pn by (simp add: path_spans_def)
  have "holds_file disk (boot_volume l) tx (memory_bytes_of l') b"
  proof (rule holds_file_frame [OF b(9)])
    have "module_span b \<subseteq> arena_range (loader_arena l)" using b(6) free_range by blast
    moreover have "unat (base (loader_arena l)) + unat (capacity (loader_arena l)) \<le> 2 ^ 64"
      using Cons.prems(3) by (simp add: arena_wf_def)
    ultimately show "unat (module_base b) + unat (module_bytes b) \<le> 2 ^ 64"
      using less_imp_le [OF unat_lt64 [of "module_base b"]]
      by (cases "unat (module_bytes b) = 0") (auto simp: module_span_def span_def arena_range_def)
    show "memory_bytes_of l' x = memory_bytes_of l1 x" if "unat x \<in> module_span b" for x
      using that IH(9) b(6,7) apart sub(4) by blast
    show "unat (module_path b) + 128 \<le> 2 ^ 64" using Cons.prems(4) unfolding pn by (simp add: places_ok_def)
    show "memory_bytes_of l' x = memory_bytes_of l1 x"
      if "unat (module_path b) \<le> unat x" "unat x < unat (module_path b) + 128" for x
      using path_here [OF that] IH(9) b(7) apart sub(1,5) by blast
  qed
  moreover have "list_all2 (\<lambda>tx b. holds_file disk (boot_volume l) tx (memory_bytes_of l') b) txs bs"
    using IH(2) holds_file_same [OF b(2)] unfolding modules_held_def by (auto elim!: list_all2_mono)
  moreover have "list_all (\<lambda>b. 4096 dvd unat (module_base b) \<and> module_span b \<subseteq> arena_free (loader_arena l)) bs"
    "\<forall>c \<in> set bs. module_span b \<inter> module_span c = {}"
    using IH(2) b(7) unfolding modules_held_def list_all_iff by blast+
  ultimately have "modules_held disk (boot_volume l) (arena_free (loader_arena l)) (tx # txs) (memory_bytes_of l') (b # bs)"
    using b(6,8) IH(2) unfolding modules_held_def by simp
  moreover have "memory_bytes_of l' x = memory_bytes_of l x"
    if "unat x \<notin> arena_free (loader_arena l)" "unat x \<notin> path_spans places i (i + length (tx # txs))" for x
    using that IH(9) b(6,7,11) sub by (metis (no_types, lifting) DiffD1 subsetD)
  moreover have "module_span b \<inter> arena_free (loader_arena l') = {}" using IH(7) b(7) by blast
  ultimately show ?case
    using IH b same_volume_trans [OF b(2) IH(3)] by (intro exI [of _ "b # bs"]) auto
qed

text \<open>
  C7. The modules of the configuration are loaded whole: each lies on a page boundary in what was free of the arena, no
  two overlap, its bytes are those of its file and its path is beside it as a string, also after all the others have been
  loaded; and apart from the arena and the path buffers no byte of memory has changed.
\<close>

theorem load_modules_exact:
  assumes "load_modules g places 0 txs l = Some l'" "fat_volume_ok disk (boot_volume l)" "arena_wf (loader_arena l)"
    "places_ok places (loader_arena l) (length txs)"
  shows "\<exists>bs. loaded_modules l' = loaded_modules l @ bs \<and>
     modules_held disk (boot_volume l) (arena_free (loader_arena l) - arena_free (loader_arena l')) txs (memory_bytes_of l') bs \<and>
     fat_volume_ok disk (boot_volume l') \<and> arena_wf (loader_arena l') \<and>
     (\<forall>x. unat x \<notin> arena_free (loader_arena l) \<and> unat x \<notin> path_spans places 0 (length txs) \<longrightarrow>
        memory_bytes_of l' x = memory_bytes_of l x)"
proof -
  obtain bs where bs: "loaded_modules l' = loaded_modules l @ bs"
    "modules_held disk (boot_volume l) (arena_free (loader_arena l)) txs (memory_bytes_of l') bs"
    "fat_volume_ok disk (boot_volume l')" "arena_wf (loader_arena l')"
    "\<forall>b \<in> set bs. module_span b \<inter> arena_free (loader_arena l') = {}"
    "\<forall>x. unat x \<notin> arena_free (loader_arena l) \<and> unat x \<notin> path_spans places 0 (0 + length txs) \<longrightarrow>
        memory_bytes_of l' x = memory_bytes_of l x"
    using load_modules_facts [OF assms(1-3)] assms(4) by auto
  have "list_all (\<lambda>b. 4096 dvd unat (module_base b) \<and> module_span b \<subseteq> arena_free (loader_arena l) - arena_free (loader_arena l')) bs"
    using bs(2,5) unfolding modules_held_def list_all_iff by blast
  then have "modules_held disk (boot_volume l) (arena_free (loader_arena l) - arena_free (loader_arena l')) txs (memory_bytes_of l') bs"
    using bs(2) by (simp add: modules_held_def)
  then show ?thesis using bs by (intro exI [of _ bs]) simp
qed

subsection \<open>The kernel in memory\<close>

text \<open>The span of an image ends and begins with a segment.\<close>

definition spanned :: "elf_image \<Rightarrow> bool" where
  "spanned img \<longleftrightarrow> (if segments img = [] then lowest_address img = -1 \<and> highest_address img = 0
     else (\<exists>s \<in> set (segments img). highest_address img = physical_address s + memory_bytes s) \<and>
          (\<exists>s \<in> set (segments img). lowest_address img = physical_address s))"

lemma add_segment_spanned:
  assumes "spanned img" "segment_wf s"
  shows "spanned (add_segment img s)"
proof -
  have n: "unat (physical_address s + memory_bytes s) = unat (physical_address s) + unat (memory_bytes s)" "0 < unat (memory_bytes s)"
    "unat (physical_address s) + unat (memory_bytes s) < 2 ^ 64"
    using assms(2) by (simp_all add: segment_wf_def unat_add_fits)
  then have "0 < physical_address s + memory_bytes s" "unat (physical_address s) < 2 ^ 64 - 1"
    by (simp_all add: word_less_nat_alt)
  moreover from this(2) have "physical_address s < -1" by (simp add: word_less_nat_alt unsigned_minus_1_eq_mask mask_eq_exp_minus_1)
  ultimately show ?thesis using assms(1)
    by (auto simp: spanned_def add_segment_def Let_def split: if_splits)
qed

lemma program_header_segment_wf:
  "parse_program_header raw = Some (s, t) \<Longrightarrow> t = ELF_PROGRAM_TYPE_LOAD \<Longrightarrow> segment_wf s"
  by (auto simp: parse_program_header_def opt_bind Let_def load_segment_ok_def segment_wf_def
      checked_add_u64_def word_less_nat_alt not_less unat_gt_0 word_le_nat_alt split: if_splits)

lemma parse_segments_spanned:
  "parse_segments read po is img = Some out \<Longrightarrow> spanned img \<Longrightarrow> spanned out"
proof (induction "is" arbitrary: img)
  case (Cons i "is")
  then obtain raw s t where p: "parse_program_header raw = Some (s, t)"
    and rest: "(if t \<noteq> ELF_PROGRAM_TYPE_LOAD then parse_segments read po is img
      else do { ensure (length (segments img) \<noteq> ELF_MAX_SEGMENTS);
                ensure (\<not> list_ex (\<lambda>other. segments_overlap other s) (segments img));
                parse_segments read po is (add_segment img s) }) = Some out"
    by (auto simp: opt_bind simp del: not_None_eq)
  show ?case
  proof (cases "t = ELF_PROGRAM_TYPE_LOAD")
    case False
    with rest Cons show ?thesis by simp
  next
    case True
    then have "parse_segments read po is (add_segment img s) = Some out" using rest by auto
    then show ?thesis
      using Cons.IH add_segment_spanned [OF Cons.prems(2) program_header_segment_wf [OF p True]] by blast
  qed
qed simp

lemma elf_parse_spanned: "elf_parse read = Some img \<Longrightarrow> spanned img"
proof -
  assume "elf_parse read = Some img"
  then obtain po count entry where "parse_segments read po (map of_nat [0..<unat (count :: u16)])
      \<lparr>entry_address = entry, segments = [], lowest_address = -1, highest_address = 0\<rparr> = Some img"
    by (auto simp: elf_parse_def opt_bind)
  then show ?thesis by (rule parse_segments_spanned) (simp add: spanned_def)
qed

lemma kernel_in_usable_run:
  assumes "canonical (regions memory)" "kernel_in_usable_memory memory img" "lowest_address img < highest_address img"
  shows "usable_run (regions memory) (unat (lowest_address img)) (unat (highest_address img) - unat (lowest_address img))"
proof -
  obtain r where r: "find_region (regions memory) (lowest_address img) = Some r" "region_kind r = MEMORY_KIND_USABLE"
    "highest_address img \<le> region_end r"
    using assms(2) by (auto simp: kernel_in_usable_memory_def memory_map_find_def region_end_def not_less split: option.splits)
  have wf: "\<forall>s \<in> set (regions memory). region_wf s" using assms(1) by (simp add: canonical_def)
  have region: "r \<in> set (regions memory)" "unat (lowest_address img) \<in> region_span r"
    using find_region_Some [OF r(1) wf] by simp_all
  have "claim (regions memory) x = Some MEMORY_KIND_USABLE"
    if "unat (lowest_address img) \<le> x" "x < unat (highest_address img)" for x
    using that region r(2,3) wf canonical_claim [OF assms(1) region(1)]
    by (simp add: in_region_span word_le_nat_alt)
  then show ?thesis using assms(3) by (simp add: usable_run_def word_less_nat_alt)
qed

lemma kernel_placed:
  assumes "segment_within s kernel_placement"
  shows "placed kernel_placement s = physical_address s" "0x100000 \<le> unat (physical_address s)"
    "unat (physical_address s) + unat (memory_bytes s) \<le> 2 ^ 32"
proof -
  from assms obtain d where d: "biased (physical_address s) 0 = Some d" "placed kernel_placement s = d"
    "0x100000 \<le> unat d" "unat d + unat (memory_bytes s) \<le> 2 ^ 32"
    by (elim segment_withinD) (simp add: kernel_placement_def)
  have "d = physical_address s" using d(1) by (simp add: biased_exact split: if_splits)
  with d show "placed kernel_placement s = physical_address s" "0x100000 \<le> unat (physical_address s)"
    "unat (physical_address s) + unat (memory_bytes s) \<le> 2 ^ 32" by simp_all
qed

lemma elf_parse_wf:
  assumes "elf_parse read = Some img"
  shows "image_wf img" "segments img \<noteq> []"
proof -
  have run: "parse_segments read po is img = Some out \<Longrightarrow> image_wf img \<Longrightarrow> image_wf out" for po "is" img out
  proof (induction "is" arbitrary: img)
    case (Cons i "is")
    then obtain raw s t where p: "parse_program_header raw = Some (s, t)"
      and rest: "(if t \<noteq> ELF_PROGRAM_TYPE_LOAD then parse_segments read po is img
        else do { ensure (length (segments img) \<noteq> ELF_MAX_SEGMENTS);
                  ensure (\<not> list_ex (\<lambda>other. segments_overlap other s) (segments img));
                  parse_segments read po is (add_segment img s) }) = Some out"
      by (auto simp: opt_bind simp del: not_None_eq)
    show ?case
    proof (cases "t = ELF_PROGRAM_TYPE_LOAD")
      case False
      with rest Cons show ?thesis by simp
    next
      case True
      then have "parse_segments read po is (add_segment img s) = Some out" "length (segments img) \<noteq> ELF_MAX_SEGMENTS"
        "\<not> list_ex (\<lambda>other. segments_overlap other s) (segments img)" using rest by (auto split: if_splits)
      with Cons.IH add_segment_wf [OF Cons.prems(2) program_header_segment_wf [OF p True]] show ?thesis by blast
    qed
  qed simp
  from assms show "image_wf img" "segments img \<noteq> []"
    using run [OF _ image_wf_start] by (auto simp: elf_parse_def opt_bind)
qed

text \<open>What every kernel that is loaded has gone through, whatever the disk answers.\<close>

lemma load_kernel_checked:
  assumes "load_kernel g memory path l = Some (entry, img, l')"
  obtains f w m where "open_file g path (boot_volume l) = Some (f, w)" "elf_parse (kernel_read (w, f)) = Some img"
    "elf_load (kernel_read (w, f)) img kernel_placement (memory_bytes_of l) = (True, m)"
    "l' = l\<lparr>boot_volume := w, memory_bytes_of := m\<rparr>" "entry = entry_address img" "entry \<noteq> 0"
    "image_wf img" "segments img \<noteq> []" "2 ^ 20 \<le> unat (lowest_address img)" "unat (highest_address img) \<le> 2 ^ 32"
    "lowest_address img < highest_address img"
    "canonical (regions memory) \<Longrightarrow>
       usable_run (regions memory) (unat (lowest_address img)) (unat (highest_address img) - unat (lowest_address img))"
proof -
  from assms obtain f w m where op: "open_file g path (boot_volume l) = Some (f, w)"
    and img: "elf_parse (kernel_read (w, f)) = Some img" and usable: "kernel_in_usable_memory memory img"
    and load: "elf_load (kernel_read (w, f)) img kernel_placement (memory_bytes_of l) = (True, m)"
    and entry: "entry = elf_entry_point img kernel_placement" "entry \<noteq> 0"
    and l': "l' = l\<lparr>boot_volume := w, memory_bytes_of := m\<rparr>"
    by (cases "open_file g path (boot_volume l)";
        cases "elf_load (kernel_read (snd (the (open_file g path (boot_volume l))), fst (the (open_file g path (boot_volume l))))) img
          kernel_placement (memory_bytes_of l)")
      (auto simp: load_kernel_def opt_bind Let_def split: bool.splits)
  note parsed = elf_parse_wf [OF img]
  have within: "segment_within s kernel_placement" if "s \<in> set (segments img)" for s
    using load that by (auto simp: elf_load_def list_ex_iff split: if_splits)
  note placed = kernel_placed [OF within]
  have spans: "unat (physical_address s + memory_bytes s) = unat (physical_address s) + unat (memory_bytes s)"
    if "s \<in> set (segments img)" for s
    using placed(3) [OF that] by (simp add: unat_add_fits)
  obtain s t where s: "s \<in> set (segments img)" "highest_address img = physical_address s + memory_bytes s"
    and t: "t \<in> set (segments img)" "lowest_address img = physical_address t"
    using elf_parse_spanned [OF img] parsed(2) by (auto simp: spanned_def)
  have "segment_wf t" "unat (physical_address t) + unat (memory_bytes t) \<le> unat (highest_address img)"
    using parsed(1) t(1) by (auto simp: image_wf_def list_all_iff word_le_nat_alt simp flip: spans)
  then have low: "lowest_address img < highest_address img"
    using t by (simp add: word_less_nat_alt segment_wf_def)
  have "elf_entry_point img kernel_placement = entry_address img"
    using uint_bounded [of "entry_address img"]
    by (simp add: elf_entry_point_def kernel_placement_def biased_exact Let_def)
  moreover have "2 ^ 20 \<le> unat (lowest_address img)" "unat (highest_address img) \<le> 2 ^ 32"
    using s t placed(2) [OF t(1)] placed(3) [OF s(1)] spans [OF s(1)] by simp_all
  ultimately show thesis
    using that [OF op img load l' _ entry(2) parsed] entry(1) low kernel_in_usable_run [OF _ usable low] by simp
qed

text \<open>
  C4. A kernel that is loaded is in memory as its file describes it: every segment lies between one megabyte and four
  gigabytes, inside one run of usable memory, holds the bytes of the file and zeros after them, and no other byte has
  changed; the entry point is the one the file names and is not zero.
\<close>

theorem load_kernel_exact:
  assumes "load_kernel g memory path l = Some (entry, img, l')" "fat_volume_ok disk (boot_volume l)"
    "canonical (regions memory)"
  shows "\<exists>f w. open_file g path (boot_volume l) = Some (f, w) \<and>
     memory_bytes_of l' = loaded (fat_content disk w f) kernel_placement (segments img) (memory_bytes_of l) \<and>
     segments img = file_segments (fat_content disk w f) (program_offset (fat_content disk w f))
       (map of_nat [0..<program_count (fat_content disk w f)]) \<and>
     segments img \<noteq> [] \<and> image_wf img \<and>
     2 ^ 20 \<le> unat (lowest_address img) \<and> unat (highest_address img) \<le> 2 ^ 32 \<and>
     usable_run (regions memory) (unat (lowest_address img)) (unat (highest_address img) - unat (lowest_address img)) \<and>
     entry = file_field (fat_content disk w f) 24 8 \<and> entry \<noteq> 0 \<and>
     loader_arena l' = loader_arena l \<and> loaded_modules l' = loaded_modules l"
proof -
  obtain f w m where k: "open_file g path (boot_volume l) = Some (f, w)" "elf_parse (kernel_read (w, f)) = Some img"
    "elf_load (kernel_read (w, f)) img kernel_placement (memory_bytes_of l) = (True, m)"
    "l' = l\<lparr>boot_volume := w, memory_bytes_of := m\<rparr>" "entry = entry_address img" "entry \<noteq> 0"
    "image_wf img" "segments img \<noteq> []" "2 ^ 20 \<le> unat (lowest_address img)" "unat (highest_address img) \<le> 2 ^ 32"
    "usable_run (regions memory) (unat (lowest_address img)) (unat (highest_address img) - unat (lowest_address img))"
    by (rule load_kernel_checked [OF assms(1)]) (use assms(3) in blast)
  note O = open_file_facts [OF k(1) assms(2)]
  note reads = kernel_read_file [OF O(2,3)]
  have "m = loaded (fat_content disk w f) kernel_placement (segments img) (memory_bytes_of l)"
    using elf_load_run [OF reads k(2,3)] by simp
  then show ?thesis
    using k elf_parse_facts [OF reads k(2)] by (intro exI [of _ f] exI [of _ w]) simp
qed

subsection \<open>A kernel on a small volume\<close>

text \<open>
  The volume of the theory \<open>Fat\<close> with two files in its root directory: at cluster 3 a kernel of one segment, 3 bytes of
  code for 5 bytes of memory at 0x200000; at cluster 5 a configuration that boots it and loads the same file as a module.
\<close>

definition kernel_demo_elf :: "u8 list" where
  "kernel_demo_elf = [0x7F, 69, 76, 70, 2, 1, 1, 0, 0, 0, 0, 0, 0, 0, 0, 0, 2, 0, 62, 0, 1, 0, 0, 0,
     0, 0, 32, 0, 0, 0, 0, 0, 64, 0, 0, 0, 0, 0, 0, 0, 0, 0, 0, 0, 0, 0, 0, 0, 0, 0, 0, 0, 0, 0, 56, 0,
     1, 0, 0, 0, 0, 0, 0, 0,
     1, 0, 0, 0, 5, 0, 0, 0, 120, 0, 0, 0, 0, 0, 0, 0, 0, 0, 32, 0, 0, 0, 0, 0, 0, 0, 32, 0, 0, 0, 0, 0,
     3, 0, 0, 0, 0, 0, 0, 0, 5, 0, 0, 0, 0, 0, 0, 0, 0, 16, 0, 0, 0, 0, 0, 0,
     0xF4, 0xEB, 0xFD]"

definition demo_config_text :: "u8 list" where
  "demo_config_text = lit ('':a'' @ [CHR 0x0A] @ ''kernel=a.txt'' @ [CHR 0x0A] @ ''module=a.txt'')"

definition config_demo_entry :: "u8 list" where
  "config_demo_entry = lit ''TUNIX   CFG'' @ [0, 0, 0, 0, 0, 0, 0, 0, 0, 0, 0, 0, 0, 0, 0, 5, 0, 28, 0, 0, 0]"

definition kernel_demo_disk :: "nat \<Rightarrow> u8" where
  "kernel_demo_disk a =
     (if 1536 \<le> a \<and> a < 1659 then kernel_demo_elf ! (a - 1536)
      else if 2560 \<le> a \<and> a < 2588 then demo_config_text ! (a - 2560)
      else if 1056 \<le> a \<and> a < 1088 then config_demo_entry ! (a - 1056)
      else if a = 1052 then 123 else if a = 1053 then 0 else demo_fat_disk a)"

definition kernel_demo_file :: fat_file where
  "kernel_demo_file = demo_fat_file\<lparr>file_size := 123\<rparr>"

definition config_demo_file :: fat_file where
  "config_demo_file = demo_fat_file\<lparr>first_cluster := 5, file_size := 28\<rparr>"

text \<open>Any device that shows this disk, and any state of the volume on it.\<close>

definition demo_disk_device :: "block_device \<Rightarrow> bool" where
  "demo_disk_device d \<longleftrightarrow> sound_device d kernel_demo_disk \<and> complete_device d \<and> block_device_valid d \<and>
     sector_bytes d = 512 \<and> sector_count d = 12"

definition demo_disk_volume :: "fat_volume \<Rightarrow> bool" where
  "demo_disk_volume v \<longleftrightarrow> fat_volume_ok kernel_demo_disk v \<and> fat_ready v \<and> bytes_per_sector v = 512 \<and>
     sectors_per_cluster v = 1 \<and> cluster_bytes v = 512 \<and> data_start_sector v = 2 \<and> root_cluster v = 2 \<and> cluster_count v = 10"

lemma demo_disk_same:
  "demo_disk_volume v \<Longrightarrow> same_volume v w \<Longrightarrow> fat_volume_ok kernel_demo_disk w \<Longrightarrow> demo_disk_volume w"
  using fat_ready_same [of v w] by (simp add: demo_disk_volume_def same_volumeD)

lemma demo_disk_mount:
  assumes "demo_disk_device d"
  obtains v where "fat_mount d stale (replicate 512 0) = Some v" "demo_disk_volume v"
proof -
  let ?v = "demo_fat_volume\<lparr>fat_device := d\<rparr>"
  have d: "sound_device d kernel_demo_disk" "complete_device d" "block_device_valid d" "sector_bytes d = 512" "sector_count d = 12"
    using assms by (simp_all add: demo_disk_device_def)
  have same: "image_bytes kernel_demo_disk 0 512 = image_bytes demo_fat_disk 0 512"
    by (simp add: image_bytes_def kernel_demo_disk_def)
  have boot: "block_read d 0 1 = Some (image_bytes demo_fat_disk 0 512)"
    using block_read_one_total [OF d(2,3), of 0] block_read_sound [OF d(1), of 0 1] d(4,5) by (auto simp: same)
  have "fill_sector (image_bytes demo_fat_disk 0 512) stale = image_bytes demo_fat_disk 0 512"
    by (simp add: fill_sector_def)
  moreover have "image_bytes demo_fat_disk 0 512 ! 510 = 0x55" "image_bytes demo_fat_disk 0 512 ! 511 = 0xAA"
    by (simp_all add: image_bytes_def demo_fat_disk_def)
  ultimately have mount: "fat_mount d stale (replicate 512 0) = Some ?v"
    by (simp add: fat_mount_def d(3-5) boot demo_boot_fields push_bit_eq_mult volume_of_def
        checked_mul_u64_def checked_add_u64_def cluster_in_range_def demo_fat_volume_def)
  have "demo_disk_volume ?v"
    using fat_mount_geometry [OF mount] d
    by (simp add: demo_disk_volume_def fat_volume_ok_def cache_ok_def fat_ready_def demo_fat_volume_def)
  with mount show thesis by (rule that)
qed

lemma demo_disk_bytes:
  assumes "demo_disk_volume v" "off + n \<le> 512" "unat c < 12" "2 \<le> unat c"
  shows "image_bytes (chain_byte kernel_demo_disk v c) off n = image_bytes kernel_demo_disk (unat c * 512 + off) n"
    "off + n \<le> j \<Longrightarrow> j \<le> 512 \<Longrightarrow> chain_covers kernel_demo_disk v c j"
proof -
  have "chain_byte kernel_demo_disk v c i = kernel_demo_disk (unat c * 512 + i)" if "i < 512" for i
    using that assms(1,3,4) by (simp add: demo_disk_volume_def chain_byte_def cluster_pos_def diff_mult_distrib)
  then show "image_bytes (chain_byte kernel_demo_disk v c) off n = image_bytes kernel_demo_disk (unat c * 512 + off) n"
    using assms(2) by (simp add: list_eq_iff_nth_eq image_bytes_def add.assoc)
  have zero: "k = 0" if "k * 512 < j" "j \<le> 512" for k j :: nat using that by (cases k) auto
  have "cluster_in_range v c"
    using assms(1,3,4) by (simp add: demo_disk_volume_def cluster_in_range_def word_less_nat_alt word_le_nat_alt)
  then show "off + n \<le> j \<Longrightarrow> j \<le> 512 \<Longrightarrow> chain_covers kernel_demo_disk v c j"
    using assms(1) by (auto simp: chain_covers_def demo_disk_volume_def dest: zero)
qed

text \<open>The two directory entries.\<close>

definition kernel_demo_entry :: "u8 list" where
  "kernel_demo_entry = demo_fat_entry[28 := 123, 29 := 0]"

lemma demo_disk_entry:
  assumes "demo_disk_volume v" "off \<in> {0, 32}"
  obtains u x where "read_chain v 2 off 32 None =
    (Some (if off = 0 then kernel_demo_entry else config_demo_entry), u, x)" "demo_disk_volume u"
proof -
  obtain e u x where rc: "read_chain v 2 off 32 None = (e, u, x)" by (metis prod_cases3)
  have ok: "fat_volume_ok kernel_demo_disk v" "fat_ready v" using assms(1) by (simp_all add: demo_disk_volume_def)
  have off: "unat off = (if off = 0 then 0 else 32)" using assms(2) by auto
  have entries: "image_bytes kernel_demo_disk 1024 32 = kernel_demo_entry" "image_bytes kernel_demo_disk 1056 32 = config_demo_entry"
    by (simp_all add: image_bytes_def upt_rec kernel_demo_disk_def demo_fat_disk_def kernel_demo_entry_def demo_fat_entry_def
        config_demo_entry_def)
  have "chain_covers kernel_demo_disk v 2 (unat off + 32)"
    by (rule demo_disk_bytes(2) [OF assms(1), of 0 "unat off + 32"]) (simp_all add: off)
  with read_chain_facts [OF rc ok(1)] ok(2) assms(2)
  have facts: "same_volume v u" "cache_ok kernel_demo_disk u" "e = Some (image_bytes (chain_byte kernel_demo_disk v 2) (unat off) 32)"
    by (auto simp: image_bytes_def)
  then have "e = Some (if off = 0 then kernel_demo_entry else config_demo_entry)"
    using demo_disk_bytes(1) [OF assms(1), of "unat off" 32 2] entries by (simp add: off split: if_splits)
  then show thesis
    using that rc demo_disk_same [OF assms(1) facts(1) fat_volume_ok_same [OF ok(1) facts(1,2)]] by simp
qed

lemma demo_disk_names:
  "name_matches kernel_demo_entry (lit ''a.txt'')" "name_matches config_demo_entry (lit ''tunix.cfg'')"
  "\<not> name_matches kernel_demo_entry (lit ''tunix.cfg'')"
proof -
  have "short_name (lit ''a.txt'') = Some (map upper (take 11 kernel_demo_entry))"
    "short_name (lit ''tunix.cfg'') = Some (map upper (take 11 config_demo_entry))"
    "upper 84 \<noteq> upper 65" by code_simp+
  then show "name_matches kernel_demo_entry (lit ''a.txt'')" "name_matches config_demo_entry (lit ''tunix.cfg'')"
    "\<not> name_matches kernel_demo_entry (lit ''tunix.cfg'')"
    by (subst name_matches_exact; simp add: kernel_demo_entry_def demo_fat_entry_def config_demo_entry_def)+
qed

lemma demo_disk_files:
  "entry_file kernel_demo_entry old = kernel_demo_file\<lparr>fat_file.walk := old\<lparr>walk_valid := False\<rparr>\<rparr>"
  "entry_file config_demo_entry old = config_demo_file\<lparr>fat_file.walk := old\<lparr>walk_valid := False\<rparr>\<rparr>"
  by (simp_all add: entry_file_def kernel_demo_entry_def demo_fat_entry_def config_demo_entry_def kernel_demo_file_def
      config_demo_file_def demo_fat_file_def push_bit_eq_mult)

lemma demo_disk_find:
  assumes "demo_disk_volume v"
  obtains u u' where "find_in_directory v 2 (lit ''a.txt'') old stale =
      (Some (kernel_demo_file\<lparr>fat_file.walk := old\<lparr>walk_valid := False\<rparr>\<rparr>), u)" "demo_disk_volume u"
    "find_in_directory v 2 (lit ''tunix.cfg'') old stale =
      (Some (config_demo_file\<lparr>fat_file.walk := old\<lparr>walk_valid := False\<rparr>\<rparr>), u')" "demo_disk_volume u'"
proof -
  obtain u x where first: "read_chain v 2 0 32 None = (Some kernel_demo_entry, u, x)" "demo_disk_volume u"
    by (rule demo_disk_entry [OF assms, of 0]) auto
  obtain u' x' where second: "read_chain u 2 32 32 None = (Some config_demo_entry, u', x')" "demo_disk_volume u'"
    by (rule demo_disk_entry [OF first(2), of 32]) auto
  have geo: "cluster_count v = 10" "cluster_bytes v = 512" using assms by (simp_all add: demo_disk_volume_def)
  have heads: "kernel_demo_entry ! 0 = 65" "kernel_demo_entry ! 11 = 32" "config_demo_entry ! 0 = 84" "config_demo_entry ! 11 = 0"
    by (simp_all add: kernel_demo_entry_def demo_fat_entry_def config_demo_entry_def)
  have pending: "\<not> long_valid (long_name_reset p)" for p by (simp add: long_name_reset_def)
  have a: "search_directory v 2 (lit ''a.txt'') old 0 0 160 (long_name_reset stale) =
      (Some (entry_file kernel_demo_entry old), u)"
    using search_directory_step [OF _ first(1), of 0 160] demo_disk_names(1) heads
    by (simp add: entry_matches_def Let_def)
  have "search_directory u 2 (lit ''tunix.cfg'') old 32 1 160 (long_name_reset p) =
      (Some (entry_file config_demo_entry old), u')" for p
    using search_directory_step [OF _ second(1), of 1 160] demo_disk_names(2) heads
    by (simp add: entry_matches_def Let_def)
  then have b: "search_directory v 2 (lit ''tunix.cfg'') old 0 0 160 (long_name_reset stale) =
      (Some (entry_file config_demo_entry old), u')"
    using search_directory_step [OF _ first(1), of 0 160] demo_disk_names(3) heads pending
    by (simp add: entry_matches_def Let_def)
  show thesis
    by (rule that [of u u'])
      (use a b first(2) second(2) in \<open>simp_all add: find_in_directory_def geo demo_disk_files\<close>)
qed

lemma demo_disk_open:
  assumes "demo_disk_volume v"
  obtains w w' where "open_file g (lit ''a.txt'' @ [0]) v =
      Some (kernel_demo_file\<lparr>fat_file.walk := (walk_garbage g)\<lparr>walk_valid := False\<rparr>\<rparr>, w)" "demo_disk_volume w"
    "open_file g CONFIG_PATH v =
      Some (config_demo_file\<lparr>fat_file.walk := (walk_garbage g)\<lparr>walk_valid := False\<rparr>\<rparr>, w')" "demo_disk_volume w'"
proof -
  let ?old = "(walk_garbage g)\<lparr>walk_valid := False\<rparr>"
  have root: "root_cluster v = 2" using assms by (simp add: demo_disk_volume_def)
  have path: "skip_separators (lit ''a.txt'' @ [0]) 0 = 0" "component_end (lit ''a.txt'' @ [0]) 0 = 5"
    "skip_separators (lit ''a.txt'' @ [0]) 5 = 5" "skip_separators CONFIG_PATH 0 = 1" "component_end CONFIG_PATH 1 = 10"
    "skip_separators CONFIG_PATH 10 = 10"
    by code_simp+
  have "\<exists>w. demo_disk_volume w \<and> open_file g (lit ''a.txt'' @ [0]) v = Some (kernel_demo_file\<lparr>fat_file.walk := ?old\<rparr>, w)"
    by (rule demo_disk_find [OF assms, of ?old "name_garbage g 0"])
      (use root path(1-3) in \<open>auto simp: open_file_def fat_open_def open_from.simps path_at_def\<close>)
  moreover have "\<exists>w. demo_disk_volume w \<and> open_file g CONFIG_PATH v = Some (config_demo_file\<lparr>fat_file.walk := ?old\<rparr>, w)"
    by (rule demo_disk_find [OF assms, of ?old "name_garbage g 1"])
      (use root path(4-6) in \<open>auto simp: open_file_def fat_open_def open_from.simps path_at_def\<close>)
  ultimately show thesis using that by blast
qed

lemma demo_disk_read:
  assumes v: "demo_disk_volume v" and walk: "\<not> walk_valid x" and inside: "unat off + unat n \<le> unat (file_size f)"
    and f: "f \<in> {kernel_demo_file\<lparr>fat_file.walk := x\<rparr>, config_demo_file\<lparr>fat_file.walk := x\<rparr>}"
  obtains w g where "fat_read v f off n =
    (Some (image_bytes kernel_demo_disk (unat (first_cluster f) * 512 + unat off) (unat n)), w, g)" "demo_disk_volume w"
proof -
  obtain r w g where run: "fat_read v f off n = (r, w, g)" by (metis prod_cases3)
  have ok: "fat_volume_ok kernel_demo_disk v" "fat_ready v" using v by (simp_all add: demo_disk_volume_def)
  have fields_f: "unat (first_cluster f) < 12" "2 \<le> unat (first_cluster f)" "unat (file_size f) \<le> 512" "\<not> directory f"
    "fat_file.walk f = x"
    using f by (auto simp: kernel_demo_file_def config_demo_file_def demo_fat_file_def)
  have "fat_file_complete kernel_demo_disk v f"
    using demo_disk_bytes(2) [OF v, of 0 0] fields_f by (simp add: fat_file_complete_def)
  moreover have "walk_ok kernel_demo_disk v (first_cluster f) (fat_file.walk f)" using walk fields_f(5) by (simp add: walk_ok_def)
  moreover have "image_bytes (fat_content kernel_demo_disk v f) (unat off) (unat n) =
      image_bytes kernel_demo_disk (unat (first_cluster f) * 512 + unat off) (unat n)"
    using demo_disk_bytes(1) [OF v] inside fields_f by (simp add: fat_content_def)
  ultimately have "r = Some (image_bytes kernel_demo_disk (unat (first_cluster f) * 512 + unat off) (unat n))"
    "same_volume v w" "fat_volume_ok kernel_demo_disk w"
    using fat_read_facts [OF run ok(1)] ok(2) inside fields_f(4) by auto
  with run demo_disk_same [OF v] that show thesis by simp
qed

lemma kernel_demo_bytes:
  assumes "off + n \<le> 123"
  shows "image_bytes kernel_demo_disk (1536 + off) n = take n (drop off kernel_demo_elf)"
proof -
  have "length kernel_demo_elf = 123" by (simp add: kernel_demo_elf_def)
  then show ?thesis using assms by (simp add: list_eq_iff_nth_eq image_bytes_def kernel_demo_disk_def)
qed

lemma kernel_demo_read:
  assumes "demo_disk_volume v" "\<not> walk_valid x" "unat off + unat n \<le> 123"
  shows "kernel_read (v, kernel_demo_file\<lparr>fat_file.walk := x\<rparr>) off n = (True, take (unat n) (drop (unat off) kernel_demo_elf))"
proof -
  let ?f = "kernel_demo_file\<lparr>fat_file.walk := x\<rparr>"
  have f: "first_cluster kernel_demo_file = 3" "file_size kernel_demo_file = 123" by (simp_all add: kernel_demo_file_def demo_fat_file_def)
  obtain w g where "fat_read v ?f off n =
      (Some (image_bytes kernel_demo_disk (unat (first_cluster ?f) * 512 + unat off) (unat n)), w, g)"
    by (rule demo_disk_read [OF assms(1,2), of off n ?f]) (use assms(3) f in auto)
  then show ?thesis using kernel_demo_bytes [OF assms(3)] by (simp add: kernel_read_def source_read_def f)
qed

definition kernel_demo_segment :: elf_segment where
  "kernel_demo_segment = \<lparr>file_offset = 120, virtual_address = 0x200000, physical_address = 0x200000, file_bytes = 3,
     memory_bytes = 5, seg_flags = 5\<rparr>"

definition kernel_demo_image :: elf_image where
  "kernel_demo_image = \<lparr>entry_address = 0x200000, segments = [kernel_demo_segment], lowest_address = 0x200000,
     highest_address = 0x200005\<rparr>"

lemma kernel_demo_program:
  "parse_program_header (take 56 (drop 64 kernel_demo_elf)) = Some (kernel_demo_segment, 1)"
  by (simp add: kernel_demo_elf_def parse_program_header_def reader_init_def)
    (simp add: reading_eval kernel_demo_segment_def load_segment_ok_def checked_add_u64_def)

lemma kernel_demo_load:
  assumes read: "\<And>off n. unat off + unat n \<le> 123 \<Longrightarrow> read off n = (True, take (unat n) (drop (unat off) kernel_demo_elf))"
  shows "elf_parse read = Some kernel_demo_image"
    "fst (elf_load read kernel_demo_image kernel_placement m)"
proof -
  have "read_or_fail read 0 64 = Some (take 64 kernel_demo_elf)" "read_or_fail read 64 56 = Some (take 56 (drop 64 kernel_demo_elf))"
    by (simp_all add: read_or_fail_def read)
  moreover have "memcmp_bytes (take 64 kernel_demo_elf) elf_magic 4 = 0"
    by (subst memcmp_bytes_0) (simp_all add: kernel_demo_elf_def elf_magic_def)
  moreover have "reader_init (Some (take 64 kernel_demo_elf)) 64 =
      \<lparr>rd_base = Some (take 64 kernel_demo_elf), rd_length = 64, rd_position = 0\<rparr>"
    by (simp add: reader_init_def)
  ultimately have "parse_header read = Some (64, 1, 0x200000)"
    by (simp add: parse_header_def) (simp add: kernel_demo_elf_def reading_eval)
  then show "elf_parse read = Some kernel_demo_image"
    using kernel_demo_program \<open>read_or_fail read 64 56 = _\<close>
    by (simp add: elf_parse_def upt_rec checked_mul_u64_def checked_add_u64_def add_segment_def kernel_demo_image_def
        kernel_demo_segment_def)
  have "segment_within kernel_demo_segment kernel_placement"
    by (simp add: segment_within_def kernel_demo_segment_def kernel_placement_def biased_def checked_add_u64_def)
  moreover obtain m1 where "copy_chunks read 0x200000 0x78 3 m = (True, m1)"
    by (simp add: copy_chunks.simps read)
  ultimately show "fst (elf_load read kernel_demo_image kernel_placement m)"
    by (simp add: elf_load_def kernel_demo_image_def copy_segment_def kernel_placement_def biased_def checked_add_u64_def
        kernel_demo_segment_def split: prod.splits bool.splits)
qed


lemma demo_load_kernel:
  assumes "demo_disk_volume (boot_volume l)" "kernel_in_usable_memory memory kernel_demo_image"
  obtains w m where "load_kernel g memory (lit ''a.txt'' @ [0]) l =
    Some (0x200000, kernel_demo_image, l\<lparr>boot_volume := w, memory_bytes_of := m\<rparr>)"
proof -
  let ?x = "(walk_garbage g)\<lparr>walk_valid := False\<rparr>"
  let ?f = "kernel_demo_file\<lparr>fat_file.walk := ?x\<rparr>"
  obtain w where op: "open_file g (lit ''a.txt'' @ [0]) (boot_volume l) = Some (?f, w)" "demo_disk_volume w"
    by (rule demo_disk_open [OF assms(1)])
  have read: "kernel_read (w, ?f) off n = (True, take (unat n) (drop (unat off) kernel_demo_elf))"
    if "unat off + unat n \<le> 123" for off n
    by (rule kernel_demo_read [OF op(2) _ that]) simp
  note load = kernel_demo_load [of "kernel_read (w, ?f)", OF read]
  obtain m where m: "elf_load (kernel_read (w, ?f)) kernel_demo_image kernel_placement (memory_bytes_of l) = (True, m)"
    using load(2) [of "memory_bytes_of l"] by (metis prod.collapse)
  have "elf_entry_point kernel_demo_image kernel_placement = 0x200000"
    by (simp add: elf_entry_point_def kernel_placement_def kernel_demo_image_def biased_def checked_add_u64_def)
  then have "load_kernel g memory (lit ''a.txt'' @ [0]) l =
      Some (0x200000, kernel_demo_image, l\<lparr>boot_volume := w, memory_bytes_of := m\<rparr>)"
    using op(1) load(1) m assms(2) by (simp add: load_kernel_def)
  then show thesis by (rule that)
qed

lemma demo_load_module:
  assumes "demo_disk_volume (boot_volume l)" "arena_allocate_aligned (loader_arena l) 123 0x1000 = Some (at, a)"
  obtains w m where "load_module g places i (lit ''a.txt'') l =
    Some \<lparr>boot_volume = w, loader_arena = a, memory_bytes_of = m,
      loaded_modules = loaded_modules l @ [\<lparr>module_base = at, module_bytes = 123, module_path = module_path_at places i\<rparr>]\<rparr>"
    "demo_disk_volume w"
proof -
  let ?x = "(walk_garbage g)\<lparr>walk_valid := False\<rparr>"
  let ?f = "kernel_demo_file\<lparr>fat_file.walk := ?x\<rparr>"
  obtain v where op: "open_file g (lit ''a.txt'' @ [0]) (boot_volume l) = Some (?f, v)" "demo_disk_volume v"
    by (rule demo_disk_open [OF assms(1)])
  have f: "file_size ?f = 123" by (simp add: kernel_demo_file_def demo_fat_file_def)
  obtain w g bs where "fat_read v ?f 0 123 = (Some bs, w, g)" "demo_disk_volume w"
    by (rule demo_disk_read [OF op(2), of ?x 0 123 ?f]) (auto simp: f)
  then have "read_whole v ?f = Some (bs, w)" "demo_disk_volume w" using f by (simp_all add: read_whole_def)
  moreover have "str_copy_cstr (lit ''a.txt'') 128 = Some (lit ''a.txt'' @ [0])" by (simp add: str_copy_cstr_def)
  ultimately show thesis
    using op(1) assms(2) f by (intro that) (auto simp: load_module_def Let_def)
qed

definition demo_garbage :: stack_garbage where
  "demo_garbage = \<lparr>sector_garbage = [], walk_garbage = \<lparr>walk_offset = 0, walk_cluster = 0, walk_valid = True\<rparr>,
     name_garbage = (\<lambda>_. \<lparr>text_bytes = [], long_length = 0, long_checksum = 0, long_valid = False\<rparr>)\<rparr>"

definition demo_disk_plain :: block_device where
  "demo_disk_plain = \<lparr>read_sectors = (\<lambda>lba n. Some (image_bytes kernel_demo_disk (unat lba * 512) (unat n * 512))),
     sector_bytes = 512, sector_count = 12, torn_sector = (\<lambda>_. [])\<rparr>"

definition demo_volume :: fat_volume where
  "demo_volume = the (fat_mount demo_disk_plain [] (replicate 512 0))"

definition demo_loader :: loader where
  "demo_loader = \<lparr>boot_volume = demo_volume, loader_arena = arena_init 0x100000 0x4000, memory_bytes_of = (\<lambda>_. 0xFF),
     loaded_modules = []\<rparr>"

definition demo_places :: static_places where
  "demo_places = \<lparr>command_line_at = 0x7000, module_paths_at = 0x8000\<rparr>"

definition demo_usable_memory :: memory_map where
  "demo_usable_memory = \<lparr>regions = [\<lparr>region_base = 0, region_length = 0x40000000, region_kind = MEMORY_KIND_USABLE\<rparr>],
     truncated = False\<rparr>"

lemma demo_usable_kernel: "kernel_in_usable_memory demo_usable_memory kernel_demo_image"
  by (simp add: kernel_in_usable_memory_def memory_map_find_def demo_usable_memory_def kernel_demo_image_def region_end_def)

lemma demo_loader_volume: "demo_disk_volume (boot_volume demo_loader)"
proof -
  have "demo_disk_device demo_disk_plain"
    by (simp add: demo_disk_device_def sound_device_def complete_device_def block_device_valid_def demo_disk_plain_def)
  then obtain v where "fat_mount demo_disk_plain [] (replicate 512 0) = Some v" "demo_disk_volume v" by (rule demo_disk_mount)
  then show ?thesis by (simp add: demo_loader_def demo_volume_def)
qed

lemma demo_loader_ok: "fat_volume_ok kernel_demo_disk (boot_volume demo_loader)" "arena_wf (loader_arena demo_loader)"
  using demo_loader_volume by (simp_all add: demo_disk_volume_def) (simp add: demo_loader_def arena_init_def arena_wf_def)

theorem load_kernel_exact_witness:
  "\<exists>f w. open_file demo_garbage (lit ''a.txt'' @ [0]) (boot_volume demo_loader) = Some (f, w) \<and>
     (0x200000 :: u64) = file_field (fat_content kernel_demo_disk w f) 24 8 \<and> usable_run (regions demo_usable_memory) 0x200000 5"
proof -
  have "canonical (regions demo_usable_memory)" by (simp add: demo_usable_memory_def canonical_def region_wf_def)
  moreover obtain l' where "load_kernel demo_garbage demo_usable_memory (lit ''a.txt'' @ [0]) demo_loader =
      Some (0x200000, kernel_demo_image, l')" by (rule demo_load_kernel [OF demo_loader_volume demo_usable_kernel])
  ultimately show ?thesis
    using load_kernel_exact [OF _ demo_loader_ok(1)] by (fastforce simp: kernel_demo_image_def)
qed

theorem load_modules_exact_witness:
  "\<exists>l' b. load_modules (\<lambda>_. demo_garbage) demo_places 0 [lit ''a.txt''] demo_loader = Some l' \<and>
     loaded_modules l' = [b] \<and> holds_file kernel_demo_disk (boot_volume demo_loader) (lit ''a.txt'') (memory_bytes_of l') b"
proof -
  have "arena_allocate_aligned (loader_arena demo_loader) 123 0x1000 =
      Some (0x100000, \<lparr>base = 0x100000, capacity = 0x4000, used = 123\<rparr>)"
    by (simp add: arena_allocate_aligned_def demo_loader_def arena_init_def is_power_of_two_def checked_add_size_def checked_add_u64_def)
  then obtain l' where "load_module demo_garbage demo_places 0 (lit ''a.txt'') demo_loader = Some l'"
    by (rule demo_load_module [OF demo_loader_volume])
  then have l': "load_modules (\<lambda>_. demo_garbage) demo_places 0 [lit ''a.txt''] demo_loader = Some l'" by simp
  have "places_ok demo_places (loader_arena demo_loader) (length [lit ''a.txt''])"
    by (simp add: places_ok_def demo_places_def path_spans_def arena_range_def demo_loader_def arena_init_def)
  from load_modules_exact [OF l' demo_loader_ok this] l' show ?thesis
    by (auto simp: modules_held_def list_all2_Cons1 demo_loader_def)
qed

end
