(* ===== verification/Boot_Disk.thy ===== *)
theory Boot_Disk
  imports Machine Fat Partition
begin

text \<open>
  The boot disk of \<open>src/boot/main.c\<close>: \<open>attach_boot_disk\<close>, and what the layers above may rely on when a drive is behind
  the ports. The drive is read through a device whose reads all start in the state the probe left behind; the theorem
  shows that a drive answers the same in every later state.
\<close>

abbreviation (input) ATA_PRIMARY_IO_BASE :: u16 where "ATA_PRIMARY_IO_BASE \<equiv> 0x1F0"
abbreviation (input) ATA_PRIMARY_CONTROL_BASE :: u16 where "ATA_PRIMARY_CONTROL_BASE \<equiv> 0x3F6"
abbreviation (input) BOOT_RECORD_SIGNATURE_OFFSET :: nat where "BOOT_RECORD_SIGNATURE_OFFSET \<equiv> 510"
abbreviation (input) BOOT_RECORD_SIGNATURE :: u16 where "BOOT_RECORD_SIGNATURE \<equiv> 0xAA55"

text \<open>
  The device \<open>ata_probe\<close> fills in, for a channel and a number of sectors, in a state of the hardware. A read of one sector
  that fails has failed in front of its first word, so nothing of it is stored.
\<close>

definition ata_device :: "'s ata_channel \<Rightarrow> u64 \<Rightarrow> 's \<Rightarrow> block_device" where
  "ata_device c sectors s =
     \<lparr>read_sectors = (\<lambda>lba count. fst (ata_read_sectors c lba count s)), sector_bytes = ATA_SECTOR_BYTES, sector_count = sectors,
      torn_sector = (\<lambda>_. [])\<rparr>"

definition attach_boot_disk :: "'s ata_io \<Rightarrow> 's \<Rightarrow> block_device option \<times> 's" where
  "attach_boot_disk io s =
     (case ata_probe io ATA_PRIMARY_IO_BASE ATA_PRIMARY_CONTROL_BASE False s of
        (None, s) \<Rightarrow> (None, s)
      | (Some (boot_channel, sectors), s) \<Rightarrow>
          (let boot_disk = ata_device boot_channel sectors s
           in case block_read boot_disk 0 1 of
                None \<Rightarrow> (None, s)
              | Some boot_record \<Rightarrow>
                  (let signature = (ucast (boot_record ! BOOT_RECORD_SIGNATURE_OFFSET) OR
                         push_bit 8 (ucast (boot_record ! (BOOT_RECORD_SIGNATURE_OFFSET + 1))) :: u16)
                   in if signature \<noteq> BOOT_RECORD_SIGNATURE then (None, s) else (Some boot_disk, s))))"

subsection \<open>A device that reads inside its bounds\<close>

text \<open>
  What the drive gives, and what is enough: a read inside the device is exact; what a read outside would answer is open,
  as a 48-bit address cuts off what is beyond it.
\<close>

definition exact_inside :: "block_device \<Rightarrow> (nat \<Rightarrow> u8) \<Rightarrow> bool" where
  "exact_inside d disk \<longleftrightarrow> block_device_valid d \<and> sector_count d \<noteq> 0 \<and>
     (\<forall>lba count. 0 < count \<and> count \<le> BLOCK_MAX_SECTORS_PER_READ \<and> unat lba + unat count \<le> unat (sector_count d) \<longrightarrow>
        read_sectors d lba count =
          Some (image_bytes disk (unat lba * unat (sector_bytes d)) (unat count * unat (sector_bytes d))))"

lemma block_read_loop_inside:
  assumes "exact_inside d disk"
  shows "unat lba + unat k \<le> unat (sector_count d) \<Longrightarrow>
    block_read_loop d lba k out =
      Some (out @ image_bytes disk (unat lba * unat (sector_bytes d)) (unat k * unat (sector_bytes d)))"
proof (induction "unat k" arbitrary: lba k out rule: less_induct)
  case less
  show ?case
  proof (cases "k > 0")
    case False
    then show ?thesis by (subst block_read_loop.simps) (simp add: word_gt_0)
  next
    case True
    let ?sb = "unat (sector_bytes d)"
    define chunk where "chunk = (if k > BLOCK_MAX_SECTORS_PER_READ then BLOCK_MAX_SECTORS_PER_READ else k)"
    have c: "unat chunk = min 64 (unat k)" by (auto simp: chunk_def word_less_nat_alt)
    have pos: "0 < unat k" using True by (simp add: word_less_nat_alt)
    have room: "unat lba + unat k < 2 ^ 64" using less.prems by (rule le_less_trans) simp
    have l: "unat (lba + ucast chunk) = unat lba + unat chunk"
      using room c by (subst unat_add_fits) auto
    have w: "unat (k - chunk) = unat k - unat chunk"
      using c by (subst unat_sub_fits) (auto simp: word_le_nat_alt)
    have "0 < chunk" "chunk \<le> 64" "unat lba + unat chunk \<le> unat (sector_count d)"
      using c pos less.prems by (auto simp: word_less_nat_alt word_le_nat_alt)
    then have now: "read_sectors d lba chunk = Some (image_bytes disk (unat lba * ?sb) (unat chunk * ?sb))"
      using assms by (simp add: exact_inside_def)
    have rest: "block_read_loop d (lba + ucast chunk) (k - chunk) (out @ bs) =
        Some ((out @ bs) @ image_bytes disk (unat (lba + ucast chunk) * ?sb) (unat (k - chunk) * ?sb))" for bs
      using pos c less.prems l w by (intro less.hyps) auto
    have "unat k * ?sb = unat chunk * ?sb + (unat k - unat chunk) * ?sb"
      using c by (simp flip: add_mult_distrib)
    then show ?thesis using True now rest
      using image_bytes_append [of disk "unat lba * ?sb" "unat chunk * ?sb" "(unat k - unat chunk) * ?sb"]
      by (subst block_read_loop.simps) (simp add: l w add_mult_distrib flip: chunk_def)
  qed
qed

lemma block_read_inside:
  assumes "exact_inside d disk"
  shows "block_read d lba k =
    (if 0 < k \<and> unat lba + unat k \<le> unat (sector_count d)
     then Some (image_bytes disk (unat lba * unat (sector_bytes d)) (unat k * unat (sector_bytes d))) else None)"
proof (cases "0 < k \<and> unat lba + unat k \<le> unat (sector_count d)")
  case True
  then have "unat lba + unat k \<le> unat (sector_count d)" by simp
  then have "unat lba + unat k < 2 ^ 64" by (rule le_less_trans) simp
  then have "unat lba + unat (ucast k :: u64) < 2 ^ 64" by simp
  then have "within_device d lba k"
    using True assms by (simp add: within_device_def checked_add_u64_def exact_inside_def word_le_nat_alt unat_add_fits)
  then show ?thesis
    using True assms block_read_loop_inside [OF assms, of lba k "[]"] by (auto simp: block_read_def exact_inside_def)
next
  case False
  then have "\<not> within_device d lba k" if "k \<noteq> 0"
    using that assms by (auto simp: within_device_def checked_add_u64_def exact_inside_def word_le_nat_alt unat_add_fits word_gt_0)
  then show ?thesis using False by (auto simp: block_read_def word_gt_0)
qed

text \<open>A partition of such a device is a device without that reservation.\<close>

lemma partition_inside:
  assumes d: "exact_inside d disk" and out: "partition_open d e = Some out"
  shows "sound_device out (\<lambda>a. disk (unat (start_lba e) * unat (sector_bytes d) + a))" "complete_device out"
    "block_device_valid out" "sector_count out \<noteq> 0"
proof -
  note o = partition_openD [OF out]
  let ?sb = "unat (sector_bytes d)" and ?s = "unat (start_lba e)"
  have sc: "sector_count d \<noteq> 0" using d by (simp add: exact_inside_def)
  show "block_device_valid out" "sector_count out \<noteq> 0"
    using o by (simp_all add: block_device_valid_def entry_inside_def)
  have shift: "image_bytes disk (?s * ?sb + b) n = image_bytes (\<lambda>a. disk (?s * ?sb + a)) b n" for b n
    by (rule nth_equalityI) (simp_all add: image_bytes_def add.assoc)
  have read: "read_sectors out lba k =
      Some (image_bytes (\<lambda>a. disk (?s * ?sb + a)) (unat lba * ?sb) (unat k * ?sb))"
    if "0 < k" "k \<le> BLOCK_MAX_SECTORS_PER_READ" "unat lba + unat k \<le> unat (part_sectors e)" for lba k
  proof -
    have "unat lba + unat k < 2 ^ 64" using that(3) by (rule le_less_trans) simp
    then have fits: "unat lba + unat (ucast k :: u64) < 2 ^ 64" by simp
    then have x: "checked_add_u64 lba (ucast k) = Some (lba + ucast k)" "\<not> lba + ucast k > part_sectors e"
      using that(3) by (simp_all add: checked_add_u64_def word_less_nat_alt unat_add_fits)
    have "?s + unat lba < 2 ^ 64" using o(2) that(3) by (auto simp: entry_inside_def)
    then have a: "checked_add_u64 (start_lba e) lba = Some (start_lba e + lba)" "unat (start_lba e + lba) = ?s + unat lba"
      by (simp_all add: checked_add_u64_def unat_add_fits)
    have "unat (start_lba e + lba) + unat k \<le> unat (sector_count d)"
      using o(2) that(3) sc a(2) by (auto simp: entry_inside_def)
    then have "read_sectors d (start_lba e + lba) k = Some (image_bytes disk ((?s + unat lba) * ?sb) (unat k * ?sb))"
      using d that(1,2) by (simp add: exact_inside_def a(2))
    then show ?thesis using x a(1) by (simp add: o(5) partition_read_sectors_def add_mult_distrib shift)
  qed
  then show "complete_device out" by (simp add: complete_device_def o(4))
  show "sound_device out (\<lambda>a. disk (?s * ?sb + a))"
    unfolding sound_device_def
  proof (intro allI impI)
    fix lba k bytes
    assume *: "0 < k \<and> k \<le> BLOCK_MAX_SECTORS_PER_READ \<and> unat lba + unat k \<le> 2 ^ 64 \<and>
      read_sectors out lba k = Some bytes"
    then obtain x where "checked_add_u64 lba (ucast k) = Some x" "\<not> x > part_sectors e"
      by (auto simp: o(5) partition_read_sectors_def opt_bind)
    then have "unat lba + unat k \<le> unat (part_sectors e)" by (simp add: checked_Some word_less_nat_alt not_less)
    with * read [of k lba] show "bytes = image_bytes (\<lambda>a. disk (?s * ?sb + a)) (unat lba * unat (sector_bytes out))
        (unat k * unat (sector_bytes out))" by (simp add: o(3))
  qed
qed

subsection \<open>A drive behind the ports\<close>

definition drive_lba48 :: "drive \<Rightarrow> bool" where
  "drive_lba48 d \<longleftrightarrow> identity d ! ATA_IDENTIFY_COMMAND_SETS AND ATA_COMMAND_SET_LBA48 \<noteq> 0"

definition drive_size :: "drive \<Rightarrow> u64" where
  "drive_size d = sectors_from_identify (identity d) (drive_lba48 d)"

text \<open>A drive the driver can wait for, and whose size its addresses reach.\<close>

definition drive_ok :: "drive \<Rightarrow> bool" where
  "drive_ok d \<longleftrightarrow> length (identity d) = 256 \<and> latency d < ATA_POLL_ATTEMPTS \<and>
     unat (drive_size d) \<le> (if drive_lba48 d then 2 ^ 48 else 2 ^ 28)"

definition drive_bootable :: "drive \<Rightarrow> bool" where
  "drive_bootable d \<longleftrightarrow> identity d ! ATA_IDENTIFY_CAPABILITIES AND ATA_CAPABILITY_LBA \<noteq> 0 \<and> drive_size d \<noteq> 0 \<and>
     platter d 510 = 0x55 \<and> platter d 511 = 0xAA"

definition boot_channel :: "drive \<Rightarrow> drive ata_channel" where
  "boot_channel d = \<lparr>channel_io = drive_io ATA_PRIMARY_IO_BASE ATA_PRIMARY_CONTROL_BASE, io_base = ATA_PRIMARY_IO_BASE,
     control_base = ATA_PRIMARY_CONTROL_BASE, slave = False, lba48 = drive_lba48 d\<rparr>"

text \<open>The device over any state of a drive with the same disk and the same delays.\<close>

lemma boot_device_inside:
  assumes "drive_ok d" "drive_size d \<noteq> 0" "platter e = platter d" "latency e = latency d"
  shows "exact_inside (ata_device (boot_channel d) (drive_size d) e) (platter d)"
proof -
  have c: "drive_channel (boot_channel d)" by (simp add: sensing_channel_def boot_channel_def)
  have "fst (ata_read_sectors (boot_channel d) lba k e) = Some (image_bytes (platter d) (512 * unat lba) (512 * unat k))"
    if "0 < k" "k \<le> 64" "unat lba + unat k \<le> unat (drive_size d)" for lba k
    using ata_read_run [OF c, of e lba k] assms that
    by (simp add: drive_ok_def boot_channel_def word_less_nat_alt word_le_nat_alt split: if_splits)
  then show ?thesis
    using assms(2) by (simp add: exact_inside_def ata_device_def block_device_valid_def mult.commute)
qed

lemma two_bytes:
  assumes eq: "(ucast (a :: u8) OR push_bit 8 (ucast (b :: u8)) :: u16) = k"
  shows "a = ucast k" "b = ucast (drop_bit 8 k)"
proof -
  show "a = ucast k"
  proof (rule bit_word_eqI)
    fix i assume "i < LENGTH(8)"
    then show "bit a i = bit (ucast k :: u8) i"
      using arg_cong [OF eq, of "\<lambda>w. bit w i"] by (simp add: bit_or_iff bit_push_bit_iff bit_unsigned_iff)
  qed
  show "b = ucast (drop_bit 8 k)"
  proof (rule bit_word_eqI)
    fix i assume i: "i < LENGTH(8)"
    moreover have "\<not> bit a (i + 8)" using bit_imp_le_length [of a "i + 8"] by auto
    ultimately show "bit b i = bit (ucast (drop_bit 8 k) :: u8) i"
      using arg_cong [OF eq, of "\<lambda>w. bit w (i + 8)"]
      by (simp add: bit_or_iff bit_push_bit_iff bit_unsigned_iff bit_drop_bit_eq add.commute)
  qed
qed

lemma signature_bytes:
  "((ucast (a :: u8) OR push_bit 8 (ucast (b :: u8)) :: u16) = 0xAA55) \<longleftrightarrow> a = 0x55 \<and> b = 0xAA"
  by (auto dest: two_bytes)

lemma boot_disk_run:
  assumes "drive_ok d"
  shows "case attach_boot_disk (drive_io ATA_PRIMARY_IO_BASE ATA_PRIMARY_CONTROL_BASE) d of
      (None, d') \<Rightarrow> \<not> drive_bootable d
    | (Some boot_disk, d') \<Rightarrow> drive_bootable d \<and> platter d' = platter d \<and>
        boot_disk = ata_device (boot_channel d) (drive_size d) d' \<and>
        (\<forall>e. platter e = platter d \<and> latency e = latency d \<longrightarrow>
           (\<forall>lba n. block_read (ata_device (boot_channel d) (drive_size d) e) lba n =
              (if 0 < n \<and> unat lba + unat n \<le> unat (drive_size d)
               then Some (image_bytes (platter d) (unat lba * 512) (unat n * 512)) else None)))"
proof -
  let ?io = "drive_io 0x1F0 0x3F6"
  obtain r d' where probe: "ata_probe ?io 0x1F0 0x3F6 False d = (r, d')" by fastforce
  have kept: "platter d' = platter d" "latency d' = latency d"
    using drive_hardware.probe_keeps [of d "platter d" "identity d" "latency d" "0x1F0" "0x3F6" "\<lambda>_. 0" "0x3F6" False] probe by simp_all
  have r: "r = (if identity d ! 49 AND 0x200 \<noteq> 0 \<and> drive_size d \<noteq> 0 then Some (boot_channel d, drive_size d) else None)"
    using drive_probe [of "0x3F6" "0x1F0" d False] assms probe
    by (simp add: drive_ok_def boot_channel_def drive_size_def drive_lba48_def)
  show ?thesis
  proof (cases "identity d ! 49 AND 0x200 \<noteq> 0 \<and> drive_size d \<noteq> 0")
    case False
    then show ?thesis using r probe by (auto simp: attach_boot_disk_def drive_bootable_def)
  next
    case True
    note dev = boot_device_inside [OF assms True [THEN conjunct2]]
    have reads: "block_read (ata_device (boot_channel d) (drive_size d) e) lba n =
        (if 0 < n \<and> unat lba + unat n \<le> unat (drive_size d)
         then Some (image_bytes (platter d) (unat lba * 512) (unat n * 512)) else None)"
      if "platter e = platter d" "latency e = latency d" for e lba n
      using block_read_inside [OF dev [OF that], of lba n] by (simp add: ata_device_def)
    have "1 \<le> unat (drive_size d)" using True by (simp add: unat_eq_0 Suc_le_eq flip: neq0_conv)
    then have rec: "block_read (ata_device (boot_channel d) (drive_size d) d') 0 1 = Some (image_bytes (platter d) 0 512)"
      using reads [OF kept, of 0 1] by simp
    have sig: "image_bytes (platter d) 0 512 ! 510 = platter d 510" "image_bytes (platter d) 0 512 ! 511 = platter d 511"
      by (simp_all add: image_bytes_def)
    have "attach_boot_disk ?io d =
        (if drive_bootable d then Some (ata_device (boot_channel d) (drive_size d) d') else None, d')"
      using True by (simp add: attach_boot_disk_def probe r Let_def rec sig signature_bytes drive_bootable_def)
    then show ?thesis using kept reads by simp
  qed
qed

text \<open>
  C9. A drive behind the ports of the first channel is attached exactly when it addresses by block, says it has sectors, and
  carries the mark of a boot record. The device then reads exactly the bytes of the disk, sectors that are all inside the
  size the drive gave, and nothing else; and it would read the same in every later state of the drive, however many reads
  have gone before.
\<close>

theorem boot_disk_exact:
  assumes "drive_ok d"
  shows "case attach_boot_disk (drive_io ATA_PRIMARY_IO_BASE ATA_PRIMARY_CONTROL_BASE) d of
      (None, d') \<Rightarrow> \<not> drive_bootable d
    | (Some boot_disk, d') \<Rightarrow> drive_bootable d \<and> platter d' = platter d \<and>
        boot_disk = ata_device (boot_channel d) (drive_size d) d' \<and>
        (\<forall>e. platter e = platter d \<and> latency e = latency d \<longrightarrow>
           (\<forall>lba n. block_read (ata_device (boot_channel d) (drive_size d) e) lba n =
              (if 0 < n \<and> unat lba + unat n \<le> unat (drive_size d)
               then Some (image_bytes (platter d) (unat lba * 512) (unat n * 512)) else None)))"
  by (rule boot_disk_run [OF assms])

text \<open>A drive of thirteen sectors that are empty but for the mark of a boot record.\<close>

definition marked_drive :: drive where
  "marked_drive = demo_drive\<lparr>platter := (\<lambda>a. if a = 510 then 0x55 else if a = 511 then 0xAA else 0),
     identity := (replicate 256 0)[49 := 0x200, 60 := 13]\<rparr>"

theorem boot_disk_exact_witness:
  "drive_ok marked_drive \<and>
   (\<exists>b d'. attach_boot_disk (drive_io ATA_PRIMARY_IO_BASE ATA_PRIMARY_CONTROL_BASE) marked_drive = (Some b, d') \<and>
      block_read b 12 1 = Some (image_bytes (platter marked_drive) 6144 512) \<and> block_read b 12 2 = None)"
proof -
  have size: "drive_size marked_drive = 13" "\<not> drive_lba48 marked_drive"
    by (simp_all add: marked_drive_def drive_size_def drive_lba48_def sectors_from_identify_def demo_drive_def)
  have ok: "drive_ok marked_drive"
    by (simp add: drive_ok_def size) (simp add: marked_drive_def demo_drive_def)
  have "drive_bootable marked_drive"
    by (simp add: drive_bootable_def size) (simp add: marked_drive_def)
  moreover obtain r d' where run: "attach_boot_disk (drive_io 0x1F0 0x3F6) marked_drive = (r, d')" by fastforce
  ultimately obtain b where b: "r = Some b" and keep: "platter d' = platter marked_drive"
    and dev: "b = ata_device (boot_channel marked_drive) 13 d'"
    and reads: "\<And>e lba n. platter e = platter marked_drive \<Longrightarrow> latency e = latency marked_drive \<Longrightarrow>
      block_read (ata_device (boot_channel marked_drive) 13 e) lba n =
        (if 0 < n \<and> unat lba + unat n \<le> 13 then Some (image_bytes (platter marked_drive) (unat lba * 512) (unat n * 512)) else None)"
    using boot_disk_exact [OF ok] by (auto simp: size split: option.splits)
  have "latency d' = latency marked_drive"
    using drive_hardware.probe_keeps [of marked_drive "platter marked_drive" "identity marked_drive"
        "latency marked_drive" "0x1F0" "0x3F6" "\<lambda>_. 0" "0x3F6" False] run
    by (auto simp: attach_boot_disk_def Let_def split: prod.splits option.splits if_splits)
  note read = reads [OF keep this, folded dev]
  then show ?thesis using ok run b read by auto
qed

end
