(* ===== verification/Boot_Demo.thy ===== *)
theory Boot_Demo
  imports Boot_Disk Boot_Files Boot_Screen
begin

text \<open>
  A drive to boot from, for the witness of the theorems on \<open>boot_core\<close>: a boot record with one partition, on it the volume
  of \<open>Boot_Files\<close>; and what each step of the core makes of it.
\<close>

definition demo_drive_disk :: "nat \<Rightarrow> u8" where
  "demo_drive_disk a =
     (if a < 512 then case map_of [(450, 12), (454, 1), (458, 12), (510, 0x55), (511, 0xAA)] a of Some b \<Rightarrow> b | None \<Rightarrow> 0
      else kernel_demo_disk (a - 512))"

definition boot_demo_drive :: drive where
  "boot_demo_drive = demo_drive\<lparr>platter := demo_drive_disk, identity := (replicate 256 0)[49 := 0x200, 60 := 13]\<rparr>"

lemma boot_demo_identity:
  "length (identity boot_demo_drive) = 256" "identity boot_demo_drive ! 49 = 0x200" "\<not> drive_lba48 boot_demo_drive"
  "drive_size boot_demo_drive = 13" "platter boot_demo_drive = demo_drive_disk" "latency boot_demo_drive = 20"
  by (simp_all add: boot_demo_drive_def drive_lba48_def drive_size_def sectors_from_identify_def demo_drive_def)

lemma boot_demo_attach:
  obtains d d' where "attach_boot_disk (drive_io ATA_PRIMARY_IO_BASE ATA_PRIMARY_CONTROL_BASE) boot_demo_drive = (Some d, d')"
    "exact_inside d demo_drive_disk" "sector_bytes d = 512" "sector_count d = 13"
proof -
  have ok: "drive_ok boot_demo_drive" by (simp add: drive_ok_def boot_demo_identity)
  have boots: "drive_bootable boot_demo_drive"
    by (simp add: drive_bootable_def boot_demo_identity demo_drive_disk_def)
  obtain r d' where run: "attach_boot_disk (drive_io 0x1F0 0x3F6) boot_demo_drive = (r, d')" by fastforce
  with boot_disk_run [OF ok] boots have r: "r = Some (ata_device (boot_channel boot_demo_drive) (drive_size boot_demo_drive) d')"
    by (auto split: option.splits)
  have "latency d' = latency boot_demo_drive" "platter d' = platter boot_demo_drive"
    using drive_hardware.probe_keeps [of boot_demo_drive "platter boot_demo_drive" "identity boot_demo_drive"
        "latency boot_demo_drive" "0x1F0" "0x3F6" "\<lambda>_. 0" "0x3F6" False] run
    by (auto simp: attach_boot_disk_def Let_def split: prod.splits option.splits if_splits)
  then have "exact_inside (ata_device (boot_channel boot_demo_drive) (drive_size boot_demo_drive) d') (platter boot_demo_drive)"
    by (intro boot_device_inside [OF ok]) (simp_all add: boot_demo_identity)
  moreover have "sector_bytes (ata_device c n s) = 512" "sector_count (ata_device c n s) = n" for c :: "drive ata_channel" and n s
    by (simp_all add: ata_device_def)
  ultimately show thesis using that [OF run [unfolded r]] by (simp add: boot_demo_identity(4,5))
qed

lemma boot_demo_partitions:
  assumes "exact_inside d demo_drive_disk" "sector_bytes d = 512" "sector_count d = 13"
  obtains e where "partition_table_read d stale = (True, \<lparr>entries = [e], gpt = False\<rparr>)" "start_lba e = 1" "part_sectors e = 12"
proof -
  let ?mbr = "image_bytes demo_drive_disk 0 512"
  have "block_read d 0 1 = Some ?mbr" using block_read_inside [OF assms(1), of 0 1] assms(2,3) by simp
  moreover have "fill_sector ?mbr stale = ?mbr" by (simp add: fill_sector_def)
  moreover have "block_device_valid d" using assms(1) by (simp add: exact_inside_def)
  moreover have "partition_parse_mbr ?mbr 13 =
      (True, \<lparr>entries = [\<lparr>start_lba = 1, part_sectors = 12, part_type = 12, active = False\<rparr>], gpt = False\<rparr>)"
  proof -
    have nth: "k < 512 \<Longrightarrow> ?mbr ! k = demo_drive_disk k" for k
      by (simp add: image_bytes_def)
    have first: "mbr_entry ?mbr 0 = Some (0, 12, 1, 12)"
      by (simp add: mbr_entry_def reader_init_def)
        (simp add: reading_eval nth demo_drive_disk_def)
    have others: "mbr_entry ?mbr i = Some (0, 0, 0, 0)" if "i \<in> {1, 2, 3}" for i
      using that by (auto simp: mbr_entry_def reader_init_def)
        (simp_all add: reading_eval nth demo_drive_disk_def)
    have four: "[0..<4] = [0, 1, 2, 3 :: nat]" by code_simp
    have "demo_drive_disk 510 = 0x55" "demo_drive_disk 511 = 0xAA" by (simp_all add: demo_drive_disk_def)
    then show ?thesis
      by (simp add: partition_parse_mbr_def nth four first others add_entry_def checked_add_u64_def)
  qed
  ultimately show thesis
    using that [of "\<lparr>start_lba = 1, part_sectors = 12, part_type = 12, active = False\<rparr>"] assms(3)
    by (simp add: partition_table_read_def)
qed

lemma boot_demo_mount:
  assumes "exact_inside d demo_drive_disk" "sector_bytes d = 512" "sector_count d = 13"
  obtains v where "mount_boot_filesystem d g = Some v" "demo_disk_volume v"
proof -
  obtain e where table: "partition_table_read d (sector_garbage g) = (True, \<lparr>entries = [e], gpt = False\<rparr>)"
    and e: "start_lba e = 1" "part_sectors e = 12"
    by (rule boot_demo_partitions [OF assms])
  have "block_device_valid d" using assms(1) by (simp add: exact_inside_def)
  then obtain out where out: "partition_open d e = Some out"
    by (simp add: partition_open_def e assms(3) checked_add_u64_def Let_def)
  have "(\<lambda>a. demo_drive_disk (512 + a)) = kernel_demo_disk" by (simp add: demo_drive_disk_def)
  then have "demo_disk_device out"
    using partition_inside [OF assms(1) out] partition_openD [OF out] e assms(2) by (simp add: demo_disk_device_def)
  then obtain v where "fat_mount out (sector_garbage g) (replicate 512 0) = Some v" "demo_disk_volume v"
    by (rule demo_disk_mount)
  with that show thesis by (simp add: mount_boot_filesystem_def table out)
qed

definition boot_demo_config :: config where
  "boot_demo_config = \<lparr>timeout_seconds = 5, default_entry = [], config_entries =
     [\<lparr>entry_name = lit ''a'', kernel = lit ''a.txt'', cmdline = [], modules = [lit ''a.txt'']\<rparr>]\<rparr>"

lemma boot_demo_config: "config_parse demo_config_text = Inr boot_demo_config"
proof -
  have "parse_lines demo_config_text 0 0 (\<lparr>timeout_seconds = 5, default_entry = [], config_entries = []\<rparr>, None) =
    Inr (boot_demo_config, Some 0)"
    by code_simp
  moreover have "\<not> length demo_config_text > CONFIG_MAX_BYTES" by (simp add: demo_config_text_def)
  ultimately show ?thesis unfolding config_parse_def by (simp only: if_False sum.case prod.case) (simp add: boot_demo_config_def)
qed

text \<open>The configuration loads the kernel's file as a module first.\<close>

lemma boot_demo_configuration:
  assumes v: "demo_disk_volume (boot_volume l)" and a: "arena_allocate_aligned (loader_arena l) 123 0x1000 = Some (at, a)"
  obtains w m where "read_configuration g mg places l = Some (lit ''a.txt'' @ [0],
    \<lparr>boot_volume = w, loader_arena = a, memory_bytes_of = m, loaded_modules = loaded_modules l @
      [\<lparr>module_base = at, module_bytes = 123, module_path = module_path_at places 0\<rparr>]\<rparr>)" "demo_disk_volume w"
proof -
  let ?x = "(walk_garbage g)\<lparr>walk_valid := False\<rparr>"
  let ?f = "config_demo_file\<lparr>fat_file.walk := ?x\<rparr>"
  obtain w1 where op: "open_file g CONFIG_PATH (boot_volume l) = Some (?f, w1)" "demo_disk_volume w1"
    by (rule demo_disk_open [OF v])
  have f: "file_size config_demo_file = 28" "first_cluster config_demo_file = 5"
    by (simp_all add: config_demo_file_def demo_fat_file_def)
  obtain w2 f2 where "fat_read w1 ?f 0 28 = (Some (image_bytes kernel_demo_disk (unat (first_cluster ?f) * 512 + unat (0 :: u64)) (unat (28 :: usize))), w2, f2)"
    and w2: "demo_disk_volume w2"
    by (rule demo_disk_read [OF op(2), of ?x 0 28 ?f]) (auto simp: f)
  moreover have "image_bytes kernel_demo_disk 2560 28 = demo_config_text"
    by (simp add: image_bytes_def upt_rec kernel_demo_disk_def demo_config_text_def)
  ultimately have rd: "read_whole w1 ?f = Some (demo_config_text, w2)" by (simp add: read_whole_def f)
  let ?l = "l\<lparr>boot_volume := w2, memory_bytes_of := store_bytes (memory_bytes_of l) (command_line_at places) [0]\<rparr>"
  obtain w m where "load_module (mg 0) places 0 (lit ''a.txt'') ?l =
      Some \<lparr>boot_volume = w, loader_arena = a, memory_bytes_of = m, loaded_modules = loaded_modules ?l @
        [\<lparr>module_base = at, module_bytes = 123, module_path = module_path_at places 0\<rparr>]\<rparr>" and w: "demo_disk_volume w"
    by (rule demo_load_module [of ?l at a]) (use w2 a in simp_all)
  then have "read_configuration g mg places l = Some (lit ''a.txt'' @ [0],
      \<lparr>boot_volume = w, loader_arena = a, memory_bytes_of = m, loaded_modules = loaded_modules l @
        [\<lparr>module_base = at, module_bytes = 123, module_path = module_path_at places 0\<rparr>]\<rparr>)"
    using op(1) rd boot_demo_config
    by (simp add: read_configuration_def f boot_demo_config_def config_default_entry_def str_copy_cstr_def Let_def)
  then show thesis using w by (rule that)
qed

subsection \<open>The tables of a kernel that is loaded where it is linked\<close>

abbreviation (input) boot_demo_pages :: "u64 \<Rightarrow> page_tables" where
  "boot_demo_pages n \<equiv> \<lparr>pt_arena = \<lparr>base = 0x3FF00000, capacity = 0x100000, used = n\<rparr>, pt_root = 0x3FF01000, pt_huge_pages = True\<rparr>"

lemma boot_demo_identity_map:
  "\<exists>m'. paging_map (boot_demo_pages 0x2000) (memset 0x3FF01000 0 4096 m) 0 0 0x100000000 2 = (True, boot_demo_pages 0x3000, m')"
proof -
  have "\<exists>m'. map_pages (Suc (Suc (Suc (Suc n)))) (boot_demo_pages 0x2000) (memset 0x3FF01000 0 4096 m) 0 0 0x100000000 2 =
      (True, boot_demo_pages 0x3000, m')" for n
    by (simp add: map_pages.simps map_one_def level_for_def page_size_for_def descend_def allocate_table_def
        arena_allocate_aligned_def is_power_of_two_def checked_add_size_def checked_add_u64_def table_entry_def index_at_def
        load_stored load_page_zero Let_def)
  from this [of 1048572] show ?thesis
    by (simp add: paging_map_def checked_add_u64_def paging_address_is_canonical_def)
qed

lemma boot_demo_tables:
  "\<exists>pages m'. build_kernel_tables kernel_demo_image nx True \<lparr>base = 0x3FF00000, capacity = 0x100000, used = 123\<rparr> m =
    (Some pages, m')"
proof -
  have create: "paging_create \<lparr>base = 0x3FF00000, capacity = 0x100000, used = 123\<rparr> True m =
      Some (boot_demo_pages 0x2000, memset 0x3FF01000 0 4096 m)"
    by (simp add: paging_create_def allocate_table_def arena_allocate_aligned_def is_power_of_two_def checked_add_size_def
        checked_add_u64_def Let_def)
  obtain m' where "paging_map (boot_demo_pages 0x2000) (memset 0x3FF01000 0 4096 m) 0 0 0x100000000 2 =
      (True, boot_demo_pages 0x3000, m')" using boot_demo_identity_map by blast
  then show ?thesis
    by (simp add: build_kernel_tables_def create kernel_demo_image_def kernel_demo_segment_def)
qed

subsection \<open>The rest of the machine\<close>

text \<open>A gigabyte of memory, with the table that says so at 0x5000; no screen, no ACPI tables, no PCI devices.\<close>

definition boot_demo_row :: "u8 list" where
  "boot_demo_row = le_bytes 8 0 @ le_bytes 8 0x40000000 @ le_bytes 4 1 @ le_bytes 4 1"

definition boot_demo_ram :: mem where
  "boot_demo_ram = store_bytes (\<lambda>_. 0) 0x5000 boot_demo_row"

definition boot_demo_cpuid :: cpuid_query where
  "boot_demo_cpuid l sub =
     \<lparr>eax = (if l = LEAF_EXTENDED_MAX then LEAF_EXTENDED_FEATURE_BITS else 0), ebx = 0, ecx = 0,
      edx = (if l = LEAF_EXTENDED_FEATURE_BITS
             then EXTENDED_FEATURE_EDX_LONG_MODE OR EXTENDED_FEATURE_EDX_GBPAGES else 0)\<rparr>"

definition boot_demo_pci :: pci_config_read_fn where
  "boot_demo_pci b d f off = 0xFFFFFFFF"

abbreviation (input) boot_demo_firmware :: "mem fw_ops" where
  "boot_demo_firmware \<equiv> fw_bios_init 0x80 1 0x5000 0"

lemma boot_demo_features:
  "long_mode (cpu_features_detect boot_demo_cpuid)" "gigabyte_pages (cpu_features_detect boot_demo_cpuid)"
  by (simp_all add: cpu_features_detect_def extended_features_def basic_features_def structured_features_def
      boot_demo_cpuid_def Let_def)

lemma boot_demo_memory: "e820_parse boot_demo_ram 0x5000 1 = (True, demo_usable_memory)"
proof -
  have "load_bytes boot_demo_ram 0x5000 24 = boot_demo_row"
    using load_store_bytes [of boot_demo_row] by (simp add: boot_demo_ram_def boot_demo_row_def)
  then have table: "e820_table boot_demo_ram 0x5000 1 = [(0, 0x40000000, MEMORY_KIND_USABLE)]"
    by (simp add: e820_table_def boot_demo_row_def le64_def le32_def little_endian_append little_endian_le_bytes e820_meaning_def kind_or_reserved_def
        take_bit_word_eq_self)
  have final: "memory_map_finalize (add_entries [(0, 0x40000000, MEMORY_KIND_USABLE)] memory_map_clear) = demo_usable_memory"
    by (simp add: finalize_run_defs demo_usable_memory_def)
  have "memory_map_total demo_usable_memory MEMORY_KIND_USABLE > 0"
    by (simp add: memory_map_total_def demo_usable_memory_def)
  then show ?thesis
    using e820_parse_table [of "0x5000" 1 1 boot_demo_ram] by (simp add: table final del: One_nat_def)
qed

lemma boot_demo_zero: "0x6000 \<le> unat a \<or> unat a < 0x5000 \<Longrightarrow> boot_demo_ram a = 0"
  using in_range_nat [of "0x5000" 24 a]
  by (auto simp: boot_demo_ram_def boot_demo_row_def intro!: trans [OF store_bytes_outside])

lemma boot_demo_no_rsdp: "bios_rsdp_locate boot_demo_ram = Some (0, boot_demo_ram)"
proof -
  have none: "\<not> acpi_rsdp_valid boot_demo_ram c" if "0x6000 \<le> unat c" for c
  proof -
    have "load_bytes boot_demo_ram c 8 ! 0 = 0" using boot_demo_zero that by (simp add: load_bytes_def)
    moreover have "ACPI_RSDP_SIGNATURE ! 0 = 82" by (simp add: ACPI_RSDP_SIGNATURE_def)
    ultimately have "load_bytes boot_demo_ram c 8 \<noteq> ACPI_RSDP_SIGNATURE" by force
    then have "memcmp_bytes (load_bytes boot_demo_ram c 8) ACPI_RSDP_SIGNATURE 8 \<noteq> 0"
      by (subst memcmp_bytes_0) (simp_all add: ACPI_RSDP_SIGNATURE_def)
    then show ?thesis by (simp add: acpi_rsdp_valid_def)
  qed
  have "find (acpi_rsdp_valid boot_demo_ram) (map (\<lambda>k. 0xE0000 + of_nat (16 * k)) [0..<Suc (0x1FFEC div 16)]) = None"
  proof -
    have "0x6000 \<le> unat ((0xE0000 :: u64) + of_nat (16 * k))" if "k < Suc (0x1FFEC div 16)" for k
    proof -
      have "unat (of_nat (16 * k) :: u64) = 16 * k" using that by (intro unat_of_nat64) simp
      then show ?thesis using that by (subst unat_add_fits) simp_all
    qed
    then show ?thesis using none by (auto simp: find_None_iff)
  qed
  then have "acpi_find_rsdp boot_demo_ram 0xE0000 0x20000 = Some 0"
    using scan_rsdp_first [of 0 0 "0x1FFEC" boot_demo_ram "0xE0000"] by (simp add: acpi_find_rsdp_def)
  then show ?thesis by (simp add: bios_rsdp_locate_def boot_demo_zero Let_def)
qed

lemma boot_demo_arena:
  "place_arena demo_usable_memory = Some \<lparr>base = 0x3FF00000, capacity = 0x100000, used = 0\<rparr>"
  "arena_allocate_aligned \<lparr>base = 0x3FF00000, capacity = 0x100000, used = 0\<rparr> 123 0x1000 =
    Some (0x3FF00000, \<lparr>base = 0x3FF00000, capacity = 0x100000, used = 123\<rparr>)"
  by (simp_all add: place_arena_def demo_usable_memory_def memory_map_find_free_high_def high_in_region_def region_end_def
      arena_init_def arena_allocate_aligned_def is_power_of_two_def checked_add_size_def checked_add_u64_def Let_def)

lemma boot_demo_devices: "\<exists>out. pci_enumerate boot_demo_pci = Some (length (devices out), out)"
  using pci_enumerate_run by blast

end
