(* ===== verification/Boot.thy ===== *)
theory Boot
  imports Boot_Disk Boot_Screen Boot_Memory Boot_Tables Boot_Files Boot_Demo Protocol
begin

text \<open>
  \<open>boot_core\<close> of \<open>src/boot/main.c\<close>: from the first line of the log to the jump into the kernel. The state \<open>'s\<close> is what
  lies behind the firmware, with the memory in it; what the functions log is left out, also where the log goes to the
  screen.
\<close>

subsection \<open>The machine\<close>

text \<open>The tables if they could be believed, and the processors, which are none unless they could be read.\<close>

definition describe_machine ::
  "'s machine \<Rightarrow> 's fw_ops option \<Rightarrow> 's \<Rightarrow> (acpi_tables option \<times> acpi_processor_table \<times> 's) option" where
  "describe_machine M fw s =
     (let none = \<lparr>processors = [], local_apic_address = 0, processors_truncated = False\<rparr>
      in do { (root_pointer, s) \<leftarrow> fw_rsdp_locate fw s;
              (if root_pointer = 0 then Some (None, none, s)
               else case acpi_collect (ram M s) root_pointer acpi_identity_map of
                   (False, acpi) \<Rightarrow> Some (None, none, s)
                 | (True, acpi) \<Rightarrow>
                     do { (found, ps) \<leftarrow> acpi_processors (ram M s) acpi;
                          Some (Some acpi, ps, s) }) })"

definition describe_devices :: "pci_config_read_fn \<Rightarrow> pci_devices option" where
  "describe_devices config_read = map_option snd (pci_enumerate config_read)"

subsection \<open>Answering the kernel\<close>

definition kernel_facts ::
  "elf_image \<Rightarrow> memory_map \<Rightarrow> u64 \<Rightarrow> framebuffer option \<Rightarrow> acpi_tables option \<Rightarrow> acpi_processor_table \<Rightarrow> boot_module list \<Rightarrow>
   boot_facts" where
  "kernel_facts img memory command_line screen acpi ps brought =
     \<lparr>facts_memory = Some memory, kernel_physical_base = lowest_address img,
      kernel_virtual_base = virtual_address (hd (segments img)), facts_command_line = command_line, facts_screen = screen,
      facts_rsdp = (case acpi of None \<Rightarrow> 0 | Some ts \<Rightarrow> rsdp ts),
      facts_processors = (if length (processors ps) > 0 then Some ps else None),
      facts_modules = brought\<rparr>"

definition answer_kernel_requests ::
  "loader_strings \<Rightarrow> elf_image \<Rightarrow> boot_facts \<Rightarrow> arena \<times> mem \<Rightarrow> (nat \<times> arena \<times> mem) option option" where
  "answer_kernel_requests strings img facts =
     protocol_answer strings (lowest_address img) (highest_address img - lowest_address img) facts"

subsection \<open>From the first line to the kernel\<close>

text \<open>What the code takes from outside its state: addresses of static data, bytes of buffers before they are written, and
  the configuration space.\<close>

record surroundings =
  loader_text :: loader_strings
  statics :: static_places
  mount_garbage :: stack_garbage
  config_garbage :: stack_garbage
  module_garbage :: "nat \<Rightarrow> stack_garbage"
  kernel_garbage :: stack_garbage
  config_read :: pci_config_read_fn

text \<open>Why the core returned.\<close>

datatype refusal =
    No_Long_Mode | No_Usable_Memory | No_Arena | No_Boot_Disk | No_Filesystem | No_Configuration | No_Kernel
  | No_Answers | No_Tables

text \<open>What the kernel is entered with, and what it was made from.\<close>

record handoff =
  entry_point :: u64
  kernel_tables :: page_tables
  kernel_image :: elf_image
  firmware_map :: memory_map
  kernel_map :: memory_map
  arena_base :: u64
  given_facts :: boot_facts
  features :: cpu_features
  found_devices :: pci_devices

text \<open>The part that needs the disk, from the mounted volume and the arena on.\<close>

definition enter_kernel ::
  "surroundings \<Rightarrow> cpu_features \<Rightarrow> memory_map \<Rightarrow> framebuffer option \<Rightarrow> acpi_tables option \<Rightarrow> acpi_processor_table \<Rightarrow>
   pci_devices \<Rightarrow> loader \<Rightarrow> (refusal + handoff \<times> mem) option" where
  "enter_kernel S feats memory screen acpi ps found l =
     (case read_configuration (config_garbage S) (module_garbage S) (statics S) l of
        None \<Rightarrow> Some (Inl No_Configuration)
      | Some (kernel_path, l') \<Rightarrow>
          (case load_kernel (kernel_garbage S) memory kernel_path l' of
             None \<Rightarrow> Some (Inl No_Kernel)
           | Some (entry, img, l') \<Rightarrow>
               (let claimed = claim_loader_memory memory (base (loader_arena l)) img;
                    facts = kernel_facts img claimed (command_line_at (statics S)) screen acpi ps (loaded_modules l')
                in do { answered \<leftarrow> answer_kernel_requests (loader_text S) img facts (loader_arena l', memory_bytes_of l');
                        Some (case answered of
                          None \<Rightarrow> Inl No_Answers
                        | Some (n, a, m) \<Rightarrow>
                            (case build_kernel_tables img (no_execute feats) (gigabyte_pages feats) a m of
                               (None, m) \<Rightarrow> Inl No_Tables
                             | (Some pages, m) \<Rightarrow>
                                 Inr (\<lparr>entry_point = entry, kernel_tables = pages, kernel_image = img, firmware_map = memory,
                                       kernel_map = claimed, arena_base = base (loader_arena l), given_facts = facts,
                                       features = feats, found_devices = found\<rparr>, m))) })))"

definition boot_core ::
  "'s machine \<Rightarrow> surroundings \<Rightarrow> 's fw_ops option \<Rightarrow> 's \<Rightarrow> (refusal + handoff \<times> 's) option" where
  "boot_core M S fw s =
     (let feats = cpu_features_detect (cpuid_execute M)
      in if \<not> long_mode feats then Some (Inl No_Long_Mode)
         else do {
           ((described, memory), s) \<leftarrow> fw_mem_snapshot fw memory_map_clear s;
           (if \<not> described then Some (Inl No_Usable_Memory)
            else do {
              (screen, screen_terminal, s) \<leftarrow> acquire_screen M fw s;
              (acpi, ps, s) \<leftarrow> describe_machine M fw s;
              found \<leftarrow> describe_devices (config_read S);
              (case place_arena memory of
                 None \<Rightarrow> Some (Inl No_Arena)
               | Some a \<Rightarrow>
                   (case attach_boot_disk (ata_ports M) s of
                      (None, s) \<Rightarrow> Some (Inl No_Boot_Disk)
                    | (Some boot_disk, s) \<Rightarrow>
                        (case mount_boot_filesystem boot_disk (mount_garbage S) of
                           None \<Rightarrow> Some (Inl No_Filesystem)
                         | Some volume \<Rightarrow>
                             do { outcome \<leftarrow> enter_kernel S feats memory screen acpi ps found
                                    \<lparr>boot_volume = volume, loader_arena = a, memory_bytes_of = ram M s, loaded_modules = []\<rparr>;
                                  Some (case outcome of Inl why \<Rightarrow> Inl why
                                        | Inr (h, m) \<Rightarrow> Inr (h, put_ram M m s)) }))) }) })"

subsection \<open>The arena through the boot\<close>

text \<open>What every allocation keeps.\<close>

definition same_arena :: "arena \<Rightarrow> arena \<Rightarrow> bool" where
  "same_arena a b \<longleftrightarrow> base b = base a \<and> capacity b = capacity a \<and> (arena_wf a \<longrightarrow> arena_wf b)"

lemma same_arena_refl [simp]: "same_arena a a"
  by (simp add: same_arena_def)

lemma same_arena_trans: "same_arena a b \<Longrightarrow> same_arena b c \<Longrightarrow> same_arena a c"
  by (simp add: same_arena_def)

lemma same_arena_aligned: "arena_allocate_aligned a n k = Some (p, b) \<Longrightarrow> same_arena a b"
  by (cases "arena_wf a")
    (simp_all add: same_arena_def arena_allocate_aligned_Some, auto simp: arena_allocate_aligned_def opt_bind Let_def)

lemma same_arena_allocate:
  "arena_allocate a n = Some (p, b) \<Longrightarrow> same_arena a b"
  "arena_allocate_zeroed a n m = Some (p, b, m') \<Longrightarrow> same_arena a b"
  "arena_allocate_array a k n = Some (p, b) \<Longrightarrow> same_arena a b"
  by (auto simp: arena_allocate_zeroed_def arena_allocate_array_def arena_allocate_def opt_bind intro: same_arena_aligned)

lemma answer_arena: "answer str r facts s = Some t \<Longrightarrow> same_arena (fst s) (fst t)"
  by (cases s; cases t)
    (auto simp: answer_def answer_memory_map_def answer_kernel_address_def answer_command_line_def answer_loader_info_def
      answer_framebuffer_def answer_acpi_def answer_processors_def answer_modules_def opt_bind Let_def
      dest!: same_arena_allocate dest: same_arena_trans split: if_splits option.splits)

lemma scan_requests_arena:
  "scan_requests str start facts final off n s = Some res \<Longrightarrow> res = Some (k, t) \<longrightarrow> same_arena (fst s) (fst t)"
proof (rule scan_requests.raw_induct
    [where P = "\<lambda>str start facts final off n s res. res = Some (k, t) \<longrightarrow> same_arena (fst s) (fst t)"], goal_cases)
  case (1 loop str start facts final off n s res)
  have IH: "loop str start facts final off' n' u = Some (Some (k, t)) \<Longrightarrow> same_arena (fst u) (fst t)" for off' n' u
    using 1(2) by blast
  show ?case
  proof (cases "answer str (start + off) facts s")
    case None
    then show ?thesis using 1(3) IH [of _ _ s] by (simp add: Let_def split: if_splits) (auto dest: IH)
  next
    case (Some u)
    then have "same_arena (fst s) (fst u)" by (rule answer_arena)
    then show ?thesis using 1(3) Some IH [of _ _ s] IH [of _ _ u]
      by (simp add: Let_def split: if_splits) (blast intro: same_arena_trans | auto)+
  qed
qed

lemma answer_requests_arena:
  "answer_kernel_requests str img facts (a, m) = Some (Some (n, b, m')) \<Longrightarrow> same_arena a b"
  using scan_requests_arena [of str "lowest_address img" facts _ _ _ "(a, m)" "Some (n, b, m')" n "(b, m')"]
  by (auto simp: answer_kernel_requests_def protocol_answer_def split: if_splits)

lemma load_modules_arena:
  "load_modules g places i txs l = Some l' \<Longrightarrow> same_arena (loader_arena l) (loader_arena l')"
proof (induction txs arbitrary: i l)
  case (Cons tx txs)
  then obtain l1 where one: "load_module (g i) places i tx l = Some l1" and rest: "load_modules g places (Suc i) txs l1 = Some l'"
    by (auto simp: opt_bind)
  from one have "same_arena (loader_arena l) (loader_arena l1)"
    by (auto simp: load_module_def opt_bind Let_def intro: same_arena_aligned)
  with Cons.IH [OF rest] show ?case by (rule same_arena_trans [rotated])
qed simp

lemma read_configuration_arena:
  "read_configuration g mg places l = Some (path, l') \<Longrightarrow> same_arena (loader_arena l) (loader_arena l')"
  by (cases "config_parse (fst (the (read_whole (snd (the (open_file g CONFIG_PATH (boot_volume l))))
      (fst (the (open_file g CONFIG_PATH (boot_volume l)))))))")
    (auto simp: read_configuration_def opt_bind Let_def dest!: load_modules_arena)

subsection \<open>What the kernel is entered with\<close>

definition kernel_entered :: "handoff \<Rightarrow> mem \<Rightarrow> bool" where
  "kernel_entered h m \<longleftrightarrow>
     (let img = kernel_image h; low = unat (lowest_address img); high = unat (highest_address img);
          taken = arena_bytes (arena_base h) \<union> kernel_bytes img
      in long_mode (features h) \<and>
         entry_point h = entry_address img \<and> entry_point h \<noteq> 0 \<and> image_wf img \<and> segments img \<noteq> [] \<and>
         2 ^ 20 \<le> low \<and> low < high \<and> high \<le> 2 ^ 32 \<and> usable_run (regions (firmware_map h)) low (high - low) \<and>
         arena_place (firmware_map h) (unat (arena_base h)) \<and>
         canonical (regions (kernel_map h)) \<and>
         (126 < length (regions (firmware_map h)) \<or>
          (\<forall>x \<in> taken. claim (regions (kernel_map h)) x \<noteq> Some MEMORY_KIND_USABLE)) \<and>
         (if truncated (kernel_map h) then truncated (firmware_map h) \<or> 62 < length (regions (firmware_map h))
          else \<forall>x. if x \<in> taken then claim (regions (kernel_map h)) x \<notin> {None, Some MEMORY_KIND_USABLE}
               else claim (regions (kernel_map h)) x = claim (regions (firmware_map h)) x) \<and>
         (\<forall>x. unat x < 2 ^ 32 \<longrightarrow>
            (\<exists>g. paging_translate (kernel_tables h) m x = Some (x, g) \<and> g AND PAGE_WRITABLE \<noteq> 0)) \<and>
         list_all (segment_reached (no_execute (features h)) (kernel_tables h) m) (segments img))"

lemma place_arena_Some:
  assumes "place_arena mm = Some a" "map_in_order mm"
  shows "arena_place mm (unat (base a))" "arena_wf a" "capacity a = 2 ^ 20" "unat (base a) + 2 ^ 20 \<le> 2 ^ 30"
  using place_arena_run [of mm] assms by (simp_all add: map_in_order_def arena_place_def)

lemma identity_mapped:
  assumes "mapped_to (paging_translate pages m x) x (0, 0, 0x100000000, PAGE_WRITABLE)"
  shows "\<exists>g. paging_translate pages m x = Some (x, g) \<and> g AND PAGE_WRITABLE \<noteq> 0"
proof -
  from assms obtain g where g: "paging_translate pages m x = Some (x, g)" "g AND NOT 0x80 = PAGE_WRITABLE OR 1"
    by (auto simp: mapped_to_def split: option.splits)
  have "g AND PAGE_WRITABLE = PAGE_WRITABLE AND PAGE_WRITABLE" by (rule flag_of_mapped [OF g(2)]) simp
  with g(1) show ?thesis by simp
qed

text \<open>The steps of a core that enters a kernel.\<close>

lemma enter_kernel_steps:
  assumes run: "enter_kernel S feats memory screen acpi ps found l = Some (Inr (h, m))"
  obtains path l1 entry img l2 n b m1 pages where
    "read_configuration (config_garbage S) (module_garbage S) (statics S) l = Some (path, l1)"
    "load_kernel (kernel_garbage S) memory path l1 = Some (entry, img, l2)"
    "answer_kernel_requests (loader_text S) img (kernel_facts img (claim_loader_memory memory (base (loader_arena l)) img)
       (command_line_at (statics S)) screen acpi ps (loaded_modules l2)) (loader_arena l2, memory_bytes_of l2) = Some (Some (n, b, m1))"
    "build_kernel_tables img (no_execute feats) (gigabyte_pages feats) b m1 = (Some pages, m)"
    "h = \<lparr>entry_point = entry, kernel_tables = pages, kernel_image = img, firmware_map = memory,
       kernel_map = claim_loader_memory memory (base (loader_arena l)) img, arena_base = base (loader_arena l),
       given_facts = kernel_facts img (claim_loader_memory memory (base (loader_arena l)) img)
         (command_line_at (statics S)) screen acpi ps (loaded_modules l2), features = feats, found_devices = found\<rparr>"
proof -
  obtain path l1 where conf: "read_configuration (config_garbage S) (module_garbage S) (statics S) l = Some (path, l1)"
    using run by (auto simp: enter_kernel_def split: option.splits)
  obtain entry img l2 where ker: "load_kernel (kernel_garbage S) memory path l1 = Some (entry, img, l2)"
    using run conf by (auto simp: enter_kernel_def split: option.splits)
  let ?facts = "kernel_facts img (claim_loader_memory memory (base (loader_arena l)) img) (command_line_at (statics S)) screen acpi ps
    (loaded_modules l2)"
  obtain n b m1 where ans: "answer_kernel_requests (loader_text S) img ?facts (loader_arena l2, memory_bytes_of l2) = Some (Some (n, b, m1))"
    and "(case build_kernel_tables img (no_execute feats) (gigabyte_pages feats) b m1 of
        (None, m) \<Rightarrow> Inl No_Tables
      | (Some pages, m) \<Rightarrow> Inr (\<lparr>entry_point = entry, kernel_tables = pages, kernel_image = img, firmware_map = memory,
          kernel_map = claim_loader_memory memory (base (loader_arena l)) img, arena_base = base (loader_arena l),
          given_facts = ?facts, features = feats, found_devices = found\<rparr>, m)) = Inr (h, m)"
    using run conf ker by (auto simp: enter_kernel_def Let_def opt_bind split: option.splits)
  then show thesis
    using that [OF conf ker ans] by (auto split: prod.splits option.splits)
qed

lemma enter_kernel_entered:
  assumes run: "enter_kernel S feats memory screen acpi ps found l = Some (Inr (h, m))"
    and order: "map_in_order memory" and a: "place_arena memory = Some (loader_arena l)" and "long_mode feats"
  shows "kernel_entered h m"
proof -
  let ?claimed = "\<lambda>img. claim_loader_memory memory (base (loader_arena l)) img"
  let ?facts = "\<lambda>img l2. kernel_facts img (?claimed img) (command_line_at (statics S)) screen acpi ps (loaded_modules l2)"
  obtain path l1 entry img l2 n b m1 pages where
    conf: "read_configuration (config_garbage S) (module_garbage S) (statics S) l = Some (path, l1)"
    and ker: "load_kernel (kernel_garbage S) memory path l1 = Some (entry, img, l2)"
    and ans: "answer_kernel_requests (loader_text S) img (?facts img l2) (loader_arena l2, memory_bytes_of l2) = Some (Some (n, b, m1))"
    and tab: "build_kernel_tables img (no_execute feats) (gigabyte_pages feats) b m1 = (Some pages, m)"
    and h: "h = \<lparr>entry_point = entry, kernel_tables = pages, kernel_image = img, firmware_map = memory,
       kernel_map = ?claimed img, arena_base = base (loader_arena l), given_facts = ?facts img l2, features = feats, found_devices = found\<rparr>"
    by (rule enter_kernel_steps [OF run])
  note A = place_arena_Some [OF a order]
  obtain f w k where K: "l2 = l1\<lparr>boot_volume := w, memory_bytes_of := k\<rparr>" "entry = entry_address img" "entry \<noteq> 0"
    "image_wf img" "segments img \<noteq> []" "2 ^ 20 \<le> unat (lowest_address img)" "unat (highest_address img) \<le> 2 ^ 32"
    "lowest_address img < highest_address img"
    "usable_run (regions memory) (unat (lowest_address img)) (unat (highest_address img) - unat (lowest_address img))"
    by (rule load_kernel_checked [OF ker]) (use order in \<open>auto simp: map_in_order_def\<close>)
  have "same_arena (loader_arena l) b"
    using read_configuration_arena [OF conf] answer_requests_arena [OF ans] K(1) by (auto intro: same_arena_trans)
  then have B: "arena_wf b" "unat (base b) + unat (capacity b) \<le> 2 ^ 52" using A by (simp_all add: same_arena_def)
  have high: "highest_address img \<le> 0x100000000" using K(7) by (simp add: word_le_nat_alt)
  have fits: "unat (base (loader_arena l)) + 2 ^ 20 < 2 ^ 64" using A(4) by simp
  have claimed: "canonical (regions (?claimed img)) \<and> (if truncated (?claimed img) then truncated memory \<or> 62 < length (regions memory)
      else \<forall>x. if x \<in> arena_bytes (base (loader_arena l)) \<union> kernel_bytes img
              then claim (regions (?claimed img)) x \<notin> {None, Some MEMORY_KIND_USABLE}
              else claim (regions (?claimed img)) x = claim (regions memory) x)"
  proof -
    note run = claimed_memory_run [OF map_in_order_wf [OF order] fits K(8)]
    have "truncated (?claimed img) \<Longrightarrow> truncated memory \<or> 62 < length (regions memory)"
      using claimed_complete [OF map_in_order_wf [OF order]] by (meson not_le)
    with run [THEN conjunct1] have "truncated (?claimed img) \<Longrightarrow> ?thesis" by simp
    moreover have ?thesis if "\<not> truncated (?claimed img)"
      using run unfolding if_not_P [OF that] .
    ultimately show ?thesis by blast
  qed
  have never: "126 < length (regions memory) \<or> (\<forall>x \<in> arena_bytes (base (loader_arena l)) \<union> kernel_bytes img.
      claim (regions (?claimed img)) x \<noteq> Some MEMORY_KIND_USABLE)"
    using claimed_never_usable [OF map_in_order_wf [OF order] _ fits K(8)] not_le by blast
  have "(0, 0, 0x100000000, PAGE_WRITABLE) \<in> set (kernel_mappings (no_execute feats) img)"
    by (simp add: kernel_mappings_def Let_def)
  then have "\<exists>g. paging_translate pages m x = Some (x, g) \<and> g AND PAGE_WRITABLE \<noteq> 0" if "unat x < 2 ^ 32" for x
    using build_kernel_tables_spec(2) [OF B K(4,5) high tab _, of "(0, 0, 0x100000000, PAGE_WRITABLE)" x] that
    by (intro identity_mapped) (simp add: covers_def)
  moreover have "list_all (segment_reached (no_execute feats) pages m) (segments img)"
    unfolding list_all_iff segment_reached_def using kernel_segment_run [OF B K(4) high tab] by blast
  moreover have "unat (lowest_address img) < unat (highest_address img)" using K(8) by (simp add: word_less_nat_alt)
  ultimately show ?thesis
    using K A(1) assms(4) unfolding kernel_entered_def Let_def h handoff.simps
    by (intro conjI never claimed [THEN conjunct1] claimed [THEN conjunct2]) simp_all
qed

text \<open>The steps of a core that reaches the kernel.\<close>

lemma boot_core_steps:
  assumes "boot_core M S fw s = Some (Inr (h, s'))"
  obtains memory s1 screen t s2 acpi ps s3 found a boot_disk s4 volume m where
    "long_mode (cpu_features_detect (cpuid_execute M))"
    "fw_mem_snapshot fw memory_map_clear s = Some ((True, memory), s1)" "acquire_screen M fw s1 = Some (screen, t, s2)"
    "describe_machine M fw s2 = Some (acpi, ps, s3)" "describe_devices (config_read S) = Some found"
    "place_arena memory = Some a" "attach_boot_disk (ata_ports M) s3 = (Some boot_disk, s4)"
    "mount_boot_filesystem boot_disk (mount_garbage S) = Some volume"
    "enter_kernel S (cpu_features_detect (cpuid_execute M)) memory screen acpi ps found
      \<lparr>boot_volume = volume, loader_arena = a, memory_bytes_of = ram M s4, loaded_modules = []\<rparr> = Some (Inr (h, m))"
    "s' = put_ram M m s4"
proof -
  let ?feats = "cpu_features_detect (cpuid_execute M)"
  have long: "long_mode ?feats" using assms by (auto simp: boot_core_def Let_def split: if_splits)
  obtain memory s1 where snap: "fw_mem_snapshot fw memory_map_clear s = Some ((True, memory), s1)"
    using assms long by (auto simp: boot_core_def opt_bind split: if_splits)
  obtain screen t acpi ps s2 s3 found where seen: "acquire_screen M fw s1 = Some (screen, t, s2)"
    "describe_machine M fw s2 = Some (acpi, ps, s3)" "describe_devices (config_read S) = Some found"
    using assms long snap by (auto simp: boot_core_def opt_bind)
  obtain a where a: "place_arena memory = Some a"
    using assms long snap seen by (auto simp: boot_core_def split: option.splits)
  obtain boot_disk s4 where disk: "attach_boot_disk (ata_ports M) s3 = (Some boot_disk, s4)"
    using assms long snap seen a by (auto simp: boot_core_def split: option.splits prod.splits)
  obtain volume where vol: "mount_boot_filesystem boot_disk (mount_garbage S) = Some volume"
    using assms long snap seen a disk by (auto simp: boot_core_def split: option.splits)
  let ?l = "\<lparr>boot_volume = volume, loader_arena = a, memory_bytes_of = ram M s4, loaded_modules = []\<rparr>"
  obtain out where out: "enter_kernel S ?feats memory screen acpi ps found ?l = Some out"
    using assms long snap seen a disk vol by (auto simp: boot_core_def opt_bind)
  then obtain m where "out = Inr (h, m)" "s' = put_ram M m s4"
    using assms long snap seen a disk vol by (cases out) (auto simp: boot_core_def)
  with out that [OF long snap seen a disk vol] show thesis by simp
qed

text \<open>A machine whose firmware describes its memory in order.\<close>

locale booted_machine = described_memory fw + memory_of_state M
  for fw :: "'s fw_ops option" and M :: "'s machine"
begin

lemma core_enters:
  assumes "boot_core M S fw s = Some (Inr (h, s'))"
  shows "kernel_entered h (ram M s')"
  by (rule boot_core_steps [OF assms], hypsubst, subst ram_put, rule enter_kernel_entered)
    (auto intro: described)

end

interpretation bios_boot: booted_machine "map_option beside_hardware (Some (fw_bios_init d n buffer mode_info))"
  "bios_machine io query" for d n buffer mode_info io query
  by unfold_locales

interpretation uefi_boot: booted_machine "map_option fst (fw_uefi_init map_at img table)" "uefi_machine ports query"
  for map_at img table ports query
  by unfold_locales

subsection \<open>The two entries\<close>

text \<open>
  \<open>boot_main\<close> of \<open>src/boot/bios_entry.c\<close> and \<open>efi_main\<close> of \<open>src/boot/uefi_entry.c\<close>, without the serial port and the stack
  guard: what the core makes of the backend, or the status \<open>efi_main\<close> returns where there is none. The address of the
  buffer for the map of the firmware is a parameter.
\<close>

abbreviation (input) EFI_INVALID_PARAMETER :: efi_status where "EFI_INVALID_PARAMETER \<equiv> 0x8000000000000002"

definition boot_main ::
  "'h ata_io \<Rightarrow> cpuid_query \<Rightarrow> surroundings \<Rightarrow> u8 \<Rightarrow> u32 \<Rightarrow> u64 \<Rightarrow> u64 \<Rightarrow> mem \<times> 'h \<Rightarrow>
   (refusal + handoff \<times> mem \<times> 'h) option" where
  "boot_main io query S boot_drive n buffer mode_info =
     boot_core (bios_machine io query) S (Some (beside_hardware (fw_bios_init boot_drive n buffer mode_info)))"

definition efi_main ::
  "(fw_uefi \<times> 's \<times> mem) ata_io \<Rightarrow> cpuid_query \<Rightarrow> surroundings \<Rightarrow> u64 \<Rightarrow> u64 \<Rightarrow> 's efi_system_table option \<Rightarrow> 's \<times> mem \<Rightarrow>
   efi_status + (refusal + handoff \<times> fw_uefi \<times> 's \<times> mem) option" where
  "efi_main ports query S map_at img system s =
     (case fw_uefi_init map_at img system of
        None \<Rightarrow> Inl EFI_INVALID_PARAMETER
      | Some (fw, firmware) \<Rightarrow> Inr (boot_core (uefi_machine ports query) S (Some fw) (firmware, s)))"

lemma boot_main_enters:
  assumes "boot_main io query S boot_drive n buffer mode_info s = Some (Inr (h, m, hardware))"
  shows "kernel_entered h m"
proof -
  have ram: "ram (bios_machine io query) (m, hardware) = m" by (simp add: bios_machine_def)
  show ?thesis
    using bios_boot.core_enters [of io query S boot_drive n buffer mode_info s h "(m, hardware)"] assms by (simp add: boot_main_def ram)
qed

lemma efi_main_enters:
  assumes "efi_main ports query S map_at img system s = Inr (Some (Inr (h, firmware, t, m)))"
  shows "kernel_entered h m"
proof -
  have ram: "ram (uefi_machine ports query) (firmware, t, m) = m" by (simp add: uefi_machine_def)
  from assms obtain fw self where "fw_uefi_init map_at img system = Some (fw, self)"
    "boot_core (uefi_machine ports query) S (Some fw) (self, s) = Some (Inr (h, firmware, t, m))"
    by (auto simp: efi_main_def split: option.splits)
  then show ?thesis
    using uefi_boot.core_enters [of ports query S map_at img system "(self, s)" h "(firmware, t, m)"] by (simp add: ram)
qed

text \<open>
  C1. Whenever the core jumps into a kernel, on either firmware and whatever the hardware, the firmware and the disk have
  answered: the processor has long mode; the kernel lies between one megabyte and four gigabytes in one run of memory the
  firmware called usable; the arena is the page-aligned megabyte it should be. The map the kernel is handed is in order and
  has no byte of either as usable memory, unless the firmware's map had more than 126 regions, when the claims may not
  have been added. Apart from them it is the map of the firmware, unless it is marked truncated, which it is only when the
  firmware's map was or had more than 62 regions. The tables the kernel runs on reach every byte below four gigabytes at
  its own address, writable, so that the loader and its arena stay reachable, and every byte of every segment at the
  address it was linked for, shifted when its two addresses lie at different offsets in their pages. A segment linked
  elsewhere than it is loaded has the permissions of its header, as far as the processor can refuse to execute; one
  linked where it is loaded is writable and executable whatever its header says.
\<close>

theorem boot_core_enters_kernel:
  "(case boot_main io query S boot_drive n buffer mode_info s of
      Some (Inr (h, m, hardware)) \<Rightarrow> kernel_entered h m
    | _ \<Rightarrow> True) \<and>
   (case efi_main ports query S map_at img system t of
      Inr (Some (Inr (h, firmware, t', m))) \<Rightarrow> kernel_entered h m
    | _ \<Rightarrow> True)"
proof
  show "case boot_main io query S boot_drive n buffer mode_info s of
      Some (Inr (h, m, hardware)) \<Rightarrow> kernel_entered h m | _ \<Rightarrow> True"
    by (auto split: option.split sum.split prod.split intro: boot_main_enters)
  show "case efi_main ports query S map_at img system t of
      Inr (Some (Inr (h, firmware, t', m))) \<Rightarrow> kernel_entered h m | _ \<Rightarrow> True"
    by (auto split: option.split sum.split prod.split intro: efi_main_enters)
qed

subsection \<open>A machine that boots\<close>

lemma attach_boot_disk_beside:
  "attach_boot_disk (beside_memory io) (m, h) = apsnd (Pair m) (attach_boot_disk io h)"
proof -
  obtain r h' where probe: "ata_probe io 0x1F0 0x3F6 False h = (r, h')" by fastforce
  have dev: "ata_device (channel_beside c) n (m, h') = ata_device c n h'" for c n
    by (simp add: ata_device_def ata_read_sectors_beside)
  show ?thesis
  proof (cases r)
    case None
    then show ?thesis by (simp add: attach_boot_disk_def ata_probe_beside probe)
  next
    case (Some cn)
    obtain c n where "cn = (c, n)" by fastforce
    with Some show ?thesis
      by (cases "block_read (ata_device c n h') 0 1")
        (simp_all add: attach_boot_disk_def ata_probe_beside probe dev Let_def)
  qed
qed

definition boot_demo_surroundings :: surroundings where
  "boot_demo_surroundings = \<lparr>loader_text = \<lparr>EMPTY_COMMAND_LINE = 0x7100, LOADER_NAME = 0x7110, LOADER_VERSION = 0x7120\<rparr>,
     statics = demo_places, mount_garbage = demo_garbage, config_garbage = demo_garbage, module_garbage = (\<lambda>_. demo_garbage),
     kernel_garbage = demo_garbage, config_read = boot_demo_pci\<rparr>"

abbreviation (input) boot_demo_machine :: "(mem \<times> drive) machine" where
  "boot_demo_machine \<equiv> bios_machine (drive_io ATA_PRIMARY_IO_BASE ATA_PRIMARY_CONTROL_BASE) boot_demo_cpuid"

lemma boot_demo_enter:
  assumes "demo_disk_volume v"
  obtains h m' where "enter_kernel boot_demo_surroundings (cpu_features_detect boot_demo_cpuid) demo_usable_memory screen acpi ps found
    \<lparr>boot_volume = v, loader_arena = \<lparr>base = 0x3FF00000, capacity = 0x100000, used = 0\<rparr>, memory_bytes_of = m, loaded_modules = []\<rparr> =
    Some (Inr (h, m'))" "entry_point h = 0x200000" "kernel_image h = kernel_demo_image" "arena_base h = 0x3FF00000"
proof -
  let ?S = boot_demo_surroundings
  let ?l = "\<lparr>boot_volume = v, loader_arena = \<lparr>base = 0x3FF00000, capacity = 0x100000, used = 0\<rparr>, memory_bytes_of = m, loaded_modules = []\<rparr>"
  obtain w1 m1 where conf: "read_configuration (config_garbage ?S) (module_garbage ?S) (statics ?S) ?l =
      Some (lit ''a.txt'' @ [0], \<lparr>boot_volume = w1, loader_arena = \<lparr>base = 0x3FF00000, capacity = 0x100000, used = 123\<rparr>,
        memory_bytes_of = m1, loaded_modules = loaded_modules ?l @
          [\<lparr>module_base = 0x3FF00000, module_bytes = 123, module_path = module_path_at (statics ?S) 0\<rparr>]\<rparr>)"
    and w1: "demo_disk_volume w1"
    by (rule boot_demo_configuration [of ?l]) (use assms boot_demo_arena(2) in simp_all)
  let ?l1 = "\<lparr>boot_volume = w1, loader_arena = \<lparr>base = 0x3FF00000, capacity = 0x100000, used = 123\<rparr>,
        memory_bytes_of = m1, loaded_modules = loaded_modules ?l @
          [\<lparr>module_base = 0x3FF00000, module_bytes = 123, module_path = module_path_at (statics ?S) 0\<rparr>]\<rparr>"
  obtain w2 m2 where ker: "load_kernel (kernel_garbage ?S) demo_usable_memory (lit ''a.txt'' @ [0]) ?l1 =
      Some (0x200000, kernel_demo_image, ?l1\<lparr>boot_volume := w2, memory_bytes_of := m2\<rparr>)"
    by (rule demo_load_kernel [of ?l1, OF _ demo_usable_kernel]) (use w1 in simp_all)
  have answers: "answer_kernel_requests str kernel_demo_image facts s = Some (Some (0, s))" for str facts s
    by (simp add: answer_kernel_requests_def protocol_answer_def kernel_demo_image_def)
  obtain pages m3 where "build_kernel_tables kernel_demo_image (no_execute (cpu_features_detect boot_demo_cpuid)) True
      \<lparr>base = 0x3FF00000, capacity = 0x100000, used = 123\<rparr> m2 = (Some pages, m3)"
    using boot_demo_tables by blast
  then show thesis
    using that conf ker answers boot_demo_features(2) by (simp add: enter_kernel_def Let_def)
qed

lemma boot_demo_boots:
  obtains h m d where "boot_core boot_demo_machine boot_demo_surroundings (Some (beside_hardware boot_demo_firmware))
    (boot_demo_ram, boot_demo_drive) = Some (Inr (h, (m, d)))" "entry_point h = 0x200000" "kernel_image h = kernel_demo_image" "arena_base h = 0x3FF00000"
proof -
  let ?M = boot_demo_machine and ?fw = "Some (beside_hardware boot_demo_firmware) :: (mem \<times> drive) fw_ops option"
    and ?s = "(boot_demo_ram, boot_demo_drive)"
  have snap: "fw_mem_snapshot ?fw memory_map_clear ?s = Some ((True, demo_usable_memory), ?s)"
    by (simp add: fw_mem_snapshot_def beside_hardware_def fw_bios_init_def bios_mem_snapshot_def boot_demo_memory Let_def)
  have screen: "acquire_screen ?M ?fw ?s = Some (None, None, ?s)"
    by (simp add: acquire_screen_def fw_framebuffer_acquire_def beside_hardware_def fw_bios_init_def
        bios_framebuffer_acquire_def vbe_describe_def Let_def)
  have tables: "\<exists>ps. describe_machine ?M ?fw ?s = Some (None, ps, ?s)"
    by (simp add: describe_machine_def fw_rsdp_locate_def beside_hardware_def fw_bios_init_def boot_demo_no_rsdp Let_def)
  obtain d b where disk: "attach_boot_disk (drive_io ATA_PRIMARY_IO_BASE ATA_PRIMARY_CONTROL_BASE) boot_demo_drive = (Some b, d)"
    and b: "exact_inside b demo_drive_disk" "sector_bytes b = 512" "sector_count b = 13" by (rule boot_demo_attach)
  obtain v where v: "mount_boot_filesystem b (mount_garbage boot_demo_surroundings) = Some v" "demo_disk_volume v"
    by (rule boot_demo_mount [OF b])
  obtain found where found: "describe_devices (config_read boot_demo_surroundings) = Some found"
    using boot_demo_devices by (auto simp: describe_devices_def boot_demo_surroundings_def)
  have M: "cpuid_execute ?M = boot_demo_cpuid" "ata_ports ?M = beside_memory (drive_io 0x1F0 0x3F6)"
    "ram ?M (x, y) = x" "put_ram ?M x' (x, y) = (x', y)" for x x' :: mem and y
    by (simp_all add: bios_machine_def)
  have attach: "attach_boot_disk (ata_ports ?M) ?s = (Some b, (boot_demo_ram, d))"
    using disk by (simp add: M attach_boot_disk_beside)
  from tables obtain ps where ps: "describe_machine ?M ?fw ?s = Some (None, ps, ?s)" ..
  obtain h m' where "enter_kernel boot_demo_surroundings (cpu_features_detect boot_demo_cpuid) demo_usable_memory None None ps found
      \<lparr>boot_volume = v, loader_arena = \<lparr>base = 0x3FF00000, capacity = 0x100000, used = 0\<rparr>, memory_bytes_of = boot_demo_ram,
       loaded_modules = []\<rparr> = Some (Inr (h, m'))" "entry_point h = 0x200000" "kernel_image h = kernel_demo_image" "arena_base h = 0x3FF00000"
    by (rule boot_demo_enter [OF v(2)])
  then show thesis
    using boot_demo_features(1) snap screen ps found boot_demo_arena(1) attach v(1)
    by (intro that [of h m' d]) (simp_all add: boot_core_def M)
qed

theorem boot_core_enters_kernel_witness:
  "\<exists>h m d. boot_main (drive_io ATA_PRIMARY_IO_BASE ATA_PRIMARY_CONTROL_BASE) boot_demo_cpuid boot_demo_surroundings 0x80 1 0x5000 0
      (boot_demo_ram, boot_demo_drive) = Some (Inr (h, m, d)) \<and> kernel_entered h m \<and> entry_point h = 0x200000"
proof -
  let ?run = "boot_main (drive_io ATA_PRIMARY_IO_BASE ATA_PRIMARY_CONTROL_BASE) boot_demo_cpuid boot_demo_surroundings 0x80 1 0x5000 0
    (boot_demo_ram, boot_demo_drive)"
  obtain h m d where run: "?run = Some (Inr (h, m, d))" "entry_point h = 0x200000"
    unfolding boot_main_def by (rule boot_demo_boots)
  have "case ?run of Some (Inr (h, m, hardware)) \<Rightarrow> kernel_entered h m | _ \<Rightarrow> True"
    by (rule boot_core_enters_kernel [THEN conjunct1])
  with run show ?thesis by simp
qed

subsection \<open>The kernel is a file of the disk\<close>

text \<open>Every volume that is mounted lies in a partition of the disk.\<close>

definition on_disk :: "(nat \<Rightarrow> u8) \<Rightarrow> nat \<Rightarrow> fat_volume \<Rightarrow> bool" where
  "on_disk disk start v \<longleftrightarrow> fat_volume_ok (\<lambda>a. disk (start + a)) v"

lemma first_volume_on_disk:
  assumes "exact_inside d disk"
    and sector: "4 dvd unat (sector_bytes d)"
  shows "first_volume d g es = Some v \<Longrightarrow> \<exists>start. on_disk disk start v"
proof (induction es)
  case (Cons e es)
  show ?case
  proof (cases "partition_open d e")
    case (Some out)
    note p = partition_inside [OF assms(1) Some]
    show ?thesis
    proof (cases "fat_mount out (sector_garbage g) (replicate 512 0)")
      case mounted: (Some w)
      have "4 dvd unat (sector_bytes out)" using sector partition_openD(3) [OF Some] by simp
      with fat_mount_sound [OF mounted p(1)] Cons.prems Some mounted show ?thesis by (auto simp: on_disk_def)
    qed (use Cons Some in simp)
  qed (use Cons in simp)
qed simp

lemma mount_on_disk:
  "exact_inside d disk \<Longrightarrow> 4 dvd unat (sector_bytes d) \<Longrightarrow> mount_boot_filesystem d g = Some v \<Longrightarrow> \<exists>start. on_disk disk start v"
  by (auto simp: mount_boot_filesystem_def first_volume_on_disk split: prod.splits bool.splits)

lemma open_file_on_disk: "open_file g path v = Some (f, w) \<Longrightarrow> on_disk disk start v \<Longrightarrow> on_disk disk start w"
  unfolding on_disk_def by (rule open_file_facts(2))

lemma read_file_on_disk:
  "open_file g path v = Some (f, w) \<Longrightarrow> read_whole w f = Some (bytes, u) \<Longrightarrow> on_disk disk start v \<Longrightarrow> on_disk disk start u"
  unfolding on_disk_def using open_file_facts(2,3) read_whole_facts(2) by blast

lemma load_modules_on_disk:
  "load_modules g places i txs l = Some l' \<Longrightarrow> on_disk disk start (boot_volume l) \<Longrightarrow> on_disk disk start (boot_volume l')"
proof (induction txs arbitrary: i l)
  case (Cons tx txs)
  from Cons.prems(1) obtain l1 where one: "load_module (g i) places i tx l = Some l1" and rest: "load_modules g places (Suc i) txs l1 = Some l'"
    by (auto simp: opt_bind)
  from one Cons.prems(2) have "on_disk disk start (boot_volume l1)"
    by (auto simp: load_module_def opt_bind Let_def intro: read_file_on_disk)
  with Cons.IH [OF rest] show ?case .
qed simp

lemma read_configuration_on_disk:
  assumes "read_configuration g mg places l = Some (path, l')" "on_disk disk start (boot_volume l)"
  shows "on_disk disk start (boot_volume l')"
proof -
  from assms(1) obtain f v where op: "open_file g CONFIG_PATH (boot_volume l) = Some (f, v)"
    by (auto simp: read_configuration_def opt_bind)
  with assms(1) obtain tx w where rd: "read_whole v f = Some (tx, w)" by (auto simp: read_configuration_def opt_bind)
  with assms(1) op obtain config where "config_parse tx = Inr config"
    by (cases "config_parse tx") (auto simp: read_configuration_def opt_bind split: if_splits)
  with assms(1) op rd obtain txs m where "load_modules mg places 0 txs (l\<lparr>boot_volume := w, memory_bytes_of := m\<rparr>) = Some l'"
    by (auto simp: read_configuration_def opt_bind Let_def split: if_splits)
  then show ?thesis using read_file_on_disk [OF op rd assms(2)] by (auto dest: load_modules_on_disk)
qed

text \<open>The image that is entered, as a file of the volume.\<close>

definition kernel_on_disk :: "(nat \<Rightarrow> u8) \<Rightarrow> handoff \<Rightarrow> bool" where
  "kernel_on_disk disk h \<longleftrightarrow>
     (\<exists>start v g path f w. on_disk disk start v \<and> open_file g path v = Some (f, w) \<and>
        (let content = fat_content (\<lambda>a. disk (start + a)) w f
         in entry_point h = file_field content 24 8 \<and>
            segments (kernel_image h) = file_segments content (program_offset content) (map of_nat [0..<program_count content])))"

lemma enter_kernel_on_disk:
  assumes run: "enter_kernel S feats memory screen acpi ps found l = Some (Inr (h, m))"
    and disk: "on_disk disk start (boot_volume l)"
  shows "kernel_on_disk disk h"
proof -
  obtain path l1 entry img l2 where
    conf: "read_configuration (config_garbage S) (module_garbage S) (statics S) l = Some (path, l1)"
    and ker: "load_kernel (kernel_garbage S) memory path l1 = Some (entry, img, l2)"
    and h: "entry_point h = entry" "kernel_image h = img"
    by (rule enter_kernel_steps [OF run]) simp
  obtain f w where K: "open_file (kernel_garbage S) path (boot_volume l1) = Some (f, w)" "elf_parse (kernel_read (w, f)) = Some img"
    "entry = entry_address img" by (rule load_kernel_checked [OF ker])
  note v = read_configuration_on_disk [OF conf disk]
  note O = open_file_facts [OF K(1) v [unfolded on_disk_def]]
  note parsed = elf_parse_facts [OF kernel_read_file [OF O(2,3)] K(2)]
  show ?thesis
    unfolding kernel_on_disk_def using v K(1,3) h parsed(3,4)
    by (intro exI [of _ start] exI [of _ "boot_volume l1"] exI [of _ "kernel_garbage S"] exI [of _ path] exI [of _ f] exI [of _ w])
      (simp add: Let_def)
qed

text \<open>The firmware leaves the hardware beside its memory alone until the disk is attached.\<close>

lemma firmware_beside:
  "fw_mem_snapshot (Some (beside_hardware ops)) out (m, h) = Some (r, s) \<Longrightarrow> snd s = h"
  "acquire_screen (bios_machine io query) (Some (beside_hardware ops)) (m, h) = Some (sc, t, s) \<Longrightarrow> snd s = h"
  "describe_machine (bios_machine io query) (Some (beside_hardware ops)) (m, h) = Some (acpi, ps, s) \<Longrightarrow> snd s = h"
proof -
  show "fw_mem_snapshot (Some (beside_hardware ops)) out (m, h) = Some (r, s) \<Longrightarrow> snd s = h"
    by (auto simp: fw_mem_snapshot_def beside_hardware_def split: option.splits)
  have fb: "fw_framebuffer_acquire (Some (beside_hardware ops)) (m, h) = Some (f, s1) \<Longrightarrow> snd s1 = h" for f s1
    by (auto simp: fw_framebuffer_acquire_def beside_hardware_def opt_bind split: option.splits)
  have put: "snd (on_memory (bios_machine io query) f s1) = snd s1" for f s1
    by (cases s1) (simp add: on_memory_def bios_machine_def)
  show "acquire_screen (bios_machine io query) (Some (beside_hardware ops)) (m, h) = Some (sc, t, s) \<Longrightarrow> snd s = h"
  proof -
    assume run: "acquire_screen (bios_machine io query) (Some (beside_hardware ops)) (m, h) = Some (sc, t, s)"
    then obtain f s1 where f: "fw_framebuffer_acquire (Some (beside_hardware ops)) (m, h) = Some (f, s1)"
      by (auto simp: acquire_screen_def opt_bind)
    show "snd s = h"
    proof (cases f)
      case (Some screen)
      then show ?thesis using run f fb [OF f]
        by (cases "terminal_init screen font8x16 (SCREEN_FOREGROUND screen) (SCREEN_BACKGROUND screen)")
          (auto simp: acquire_screen_def Let_def put)
    qed (use run f fb [OF f] in \<open>auto simp: acquire_screen_def\<close>)
  qed
  have rs: "fw_rsdp_locate (Some (beside_hardware ops)) (m, h) = Some (p, s1) \<Longrightarrow> snd s1 = h" for p s1
    by (auto simp: fw_rsdp_locate_def beside_hardware_def split: option.splits)
  show "describe_machine (bios_machine io query) (Some (beside_hardware ops)) (m, h) = Some (acpi, ps, s) \<Longrightarrow> snd s = h"
    by (auto simp: describe_machine_def opt_bind Let_def dest: rs split: if_splits prod.splits bool.splits)
qed

lemma attach_keeps:
  assumes "attach_boot_disk (drive_io ATA_PRIMARY_IO_BASE ATA_PRIMARY_CONTROL_BASE) d = (r, d')"
  shows "platter d' = platter d" "latency d' = latency d"
  using drive_hardware.probe_keeps [of d "platter d" "identity d" "latency d" "0x1F0" "0x3F6" "\<lambda>_. 0" "0x3F6" False] assms
  by (auto simp: attach_boot_disk_def Let_def split: prod.splits option.splits if_splits)

lemma describe_machine_processors: "describe_machine M fw s = Some (acpi, ps, s') \<Longrightarrow> length (processors ps) \<le> 256"
  by (auto simp: describe_machine_def opt_bind Let_def dest: acpi_processors_bound split: if_splits prod.splits bool.splits)

text \<open>The steps of a core that has a drive behind its ports.\<close>

lemma drive_boot_steps:
  assumes "drive_ok d"
    and "boot_core (bios_machine (drive_io ATA_PRIMARY_IO_BASE ATA_PRIMARY_CONTROL_BASE) query) S (Some (beside_hardware ops)) (m, d) =
      Some (Inr (h, s'))"
  obtains memory s1 screen acpi ps found a volume start k where
    "fw_mem_snapshot (Some (beside_hardware ops)) memory_map_clear (m, d) = Some ((True, memory), s1)"
    "length (processors ps) \<le> 256" "place_arena memory = Some a" "on_disk (platter d) start volume"
    "enter_kernel S (cpu_features_detect query) memory screen acpi ps found
      \<lparr>boot_volume = volume, loader_arena = a, memory_bytes_of = k, loaded_modules = []\<rparr> = Some (Inr (h, fst s'))"
proof -
  let ?io = "drive_io 0x1F0 0x3F6"
  obtain memory s1 screen t s2 acpi ps s3 found a boot_disk s4 volume out where
    fw: "fw_mem_snapshot (Some (beside_hardware ops)) memory_map_clear (m, d) = Some ((True, memory), s1)"
      "acquire_screen (bios_machine ?io query) (Some (beside_hardware ops)) s1 = Some (screen, t, s2)"
      "describe_machine (bios_machine ?io query) (Some (beside_hardware ops)) s2 = Some (acpi, ps, s3)"
    and a: "place_arena memory = Some a"
    and disk: "attach_boot_disk (ata_ports (bios_machine ?io query)) s3 = (Some boot_disk, s4)"
    and vol: "mount_boot_filesystem boot_disk (mount_garbage S) = Some volume"
    and enter: "enter_kernel S (cpu_features_detect (cpuid_execute (bios_machine ?io query))) memory screen acpi ps found
      \<lparr>boot_volume = volume, loader_arena = a, memory_bytes_of = ram (bios_machine ?io query) s4, loaded_modules = []\<rparr> =
      Some (Inr (h, out))"
    and s': "s' = put_ram (bios_machine ?io query) out s4"
    by (rule boot_core_steps [OF assms(2)])
  have "snd s1 = d" by (rule firmware_beside(1) [OF fw(1)])
  then obtain m1 where s1: "s1 = (m1, d)" by (cases s1) simp
  have "snd s2 = d" by (rule firmware_beside(2) [OF fw(2) [unfolded s1]])
  then obtain m2 where s2: "s2 = (m2, d)" by (cases s2) simp
  have "snd s3 = d" by (rule firmware_beside(3) [OF fw(3) [unfolded s2]])
  then obtain m3 where s3: "s3 = (m3, d)" by (cases s3) simp
  obtain d' where att: "attach_boot_disk ?io d = (Some boot_disk, d')"
    using disk [unfolded s3] by (cases "attach_boot_disk ?io d") (simp add: bios_machine_def attach_boot_disk_beside)
  then have "drive_bootable d" "boot_disk = ata_device (boot_channel d) (drive_size d) d'" "platter d' = platter d"
    "latency d' = latency d"
    using boot_disk_run [OF assms(1)] att attach_keeps [OF att] by simp_all
  then have "exact_inside boot_disk (platter d)" "4 dvd unat (sector_bytes boot_disk)"
    using boot_device_inside [OF assms(1)] by (simp_all add: drive_bootable_def) (simp add: ata_device_def)
  from mount_on_disk [OF this vol] obtain start where "on_disk (platter d) start volume" ..
  moreover have "cpuid_execute (bios_machine ?io query) = query" "fst s' = out"
    by (simp_all add: bios_machine_def s' split: prod.split)
  ultimately show thesis
    using that [OF fw(1) describe_machine_processors [OF fw(3)] a] enter by metis
qed

text \<open>
  On a machine with a drive, the kernel that is entered is a file on the drive: some partition of the disk is a FAT
  volume, some path opens a file there, and the entry point and the segments of the image are those its bytes describe.
\<close>

theorem boot_core_kernel_on_disk:
  assumes "drive_ok d"
    and "boot_core (bios_machine (drive_io ATA_PRIMARY_IO_BASE ATA_PRIMARY_CONTROL_BASE) query) S (Some (beside_hardware ops)) (m, d) =
      Some (Inr (h, s'))"
  shows "kernel_on_disk (platter d) h"
  by (rule drive_boot_steps [OF assms]) (rule enter_kernel_on_disk, assumption, simp)

theorem boot_core_kernel_on_disk_witness:
  "\<exists>h s. boot_core boot_demo_machine boot_demo_surroundings (Some (beside_hardware boot_demo_firmware))
      (boot_demo_ram, boot_demo_drive) = Some (Inr (h, s)) \<and> kernel_on_disk demo_drive_disk h"
proof -
  have ok: "drive_ok boot_demo_drive" by (simp add: drive_ok_def boot_demo_identity)
  obtain h m d where "boot_core boot_demo_machine boot_demo_surroundings (Some (beside_hardware boot_demo_firmware))
    (boot_demo_ram, boot_demo_drive) = Some (Inr (h, (m, d)))" by (rule boot_demo_boots)
  with boot_core_kernel_on_disk [OF ok this] show ?thesis by (auto simp: boot_demo_identity)
qed

text \<open>
  The kernel is told the lowest physical address and the virtual address of the first segment. Where the first segment of
  the file is not the lowest in memory, the two do not belong together.
\<close>

lemma kernel_address_mismatch:
  assumes "segments img = [s, t]" "image_wf img" "physical_address t < physical_address s" "lowest_address img = physical_address t"
    and "virtual_address s - physical_address s = virtual_address t - physical_address t"
  shows "kernel_virtual_base (kernel_facts img mm cmd screen acpi ps brought) - kernel_physical_base (kernel_facts img mm cmd screen acpi ps brought) \<noteq>
    virtual_address t - physical_address t"
  using assms by (auto simp: kernel_facts_def)

end
