(* ===== verification/Boot_Delivery.thy ===== *)
theory Boot_Delivery
  imports Boot
begin

text \<open>
  What the whole of \<open>boot_core\<close> delivers: the entry the configuration on the disk says to boot, its command line, modules
  and kernel in memory when the kernel is entered, and the answers to its requests, through everything that is written
  between the reading of each and the jump. The parts are put together by what each step leaves alone.
\<close>

subsection \<open>The entry of the configuration\<close>

text \<open>The entry the configuration of a volume says to boot, whatever the cache of the volume holds.\<close>

definition booted_entry :: "(nat \<Rightarrow> u8) \<Rightarrow> fat_volume \<Rightarrow> config_entry \<Rightarrow> bool" where
  "booted_entry disk v e \<longleftrightarrow>
     (\<exists>g f w config i. open_file g CONFIG_PATH v = Some (f, w) \<and>
        config_parse (image_bytes (fat_content disk v f) 0 (unat (file_size f))) = Inr config \<and>
        config_default_entry config = Some i \<and> e = config_entries config ! i)"

definition command_line_span :: "static_places \<Rightarrow> nat set" where
  "command_line_span places = {unat (command_line_at places)..<unat (command_line_at places) + COMMAND_LINE_BYTES}"

definition holds_command_line :: "static_places \<Rightarrow> str \<Rightarrow> mem \<Rightarrow> bool" where
  "holds_command_line places tx m \<longleftrightarrow>
     length tx < COMMAND_LINE_BYTES \<and> load_bytes m (command_line_at places) (Suc (length tx)) = tx @ [0]"

lemma command_line_frame:
  assumes "holds_command_line places tx m" "unat (command_line_at places) + COMMAND_LINE_BYTES \<le> 2 ^ 64"
    and "\<And>x. unat x \<in> command_line_span places \<Longrightarrow> m' x = m x"
  shows "holds_command_line places tx m'"
proof -
  have tx: "Suc (length tx) \<le> 512" using assms(1) by (simp add: holds_command_line_def)
  have "load_bytes m' (command_line_at places) (Suc (length tx)) = load_bytes m (command_line_at places) (Suc (length tx))"
  proof (rule load_bytes_cong)
    fix x assume "in_range (command_line_at places) (Suc (length tx)) x"
    then have "unat x \<in> command_line_span places"
      using tx assms(2) in_range_nat [of "command_line_at places" "Suc (length tx)" x] by (simp add: command_line_span_def)
    then show "m' x = m x" by (rule assms(3))
  qed (use tx in simp)
  with assms(1) show ?thesis by (simp add: holds_command_line_def)
qed

text \<open>Where the modules' paths are.\<close>

lemma load_modules_paths:
  "load_modules g places i txs l = Some l' \<Longrightarrow>
   map module_path (loaded_modules l') = map module_path (loaded_modules l) @ map (module_path_at places) [i..<i + length txs]"
proof (induction txs arbitrary: i l)
  case (Cons tx txs)
  then obtain l1 where one: "load_module (g i) places i tx l = Some l1" and rest: "load_modules g places (Suc i) txs l1 = Some l'"
    by (auto simp: opt_bind)
  have "map module_path (loaded_modules l1) = map module_path (loaded_modules l) @ [module_path_at places i]"
    using one by (auto simp: load_module_def opt_bind Let_def)
  moreover have "[i..<i + length (tx # txs)] = i # [Suc i..<Suc i + length txs]" by (simp add: upt_conv_Cons del: upt_Suc)
  ultimately show ?case using Cons.IH [OF rest] by (simp del: upt_Suc)
qed simp

lemma places_fewer:
  assumes "places_ok places a k" "n \<le> k"
  shows "places_ok places a n"
proof -
  have "path_spans places 0 n \<subseteq> path_spans places 0 k" using assms(2) by (auto simp: path_spans_def)
  moreover have "n * 128 \<le> k * 128" using assms(2) by simp
  ultimately show ?thesis using assms(1) unfolding places_ok_def by (meson add_left_mono disjoint_iff order_trans subsetD)
qed

text \<open>Modules stay while their bytes and their paths do.\<close>

lemma modules_frame:
  assumes held: "modules_held disk v area txs m bs"
    and area: "area \<subseteq> {0..<2 ^ 64}" "places_ok places a 8" "length txs \<le> 8"
    and paths: "map module_path bs = map (module_path_at places) [0..<length txs]"
    and same: "\<And>x b. b \<in> set bs \<Longrightarrow> unat x \<in> module_span b \<Longrightarrow> m' x = m x" "\<And>x. unat x \<in> path_spans places 0 8 \<Longrightarrow> m' x = m x"
  shows "modules_held disk v area txs m' bs"
proof -
  have len: "length bs = length txs" using held by (auto simp: modules_held_def dest: list_all2_lengthD)
  have "holds_file disk v (txs ! i) m' (bs ! i)" if i: "i < length txs" for i
  proof (rule holds_file_frame)
    show h: "holds_file disk v (txs ! i) m (bs ! i)"
      using held i len by (simp add: modules_held_def list_all2_conv_all_nth)
    have b: "bs ! i \<in> set bs" using i len by simp
    then show "unat x \<in> module_span (bs ! i) \<Longrightarrow> m' x = m x" for x by (rule same(1))
    obtain f :: fat_file where f: "module_bytes (bs ! i) = ucast (file_size f)" "file_size f \<noteq> 0"
      using h by (auto simp: holds_file_def)
    have "unat (module_bytes (bs ! i)) = unat (file_size f)" unfolding f(1) by simp
    with f(2) have "unat (module_bytes (bs ! i)) \<noteq> 0" by (simp add: unat_eq_0)
    moreover have "module_span (bs ! i) \<subseteq> {0..<2 ^ 64}"
      using held b area(1) by (auto simp: modules_held_def list_all_iff)
    ultimately show "unat (module_base (bs ! i)) + unat (module_bytes (bs ! i)) \<le> 2 ^ 64"
      by (auto simp: module_span_def span_def)
    have at: "module_path (bs ! i) = module_path_at places i"
      using arg_cong [OF paths, of "\<lambda>xs. xs ! i"] i len by simp
    have p: "unat (module_path_at places i) = unat (module_paths_at places) + i * 128"
      by (rule path_at_nat [OF places_fewer [OF area(2,3)] i])
    have le: "i * 128 + 128 \<le> 8 * 128" using i area(3) by simp
    then show "unat (module_path (bs ! i)) + 128 \<le> 2 ^ 64"
      using area(2) unfolding at p by (simp add: places_ok_def)
    show "m' x = m x" if "unat (module_path (bs ! i)) \<le> unat x" "unat x < unat (module_path (bs ! i)) + 128" for x
      using that le unfolding at p by (intro same(2)) (simp add: path_spans_def)
  qed
  then show ?thesis
    using held len by (simp add: modules_held_def list_all2_conv_all_nth)
qed

lemma booted_entry_modules:
  assumes "config_parse tx = Inr config" "config_default_entry config = Some i"
  shows "length (modules (config_entries config ! i)) \<le> 8"
proof -
  have wf: "config_wf config" using config_parse_checked [OF assms(1)] by simp
  moreover have "i < length (config_entries config)"
    using assms(2) config_find_Some [of config "default_entry config" i]
    by (auto simp: config_default_entry_def split: if_splits)
  ultimately show ?thesis by (simp add: config_wf_def entry_wf_def list_all_length)
qed

lemma read_configuration_held:
  assumes conf: "read_configuration g mg places l = Some (path, l')" and disk: "fat_volume_ok disk (boot_volume l)"
    and wf: "arena_wf (loader_arena l)" and none: "loaded_modules l = []" and places: "places_ok places (loader_arena l) 8"
    and cmd: "unat (command_line_at places) + COMMAND_LINE_BYTES \<le> 2 ^ 64"
      "command_line_span places \<inter> (arena_range (loader_arena l) \<union> path_spans places 0 8) = {}"
  obtains e where "booted_entry disk (boot_volume l) e" "path = kernel e @ [0]" "length (modules e) \<le> 8"
    "holds_command_line places (cmdline e) (memory_bytes_of l')"
    "modules_held disk (boot_volume l) (arena_free (loader_arena l)) (modules e) (memory_bytes_of l') (loaded_modules l')"
    "map module_path (loaded_modules l') = map (module_path_at places) [0..<length (modules e)]"
    "same_volume (boot_volume l) (boot_volume l')" "fat_volume_ok disk (boot_volume l')" "arena_wf (loader_arena l')"
    "\<And>b. b \<in> set (loaded_modules l') \<Longrightarrow> module_span b \<inter> arena_free (loader_arena l') = {}"
proof -
  from conf obtain f v where op: "open_file g CONFIG_PATH (boot_volume l) = Some (f, v)"
    by (auto simp: read_configuration_def opt_bind)
  with conf obtain tx w where rd: "read_whole v f = Some (tx, w)" by (auto simp: read_configuration_def opt_bind)
  with conf op obtain config where parse: "config_parse tx = Inr config"
    by (cases "config_parse tx") (auto simp: read_configuration_def opt_bind split: if_splits)
  with conf op rd obtain i where i: "config_default_entry config = Some i"
    by (auto simp: read_configuration_def opt_bind split: if_splits)
  define e where "e = config_entries config ! i"
  from conf op rd parse i obtain cmd_line where c: "str_copy_cstr (cmdline e) 512 = Some cmd_line"
    and p: "str_copy_cstr (kernel e) 256 = Some path"
    and run: "load_modules mg places 0 (modules e) (l\<lparr>boot_volume := w,
        memory_bytes_of := store_bytes (memory_bytes_of l) (command_line_at places) cmd_line\<rparr>) = Some l'"
    by (auto simp: read_configuration_def opt_bind Let_def e_def split: if_splits)
  have len: "cmd_line = cmdline e @ [0]" "length (cmdline e) < 512" "path = kernel e @ [0]"
    using c p by (auto simp: str_copy_cstr_def split: if_splits)
  have eight: "length (modules e) \<le> 8" unfolding e_def by (rule booted_entry_modules [OF parse i])
  note O = open_file_facts [OF op disk]
  note R = read_whole_facts [OF rd O(2,3)]
  have same: "same_volume (boot_volume l) w" by (rule same_volume_trans [OF O(1) R(1)])
  let ?m = "store_bytes (memory_bytes_of l) (command_line_at places) cmd_line"
  have "places_ok places (loader_arena l) (length (modules e))"
    by (rule places_fewer [OF places eight])
  then obtain bs where bs: "loaded_modules l' = bs"
    "modules_held disk w (arena_free (loader_arena l)) (modules e) (memory_bytes_of l') bs"
    "same_volume w (boot_volume l')" "fat_volume_ok disk (boot_volume l')" "arena_wf (loader_arena l')"
    "\<And>b. b \<in> set bs \<Longrightarrow> module_span b \<inter> arena_free (loader_arena l') = {}"
    "\<And>x. unat x \<notin> arena_free (loader_arena l) \<Longrightarrow> unat x \<notin> path_spans places 0 (length (modules e)) \<Longrightarrow>
        memory_bytes_of l' x = ?m x"
    using load_modules_facts [OF run, of disk] R(2) wf none by auto
  show thesis
  proof (rule that [of e])
    have "fat_content disk v f = fat_content disk (boot_volume l) f"
      by (rule fat_content_same [OF O(1), where x = "fat_file.walk f"]) simp
    then show "booted_entry disk (boot_volume l) e"
      unfolding booted_entry_def using op parse i R(3) by (auto simp: e_def)
    show "holds_command_line places (cmdline e) (memory_bytes_of l')"
    proof (rule command_line_frame [OF _ cmd(1)])
      show "holds_command_line places (cmdline e) ?m"
        using len load_store_bytes [of cmd_line "memory_bytes_of l" "command_line_at places"]
        by (simp add: holds_command_line_def)
      fix x :: u64 assume "unat x \<in> command_line_span places"
      then have "unat x \<notin> arena_range (loader_arena l)" "unat x \<notin> path_spans places 0 8" using cmd(2) by auto
      moreover have "arena_free (loader_arena l) \<subseteq> arena_range (loader_arena l)"
        "path_spans places 0 (length (modules e)) \<subseteq> path_spans places 0 8"
        using eight by (auto simp: arena_free_def arena_range_def path_spans_def)
      ultimately show "memory_bytes_of l' x = ?m x" by (intro bs(7)) auto
    qed
    have "same_volume (boot_volume l) w \<Longrightarrow> list_all2 (\<lambda>tx b. holds_file disk w tx m b) txs cs \<Longrightarrow>
        list_all2 (\<lambda>tx b. holds_file disk (boot_volume l) tx m b) txs cs" for txs cs m
      by (erule list_all2_mono) (rule holds_file_same)
    then show "modules_held disk (boot_volume l) (arena_free (loader_arena l)) (modules e) (memory_bytes_of l') (loaded_modules l')"
      using bs(1,2) same by (simp add: modules_held_def)
    show "map module_path (loaded_modules l') = map (module_path_at places) [0..<length (modules e)]"
      using load_modules_paths [OF run] none by simp
    show "same_volume (boot_volume l) (boot_volume l')" by (rule same_volume_trans [OF same bs(3)])
  qed (use bs len eight in auto)
qed

subsection \<open>The kernel in memory\<close>

lemma load_kernel_memory:
  assumes load: "load_kernel g memory path l = Some (entry, img, l')" and disk: "fat_volume_ok disk (boot_volume l)"
  obtains f w where "open_file g path (boot_volume l) = Some (f, w)" "same_volume (boot_volume l) w"
    "memory_bytes_of l' = loaded (fat_content disk w f) kernel_placement (segments img) (memory_bytes_of l)"
    "segments img = file_segments (fat_content disk w f) (program_offset (fat_content disk w f))
       (map of_nat [0..<program_count (fat_content disk w f)])"
    "entry = file_field (fat_content disk w f) 24 8" "loader_arena l' = loader_arena l" "loaded_modules l' = loaded_modules l"
    "image_wf img" "segments img \<noteq> []" "lowest_address img < highest_address img" "unat (highest_address img) \<le> 2 ^ 32"
    "\<forall>x. unat x \<notin> kernel_bytes img \<longrightarrow> memory_bytes_of l' x = memory_bytes_of l x"
proof -
  obtain f w m where K: "open_file g path (boot_volume l) = Some (f, w)" "elf_parse (kernel_read (w, f)) = Some img"
    "elf_load (kernel_read (w, f)) img kernel_placement (memory_bytes_of l) = (True, m)"
    "l' = l\<lparr>boot_volume := w, memory_bytes_of := m\<rparr>" "entry = entry_address img" "image_wf img" "segments img \<noteq> []"
    "lowest_address img < highest_address img" "unat (highest_address img) \<le> 2 ^ 32"
    by (rule load_kernel_checked [OF load]) blast
  note O = open_file_facts [OF K(1) disk]
  note reads = kernel_read_file [OF O(2,3)]
  note parsed = elf_parse_facts [OF reads K(2)]
  have m: "m = loaded (fat_content disk w f) kernel_placement (segments img) (memory_bytes_of l)"
    using elf_load_run [OF reads K(2,3)] by simp
  have within: "segment_within s kernel_placement" if "s \<in> set (segments img)" for s
    using K(3) that by (auto simp: elf_load_def list_ex_iff split: if_splits)
  have "\<not> Elf.covers kernel_placement x s" if x: "unat x \<notin> kernel_bytes img" and s: "s \<in> set (segments img)" for x s
  proof
    note P = kernel_placed [OF within [OF s]]
    assume "Elf.covers kernel_placement x s"
    then have "unat (physical_address s) \<le> unat x" "unat x < unat (physical_address s) + unat (memory_bytes s)"
      using P in_range_nat [of "physical_address s" "unat (memory_bytes s)" x] by (simp_all add: Elf.covers_def)
    moreover have "unat (physical_address s + memory_bytes s) = unat (physical_address s) + unat (memory_bytes s)"
      using P(3) by (simp add: unat_add_fits)
    moreover have "lowest_address img \<le> physical_address s" "physical_address s + memory_bytes s \<le> highest_address img"
      using K(6) s by (auto simp: image_wf_def)
    ultimately show False using x by (auto simp: kernel_bytes_def word_le_nat_alt)
  qed
  then have frame: "m x = memory_bytes_of l x" if "unat x \<notin> kernel_bytes img" for x
    using that by (auto simp: m loaded_def find_Some_iff in_set_conv_nth split: option.split)
  show thesis
    by (rule that [of f w]) (use K O parsed m frame in \<open>simp_all\<close>)
qed

text \<open>The map the kernel is handed is in order, and its facts fit their tables.\<close>

lemma claimed_in_order: "map_in_order m \<Longrightarrow> map_in_order (claim_loader_memory m at img)"
  using finalize_in_order [OF add_entries_wf [OF map_in_order_wf, of m "[(at, 0x100000, MEMORY_KIND_BOOTLOADER_RECLAIMABLE),
    (lowest_address img, highest_address img - lowest_address img, MEMORY_KIND_KERNEL)]"]]
  by (simp add: claim_loader_memory_def add_entries_def split_beta)

lemma kernel_facts_ok:
  "map_in_order mm \<Longrightarrow> length (processors ps) \<le> 256 \<Longrightarrow> length brought \<le> 8 \<Longrightarrow>
   facts_ok (kernel_facts img mm cmd screen acpi ps brought)"
  by (simp add: facts_ok_def kernel_facts_def map_in_order_def)

subsection \<open>What is handed over\<close>

text \<open>
  Nothing keeps the kernel off the arena, as \<open>kernel_may_overlap_arena\<close> shows, nor either off the static buffers of the
  loader, which the firmware's map has to keep out of usable memory. What follows is for the boots in which they are apart.
\<close>

definition loader_apart :: "static_places \<Rightarrow> handoff \<Rightarrow> bool" where
  "loader_apart places h \<longleftrightarrow>
     unat (command_line_at places) + COMMAND_LINE_BYTES \<le> 2 ^ 64 \<and>
     unat (module_paths_at places) + 8 * MODULE_PATH_BYTES \<le> 2 ^ 64 \<and>
     arena_bytes (arena_base h) \<inter> kernel_bytes (kernel_image h) = {} \<and>
     (arena_bytes (arena_base h) \<union> kernel_bytes (kernel_image h)) \<inter> (command_line_span places \<union> path_spans places 0 8) = {} \<and>
     command_line_span places \<inter> path_spans places 0 8 = {}"

definition file_named :: "(nat \<Rightarrow> u8) \<Rightarrow> fat_volume \<Rightarrow> str \<Rightarrow> (nat \<Rightarrow> u8) \<Rightarrow> bool" where
  "file_named disk v path content \<longleftrightarrow>
     (\<exists>g u f w. same_volume v u \<and> open_file g (path @ [0]) u = Some (f, w) \<and> content = fat_content disk v f)"

text \<open>The response fields of the requests, the only bytes of a loaded kernel that are written again.\<close>

definition response_fields :: "u64 list \<Rightarrow> u64 set" where
  "response_fields rs = {x. \<exists>r \<in> set rs. in_range (r + 32) 8 x}"

definition kernel_in_place :: "surroundings \<Rightarrow> (nat \<Rightarrow> u8) \<Rightarrow> handoff \<Rightarrow> mem \<Rightarrow> bool" where
  "kernel_in_place S content h m \<longleftrightarrow>
     (\<exists>old. let img = kernel_image h;
              fresh = loaded content kernel_placement (segments img) old;
              rs = requests_from fresh (lowest_address img) (unat (highest_address img) - unat (lowest_address img)) 0
          in entry_point h = file_field content 24 8 \<and>
             segments img = file_segments content (program_offset content) (map of_nat [0..<program_count content]) \<and>
             (\<forall>x. unat x \<in> kernel_bytes img \<and> x \<notin> response_fields rs \<longrightarrow> m x = fresh x) \<and>
             length rs \<le> 64 \<and>
             (\<forall>r \<in> set rs. answered (loader_text S) (given_facts h) (unat (arena_base h)) (unat (arena_base h) + 2 ^ 20) fresh m r))"

definition handed_over :: "(nat \<Rightarrow> u8) \<Rightarrow> fat_volume \<Rightarrow> surroundings \<Rightarrow> handoff \<Rightarrow> mem \<Rightarrow> bool" where
  "handed_over disk v S h m \<longleftrightarrow>
     (\<exists>e content. booted_entry disk v e \<and> file_named disk v (kernel e) content \<and> kernel_in_place S content h m \<and>
        facts_memory (given_facts h) = Some (kernel_map h) \<and>
        facts_command_line (given_facts h) = command_line_at (statics S) \<and> holds_command_line (statics S) (cmdline e) m \<and>
        modules_held disk v (arena_bytes (arena_base h)) (modules e) m (facts_modules (given_facts h)))"

lemma ranges_apart:
  "{a..<b} \<inter> {c..<d} = {} \<Longrightarrow> a < b \<Longrightarrow> c < d \<Longrightarrow> b \<le> c \<or> d \<le> (a :: nat)"
  by (cases "a \<le> c") (auto simp: disjoint_iff not_less dest: spec [of _ c] spec [of _ a])

text \<open>
  From the loaded image to the jump: the requests are answered from the arena, the tables take what is left of it, and the
  rest of memory stays.
\<close>

lemma answers_stay:
  assumes wf: "arena_wf a" "arena_end a \<le> 2 ^ 52" and ok: "facts_ok facts"
    and img: "lowest_address img < highest_address img" "unat (highest_address img) \<le> 2 ^ 32" "segments img \<noteq> []"
    and split: "arena_end a \<le> unat (lowest_address img) \<or> unat (highest_address img) \<le> arena_taken a"
    and ans: "answer_kernel_requests strings img facts (a, k) = Some (Some (n, b, m1))"
    and tab: "build_kernel_tables img nx gb b m1 = (Some pages, m)"
  defines "rs \<equiv> requests_from k (lowest_address img) (unat (highest_address img) - unat (lowest_address img)) 0"
  shows "length rs \<le> 64" "r \<in> set rs \<Longrightarrow> lo \<le> arena_taken a \<Longrightarrow> answered strings facts lo (arena_end a) k m r"
    "x \<in> response_fields rs \<Longrightarrow> unat x \<in> kernel_bytes img"
    "unat x \<notin> arena_free a \<Longrightarrow> x \<notin> response_fields rs \<Longrightarrow> m x = k x"
proof -
  let ?low = "unat (lowest_address img)" and ?high = "unat (highest_address img)"
  have low: "?low < ?high" "unat (highest_address img - lowest_address img) = ?high - ?low"
    using img(1) by (simp_all add: word_less_nat_alt unat_sub_fits word_le_nat_alt)
  have "Protocol.apart a (lowest_address img) (unat (highest_address img - lowest_address img))"
    using split img(2) low by (auto simp: apart_def)
  then have scan: "length rs \<le> 64" "scanned strings facts rs a k b m1"
    using protocol_answer_run [OF wf(1) ok, of "lowest_address img" "highest_address img - lowest_address img" strings k] ans low(2)
    by (auto simp: answer_kernel_requests_def rs_def)
  then show "length rs \<le> 64" by blast
  have b: "arena_wf b" "arena_end b = arena_end a" "arena_taken a \<le> arena_taken b" "arena_taken b \<le> arena_end a"
    using scan(2) by (simp_all add: scanned_def)
  have free: "arena_free a = {arena_taken a..<arena_end a}" by (simp add: arena_free_def arena_taken_def arena_end_def)
  have tables: "m y = m1 y" if "\<not> (arena_taken b \<le> unat y \<and> unat y < arena_end a)" for y
    by (rule build_kernel_tables_frame [OF b(1) _ img(3) tab]) (use that b(2) wf(2) in \<open>simp_all add: arena_taken_def arena_end_def\<close>)
  have in_image: "?low \<le> unat r \<and> unat r + 40 \<le> ?high" if "r \<in> set rs" for r
    using requests_from_bounds [OF _ that [unfolded rs_def]] low(1) img(2) by auto
  show "unat x \<in> kernel_bytes img" if "x \<in> response_fields rs" for x
  proof -
    from that obtain r where r: "r \<in> set rs" "in_range (r + 32) 8 x" by (auto simp: response_fields_def)
    have "unat (r + 32) = unat r + 32" by (rule response_field) (use in_image [OF r(1)] img(2) in simp)
    then show ?thesis
      using in_image [OF r(1)] img(2) r(2) in_range_nat [of "r + 32" 8 x] by (simp add: kernel_bytes_def)
  qed
  show "m x = k x" if "unat x \<notin> arena_free a" "x \<notin> response_fields rs" for x
  proof -
    have "m x = m1 x" using that(1) b(3) by (intro tables) (auto simp: free)
    also have "m1 x = k x" using scan(2) that b(4) unfolding scanned_def free response_fields_def by auto
    finally show ?thesis .
  qed
  assume r: "r \<in> set rs" and lo: "lo \<le> arena_taken a"
  show "answered strings facts lo (arena_end a) k m r"
  proof (rule answered_mono)
    show "answered strings facts (arena_taken a) (arena_taken b) k m1 r" using scan(2) r by (simp add: scanned_def)
    show "unat r + 40 \<le> 2 ^ 64" using in_image [OF r] img(2) by simp
    show "arena_taken b \<le> 2 ^ 64" using b(4) wf(2) by simp
    show "m y = m1 y" if "arena_taken a \<le> unat y \<and> unat y < arena_taken b \<or> unat r \<le> unat y \<and> unat y < unat r + 40" for y
      using that in_image [OF r] split b(3) by (intro tables) linarith
  qed (use lo b(4) in simp_all)
qed

text \<open>The arena the core starts with.\<close>

lemma placed_arena:
  assumes "place_arena memory = Some a" "map_in_order memory"
  shows "arena_wf a" "arena_range a = arena_bytes (base a)" "arena_free a = arena_bytes (base a)" "unat (base a) + 2 ^ 20 \<le> 2 ^ 30"
    "same_arena a c \<Longrightarrow> arena_end c = unat (base a) + 2 ^ 20 \<and> unat (base a) \<le> arena_taken c \<and> arena_free c \<subseteq> arena_bytes (base a)"
proof -
  have A: "arena_wf a" "capacity a = 0x100000" "used a = 0" "unat (base a) + 2 ^ 20 \<le> 2 ^ 30"
    using place_arena_run [of memory] assms by (simp_all add: map_in_order_def arena_place_def)
  then show "arena_wf a" "unat (base a) + 2 ^ 20 \<le> 2 ^ 30" by blast+
  show "arena_range a = arena_bytes (base a)" "arena_free a = arena_bytes (base a)"
    using A(2,3) by (simp_all add: arena_range_def arena_free_def arena_bytes_def)
  show "arena_end c = unat (base a) + 2 ^ 20 \<and> unat (base a) \<le> arena_taken c \<and> arena_free c \<subseteq> arena_bytes (base a)" if "same_arena a c"
    using that A(2) by (auto simp: same_arena_def arena_end_def arena_taken_def arena_free_def arena_bytes_def)
qed

lemma enter_kernel_hands_over:
  assumes run: "enter_kernel S feats memory screen acpi ps found l = Some (Inr (h, m))"
    and disk: "fat_volume_ok disk (boot_volume l)" and order: "map_in_order memory"
    and a: "place_arena memory = Some (loader_arena l)" and none: "loaded_modules l = []"
    and ps: "length (processors ps) \<le> 256" and apart: "loader_apart (statics S) h"
  shows "handed_over disk (boot_volume l) S h m"
proof -
  let ?P = "statics S" and ?base = "base (loader_arena l)"
  let ?claimed = "\<lambda>img. claim_loader_memory memory ?base img"
  let ?facts = "\<lambda>img l2. kernel_facts img (?claimed img) (command_line_at ?P) screen acpi ps (loaded_modules l2)"
  obtain path l1 entry img l2 n b m1 pages where
    conf: "read_configuration (config_garbage S) (module_garbage S) ?P l = Some (path, l1)"
    and ker: "load_kernel (kernel_garbage S) memory path l1 = Some (entry, img, l2)"
    and ans: "answer_kernel_requests (loader_text S) img (?facts img l2) (loader_arena l2, memory_bytes_of l2) = Some (Some (n, b, m1))"
    and tab: "build_kernel_tables img (no_execute feats) (gigabyte_pages feats) b m1 = (Some pages, m)"
    and h: "h = \<lparr>entry_point = entry, kernel_tables = pages, kernel_image = img, firmware_map = memory,
       kernel_map = ?claimed img, arena_base = ?base, given_facts = ?facts img l2, features = feats, found_devices = found\<rparr>"
    by (rule enter_kernel_steps [OF run])
  note A = placed_arena [OF a order]
  note ap = apart [unfolded loader_apart_def h handoff.simps]
  obtain e where E: "booted_entry disk (boot_volume l) e" "path = kernel e @ [0]" "length (modules e) \<le> 8"
    "holds_command_line ?P (cmdline e) (memory_bytes_of l1)"
    "modules_held disk (boot_volume l) (arena_free (loader_arena l)) (modules e) (memory_bytes_of l1) (loaded_modules l1)"
    "map module_path (loaded_modules l1) = map (module_path_at ?P) [0..<length (modules e)]"
    "same_volume (boot_volume l) (boot_volume l1)" "fat_volume_ok disk (boot_volume l1)" "arena_wf (loader_arena l1)"
    "\<And>b. b \<in> set (loaded_modules l1) \<Longrightarrow> module_span b \<inter> arena_free (loader_arena l1) = {}"
    by (rule read_configuration_held [OF conf disk A(1) none]) (use ap A(2) in \<open>auto simp: places_ok_def\<close>)
  obtain f w where K: "open_file (kernel_garbage S) path (boot_volume l1) = Some (f, w)" "same_volume (boot_volume l1) w"
    "memory_bytes_of l2 = loaded (fat_content disk w f) kernel_placement (segments img) (memory_bytes_of l1)"
    "segments img = file_segments (fat_content disk w f) (program_offset (fat_content disk w f))
       (map of_nat [0..<program_count (fat_content disk w f)])"
    "entry = file_field (fat_content disk w f) 24 8" "loader_arena l2 = loader_arena l1" "loaded_modules l2 = loaded_modules l1"
    "image_wf img" "segments img \<noteq> []" "lowest_address img < highest_address img" "unat (highest_address img) \<le> 2 ^ 32"
    "\<forall>x. unat x \<notin> kernel_bytes img \<longrightarrow> memory_bytes_of l2 x = memory_bytes_of l1 x"
    by (rule load_kernel_memory [OF ker E(8)])
  note a1 = A(5) [OF read_configuration_arena [OF conf]]
  have split: "arena_end (loader_arena l1) \<le> unat (lowest_address img) \<or> unat (highest_address img) \<le> arena_taken (loader_arena l1)"
    using ap K(10) a1 ranges_apart [of "unat ?base" "unat ?base + 2 ^ 20" "unat (lowest_address img)" "unat (highest_address img)"]
    by (auto simp: arena_bytes_def kernel_bytes_def word_less_nat_alt)
  have "facts_ok (?facts img l2)"
    using claimed_in_order [OF order] ps E(3,6) by (intro kernel_facts_ok) (auto simp: K(7) dest: map_eq_imp_length_eq)
  note stay = answers_stay [OF E(9) _ this K(10,11,9) split ans [unfolded K(6)] tab]
  have end52: "arena_end (loader_arena l1) \<le> 2 ^ 52" using a1 A(4) by simp
  have outside: "m x = memory_bytes_of l1 x" if "unat x \<notin> arena_free (loader_arena l1)" "unat x \<notin> kernel_bytes img" for x
    using stay(3,4) [OF end52, of x] that K(12) by metis
  have clear: "unat x \<notin> arena_free (loader_arena l1)" if "unat x \<in> kernel_bytes img" for x
    using that ap a1 by blast
  have "kernel_in_place S (fat_content disk w f) h m"
    unfolding kernel_in_place_def h handoff.simps Let_def
    by (intro exI [of _ "memory_bytes_of l1"], unfold K(3) [symmetric], intro conjI allI impI ballI K(5) K(4) stay(1) [OF end52])
      (use stay(2,4) [OF end52] clear a1 in auto)
  moreover have "modules_held disk (boot_volume l) (arena_bytes ?base) (modules e) m (loaded_modules l1)"
  proof (rule modules_frame [OF E(5) [unfolded A(3)] _ _ E(3,6)])
    show "m x = memory_bytes_of l1 x" if "c \<in> set (loaded_modules l1)" "unat x \<in> module_span c" for x c
    proof (rule outside)
      show "unat x \<notin> arena_free (loader_arena l1)" using E(10) [OF that(1)] that(2) by blast
      have "unat x \<in> arena_bytes ?base" using E(5) that unfolding A(3) modules_held_def list_all_iff by blast
      then show "unat x \<notin> kernel_bytes img" using ap by blast
    qed
    show "m x = memory_bytes_of l1 x" if "unat x \<in> path_spans ?P 0 8" for x
      using that ap a1 by (intro outside) blast+
    show "places_ok ?P (loader_arena l) 8" using ap A(2) by (auto simp: places_ok_def)
  qed (use A(4) in \<open>auto simp: arena_bytes_def\<close>)
  moreover have "holds_command_line ?P (cmdline e) m"
    by (rule command_line_frame [OF E(4)]) (use ap a1 outside in blast)+
  moreover have "file_named disk (boot_volume l) (kernel e) (fat_content disk w f)"
    unfolding file_named_def using fat_content_same [OF same_volume_trans [OF E(7) K(2)], where x = "fat_file.walk f" and f = f] K(1) E(2,7)
    by auto
  ultimately show ?thesis
    unfolding handed_over_def using E(1)
    by (intro exI [of _ e] exI [of _ "fat_content disk w f"]) (simp add: h kernel_facts_def K(7))
qed

subsection \<open>The whole boot\<close>

text \<open>
  C2. On a machine with a drive whose loader buffers, arena and kernel are apart, whatever is on the disk: when the BIOS
  entry jumps into a kernel, some partition of the drive is a FAT volume; its configuration says to boot an entry; the file
  the entry names as kernel is in memory byte for byte where its headers say, but for the response fields of the requests in
  it, each of which leads to the answer the facts of this boot give; the facts have the final memory map, the command line
  of the entry, and its modules, which lie whole in the arena beside their paths. Nothing that is done after one of these is
  read writes over it.
\<close>

theorem boot_core_hands_over:
  assumes "drive_ok d"
    and "boot_main (drive_io ATA_PRIMARY_IO_BASE ATA_PRIMARY_CONTROL_BASE) query S boot_drive n buffer mode_info (m, d) =
      Some (Inr (h, m', d'))"
    and "loader_apart (statics S) h"
  shows "\<exists>start v. on_disk (platter d) start v \<and> handed_over (\<lambda>a. platter d (start + a)) v S h m'"
proof -
  obtain memory s1 screen acpi ps found a v start k where
    B: "fw_mem_snapshot (Some (beside_hardware (fw_bios_init boot_drive n buffer mode_info))) memory_map_clear (m, d) = Some ((True, memory), s1)"
    "length (processors ps) \<le> 256" "place_arena memory = Some a" "on_disk (platter d) start v"
    "enter_kernel S (cpu_features_detect query) memory screen acpi ps found
      \<lparr>boot_volume = v, loader_arena = a, memory_bytes_of = k, loaded_modules = []\<rparr> = Some (Inr (h, fst (m', d')))"
    by (rule drive_boot_steps [OF assms(1) assms(2) [unfolded boot_main_def]])
  have "map_in_order memory" by (rule bios_described_beside.described) (use B(1) in simp)
  then have "handed_over (\<lambda>a. platter d (start + a)) v S h m'"
    using enter_kernel_hands_over [OF B(5) _ _ _ _ B(2) assms(3)] B(3,4) by (simp add: on_disk_def)
  with B(4) show ?thesis by blast
qed

theorem boot_core_hands_over_witness:
  "\<exists>h m d start v. boot_main (drive_io ATA_PRIMARY_IO_BASE ATA_PRIMARY_CONTROL_BASE) boot_demo_cpuid boot_demo_surroundings 0x80 1 0x5000 0
      (boot_demo_ram, boot_demo_drive) = Some (Inr (h, m, d)) \<and> entry_point h = 0x200000 \<and>
      on_disk (platter boot_demo_drive) start v \<and> handed_over (\<lambda>a. platter boot_demo_drive (start + a)) v boot_demo_surroundings h m"
proof -
  let ?run = "boot_main (drive_io ATA_PRIMARY_IO_BASE ATA_PRIMARY_CONTROL_BASE) boot_demo_cpuid boot_demo_surroundings 0x80 1 0x5000 0
    (boot_demo_ram, boot_demo_drive)"
  obtain h m d where run: "?run = Some (Inr (h, m, d))" "entry_point h = 0x200000" "kernel_image h = kernel_demo_image"
    "arena_base h = 0x3FF00000"
    unfolding boot_main_def by (rule boot_demo_boots)
  have "drive_ok boot_demo_drive" by (simp add: drive_ok_def boot_demo_identity)
  moreover have "loader_apart (statics boot_demo_surroundings) h"
    by (auto simp: loader_apart_def run(3,4) boot_demo_surroundings_def demo_places_def kernel_demo_image_def arena_bytes_def
        kernel_bytes_def command_line_span_def path_spans_def)
  ultimately show ?thesis using boot_core_hands_over [OF _ run(1)] run(1,2) by blast
qed

end
