(* ===== verification/Ports.thy ===== *)
theory Ports
  imports Ata Pci
begin

text \<open>
  \<open>src/pci/pci_port.c\<close> and \<open>src/block/ata_port.c\<close>: the two users of the processor's ports. The instructions of
  \<open>src/cpu/port.h\<close> are the parameter, a record of functions on the state of the hardware. The reference is the host bridge
  of a PC, which answers at the data port with the register last written to the address port.
\<close>

abbreviation (input) PCI_CONFIG_ADDRESS_PORT :: u16 where "PCI_CONFIG_ADDRESS_PORT \<equiv> 0xCF8"
abbreviation (input) PCI_CONFIG_DATA_PORT :: u16 where "PCI_CONFIG_DATA_PORT \<equiv> 0xCFC"

record 's processor_ports =
  in_u8 :: "u16 \<Rightarrow> 's \<Rightarrow> u8 \<times> 's"
  out_u8 :: "u16 \<Rightarrow> u8 \<Rightarrow> 's \<Rightarrow> 's"
  in_u32 :: "u16 \<Rightarrow> 's \<Rightarrow> u32 \<times> 's"
  out_u32 :: "u16 \<Rightarrow> u32 \<Rightarrow> 's \<Rightarrow> 's"
  in_u16 :: "u16 \<Rightarrow> 's \<Rightarrow> u16 \<times> 's"

definition ata_port_io :: "'s processor_ports \<Rightarrow> 's ata_io" where
  "ata_port_io P = \<lparr>read_port_u8 = in_u8 P, write_port_u8 = out_u8 P, read_port_u16 = in_u16 P\<rparr>"

definition pci_port_config_read :: "'s processor_ports \<Rightarrow> u8 \<Rightarrow> u8 \<Rightarrow> u8 \<Rightarrow> u8 \<Rightarrow> 's \<Rightarrow> u32 \<times> 's" where
  "pci_port_config_read P b d f offset s =
     in_u32 P PCI_CONFIG_DATA_PORT (out_u32 P PCI_CONFIG_ADDRESS_PORT (pci_config_address b d f offset) s)"

subsection \<open>The bridge\<close>

text \<open>The register an address word selects, if it has the enable bit.\<close>

definition selected :: "u32 \<Rightarrow> (u8 \<times> u8 \<times> u8 \<times> u8) option" where
  "selected a =
     (if a AND PCI_CONFIG_ENABLE = 0 then None
      else Some (ucast (drop_bit 16 a), ucast (drop_bit 11 a AND 0x1F), ucast (drop_bit 8 a AND 7), ucast (a AND 0xFC)))"

record bridge =
  latched :: u32
  config_space :: pci_config_read_fn

definition bridge_ports :: "bridge processor_ports" where
  "bridge_ports =
     \<lparr>in_u8 = (\<lambda>_ s. (0xFF, s)), out_u8 = (\<lambda>_ _ s. s),
      in_u32 = (\<lambda>port s. (if port = PCI_CONFIG_DATA_PORT
         then case selected (latched s) of None \<Rightarrow> 0xFFFFFFFF | Some (b, d, f, offset) \<Rightarrow> config_space s b d f offset
         else 0xFFFFFFFF, s)),
      out_u32 = (\<lambda>port v s. if port = PCI_CONFIG_ADDRESS_PORT then s\<lparr>latched := v\<rparr> else s),
      in_u16 = (\<lambda>_ s. (0xFFFF, s))\<rparr>"

lemma small_bits: "unat (d :: u8) < 2 ^ k \<Longrightarrow> k \<le> n \<Longrightarrow> \<not> bit d n"
  by (metis bit_take_bit_iff not_le take_bit_nat_eq_self_iff unsigned_take_bit_eq word_eq_iff_unsigned)

lemma address_bits:
  assumes "unat d < 32" "unat f < 8"
  shows "bit (pci_config_address b d f offset) n \<longleftrightarrow>
    (if n < 8 then bit offset n \<and> 2 \<le> n else if n < 11 then bit f (n - 8) else if n < 16 then bit d (n - 11)
     else if n < 24 then bit b (n - 16) else n = 31)"
proof -
  have d: "\<not> bit d n" if "5 \<le> n" for n using small_bits [of d 5 n] assms(1) that by simp
  have f: "\<not> bit f n" if "3 \<le> n" for n using small_bits [of f 3 n] assms(2) that by simp
  have out: "\<not> bit (x :: u8) n" if "8 \<le> n" for x n using bit_imp_le_length [of x n] that by auto
  have top: "bit (0x80000000 :: u32) n \<longleftrightarrow> n = 31"
  proof -
    have "(0x80000000 :: u32) = push_bit 31 1" by (simp add: push_bit_eq_mult)
    then show ?thesis by (simp only: bit_push_bit_iff bit_1_iff) auto
  qed
  have low: "bit (0xFC :: u8) n \<longleftrightarrow> 2 \<le> n \<and> n < 8"
  proof -
    have "(0xFC :: u8) = push_bit 2 (mask 6)" by (simp add: push_bit_eq_mult mask_eq_exp_minus_1)
    then show ?thesis by (simp only: bit_push_bit_iff bit_mask_iff) auto
  qed
  show ?thesis
    unfolding pci_config_address_def
    by (simp only: bit_or_iff bit_and_iff bit_push_bit_iff bit_unsigned_iff top low) (auto simp: d f out)
qed

lemma selected_address:
  assumes "unat d < 32" "unat f < 8"
  shows "selected (pci_config_address b d f offset) = Some (b, d, f, offset AND 0xFC)"
proof -
  let ?a = "pci_config_address b d f offset"
  note a = address_bits [OF assms, of b offset]
  have d: "\<not> bit d n" if "5 \<le> n" for n using small_bits [of d 5 n] assms(1) that by simp
  have f: "\<not> bit f n" if "3 \<le> n" for n using small_bits [of f 3 n] assms(2) that by simp
  have m: "(0x1F :: u32) = mask 5" "(7 :: u32) = mask 3" "(0xFC :: u32) = push_bit 2 (mask 6)" "(0xFC :: u8) = push_bit 2 (mask 6)"
    by (simp_all add: mask_eq_exp_minus_1 push_bit_eq_mult)
  have "ucast (drop_bit 16 ?a) = b" "ucast (drop_bit 11 ?a AND 0x1F) = d" "ucast (drop_bit 8 ?a AND 7) = f"
    "ucast (?a AND 0xFC) = offset AND 0xFC"
    unfolding m by (rule bit_word_eqI; auto simp: bit_unsigned_iff bit_drop_bit_eq bit_and_iff bit_push_bit_iff bit_mask_iff a d f)+
  moreover have "?a AND 0x80000000 \<noteq> 0"
  proof
    assume "?a AND 0x80000000 = 0"
    moreover have "bit (?a AND 0x80000000) 31" by (simp add: bit_and_iff a)
    ultimately show False by simp
  qed
  ultimately show ?thesis by (simp add: selected_def)
qed

text \<open>Reading through the ports of a bridge is reading its registers, whatever was selected before.\<close>

lemma port_read_exact:
  assumes "unat d < 32" "unat f < 8"
  shows "pci_port_config_read bridge_ports b d f offset s =
    (config_space s b d f (offset AND 0xFC), s\<lparr>latched := pci_config_address b d f offset\<rparr>)"
  by (simp add: pci_port_config_read_def bridge_ports_def selected_address [OF assms])

text \<open>Enumeration asks for no more than four registers of 32 devices with 8 functions on a bus.\<close>

definition same_space :: "pci_config_read_fn \<Rightarrow> pci_config_read_fn \<Rightarrow> bool" where
  "same_space r r' \<longleftrightarrow> (\<forall>b d f offset. unat d < 32 \<and> unat f < 8 \<and> offset \<in> {PCI_VENDOR_OFFSET, PCI_CLASS_OFFSET,
     PCI_HEADER_TYPE_OFFSET, BRIDGE_SECONDARY_BUS_OFFSET} \<longrightarrow> r b d f offset = r' b d f offset)"

lemma visit_device_same:
  assumes "same_space r r'" "unat d < 32"
  shows "visit_device r b d = visit_device r' b d"
proof -
  have reg: "unat f < 8 \<Longrightarrow> r b d f 0 = r' b d f 0" "unat f < 8 \<Longrightarrow> r b d f 8 = r' b d f 8"
    "unat f < 8 \<Longrightarrow> r b d f 12 = r' b d f 12" "unat f < 8 \<Longrightarrow> r b d f 24 = r' b d f 24" for f
    using assms by (simp_all add: same_space_def)
  have fn: "visit_function r b d f = visit_function r' b d f" if "unat f < 8" for f
    by (rule ext) (unfold visit_function_def reg [OF that], rule refl)
  have "fold (\<lambda>k. visit_function r b d (of_nat k)) [1..<8] w = fold (\<lambda>k. visit_function r' b d (of_nat k)) [1..<8] w" for w
    by (intro fold_cong refl fn) (auto simp: unat_of_nat)
  then show ?thesis
    using reg [of 0] fn [of 0] by (simp add: fun_eq_iff visit_device_def Let_def)
qed

lemma walk_buses_same:
  "walk_buses r w = Some out \<Longrightarrow> same_space r r' \<longrightarrow> walk_buses r' w = Some out"
proof (rule walk_buses.raw_induct [where P = "\<lambda>r w out. same_space r r' \<longrightarrow> walk_buses r' w = Some out"], goal_cases)
  case (1 loop r w out)
  have same: "fold (\<lambda>device. visit_device r b (of_nat device)) [0..<32] v = fold (\<lambda>device. visit_device r' b (of_nat device)) [0..<32] v"
    if "same_space r r'" for b v
    by (intro fold_cong refl visit_device_same that) (auto simp: unat_of_nat)
  show ?case
  proof
    assume s: "same_space r r'"
    then show "walk_buses r' w = Some out"
      using 1(2,3) by (subst walk_buses.simps) (auto simp: Let_def same [OF s] split: if_splits)
  qed
qed

lemma pci_enumerate_same:
  assumes "same_space r r'"
  shows "pci_enumerate r = pci_enumerate r'"
proof -
  have "same_space r' r" using assms by (auto simp: same_space_def)
  then have "walk_buses r w = walk_buses r' w" for w
    using walk_buses_same [of r w _ r'] walk_buses_same [of r' w _ r] assms
    by (cases "walk_buses r w"; cases "walk_buses r' w") auto
  then show ?thesis by (simp add: pci_enumerate_def)
qed

text \<open>Through the ports of a bridge, whatever it had selected before each read, the machine it describes is found.\<close>

lemma pci_enumerate_ports:
  assumes "\<And>b d f offset. config_space (s b d f offset) = space"
  shows "pci_enumerate (\<lambda>b d f offset. fst (pci_port_config_read bridge_ports b d f offset (s b d f offset))) = pci_enumerate space"
  by (rule pci_enumerate_same) (auto simp: same_space_def port_read_exact assms)

end
