(* ===== verification/Boot_Returns.thy ===== *)
theory Boot_Returns
  imports Boot
begin

text \<open>
  No loop of the core runs forever, on whatever the firmware, the hardware and the disk answer: the loops whose end hangs on
  such data are partial functions, and their results are here followed through the whole of \<open>boot_core\<close>.
\<close>

text \<open>A firmware whose operations return.\<close>

locale answering_firmware =
  fixes fw :: "'s fw_ops option"
  assumes snapshot_returns: "\<exists>mm s'. fw_mem_snapshot fw memory_map_clear s = Some (mm, s')"
    and framebuffer_returns: "\<exists>fb s'. fw_framebuffer_acquire fw s = Some (fb, s')"
    and rsdp_returns: "\<exists>p s'. fw_rsdp_locate fw s = Some (p, s')"

text \<open>The scan for requests moves on at every step.\<close>

lemma scan_requests_returns:
  assumes "unat final + 40 < 2 ^ 64"
  shows "\<exists>res. scan_requests str start facts final off n s = Some res"
proof (induction "Suc (unat final) - unat off" arbitrary: off n s rule: less_induct)
  case less
  have ex: "\<exists>res. scan_requests str start facts final (off + k) n' s' = Some res" if "off \<le> final" "k \<in> {8, 40}" for k n' s'
  proof (rule less.hyps)
    have "unat (off + k) = unat off + unat k" "8 \<le> unat k"
      using that assms by (auto simp: word_le_nat_alt unat_add_fits)
    then show "Suc (unat final) - unat (off + k) < Suc (unat final) - unat off"
      using that(1) by (simp add: word_le_nat_alt)
  qed
  show ?case
  proof (cases "off \<le> final")
    case True
    from ex [OF True, of 8] ex [OF True, of 40] show ?thesis
      by (subst scan_requests.simps) (auto simp: Let_def add.assoc split: option.split)
  qed (subst scan_requests.simps, simp)
qed

lemma answer_requests_returns:
  assumes "unat (highest_address img) \<le> 2 ^ 32" "lowest_address img < highest_address img"
  shows "\<exists>res. answer_kernel_requests str img facts s = Some res"
proof -
  have "unat (highest_address img - lowest_address img) \<le> 2 ^ 32"
    using assms by (simp add: unat_sub_fits less_imp_le word_le_nat_alt word_less_nat_alt)
  moreover have "unat (k - 40) + 40 < 2 ^ 64" if "unat k \<le> 2 ^ 32" "\<not> k < 40" for k :: u64
    using that by (simp add: unat_sub_fits word_le_nat_alt word_less_nat_alt)
  ultimately show ?thesis
    using scan_requests_returns by (auto simp: answer_kernel_requests_def protocol_answer_def)
qed

lemma enter_kernel_returns: "\<exists>res. enter_kernel S feats memory screen acpi ps found l = Some res"
proof (cases "read_configuration (config_garbage S) (module_garbage S) (statics S) l")
  case (Some c)
  obtain path l1 where c: "c = (path, l1)" by fastforce
  show ?thesis
  proof (cases "load_kernel (kernel_garbage S) memory path l1")
    case loaded: (Some k)
    obtain entry img l2 where k: "k = (entry, img, l2)" by (cases k)
    from loaded k have "load_kernel (kernel_garbage S) memory path l1 = Some (entry, img, l2)" by simp
    from load_kernel_checked [OF this] have "unat (highest_address img) \<le> 2 ^ 32" "lowest_address img < highest_address img" by blast+
    from answer_requests_returns [OF this] show ?thesis
      using Some c loaded k by (auto simp: enter_kernel_def Let_def opt_bind)
  qed (use Some c in \<open>simp add: enter_kernel_def\<close>)
qed (simp add: enter_kernel_def)

text \<open>The lists of tables and processors end, as the tables that are collected have passed their checks.\<close>

lemma acpi_tables_usable: "list_all (table_usable m) (tables (snd (acpi_collect m r phys)))"
proof -
  have "list_all (table_usable m) (take 64 (collected m phys root w))" for root w
    by (auto simp: collected_def list_all_iff dest: in_set_takeD)
  then show ?thesis
    by (cases "rsdp_root m r phys") (simp add: acpi_collect_run Let_def)
qed

context answering_firmware
begin

lemma describe_machine_returns: "\<exists>acpi ps s'. describe_machine M fw s = Some (acpi, ps, s')"
proof -
  obtain p s' where p: "fw_rsdp_locate fw s = Some (p, s')" using rsdp_returns by blast
  obtain ok ts where ts: "acpi_collect (ram M s') p acpi_identity_map = (ok, ts)" by fastforce
  have "list_all (table_usable (ram M s')) (tables ts)" using acpi_tables_usable [of "ram M s'" p acpi_identity_map] ts by simp
  from acpi_processors_run [OF this] p ts show ?thesis
    by (cases ok) (auto simp: describe_machine_def Let_def opt_bind split: if_split)
qed

lemma acquire_screen_returns: "\<exists>screen t s'. acquire_screen M fw s = Some (screen, t, s')"
proof -
  obtain fb s' where "fw_framebuffer_acquire fw s = Some (fb, s')" using framebuffer_returns by blast
  then show ?thesis by (auto simp: acquire_screen_def Let_def split: option.split)
qed

lemma boot_core_returns: "\<exists>res. boot_core M S fw s = Some res"
proof -
  obtain ok mm s1 where one: "fw_mem_snapshot fw memory_map_clear s = Some ((ok, mm), s1)"
    using snapshot_returns [of s] by (metis surj_pair)
  obtain screen t s2 where two: "acquire_screen M fw s1 = Some (screen, t, s2)" using acquire_screen_returns by blast
  obtain acpi ps s3 where three: "describe_machine M fw s2 = Some (acpi, ps, s3)" using describe_machine_returns by blast
  obtain found where four: "describe_devices (config_read S) = Some found"
    using pci_enumerate_run [of "config_read S"] by (auto simp: describe_devices_def)
  obtain r s4 where five: "attach_boot_disk (ata_ports M) s3 = (r, s4)" by fastforce
  have "\<exists>res. enter_kernel S feats mm screen acpi ps found l = Some res" for feats l by (rule enter_kernel_returns)
  then show ?thesis
    using one two three four five unfolding boot_core_def Let_def
    by (auto split: option.split sum.split if_split simp: opt_bind)
qed

end

lemma bios_rsdp_returns: "\<exists>p. bios_rsdp_locate m = Some (p, m)"
  by (auto simp: bios_rsdp_locate_def Let_def acpi_find_rsdp_run)

interpretation bios_answers: answering_firmware "Some (beside_hardware (fw_bios_init d n buffer mode_info))"
  for d n buffer mode_info
proof
  fix s :: "mem \<times> 'a"
  show "\<exists>mm s'. fw_mem_snapshot (Some (beside_hardware (fw_bios_init d n buffer mode_info))) memory_map_clear s = Some (mm, s')"
    by (cases s) (simp add: fw_mem_snapshot_def beside_hardware_def fw_bios_init_def bios_mem_snapshot_def Let_def)
  show "\<exists>fb s'. fw_framebuffer_acquire (Some (beside_hardware (fw_bios_init d n buffer mode_info))) s = Some (fb, s')"
    by (cases s) (simp add: fw_framebuffer_acquire_def beside_hardware_def fw_bios_init_def bios_framebuffer_acquire_def Let_def)
  show "\<exists>p s'. fw_rsdp_locate (Some (beside_hardware (fw_bios_init d n buffer mode_info))) s = Some (p, s')"
    using bios_rsdp_returns [of "fst s"]
    by (cases s) (auto simp: fw_rsdp_locate_def beside_hardware_def fw_bios_init_def Let_def)
qed

text \<open>
  C3. Booted by a BIOS, the core always gets to an end: with whatever is in memory and in the configuration space, whatever
  the ports answer and whatever is on the disk, it jumps into a kernel or returns with a reason. Writing the log to the
  serial port, which waits for the transmitter for as long as it takes, is left out.
\<close>

theorem boot_main_ends: "\<exists>outcome. boot_main io query S boot_drive n buffer mode_info s = Some outcome"
  unfolding boot_main_def by (rule bios_answers.boot_core_returns)

end
