(* ===== verification/Spec2Isabelle.thy ===== *)
theory Spec2Isabelle
  imports Reader Mem Str Log Serial Arena Memory_Map Paging Block Partition Elf Path Fat Ext2 Config Acpi Pci Framebuffer Terminal Protocol Firmware_Memory Firmware_Video Firmware Ata Cpu Machine Font Boot_Screen Boot_Memory Boot_Tables Boot_Files Boot_Disk Boot Boot_Demo Boot_Delivery Ports Boot_Returns
begin

text \<open>
  A verification development for tunix-boot, a boot loader for BIOS and UEFI.

  \<^bold>\<open>The program.\<close> Either firmware hands over to an entry, \<open>boot_main\<close> or \<open>efi_main\<close>, which fills in a \<open>struct fw_ops\<close>
  and calls \<open>boot_core\<close> (\<open>src/boot/main.c\<close>). The core asks the processor for its features and the firmware for a memory
  map, a framebuffer and the ACPI root; places an arena in usable memory; reads the disk through the ATA ports, its
  partitions and a FAT volume; reads a configuration, the modules it names and an ELF kernel; answers the requests in the
  kernel's image; builds page tables; and jumps. Below it are libraries that know nothing of each other except by calls
  and by parameters (a backend for sectors, a reading callback, port operations, a mapping callback).

  \<^bold>\<open>Theories and source files.\<close> All paths are under \<open>src/\<close>. A definition has the name of the C function, type or macro it
  translates; a loop is a definition of its own beside the function it is in.

    \<^item> \<open>Boot_Prelude\<close>: the widths \<open>u8\<close> to \<open>u64\<close>, byte addressed memory \<open>mem\<close>, and the lemmas on words, lists and options
      the components share (collections \<open>word_nat\<close>, \<open>opt_bind\<close> and others).
    \<^item> Utilities: \<open>Checked\<close> (\<open>util/checked.h\<close>), \<open>Reader\<close> (\<open>util/reader\<close>), \<open>Mem\<close> (\<open>util/mem\<close>), \<open>Str\<close> (\<open>util/str\<close>), \<open>Log\<close>
      (\<open>log/log\<close>), \<open>Serial\<close> (\<open>serial/serial\<close>).
    \<^item> Memory: \<open>Arena\<close> (\<open>memory/arena\<close>), \<open>Memory_Map\<close> (\<open>memory/map\<close>), \<open>Paging\<close> (\<open>memory/paging\<close>).
    \<^item> Disk: \<open>Ata\<close> (\<open>block/ata\<close>), \<open>Block\<close> (\<open>block/block\<close>), \<open>Partition\<close> (\<open>block/partition\<close>), \<open>Path\<close> (the walk along a path
      both file systems share), \<open>Fat\<close> (\<open>fs/fat\<close>), \<open>Ext2\<close> (\<open>fs/ext2\<close>).
    \<^item> Formats: \<open>Elf\<close> (\<open>elf/elf\<close>), \<open>Config\<close> (\<open>config/config\<close>), \<open>Acpi\<close> (\<open>acpi/acpi\<close>), \<open>Protocol\<close> (\<open>protocol/protocol\<close>).
    \<^item> Hardware and firmware: \<open>Pci\<close> (\<open>pci/pci\<close>), \<open>Ports\<close> (\<open>pci/pci_port.c\<close>, \<open>block/ata_port.c\<close>), \<open>Cpu\<close> (\<open>cpu/cpuid\<close>,
      \<open>cpu/gdt\<close>, \<open>boot/guard.c\<close>), \<open>Firmware_Memory\<close> (\<open>fw/bios/e820.c\<close>, \<open>fw/uefi/memory.c\<close>), \<open>Firmware_Video\<close>
      (\<open>fw/bios/vbe.c\<close>, \<open>fw/uefi/graphics.c\<close>), \<open>Firmware\<close> (\<open>fw/fw.c\<close> and both backends).
    \<^item> Screen: \<open>Framebuffer\<close> (\<open>video/framebuffer\<close>), \<open>Terminal\<close> (\<open>terminal/terminal\<close>), \<open>Font\<close> (\<open>terminal/font8x16.c\<close>).
    \<^item> The core, \<open>boot/main.c\<close> by the part it plays: \<open>Machine\<close> (what the core stands on), \<open>Boot_Screen\<close>, \<open>Boot_Memory\<close>,
      \<open>Boot_Tables\<close>, \<open>Boot_Disk\<close>, \<open>Boot_Files\<close>, and \<open>Boot\<close>, which composes them and the two entries. \<open>Boot_Delivery\<close> follows the configuration, the
      modules and the kernel from the disk to the jump, \<open>Boot_Returns\<close> shows that every boot by a BIOS ends. \<open>Boot_Demo\<close> is a machine and a disk that boot, the input of the
      witnesses of both.

  \<^bold>\<open>How the code is rendered.\<close> A C integer is a word of its width, and sums wrap as in C. A \<open>bool\<close> result with out
  parameters is an option of their values, an \<open>out\<close> structure that also changes on failure is part of the result. A
  \<open>struct\<close> is a record, except where the kernel or the firmware reads it by its layout: then it is bytes in memory at the
  offsets of that layout. The loader runs identity mapped, so a pointer is an address, \<open>NULL\<close> is 0 or \<open>None\<close>, and the
  memory is passed along. Buffers on the stack begin with arbitrary bytes, which are parameters. Callbacks and what lies
  behind a port are parameters: functions on a state of any type.

  \<^bold>\<open>Loops.\<close> Bounded loops are structural recursions or folds. \<open>paging_map\<close> has as many turns as the range has pages. The
  polling loops of the ATA driver have the \<open>ATA_POLL_ATTEMPTS\<close> turns of the source, and the claims on drives assume a drive
  that is slower than none of them. Where only data of the firmware or the device makes a loop end (\<open>scan_rsdp\<close>,
  \<open>madt_loop\<close>, \<open>uefi_descriptors\<close>, \<open>walk_buses\<close>, \<open>serial_wait\<close>, \<open>scan_requests\<close>, the loops over a channel mask), it is a
  \<open>partial_function\<close> and not returning is the value \<open>None\<close>; the properties of these functions say when they return.

  \<^bold>\<open>What the lemmas show.\<close>

    \<^item> Parsers are total and exact: \<open>Elf\<close>, \<open>Config\<close>, \<open>Acpi\<close>, \<open>Partition\<close>, \<open>Firmware_Memory\<close> and \<open>Firmware_Video\<close> give the
      values that are at the offsets of the format, in the order of the format, and refuse what is outside the bounds. What
      a file, a table or a descriptor means is stated on its bytes, apart from the code: \<open>acceptable\<close> and \<open>described\<close> of an
      ELF file, \<open>sound_rsdp\<close> and \<open>sound_table\<close> of ACPI, \<open>e820_meaning\<close> of a firmware type, \<open>reply\<close> of a request.
    \<^item> Storage is a refinement of a flat disk: \<open>Ata\<close> reads the sectors of the platter and only ever issues reads, \<open>Block\<close>
      any range of bytes, \<open>Partition\<close> the same of a part, \<open>Fat\<close> and \<open>Ext2\<close> the same of the content of a file, whatever the
      cache holds. A device that stores part of a sector it fails to read spoils the cached FAT sector, as in the code: what
      is read before is sound, what is read after need not be (\<open>torn_cache_answers\<close>). The ATA driver stores nothing of one.
    \<^item> Memory: a finalised map is sorted, disjoint, merged, and gives every byte the strongest kind claimed for it, as far
      as its 128 regions reach; allocations are aligned, inside the arena and apart; the tables translate exactly what was
      mapped, keep what was mapped before, and a mapping over another is refused.
    \<^item> The core: the arena, the kernel and the modules are where they should be; the map the kernel is handed does not call
      them usable; the tables hold exactly the mappings meant, where a segment linked where it is loaded has the rights of
      the identity map and not those of its header; and, composed for both entries, whenever the core jumps all
      of this holds together. On a machine with a drive the entry of its configuration is what is booted: its kernel is in
      memory as its file has it, its requests are answered, and its modules and command line are whole, as no later step
      writes over what an earlier one has read.

  \<^bold>\<open>Interfaces\<close> are locales: \<open>allocator\<close> (the arena), \<open>byte_source\<close> (block device, FAT file, ext2 file),
  \<open>read_only_hardware\<close> (what the ATA driver never does to a drive), \<open>described_memory\<close> (a firmware whose map is in order,
  both backends), \<open>memory_of_state\<close> (a machine whose state holds the memory, both), \<open>answering_firmware\<close> (a firmware whose operations
  return, the BIOS), and \<open>booted_machine\<close>, which extends two of them and carries the theorem on the core.

  \<^bold>\<open>Reference devices.\<close> The claims on drivers are about devices that punish a missing wait: the UART of \<open>Serial\<close> loses the
  bytes written while its transmitter is busy, and the drive of \<open>Ata\<close> answers 0xFFFF at its data register while it is.

  \<^bold>\<open>Bounds on the claims.\<close> Addresses of page tables are below \<open>2 ^ 52\<close>, as the entries of the tables need; a physical address
  that is mapped is cut to 52 bits. The map the kernel is handed is sure to be complete for up to 62 regions of the
  firmware, and to call no claimed byte usable for up to 126. A file of a FAT
  volume is shorter than four gigabytes by its format. \<open>drive_ok\<close> asks for a drive whose size fits its addressing mode
  and whose delays are shorter than the polling loops. \<open>loader_apart\<close> asks that the kernel is loaded clear of the arena and
  both clear of the static buffers, which the code does not check. The device of the boot disk reads the drive in the
  state it had when it was attached: the lemmas of \<open>Boot_Disk\<close> show that a drive reads the same in any later one, and hardware that answers
  the same read differently at another time is outside the theorems on the core.

  \<^bold>\<open>Not modelled.\<close> The assembly stages, the linker scripts and the tools, which are not C of the loader. The instruction
  wrappers \<open>cpu/port.h\<close>, \<open>cpu/control.h\<close> and \<open>cpuid_execute\<close>: what they do is a parameter. What the core logs,
  \<open>report_features\<close> and \<open>report_memory\<close>, which only log, and the routing of log lines to the screen inside the core
  (\<open>Log\<close>, \<open>Terminal\<close> and \<open>Serial\<close> are modelled on their own). Null arguments the callers never pass. The time stamp
  and the compiler hooks of the stack guard. The firmware itself, the kernel, and all concurrency, of which the loader has
  none.
\<close>

end
